(* ===== verification/Urdira_Prelude.thy ===== *)
theory Urdira_Prelude
  imports Main "HOL-Library.Word" "HOL-Library.AList" "HOL-Library.Sublist" "HOL-Library.Multiset"
begin

text \<open>
  Shared vocabulary of the development.  A JavaScript exception is the left injection of a sum
  (\<open>res_bind\<close> sequences fallible steps), an insertion-ordered \<open>Map\<close> is an association list with
  \<open>AList.update\<close> / \<open>AList.delete\<close>, a three-way comparison function is an \<open>int\<close>-valued function
  under the contract of the locale \<open>comparator\<close>, \<open>Array.prototype.sort\<close> is the stable
  \<open>sort_by\<close>, and a component with reachable states instantiates the locale
  \<open>transition_system\<close>.
\<close>

named_theorems res_simps \<open>evaluation rules of the exception sum\<close>
named_theorems jsmap_simps \<open>lookup laws of insertion-ordered maps\<close>

section \<open>Exceptions as sums\<close>

definition res_bind :: "'e + 'a \<Rightarrow> ('a \<Rightarrow> 'e + 'b) \<Rightarrow> 'e + 'b" where
  "res_bind r f = (case r of Inl e \<Rightarrow> Inl e | Inr x \<Rightarrow> f x)"

lemma res_bind_simps [simp, res_simps]:
  "res_bind (Inl e) f = Inl e"
  "res_bind (Inr x) f = f x"
  by (simp_all add: res_bind_def)

lemma res_bind_Inr_iff [res_simps]:
  "res_bind r f = Inr y \<longleftrightarrow> (\<exists>x. r = Inr x \<and> f x = Inr y)"
  by (cases r) auto

lemma res_bind_Inl_iff [res_simps]:
  "res_bind r f = Inl e \<longleftrightarrow> r = Inl e \<or> (\<exists>x. r = Inr x \<and> f x = Inl e)"
  by (cases r) auto

lemma res_bind_cong [fundef_cong]:
  "r = r' \<Longrightarrow> (\<And>x. r' = Inr x \<Longrightarrow> f x = g x) \<Longrightarrow> res_bind r f = res_bind r' g"
  by (cases r') auto

text \<open>A loop that calls a fallible function on each element and stops at the first exception.\<close>

fun res_map :: "('a \<Rightarrow> 'e + 'b) \<Rightarrow> 'a list \<Rightarrow> 'e + 'b list" where
  "res_map f [] = Inr []"
| "res_map f (x # xs) = res_bind (f x) (\<lambda>y. res_bind (res_map f xs) (\<lambda>ys. Inr (y # ys)))"

fun res_fold :: "('a \<Rightarrow> 's \<Rightarrow> 'e + 's) \<Rightarrow> 'a list \<Rightarrow> 's \<Rightarrow> 'e + 's" where
  "res_fold f [] s = Inr s"
| "res_fold f (x # xs) s = res_bind (f x s) (res_fold f xs)"

lemma res_map_cong [fundef_cong]:
  "xs = ys \<Longrightarrow> (\<And>x. x \<in> set ys \<Longrightarrow> f x = g x) \<Longrightarrow> res_map f xs = res_map g ys"
proof (induction ys arbitrary: xs)
  case (Cons y ys)
  then have "f y = g y" "res_map f ys = res_map g ys" by auto
  then show ?case using Cons.prems(1) by simp
qed simp

lemma res_map_total:
  "(\<And>x. x \<in> set xs \<Longrightarrow> f x = Inr (g x)) \<Longrightarrow> res_map f xs = Inr (map g xs)"
  by (induction xs) auto

lemma res_map_Inr_length: "res_map f xs = Inr ys \<Longrightarrow> length ys = length xs"
  by (induction xs arbitrary: ys) (auto simp: res_bind_Inr_iff)

lemma res_map_Inr_nth:
  "res_map f xs = Inr ys \<Longrightarrow> i < length xs \<Longrightarrow> f (xs ! i) = Inr (ys ! i)"
proof (induction xs arbitrary: ys i)
  case Nil
  then show ?case by simp
next
  case (Cons x xs)
  then obtain y ys' where "f x = Inr y" "res_map f xs = Inr ys'" "ys = y # ys'"
    by (auto simp: res_bind_Inr_iff)
  with Cons show ?case by (cases i) auto
qed

lemma res_fold_append:
  "res_fold f (xs @ ys) s = res_bind (res_fold f xs s) (res_fold f ys)"
proof (induction xs arbitrary: s)
  case Nil
  then show ?case by simp
next
  case (Cons x xs)
  then show ?case by (cases "f x s") auto
qed

section \<open>Insertion-ordered maps\<close>

text \<open>
  \<open>Map.prototype.set\<close> overwrites in place or appends, which is \<open>AList.update\<close>;
  \<open>delete\<close> is \<open>AList.delete\<close>, \<open>has\<close> and \<open>get\<close> read \<open>map_of\<close>, \<open>size\<close> is \<open>length\<close>.
\<close>

type_synonym ('k, 'v) jsmap = "('k \<times> 'v) list"

abbreviation jget :: "('k, 'v) jsmap \<Rightarrow> 'k \<Rightarrow> 'v option" where
  "jget m k \<equiv> map_of m k"

abbreviation jset :: "'k \<Rightarrow> 'v \<Rightarrow> ('k, 'v) jsmap \<Rightarrow> ('k, 'v) jsmap" where
  "jset \<equiv> AList.update"

abbreviation jdelete :: "'k \<Rightarrow> ('k, 'v) jsmap \<Rightarrow> ('k, 'v) jsmap" where
  "jdelete \<equiv> AList.delete"

abbreviation jkeys :: "('k, 'v) jsmap \<Rightarrow> 'k list" where
  "jkeys m \<equiv> map fst m"

definition jhas :: "('k, 'v) jsmap \<Rightarrow> 'k \<Rightarrow> bool" where
  "jhas m k \<longleftrightarrow> map_of m k \<noteq> None"

definition jget_or :: "'v \<Rightarrow> ('k, 'v) jsmap \<Rightarrow> 'k \<Rightarrow> 'v" where
  "jget_or d m k = (case map_of m k of None \<Rightarrow> d | Some v \<Rightarrow> v)"

lemma jget_jset [simp, jsmap_simps]: "map_of (jset k v m) = (map_of m)(k \<mapsto> v)"
  by (rule update_conv')

lemma jget_jdelete [simp, jsmap_simps]: "map_of (jdelete k m) = (map_of m)(k := None)"
  by (rule delete_conv')

lemma jhas_iff [simp]: "jhas m k \<longleftrightarrow> k \<in> set (jkeys m)"
  by (simp add: jhas_def map_of_eq_None_iff)

lemma jkeys_jset: "set (jkeys (jset k v m)) = insert k (set (jkeys m))"
  by (simp add: dom_update)

lemma jkeys_jset_eq:
  "jkeys (jset k v m) = (if k \<in> set (jkeys m) then jkeys m else jkeys m @ [k])"
  by (simp add: update_keys)

lemma jkeys_jdelete: "jkeys (jdelete k m) = filter (\<lambda>k'. k' \<noteq> k) (jkeys m)"
  by (simp add: delete_keys removeAll_filter_not_eq eq_commute)

lemma keys_jdelete [simp, jsmap_simps]: "fst ` set (jdelete k m) = fst ` set m - {k}"
  by (induction m) auto

lemma distinct_jset [simp]: "distinct (jkeys m) \<Longrightarrow> distinct (jkeys (jset k v m))"
  by (rule distinct_update)

lemma distinct_jdelete [simp]: "distinct (jkeys m) \<Longrightarrow> distinct (jkeys (jdelete k m))"
  by (rule distinct_delete)

lemma jget_or_simps [simp, jsmap_simps]:
  "jget_or d (jset k v m) k' = (if k = k' then v else jget_or d m k')"
  "jget_or d (jdelete k m) k' = (if k = k' then d else jget_or d m k')"
  "jget_or d [] k' = d"
  by (simp_all add: jget_or_def)

lemma jget_Some_key: "jget m k = Some v \<Longrightarrow> k \<in> set (jkeys m)"
  by (metis domI dom_map_of_conv_image_fst image_set)

lemma find_snoc: "find P (xs @ [x]) = (case find P xs of Some y \<Rightarrow> Some y | None \<Rightarrow> if P x then Some x else None)"
  by (induction xs) auto

section \<open>Comparison functions and stable sorting\<close>

text \<open>
  \<open>Array.prototype.toSorted\<close> and \<open>sort\<close> are stable; with a consistent comparison function the
  stable sorted arrangement is unique, so insertion from the right computes it.
\<close>

fun insort_by :: "('a \<Rightarrow> 'a \<Rightarrow> int) \<Rightarrow> 'a \<Rightarrow> 'a list \<Rightarrow> 'a list" where
  "insort_by cmp x [] = [x]"
| "insort_by cmp x (y # ys) = (if cmp x y \<le> 0 then x # y # ys else y # insort_by cmp x ys)"

definition sort_by :: "('a \<Rightarrow> 'a \<Rightarrow> int) \<Rightarrow> 'a list \<Rightarrow> 'a list" where
  "sort_by cmp xs = foldr (insort_by cmp) xs []"

lemma mset_insort_by [simp]: "mset (insort_by cmp x xs) = add_mset x (mset xs)"
  by (induction xs) auto

lemma mset_sort_by [simp]: "mset (sort_by cmp xs) = mset xs"
  by (induction xs) (auto simp: sort_by_def)

lemma set_sort_by [simp]: "set (sort_by cmp xs) = set xs"
  by (metis mset_sort_by set_mset_mset)

lemma length_sort_by [simp]: "length (sort_by cmp xs) = length xs"
  by (metis mset_sort_by size_mset)

lemma distinct_sort_by [simp]: "distinct (sort_by cmp xs) = distinct xs"
  by (metis mset_sort_by mset_eq_imp_distinct_iff)

lemma sort_by_map:
  assumes "\<And>x y. cmp (g x) (g y) = cmp' x y"
  shows "sort_by cmp (map g xs) = map g (sort_by cmp' xs)"
proof -
  have ins: "insort_by cmp (g x) (map g ys) = map g (insort_by cmp' x ys)" for x ys
    by (induction ys) (auto simp: assms)
  show ?thesis by (induction xs) (auto simp: sort_by_def ins)
qed

text \<open>The contract of a three-way comparison: the sign is antisymmetric, \<open>\<le> 0\<close> is transitive.\<close>

locale comparator =
  fixes cmp :: "'a \<Rightarrow> 'a \<Rightarrow> int"
  assumes cmp_swap: "sgn (cmp y x) = - sgn (cmp x y)"
    and cmp_trans: "cmp x y \<le> 0 \<Longrightarrow> cmp y z \<le> 0 \<Longrightarrow> cmp x z \<le> 0"
begin

lemma cmp_refl: "cmp x x = 0"
  using cmp_swap [of x x] by (simp add: sgn_if split: if_splits)

lemma cmp_neg_iff: "cmp y x < 0 \<longleftrightarrow> cmp x y > 0"
  using cmp_swap [of x y] by (auto simp: sgn_if split: if_splits)

lemma cmp_le_iff: "cmp y x \<le> 0 \<longleftrightarrow> cmp x y \<ge> 0"
  using cmp_swap [of x y] by (auto simp: sgn_if split: if_splits)

lemma cmp_total: "cmp x y \<le> 0 \<or> cmp y x \<le> 0"
  using cmp_neg_iff [of x y] by linarith

lemma cmp_less_trans: "cmp x y < 0 \<Longrightarrow> cmp y z \<le> 0 \<Longrightarrow> cmp x z < 0"
  using cmp_trans [of z x y] cmp_trans [of y z x]
  by (metis cmp_le_iff cmp_trans leD leI less_imp_le)

lemma cmp_trans_less: "cmp x y \<le> 0 \<Longrightarrow> cmp y z < 0 \<Longrightarrow> cmp x z < 0"
  using cmp_trans [of z x y] cmp_le_iff [of z x] cmp_le_iff [of z y] by linarith

lemma cmp_zero_split: "cmp x z = 0 \<Longrightarrow> cmp x y \<le> 0 \<Longrightarrow> cmp y z \<le> 0 \<Longrightarrow> cmp x y = 0 \<and> cmp y z = 0"
  using cmp_less_trans [of x y z] cmp_trans_less [of x y z] by linarith

lemma cmp_zero_swap: "cmp x y = 0 \<longleftrightarrow> cmp y x = 0"
  using cmp_swap [of x y] by (auto simp: sgn_if split: if_splits)

lemma sorted_insort_by:
  "sorted_wrt (\<lambda>x y. cmp x y \<le> 0) xs \<Longrightarrow> sorted_wrt (\<lambda>x y. cmp x y \<le> 0) (insort_by cmp x xs)"
proof (induction xs)
  case Nil
  then show ?case by simp
next
  case (Cons y ys)
  have set_eq: "set (insort_by cmp x ys) = insert x (set ys)"
    by (metis mset_insort_by set_mset_add_mset_insert set_mset_mset)
  show ?case
  proof (cases "cmp x y \<le> 0")
    case True
    with Cons.prems show ?thesis by (auto intro: cmp_trans)
  next
    case False
    then have "cmp y x \<le> 0" using cmp_total by blast
    with False Cons show ?thesis by (simp add: set_eq)
  qed
qed

lemma sorted_sort_by: "sorted_wrt (\<lambda>x y. cmp x y \<le> 0) (sort_by cmp xs)"
  by (induction xs) (auto simp: sort_by_def intro: sorted_insort_by)

text \<open>Two sorted arrangements of the same elements agree position by position up to ties.\<close>

lemma sorted_classes:
  assumes "sorted_wrt (\<lambda>x y. cmp x y \<le> 0) xs" and "sorted_wrt (\<lambda>x y. cmp x y \<le> 0) ys"
    and "image_mset (\<lambda>x. {z. cmp x z = 0}) (mset xs) = image_mset (\<lambda>x. {z. cmp x z = 0}) (mset ys)"
  shows "map (\<lambda>x. {z. cmp x z = 0}) xs = map (\<lambda>x. {z. cmp x z = 0}) ys"
  using assms
proof (induction xs arbitrary: ys)
  case (Cons x xs)
  let ?c = "\<lambda>x. {z. cmp x z = 0}"
  from Cons.prems(3) obtain y ys' where ys: "ys = y # ys'" by (cases ys) auto
  have least: "cmp a b \<le> 0" if "sorted_wrt (\<lambda>x y. cmp x y \<le> 0) (a # as)" "?c b \<in> ?c ` set (a # as)" for a b as
  proof -
    have "\<exists>d. d \<in> set (a # as) \<and> ?c b = ?c d" using that(2) by auto
    then obtain d where d: "d \<in> set (a # as)" "?c b = ?c d" by blast
    then have "cmp a d \<le> 0" using that(1) cmp_refl by auto
    moreover have "cmp d b = 0" using d(2) cmp_refl [of b] by auto
    ultimately show ?thesis using cmp_trans [of a d b] by simp
  qed
  have sets: "?c ` set (x # xs) = ?c ` set ys" using arg_cong [OF Cons.prems(3), of set_mset] by simp
  have "?c y \<in> ?c ` set (x # xs)" unfolding sets ys by simp
  moreover have "?c x \<in> ?c ` set (y # ys')" unfolding ys [symmetric] sets [symmetric] by simp
  ultimately have "cmp x y \<le> 0" "cmp y x \<le> 0" using least Cons.prems(1,2) unfolding ys by blast+
  then have tie: "cmp x y = 0" using cmp_le_iff [of y x] by linarith
  have same: "?c x = ?c y"
  proof (intro set_eqI iffI; simp)
    show "cmp y z = 0" if "cmp x z = 0" for z
      using that tie cmp_trans [of y x z] cmp_trans [of z x y] cmp_zero_swap [of x y] cmp_zero_swap [of x z] cmp_le_iff [of y z] cmp_le_iff [of z y] by linarith
    show "cmp x z = 0" if "cmp y z = 0" for z
      using that tie cmp_trans [of x y z] cmp_trans [of z y x] cmp_zero_swap [of x y] cmp_zero_swap [of y z] cmp_le_iff [of x z] cmp_le_iff [of z x] by linarith
  qed
  then show ?case using Cons.IH [of ys'] Cons.prems ys by simp
qed simp

end

text \<open>A comparison function that separates distinct values has a unique sorted arrangement.\<close>

locale strict_comparator = comparator +
  assumes cmp_eq: "cmp x y = 0 \<Longrightarrow> x = y"
begin

lemma cmp_zero_iff: "cmp x y = 0 \<longleftrightarrow> x = y"
  using cmp_eq cmp_refl by blast

lemma sorted_unique:
  assumes "sorted_wrt (\<lambda>x y. cmp x y \<le> 0) xs" and "sorted_wrt (\<lambda>x y. cmp x y \<le> 0) ys"
    and "mset xs = mset ys"
  shows "xs = ys"
  using assms
proof (induction xs arbitrary: ys)
  case Nil
  then show ?case by simp
next
  case (Cons x xs)
  then obtain y ys' where ys: "ys = y # ys'"
    by (cases ys) auto
  have "x \<in> set ys" "y \<in> set (x # xs)"
    using Cons.prems(3) ys by (metis list.set_intros(1) set_mset_mset)+
  then have "cmp x y \<le> 0" "cmp y x \<le> 0"
    using Cons.prems ys cmp_refl by auto
  then have "x = y" using cmp_le_iff cmp_eq by (metis antisym)
  with Cons ys show ?case by simp
qed

lemma sort_by_cong_mset: "mset xs = mset ys \<Longrightarrow> sort_by cmp xs = sort_by cmp ys"
  by (rule sorted_unique [OF sorted_sort_by sorted_sort_by]) simp

lemma sorted_strict:
  assumes "distinct xs"
  shows "sorted_wrt (\<lambda>x y. cmp x y < 0) (sort_by cmp xs)"
proof -
  have "sort_by cmp xs ! i \<noteq> sort_by cmp xs ! j" if "i < j" "j < length xs" for i j
    using that assms by (simp add: nth_eq_iff_index_eq)
  moreover have "cmp (sort_by cmp xs ! i) (sort_by cmp xs ! j) \<le> 0" if "i < j" "j < length xs" for i j
    using that sorted_sort_by [of xs] by (simp add: sorted_wrt_iff_nth_less)
  ultimately show ?thesis
    by (simp add: sorted_wrt_iff_nth_less) (metis cmp_eq order_le_less)
qed

end

section \<open>Lexicographic order of sequences\<close>

text \<open>
  The order of JavaScript's \<open><\<close> on strings and of byte arrays: the first difference decides, a
  proper prefix comes first.  \<open>key\<close> reads an element as a number.
\<close>

fun lex_cmp :: "('a \<Rightarrow> int) \<Rightarrow> 'a list \<Rightarrow> 'a list \<Rightarrow> int" where
  "lex_cmp key [] [] = 0"
| "lex_cmp key [] (y # ys) = -1"
| "lex_cmp key (x # xs) [] = 1"
| "lex_cmp key (x # xs) (y # ys) =
     (if key x < key y then -1 else if key y < key x then 1 else lex_cmp key xs ys)"

lemma lex_cmp_swap: "lex_cmp key ys xs = - lex_cmp key xs ys"
  by (induction key xs ys rule: lex_cmp.induct) auto

lemma lex_cmp_range: "lex_cmp key xs ys \<in> {-1, 0, 1}"
  by (induction key xs ys rule: lex_cmp.induct) auto

lemma lex_cmp_trans:
  "lex_cmp key xs ys \<le> 0 \<Longrightarrow> lex_cmp key ys zs \<le> 0 \<Longrightarrow> lex_cmp key xs zs \<le> 0"
proof (induction key xs ys arbitrary: zs rule: lex_cmp.induct)
  case (4 key x xs y ys)
  show ?case
  proof (cases zs)
    case Nil
    with 4 show ?thesis by simp
  next
    case (Cons z zs')
    consider "key x < key y" | "key x = key y" using 4(2) by (force split: if_splits)
    then show ?thesis
    proof cases
      case 1
      then show ?thesis using 4(3) Cons by (auto split: if_splits)
    next
      case 2
      then have "lex_cmp key ys zs' \<le> 0 \<Longrightarrow> lex_cmp key xs zs' \<le> 0"
        using 4 by simp
      then show ?thesis using 2 4(3) Cons by (simp split: if_splits)
    qed
  qed
next
  case (2 key y ys)
  then show ?case by (cases zs) auto
next
  case (1 key)
  then show ?case by (cases zs) auto
qed auto

lemma lex_cmp_eq: "inj key \<Longrightarrow> lex_cmp key xs ys = 0 \<Longrightarrow> xs = ys"
proof (induction key xs ys rule: lex_cmp.induct)
  case (4 key x xs y ys)
  from 4(3) have "key x = key y" "lex_cmp key xs ys = 0"
    by (simp_all split: if_splits)
  then show ?case using 4 by (auto dest: injD)
qed auto

lemma lex_cmp_refl [simp]: "lex_cmp key xs xs = 0"
  by (induction xs) auto

lemma lex_cmp_append: "lex_cmp key (zs @ xs) (zs @ ys) = lex_cmp key xs ys"
  by (induction zs) auto

interpretation lexicographic: comparator "lex_cmp key" for key
proof
  show "sgn (lex_cmp key y x) = - sgn (lex_cmp key x y)" for x y
    by (metis lex_cmp_swap sgn_minus)
  show "lex_cmp key x z \<le> 0" if "lex_cmp key x y \<le> 0" "lex_cmp key y z \<le> 0" for x y z
    using that by (rule lex_cmp_trans)
qed

definition str_cmp :: "string \<Rightarrow> string \<Rightarrow> int" where
  "str_cmp = lex_cmp of_char"

interpretation str_order: strict_comparator str_cmp
proof -
  have "inj (of_char :: char \<Rightarrow> int)"
    by (rule injI) (simp add: of_char_eq_iff)
  then show "strict_comparator str_cmp"
    unfolding str_cmp_def
    by unfold_locales (rule lex_cmp_eq)
qed

section \<open>Combining comparison functions\<close>

text \<open>The chain \<open>a || b\<close> of comparisons, and the lexicographic comparison of lists under a comparison of their elements.\<close>

definition then_by :: "('a \<Rightarrow> 'a \<Rightarrow> int) \<Rightarrow> ('a \<Rightarrow> 'a \<Rightarrow> int) \<Rightarrow> 'a \<Rightarrow> 'a \<Rightarrow> int" where
  "then_by c d x y = (if c x y \<noteq> 0 then c x y else d x y)"

fun lex_by :: "('a \<Rightarrow> 'a \<Rightarrow> int) \<Rightarrow> 'a list \<Rightarrow> 'a list \<Rightarrow> int" where
  "lex_by c [] [] = 0"
| "lex_by c [] (y # ys) = -1"
| "lex_by c (x # xs) [] = 1"
| "lex_by c (x # xs) (y # ys) = (if c x y \<noteq> 0 then c x y else lex_by c xs ys)"

lemma comparator_pullback: "comparator c \<Longrightarrow> comparator (\<lambda>x y. c (f x) (f y))"
  unfolding comparator_def by blast

lemma comparator_sgn: "comparator c \<Longrightarrow> (\<And>x y. sgn (d x y) = sgn (c x y)) \<Longrightarrow> comparator d"
  unfolding comparator_def by (metis not_le sgn_greater)

lemma comparator_diff: "comparator (\<lambda>x y. f x - (f y :: int))"
  by (rule comparator.intro) (auto simp: sgn_if)

lemma comparator_then_by:
  assumes "comparator c" and "comparator d"
  shows "comparator (then_by c d)"
proof
  show "sgn (then_by c d y x) = - sgn (then_by c d x y)" for x y
    using comparator.cmp_swap [OF assms(1), of y x] comparator.cmp_swap [OF assms(2), of y x]
      comparator.cmp_zero_swap [OF assms(1), of x y] by (simp add: then_by_def)
  show "then_by c d x z \<le> 0" if le: "then_by c d x y \<le> 0" "then_by c d y z \<le> 0" for x y z
  proof -
    have c: "c x y \<le> 0" "c y z \<le> 0" using le by (auto simp: then_by_def split: if_splits)
    show ?thesis
    proof (cases "c x z = 0")
      case True
      then have "c x y = 0" "c y z = 0" using comparator.cmp_zero_split [OF assms(1) True c] by auto
      then show ?thesis using True le comparator.cmp_trans [OF assms(2), of x y z] by (simp add: then_by_def)
    next
      case False
      then show ?thesis using comparator.cmp_trans [OF assms(1) c] by (simp add: then_by_def)
    qed
  qed
qed

lemma lex_by_swap: "comparator c \<Longrightarrow> sgn (lex_by c ys xs) = - sgn (lex_by c xs ys)"
proof (induction c xs ys rule: lex_by.induct)
  case (4 c x xs y ys)
  then show ?case using comparator.cmp_swap [of c x y] comparator.cmp_zero_swap [of c x y] by auto
qed auto

lemma lex_by_trans: "comparator c \<Longrightarrow> lex_by c xs ys \<le> 0 \<Longrightarrow> lex_by c ys zs \<le> 0 \<Longrightarrow> lex_by c xs zs \<le> 0"
proof (induction c xs ys arbitrary: zs rule: lex_by.induct)
  case (4 c x xs y ys)
  show ?case
  proof (cases zs)
    case Nil
    then show ?thesis using 4 by simp
  next
    case (Cons z zs')
    have c: "c x y \<le> 0" "c y z \<le> 0" using 4(3,4) Cons by (auto split: if_splits)
    have xz: "c x z \<le> 0" using comparator.cmp_trans [OF 4(2) c] .
    show ?thesis
    proof (cases "c x z = 0")
      case True
      then have "c x y = 0" "c y z = 0" using comparator.cmp_zero_split [OF 4(2) True c] by auto
      then show ?thesis using 4 Cons True by auto
    next
      case False
      then show ?thesis using xz Cons by simp
    qed
  qed
next
  case (2 c y ys)
  then show ?case by (cases zs) auto
next
  case (1 c)
  then show ?case by (cases zs) auto
qed auto

lemma comparator_lex_by: "comparator c \<Longrightarrow> comparator (lex_by c)"
  by (rule comparator.intro) (auto intro: lex_by_swap lex_by_trans)

section \<open>Decimal text and distinct arrays\<close>

definition digit_char :: "nat \<Rightarrow> char" where
  "digit_char n = char_of (48 + n mod 10)"

definition char_digit :: "char \<Rightarrow> nat" where
  "char_digit c = of_char c - 48"

text \<open>\<open>String(n)\<close> of a natural number, and the number a digit string denotes.\<close>

fun nat_str :: "nat \<Rightarrow> string" where
  "nat_str n = (if n < 10 then [digit_char n] else nat_str (n div 10) @ [digit_char (n mod 10)])"

definition str_nat :: "string \<Rightarrow> nat" where
  "str_nat s = foldl (\<lambda>a c. a * 10 + char_digit c) 0 s"

declare nat_str.simps [simp del]

lemma char_digit_char [simp]: "char_digit (digit_char n) = n mod 10"
  by (simp add: char_digit_def digit_char_def)

lemma str_nat_snoc [simp]: "str_nat (s @ [c]) = str_nat s * 10 + char_digit c"
  by (simp add: str_nat_def)

lemma str_nat_nat_str [simp]: "str_nat (nat_str n) = n"
proof (induction n rule: nat_str.induct)
  case (1 n)
  show ?case
  proof (cases "n < 10")
    case True
    then show ?thesis by (simp add: nat_str.simps [of n] str_nat_def)
  next
    case False
    then show ?thesis using 1 by (simp add: nat_str.simps [of n])
  qed
qed

lemma nat_str_inject [simp]: "nat_str m = nat_str n \<longleftrightarrow> m = n"
  by (metis str_nat_nat_str)

text \<open>\<open>split(sep)\<close> on a one-character separator, and \<open>join(sep)\<close>.\<close>

fun split_on :: "char \<Rightarrow> string \<Rightarrow> string list" where
  "split_on sep [] = [[]]"
| "split_on sep (c # s) =
     (if c = sep then [] # split_on sep s
      else case split_on sep s of [] \<Rightarrow> [[c]] | w # ws \<Rightarrow> (c # w) # ws)"

fun join_on :: "char \<Rightarrow> string list \<Rightarrow> string" where
  "join_on sep [] = []"
| "join_on sep [w] = w"
| "join_on sep (w # ws) = w @ sep # join_on sep ws"

lemma split_on_nonempty [simp]: "split_on sep s \<noteq> []"
  by (cases s) (auto split: list.splits)

lemma split_on_word: "sep \<notin> set w \<Longrightarrow> split_on sep w = [w]"
  by (induction w) auto

lemma split_on_append: "sep \<notin> set w \<Longrightarrow> split_on sep (w @ sep # s) = w # split_on sep s"
  by (induction w) auto

lemma split_on_join: "ws \<noteq> [] \<Longrightarrow> (\<And>w. w \<in> set ws \<Longrightarrow> sep \<notin> set w) \<Longrightarrow> split_on sep (join_on sep ws) = ws"
  by (induction sep ws rule: join_on.induct) (auto simp: split_on_word split_on_append)

lemma join_split [simp]: "join_on sep (split_on sep s) = s"
proof (induction s)
  case (Cons c s)
  obtain w ws where "split_on sep s = w # ws" by (cases "split_on sep s") auto
  then show ?case using Cons by (cases ws) auto
qed simp

text \<open>\<open>[...new Set(xs)]\<close>: the first occurrence of each element, in order.\<close>

definition js_uniq :: "'a list \<Rightarrow> 'a list" where
  "js_uniq xs = rev (remdups (rev xs))"

lemma set_js_uniq [simp]: "set (js_uniq xs) = set xs"
  by (simp add: js_uniq_def)

lemma distinct_js_uniq [simp]: "distinct (js_uniq xs)"
  by (simp add: js_uniq_def)

section \<open>Reachable states\<close>

text \<open>
  A component that reacts to events: an initial-state predicate and a step relation.  The locale
  carries the one induction every safety property uses.
\<close>

inductive reach :: "('s \<Rightarrow> bool) \<Rightarrow> ('s \<Rightarrow> 'e \<Rightarrow> 's \<Rightarrow> bool) \<Rightarrow> 's \<Rightarrow> bool" for init step where
  reach_init: "init s \<Longrightarrow> reach init step s"
| reach_step: "reach init step s \<Longrightarrow> step s e t \<Longrightarrow> reach init step t"

locale transition_system =
  fixes init :: "'s \<Rightarrow> bool" and step :: "'s \<Rightarrow> 'e \<Rightarrow> 's \<Rightarrow> bool" and inv :: "'s \<Rightarrow> bool"
  assumes inv_init: "init s \<Longrightarrow> inv s"
    and inv_step: "inv s \<Longrightarrow> step s e t \<Longrightarrow> inv t"
begin

lemma reachable_inv: "reach init step s \<Longrightarrow> inv s"
  by (induction rule: reach.induct) (auto intro: inv_init inv_step)

end

end
