(* ===== verification/Digest_Text.thy ===== *)
theory Digest_Text
  imports Urdira_Prelude
begin

text \<open>
  The textual digests shared by the three Merkle modules of \<open>packages/canonical/src\<close>: a SHA-256
  value travels as \<open>sha256:\<close> followed by 64 hexadecimal digits.  SHA-256 itself is
  \<open>node:crypto\<close>; it enters every definition as a parameter \<open>H\<close> from byte strings to 32-byte
  hashes, about which nothing else is assumed.
\<close>

type_synonym byte = "8 word"

typedef hash32 = "{bs :: byte list. length bs = 32}" morphisms hash_bytes Hash32
  by (rule exI [of _ "replicate 32 0"]) simp

setup_lifting type_definition_hash32

type_synonym sha256 = "byte list \<Rightarrow> hash32"

datatype merkle_error = NotSha256 | ConflictingDuplicate | BadBucketPrefix | CountOutOfRange

lemma length_hash_bytes [simp]: "length (hash_bytes h) = 32"
  using hash_bytes [of h] by simp

section \<open>Hexadecimal text\<close>

definition hex_digits :: string where
  "hex_digits = ''0123456789abcdef''"

lemma length_hex_digits [simp]: "length hex_digits = 16"
  by (simp add: hex_digits_def)

definition hex_digit :: "nat \<Rightarrow> char" where
  "hex_digit n = hex_digits ! (n mod 16)"

definition hex_val :: "char \<Rightarrow> nat option" where
  "hex_val c = (let n = (of_char c :: nat) in
     if 48 \<le> n \<and> n \<le> 57 then Some (n - 48)
     else if 97 \<le> n \<and> n \<le> 102 then Some (n - 87)
     else if 65 \<le> n \<and> n \<le> 70 then Some (n - 55)
     else None)"

definition is_hex :: "char \<Rightarrow> bool" where
  "is_hex c \<longleftrightarrow> hex_val c \<noteq> None"

definition hex_num :: "char \<Rightarrow> nat" where
  "hex_num c = (case hex_val c of None \<Rightarrow> 0 | Some n \<Rightarrow> n)"

fun hex_decode :: "string \<Rightarrow> byte list" where
  "hex_decode (a # b # r) = word_of_nat (16 * hex_num a + hex_num b) # hex_decode r"
| "hex_decode _ = []"

fun hex_encode :: "byte list \<Rightarrow> string" where
  "hex_encode [] = []"
| "hex_encode (b # bs) = hex_digit (unat b div 16) # hex_digit (unat b mod 16) # hex_encode bs"

definition ascii_bytes :: "string \<Rightarrow> byte list" where
  "ascii_bytes s = map of_char s"

definition sha_prefix :: string where
  "sha_prefix = ''sha256:''"

text \<open>\<open>digest(parts)\<close>: hash the concatenation of the parts, print it.\<close>

definition digest_text :: "hash32 \<Rightarrow> string" where
  "digest_text h = sha_prefix @ hex_encode (hash_bytes h)"

definition digest :: "sha256 \<Rightarrow> byte list list \<Rightarrow> string" where
  "digest H parts = digest_text (H (concat parts))"

definition digestBytes :: "string \<Rightarrow> merkle_error + byte list" where
  "digestBytes value =
     (let hex = (if prefix sha_prefix value then drop 7 value else value)
      in if length hex = 64 \<and> list_all is_hex hex then Inr (hex_decode hex) else Inl NotSha256)"

definition keyHex :: "string \<Rightarrow> merkle_error + string" where
  "keyHex value = res_bind (digestBytes value) (\<lambda>bs. Inr (hex_encode bs))"

definition ZERO_BYTES :: "byte list" where
  "ZERO_BYTES = replicate 32 0"

definition ZERO_DIGEST :: string where
  "ZERO_DIGEST = sha_prefix @ hex_encode ZERO_BYTES"

text \<open>A normalised key: 64 lower-case hexadecimal digits.\<close>

definition lower64 :: "string \<Rightarrow> bool" where
  "lower64 k \<longleftrightarrow> length k = 64 \<and> set k \<subseteq> set hex_digits"

lemma hex_num_hex_digit [simp]: "hex_num (hex_digit n) = n mod 16"
proof -
  have "list_all (\<lambda>m. hex_num (hex_digits ! m) = m) [0..<16]"
    by code_simp
  then have "hex_num (hex_digits ! m) = m" if "m < 16" for m
    using that unfolding list_all_iff by (metis atLeastLessThan_iff set_upt zero_le)
  then show ?thesis by (simp add: hex_digit_def)
qed

lemma hex_digit_in [simp]: "hex_digit n \<in> set hex_digits"
proof -
  have "length hex_digits = 16" by (simp add: hex_digits_def)
  then show ?thesis by (simp add: hex_digit_def)
qed

lemma hex_digits_hex: "c \<in> set hex_digits \<Longrightarrow> is_hex c \<and> hex_digit (hex_num c) = c \<and> hex_num c < 16"
proof -
  have "list_all (\<lambda>c. is_hex c \<and> hex_digit (hex_num c) = c \<and> hex_num c < 16) hex_digits"
    by code_simp
  then show "c \<in> set hex_digits \<Longrightarrow> is_hex c \<and> hex_digit (hex_num c) = c \<and> hex_num c < 16"
    by (simp add: list_all_iff)
qed

lemma set_hex_encode: "set (hex_encode bs) \<subseteq> set hex_digits"
  by (induction bs) auto

lemma length_hex_encode [simp]: "length (hex_encode bs) = 2 * length bs"
  by (induction bs) auto

lemma hex_decode_encode [simp]: "hex_decode (hex_encode bs) = bs"
proof (induction bs)
  case (Cons b bs)
  have "unat b < 256" using unsigned_less [of b] by simp
  then show ?case using Cons by (simp add: mult.commute)
qed simp

lemma hex_encode_decode:
  "set h \<subseteq> set hex_digits \<Longrightarrow> even (length h) \<Longrightarrow> hex_encode (hex_decode h) = h"
proof (induction h rule: hex_decode.induct)
  case (1 a b r)
  then have "hex_digit (hex_num a) = a" "hex_num a < 16" "hex_digit (hex_num b) = b" "hex_num b < 16"
    using hex_digits_hex by auto
  moreover from this have "unat (word_of_nat (16 * hex_num a + hex_num b) :: byte) = 16 * hex_num a + hex_num b"
    by (simp add: unat_of_nat del: of_nat_add of_nat_mult)
  ultimately show ?case using 1 by simp
qed auto

lemma is_hex_encode [simp]: "list_all is_hex (hex_encode bs)"
  using set_hex_encode hex_digits_hex by (fastforce simp: list_all_iff)

lemma prefix_sha_prefix [simp]: "prefix sha_prefix (sha_prefix @ s)"
  by simp

lemma digestBytes_text: "length bs = 32 \<Longrightarrow> digestBytes (sha_prefix @ hex_encode bs) = Inr bs"
  by (simp add: digestBytes_def sha_prefix_def)

lemma digestBytes_digest_text [simp]: "digestBytes (digest_text h) = Inr (hash_bytes h)"
  by (simp add: digest_text_def digestBytes_text)

lemma digestBytes_digest [simp]: "digestBytes (digest H ps) = Inr (hash_bytes (H (concat ps)))"
  by (simp add: digest_def)

lemma digestBytes_ZERO [simp]: "digestBytes ZERO_DIGEST = Inr ZERO_BYTES"
  by (simp add: ZERO_DIGEST_def digestBytes_text ZERO_BYTES_def)

lemma digest_text_inject [simp]: "digest_text g = digest_text h \<longleftrightarrow> g = h"
  unfolding digest_text_def by (metis hash_bytes_inject hex_decode_encode same_append_eq)

lemma digest_eq_iff [simp]: "digest H ps = digest H qs \<longleftrightarrow> H (concat ps) = H (concat qs)"
  by (simp add: digest_def)

lemma length_hex_decode: "length (hex_decode h) = length h div 2"
  by (induction h rule: hex_decode.induct) auto

lemma digestBytes_length: "digestBytes v = Inr bs \<Longrightarrow> length bs = 32"
  by (auto simp: digestBytes_def length_hex_decode Let_def split: if_splits)

lemma keyHex_lower64: "keyHex v = Inr k \<Longrightarrow> lower64 k"
  using set_hex_encode by (auto simp: keyHex_def lower64_def res_bind_Inr_iff dest!: digestBytes_length)

lemma not_prefix_sha_hex: "set k \<subseteq> set hex_digits \<Longrightarrow> \<not> prefix sha_prefix k"
  by (auto simp: sha_prefix_def hex_digits_def prefix_def)

lemma digestBytes_lower64: "lower64 k \<Longrightarrow> digestBytes k = Inr (hex_decode k)"
  using not_prefix_sha_hex [of k] hex_digits_hex
  by (auto simp: lower64_def digestBytes_def list_all_iff)

lemma keyHex_idem: "lower64 k \<Longrightarrow> keyHex k = Inr k"
  by (simp add: keyHex_def digestBytes_lower64) (simp add: lower64_def hex_encode_decode)

lemma hex_decode_inj: "lower64 k \<Longrightarrow> lower64 k' \<Longrightarrow> hex_decode k = hex_decode k' \<Longrightarrow> k = k'"
  by (metis hex_encode_decode lower64_def even_numeral num.distinct(1) numeral_Bit0_eq_double dvd_triv_left
      even_mult_iff)

end
