(* ===== verification/Prefix_Tree.thy ===== *)
theory Prefix_Tree
  imports Urdira_Prelude
begin

text \<open>
  The abstract specification behind the Merkle modules.  \<open>subtree\<close> recomputes the value of every
  node of a fixed-depth prefix tree from the leaves alone; the incremental modules must agree with
  it.  \<open>path_fill\<close> is the bottom-up walk over the ancestors of one key, and the locale
  \<open>authenticated_set\<close> is the contract a client of a Merkle set relies on.
\<close>

section \<open>The value of a node as a function of the leaves\<close>

definition occupied :: "(string \<times> 'h) list \<Rightarrow> string \<Rightarrow> bool" where
  "occupied L p \<longleftrightarrow> list_ex (prefix p) (map fst L)"

fun subtree ::
  "char list \<Rightarrow> (nat \<Rightarrow> 'h option list \<Rightarrow> 'h) \<Rightarrow> (string \<times> 'h) list \<Rightarrow> nat \<Rightarrow> string \<Rightarrow> 'h option" where
  "subtree ds comb L 0 p = map_of L p"
| "subtree ds comb L (Suc d) p =
     (if occupied L p then Some (comb (length p) (map (\<lambda>c. subtree ds comb L d (p @ [c])) ds))
      else None)"

text \<open>One walk from a node up to the root, \<open>n\<close> levels, over a cache \<open>N\<close> of node values.\<close>

fun path_fill ::
  "char list \<Rightarrow> (nat \<Rightarrow> 'h option list \<Rightarrow> 'h) \<Rightarrow> (string \<times> 'h) list \<Rightarrow> nat \<Rightarrow> string
   \<Rightarrow> (string \<Rightarrow> 'h option) \<Rightarrow> (string \<Rightarrow> 'h option)" where
  "path_fill ds comb L 0 child N = N"
| "path_fill ds comb L (Suc n) child N =
     (let parent = butlast child in
      path_fill ds comb L n parent
        (N(parent := (if occupied L parent
                      then Some (comb (length parent) (map (\<lambda>c. N (parent @ [c])) ds))
                      else None))))"

lemma take_eq_prefix: "n \<le> length key \<Longrightarrow> take n key = p \<longleftrightarrow> prefix p key \<and> length p = n"
  by (metis append_eq_conv_conj length_take min.absorb2 prefix_def take_is_prefix)

lemma occupied_iff: "occupied L p \<longleftrightarrow> (\<exists>k. map_of L k \<noteq> None \<and> prefix p k)"
proof -
  have "(\<exists>k \<in> set (map fst L). prefix p k) \<longleftrightarrow> (\<exists>k. map_of L k \<noteq> None \<and> prefix p k)"
    by (metis map_of_eq_None_iff set_map)
  then show ?thesis by (simp add: occupied_def list_ex_iff)
qed

lemma subtree_local:
  "(\<And>k. prefix p k \<Longrightarrow> map_of L k = map_of L' k) \<Longrightarrow> subtree ds comb L d p = subtree ds comb L' d p"
proof (induction d arbitrary: p)
  case 0
  then show ?case by simp
next
  case (Suc d)
  have "occupied L p = occupied L' p"
    unfolding occupied_iff using Suc.prems by metis
  moreover have "subtree ds comb L d (p @ [c]) = subtree ds comb L' d (p @ [c])" for c
    using Suc.prems by (intro Suc.IH) (meson append_prefixD)
  ultimately show ?case by simp
qed

lemma subtree_cong_map: "map_of L = map_of L' \<Longrightarrow> subtree ds comb L d p = subtree ds comb L' d p"
  by (rule subtree_local) simp

lemma subtree_None_iff: "d > 0 \<Longrightarrow> subtree ds comb L d p = None \<longleftrightarrow> \<not> occupied L p"
  by (cases d) auto

lemma occupied_butlast: "occupied L p \<Longrightarrow> occupied L (butlast p)"
  by (auto simp: occupied_def list_ex_iff intro: prefix_order.trans [OF prefixeq_butlast])

text \<open>
  A walk from the leaf \<open>key\<close> repairs the whole cache: if every node off the path is right, and the
  child the walk starts from is right, then afterwards every node is right.
\<close>

lemma path_fill_correct:
  assumes "length key = D" and "n \<le> D" and "child = take n key"
    and "\<And>p. length p \<le> D \<Longrightarrow> \<not> (prefix p key \<and> length p < n) \<Longrightarrow> N p = subtree ds comb L (D - length p) p"
    and "length p \<le> D"
  shows "path_fill ds comb L n child N p = subtree ds comb L (D - length p) p"
  using assms
proof (induction n arbitrary: child N)
  case 0
  then show ?case by simp
next
  case (Suc n)
  let ?q = "take n key"
  have q: "butlast child = ?q" "length ?q = n" "n < D"
    using Suc.prems by (auto simp: butlast_take)
  have kids: "N (?q @ [c]) = subtree ds comb L (D - Suc n) (?q @ [c])" for c
    using Suc.prems(4) [of "?q @ [c]"] q by simp
  let ?N = "N(?q := (if occupied L ?q
                     then Some (comb (length ?q) (map (\<lambda>c. N (?q @ [c])) ds)) else None))"
  have at_q: "?N ?q = subtree ds comb L (D - n) ?q"
  proof -
    have "D - n = Suc (D - Suc n)" using q by simp
    then show ?thesis using kids q by (simp cong: map_cong)
  qed
  have "?N r = subtree ds comb L (D - length r) r" if "length r \<le> D" "\<not> (prefix r key \<and> length r < n)" for r
  proof (cases "r = ?q")
    case True
    then show ?thesis using at_q q by simp
  next
    case False
    then have "\<not> (prefix r key \<and> length r < Suc n)"
      using that by (auto simp: less_Suc_eq prefix_def)
    then show ?thesis using Suc.prems(4) [of r] that False by simp
  qed
  then have "path_fill ds comb L n ?q ?N p = subtree ds comb L (D - length p) p"
    using Suc.prems q by (intro Suc.IH) auto
  then show ?case using q by (simp add: Let_def)
qed

section \<open>Histories of insertions and removals\<close>

datatype ('k, 'v) set_op = Put 'k 'v | Del 'k

fun run_ops ::
  "('k \<Rightarrow> 'v \<Rightarrow> 't \<Rightarrow> 'e + 't) \<Rightarrow> ('k \<Rightarrow> 't \<Rightarrow> 'e + 't) \<Rightarrow> ('k, 'v) set_op list \<Rightarrow> 't \<Rightarrow> 'e + 't" where
  "run_ops ins del [] t = Inr t"
| "run_ops ins del (Put k v # ops) t = res_bind (ins k v t) (run_ops ins del ops)"
| "run_ops ins del (Del k # ops) t = res_bind (del k t) (run_ops ins del ops)"

text \<open>The abstract history: the map of normalised entries, and None when an operation is refused.\<close>

fun spec_ops ::
  "('k \<Rightarrow> 'i) \<Rightarrow> ('k \<Rightarrow> 'v \<Rightarrow> 'w) \<Rightarrow> ('k \<Rightarrow> bool) \<Rightarrow> (('i \<rightharpoonup> 'w) \<Rightarrow> 'k \<Rightarrow> 'v \<Rightarrow> bool)
   \<Rightarrow> ('k, 'v) set_op list \<Rightarrow> ('i \<rightharpoonup> 'w) \<Rightarrow> ('i \<rightharpoonup> 'w) option" where
  "spec_ops nk nv vk ok [] m = Some m"
| "spec_ops nk nv vk ok (Put k v # ops) m =
     (if ok m k v then spec_ops nk nv vk ok ops (m(nk k \<mapsto> nv k v)) else None)"
| "spec_ops nk nv vk ok (Del k # ops) m =
     (if vk k then spec_ops nk nv vk ok ops (m(nk k := None)) else None)"

section \<open>The contract of an authenticated set\<close>

text \<open>
  \<open>insert\<close> and \<open>remove\<close> take raw keys and values as the API does; \<open>contents\<close> is the abstract
  map of normalised entries.  \<open>ok\<close> says which insertions the provider accepts in a state with the
  given contents.  The last law is the promise: equal contents have equal roots, whatever the
  histories that built them.
\<close>

locale authenticated_set =
  fixes empty :: "'t" and insert :: "'k \<Rightarrow> 'v \<Rightarrow> 't \<Rightarrow> 'e + 't" and remove :: "'k \<Rightarrow> 't \<Rightarrow> 'e + 't"
    and root :: "'t \<Rightarrow> 'r" and contents :: "'t \<Rightarrow> ('i \<rightharpoonup> 'w)" and inv :: "'t \<Rightarrow> bool"
    and nkey :: "'k \<Rightarrow> 'i" and nval :: "'k \<Rightarrow> 'v \<Rightarrow> 'w"
    and valid_key :: "'k \<Rightarrow> bool" and ok :: "('i \<rightharpoonup> 'w) \<Rightarrow> 'k \<Rightarrow> 'v \<Rightarrow> bool"
  assumes inv_empty: "inv empty"
    and contents_empty: "contents empty = Map.empty"
    and insert_ok: "inv t \<Longrightarrow> ok (contents t) k v \<Longrightarrow>
      \<exists>t'. insert k v t = Inr t' \<and> inv t' \<and> contents t' = (contents t)(nkey k \<mapsto> nval k v)"
    and remove_ok: "inv t \<Longrightarrow> valid_key k \<Longrightarrow>
      \<exists>t'. remove k t = Inr t' \<and> inv t' \<and> contents t' = (contents t)(nkey k := None)"
    and history_independent: "inv s \<Longrightarrow> inv t \<Longrightarrow> contents s = contents t \<Longrightarrow> root s = root t"
begin

lemma insert_commute:
  assumes "inv t" and "ok (contents t) k v" and "ok (contents t) k' v'"
    and "ok ((contents t)(nkey k \<mapsto> nval k v)) k' v'" and "ok ((contents t)(nkey k' \<mapsto> nval k' v')) k v"
    and "nkey k \<noteq> nkey k'"
  shows "\<exists>a b. res_bind (insert k v t) (insert k' v') = Inr a \<and>
               res_bind (insert k' v' t) (insert k v) = Inr b \<and> root a = root b"
proof -
  obtain s s' where s: "insert k v t = Inr s" "inv s" "contents s = (contents t)(nkey k \<mapsto> nval k v)"
    and s': "insert k' v' t = Inr s'" "inv s'" "contents s' = (contents t)(nkey k' \<mapsto> nval k' v')"
    using insert_ok assms by metis
  obtain a b where "insert k' v' s = Inr a" "inv a" "contents a = (contents s)(nkey k' \<mapsto> nval k' v')"
    and "insert k v s' = Inr b" "inv b" "contents b = (contents s')(nkey k \<mapsto> nval k v)"
    using insert_ok [OF s(2)] insert_ok [OF s'(2)] assms s(3) s'(3) by metis
  then show ?thesis
    using s s' assms by (auto intro!: history_independent simp: fun_upd_twist)
qed

lemma insert_remove_root:
  assumes "inv t" and "ok (contents t) k v" and "valid_key k" and "contents t (nkey k) = None"
  shows "\<exists>s. res_bind (insert k v t) (remove k) = Inr s \<and> root s = root t"
proof -
  obtain a where a: "insert k v t = Inr a" "inv a" "contents a = (contents t)(nkey k \<mapsto> nval k v)"
    using insert_ok assms by blast
  then obtain s where "remove k a = Inr s" "inv s" "contents s = (contents a)(nkey k := None)"
    using remove_ok assms by blast
  then show ?thesis
    using a assms by (auto intro!: history_independent simp: fun_upd_idem)
qed

lemma run_refines:
  assumes "spec_ops nkey nval valid_key ok ops (contents t) = Some m" and "inv t"
  shows "\<exists>t'. run_ops insert remove ops t = Inr t' \<and> inv t' \<and> contents t' = m"
  using assms
proof (induction ops arbitrary: t)
  case Nil
  then show ?case by simp
next
  case (Cons op ops)
  show ?case
  proof (cases op)
    case (Put k v)
    with Cons.prems have "ok (contents t) k v" by (auto split: if_splits)
    then obtain t1 where "insert k v t = Inr t1" "inv t1" "contents t1 = (contents t)(nkey k \<mapsto> nval k v)"
      using insert_ok Cons.prems(2) by blast
    moreover have "spec_ops nkey nval valid_key ok ops ((contents t)(nkey k \<mapsto> nval k v)) = Some m"
      using Cons.prems(1) Put by (simp split: if_splits)
    ultimately show ?thesis using Cons.IH [of t1] Put by (simp del: fun_upd_apply)
  next
    case (Del k)
    with Cons.prems have "valid_key k" by (auto split: if_splits)
    then obtain t1 where "remove k t = Inr t1" "inv t1" "contents t1 = (contents t)(nkey k := None)"
      using remove_ok Cons.prems(2) by blast
    moreover have "spec_ops nkey nval valid_key ok ops ((contents t)(nkey k := None)) = Some m"
      using Cons.prems(1) Del by (simp split: if_splits)
    ultimately show ?thesis using Cons.IH [of t1] Del by (simp del: fun_upd_apply)
  qed
qed

lemma histories_agree:
  assumes "spec_ops nkey nval valid_key ok ops Map.empty = Some m"
    and "spec_ops nkey nval valid_key ok ops' Map.empty = Some m"
  shows "\<exists>t t'. run_ops insert remove ops empty = Inr t \<and> run_ops insert remove ops' empty = Inr t'
    \<and> contents t = m \<and> contents t' = m \<and> root t = root t'"
  using run_refines [of ops empty m] run_refines [of ops' empty m] assms history_independent
  by (simp add: inv_empty contents_empty) metis

end

end
