(* ===== verification/Merkle_Radix.thy ===== *)
theory Merkle_Radix
  imports Digest_Text Prefix_Tree
begin

text \<open>
  \<open>packages/canonical/src/merkle-radix.ts\<close>: the fan-out-16 Merkle set \<open>MerkleRadixSet\<close>.  The
  record holds its three maps and its metrics; \<open>radix_set\<close>, \<open>radix_delete\<close>, \<open>radix_from\<close>,
  \<open>radix_root\<close> and \<open>radix_verify\<close> are its methods.  The invariant ties the cached nodes and the
  prefix counts to the leaves, every operation keeps it, and the root is therefore a function of the
  leaves alone.
\<close>

section \<open>State and operations\<close>

record merkle_radix =
  mr_leaves :: "(string, string) jsmap"
  mr_nodes :: "(string, string) jsmap"
  mr_counts :: "(string, int) jsmap"
  mr_leaves_modified :: nat
  mr_nodes_recalculated :: nat
  mr_collections_ordered :: nat

definition radix_empty :: merkle_radix where
  "radix_empty = \<lparr>mr_leaves = [], mr_nodes = [], mr_counts = [],
     mr_leaves_modified = 0, mr_nodes_recalculated = 0, mr_collections_ordered = 0\<rparr>"

lemma radix_empty_simps [simp]:
  "mr_leaves radix_empty = []" "mr_nodes radix_empty = []" "mr_counts radix_empty = []"
  by (simp_all add: radix_empty_def)

definition RADIX_LEAF :: "byte list" where
  "RADIX_LEAF = ascii_bytes ''urdira:merkle-radix:leaf'' @ [0]"

definition RADIX_NODE :: "byte list" where
  "RADIX_NODE = ascii_bytes ''urdira:merkle-radix:node'' @ [0]"

text \<open>The loops over \<open>key.slice(0, depth)\<close>, \<open>depth = 0..D\<close>, that maintain the prefix counts.\<close>

definition bump_counts :: "nat \<Rightarrow> string \<Rightarrow> (string, int) jsmap \<Rightarrow> (string, int) jsmap" where
  "bump_counts D key m =
     fold (\<lambda>d m. jset (take d key) (jget_or 0 m (take d key) + 1) m) [0..<Suc D] m"

definition drop_counts :: "nat \<Rightarrow> string \<Rightarrow> (string, int) jsmap \<Rightarrow> (string, int) jsmap" where
  "drop_counts D key m =
     fold (\<lambda>d m. let c = jget_or 1 m (take d key) - 1
                 in if c = 0 then jdelete (take d key) m else jset (take d key) c m) [0..<Suc D] m"

definition radix_children :: "merkle_radix \<Rightarrow> string \<Rightarrow> merkle_error + byte list list" where
  "radix_children t parent =
     res_map (\<lambda>d. case jget (mr_nodes t) (parent @ [hex_digit d]) of
                    None \<Rightarrow> Inr ZERO_BYTES
                  | Some child \<Rightarrow> digestBytes child) [0..<16]"

fun radix_up :: "sha256 \<Rightarrow> nat \<Rightarrow> string \<Rightarrow> merkle_radix \<Rightarrow> merkle_error + merkle_radix" where
  "radix_up H 0 child t = Inr t"
| "radix_up H (Suc n) child t =
     (let parent = butlast child in
      if jget_or 0 (mr_counts t) parent = 0
      then radix_up H n parent (t\<lparr>mr_nodes := jdelete parent (mr_nodes t)\<rparr>)
      else res_bind (radix_children t parent) (\<lambda>children.
        radix_up H n parent
          (t\<lparr>mr_nodes := jset parent (digest H (RADIX_NODE # [word_of_nat (Suc n)] # children)) (mr_nodes t),
             mr_nodes_recalculated := mr_nodes_recalculated t + 1\<rparr>)))"

definition radix_recompute :: "sha256 \<Rightarrow> string \<Rightarrow> merkle_radix \<Rightarrow> merkle_error + merkle_radix" where
  "radix_recompute H key t =
     radix_up H 64 key
       (case jget (mr_leaves t) key of
          Some leaf \<Rightarrow> t\<lparr>mr_nodes := jset key leaf (mr_nodes t)\<rparr>
        | None \<Rightarrow> t\<lparr>mr_nodes := jdelete key (mr_nodes t)\<rparr>)"

definition radix_set :: "sha256 \<Rightarrow> string \<Rightarrow> string \<Rightarrow> merkle_radix \<Rightarrow> merkle_error + merkle_radix" where
  "radix_set H memberDigest logicalDigest t =
     res_bind (keyHex memberDigest) (\<lambda>key.
     res_bind (digestBytes logicalDigest) (\<lambda>lb.
     res_bind (digestBytes memberDigest) (\<lambda>mb.
       radix_recompute H key
         (t\<lparr>mr_leaves_modified := mr_leaves_modified t + 1,
            mr_counts := (if jhas (mr_leaves t) key then mr_counts t else bump_counts 64 key (mr_counts t)),
            mr_leaves := jset key (digest H [RADIX_LEAF, mb, lb]) (mr_leaves t)\<rparr>))))"

definition radix_delete :: "sha256 \<Rightarrow> string \<Rightarrow> merkle_radix \<Rightarrow> merkle_error + merkle_radix" where
  "radix_delete H memberDigest t =
     res_bind (keyHex memberDigest) (\<lambda>key.
       if \<not> jhas (mr_leaves t) key then Inr t
       else radix_recompute H key
         (t\<lparr>mr_counts := drop_counts 64 key (mr_counts t),
            mr_leaves := jdelete key (mr_leaves t),
            mr_leaves_modified := mr_leaves_modified t + 1\<rparr>))"

definition radix_root :: "merkle_radix \<Rightarrow> string" where
  "radix_root t =
     (if length (mr_leaves t) = 0 then ZERO_DIGEST
      else case jget (mr_nodes t) [] of None \<Rightarrow> ZERO_DIGEST | Some d \<Rightarrow> d)"

definition radix_size :: "merkle_radix \<Rightarrow> nat" where
  "radix_size t = length (mr_leaves t)"

definition radix_verify :: "sha256 \<Rightarrow> (string \<times> string) list \<Rightarrow> merkle_radix \<Rightarrow> merkle_error + bool" where
  "radix_verify H entries t =
     res_bind (res_fold (\<lambda>(m, l) s. radix_set H m l s) entries radix_empty)
       (\<lambda>expected. Inr (radix_root expected = radix_root t))"

text \<open>
  The bulk constructor \<open>from\<close>: collect the entries by normalised key, refuse conflicting
  duplicates, create the leaves, then compute all prefixes from the longest to the shortest.
\<close>

definition collect_logical ::
  "string \<times> string \<Rightarrow> (string, string) jsmap \<Rightarrow> merkle_error + (string, string) jsmap" where
  "collect_logical entry m =
     res_bind (keyHex (fst entry)) (\<lambda>member.
     res_bind (digestBytes (snd entry)) (\<lambda>_.
       case jget m member of
         Some previous \<Rightarrow> if previous \<noteq> snd entry then Inl ConflictingDuplicate else Inr (jset member (snd entry) m)
       | None \<Rightarrow> Inr (jset member (snd entry) m)))"

definition radix_from_leaf :: "sha256 \<Rightarrow> string \<times> string \<Rightarrow> merkle_radix \<Rightarrow> merkle_error + merkle_radix" where
  "radix_from_leaf H kl t =
     res_bind (digestBytes (snd kl)) (\<lambda>lb.
       Inr (t\<lparr>mr_leaves := jset (fst kl) (digest H [RADIX_LEAF, hex_decode (fst kl), lb]) (mr_leaves t),
              mr_counts := bump_counts 64 (fst kl) (mr_counts t)\<rparr>))"

definition radix_from_node :: "sha256 \<Rightarrow> string \<Rightarrow> merkle_radix \<Rightarrow> merkle_error + merkle_radix" where
  "radix_from_node H p t =
     res_bind (radix_children t p) (\<lambda>children.
       Inr (t\<lparr>mr_nodes := jset p (digest H (RADIX_NODE # [word_of_nat (length p + 1)] # children)) (mr_nodes t),
              mr_nodes_recalculated := mr_nodes_recalculated t + 1\<rparr>))"

definition radix_prefix_cmp :: "string \<Rightarrow> string \<Rightarrow> int" where
  "radix_prefix_cmp l r =
     (if length r \<noteq> length l then int (length r) - int (length l) else str_cmp l r)"

definition radix_prefixes :: "string list \<Rightarrow> string list" where
  "radix_prefixes keys = sort_by radix_prefix_cmp
     (remdups (concat (map (\<lambda>key. map (\<lambda>d. take d key) [0..<64]) keys)))"

definition radix_from :: "sha256 \<Rightarrow> (string \<times> string) list \<Rightarrow> merkle_error + merkle_radix" where
  "radix_from H entries =
     res_bind (res_fold collect_logical entries []) (\<lambda>logicalByKey.
     res_bind (res_fold (radix_from_leaf H) logicalByKey radix_empty) (\<lambda>t.
     let t = t\<lparr>mr_nodes := fold (\<lambda>(key, leaf) m. jset key leaf m) (mr_leaves t) (mr_nodes t),
               mr_collections_ordered := mr_collections_ordered t + 1\<rparr> in
     res_bind (res_fold (radix_from_node H) (radix_prefixes (jkeys (mr_leaves t))) t) (\<lambda>t.
       Inr (t\<lparr>mr_leaves_modified := length (mr_leaves t)\<rparr>))))"

section \<open>The specification of a node\<close>

definition child_bytes :: "string option \<Rightarrow> byte list" where
  "child_bytes c = (case c of None \<Rightarrow> ZERO_BYTES
                    | Some s \<Rightarrow> (case digestBytes s of Inl _ \<Rightarrow> ZERO_BYTES | Inr bs \<Rightarrow> bs))"

definition radix_comb :: "sha256 \<Rightarrow> nat \<Rightarrow> string option list \<Rightarrow> string" where
  "radix_comb H n cs = digest H (RADIX_NODE # [word_of_nat (n + 1)] # map child_bytes cs)"

abbreviation radix_tree :: "sha256 \<Rightarrow> (string, string) jsmap \<Rightarrow> nat \<Rightarrow> string \<Rightarrow> string option" where
  "radix_tree H \<equiv> subtree hex_digits (radix_comb H)"

definition digest_ok :: "string \<Rightarrow> bool" where
  "digest_ok s \<longleftrightarrow> (\<exists>bs. digestBytes s = Inr bs)"

definition is_digest_text :: "string \<Rightarrow> bool" where
  "is_digest_text s \<longleftrightarrow> (\<exists>h. s = digest_text h)"

definition key_count :: "(string, 'v) jsmap \<Rightarrow> string \<Rightarrow> int" where
  "key_count L p = int (length (filter (prefix p) (jkeys L)))"

definition radix_leaves_ok :: "(string, string) jsmap \<Rightarrow> bool" where
  "radix_leaves_ok L \<longleftrightarrow> distinct (jkeys L) \<and> (\<forall>k \<in> set (jkeys L). lower64 k) \<and> (\<forall>k v. jget L k = Some v \<longrightarrow> is_digest_text v)"

definition radix_inv :: "sha256 \<Rightarrow> merkle_radix \<Rightarrow> bool" where
  "radix_inv H t \<longleftrightarrow> radix_leaves_ok (mr_leaves t)
     \<and> (\<forall>p. jget_or 0 (mr_counts t) p = key_count (mr_leaves t) p)
     \<and> (\<forall>p. jget (mr_nodes t) p =
            (if length p \<le> 64 then radix_tree H (mr_leaves t) (64 - length p) p else None))"

lemma digest_ok_digest [simp]: "digest_ok (digest H ps)" "is_digest_text (digest H ps)"
  by (simp_all add: digest_ok_def is_digest_text_def digest_def)

lemma is_digest_text_ok: "is_digest_text s \<Longrightarrow> digest_ok s"
  by (auto simp: is_digest_text_def digest_ok_def)

lemma digest_ok_bytes: "digest_ok s \<Longrightarrow> digestBytes s = Inr (child_bytes (Some s))"
  by (auto simp: digest_ok_def child_bytes_def)

lemma hex_digits_upt: "map hex_digit [0..<16] = hex_digits"
  by code_simp

section \<open>Prefix counts\<close>

lemma bump_counts_get:
  "D \<le> length key \<Longrightarrow>
   jget_or 0 (bump_counts D key m) p = jget_or 0 m p + (if prefix p key \<and> length p \<le> D then 1 else 0)"
proof (induction D)
  case 0
  then show ?case by (auto simp: bump_counts_def)
next
  case (Suc D)
  have "bump_counts (Suc D) key m =
    jset (take (Suc D) key) (jget_or 0 (bump_counts D key m) (take (Suc D) key) + 1) (bump_counts D key m)"
    by (simp add: bump_counts_def)
  moreover have "take (Suc D) key = p \<longleftrightarrow> prefix p key \<and> length p = Suc D"
    using Suc.prems by (rule take_eq_prefix)
  ultimately show ?case using Suc by auto
qed

lemma drop_counts_get:
  assumes "D \<le> length key" and "\<And>p. prefix p key \<Longrightarrow> jget_or 0 m p \<ge> 1"
  shows "jget_or 0 (drop_counts D key m) p = jget_or 0 m p - (if prefix p key \<and> length p \<le> D then 1 else 0)"
  using assms
proof (induction D arbitrary: p)
  case 0
  have "jget_or 1 m [] = jget_or 0 m []"
    using 0(2) [of "[]"] by (auto simp: jget_or_def split: option.splits)
  then show ?case by (auto simp: drop_counts_def Let_def)
next
  case (Suc D)
  let ?m = "drop_counts D key m" and ?q = "take (Suc D) key"
  have step: "drop_counts (Suc D) key m =
    (let c = jget_or 1 ?m ?q - 1 in if c = 0 then jdelete ?q ?m else jset ?q c ?m)"
    by (simp add: drop_counts_def)
  have IH: "jget_or 0 ?m r = jget_or 0 m r - (if prefix r key \<and> length r \<le> D then 1 else 0)" for r
    using Suc by simp
  have q: "?q = r \<longleftrightarrow> prefix r key \<and> length r = Suc D" for r
    using Suc.prems(1) by (rule take_eq_prefix)
  have "jget_or 0 ?m ?q \<ge> 1" using IH Suc.prems q by (simp add: take_is_prefix)
  then have "jget_or 1 ?m ?q = jget_or 0 ?m ?q" by (auto simp: jget_or_def split: option.splits)
  then show ?case using IH [of p] q [of p] by (auto simp: step Let_def)
qed

lemma key_count_pos: "key_count L p = 0 \<longleftrightarrow> \<not> occupied L p"
  by (auto simp: key_count_def occupied_def list_ex_iff filter_empty_conv)

lemma key_count_jset:
  "key_count (jset k v L) p = key_count L p + (if k \<in> set (jkeys L) then 0 else if prefix p k then 1 else 0)"
  by (simp add: key_count_def jkeys_jset_eq)

lemma key_count_jdelete:
  "distinct (jkeys L) \<Longrightarrow> k \<in> set (jkeys L) \<Longrightarrow>
   key_count (jdelete k L) p = key_count L p - (if prefix p k then 1 else 0)"
proof -
  assume a: "distinct (jkeys L)" "k \<in> set (jkeys L)"
  have "length (filter (prefix p) ks) = length (filter (prefix p) (removeAll k ks)) + (if prefix p k then 1 else 0)"
    if "distinct ks" "k \<in> set ks" for ks :: "string list"
    using that
  proof (induction ks)
    case (Cons a ks)
    then show ?case by (cases "a = k") simp_all
  qed simp
  from this [OF a] show ?thesis unfolding key_count_def delete_keys by simp
qed

section \<open>The walk to the root refines the specification\<close>

lemma radix_children_eq:
  assumes "\<And>p v. jget (mr_nodes t) p = Some v \<Longrightarrow> digest_ok v"
  shows "radix_children t parent =
    Inr (map child_bytes (map (\<lambda>c. jget (mr_nodes t) (parent @ [c])) hex_digits))"
proof -
  have "radix_children t parent =
    Inr (map (\<lambda>d. child_bytes (jget (mr_nodes t) (parent @ [hex_digit d]))) [0..<16])"
    unfolding radix_children_def
  proof (rule res_map_total)
    fix d
    show "(case jget (mr_nodes t) (parent @ [hex_digit d]) of None \<Rightarrow> Inr ZERO_BYTES
           | Some child \<Rightarrow> digestBytes child) = Inr (child_bytes (jget (mr_nodes t) (parent @ [hex_digit d])))"
      using assms by (cases "jget (mr_nodes t) (parent @ [hex_digit d])")
        (simp_all add: digest_ok_bytes, simp add: child_bytes_def)
  qed
  also have "map (\<lambda>d. child_bytes (jget (mr_nodes t) (parent @ [hex_digit d]))) [0..<16] =
    map child_bytes (map (\<lambda>c. jget (mr_nodes t) (parent @ [c])) (map hex_digit [0..<16]))"
    by (simp only: map_map comp_def)
  finally show ?thesis by (simp only: hex_digits_upt)
qed

lemma radix_up_refines:
  assumes "\<And>p v. jget (mr_nodes t) p = Some v \<Longrightarrow> digest_ok v"
    and "\<And>p. jget_or 0 (mr_counts t) p = key_count (mr_leaves t) p"
    and "length child = n"
  shows "\<exists>t'. radix_up H n child t = Inr t' \<and> mr_leaves t' = mr_leaves t \<and> mr_counts t' = mr_counts t
    \<and> map_of (mr_nodes t') = path_fill hex_digits (radix_comb H) (mr_leaves t) n child (map_of (mr_nodes t))"
  using assms
proof (induction n arbitrary: child t)
  case 0
  then show ?case by simp
next
  case (Suc n)
  let ?p = "butlast child"
  have len: "length ?p = n" using Suc.prems by simp
  show ?case
  proof (cases "occupied (mr_leaves t) ?p")
    case False
    let ?t = "t\<lparr>mr_nodes := jdelete ?p (mr_nodes t)\<rparr>"
    have eq: "radix_up H (Suc n) child t = radix_up H n ?p ?t"
      using False Suc.prems by (simp add: key_count_pos Let_def)
    have ok: "digest_ok v" if "jget (mr_nodes ?t) p = Some v" for p v
      using that Suc.prems(1) by (auto split: if_splits)
    have fill: "path_fill hex_digits (radix_comb H) (mr_leaves t) (Suc n) child (map_of (mr_nodes t)) =
      path_fill hex_digits (radix_comb H) (mr_leaves t) n ?p (map_of (mr_nodes ?t))"
      using False by (simp add: Let_def)
    have "\<exists>t'. radix_up H n ?p ?t = Inr t' \<and> mr_leaves t' = mr_leaves ?t \<and> mr_counts t' = mr_counts ?t
      \<and> map_of (mr_nodes t') = path_fill hex_digits (radix_comb H) (mr_leaves ?t) n ?p (map_of (mr_nodes ?t))"
      by (rule Suc.IH) (erule ok, simp add: Suc.prems(2), rule len)
    then show ?thesis unfolding eq fill by simp
  next
    case True
    let ?v = "radix_comb H n (map (\<lambda>c. jget (mr_nodes t) (?p @ [c])) hex_digits)"
    let ?t = "t\<lparr>mr_nodes := jset ?p ?v (mr_nodes t), mr_nodes_recalculated := mr_nodes_recalculated t + 1\<rparr>"
    have eq: "radix_up H (Suc n) child t = radix_up H n ?p ?t"
      using True Suc.prems by (simp add: key_count_pos radix_children_eq radix_comb_def Let_def)
    have ok: "digest_ok v" if "jget (mr_nodes ?t) p = Some v" for p v
      using that Suc.prems(1) by (auto simp: radix_comb_def split: if_splits)
    have fill: "path_fill hex_digits (radix_comb H) (mr_leaves t) (Suc n) child (map_of (mr_nodes t)) =
      path_fill hex_digits (radix_comb H) (mr_leaves t) n ?p (map_of (mr_nodes ?t))"
      using True len by (simp add: Let_def)
    have "\<exists>t'. radix_up H n ?p ?t = Inr t' \<and> mr_leaves t' = mr_leaves ?t \<and> mr_counts t' = mr_counts ?t
      \<and> map_of (mr_nodes t') = path_fill hex_digits (radix_comb H) (mr_leaves ?t) n ?p (map_of (mr_nodes ?t))"
      by (rule Suc.IH) (erule ok, simp add: Suc.prems(2), rule len)
    then show ?thesis unfolding eq fill by simp
  qed
qed

lemma path_fill_outside: "\<not> prefix p (butlast child) \<Longrightarrow> path_fill ds comb L n child N p = N p"
proof (induction n arbitrary: child N)
  case 0
  then show ?case by simp
next
  case (Suc n)
  then have "\<not> prefix p (butlast (butlast child))" "p \<noteq> butlast child"
    by (auto intro: prefix_order.trans [OF _ prefixeq_butlast])
  then show ?case using Suc by (simp add: Let_def)
qed

text \<open>
  The step shared by \<open>set\<close> and \<open>delete\<close>: the leaves change at \<open>key\<close> only, the counts are already
  adjusted, and the walk re-establishes the invariant.
\<close>

lemma radix_recompute_inv:
  assumes old: "radix_inv H t" and key: "lower64 key"
    and L: "\<And>k. k \<noteq> key \<Longrightarrow> jget (mr_leaves s) k = jget (mr_leaves t) k"
    and leaves: "radix_leaves_ok (mr_leaves s)"
    and counts: "\<And>p. jget_or 0 (mr_counts s) p = key_count (mr_leaves s) p"
    and nodes: "mr_nodes s = mr_nodes t"
  shows "\<exists>t'. radix_recompute H key s = Inr t' \<and> radix_inv H t' \<and> mr_leaves t' = mr_leaves s"
proof -
  define s' where "s' = (case jget (mr_leaves s) key of
          Some leaf \<Rightarrow> s\<lparr>mr_nodes := jset key leaf (mr_nodes s)\<rparr>
        | None \<Rightarrow> s\<lparr>mr_nodes := jdelete key (mr_nodes s)\<rparr>)"
  have len: "length key = 64" using key by (simp add: lower64_def)
  have s': "mr_leaves s' = mr_leaves s" "mr_counts s' = mr_counts s"
    "map_of (mr_nodes s') = (map_of (mr_nodes t))(key := jget (mr_leaves s) key)"
    by (auto simp: s'_def nodes update_conv delete_conv split: option.splits)
  have old_nodes: "jget (mr_nodes t) p =
      (if length p \<le> 64 then radix_tree H (mr_leaves t) (64 - length p) p else None)" for p
    using old by (simp add: radix_inv_def)
  have leaf_ok: "digest_ok v" if "radix_leaves_ok L" "jget L k = Some v" for L k v
    using that by (simp add: radix_leaves_ok_def is_digest_text_ok)
  have node_ok: "digest_ok v" if "radix_tree H L d p = Some v" "radix_leaves_ok L" for L d p v
    using that leaf_ok by (cases d) (auto simp: radix_comb_def split: if_splits)
  have ok: "digest_ok v" if "jget (mr_nodes s') p = Some v" for p v
    using that s'(3) old_nodes [of p] leaf_ok [OF leaves] node_ok old
    by (auto simp: radix_inv_def split: if_splits)
  have pre: "map_of (mr_nodes s') p = radix_tree H (mr_leaves s) (64 - length p) p"
    if "length p \<le> 64" "\<not> (prefix p key \<and> length p < 64)" for p
  proof (cases "p = key")
    case True
    then show ?thesis using s' len by simp
  next
    case False
    then have "\<not> prefix p key" using that len by (auto simp: prefix_def)
    then have "radix_tree H (mr_leaves t) d p = radix_tree H (mr_leaves s) d p" for d
      using L by (intro subtree_local) metis
    then show ?thesis using that False s' old_nodes by simp
  qed
  obtain t' where t': "radix_up H 64 key s' = Inr t'" "mr_leaves t' = mr_leaves s" "mr_counts t' = mr_counts s"
    "map_of (mr_nodes t') = path_fill hex_digits (radix_comb H) (mr_leaves s) 64 key (map_of (mr_nodes s'))"
    using radix_up_refines [of s' key 64 H] ok counts s' len by auto
  have "jget (mr_nodes t') p = (if length p \<le> 64 then radix_tree H (mr_leaves s) (64 - length p) p else None)" for p
  proof (cases "length p \<le> 64")
    case True
    then have "path_fill hex_digits (radix_comb H) (mr_leaves s) 64 key (map_of (mr_nodes s')) p
      = radix_tree H (mr_leaves s) (64 - length p) p"
      by (intro path_fill_correct [OF len]) (simp_all add: pre len)
    then show ?thesis using True t'(4) by simp
  next
    case False
    then have "\<not> prefix p (butlast key)" "p \<noteq> key" using len by (auto dest: prefix_length_le)
    then show ?thesis using False t'(4) s'(3) old_nodes by (simp add: path_fill_outside)
  qed
  then have "radix_inv H t'" using t' leaves counts by (simp add: radix_inv_def)
  then show ?thesis using t' by (auto simp: radix_recompute_def s'_def)
qed

section \<open>Every operation keeps the invariant\<close>

text \<open>The abstract contents: normalised member key to leaf digest.\<close>

definition radix_key :: "string \<Rightarrow> string" where
  "radix_key m = (case keyHex m of Inl _ \<Rightarrow> [] | Inr k \<Rightarrow> k)"

definition radix_leaf :: "sha256 \<Rightarrow> string \<Rightarrow> string \<Rightarrow> string" where
  "radix_leaf H m l = digest H [RADIX_LEAF, child_bytes (Some m), child_bytes (Some l)]"

definition radix_spec_root :: "sha256 \<Rightarrow> (string, string) jsmap \<Rightarrow> string" where
  "radix_spec_root H L = (case radix_tree H L 64 [] of None \<Rightarrow> ZERO_DIGEST | Some d \<Rightarrow> d)"

lemma radix_key_ok: "digest_ok m \<Longrightarrow> keyHex m = Inr (radix_key m) \<and> lower64 (radix_key m)"
proof -
  assume "digest_ok m"
  then obtain k where "keyHex m = Inr k" by (auto simp: digest_ok_def keyHex_def)
  then show ?thesis using keyHex_lower64 by (simp add: radix_key_def)
qed

lemma radix_leaves_ok_jset:
  "radix_leaves_ok L \<Longrightarrow> lower64 k \<Longrightarrow> is_digest_text v \<Longrightarrow> radix_leaves_ok (jset k v L)"
  by (auto simp: radix_leaves_ok_def dom_update split: if_splits)

lemma radix_leaves_ok_jdelete: "radix_leaves_ok L \<Longrightarrow> radix_leaves_ok (jdelete k L)"
  by (auto simp: radix_leaves_ok_def distinct_delete split: if_splits)

lemma radix_inv_empty: "radix_inv H radix_empty"
proof -
  have "radix_tree H [] d p = None" for d p by (cases d) (simp_all add: occupied_def)
  then show ?thesis by (simp add: radix_inv_def radix_empty_def radix_leaves_ok_def key_count_def)
qed

lemma radix_set_ok:
  assumes "radix_inv H t" and "digest_ok m" and "digest_ok l"
  shows "\<exists>t'. radix_set H m l t = Inr t' \<and> radix_inv H t' \<and>
    mr_leaves t' = jset (radix_key m) (radix_leaf H m l) (mr_leaves t)"
proof -
  let ?k = "radix_key m"
  define s where "s = t\<lparr>mr_leaves_modified := mr_leaves_modified t + 1,
            mr_counts := (if jhas (mr_leaves t) ?k then mr_counts t else bump_counts 64 ?k (mr_counts t)),
            mr_leaves := jset ?k (radix_leaf H m l) (mr_leaves t)\<rparr>"
  have k: "keyHex m = Inr ?k" "lower64 ?k" using radix_key_ok assms(2) by auto
  then have "64 \<le> length ?k" "\<And>p. prefix p ?k \<Longrightarrow> length p \<le> 64"
    by (auto simp: lower64_def dest: prefix_length_le)
  then have "jget_or 0 (mr_counts s) p = key_count (mr_leaves s) p" for p
    using assms(1) by (simp add: s_def radix_inv_def key_count_jset bump_counts_get)
  moreover have "radix_leaves_ok (mr_leaves s)"
    using assms k by (simp add: s_def radix_inv_def radix_leaves_ok_jset radix_leaf_def)
  ultimately obtain t' where "radix_recompute H ?k s = Inr t'" "radix_inv H t'" "mr_leaves t' = mr_leaves s"
    using radix_recompute_inv [OF assms(1) k(2), of s] by (auto simp: s_def)
  then show ?thesis
    using k assms(2,3) by (auto simp: radix_set_def s_def radix_leaf_def digest_ok_bytes)
qed

lemma radix_delete_ok:
  assumes "radix_inv H t" and "digest_ok m"
  shows "\<exists>t'. radix_delete H m t = Inr t' \<and> radix_inv H t' \<and> mr_leaves t' = jdelete (radix_key m) (mr_leaves t)"
proof (cases "radix_key m \<in> set (jkeys (mr_leaves t))")
  case False
  then show ?thesis using assms radix_key_ok [OF assms(2)] by (simp add: radix_delete_def)
next
  case True
  let ?k = "radix_key m"
  define s where "s = t\<lparr>mr_counts := drop_counts 64 ?k (mr_counts t),
            mr_leaves := jdelete ?k (mr_leaves t), mr_leaves_modified := mr_leaves_modified t + 1\<rparr>"
  have k: "keyHex m = Inr ?k" "lower64 ?k" using radix_key_ok assms(2) by auto
  have len: "64 \<le> length ?k" "\<And>p. prefix p ?k \<Longrightarrow> length p \<le> 64"
    using k by (auto simp: lower64_def dest: prefix_length_le)
  have dist: "distinct (jkeys (mr_leaves t))" using assms(1) by (simp add: radix_inv_def radix_leaves_ok_def)
  have cnt: "jget_or 0 (mr_counts t) p = key_count (mr_leaves t) p" for p
    using assms(1) by (simp add: radix_inv_def)
  have "key_count (mr_leaves t) p \<ge> 1" if "prefix p ?k" for p
  proof -
    have "occupied (mr_leaves t) p" using True that by (force simp: occupied_def list_ex_iff)
    then have "key_count (mr_leaves t) p \<noteq> 0" by (simp add: key_count_pos)
    then show ?thesis by (simp add: key_count_def Suc_le_eq)
  qed
  then have "jget_or 0 (mr_counts s) p = key_count (mr_leaves s) p" for p
    using len cnt key_count_jdelete [OF dist True] by (simp add: s_def drop_counts_get)
  moreover have "radix_leaves_ok (mr_leaves s)"
    using assms by (simp add: s_def radix_inv_def radix_leaves_ok_jdelete)
  ultimately obtain t' where "radix_recompute H ?k s = Inr t'" "radix_inv H t'" "mr_leaves t' = mr_leaves s"
    using radix_recompute_inv [OF assms(1) k(2), of s] by (auto simp: s_def)
  then show ?thesis using k True by (auto simp: radix_delete_def s_def)
qed

lemma radix_root_spec: "radix_inv H t \<Longrightarrow> radix_root t = radix_spec_root H (mr_leaves t)"
proof -
  assume inv: "radix_inv H t"
  have "mr_leaves t = [] \<Longrightarrow> radix_tree H (mr_leaves t) 64 [] = None"
    by (simp add: subtree_None_iff occupied_def)
  then show ?thesis using inv
    by (auto simp: radix_root_def radix_spec_root_def radix_inv_def)
qed

lemma radix_spec_root_cong: "map_of L = map_of L' \<Longrightarrow> radix_spec_root H L = radix_spec_root H L'"
  by (simp only: radix_spec_root_def subtree_cong_map [of L L'])

interpretation radix: authenticated_set radix_empty "radix_set H" "radix_delete H" radix_root
  "\<lambda>t. map_of (mr_leaves t)" "radix_inv H" radix_key "radix_leaf H" digest_ok
  "\<lambda>_ m l. digest_ok m \<and> digest_ok l" for H
proof
  show "radix_inv H radix_empty" by (rule radix_inv_empty)
  show "map_of (mr_leaves radix_empty) = Map.empty" by (simp add: radix_empty_def)
next
  fix t k v
  assume "radix_inv H t" and "digest_ok k \<and> digest_ok v"
  then show "\<exists>t'. radix_set H k v t = Inr t' \<and> radix_inv H t' \<and>
    map_of (mr_leaves t') = (map_of (mr_leaves t))(radix_key k \<mapsto> radix_leaf H k v)"
    using radix_set_ok [of H t k v] by (auto simp del: fun_upd_apply)
next
  fix t k
  assume "radix_inv H t" and "digest_ok k"
  then show "\<exists>t'. radix_delete H k t = Inr t' \<and> radix_inv H t' \<and>
    map_of (mr_leaves t') = (map_of (mr_leaves t))(radix_key k := None)"
    using radix_delete_ok [of H t k] by (auto simp del: fun_upd_apply)
next
  fix s t
  assume "radix_inv H s" and "radix_inv H t" and "map_of (mr_leaves s) = map_of (mr_leaves t)"
  then show "radix_root s = radix_root t"
    using radix_root_spec radix_spec_root_cong by metis
qed

section \<open>The bulk constructor agrees with insertion one by one\<close>

lemma radix_prefix_cmp_le: "radix_prefix_cmp l r \<le> 0 \<Longrightarrow> length r \<le> length l"
  by (simp add: radix_prefix_cmp_def split: if_splits)

interpretation radix_prefix_order: comparator radix_prefix_cmp
proof
  show "sgn (radix_prefix_cmp y x) = - sgn (radix_prefix_cmp x y)" for x y
    using str_order.cmp_swap [of y x] by (cases "length x = length y") (auto simp: radix_prefix_cmp_def sgn_if)
  show "radix_prefix_cmp x z \<le> 0" if "radix_prefix_cmp x y \<le> 0" "radix_prefix_cmp y z \<le> 0" for x y z
    using that str_order.cmp_trans [of x y z] by (auto simp: radix_prefix_cmp_def split: if_splits)
qed

lemma set_radix_prefixes:
  assumes "\<And>k. k \<in> set keys \<Longrightarrow> length k = 64"
  shows "set (radix_prefixes keys) = {p. length p < 64 \<and> (\<exists>k \<in> set keys. prefix p k)}"
proof (rule set_eqI)
  fix p
  have eq: "(\<exists>d < 64. p = take d k) \<longleftrightarrow> length p < 64 \<and> prefix p k" if "k \<in> set keys" for k
    using take_eq_prefix [of _ k p] assms [OF that] by (metis less_imp_le)
  have "p \<in> set (radix_prefixes keys) \<longleftrightarrow> (\<exists>k \<in> set keys. \<exists>d < 64. p = take d k)"
  proof -
    have "set (radix_prefixes keys) = (\<Union>k \<in> set keys. (\<lambda>d. take d k) ` {0..<64})"
      by (simp add: radix_prefixes_def)
    then show ?thesis by (simp only: UN_iff image_iff) (simp add: Bex_def)
  qed
  also have "\<dots> \<longleftrightarrow> (\<exists>k \<in> set keys. length p < 64 \<and> prefix p k)"
    using eq by (rule bex_cong [OF refl])
  finally show "p \<in> set (radix_prefixes keys) \<longleftrightarrow> p \<in> {p. length p < 64 \<and> (\<exists>k \<in> set keys. prefix p k)}"
    by simp
qed

definition radix_node_at :: "sha256 \<Rightarrow> (string, string) jsmap \<Rightarrow> string \<Rightarrow> string option" where
  "radix_node_at H L p = (if length p \<le> 64 then radix_tree H L (64 - length p) p else None)"

lemma radix_node_at_ok: "radix_leaves_ok L \<Longrightarrow> radix_node_at H L p = Some v \<Longrightarrow> is_digest_text v"
  by (cases "64 - length p") (auto simp: radix_node_at_def radix_leaves_ok_def radix_comb_def split: if_splits)

lemma radix_from_node_step:
  assumes "radix_leaves_ok L" "length p < 64" "occupied L p"
    and kids: "\<And>c. jget (mr_nodes t) (p @ [c]) = radix_node_at H L (p @ [c])"
    and ok: "\<And>q v. jget (mr_nodes t) q = Some v \<Longrightarrow> is_digest_text v"
  shows "radix_from_node H p t =
    Inr (t\<lparr>mr_nodes := jset p (the (radix_node_at H L p)) (mr_nodes t),
           mr_nodes_recalculated := mr_nodes_recalculated t + 1\<rparr>)"
proof -
  have "64 - length p = Suc (64 - Suc (length p))" using assms(2) by simp
  then have "the (radix_node_at H L p) =
      radix_comb H (length p) (map (\<lambda>c. radix_node_at H L (p @ [c])) hex_digits)"
    using assms(2,3) by (simp add: radix_node_at_def)
  then show ?thesis
    using radix_children_eq [of t p] ok is_digest_text_ok kids
    by (simp add: radix_from_node_def radix_comb_def)
qed

text \<open>
  The pass over the prefixes, longest first: \<open>done\<close> are the prefixes computed so far, and every node
  outside \<open>ps\<close> already has its specified value.
\<close>

lemma radix_from_nodes:
  assumes "radix_leaves_ok L" and "sorted_wrt (\<lambda>p q. length q \<le> length p) ps" and "distinct ps"
    and "\<And>p. p \<in> set ps \<Longrightarrow> length p < 64 \<and> occupied L p"
    and "\<And>p. p \<notin> set ps \<Longrightarrow> jget (mr_nodes t) p = radix_node_at H L p"
    and "\<And>p. p \<in> set ps \<Longrightarrow> jget (mr_nodes t) p = None"
    and "mr_leaves t = L"
  shows "\<exists>t'. res_fold (radix_from_node H) ps t = Inr t' \<and> mr_leaves t' = L \<and> mr_counts t' = mr_counts t
    \<and> (\<forall>p. jget (mr_nodes t') p = radix_node_at H L p)"
  using assms
proof (induction ps arbitrary: t)
  case Nil
  then show ?case by simp
next
  case (Cons p ps)
  let ?t = "t\<lparr>mr_nodes := jset p (the (radix_node_at H L p)) (mr_nodes t),
              mr_nodes_recalculated := mr_nodes_recalculated t + 1\<rparr>"
  have p: "length p < 64" "occupied L p" using Cons.prems(4) by auto
  have longer: "q \<notin> set (p # ps)" if "length p < length q" for q
    using Cons.prems(2) that by auto
  have kids: "jget (mr_nodes t) (p @ [c]) = radix_node_at H L (p @ [c])" for c
    using Cons.prems(5) [of "p @ [c]"] longer [of "p @ [c]"] by simp
  have texts: "is_digest_text v" if "jget (mr_nodes t) q = Some v" for q v
    using that Cons.prems(1,5,6) radix_node_at_ok by (cases "q \<in> set (p # ps)") auto
  have step: "radix_from_node H p t = Inr ?t"
    by (rule radix_from_node_step [OF Cons.prems(1) p kids texts])
  have "radix_node_at H L p \<noteq> None"
    using p by (simp add: radix_node_at_def subtree_None_iff)
  then have at: "jget (mr_nodes ?t) q = (if q = p then radix_node_at H L p else jget (mr_nodes t) q)" for q
    by auto
  have "\<exists>t'. res_fold (radix_from_node H) ps ?t = Inr t' \<and> mr_leaves t' = L \<and> mr_counts t' = mr_counts ?t
    \<and> (\<forall>p. jget (mr_nodes t') p = radix_node_at H L p)"
    by (rule Cons.IH) (use Cons.prems at in auto)
  then show ?case using step by simp
qed

lemma radix_from_leaves:
  assumes "distinct (jkeys M)" and "\<And>k. k \<in> set (jkeys M) \<Longrightarrow> lower64 k"
    and "\<And>l. l \<in> snd ` set M \<Longrightarrow> digest_ok l"
    and "radix_leaves_ok (mr_leaves t)" and "set (jkeys M) \<inter> set (jkeys (mr_leaves t)) = {}"
    and "\<And>p. jget_or 0 (mr_counts t) p = key_count (mr_leaves t) p"
  shows "\<exists>t'. res_fold (radix_from_leaf H) M t = Inr t' \<and> radix_leaves_ok (mr_leaves t')
    \<and> (\<forall>p. jget_or 0 (mr_counts t') p = key_count (mr_leaves t') p) \<and> mr_nodes t' = mr_nodes t
    \<and> (\<forall>k. jget (mr_leaves t') k = (case jget M k of
          Some l \<Rightarrow> Some (digest H [RADIX_LEAF, hex_decode k, child_bytes (Some l)])
        | None \<Rightarrow> jget (mr_leaves t) k))"
  using assms
proof (induction M arbitrary: t)
  case Nil
  then show ?case by simp
next
  case (Cons kl M)
  obtain k l where kl: "kl = (k, l)" by (cases kl)
  let ?v = "digest H [RADIX_LEAF, hex_decode k, child_bytes (Some l)]"
  let ?t = "t\<lparr>mr_leaves := jset k ?v (mr_leaves t), mr_counts := bump_counts 64 k (mr_counts t)\<rparr>"
  have k: "lower64 k" "digest_ok l" "k \<notin> set (jkeys (mr_leaves t))" "k \<notin> set (jkeys M)"
    using Cons.prems kl by auto
  then have step: "radix_from_leaf H kl t = Inr ?t"
    by (simp add: radix_from_leaf_def kl digest_ok_bytes)
  have len: "64 \<le> length k" "\<And>p. prefix p k \<Longrightarrow> length p \<le> 64"
    using k by (auto simp: lower64_def dest: prefix_length_le)
  have cnt: "jget_or 0 (mr_counts ?t) p = key_count (mr_leaves ?t) p" for p
    using len k Cons.prems(6) by (simp add: bump_counts_get key_count_jset)
  have ok: "radix_leaves_ok (mr_leaves ?t)" using Cons.prems k by (simp add: radix_leaves_ok_jset)
  have disj: "set (jkeys M) \<inter> set (jkeys (mr_leaves ?t)) = {}"
    using Cons.prems(5) k kl by (auto simp: dom_update)
  obtain t' where t': "res_fold (radix_from_leaf H) M ?t = Inr t'" "radix_leaves_ok (mr_leaves t')"
    "\<forall>p. jget_or 0 (mr_counts t') p = key_count (mr_leaves t') p" "mr_nodes t' = mr_nodes ?t"
    "\<forall>j. jget (mr_leaves t') j = (case jget M j of
          Some l \<Rightarrow> Some (digest H [RADIX_LEAF, hex_decode j, child_bytes (Some l)])
        | None \<Rightarrow> jget (mr_leaves ?t) j)"
    using Cons.IH [OF _ _ _ ok disj cnt] Cons.prems(1,2,3) by auto
  have "jget M k = None" using k(4) by (simp add: map_of_eq_None_iff)
  then show ?case
    using t' step kl by (auto split: option.splits)
qed

lemma jset_fold_lookup:
  "distinct (jkeys xs) \<Longrightarrow> map_of (fold (\<lambda>(k, v) m. jset k v m) xs m) j =
     (case map_of xs j of None \<Rightarrow> map_of m j | Some v \<Rightarrow> Some v)"
proof (induction xs arbitrary: m)
  case (Cons x xs)
  then show ?case
    by (cases x) (auto split: option.splits simp: map_of_eq_None_iff[symmetric] rev_image_eqI)
qed simp

text \<open>What \<open>collect_logical\<close> accumulates.\<close>

definition logical_ok :: "(string, string) jsmap \<Rightarrow> bool" where
  "logical_ok M \<longleftrightarrow> distinct (jkeys M) \<and> (\<forall>k \<in> set (jkeys M). lower64 k) \<and> (\<forall>k l. jget M k = Some l \<longrightarrow> digest_ok l)"

lemma radix_from_built:
  assumes "logical_ok M"
  shows "\<exists>t. res_bind (res_fold (radix_from_leaf H) M radix_empty) (\<lambda>t.
     let t = t\<lparr>mr_nodes := fold (\<lambda>(key, leaf) m. jset key leaf m) (mr_leaves t) (mr_nodes t),
               mr_collections_ordered := mr_collections_ordered t + 1\<rparr> in
     res_bind (res_fold (radix_from_node H) (radix_prefixes (jkeys (mr_leaves t))) t) (\<lambda>t.
       Inr (t\<lparr>mr_leaves_modified := length (mr_leaves t)\<rparr>))) = Inr t
   \<and> radix_inv H t
   \<and> (\<forall>k. jget (mr_leaves t) k =
        map_option (\<lambda>l. digest H [RADIX_LEAF, hex_decode k, child_bytes (Some l)]) (jget M k))"
proof -
  have vals: "digest_ok l" if "l \<in> snd ` set M" for l
    using that assms by (fastforce simp: logical_ok_def map_of_eq_Some_iff)
  obtain t1 where t1: "res_fold (radix_from_leaf H) M radix_empty = Inr t1" "radix_leaves_ok (mr_leaves t1)"
    "\<forall>p. jget_or 0 (mr_counts t1) p = key_count (mr_leaves t1) p" "mr_nodes t1 = []"
    "\<forall>k. jget (mr_leaves t1) k = (case jget M k of
          Some l \<Rightarrow> Some (digest H [RADIX_LEAF, hex_decode k, child_bytes (Some l)]) | None \<Rightarrow> None)"
  proof -
    have "distinct (jkeys M)" "\<And>k. k \<in> set (jkeys M) \<Longrightarrow> lower64 k"
      using assms by (auto simp: logical_ok_def)
    moreover have "radix_leaves_ok (mr_leaves radix_empty)" by (simp add: radix_leaves_ok_def)
    moreover have "jget_or 0 (mr_counts radix_empty) p = key_count (mr_leaves radix_empty) p" for p
      by (simp add: key_count_def)
    ultimately show ?thesis using radix_from_leaves [of M radix_empty H] vals that
      by (auto cong: option.case_cong)
  qed
  let ?L = "mr_leaves t1" and ?ps = "radix_prefixes (jkeys (mr_leaves t1))"
  let ?t2 = "t1\<lparr>mr_nodes := fold (\<lambda>(key, leaf) m. jset key leaf m) ?L (mr_nodes t1),
               mr_collections_ordered := mr_collections_ordered t1 + 1\<rparr>"
  have keys: "\<And>k. k \<in> set (jkeys ?L) \<Longrightarrow> length k = 64" "distinct (jkeys ?L)"
    using t1(2) by (auto simp: radix_leaves_ok_def lower64_def)
  have ps: "set ?ps = {p. length p < 64 \<and> occupied ?L p}"
    using set_radix_prefixes [of "jkeys ?L"] keys(1) by (simp add: occupied_def list_ex_iff)
  have init: "jget (mr_nodes ?t2) p = jget ?L p" for p
    using keys(2) t1(4) by (simp add: jset_fold_lookup split: option.splits)
  have short: "jget ?L p = None" if "length p \<noteq> 64" for p
    using that keys(1) jget_Some_key by (metis not_None_eq)
  have "\<exists>t3. res_fold (radix_from_node H) ?ps ?t2 = Inr t3 \<and> mr_leaves t3 = ?L \<and> mr_counts t3 = mr_counts ?t2
    \<and> (\<forall>p. jget (mr_nodes t3) p = radix_node_at H ?L p)"
  proof (rule radix_from_nodes [OF t1(2)])
    show "sorted_wrt (\<lambda>p q. length q \<le> length p) ?ps"
      unfolding radix_prefixes_def
      by (rule sorted_wrt_mono_rel [OF _ radix_prefix_order.sorted_sort_by]) (rule radix_prefix_cmp_le)
    show "distinct ?ps" by (simp add: radix_prefixes_def)
    show "jget (mr_nodes ?t2) p = radix_node_at H ?L p" if "p \<notin> set ?ps" for p
    proof (cases "length p = 64")
      case True
      then show ?thesis using init by (simp add: radix_node_at_def)
    next
      case False
      then have "length p < 64 \<Longrightarrow> \<not> occupied ?L p" using that ps by auto
      then show ?thesis using False init short by (cases "64 - length p") (auto simp: radix_node_at_def)
    qed
    show "jget (mr_nodes ?t2) p = None" if "p \<in> set ?ps" for p
      using that ps init short by auto
  qed (use ps in auto)
  then obtain t3 where t3: "res_fold (radix_from_node H) ?ps ?t2 = Inr t3" "mr_leaves t3 = ?L"
    "mr_counts t3 = mr_counts t1" "\<forall>p. jget (mr_nodes t3) p = radix_node_at H ?L p"
    by auto
  then have "radix_inv H (t3\<lparr>mr_leaves_modified := length ?L\<rparr>)"
    using t1 by (simp add: radix_inv_def radix_node_at_def)
  moreover have "jget ?L k = map_option (\<lambda>l. digest H [RADIX_LEAF, hex_decode k, child_bytes (Some l)]) (jget M k)" for k
    using t1(5) by (simp split: option.splits)
  ultimately show ?thesis using t1(1) t3 by (simp add: Let_def)
qed

lemma hex_decode_radix_key: "digest_ok m \<Longrightarrow> hex_decode (radix_key m) = child_bytes (Some m)"
  by (auto simp: digest_ok_def radix_key_def keyHex_def child_bytes_def)

definition radix_leaf_of :: "sha256 \<Rightarrow> (string, string) jsmap \<Rightarrow> string \<Rightarrow> string option" where
  "radix_leaf_of H M k = map_option (\<lambda>l. digest H [RADIX_LEAF, hex_decode k, child_bytes (Some l)]) (jget M k)"

lemma collect_step:
  assumes "collect_logical (m, l) M = Inr M'" and "logical_ok M"
  shows "logical_ok M' \<and> digest_ok m \<and> digest_ok l \<and> map_of M' = (map_of M)(radix_key m \<mapsto> l)
    \<and> jget M (radix_key m) \<in> {None, Some l}"
proof -
  from assms(1) obtain k lb where k0: "keyHex m = Inr k" "digestBytes l = Inr lb"
    by (auto simp: collect_logical_def res_bind_Inr_iff)
  then have "M' = jset k l M \<and> jget M k \<in> {None, Some l}"
    using assms(1) by (cases "jget M k") (auto simp: collect_logical_def split: if_splits)
  with k0 have k: "keyHex m = Inr k" "digest_ok l" "M' = jset k l M" "jget M k \<in> {None, Some l}"
    by (auto simp: digest_ok_def)
  then have "digest_ok m" by (auto simp: keyHex_def digest_ok_def res_bind_Inr_iff)
  moreover have "radix_key m = k" "lower64 k" using k keyHex_lower64 by (auto simp: radix_key_def)
  ultimately show ?thesis
    using k assms(2) by (auto simp: logical_ok_def dom_update)
qed

lemma collect_logical_ok: "res_fold collect_logical es M = Inr M' \<Longrightarrow> logical_ok M \<Longrightarrow> logical_ok M'"
proof (induction es arbitrary: M)
  case (Cons e es)
  then show ?case using collect_step by (cases e) (fastforce simp: res_bind_Inr_iff)
qed simp

text \<open>
  What the collection loop accepts and returns, as a function of the set of entries alone: every
  member and value is a digest, and equal members carry equal values.
\<close>

definition entries_ok :: "(string \<rightharpoonup> string) \<Rightarrow> (string \<times> string) set \<Rightarrow> bool" where
  "entries_ok M es \<longleftrightarrow> (\<forall>m l. (m, l) \<in> es \<longrightarrow> digest_ok m \<and> digest_ok l \<and> M (radix_key m) \<in> {None, Some l}
     \<and> (\<forall>m' l'. (m', l') \<in> es \<longrightarrow> radix_key m = radix_key m' \<longrightarrow> l = l'))"

lemma collect_step_ok:
  "digest_ok m \<Longrightarrow> digest_ok l \<Longrightarrow> jget M (radix_key m) \<in> {None, Some l} \<Longrightarrow>
   collect_logical (m, l) M = Inr (jset (radix_key m) l M)"
  using radix_key_ok [of m] by (auto simp: collect_logical_def digest_ok_def)

lemma entries_okD:
  "entries_ok M es \<Longrightarrow> (a, b) \<in> es \<Longrightarrow> digest_ok a \<and> digest_ok b \<and> M (radix_key a) \<in> {None, Some b}"
  "entries_ok M es \<Longrightarrow> (a, b) \<in> es \<Longrightarrow> (a', b') \<in> es \<Longrightarrow> radix_key a = radix_key a' \<Longrightarrow> b = b'"
  unfolding entries_ok_def by metis+

lemma entries_okI:
  assumes "\<And>a b. (a, b) \<in> es \<Longrightarrow> digest_ok a \<and> digest_ok b \<and> M (radix_key a) \<in> {None, Some b}"
    and "\<And>a b a' b'. (a, b) \<in> es \<Longrightarrow> (a', b') \<in> es \<Longrightarrow> radix_key a = radix_key a' \<Longrightarrow> b = b'"
  shows "entries_ok M es"
  unfolding entries_ok_def using assms by blast

lemma entries_ok_insert:
  "entries_ok M (insert (m, l) es) \<longleftrightarrow> digest_ok m \<and> digest_ok l \<and> M (radix_key m) \<in> {None, Some l}
     \<and> entries_ok (M(radix_key m \<mapsto> l)) es" (is "?lhs \<longleftrightarrow> ?rhs")
proof
  assume ?lhs
  note lhs = entries_okD [OF this]
  have "(M(radix_key m \<mapsto> l)) (radix_key a) \<in> {None, Some b}" if "(a, b) \<in> es" for a b
    using lhs(1) [of a b] lhs(2) [of a b m l] that by auto
  then have "entries_ok (M(radix_key m \<mapsto> l)) es"
    using lhs by (intro entries_okI) (meson insertI2)+
  then show ?rhs using lhs(1) [of m l] by simp
next
  assume rhs: ?rhs
  have "M (radix_key m') \<in> {None, Some l'} \<and> (radix_key m = radix_key m' \<longrightarrow> l = l')" if "(m', l') \<in> es" for m' l'
    using entries_okD(1) [of "M(radix_key m \<mapsto> l)" es m' l'] rhs that by (cases "radix_key m = radix_key m'") auto
  then show ?lhs
    using rhs entries_okD [of "M(radix_key m \<mapsto> l)" es] by (intro entries_okI) auto
qed

lemma collect_accepts: "(\<exists>M'. res_fold collect_logical es M = Inr M') \<longleftrightarrow> entries_ok (map_of M) (set es)" if "logical_ok M"
  using that
proof (induction es arbitrary: M)
  case Nil
  show ?case by (simp add: entries_ok_def)
next
  case (Cons e es)
  obtain m l where e: "e = (m, l)" by (cases e)
  show ?case
  proof (cases "collect_logical (m, l) M")
    case (Inl x)
    then have "\<not> (digest_ok m \<and> digest_ok l \<and> jget M (radix_key m) \<in> {None, Some l})"
      using collect_step_ok by fastforce
    then show ?thesis using Inl e by (auto simp: entries_ok_insert)
  next
    case (Inr M1)
    note ok = collect_step [OF Inr Cons.prems]
    have "(\<exists>M'. res_fold collect_logical es M1 = Inr M') \<longleftrightarrow> entries_ok (map_of M1) (set es)"
      using Cons.IH ok by blast
    then show ?thesis using ok Inr e by (simp add: entries_ok_insert del: fun_upd_apply)
  qed
qed

lemma collect_result:
  assumes "res_fold collect_logical es M = Inr M'" and "logical_ok M" and "(m, l) \<in> set es \<or> (jget M k = Some l \<and> radix_key m = k)"
  shows "jget M' (radix_key m) = Some l"
  using assms
proof (induction es arbitrary: M k)
  case (Cons e es)
  obtain m' l' where e: "e = (m', l')" by (cases e)
  from Cons.prems(1) e obtain M1 where M1: "collect_logical (m', l') M = Inr M1" "res_fold collect_logical es M1 = Inr M'"
    by (auto simp: res_bind_Inr_iff)
  note ok = collect_step [OF M1(1) Cons.prems(2)]
  have "(m, l) \<in> set es \<or> (jget M1 (radix_key m) = Some l \<and> radix_key m = radix_key m)"
    using Cons.prems(3) ok e by auto
  then show ?case using Cons.IH [OF M1(2)] ok by blast
qed auto

lemma collect_origin:
  assumes "res_fold collect_logical es M = Inr M'" and "logical_ok M" and "jget M' k = Some l" and "jget M k = None"
  shows "\<exists>m. (m, l) \<in> set es \<and> radix_key m = k"
  using assms
proof (induction es arbitrary: M)
  case (Cons e es)
  obtain m' l' where e: "e = (m', l')" by (cases e)
  from Cons.prems(1) e obtain M1 where M1: "collect_logical (m', l') M = Inr M1" "res_fold collect_logical es M1 = Inr M'"
    by (auto simp: res_bind_Inr_iff)
  note ok = collect_step [OF M1(1) Cons.prems(2)]
  show ?case
  proof (cases "radix_key m' = k")
    case True
    have "jget M' (radix_key m') = Some l'"
      using collect_result [OF M1(2), of m' l' k] ok True by simp
    then show ?thesis using Cons.prems(3) True e by auto
  next
    case False
    then show ?thesis using Cons.IH [OF M1(2)] ok Cons.prems(3,4) e by fastforce
  qed
qed simp

lemma collect_set_determined:
  assumes "set es = set es'" and "res_fold collect_logical es [] = Inr M"
  shows "\<exists>M'. res_fold collect_logical es' [] = Inr M' \<and> map_of M' = map_of M"
proof -
  have ok: "logical_ok []" by (simp add: logical_ok_def)
  have "\<exists>M'. res_fold collect_logical es' [] = Inr M'"
    using collect_accepts [OF ok] assms by metis
  then obtain M' where M': "res_fold collect_logical es' [] = Inr M'" by blast
  have le: "jget B k = Some l" if "res_fold collect_logical as [] = Inr A" "res_fold collect_logical bs [] = Inr B"
    "set as = set bs" "jget A k = Some l" for as bs A B k l
    using collect_origin [OF that(1) ok that(4)] collect_result [OF that(2) ok] that(3) by fastforce
  have "map_of M' = map_of M"
  proof
    fix k
    show "jget M' k = jget M k"
      using le [OF M' assms(2), of k] le [OF assms(2) M', of k] assms(1)
      by (metis option.exhaust)
  qed
  then show ?thesis using M' by blast
qed

text \<open>
  Collecting the entries and inserting them one by one into a set whose leaves are those of the
  collected map go hand in hand.
\<close>

lemma collect_simulates_set:
  assumes "res_fold collect_logical es M = Inr M'" and "logical_ok M"
    and "radix_inv H s" and "map_of (mr_leaves s) = radix_leaf_of H M"
  shows "logical_ok M' \<and> (\<exists>s'. res_fold (\<lambda>(m, l) s. radix_set H m l s) es s = Inr s' \<and> radix_inv H s'
    \<and> map_of (mr_leaves s') = radix_leaf_of H M')"
  using assms
proof (induction es arbitrary: M s)
  case Nil
  then show ?case by simp
next
  case (Cons e es)
  obtain m l where e: "e = (m, l)" by (cases e)
  from Cons.prems(1) obtain M1 where M1: "collect_logical (m, l) M = Inr M1" "res_fold collect_logical es M1 = Inr M'"
    by (auto simp: res_bind_Inr_iff e)
  have ok: "logical_ok M1" "digest_ok m" "digest_ok l" "map_of M1 = (map_of M)(radix_key m \<mapsto> l)"
    using collect_step [OF M1(1) Cons.prems(2)] by auto
  obtain s1 where s1: "radix_set H m l s = Inr s1" "radix_inv H s1"
    "mr_leaves s1 = jset (radix_key m) (radix_leaf H m l) (mr_leaves s)"
    using radix_set_ok [OF Cons.prems(3) ok(2,3)] by auto
  have "map_of (mr_leaves s1) = radix_leaf_of H M1"
    using Cons.prems(4) s1(3) ok(2,4)
    by (auto simp: radix_leaf_of_def radix_leaf_def hex_decode_radix_key)
  then show ?case using Cons.IH [OF M1(2) ok(1) s1(2)] s1(1) e by simp
qed

lemma radix_from_incremental:
  assumes "radix_from H entries = Inr t"
  shows "\<exists>s. res_fold (\<lambda>(m, l) s. radix_set H m l s) entries radix_empty = Inr s
    \<and> radix_inv H t \<and> map_of (mr_leaves s) = map_of (mr_leaves t) \<and> radix_root s = radix_root t"
proof -
  from assms obtain M where M: "res_fold collect_logical entries [] = Inr M"
    by (auto simp: radix_from_def res_bind_Inr_iff)
  have "logical_ok []" "map_of (mr_leaves radix_empty) = radix_leaf_of H []"
    by (auto simp: logical_ok_def radix_leaf_of_def radix_empty_def)
  from collect_simulates_set [OF M this(1) radix_inv_empty this(2)]
  obtain s where "logical_ok M" and s: "res_fold (\<lambda>(m, l) s. radix_set H m l s) entries radix_empty = Inr s"
    "radix_inv H s" "map_of (mr_leaves s) = radix_leaf_of H M" by blast
  moreover have "radix_inv H t \<and> map_of (mr_leaves t) = radix_leaf_of H M"
    using radix_from_built [OF \<open>logical_ok M\<close>, of H] assms M
    by (auto simp: radix_from_def radix_leaf_of_def fun_eq_iff)
  ultimately show ?thesis using radix.history_independent [of H s t] by auto
qed

lemma radix_from_returns: "(\<exists>t. radix_from H es = Inr t) \<longleftrightarrow> entries_ok Map.empty (set es)"
proof -
  have ok: "logical_ok []" by (simp add: logical_ok_def)
  have "(\<exists>t. radix_from H es = Inr t) \<longleftrightarrow> (\<exists>M. res_fold collect_logical es [] = Inr M)"
  proof
    assume "\<exists>t. radix_from H es = Inr t"
    then show "\<exists>M. res_fold collect_logical es [] = Inr M"
      by (auto simp: radix_from_def res_bind_Inr_iff)
  next
    assume "\<exists>M. res_fold collect_logical es [] = Inr M"
    then obtain M where M: "res_fold collect_logical es [] = Inr M" by blast
    then show "\<exists>t. radix_from H es = Inr t"
      using radix_from_built [OF collect_logical_ok [OF M ok], of H] by (auto simp: radix_from_def)
  qed
  then show ?thesis using collect_accepts [OF ok, of es] by simp
qed

lemma radix_from_leaves_map:
  "radix_from H es = Inr t \<Longrightarrow> \<exists>M. res_fold collect_logical es [] = Inr M \<and> radix_inv H t \<and> map_of (mr_leaves t) = radix_leaf_of H M"
proof -
  assume t: "radix_from H es = Inr t"
  then obtain M where M: "res_fold collect_logical es [] = Inr M"
    by (auto simp: radix_from_def res_bind_Inr_iff)
  have "logical_ok M" by (rule collect_logical_ok [OF M]) (simp add: logical_ok_def)
  then show ?thesis
    using radix_from_built [of M H] t M by (auto simp: radix_from_def radix_leaf_of_def fun_eq_iff)
qed

section \<open>The root commits to the contents\<close>

definition radix_preimage :: "sha256 \<Rightarrow> (string, string) jsmap \<Rightarrow> string \<Rightarrow> byte list" where
  "radix_preimage H L p = concat (RADIX_NODE # [word_of_nat (length p + 1)] #
     map child_bytes (map (\<lambda>c. radix_node_at H L (p @ [c])) hex_digits))"

lemma length_child_bytes [simp]: "length (child_bytes c) = 32"
  by (auto simp: child_bytes_def ZERO_BYTES_def split: option.splits sum.splits dest: digestBytes_length)

lemma child_bytes_inject:
  assumes "child_bytes a = child_bytes b" and "\<And>s. a = Some s \<Longrightarrow> is_digest_text s" "\<And>s. b = Some s \<Longrightarrow> is_digest_text s"
    and "a \<noteq> Some ZERO_DIGEST" "b \<noteq> Some ZERO_DIGEST"
  shows "a = b"
proof -
  have zero: "s = ZERO_DIGEST" if ok: "is_digest_text s" and z: "child_bytes (Some s) = ZERO_BYTES" for s
  proof -
    obtain h where h: "s = digest_text h" using ok by (auto simp: is_digest_text_def)
    then have "hash_bytes h = ZERO_BYTES" using z by (simp add: child_bytes_def)
    then show ?thesis using h by (simp add: digest_text_def ZERO_DIGEST_def)
  qed
  have same: "s = s'" if "is_digest_text s" "is_digest_text s'" "child_bytes (Some s) = child_bytes (Some s')" for s s'
    using that by (auto simp: is_digest_text_def child_bytes_def hash_bytes_inject)
  have none: "child_bytes None = ZERO_BYTES" by (simp add: child_bytes_def)
  show ?thesis
  proof (cases a)
    case None
    then show ?thesis using assms none zero by (cases b) metis+
  next
    case (Some s)
    then show ?thesis using assms none zero same by (cases b) metis+
  qed
qed

lemma radix_node_at_step:
  assumes "length p < 64" and "occupied L p"
  shows "radix_node_at H L p = Some (digest_text (H (radix_preimage H L p)))"
proof -
  have "64 - length p = Suc (64 - Suc (length p))" using assms(1) by simp
  then show ?thesis
    using assms by (simp add: radix_node_at_def radix_comb_def radix_preimage_def digest_def)
qed

lemma concat_map_eq32:
  assumes "concat (map child_bytes xs) = concat (map child_bytes ys)" and "length xs = length ys"
  shows "map child_bytes xs = map child_bytes ys"
  by (rule concat_injective [OF assms(1)]) (use assms(2) in \<open>auto simp: set_zip\<close>)

lemma radix_node_at_None: "length p < 64 \<Longrightarrow> radix_node_at H L p = None \<longleftrightarrow> \<not> occupied L p"
  by (simp add: radix_node_at_def subtree_None_iff)

lemma radix_node_at_child_None:
  assumes "length p < 64" and "\<not> occupied L p"
  shows "radix_node_at H L (p @ [c]) = None"
proof -
  have "\<not> occupied L (p @ [c])" using assms(2) occupied_butlast by fastforce
  moreover from this have "map_of L (p @ [c]) = None" by (force simp: occupied_iff)
  ultimately show ?thesis
    using assms(1) by (cases "64 - length (p @ [c])") (simp_all add: radix_node_at_def)
qed

lemma radix_equal_roots:
  assumes "radix_inv H s" and "radix_inv H t" and "radix_root s = radix_root t"
    and no_zero: "\<And>p. jget (mr_nodes s) p \<noteq> Some ZERO_DIGEST" "\<And>p. jget (mr_nodes t) p \<noteq> Some ZERO_DIGEST"
    and no_collision: "\<And>p. H (radix_preimage H (mr_leaves s) p) = H (radix_preimage H (mr_leaves t) p)
       \<Longrightarrow> radix_preimage H (mr_leaves s) p = radix_preimage H (mr_leaves t) p"
  shows "map_of (mr_leaves s) = map_of (mr_leaves t)"
proof -
  let ?L = "mr_leaves s" and ?K = "mr_leaves t"
  have nodes: "jget (mr_nodes s) p = radix_node_at H ?L p" "jget (mr_nodes t) p = radix_node_at H ?K p" for p
    using assms(1,2) by (simp_all add: radix_inv_def radix_node_at_def)
  have ok: "radix_leaves_ok ?L" "radix_leaves_ok ?K" using assms(1,2) by (simp_all add: radix_inv_def)
  have down: "radix_node_at H ?L (p @ [c]) = radix_node_at H ?K (p @ [c])"
    if "radix_node_at H ?L p = radix_node_at H ?K p" "length p < 64" "c \<in> set hex_digits" for p c
  proof (cases "occupied ?L p")
    case True
    then have "occupied ?K p" using that radix_node_at_None by metis
    with True that have "H (radix_preimage H ?L p) = H (radix_preimage H ?K p)"
      by (simp add: radix_node_at_step)
    then have "radix_preimage H ?L p = radix_preimage H ?K p" by (rule no_collision)
    then have "map child_bytes (map (\<lambda>c. radix_node_at H ?L (p @ [c])) hex_digits) =
        map child_bytes (map (\<lambda>c. radix_node_at H ?K (p @ [c])) hex_digits)"
      by (intro concat_map_eq32) (simp_all add: radix_preimage_def)
    then have "child_bytes (radix_node_at H ?L (p @ [c])) = child_bytes (radix_node_at H ?K (p @ [c]))"
      using that(3) by simp
    then show ?thesis
      using radix_node_at_ok ok no_zero nodes by (intro child_bytes_inject) metis+
  next
    case False
    then have "\<not> occupied ?K p" using that radix_node_at_None by metis
    then show ?thesis using False that by (simp add: radix_node_at_child_None)
  qed
  have root: "radix_node_at H ?L [] = radix_node_at H ?K []"
    using assms(1,2,3) no_zero [of "[]"] nodes [of "[]"]
    by (auto simp: radix_root_spec radix_spec_root_def radix_node_at_def split: option.splits)
  have all: "radix_node_at H ?L p = radix_node_at H ?K p" if "length p \<le> 64" "set p \<subseteq> set hex_digits" for p
    using that
  proof (induction p rule: rev_induct)
    case Nil
    show ?case by (rule root)
  next
    case (snoc c p)
    then show ?case using down [of p c] by simp
  qed
  show ?thesis
  proof
    fix k
    have "jget M k = None" if "radix_leaves_ok M" "\<not> lower64 k" for M
      using that jget_Some_key by (cases "jget M k") (auto simp: radix_leaves_ok_def)
    then show "jget ?L k = jget ?K k"
      using ok all [of k] by (cases "lower64 k") (auto simp: lower64_def radix_node_at_def)
  qed
qed

section \<open>The properties of the radix set\<close>

text \<open>Concrete digests and a concrete hash, on which the witnesses run.\<close>

definition sample_a :: string where
  "sample_a = replicate 64 CHR ''a''"

definition sample_b :: string where
  "sample_b = replicate 64 CHR ''b''"

definition flat_hash :: sha256 where
  "flat_hash _ = Hash32 (replicate 32 1)"

lemma sample_lower64: "lower64 sample_a" "lower64 sample_b"
  by (simp_all add: lower64_def sample_a_def sample_b_def hex_digits_def)

lemma sample_ok [simp]:
  "digest_ok sample_a" "digest_ok sample_b" "radix_key sample_a = sample_a" "radix_key sample_b = sample_b"
  "sample_a \<noteq> sample_b"
proof -
  show "sample_a \<noteq> sample_b" by (simp add: sample_a_def sample_b_def replicate_eq_replicate)
qed (use sample_lower64 in \<open>simp_all add: digest_ok_def radix_key_def keyHex_idem digestBytes_lower64\<close>)

lemma hash_bytes_flat [simp]: "hash_bytes (flat_hash x) = replicate 32 1"
  by (simp add: flat_hash_def Hash32_inverse)

lemma flat_digest_nonzero: "digest flat_hash ps \<noteq> ZERO_DIGEST"
proof
  assume "digest flat_hash ps = ZERO_DIGEST"
  then have "hex_decode (hex_encode (replicate 32 (1 :: byte))) = hex_decode (hex_encode ZERO_BYTES)"
    by (simp add: digest_def digest_text_def ZERO_DIGEST_def)
  then show False by (simp add: ZERO_BYTES_def replicate_eq_replicate)
qed

text \<open>
  C23.  The root of a \<open>MerkleRadixSet\<close> does not depend on its history: two sequences of \<open>set\<close> and
  \<open>delete\<close> calls that leave the same abstract contents both run without an exception from the empty set
  and produce sets with the same contents and the same root.
\<close>

theorem radix_histories_agree:
  assumes "spec_ops radix_key (radix_leaf H) digest_ok (\<lambda>_ m l. digest_ok m \<and> digest_ok l) ops Map.empty = Some c"
    and "spec_ops radix_key (radix_leaf H) digest_ok (\<lambda>_ m l. digest_ok m \<and> digest_ok l) ops' Map.empty = Some c"
  shows "\<exists>t t'. run_ops (radix_set H) (radix_delete H) ops radix_empty = Inr t
    \<and> run_ops (radix_set H) (radix_delete H) ops' radix_empty = Inr t'
    \<and> map_of (mr_leaves t) = c \<and> map_of (mr_leaves t') = c \<and> radix_root t = radix_root t'"
  using assms by (rule radix.histories_agree)

theorem radix_histories_agree_witness:
  "\<exists>t t'. run_ops (radix_set flat_hash) (radix_delete flat_hash) [Put sample_a sample_b, Put sample_b sample_a] radix_empty = Inr t
    \<and> run_ops (radix_set flat_hash) (radix_delete flat_hash)
        [Put sample_b sample_b, Put sample_a sample_b, Del sample_b, Put sample_b sample_a] radix_empty = Inr t'
    \<and> map_of (mr_leaves t) = [sample_a \<mapsto> radix_leaf flat_hash sample_a sample_b, sample_b \<mapsto> radix_leaf flat_hash sample_b sample_a]
    \<and> map_of (mr_leaves t') = [sample_a \<mapsto> radix_leaf flat_hash sample_a sample_b, sample_b \<mapsto> radix_leaf flat_hash sample_b sample_a]
    \<and> radix_root t = radix_root t'"
  by (rule radix_histories_agree) (auto simp: fun_eq_iff)

text \<open>
  The bulk constructor \<open>MerkleRadixSet.from\<close> accepts exactly the entry lists in which every member and
  value is a digest and equal members carry equal values; it then builds the set that inserting the
  entries one by one builds, with the same leaves and the same root, and \<open>verify\<close> of the entries holds
  on it.  On every other list it throws.
\<close>

theorem radix_from_correct:
  "if entries_ok Map.empty (set es)
   then \<exists>t s. radix_from H es = Inr t \<and> res_fold (\<lambda>(m, l) s. radix_set H m l s) es radix_empty = Inr s
     \<and> map_of (mr_leaves t) = map_of (mr_leaves s) \<and> radix_root t = radix_root s \<and> radix_verify H es t = Inr True
   else \<exists>e. radix_from H es = Inl e"
proof (cases "entries_ok Map.empty (set es)")
  case True
  then obtain t where t: "radix_from H es = Inr t" using radix_from_returns by blast
  from radix_from_incremental [OF this] show ?thesis
    using True t by (auto simp: radix_verify_def case_prod_unfold)
next
  case False
  then show ?thesis using radix_from_returns [of H es] by (cases "radix_from H es") auto
qed

text \<open>
  \<open>MerkleRadixSet.from\<close> does not depend on the order or multiplicity of its entries: lists with the same
  entries give sets with the same root.
\<close>

theorem radix_from_order:
  assumes "set es = set es'" and "radix_from H es = Inr t"
  shows "\<exists>t'. radix_from H es' = Inr t' \<and> radix_root t' = radix_root t"
proof -
  obtain M where M: "res_fold collect_logical es [] = Inr M" "radix_inv H t" "map_of (mr_leaves t) = radix_leaf_of H M"
    using radix_from_leaves_map [OF assms(2)] by blast
  obtain M' where M': "res_fold collect_logical es' [] = Inr M'" "map_of M' = map_of M"
    using collect_set_determined [OF assms(1) M(1)] by blast
  obtain t' where t': "radix_from H es' = Inr t'" using radix_from_returns assms by metis
  then have "radix_inv H t'" "map_of (mr_leaves t') = radix_leaf_of H M'"
    using radix_from_leaves_map M'(1) by fastforce+
  moreover have "radix_leaf_of H M' = radix_leaf_of H M" using M'(2) by (simp add: radix_leaf_of_def fun_eq_iff)
  ultimately show ?thesis using t' M radix.history_independent [of H t' t] by auto
qed

theorem radix_from_order_witness:
  "\<exists>t t'. radix_from flat_hash [(sample_a, sample_b), (sample_b, sample_a)] = Inr t
    \<and> radix_from flat_hash [(sample_b, sample_a), (sample_a, sample_b), (sample_b, sample_a)] = Inr t' \<and> radix_root t' = radix_root t"
proof -
  have "entries_ok Map.empty (set [(sample_a, sample_b), (sample_b, sample_a)])"
    by (auto simp: entries_ok_def)
  then obtain t where "radix_from flat_hash [(sample_a, sample_b), (sample_b, sample_a)] = Inr t"
    using radix_from_returns by blast
  with radix_from_order [OF _ this, of "[(sample_b, sample_a), (sample_a, sample_b), (sample_b, sample_a)]"]
  show ?thesis by auto
qed

text \<open>
  C32.  The root of a \<open>MerkleRadixSet\<close> commits to its leaves: two sets with equal roots have the same leaves,
  provided no node digest is the all-zero placeholder and the hash does not collide on a pair of node
  preimages of the two trees at the same prefix.
\<close>

theorem radix_root_commits:
  assumes "radix_inv H s" and "radix_inv H t" and "radix_root s = radix_root t"
    and "\<And>p. jget (mr_nodes s) p \<noteq> Some ZERO_DIGEST" and "\<And>p. jget (mr_nodes t) p \<noteq> Some ZERO_DIGEST"
    and "\<And>p. H (radix_preimage H (mr_leaves s) p) = H (radix_preimage H (mr_leaves t) p)
       \<Longrightarrow> radix_preimage H (mr_leaves s) p = radix_preimage H (mr_leaves t) p"
  shows "map_of (mr_leaves s) = map_of (mr_leaves t)"
  using assms by (rule radix_equal_roots)

lemma flat_nodes_nonzero:
  assumes "radix_inv flat_hash t" and "\<And>k v. jget (mr_leaves t) k = Some v \<Longrightarrow> v \<noteq> ZERO_DIGEST"
  shows "jget (mr_nodes t) p \<noteq> Some ZERO_DIGEST"
  using assms flat_digest_nonzero
  by (cases "64 - length p") (auto simp: radix_inv_def radix_comb_def)

lemma radix_preimage_cong: "map_of L = map_of K \<Longrightarrow> radix_preimage H L p = radix_preimage H K p"
  by (simp only: radix_preimage_def radix_node_at_def subtree_cong_map [of L K])

theorem radix_root_commits_witness:
  "\<exists>s t. run_ops (radix_set flat_hash) (radix_delete flat_hash) [Put sample_a sample_b, Put sample_b sample_a] radix_empty = Inr s
    \<and> run_ops (radix_set flat_hash) (radix_delete flat_hash) [Put sample_b sample_a, Put sample_a sample_b] radix_empty = Inr t
    \<and> radix_root s = radix_root t \<and> map_of (mr_leaves s) = map_of (mr_leaves t)"
proof -
  let ?c = "[sample_a \<mapsto> radix_leaf flat_hash sample_a sample_b, sample_b \<mapsto> radix_leaf flat_hash sample_b sample_a]"
  have spec: "spec_ops radix_key (radix_leaf flat_hash) digest_ok (\<lambda>_ m l. digest_ok m \<and> digest_ok l) ops Map.empty = Some ?c"
    if "ops \<in> {[Put sample_a sample_b, Put sample_b sample_a], [Put sample_b sample_a, Put sample_a sample_b]}" for ops
    using that by (auto simp: fun_eq_iff)
  have "\<exists>u. run_ops (radix_set flat_hash) (radix_delete flat_hash) ops radix_empty = Inr u \<and> radix_inv flat_hash u
      \<and> map_of (mr_leaves u) = ?c"
    if "ops \<in> {[Put sample_a sample_b, Put sample_b sample_a], [Put sample_b sample_a, Put sample_a sample_b]}" for ops
    using radix.run_refines [of flat_hash ops radix_empty ?c] spec [OF that]
    by (simp add: radix_inv_empty radix.contents_empty)
  then obtain s t where s: "run_ops (radix_set flat_hash) (radix_delete flat_hash) [Put sample_a sample_b, Put sample_b sample_a] radix_empty = Inr s"
    "radix_inv flat_hash s" "map_of (mr_leaves s) = ?c"
    and t: "run_ops (radix_set flat_hash) (radix_delete flat_hash) [Put sample_b sample_a, Put sample_a sample_b] radix_empty = Inr t"
    "radix_inv flat_hash t" "map_of (mr_leaves t) = ?c" by blast
  have root: "radix_root s = radix_root t" using radix.history_independent [OF s(2) t(2)] s(3) t(3) by simp
  have leaf: "v \<noteq> ZERO_DIGEST" if "?c k = Some v" for k v
    using that flat_digest_nonzero by (auto simp: radix_leaf_def split: if_splits)
  have nodes: "jget (mr_nodes u) p \<noteq> Some ZERO_DIGEST" if "radix_inv flat_hash u" "map_of (mr_leaves u) = ?c" for u p
    by (rule flat_nodes_nonzero [OF that(1)]) (use leaf that(2) in metis)
  have pre: "radix_preimage flat_hash (mr_leaves s) p = radix_preimage flat_hash (mr_leaves t) p" for p
    by (rule radix_preimage_cong) (simp only: s(3) t(3))
  have "map_of (mr_leaves s) = map_of (mr_leaves t)"
    by (rule radix_root_commits [OF s(2) t(2) root nodes [OF s(2,3)] nodes [OF t(2,3)] pre])
  then show ?thesis using s(1) t(1) root by blast
qed

end
