(* ===== verification/Merkle_Bucket.thy ===== *)
theory Merkle_Bucket
  imports Merkle_Radix
begin

text \<open>
  \<open>packages/canonical/src/merkle-bucket.ts\<close>: the bucketed Merkle set of the v4 store and the
  record-set, projection-set and source-state digests built on its root.  Members are grouped by the
  first five hexadecimal digits of their key; a bucket digest and five levels of nodes lead to the
  root.  The specification \<open>bucket_bytes\<close> recomputes any node from the bucket digests; the
  incremental set, the bulk constructor and \<open>rootFromBucketDigests\<close> all agree with it.

  A JavaScript \<open>Map\<close> holds at most \<open>2^24\<close> entries, so the range checks inside
  \<open>writeUInt32LE\<close> and \<open>writeBigUInt64LE\<close> cannot fire on sizes; the two encoders are written as the
  little-endian digits of the number.
\<close>

section \<open>Constants and helpers\<close>

definition BUCKET_NIBBLES :: nat where
  "BUCKET_NIBBLES = 5"

definition BUCKET_LEAFSET :: "byte list" where
  "BUCKET_LEAFSET = ascii_bytes ''urdira:merkle-bucket:leafset'' @ [0]"

definition BUCKET_NODE :: "byte list" where
  "BUCKET_NODE = ascii_bytes ''urdira:merkle-bucket:node'' @ [0]"

definition RECORD_SET :: "byte list" where
  "RECORD_SET = ascii_bytes ''urdira:record-set:v4'' @ [0]"

definition PROJECTION_SET :: "byte list" where
  "PROJECTION_SET = ascii_bytes ''urdira:projection-set:v4'' @ [0]"

definition SOURCE_STATE :: "byte list" where
  "SOURCE_STATE = ascii_bytes ''urdira:source-state:v4'' @ [0]"

fun le_bytes :: "nat \<Rightarrow> nat \<Rightarrow> byte list" where
  "le_bytes 0 n = []"
| "le_bytes (Suc w) n = word_of_nat (n mod 256) # le_bytes w (n div 256)"

definition u32le :: "nat \<Rightarrow> byte list" where
  "u32le n = le_bytes 4 n"

definition u64le :: "nat \<Rightarrow> byte list" where
  "u64le n = le_bytes 8 n"

text \<open>The table \<open>EMPTY_NODE\<close>, filled from depth 4 down to depth 0.\<close>

fun empty_loop :: "sha256 \<Rightarrow> nat \<Rightarrow> byte list \<Rightarrow> string list \<Rightarrow> string list" where
  "empty_loop H 0 child table = table"
| "empty_loop H (Suc depth) child table =
     (let value = digest H (BUCKET_NODE # [word_of_nat depth] # replicate 16 child)
      in empty_loop H depth (child_bytes (Some value)) (table[depth := value]))"

definition EMPTY_NODE :: "sha256 \<Rightarrow> string list" where
  "EMPTY_NODE H = empty_loop H 5 ZERO_BYTES (replicate 5 [])"

definition emptyNodeDigest :: "sha256 \<Rightarrow> nat \<Rightarrow> string" where
  "emptyNodeDigest H depth = EMPTY_NODE H ! depth"

definition computeBucketDigest :: "sha256 \<Rightarrow> (string, string) jsmap \<Rightarrow> merkle_error + string" where
  "computeBucketDigest H members =
     (let keys = sort_by str_cmp (jkeys members) in
      res_bind (res_map (\<lambda>k. res_bind (digestBytes (jget_or [] members k)) (\<lambda>lb. Inr (hex_decode k @ lb))) keys)
        (\<lambda>parts. Inr (digest H (BUCKET_LEAFSET # u32le (length keys) # parts))))"

section \<open>State and operations\<close>

record merkle_bucket =
  mb_members :: "(string, (string, string) jsmap) jsmap"
  mb_bucket :: "(string, string) jsmap"
  mb_node :: "(string, string) jsmap"
  mb_count :: nat

definition bucket_empty :: merkle_bucket where
  "bucket_empty = \<lparr>mb_members = [], mb_bucket = [], mb_node = [], mb_count = 0\<rparr>"

lemma bucket_empty_simps [simp]:
  "mb_members bucket_empty = []" "mb_bucket bucket_empty = []" "mb_node bucket_empty = []" "mb_count bucket_empty = 0"
  by (simp_all add: bucket_empty_def)

text \<open>\<open>computeNode\<close>: the digest of a node from its sixteen children, with the fallbacks.\<close>

definition computeNode ::
  "sha256 \<Rightarrow> (string, string) jsmap \<Rightarrow> (string, string) jsmap \<Rightarrow> nat \<Rightarrow> string \<Rightarrow> merkle_error + string" where
  "computeNode H buckets nodes depth p =
     res_bind
       (res_map (\<lambda>digit. let childPrefix = p @ [hex_digit digit] in
          case (if depth = 4 then jget buckets childPrefix else jget nodes childPrefix) of
            Some d \<Rightarrow> digestBytes d
          | None \<Rightarrow> if depth = 4 then Inr ZERO_BYTES else digestBytes (emptyNodeDigest H (depth + 1))) [0..<16])
       (\<lambda>children. Inr (digest H (BUCKET_NODE # [word_of_nat depth] # children)))"

fun bucket_up :: "sha256 \<Rightarrow> nat \<Rightarrow> string \<Rightarrow> merkle_bucket \<Rightarrow> merkle_error + merkle_bucket" where
  "bucket_up H 0 bp t = Inr t"
| "bucket_up H (Suc depth) bp t =
     res_bind (computeNode H (mb_bucket t) (mb_node t) depth (take depth bp)) (\<lambda>v.
       bucket_up H depth bp (t\<lparr>mb_node := jset (take depth bp) v (mb_node t)\<rparr>))"

definition bucket_recompute :: "sha256 \<Rightarrow> string \<Rightarrow> merkle_bucket \<Rightarrow> merkle_error + merkle_bucket" where
  "bucket_recompute H bp t =
     res_bind
       (case jget (mb_members t) bp of
          Some bucket \<Rightarrow> if length bucket > 0
             then res_bind (computeBucketDigest H bucket) (\<lambda>d. Inr (jset bp d (mb_bucket t)))
             else Inr (jdelete bp (mb_bucket t))
        | None \<Rightarrow> Inr (jdelete bp (mb_bucket t)))
       (\<lambda>buckets. bucket_up H 5 bp (t\<lparr>mb_bucket := buckets\<rparr>))"

definition bucket_set :: "sha256 \<Rightarrow> string \<Rightarrow> string \<Rightarrow> merkle_bucket \<Rightarrow> merkle_error + merkle_bucket" where
  "bucket_set H memberDigest logicalDigest t =
     res_bind (keyHex memberDigest) (\<lambda>key.
     res_bind (digestBytes logicalDigest) (\<lambda>_.
       let bp = take BUCKET_NIBBLES key;
           bucket = jget (mb_members t) bp;
           existing = (case bucket of None \<Rightarrow> None | Some b \<Rightarrow> jget b key) in
       case existing of
         Some e \<Rightarrow> if e \<noteq> logicalDigest then Inl ConflictingDuplicate else Inr t
       | None \<Rightarrow>
           bucket_recompute H bp
             (t\<lparr>mb_members := jset bp (jset key logicalDigest (case bucket of None \<Rightarrow> [] | Some b \<Rightarrow> b)) (mb_members t),
                mb_count := mb_count t + 1\<rparr>)))"

definition bucket_delete :: "sha256 \<Rightarrow> string \<Rightarrow> merkle_bucket \<Rightarrow> merkle_error + merkle_bucket" where
  "bucket_delete H memberDigest t =
     res_bind (keyHex memberDigest) (\<lambda>key.
       let bp = take BUCKET_NIBBLES key in
       case jget (mb_members t) bp of
         None \<Rightarrow> Inr t
       | Some bucket \<Rightarrow>
           if \<not> jhas bucket key then Inr t
           else let bucket' = jdelete key bucket in
             bucket_recompute H bp
               (t\<lparr>mb_members := (if length bucket' = 0 then jdelete bp (mb_members t) else jset bp bucket' (mb_members t)),
                  mb_count := mb_count t - 1\<rparr>))"

definition bucket_root :: "sha256 \<Rightarrow> merkle_bucket \<Rightarrow> string" where
  "bucket_root H t =
     (if mb_count t = 0 then ZERO_DIGEST
      else case jget (mb_node t) [] of None \<Rightarrow> emptyNodeDigest H 0 | Some d \<Rightarrow> d)"

definition bucket_size :: "merkle_bucket \<Rightarrow> nat" where
  "bucket_size t = mb_count t"

definition bucketDigests :: "merkle_bucket \<Rightarrow> (string, string) jsmap" where
  "bucketDigests t = mb_bucket t"

text \<open>
  The bottom-up pass shared by \<open>fromSorted\<close> and \<open>rootFromBucketDigests\<close>: at each depth the
  distinct prefixes of the bucket keys, in order of first occurrence.
\<close>

definition level_prefixes :: "nat \<Rightarrow> string list \<Rightarrow> string list" where
  "level_prefixes depth bps = rev (remdups (rev (map (take depth) bps)))"

definition level_node ::
  "sha256 \<Rightarrow> (string, string) jsmap \<Rightarrow> nat \<Rightarrow> string \<Rightarrow> (string, string) jsmap \<Rightarrow> merkle_error + (string, string) jsmap" where
  "level_node H buckets depth p nodes =
     res_bind (computeNode H buckets nodes depth p) (\<lambda>v. Inr (jset p v nodes))"

fun level_loop ::
  "sha256 \<Rightarrow> (string, string) jsmap \<Rightarrow> string list \<Rightarrow> nat \<Rightarrow> (string, string) jsmap \<Rightarrow> merkle_error + (string, string) jsmap" where
  "level_loop H buckets bps 0 nodes = Inr nodes"
| "level_loop H buckets bps (Suc depth) nodes =
     res_bind (res_fold (level_node H buckets depth) (level_prefixes depth bps) nodes)
       (level_loop H buckets bps depth)"

definition group_member :: "string \<times> string \<Rightarrow> (string, (string, string) jsmap) jsmap \<Rightarrow> (string, (string, string) jsmap) jsmap" where
  "group_member kl m =
     (let bp = take BUCKET_NIBBLES (fst kl)
      in jset bp (jset (fst kl) (snd kl) (jget_or [] m bp)) m)"

definition bucket_fromSorted :: "sha256 \<Rightarrow> (string \<times> string) list \<Rightarrow> merkle_error + merkle_bucket" where
  "bucket_fromSorted H entries =
     res_bind (res_fold collect_logical entries []) (\<lambda>logicalByKey.
     let members = fold group_member logicalByKey [] in
     res_bind (res_fold (\<lambda>(bp, bucket) m. res_bind (computeBucketDigest H bucket) (\<lambda>d. Inr (jset bp d m))) members [])
       (\<lambda>buckets.
     res_bind (level_loop H buckets (jkeys members) 5 []) (\<lambda>nodes.
       Inr \<lparr>mb_members = members, mb_bucket = buckets, mb_node = nodes, mb_count = length logicalByKey\<rparr>)))"

definition bucket_fromSortedBatches :: "sha256 \<Rightarrow> (string \<times> string) list list \<Rightarrow> merkle_error + merkle_bucket" where
  "bucket_fromSortedBatches H batches = bucket_fromSorted H (concat batches)"

definition rootFromBucketDigests :: "sha256 \<Rightarrow> (string, string) jsmap \<Rightarrow> merkle_error + string" where
  "rootFromBucketDigests H buckets =
     (if length buckets = 0 then Inr ZERO_DIGEST
      else if \<not> list_all (\<lambda>p. length p = BUCKET_NIBBLES \<and> list_all is_hex p) (jkeys buckets)
      then Inl BadBucketPrefix
      else res_bind (level_loop H buckets (jkeys buckets) 5 []) (\<lambda>nodes.
        Inr (case jget nodes [] of None \<Rightarrow> emptyNodeDigest H 0 | Some d \<Rightarrow> d)))"

definition u64le_checked :: "nat \<Rightarrow> merkle_error + byte list" where
  "u64le_checked n = (if n < 2 ^ 64 then Inr (u64le n) else Inl CountOutOfRange)"

definition recordSetDigest :: "sha256 \<Rightarrow> string \<Rightarrow> nat \<Rightarrow> merkle_error + string" where
  "recordSetDigest H root n =
     res_bind (u64le_checked n) (\<lambda>nb.
     res_bind (digestBytes root) (\<lambda>rb. Inr (digest H [RECORD_SET, nb, rb])))"

definition projectionSetDigest :: "sha256 \<Rightarrow> byte list \<Rightarrow> string \<Rightarrow> nat \<Rightarrow> merkle_error + string" where
  "projectionSetDigest H kind_utf8 root n =
     res_bind (u64le_checked n) (\<lambda>nb.
     res_bind (digestBytes root) (\<lambda>rb. Inr (digest H [PROJECTION_SET, kind_utf8, [0], nb, rb])))"

definition sourceStateDigest :: "sha256 \<Rightarrow> string \<Rightarrow> nat \<Rightarrow> string \<Rightarrow> nat \<Rightarrow> merkle_error + string" where
  "sourceStateDigest H presentRoot presentCount absentRoot absentCount =
     res_bind (u64le_checked presentCount) (\<lambda>pn.
     res_bind (digestBytes presentRoot) (\<lambda>pb.
     res_bind (u64le_checked absentCount) (\<lambda>an.
     res_bind (digestBytes absentRoot) (\<lambda>ab.
       Inr (digest H [SOURCE_STATE, pn, pb, an, ab])))))"

section \<open>The specification\<close>

text \<open>The 32 bytes a node contributes to its parent, \<open>d\<close> levels above the buckets.\<close>

fun bucket_bytes :: "sha256 \<Rightarrow> (string \<Rightarrow> string option) \<Rightarrow> nat \<Rightarrow> string \<Rightarrow> byte list" where
  "bucket_bytes H B 0 p = child_bytes (B p)"
| "bucket_bytes H B (Suc d) p =
     hash_bytes (H (concat (BUCKET_NODE # [word_of_nat (length p)] #
       map (\<lambda>c. bucket_bytes H B d (p @ [c])) hex_digits)))"

definition bucket_node_text :: "sha256 \<Rightarrow> (string \<Rightarrow> string option) \<Rightarrow> string \<Rightarrow> string" where
  "bucket_node_text H B p = sha_prefix @ hex_encode (bucket_bytes H B (5 - length p) p)"

lemma length_bucket_bytes [simp]: "length (bucket_bytes H B d p) = 32"
  by (cases d) simp_all

lemma bucket_node_text_bytes [simp]:
  "digestBytes (bucket_node_text H B p) = Inr (bucket_bytes H B (5 - length p) p)"
  by (simp add: bucket_node_text_def digestBytes_text)

lemma bucket_bytes_local:
  "(\<And>q. prefix p q \<Longrightarrow> B q = B' q) \<Longrightarrow> bucket_bytes H B d p = bucket_bytes H B' d p"
proof (induction d arbitrary: p)
  case 0
  then show ?case by simp
next
  case (Suc d)
  have "bucket_bytes H B d (p @ [c]) = bucket_bytes H B' d (p @ [c])" for c
    using Suc.prems by (intro Suc.IH) (meson append_prefixD)
  then show ?case by simp
qed

lemma bucket_bytes_empty_len:
  "length p = length q \<Longrightarrow> bucket_bytes H Map.empty d p = bucket_bytes H Map.empty d q"
  by (induction d arbitrary: p q) (auto intro!: arg_cong [of _ _ H] arg_cong [of _ _ concat] arg_cong [of _ _ hash_bytes] map_cong)

lemma empty_loop_nth:
  assumes "n \<le> 5" and "length table = 5" and "child = bucket_bytes H Map.empty (5 - n) (replicate n c)"
    and "\<And>i p. n \<le> i \<Longrightarrow> i < 5 \<Longrightarrow> length p = i \<Longrightarrow> table ! i = bucket_node_text H Map.empty p"
    and "i < 5" and "length p = i"
  shows "empty_loop H n child table ! i = bucket_node_text H Map.empty p"
  using assms(1-4)
proof (induction n arbitrary: child table)
  case 0
  then show ?case using assms(5,6) by simp
next
  case (Suc n)
  have node_eq: "digest H (BUCKET_NODE # [word_of_nat n] # replicate 16 child) = bucket_node_text H Map.empty q"
    if "length q = n" for q
  proof -
    have "bucket_bytes H Map.empty (4 - n) (q @ [d]) = child" for d
      using Suc.prems(3) bucket_bytes_empty_len [of "q @ [d]" "replicate (Suc n) c"] that by simp
    moreover have "5 - length q = Suc (4 - n)" using Suc.prems(1) that by simp
    moreover have "map (\<lambda>_. child) hex_digits = replicate 16 child"
      by (simp add: map_replicate_const)
    ultimately show ?thesis using that
      by (simp add: bucket_node_text_def digest_def digest_text_def)
  qed
  have "child_bytes (Some (digest H (BUCKET_NODE # [word_of_nat n] # replicate 16 child))) =
      bucket_bytes H Map.empty (5 - n) (replicate n c)"
    using node_eq [of "replicate n c"] by (simp add: child_bytes_def)
  then show ?case
    using Suc.prems node_eq by (auto simp: Let_def nth_list_update intro!: Suc.IH)
qed

lemma emptyNodeDigest_eq:
  assumes "length p < 5"
  shows "emptyNodeDigest H (length p) = bucket_node_text H Map.empty p"
proof -
  have "empty_loop H 5 ZERO_BYTES (replicate 5 []) ! length p = bucket_node_text H Map.empty p"
  proof (rule empty_loop_nth)
    show "ZERO_BYTES = bucket_bytes H Map.empty (5 - 5) (replicate 5 (CHR ''0''))"
      by (simp add: child_bytes_def)
  qed (use assms in simp_all)
  then show ?thesis by (simp only: emptyNodeDigest_def EMPTY_NODE_def)
qed

section \<open>Nodes agree with the specification\<close>

definition node_ok :: "sha256 \<Rightarrow> (string \<Rightarrow> string option) \<Rightarrow> (string \<Rightarrow> string option) \<Rightarrow> string \<Rightarrow> bool" where
  "node_ok H B N p \<longleftrightarrow> (case N p of Some v \<Rightarrow> v = bucket_node_text H B p
                        | None \<Rightarrow> (\<forall>q. prefix p q \<longrightarrow> B q = None))"

lemma node_ok_local:
  "(\<And>q. prefix p q \<Longrightarrow> B q = B' q) \<Longrightarrow> N p = N' p \<Longrightarrow> node_ok H B N p = node_ok H B' N' p"
  using bucket_bytes_local [of p B B' H] by (simp add: node_ok_def bucket_node_text_def split: option.split)

lemma computeNode_ok:
  assumes "length p = depth" and "depth \<le> 4" and "\<And>q v. jget buckets q = Some v \<Longrightarrow> digest_ok v"
    and kids: "\<And>c. depth < 4 \<Longrightarrow> node_ok H (map_of buckets) (map_of nodes) (p @ [c])"
  shows "computeNode H buckets nodes depth p = Inr (bucket_node_text H (map_of buckets) p)"
proof -
  let ?B = "map_of buckets"
  let ?child = "\<lambda>c. bucket_bytes H ?B (4 - depth) (p @ [c])"
  have child: "(let cp = p @ [c] in
      case (if depth = 4 then jget buckets cp else jget nodes cp) of
            Some d \<Rightarrow> digestBytes d
          | None \<Rightarrow> if depth = 4 then Inr ZERO_BYTES else digestBytes (emptyNodeDigest H (depth + 1))) = Inr (?child c)" for c
  proof (cases "depth = 4")
    case True
    then show ?thesis using assms(3) digest_ok_bytes [unfolded child_bytes_def]
      by (cases "jget buckets (p @ [c])") (auto simp: child_bytes_def digest_ok_def Let_def)
  next
    case False
    then have ok: "node_ok H ?B (map_of nodes) (p @ [c])" and d: "depth < 4" using kids assms(2) by auto
    show ?thesis
    proof (cases "jget nodes (p @ [c])")
      case None
      then have "?child c = bucket_bytes H Map.empty (4 - depth) (p @ [c])"
        using ok by (intro bucket_bytes_local) (simp add: node_ok_def)
      then show ?thesis
        using None False d assms(1) emptyNodeDigest_eq [of "p @ [c]" H] by (simp add: Let_def)
    next
      case (Some v)
      then show ?thesis using ok False d assms(1) by (simp add: node_ok_def Let_def)
    qed
  qed
  have "computeNode H buckets nodes depth p =
    Inr (digest H (BUCKET_NODE # [word_of_nat depth] # map (\<lambda>i. ?child (hex_digit i)) [0..<16]))"
    unfolding computeNode_def by (subst res_map_total [OF child]) simp
  also have "map (\<lambda>i. ?child (hex_digit i)) [0..<16] = map ?child hex_digits"
    unfolding hex_digits_upt [symmetric] by simp
  finally have node: "computeNode H buckets nodes depth p =
    Inr (digest H (BUCKET_NODE # [word_of_nat depth] # map ?child hex_digits))" .
  have "5 - length p = Suc (4 - depth)" using assms(1,2) by simp
  then show ?thesis
    using node assms(1) by (simp add: bucket_node_text_def digest_def digest_text_def)
qed

lemma bucket_up_ok:
  assumes "length bp = 5" and "n \<le> 5" and "\<And>q v. jget (mb_bucket t) q = Some v \<Longrightarrow> digest_ok v"
    and "\<And>p. length p \<le> 4 \<Longrightarrow> \<not> (prefix p bp \<and> length p < n) \<Longrightarrow> node_ok H (map_of (mb_bucket t)) (map_of (mb_node t)) p"
  shows "\<exists>t'. bucket_up H n bp t = Inr t' \<and> mb_members t' = mb_members t \<and> mb_bucket t' = mb_bucket t
    \<and> mb_count t' = mb_count t \<and> (\<forall>p. length p \<le> 4 \<longrightarrow> node_ok H (map_of (mb_bucket t)) (map_of (mb_node t')) p)"
  using assms(2-)
proof (induction n arbitrary: t)
  case 0
  then show ?case by simp
next
  case (Suc n)
  let ?p = "take n bp" and ?B = "map_of (mb_bucket t)"
  let ?v = "bucket_node_text H ?B ?p"
  let ?t = "t\<lparr>mb_node := jset ?p ?v (mb_node t)\<rparr>"
  have p: "length ?p = n" "n \<le> 4" using assms(1) Suc.prems(1) by auto
  have "computeNode H (mb_bucket t) (mb_node t) n ?p = Inr ?v"
    using p Suc.prems by (intro computeNode_ok) auto
  then have step: "bucket_up H (Suc n) bp t = bucket_up H n bp ?t" by simp
  have ok: "node_ok H (map_of (mb_bucket ?t)) (map_of (mb_node ?t)) q"
    if "length q \<le> 4" "\<not> (prefix q bp \<and> length q < n)" for q
  proof (cases "q = ?p")
    case True
    then show ?thesis by (simp add: node_ok_def)
  next
    case False
    then have "\<not> (prefix q bp \<and> length q < Suc n)"
      using that p take_eq_prefix [of n bp q] assms(1) by (auto simp: less_Suc_eq)
    then have "node_ok H ?B (map_of (mb_node t)) q" using Suc.prems(3) that by blast
    then show ?thesis using False by (subst node_ok_local [where N' = "map_of (mb_node t)"]) auto
  qed
  have "\<exists>t'. bucket_up H n bp ?t = Inr t' \<and> mb_members t' = mb_members ?t \<and> mb_bucket t' = mb_bucket ?t
    \<and> mb_count t' = mb_count ?t \<and> (\<forall>p. length p \<le> 4 \<longrightarrow> node_ok H (map_of (mb_bucket ?t)) (map_of (mb_node t')) p)"
    by (rule Suc.IH [OF _ _ ok]) (use Suc.prems(1,2) in auto)
  then show ?case unfolding step by simp
qed

text \<open>One level of the bottom-up pass, and the whole pass.\<close>

lemma level_fold_ok:
  assumes "\<And>p. p \<in> set ps \<Longrightarrow> length p = depth" and "depth \<le> 4"
    and "\<And>q v. jget buckets q = Some v \<Longrightarrow> digest_ok v"
    and "\<And>p. depth < length p \<Longrightarrow> length p \<le> 4 \<Longrightarrow> node_ok H (map_of buckets) (map_of nodes) p"
  shows "\<exists>nodes'. res_fold (level_node H buckets depth) ps nodes = Inr nodes' \<and>
    (\<forall>q. jget nodes' q = (if q \<in> set ps then Some (bucket_node_text H (map_of buckets) q) else jget nodes q))"
  using assms
proof (induction ps arbitrary: nodes)
  case Nil
  then show ?case by simp
next
  case (Cons p ps)
  let ?v = "bucket_node_text H (map_of buckets) p"
  have p: "length p = depth" using Cons.prems(1) by simp
  have "computeNode H buckets nodes depth p = Inr ?v"
    using p Cons.prems by (intro computeNode_ok) auto
  then have step: "level_node H buckets depth p nodes = Inr (jset p ?v nodes)"
    by (simp add: level_node_def)
  have "node_ok H (map_of buckets) (map_of (jset p ?v nodes)) q" if "depth < length q" "length q \<le> 4" for q
    using Cons.prems(4) [OF that] that p
    by (subst node_ok_local [where B' = "map_of buckets" and N' = "map_of nodes"]) auto
  note kids = this
  have "\<exists>nodes'. res_fold (level_node H buckets depth) ps (jset p ?v nodes) = Inr nodes' \<and>
    (\<forall>q. jget nodes' q = (if q \<in> set ps then Some (bucket_node_text H (map_of buckets) q) else jget (jset p ?v nodes) q))"
    by (rule Cons.IH [OF _ Cons.prems(2,3) kids]) (simp_all add: Cons.prems(1))
  then show ?case using step by auto
qed

lemma level_loop_ok:
  assumes "\<And>p. p \<in> set bps \<Longrightarrow> length p = 5" and "set bps = set (jkeys buckets)" and "n \<le> 5"
    and "\<And>q v. jget buckets q = Some v \<Longrightarrow> digest_ok v"
    and "\<And>p. n \<le> length p \<Longrightarrow> length p \<le> 4 \<Longrightarrow> node_ok H (map_of buckets) (map_of nodes) p"
    and "\<And>p. length p < n \<Longrightarrow> jget nodes p = None"
  shows "\<exists>nodes'. level_loop H buckets bps n nodes = Inr nodes' \<and>
    (\<forall>p. length p \<le> 4 \<longrightarrow> node_ok H (map_of buckets) (map_of nodes') p)"
  using assms(3-)
proof (induction n arbitrary: nodes)
  case 0
  then show ?case by auto
next
  case (Suc n)
  let ?ps = "level_prefixes n bps"
  have ps: "set ?ps = take n ` set bps" by (simp add: level_prefixes_def)
  have "\<exists>nodes'. res_fold (level_node H buckets n) ?ps nodes = Inr nodes' \<and>
    (\<forall>q. jget nodes' q = (if q \<in> set ?ps then Some (bucket_node_text H (map_of buckets) q) else jget nodes q))"
    using Suc.prems assms(1) ps by (intro level_fold_ok) auto
  then obtain N where N: "res_fold (level_node H buckets n) ?ps nodes = Inr N"
    "\<And>q. jget N q = (if q \<in> set ?ps then Some (bucket_node_text H (map_of buckets) q) else jget nodes q)"
    by blast
  have at_n: "node_ok H (map_of buckets) (map_of N) p" if "length p = n" for p
  proof (cases "p \<in> set ?ps")
    case True
    then show ?thesis using N(2) by (simp add: node_ok_def)
  next
    case False
    have "jget buckets q = None" if "prefix p q" for q
    proof (rule ccontr)
      assume "jget buckets q \<noteq> None"
      then have "q \<in> set bps" using assms(2) by (simp add: map_of_eq_None_iff)
      then have "take n q \<in> set ?ps" "length q = 5" using ps assms(1) by auto
      then show False
        using False \<open>prefix p q\<close> \<open>length p = n\<close> take_eq_prefix [of n q p] Suc.prems(1) by auto
    qed
    then show ?thesis using False N(2) Suc.prems(4) [of p] that by (simp add: node_ok_def)
  qed
  have above: "node_ok H (map_of buckets) (map_of N) p" if "n \<le> length p" "length p \<le> 4" for p
  proof (cases "length p = n")
    case True
    then show ?thesis by (rule at_n)
  next
    case False
    then have "p \<notin> set ?ps" using ps assms(1) Suc.prems(1) by auto
    then show ?thesis using N(2) Suc.prems(3) [of p] that False
      by (subst node_ok_local [where B' = "map_of buckets" and N' = "map_of nodes"]) auto
  qed
  have below: "jget N p = None" if "length p < n" for p
    using that N(2) ps assms(1) Suc.prems(1,4) by auto
  show ?case using Suc.IH [OF _ Suc.prems(2) above below] Suc.prems(1) N(1) by simp
qed

section \<open>Members and their contents\<close>

definition bucket_ok :: "string \<Rightarrow> (string, string) jsmap \<Rightarrow> bool" where
  "bucket_ok bp b \<longleftrightarrow> b \<noteq> [] \<and> logical_ok b \<and> (\<forall>k \<in> set (jkeys b). take 5 k = bp)"

definition members_ok :: "(string, (string, string) jsmap) jsmap \<Rightarrow> bool" where
  "members_ok m \<longleftrightarrow> distinct (jkeys m) \<and> (\<forall>bp b. jget m bp = Some b \<longrightarrow> bucket_ok bp b)"

definition members_get :: "(string, (string, string) jsmap) jsmap \<Rightarrow> string \<Rightarrow> string option" where
  "members_get m k = (case jget m (take 5 k) of None \<Rightarrow> None | Some b \<Rightarrow> jget b k)"

definition bucket_text :: "sha256 \<Rightarrow> (string, string) jsmap \<Rightarrow> string" where
  "bucket_text H b = digest H (BUCKET_LEAFSET # u32le (length b) #
     map (\<lambda>k. hex_decode k @ child_bytes (jget b k)) (sort_by str_cmp (jkeys b)))"

lemma logical_ok_get: "logical_ok b \<Longrightarrow> k \<in> set (jkeys b) \<Longrightarrow> \<exists>l. jget b k = Some l \<and> digest_ok l"
  by (metis logical_ok_def map_of_eq_None_iff not_None_eq set_map)

lemma computeBucketDigest_ok:
  assumes "logical_ok b"
  shows "computeBucketDigest H b = Inr (bucket_text H b)"
proof -
  have "res_bind (digestBytes (jget_or [] b k)) (\<lambda>lb. Inr (hex_decode k @ lb)) = Inr (hex_decode k @ child_bytes (jget b k))"
    if mem: "k \<in> set (sort_by str_cmp (jkeys b))" for k
  proof -
    obtain l where "jget b k = Some l" "digest_ok l"
      using logical_ok_get [OF assms, of k] mem unfolding set_sort_by by blast
    then show ?thesis by (simp add: jget_or_def digest_ok_bytes)
  qed
  then show ?thesis
    unfolding computeBucketDigest_def Let_def by (subst res_map_total) (auto simp: bucket_text_def)
qed

lemma bucket_text_cong:
  assumes "logical_ok b" "logical_ok b'" and "map_of b = map_of b'"
  shows "bucket_text H b = bucket_text H b'"
proof -
  have dist: "distinct (jkeys b)" "distinct (jkeys b')" using assms(1,2) by (simp_all add: logical_ok_def)
  have "dom (map_of b) = dom (map_of b')" using assms(3) by simp
  then have "set (jkeys b) = set (jkeys b')" by (simp add: dom_map_of_conv_image_fst)
  then have eq: "mset (jkeys b) = mset (jkeys b')" using dist by (simp only: set_eq_iff_mset_eq_distinct)
  then have "sort_by str_cmp (jkeys b) = sort_by str_cmp (jkeys b')" by (rule str_order.sort_by_cong_mset)
  moreover have "length b = length b'" using eq by (metis length_map size_mset)
  ultimately show ?thesis using assms(3) by (simp only: bucket_text_def)
qed

lemma members_get_bucket:
  assumes "members_ok m" and "jget m bp = Some b"
  shows "map_of b = (\<lambda>k. if take 5 k = bp then members_get m k else None)"
proof
  fix k
  have "take 5 k = bp" if "jget b k \<noteq> None"
    using assms that by (metis bucket_ok_def jget_Some_key members_ok_def not_None_eq)
  then show "jget b k = (if take 5 k = bp then members_get m k else None)"
    using assms(2) by (cases "jget b k") (auto simp: members_get_def)
qed

text \<open>The members of two sets with equal contents have equal buckets up to order.\<close>

lemma members_get_determines:
  assumes "members_ok m" "members_ok m'" and "members_get m = members_get m'"
  shows "rel_option (\<lambda>b b'. bucket_text H b = bucket_text H b') (jget m bp) (jget m' bp)"
proof -
  have some: "\<exists>b'. jget m' bp = Some b' \<and> map_of b = map_of b'"
    if ok: "members_ok m" "members_ok m'" and eq: "members_get m = members_get m'" and b: "jget m bp = Some b" for m m' b
  proof -
    have "bucket_ok bp b" using ok b by (simp add: members_ok_def)
    then obtain k where k: "jget b k \<noteq> None" "take 5 k = bp"
      by (metis bucket_ok_def list.set_intros(1) list.simps(9) logical_ok_get neq_Nil_conv not_None_eq)
    then have "members_get m' k \<noteq> None" using b eq [symmetric] by (simp add: members_get_def)
    then obtain b' where b': "jget m' bp = Some b'" using k by (auto simp: members_get_def split: option.splits)
    then show ?thesis using members_get_bucket [OF ok(1) b] members_get_bucket [OF ok(2) b'] eq by auto
  qed
  have bs: "bucket_text H b = bucket_text H b'" if "jget m bp = Some b" "jget m' bp = Some b'" "map_of b = map_of b'" for b b'
    using that assms by (intro bucket_text_cong) (auto simp: members_ok_def bucket_ok_def)
  show ?thesis
  proof (cases "jget m bp")
    case None
    then have "jget m' bp = None" using some [OF assms(2,1) assms(3) [symmetric]] by (cases "jget m' bp") auto
    then show ?thesis using None by simp
  next
    case (Some b)
    then obtain b' where "jget m' bp = Some b'" "map_of b = map_of b'" using some [OF assms] by blast
    then show ?thesis using bs [OF Some] Some by simp
  qed
qed

lemma members_ok_jset: "members_ok m \<Longrightarrow> bucket_ok bp b \<Longrightarrow> members_ok (jset bp b m)"
  by (auto simp: members_ok_def split: if_splits)

lemma members_ok_jdelete: "members_ok m \<Longrightarrow> members_ok (jdelete bp m)"
  by (auto simp: members_ok_def distinct_delete split: if_splits)

lemma logical_ok_jset: "logical_ok b \<Longrightarrow> lower64 k \<Longrightarrow> digest_ok l \<Longrightarrow> logical_ok (jset k l b)"
  by (auto simp: logical_ok_def dom_update split: if_splits)

lemma logical_ok_jdelete: "logical_ok b \<Longrightarrow> logical_ok (jdelete k b)"
  by (auto simp: logical_ok_def distinct_delete split: if_splits)

lemma bucket_ok_jdelete: "bucket_ok bp b \<Longrightarrow> jdelete k b \<noteq> [] \<Longrightarrow> bucket_ok bp (jdelete k b)"
proof -
  assume b: "bucket_ok bp b" "jdelete k b \<noteq> []"
  have "set (jkeys (jdelete k b)) \<subseteq> set (jkeys b)" by auto
  then show ?thesis using b logical_ok_jdelete unfolding bucket_ok_def by blast
qed

lemma members_get_jset:
  "members_get (jset bp b m) = (\<lambda>k. if take 5 k = bp then jget b k else members_get m k)"
  by (auto simp: members_get_def)

definition members_size :: "(string, (string, string) jsmap) jsmap \<Rightarrow> nat" where
  "members_size m = sum_list (map (length \<circ> snd) m)"

lemma length_jset: "length (jset k v m) = (if k \<in> set (jkeys m) then length m else Suc (length m))"
  by (metis jkeys_jset_eq length_append_singleton length_map)

lemma length_jdelete:
  "distinct (jkeys m) \<Longrightarrow> length (jdelete k m) = (if k \<in> set (jkeys m) then length m - 1 else length m)"
proof -
  assume d: "distinct (jkeys m)"
  have "length (removeAll k ks) = (if k \<in> set ks then length ks - 1 else length ks)" if "distinct ks" for ks
    using that by (metis distinct_remove1_removeAll length_remove1)
  from this [OF d] show ?thesis by (metis delete_keys length_map)
qed

lemma members_size_jset:
  "distinct (jkeys m) \<Longrightarrow> members_size (jset bp b m) + length (jget_or [] m bp) = members_size m + length b"
  by (induction m) (auto simp: members_size_def jget_or_def)

lemma members_size_jdelete:
  "distinct (jkeys m) \<Longrightarrow> members_size (jdelete bp m) + length (jget_or [] m bp) = members_size m"
  by (induction m) (auto simp: members_size_def jget_or_def)

section \<open>The invariant and the operations\<close>

definition bucket_inv :: "sha256 \<Rightarrow> merkle_bucket \<Rightarrow> bool" where
  "bucket_inv H t \<longleftrightarrow> members_ok (mb_members t) \<and> mb_count t = members_size (mb_members t)
     \<and> (\<forall>bp. jget (mb_bucket t) bp = map_option (bucket_text H) (jget (mb_members t) bp))
     \<and> (\<forall>p. length p \<le> 4 \<longrightarrow> node_ok H (map_of (mb_bucket t)) (map_of (mb_node t)) p)"

lemma bucket_inv_empty: "bucket_inv H bucket_empty"
  by (simp add: bucket_inv_def members_ok_def members_size_def node_ok_def)

lemma bucket_text_ok [simp]: "digest_ok (bucket_text H b)"
  by (simp add: bucket_text_def)

lemma bucket_recompute_ok:
  assumes old: "bucket_inv H t" and bp: "length bp = 5" and ok: "members_ok (mb_members s)"
    and size: "mb_count s = members_size (mb_members s)"
    and other: "\<And>q. q \<noteq> bp \<Longrightarrow> jget (mb_members s) q = jget (mb_members t) q"
    and same: "mb_bucket s = mb_bucket t" "mb_node s = mb_node t"
  shows "\<exists>t'. bucket_recompute H bp s = Inr t' \<and> bucket_inv H t' \<and> mb_members t' = mb_members s"
proof -
  define B where "B = (case jget (mb_members s) bp of
      Some bucket \<Rightarrow> jset bp (bucket_text H bucket) (mb_bucket s) | None \<Rightarrow> jdelete bp (mb_bucket s))"
  let ?s = "s\<lparr>mb_bucket := B\<rparr>"
  have eq: "bucket_recompute H bp s = bucket_up H 5 bp ?s"
  proof (cases "jget (mb_members s) bp")
    case None
    then show ?thesis by (simp add: bucket_recompute_def B_def)
  next
    case (Some b)
    then have "bucket_ok bp b" using ok by (simp add: members_ok_def)
    then have "computeBucketDigest H b = Inr (bucket_text H b)" "0 < length b"
      by (auto simp: bucket_ok_def computeBucketDigest_ok)
    then show ?thesis using Some by (simp add: bucket_recompute_def B_def)
  qed
  have B: "jget B q = map_option (bucket_text H) (jget (mb_members s) q)" for q
    using old other same by (auto simp: B_def bucket_inv_def split: option.splits)
  have dig: "digest_ok v" if "jget (mb_bucket ?s) q = Some v" for q v
    using that B by (auto simp: map_option_case split: option.splits)
  have nodes: "node_ok H (map_of (mb_bucket ?s)) (map_of (mb_node ?s)) p"
    if p: "length p \<le> 4" "\<not> (prefix p bp \<and> length p < 5)" for p
  proof -
    have "jget B q = jget (mb_bucket t) q" if "prefix p q" for q
      using that p B old other by (cases "q = bp") (auto simp: bucket_inv_def)
    then show ?thesis
      using old p same by (subst node_ok_local [where B' = "map_of (mb_bucket t)" and N' = "map_of (mb_node t)"])
        (auto simp: bucket_inv_def)
  qed
  obtain t' where t': "bucket_up H 5 bp ?s = Inr t'" "mb_members t' = mb_members ?s" "mb_bucket t' = mb_bucket ?s"
    "mb_count t' = mb_count ?s" "\<forall>p. length p \<le> 4 \<longrightarrow> node_ok H (map_of (mb_bucket ?s)) (map_of (mb_node t')) p"
  proof -
    have "\<exists>t'. bucket_up H 5 bp ?s = Inr t' \<and> mb_members t' = mb_members ?s \<and> mb_bucket t' = mb_bucket ?s
      \<and> mb_count t' = mb_count ?s \<and> (\<forall>p. length p \<le> 4 \<longrightarrow> node_ok H (map_of (mb_bucket ?s)) (map_of (mb_node t')) p)"
      by (rule bucket_up_ok [OF bp order_refl]) (erule dig, erule nodes, assumption)
    then show ?thesis using that by blast
  qed
  then show ?thesis using eq ok size B by (simp add: bucket_inv_def)
qed

definition bucket_contents :: "merkle_bucket \<Rightarrow> string \<Rightarrow> string option" where
  "bucket_contents t = members_get (mb_members t)"

definition bucket_accepts :: "(string \<Rightarrow> string option) \<Rightarrow> string \<Rightarrow> string \<Rightarrow> bool" where
  "bucket_accepts c m l \<longleftrightarrow> digest_ok m \<and> digest_ok l \<and> (c (radix_key m) = None \<or> c (radix_key m) = Some l)"

lemma bucket_set_ok:
  assumes inv: "bucket_inv H t" and acc: "bucket_accepts (bucket_contents t) m l"
  shows "\<exists>t'. bucket_set H m l t = Inr t' \<and> bucket_inv H t' \<and>
    bucket_contents t' = (bucket_contents t)(radix_key m \<mapsto> l)"
proof -
  let ?k = "radix_key m"
  let ?bp = "take 5 ?k"
  have k: "keyHex m = Inr ?k" "lower64 ?k" "length ?bp = 5"
    using acc radix_key_ok [of m] by (auto simp: bucket_accepts_def lower64_def)
  obtain lb where lb: "digestBytes l = Inr lb" using acc by (auto simp: bucket_accepts_def digest_ok_def)
  have mok: "members_ok (mb_members t)" and size: "mb_count t = members_size (mb_members t)"
    using inv by (simp_all add: bucket_inv_def)
  define b where "b = (case jget (mb_members t) ?bp of None \<Rightarrow> [] | Some b \<Rightarrow> b)"
  have bs: "logical_ok b \<and> (\<forall>j \<in> set (jkeys b). take 5 j = ?bp) \<and> jget b ?k = bucket_contents t ?k \<and>
        jget_or [] (mb_members t) ?bp = b"
  proof (cases "jget (mb_members t) ?bp")
    case None
    then show ?thesis
      by (simp add: b_def logical_ok_def bucket_contents_def members_get_def jget_or_def)
  next
    case (Some b0)
    then have "bucket_ok ?bp b0" using mok by (simp add: members_ok_def)
    then show ?thesis
      using Some by (simp add: b_def bucket_ok_def bucket_contents_def members_get_def jget_or_def)
  qed
  then have b: "logical_ok b" "\<forall>j \<in> set (jkeys b). take 5 j = ?bp" "jget b ?k = bucket_contents t ?k"
    "jget_or [] (mb_members t) ?bp = b"
    by blast+
  show ?thesis
  proof (cases "bucket_contents t ?k")
    case (Some e)
    then have "e = l" using acc by (simp add: bucket_accepts_def)
    then have "bucket_set H m l t = Inr t"
      using Some k lb by (auto simp: bucket_set_def BUCKET_NIBBLES_def bucket_contents_def members_get_def split: option.splits)
    then show ?thesis using inv Some \<open>e = l\<close> by (auto simp: fun_upd_idem)
  next
    case None
    let ?b = "jset ?k l b"
    let ?s = "t\<lparr>mb_members := jset ?bp ?b (mb_members t), mb_count := mb_count t + 1\<rparr>"
    have step: "bucket_set H m l t = bucket_recompute H ?bp ?s"
      using None k lb by (auto simp: bucket_set_def BUCKET_NIBBLES_def bucket_contents_def members_get_def b_def
          Let_def split: option.splits)
    have bok: "bucket_ok ?bp ?b"
      using b k lb by (auto simp: bucket_ok_def logical_ok_jset digest_ok_def dom_update)
    have "?k \<notin> set (jkeys b)" using None b(3) by (simp add: map_of_eq_None_iff)
    then have len: "length ?b = Suc (length b)" by (simp add: length_jset)
    have "members_size (jset ?bp ?b (mb_members t)) = mb_count t + 1"
      using members_size_jset [of "mb_members t" ?bp ?b] mok size len b(4) by (simp add: members_ok_def)
    then obtain t' where t': "bucket_recompute H ?bp ?s = Inr t'" "bucket_inv H t'" "mb_members t' = mb_members ?s"
      using bucket_recompute_ok [OF inv k(3), of ?s] mok bok by (auto simp: members_ok_jset)
    have "members_get (mb_members t) j = jget b j" if "take 5 j = ?bp" for j
      using that by (simp add: members_get_def b_def split: option.split)
    then have "bucket_contents t' j = ((bucket_contents t)(?k \<mapsto> l)) j" for j
      using t'(3) by (cases "take 5 j = ?bp") (auto simp: bucket_contents_def members_get_jset)
    then show ?thesis using t' step by (auto simp: fun_eq_iff)
  qed
qed

lemma bucket_delete_ok:
  assumes inv: "bucket_inv H t" and m: "digest_ok m"
  shows "\<exists>t'. bucket_delete H m t = Inr t' \<and> bucket_inv H t' \<and>
    bucket_contents t' = (bucket_contents t)(radix_key m := None)"
proof -
  let ?k = "radix_key m"
  let ?bp = "take 5 ?k"
  have k: "keyHex m = Inr ?k" "lower64 ?k" "length ?bp = 5"
    using radix_key_ok [OF m] by (auto simp: lower64_def)
  have mok: "members_ok (mb_members t)" and size: "mb_count t = members_size (mb_members t)"
    using inv by (simp_all add: bucket_inv_def)
  show ?thesis
  proof (cases "bucket_contents t ?k")
    case None
    have "bucket_delete H m t = Inr t"
    proof (cases "jget (mb_members t) ?bp")
      case (Some b)
      then have "?k \<notin> set (jkeys b)"
        using None by (simp add: bucket_contents_def members_get_def map_of_eq_None_iff)
      then show ?thesis using k Some by (simp add: bucket_delete_def BUCKET_NIBBLES_def)
    qed (use k in \<open>simp add: bucket_delete_def BUCKET_NIBBLES_def\<close>)
    then show ?thesis using inv None by (auto simp: fun_upd_idem)
  next
    case (Some e)
    then obtain b where b: "jget (mb_members t) ?bp = Some b" "jget b ?k = Some e"
      by (auto simp: bucket_contents_def members_get_def split: option.splits)
    then have kb: "?k \<in> set (jkeys b)" using jget_Some_key by metis
    have bok: "bucket_ok ?bp b" using b mok by (simp add: members_ok_def)
    let ?b = "jdelete ?k b"
    let ?m = "if length ?b = 0 then jdelete ?bp (mb_members t) else jset ?bp ?b (mb_members t)"
    let ?s = "t\<lparr>mb_members := ?m, mb_count := mb_count t - 1\<rparr>"
    have step: "bucket_delete H m t = bucket_recompute H ?bp ?s"
      using b k kb by (simp add: bucket_delete_def BUCKET_NIBBLES_def Let_def)
    have len: "length ?b = length b - 1"
      using bok kb by (simp add: length_jdelete bucket_ok_def logical_ok_def)
    have "members_ok ?m"
      using mok bok by (simp add: members_ok_jdelete members_ok_jset bucket_ok_jdelete)
    moreover have "members_size ?m = mb_count t - 1"
      using members_size_jset [of "mb_members t" ?bp ?b] members_size_jdelete [of "mb_members t" ?bp] mok size len b bok
      by (cases "length b") (auto simp: members_ok_def jget_or_def bucket_ok_def)
    moreover have "jget ?m q = jget (mb_members t) q" if "q \<noteq> ?bp" for q using that by simp
    ultimately obtain t' where t': "bucket_recompute H ?bp ?s = Inr t'" "bucket_inv H t'" "mb_members t' = ?m"
      using bucket_recompute_ok [OF inv k(3), of ?s] by auto
    have "members_get ?m = (\<lambda>j. if take 5 j = ?bp then jget ?b j else members_get (mb_members t) j)"
      by (auto simp: members_get_jset fun_eq_iff) (auto simp: members_get_def)
    then have "bucket_contents t' j = ((bucket_contents t)(?k := None)) j" for j
      using t'(3) b by (cases "take 5 j = ?bp") (auto simp: bucket_contents_def members_get_def)
    then show ?thesis using t' step by (auto simp: fun_eq_iff)
  qed
qed

lemma members_size_zero: "members_ok m \<Longrightarrow> members_size m = 0 \<longleftrightarrow> m = []"
proof
  assume ok: "members_ok m" and z: "members_size m = 0"
  show "m = []"
  proof (rule ccontr)
    assume "m \<noteq> []"
    then obtain bp b m' where m: "m = (bp, b) # m'" by (metis neq_Nil_conv surj_pair)
    then have "jget m bp = Some b" by simp
    then have "b \<noteq> []" using ok unfolding members_ok_def bucket_ok_def by blast
    then show False using z m by (simp add: members_size_def)
  qed
qed (simp add: members_size_def)

lemma bucket_root_eq:
  assumes "bucket_inv H t"
  shows "bucket_root H t =
    (if mb_members t = [] then ZERO_DIGEST else bucket_node_text H (map_of (mb_bucket t)) [])"
proof -
  have ok: "members_ok (mb_members t)" and n: "mb_count t = members_size (mb_members t)"
    and root: "node_ok H (map_of (mb_bucket t)) (map_of (mb_node t)) []"
    and B: "\<And>bp. jget (mb_bucket t) bp = map_option (bucket_text H) (jget (mb_members t) bp)"
    using assms by (auto simp: bucket_inv_def)
  have "jget (mb_node t) [] \<noteq> None" if ne: "mb_members t \<noteq> []"
  proof
    assume "jget (mb_node t) [] = None"
    then have "\<forall>q. jget (mb_bucket t) q = None" using root by (simp add: node_ok_def)
    moreover obtain bp b m' where "mb_members t = (bp, b) # m'" using ne by (metis neq_Nil_conv surj_pair)
    ultimately show False using B [of bp] by simp
  qed
  then show ?thesis
    using root members_size_zero [OF ok] n
    by (cases "mb_members t = []"; cases "jget (mb_node t) []") (simp_all add: bucket_root_def node_ok_def)
qed

lemma bucket_root_determined:
  assumes "bucket_inv H s" "bucket_inv H t" and "bucket_contents s = bucket_contents t"
  shows "bucket_root H s = bucket_root H t"
proof -
  have ok: "members_ok (mb_members s)" "members_ok (mb_members t)" using assms by (auto simp: bucket_inv_def)
  have rel: "rel_option (\<lambda>b b'. bucket_text H b = bucket_text H b') (jget (mb_members s) bp) (jget (mb_members t) bp)" for bp
    using members_get_determines [OF ok] assms(3) by (simp add: bucket_contents_def)
  have "jget (mb_bucket s) bp = jget (mb_bucket t) bp" for bp
    using rel [of bp] assms(1,2) by (auto simp: bucket_inv_def option_rel_Some1 option_rel_Some2 elim: option.rel_cases)
  then have "map_of (mb_bucket s) = map_of (mb_bucket t)" by (rule ext)
  moreover have "mb_members s = [] \<longleftrightarrow> mb_members t = []"
  proof -
    have "m = [] \<longleftrightarrow> (\<forall>bp. map_of m bp = None)" for m :: "(string, (string, string) jsmap) jsmap"
      by (cases m) auto
    moreover have "jget (mb_members s) bp = None \<longleftrightarrow> jget (mb_members t) bp = None" for bp
      using rel [of bp] by (auto elim: option.rel_cases)
    ultimately show ?thesis by metis
  qed
  ultimately show ?thesis using assms by (simp add: bucket_root_eq)
qed

interpretation bucket: authenticated_set bucket_empty "bucket_set H" "bucket_delete H" "bucket_root H"
  bucket_contents "bucket_inv H" radix_key "\<lambda>_ l. l" digest_ok bucket_accepts for H
proof
  show "bucket_inv H bucket_empty" by (rule bucket_inv_empty)
  show "bucket_contents bucket_empty = Map.empty" by (auto simp: bucket_contents_def members_get_def)
qed (fact bucket_set_ok bucket_delete_ok bucket_root_determined)+

section \<open>Bulk construction and recomputation from bucket digests\<close>

lemma group_member_step:
  assumes "members_ok m" "lower64 k" "digest_ok l" "members_get m k = None"
  shows "members_ok (group_member (k, l) m) \<and> members_get (group_member (k, l) m) = (members_get m)(k \<mapsto> l)
    \<and> members_size (group_member (k, l) m) = Suc (members_size m)"
proof -
  let ?bp = "take 5 k"
  define b where "b = jget_or [] m ?bp"
  have b: "logical_ok b" "\<forall>j \<in> set (jkeys b). take 5 j = ?bp" "jget b k = None"
  proof -
    have "logical_ok b \<and> (\<forall>j \<in> set (jkeys b). take 5 j = ?bp)"
      using assms(1) by (cases "jget m ?bp") (simp_all add: b_def jget_or_def logical_ok_def members_ok_def bucket_ok_def)
    then show "logical_ok b" "\<forall>j \<in> set (jkeys b). take 5 j = ?bp" by blast+
    show "jget b k = None" using assms(4) by (simp add: b_def jget_or_def members_get_def split: option.splits)
  qed
  have g: "group_member (k, l) m = jset ?bp (jset k l b) m"
    by (simp add: group_member_def BUCKET_NIBBLES_def b_def Let_def)
  have "bucket_ok ?bp (jset k l b)"
    using b assms(2,3) by (auto simp: bucket_ok_def logical_ok_jset dom_update)
  moreover have "k \<notin> set (jkeys b)" using b(3) by (simp add: map_of_eq_None_iff)
  moreover have "members_get (jset ?bp (jset k l b) m) j = ((members_get m)(k \<mapsto> l)) j" for j
    by (auto simp: members_get_jset members_get_def b_def jget_or_def split: option.splits)
  ultimately show ?thesis
    using members_size_jset [of m ?bp "jset k l b"] assms(1)
    by (auto simp: g members_ok_jset length_jset fun_eq_iff members_ok_def b_def)
qed

lemma group_members_ok:
  assumes "logical_ok M" and "members_ok m" and "\<And>k. k \<in> set (jkeys M) \<Longrightarrow> members_get m k = None"
  shows "members_ok (fold group_member M m) \<and> members_size (fold group_member M m) = members_size m + length M
    \<and> members_get (fold group_member M m) = (\<lambda>k. case jget M k of Some l \<Rightarrow> Some l | None \<Rightarrow> members_get m k)"
  using assms
proof (induction M arbitrary: m)
  case Nil
  then show ?case by simp
next
  case (Cons kl M)
  obtain k l where kl: "kl = (k, l)" by (cases kl)
  have "jget (kl # M) k = Some l" using kl by simp
  then have "digest_ok l" using Cons.prems(1) unfolding logical_ok_def by blast
  then have k: "lower64 k" "digest_ok l" "members_get m k = None" "k \<notin> set (jkeys M)"
    using Cons.prems(1,3) kl by (auto simp: logical_ok_def)
  have M: "logical_ok M"
    using Cons.prems(1) kl by (auto simp: logical_ok_def split: if_splits)
  note step = group_member_step [OF Cons.prems(2) k(1-3)]
  have none: "members_get (group_member (k, l) m) j = None" if "j \<in> set (jkeys M)" for j
    using step Cons.prems(3) that k(4) kl by auto
  have "members_ok (fold group_member M (group_member (k, l) m))
    \<and> members_size (fold group_member M (group_member (k, l) m)) = members_size (group_member (k, l) m) + length M
    \<and> members_get (fold group_member M (group_member (k, l) m)) =
       (\<lambda>j. case jget M j of Some l \<Rightarrow> Some l | None \<Rightarrow> members_get (group_member (k, l) m) j)"
    using step none by (intro Cons.IH [OF M]) auto
  moreover have "jget M k = None" using k(4) by (simp add: map_of_eq_None_iff)
  ultimately show ?case using step kl by (auto simp: fun_eq_iff split: option.splits)
qed

lemma bucket_digests_fold:
  assumes "members_ok m" and "distinct (jkeys ms)" and "\<And>bp b. (bp, b) \<in> set ms \<Longrightarrow> bucket_ok bp b"
  shows "\<exists>B'. res_fold (\<lambda>(bp, bucket) m. res_bind (computeBucketDigest H bucket) (\<lambda>d. Inr (jset bp d m))) ms B = Inr B'
    \<and> (\<forall>bp. jget B' bp = (case jget ms bp of Some b \<Rightarrow> Some (bucket_text H b) | None \<Rightarrow> jget B bp))"
  using assms(2,3)
proof (induction ms arbitrary: B)
  case Nil
  then show ?case by simp
next
  case (Cons x ms)
  obtain bp b where x: "x = (bp, b)" by (cases x)
  have "computeBucketDigest H b = Inr (bucket_text H b)"
    using Cons.prems(2) [of bp b] x by (auto simp: bucket_ok_def intro: computeBucketDigest_ok)
  moreover obtain B' where "res_fold (\<lambda>(bp, bucket) m. res_bind (computeBucketDigest H bucket) (\<lambda>d. Inr (jset bp d m)))
      ms (jset bp (bucket_text H b) B) = Inr B'"
    "\<forall>q. jget B' q = (case jget ms q of Some b \<Rightarrow> Some (bucket_text H b) | None \<Rightarrow> jget (jset bp (bucket_text H b) B) q)"
    using Cons.IH [of "jset bp (bucket_text H b) B"] Cons.prems by auto
  moreover have "jget ms bp = None" using Cons.prems(1) x by (simp add: map_of_eq_None_iff)
  ultimately show ?case using x by (auto split: option.splits)
qed

lemma members_keys_len:
  assumes "members_ok m" and "bp \<in> set (jkeys m)"
  shows "length bp = 5 \<and> set bp \<subseteq> set hex_digits"
proof -
  obtain b where "jget m bp = Some b" using assms(2) by (metis map_of_eq_None_iff not_None_eq set_map)
  then have b: "bucket_ok bp b" using assms(1) by (simp add: members_ok_def)
  then obtain k where "k \<in> set (jkeys b)" by (cases b) (auto simp: bucket_ok_def)
  then have "lower64 k" "take 5 k = bp" using b by (auto simp: bucket_ok_def logical_ok_def)
  then show ?thesis using set_take_subset [of 5 k] by (auto simp: lower64_def)
qed

lemma level_loop_all:
  assumes "members_ok m" and "\<And>bp. jget B bp = map_option (bucket_text H) (jget m bp)"
    and "set bps = set (jkeys B)"
  shows "\<exists>nodes. level_loop H B bps 5 [] = Inr nodes \<and> (\<forall>p. length p \<le> 4 \<longrightarrow> node_ok H (map_of B) (map_of nodes) p)"
proof (rule level_loop_ok)
  show "length p = 5" if "p \<in> set bps" for p
  proof -
    have "jget B p \<noteq> None" using that assms(3) by (simp add: map_of_eq_None_iff)
    then have "p \<in> set (jkeys m)" using assms(2) [of p] by (metis map_of_eq_None_iff option.map_disc_iff set_map)
    then show ?thesis using members_keys_len [OF assms(1)] by blast
  qed
  show "digest_ok v" if "jget B q = Some v" for q v
    using that assms(2) by (auto simp: map_option_case split: option.splits)
qed (use assms(3) in auto)

text \<open>Building from a list and building from its batches both give a set that meets the invariant.\<close>

lemma bucket_from_ok:
  assumes "res_fold collect_logical entries [] = Inr M"
  shows "\<exists>t. bucket_fromSorted H entries = Inr t \<and> bucket_inv H t \<and> bucket_contents t = map_of M"
proof -
  have M: "logical_ok M"
    by (rule collect_logical_ok [OF assms]) (simp add: logical_ok_def)
  let ?m = "fold group_member M []"
  have m: "members_ok ?m" "members_size ?m = length M" "members_get ?m = map_of M"
    using group_members_ok [OF M, of "[]"]
    by (auto simp: members_ok_def members_get_def members_size_def fun_eq_iff split: option.splits)
  obtain B where B: "res_fold (\<lambda>(bp, bucket) m. res_bind (computeBucketDigest H bucket) (\<lambda>d. Inr (jset bp d m))) ?m [] = Inr B"
    "\<And>bp. jget B bp = map_option (bucket_text H) (jget ?m bp)"
  proof -
    have "bucket_ok bp b" if "(bp, b) \<in> set ?m" for bp b
      using that m(1) by (simp add: members_ok_def)
    then show ?thesis
      using that bucket_digests_fold [OF m(1), of ?m H "[]"] m(1)
      by (auto simp: members_ok_def map_option_case cong: option.case_cong)
  qed
  have keys: "set (jkeys ?m) = set (jkeys B)"
    using B(2) by (metis (no_types, lifting) map_of_eq_None_iff option.map_disc_iff set_map subset_antisym subsetI)
  obtain N where N: "level_loop H B (jkeys ?m) 5 [] = Inr N"
    "\<forall>p. length p \<le> 4 \<longrightarrow> node_ok H (map_of B) (map_of N) p"
    using level_loop_all [OF m(1) B(2) keys] by blast
  show ?thesis
    using assms B N m by (simp add: bucket_fromSorted_def bucket_inv_def bucket_contents_def)
qed

lemma bucket_from_incremental:
  assumes "bucket_fromSorted H entries = Inr t"
  shows "\<exists>s. res_fold (\<lambda>(m, l) s. bucket_set H m l s) entries bucket_empty = Inr s
    \<and> bucket_contents s = bucket_contents t \<and> bucket_root H s = bucket_root H t"
proof -
  from assms obtain M where M: "res_fold collect_logical entries [] = Inr M"
    by (auto simp: bucket_fromSorted_def res_bind_Inr_iff)
  have sim: "\<exists>s. res_fold (\<lambda>(m, l) s. bucket_set H m l s) es s0 = Inr s \<and> bucket_inv H s \<and> bucket_contents s = map_of M'"
    if "res_fold collect_logical es M0 = Inr M'" "logical_ok M0" "bucket_inv H s0" "bucket_contents s0 = map_of M0"
    for es M0 M' s0
    using that
  proof (induction es arbitrary: M0 s0)
    case Nil
    then show ?case by simp
  next
    case (Cons e es)
    obtain m l where e: "e = (m, l)" by (cases e)
    from Cons.prems(1) e obtain M1 where M1: "collect_logical (m, l) M0 = Inr M1" "res_fold collect_logical es M1 = Inr M'"
      by (auto simp: res_bind_Inr_iff)
    note ok = collect_step [OF M1(1) Cons.prems(2)]
    have "bucket_accepts (bucket_contents s0) m l"
      using ok Cons.prems(4) by (auto simp: bucket_accepts_def)
    then obtain s1 where s1: "bucket_set H m l s0 = Inr s1" "bucket_inv H s1"
      "bucket_contents s1 = (bucket_contents s0)(radix_key m \<mapsto> l)"
      using bucket_set_ok [OF Cons.prems(3)] by blast
    then show ?case using Cons.IH [OF M1(2) _ s1(2)] ok Cons.prems(4) e by simp
  qed
  have "bucket_contents bucket_empty = map_of []" "logical_ok []"
    using bucket.contents_empty by (auto simp: logical_ok_def)
  then obtain s where s: "res_fold (\<lambda>(m, l) s. bucket_set H m l s) entries bucket_empty = Inr s" "bucket_inv H s"
    "bucket_contents s = map_of M"
    using sim [OF M _ bucket_inv_empty] by blast
  have "bucket_inv H t" "bucket_contents t = map_of M"
    using bucket_from_ok [OF M, of H] assms by auto
  then show ?thesis using s bucket_root_determined [of H s t] by auto
qed

lemma rootFromBucketDigests_root:
  assumes "bucket_inv H t"
  shows "rootFromBucketDigests H (bucketDigests t) = Inr (bucket_root H t)"
proof -
  let ?B = "mb_bucket t" and ?m = "mb_members t"
  have ok: "members_ok ?m" and B: "\<And>bp. jget ?B bp = map_option (bucket_text H) (jget ?m bp)"
    using assms by (auto simp: bucket_inv_def)
  have keys: "set (jkeys ?B) = set (jkeys ?m)"
    using B by (metis (no_types, lifting) map_of_eq_None_iff option.map_disc_iff set_map subset_antisym subsetI)
  then have empty: "?B = [] \<longleftrightarrow> ?m = []" by auto
  have "list_all (\<lambda>p. length p = BUCKET_NIBBLES \<and> list_all is_hex p) (jkeys ?B)"
    unfolding list_all_iff keys BUCKET_NIBBLES_def using members_keys_len [OF ok] hex_digits_hex by blast
  moreover obtain N where N: "level_loop H ?B (jkeys ?B) 5 [] = Inr N"
    "\<forall>p. length p \<le> 4 \<longrightarrow> node_ok H (map_of ?B) (map_of N) p"
    using level_loop_all [OF ok B refl] by blast
  moreover have "jget N [] = Some (bucket_node_text H (map_of ?B) [])" if ne: "?m \<noteq> []"
  proof -
    obtain bp b m' where "?m = (bp, b) # m'" using ne by (metis neq_Nil_conv surj_pair)
    then have "jget ?B bp \<noteq> None" using B [of bp] by simp
    then show ?thesis using N(2) [rule_format, of "[]"] by (auto simp: node_ok_def split: option.splits)
  qed
  ultimately show ?thesis
    using empty by (simp add: rootFromBucketDigests_def bucketDigests_def bucket_root_eq [OF assms])
qed

section \<open>Set digests bind their arguments\<close>

lemma length_le_bytes [simp]: "length (le_bytes w n) = w"
  by (induction w arbitrary: n) auto

lemma le_bytes_inj: "m < 256 ^ w \<Longrightarrow> n < 256 ^ w \<Longrightarrow> le_bytes w m = le_bytes w n \<Longrightarrow> m = n"
proof (induction w arbitrary: m n)
  case 0
  then show ?case by simp
next
  case (Suc w)
  have "unat (word_of_nat (m mod 256) :: byte) = unat (word_of_nat (n mod 256) :: byte)"
    using Suc.prems by simp
  then have "m mod 256 = n mod 256" by (simp add: unat_of_nat)
  moreover have "m div 256 = n div 256"
    using Suc by (intro Suc.IH) (auto simp: less_mult_imp_div_less mult.commute)
  ultimately show ?case by (metis div_mult_mod_eq)
qed

lemma u64le_checked_Inr: "u64le_checked n = Inr nb \<longleftrightarrow> n < 2 ^ 64 \<and> nb = u64le n"
  by (auto simp: u64le_checked_def)

lemma u64le_inj: "n < 2 ^ 64 \<Longrightarrow> n' < 2 ^ 64 \<Longrightarrow> u64le n = u64le n' \<longleftrightarrow> n = n'"
  using le_bytes_inj [of n 8 n'] by (auto simp: u64le_def)

lemma length_u64le [simp]: "length (u64le n) = 8"
  by (simp add: u64le_def)

section \<open>The properties of the bucketed set\<close>

text \<open>
  The root of a \<open>BucketedMerkleSet\<close> does not depend on its history.  Any two sequences of \<open>set\<close> and
  \<open>delete\<close> calls that the set accepts and that leave the same contents produce the same root; \<open>set\<close>
  accepts a digest pair unless the member is present with a different value.
\<close>

theorem bucket_histories_agree:
  assumes "spec_ops radix_key (\<lambda>_ l. l) digest_ok bucket_accepts ops Map.empty = Some c"
    and "spec_ops radix_key (\<lambda>_ l. l) digest_ok bucket_accepts ops' Map.empty = Some c"
  shows "\<exists>t t'. run_ops (bucket_set H) (bucket_delete H) ops bucket_empty = Inr t
    \<and> run_ops (bucket_set H) (bucket_delete H) ops' bucket_empty = Inr t'
    \<and> bucket_contents t = c \<and> bucket_contents t' = c \<and> bucket_root H t = bucket_root H t'"
  using assms by (rule bucket.histories_agree)

theorem bucket_histories_agree_witness:
  "\<exists>t t'. run_ops (bucket_set flat_hash) (bucket_delete flat_hash) [Put sample_a sample_b, Put sample_b sample_a] bucket_empty = Inr t
    \<and> run_ops (bucket_set flat_hash) (bucket_delete flat_hash)
        [Put sample_b sample_b, Put sample_a sample_b, Del sample_b, Put sample_b sample_a] bucket_empty = Inr t'
    \<and> bucket_contents t = [sample_a \<mapsto> sample_b, sample_b \<mapsto> sample_a]
    \<and> bucket_contents t' = [sample_a \<mapsto> sample_b, sample_b \<mapsto> sample_a]
    \<and> bucket_root flat_hash t = bucket_root flat_hash t'"
  by (rule bucket_histories_agree) (auto simp: fun_eq_iff bucket_accepts_def)

text \<open>
  \<open>BucketedMerkleSet.fromSorted\<close> accepts exactly the entry lists whose members and values are digests and
  whose equal members carry equal values, in any order; the set it builds, and the set built from any
  split of the list into batches, has the root of the set built by inserting the entries one by one.
\<close>

theorem bucket_from_correct:
  "if entries_ok Map.empty (set (concat batches))
   then \<exists>t s. bucket_fromSorted H (concat batches) = Inr t \<and> bucket_fromSortedBatches H batches = Inr t
     \<and> res_fold (\<lambda>(m, l) s. bucket_set H m l s) (concat batches) bucket_empty = Inr s
     \<and> bucket_contents t = bucket_contents s \<and> bucket_root H t = bucket_root H s
   else \<exists>e. bucket_fromSortedBatches H batches = Inl e"
proof (cases "entries_ok Map.empty (set (concat batches))")
  case True
  moreover have "logical_ok []" by (simp add: logical_ok_def)
  ultimately obtain M where "res_fold collect_logical (concat batches) [] = Inr M"
    using collect_accepts [of "[]" "concat batches"] by (auto simp del: set_concat)
  then obtain t where "bucket_fromSorted H (concat batches) = Inr t" using bucket_from_ok by blast
  then show ?thesis
    using True bucket_from_incremental [of H "concat batches" t] by (auto simp: bucket_fromSortedBatches_def)
next
  case False
  then have "\<nexists>M. res_fold collect_logical (concat batches) [] = Inr M"
    using collect_accepts [of "[]" "concat batches"] by (simp add: logical_ok_def)
  then obtain e where "res_fold collect_logical (concat batches) [] = Inl e"
    by (cases "res_fold collect_logical (concat batches) []") auto
  then show ?thesis using False by (simp add: bucket_fromSortedBatches_def bucket_fromSorted_def)
qed

text \<open>
  \<open>rootFromBucketDigests\<close>, which verifies a persisted tree from its bucket level alone, recomputes the
  root of every set reached by \<open>set\<close> and \<open>delete\<close> calls from the digests \<open>bucketDigests\<close> exports.
\<close>

theorem bucket_root_recomputed:
  assumes "spec_ops radix_key (\<lambda>_ l. l) digest_ok bucket_accepts ops Map.empty = Some c"
  shows "\<exists>t. run_ops (bucket_set H) (bucket_delete H) ops bucket_empty = Inr t
    \<and> rootFromBucketDigests H (bucketDigests t) = Inr (bucket_root H t)"
  using bucket.run_refines [of ops bucket_empty c H] assms rootFromBucketDigests_root
  by (auto simp: bucket.contents_empty bucket_inv_empty)

theorem bucket_root_recomputed_witness:
  "\<exists>t. run_ops (bucket_set flat_hash) (bucket_delete flat_hash) [Put sample_a sample_b, Put sample_b sample_a, Del sample_a] bucket_empty = Inr t
    \<and> rootFromBucketDigests flat_hash (bucketDigests t) = Inr (bucket_root flat_hash t)"
  by (rule bucket_root_recomputed [where c = "[sample_b \<mapsto> sample_a]"]) (auto simp: fun_eq_iff bucket_accepts_def)

text \<open>
  The source-state digest binds its arguments: two calls of \<open>sourceStateDigest\<close> that return the same text
  were given the same two counts and the same two root digests, unless the hash collides on the two
  encodings of those arguments.
\<close>

theorem source_state_digest_binds:
  assumes "sourceStateDigest H r n a k = Inr d" and "sourceStateDigest H r' n' a' k' = Inr d"
    and "digestBytes r = Inr rb" "digestBytes r' = Inr rb'" "digestBytes a = Inr ab" "digestBytes a' = Inr ab'"
    and "H (concat [SOURCE_STATE, u64le n, rb, u64le k, ab]) = H (concat [SOURCE_STATE, u64le n', rb', u64le k', ab'])
      \<Longrightarrow> concat [SOURCE_STATE, u64le n, rb, u64le k, ab] = concat [SOURCE_STATE, u64le n', rb', u64le k', ab']"
  shows "n = n' \<and> rb = rb' \<and> k = k' \<and> ab = ab'"
proof -
  have len: "length rb = length rb'" using assms digestBytes_length by metis
  have n: "n < 2 ^ 64" "k < 2 ^ 64" "n' < 2 ^ 64" "k' < 2 ^ 64"
    and "digest H [SOURCE_STATE, u64le n, rb, u64le k, ab] = digest H [SOURCE_STATE, u64le n', rb', u64le k', ab']"
    using assms(1-6) by (auto simp: sourceStateDigest_def res_bind_Inr_iff u64le_checked_Inr)
  then have "concat [SOURCE_STATE, u64le n, rb, u64le k, ab] = concat [SOURCE_STATE, u64le n', rb', u64le k', ab']"
    using assms(7) by simp
  then show ?thesis using n len by (simp add: u64le_inj append_eq_append_conv)
qed

theorem source_state_digest_binds_witness:
  "\<exists>d. sourceStateDigest flat_hash sample_a 3 sample_b 4 = Inr d \<and> (3 :: nat) = 3 \<and> hex_decode sample_a = hex_decode sample_a
    \<and> (4 :: nat) = 4 \<and> hex_decode sample_b = hex_decode sample_b"
proof -
  have d: "digestBytes sample_a = Inr (hex_decode sample_a)" "digestBytes sample_b = Inr (hex_decode sample_b)"
    using sample_lower64 by (simp_all add: digestBytes_lower64)
  then obtain t where "sourceStateDigest flat_hash sample_a 3 sample_b 4 = Inr t"
    by (simp add: sourceStateDigest_def u64le_checked_def)
  then show ?thesis using source_state_digest_binds [OF _ _ d(1) d(1) d(2) d(2), of flat_hash 3 4 t 3 4] by blast
qed

end
