(* ===== verification/Merkle_Sparse.thy ===== *)
theory Merkle_Sparse
  imports Merkle_Radix
begin

text \<open>
  \<open>packages/canonical/src/sparse-merkle.ts\<close>: the binary Merkle set \<open>SparseMerkleSet\<close> of depth 256.  Leaves
  are keyed by the member digest, nodes and prefix counts by the bits of the path.  Like the radix set it
  refines the recomputation of every node from the leaves and satisfies the contract of an authenticated set.
\<close>

section \<open>State and operations\<close>

record sparse_merkle =
  sm_leaves :: "(string, string) jsmap"
  sm_nodes :: "(string, string) jsmap"
  sm_counts :: "(string, int) jsmap"

definition sparse_empty :: sparse_merkle where
  "sparse_empty = \<lparr>sm_leaves = [], sm_nodes = [], sm_counts = []\<rparr>"

text \<open>\<open>Number.parseInt(character, 16).toString(2).padStart(4, "0")\<close>: a character that is no hexadecimal digit gives \<open>NaN\<close>.\<close>

definition bit_char :: "nat \<Rightarrow> char" where
  "bit_char n = (if n mod 2 = 0 then CHR ''0'' else CHR ''1'')"

definition nibble_bits :: "char \<Rightarrow> string" where
  "nibble_bits c = (case hex_val c of Some n \<Rightarrow> [bit_char (n div 8), bit_char (n div 4), bit_char (n div 2), bit_char n] | None \<Rightarrow> ''0NaN'')"

definition bits :: "string \<Rightarrow> string" where
  "bits key = concat (map nibble_bits (drop 7 key))"

definition SPARSE_LEAF :: "byte list" where
  "SPARSE_LEAF = ascii_bytes ''urdira:merkle:leaf'' @ [0]"

definition SPARSE_NODE :: "byte list" where
  "SPARSE_NODE = ascii_bytes ''urdira:merkle:node'' @ [0]"

text \<open>The digest of one child: zero when its prefix is empty, the node of the walk or a cached sibling otherwise.\<close>

definition sparse_child :: "sparse_merkle \<Rightarrow> string \<Rightarrow> string \<Rightarrow> bool \<Rightarrow> string" where
  "sparse_child t childPrefix own onPath =
     (if jget_or 0 (sm_counts t) childPrefix = 0 then ZERO_DIGEST
      else if onPath then jget_or ZERO_DIGEST (sm_nodes t) own else jget_or ZERO_DIGEST (sm_nodes t) childPrefix)"

fun sparse_up :: "sha256 \<Rightarrow> string \<Rightarrow> nat \<Rightarrow> string \<Rightarrow> sparse_merkle \<Rightarrow> sparse_merkle" where
  "sparse_up H path 0 own t = t"
| "sparse_up H path (Suc depth) own t =
     (let parent = butlast own; child = path ! depth;
          left = sparse_child t (parent @ ''0'') own (child = CHR ''0'');
          right = sparse_child t (parent @ ''1'') own (child = CHR ''1'')
      in sparse_up H path depth parent
           (if jget_or 0 (sm_counts t) parent = 0 then t\<lparr>sm_nodes := jdelete parent (sm_nodes t)\<rparr>
            else t\<lparr>sm_nodes := jset parent (digest H [SPARSE_NODE, ascii_bytes (nat_str depth), ascii_bytes left, ascii_bytes right]) (sm_nodes t)\<rparr>))"

definition sparse_recompute :: "sha256 \<Rightarrow> string \<Rightarrow> sparse_merkle \<Rightarrow> sparse_merkle" where
  "sparse_recompute H memberDigest t =
     (let path = bits memberDigest
      in sparse_up H path 256 path
           (case jget (sm_leaves t) memberDigest of
              Some leaf \<Rightarrow> t\<lparr>sm_nodes := jset path leaf (sm_nodes t)\<rparr>
            | None \<Rightarrow> t\<lparr>sm_nodes := jdelete path (sm_nodes t)\<rparr>))"

definition sparse_leaf :: "sha256 \<Rightarrow> string \<Rightarrow> string \<Rightarrow> string" where
  "sparse_leaf H memberDigest logicalDigest = digest H [SPARSE_LEAF, ascii_bytes memberDigest, ascii_bytes logicalDigest]"

definition sparse_set :: "sha256 \<Rightarrow> string \<Rightarrow> string \<Rightarrow> sparse_merkle \<Rightarrow> sparse_merkle" where
  "sparse_set H memberDigest logicalDigest t =
     (let t = (if jhas (sm_leaves t) memberDigest then t else t\<lparr>sm_counts := bump_counts 256 (bits memberDigest) (sm_counts t)\<rparr>)
      in sparse_recompute H memberDigest (t\<lparr>sm_leaves := jset memberDigest (sparse_leaf H memberDigest logicalDigest) (sm_leaves t)\<rparr>))"

definition sparse_delete :: "sha256 \<Rightarrow> string \<Rightarrow> sparse_merkle \<Rightarrow> sparse_merkle" where
  "sparse_delete H memberDigest t =
     (if \<not> jhas (sm_leaves t) memberDigest then t
      else sparse_recompute H memberDigest
        (t\<lparr>sm_counts := drop_counts 256 (bits memberDigest) (sm_counts t), sm_leaves := jdelete memberDigest (sm_leaves t)\<rparr>))"

definition sparse_root :: "sparse_merkle \<Rightarrow> string" where
  "sparse_root t = (if sm_leaves t = [] then ZERO_DIGEST else jget_or ZERO_DIGEST (sm_nodes t) [])"

definition sparse_verify :: "sha256 \<Rightarrow> (string \<times> string) list \<Rightarrow> sparse_merkle \<Rightarrow> bool" where
  "sparse_verify H entries t \<longleftrightarrow> sparse_root (fold (\<lambda>(m, l). sparse_set H m l) entries sparse_empty) = sparse_root t"

section \<open>Paths\<close>

definition member_key :: "string \<Rightarrow> bool" where
  "member_key m \<longleftrightarrow> take 7 m = sha_prefix \<and> lower64 (drop 7 m)"

lemma nibble_length: "length (nibble_bits c) = 4"
  by (simp add: nibble_bits_def split: option.splits)

lemma bits_length: "length (bits m) = 4 * length (drop 7 m)"
proof -
  have "length (concat (map nibble_bits s)) = 4 * length s" for s by (induction s) (simp_all add: nibble_length)
  then show ?thesis unfolding bits_def by blast
qed

lemma nibble_inject: "a \<in> set hex_digits \<Longrightarrow> b \<in> set hex_digits \<Longrightarrow> nibble_bits a = nibble_bits b \<Longrightarrow> a = b"
proof -
  have "list_all (\<lambda>a. list_all (\<lambda>b. nibble_bits a = nibble_bits b \<longrightarrow> a = b) hex_digits) hex_digits" by code_simp
  then show "a \<in> set hex_digits \<Longrightarrow> b \<in> set hex_digits \<Longrightarrow> nibble_bits a = nibble_bits b \<Longrightarrow> a = b" by (simp add: list_all_iff)
qed

lemma bits_inject:
  assumes "member_key m" "member_key n" "bits m = bits n"
  shows "m = n"
proof -
  have "concat (map nibble_bits s) = concat (map nibble_bits t) \<Longrightarrow> set s \<subseteq> set hex_digits \<Longrightarrow> set t \<subseteq> set hex_digits \<Longrightarrow> length s = length t \<Longrightarrow> s = t" for s t
  proof (induction s arbitrary: t)
    case (Cons a s)
    then obtain b t' where t: "t = b # t'" by (cases t) auto
    have "nibble_bits a = nibble_bits b \<and> concat (map nibble_bits s) = concat (map nibble_bits t')"
      using Cons.prems(1) nibble_length [of a] nibble_length [of b] unfolding t by simp
    then show ?case using Cons.IH [of t'] Cons.prems t nibble_inject by auto
  qed simp
  then have "drop 7 m = drop 7 n" using assms by (auto simp: bits_def member_key_def lower64_def)
  then show ?thesis using assms by (metis append_take_drop_id member_key_def)
qed

definition path_leaves :: "(string, string) jsmap \<Rightarrow> (string, string) jsmap" where
  "path_leaves L = map (\<lambda>(m, v). (bits m, v)) L"

lemma path_leaves_keys: "jkeys (path_leaves L) = map bits (jkeys L)"
  by (simp add: path_leaves_def split_def)

lemma path_leaves_get:
  "\<forall>k \<in> set (jkeys L). member_key k \<Longrightarrow> member_key m \<Longrightarrow> jget (path_leaves L) (bits m) = jget L m"
proof (induction L)
  case (Cons e L)
  obtain k v where e: "e = (k, v)" by fastforce
  then show ?case using Cons bits_inject [of k m] by (auto simp: path_leaves_def)
qed (simp add: path_leaves_def)

lemma path_leaves_jset:
  "\<forall>k \<in> set (jkeys L). member_key k \<Longrightarrow> member_key m \<Longrightarrow> path_leaves (jset m v L) = jset (bits m) v (path_leaves L)"
proof (induction L)
  case (Cons e L)
  obtain k w where e: "e = (k, w)" by fastforce
  then show ?case using Cons bits_inject [of k m] by (auto simp: path_leaves_def)
qed (simp add: path_leaves_def)

lemma path_leaves_jdelete:
  "\<forall>k \<in> set (jkeys L). member_key k \<Longrightarrow> member_key m \<Longrightarrow> path_leaves (jdelete m L) = jdelete (bits m) (path_leaves L)"
proof (induction L)
  case (Cons e L)
  obtain k w where e: "e = (k, w)" by fastforce
  then show ?case using Cons bits_inject [of k m] by (auto simp: path_leaves_def AList.delete_eq)
qed (simp add: path_leaves_def)

lemma path_leaves_cong:
  assumes "\<forall>k \<in> set (jkeys L). member_key k" and "\<forall>k \<in> set (jkeys K). member_key k" and "map_of L = map_of K"
  shows "map_of (path_leaves L) = map_of (path_leaves K)"
proof
  fix p
  have out: "jget (path_leaves M) p = None" if "\<forall>k. member_key k \<longrightarrow> p \<noteq> bits k" "\<forall>k \<in> set (jkeys M). member_key k" for M :: "(string, string) jsmap"
  proof -
    have "p \<notin> set (jkeys (path_leaves M))" unfolding path_leaves_keys using that by auto
    then show ?thesis by (simp add: map_of_eq_None_iff)
  qed
  show "map_of (path_leaves L) p = map_of (path_leaves K) p"
    using assms path_leaves_get [of L] path_leaves_get [of K] out by (cases "\<exists>k. member_key k \<and> p = bits k") auto
qed

lemma bits_path: "member_key m \<Longrightarrow> length (bits m) = 256 \<and> set (bits m) \<subseteq> {CHR ''0'', CHR ''1''}"
proof -
  have "set (nibble_bits c) \<subseteq> {CHR ''0'', CHR ''1''}" if "c \<in> set hex_digits" for c
  proof -
    have "list_all (\<lambda>c. list_all (\<lambda>b. b = CHR ''0'' \<or> b = CHR ''1'') (nibble_bits c)) hex_digits" by code_simp
    then show ?thesis using that by (auto simp: list_all_iff)
  qed
  then show "member_key m \<Longrightarrow> ?thesis" unfolding bits_length by (auto simp: bits_def member_key_def lower64_def)
qed

section \<open>The walk to the root refines the specification\<close>

definition sparse_comb :: "sha256 \<Rightarrow> nat \<Rightarrow> string option list \<Rightarrow> string" where
  "sparse_comb H n cs = digest H ([SPARSE_NODE, ascii_bytes (nat_str n)] @ map (\<lambda>c. ascii_bytes (case c of None \<Rightarrow> ZERO_DIGEST | Some d \<Rightarrow> d)) cs)"

abbreviation sparse_tree :: "sha256 \<Rightarrow> (string, string) jsmap \<Rightarrow> nat \<Rightarrow> string \<Rightarrow> string option" where
  "sparse_tree H \<equiv> subtree ''01'' (sparse_comb H)"

definition sparse_inv :: "sha256 \<Rightarrow> sparse_merkle \<Rightarrow> bool" where
  "sparse_inv H t \<longleftrightarrow> distinct (jkeys (sm_leaves t)) \<and> (\<forall>k \<in> set (jkeys (sm_leaves t)). member_key k)
     \<and> (\<forall>p. jget_or 0 (sm_counts t) p = key_count (path_leaves (sm_leaves t)) p)
     \<and> (\<forall>p. jget (sm_nodes t) p =
            (if length p \<le> 256 then sparse_tree H (path_leaves (sm_leaves t)) (256 - length p) p else None))"

lemma sparse_child_eq:
  assumes "own = parent @ [b]" and "\<And>p. jget_or 0 (sm_counts t) p = key_count L p"
    and "\<not> occupied L (parent @ [c]) \<Longrightarrow> jget (sm_nodes t) (parent @ [c]) = None"
  shows "sparse_child t (parent @ [c]) own (b = c) = (case jget (sm_nodes t) (parent @ [c]) of None \<Rightarrow> ZERO_DIGEST | Some d \<Rightarrow> d)"
  using assms by (auto simp: sparse_child_def key_count_pos jget_or_def split: option.splits)

lemma sparse_up_refines:
  assumes "length path = 256" and "set path \<subseteq> {CHR ''0'', CHR ''1''}" and "n \<le> 256"
    and "\<And>p. jget_or 0 (sm_counts t) p = key_count L p"
    and "\<And>p. length p \<le> 256 \<Longrightarrow> \<not> (prefix p path \<and> length p < n) \<Longrightarrow> \<not> occupied L p \<Longrightarrow> jget (sm_nodes t) p = None"
  shows "sm_leaves (sparse_up H path n (take n path) t) = sm_leaves t \<and> sm_counts (sparse_up H path n (take n path) t) = sm_counts t
    \<and> map_of (sm_nodes (sparse_up H path n (take n path) t)) = path_fill ''01'' (sparse_comb H) L n (take n path) (map_of (sm_nodes t))"
  using assms
proof (induction n arbitrary: t)
  case 0
  then show ?case by simp
next
  case (Suc n)
  let ?p = "take n path" and ?own = "take (Suc n) path"
  have n: "n < length path" "butlast ?own = ?p" "length ?p = n" using Suc.prems by (simp_all add: butlast_take)
  have own: "?own = ?p @ [path ! n]" using n(1) by (rule take_Suc_conv_app_nth)
  define t1 where "t1 = (if jget_or 0 (sm_counts t) ?p = 0 then t\<lparr>sm_nodes := jdelete ?p (sm_nodes t)\<rparr>
    else t\<lparr>sm_nodes := jset ?p (sparse_comb H n (map (\<lambda>c. jget (sm_nodes t) (?p @ [c])) ''01'')) (sm_nodes t)\<rparr>)"
  have "sparse_child t (?p @ [c]) ?own (path ! n = c) = (case jget (sm_nodes t) (?p @ [c]) of None \<Rightarrow> ZERO_DIGEST | Some d \<Rightarrow> d)" for c
    by (rule sparse_child_eq [OF own Suc.prems(4)]) (use Suc.prems(5) [of "?p @ [c]"] n Suc.prems(3) in simp)
  from this [of "CHR ''0''"] this [of "CHR ''1''"]
  have up: "sparse_up H path (Suc n) ?own t = sparse_up H path n ?p t1" by (simp add: Let_def n(2) t1_def sparse_comb_def)
  have t1: "sm_leaves t1 = sm_leaves t" "sm_counts t1 = sm_counts t"
    "map_of (sm_nodes t1) = (map_of (sm_nodes t))(?p := (if occupied L ?p then Some (sparse_comb H (length ?p) (map (\<lambda>c. jget (sm_nodes t) (?p @ [c])) ''01'')) else None))"
    using Suc.prems(4) n by (auto simp: t1_def key_count_pos update_conv delete_conv)
  have gone: "jget (sm_nodes t1) q = None" if "length q \<le> 256" "\<not> (prefix q path \<and> length q < n)" "\<not> occupied L q" for q
  proof (cases "q = ?p")
    case True
    then show ?thesis using t1(3) that by simp
  next
    case False
    then have "\<not> (prefix q path \<and> length q < Suc n)" using that take_eq_prefix [of n path q] n(1) by (auto simp: less_Suc_eq)
    then show ?thesis using Suc.prems(5) [of q] that False t1(3) by simp
  qed
  have "path_fill ''01'' (sparse_comb H) L (Suc n) ?own (map_of (sm_nodes t)) = path_fill ''01'' (sparse_comb H) L n ?p (map_of (sm_nodes t1))"
    unfolding t1(3) by (simp add: Let_def n(2))
  then show ?case using Suc.IH [of t1] Suc.prems gone t1(1,2) unfolding up by simp
qed

text \<open>The step shared by \<open>set\<close> and \<open>delete\<close>.\<close>

lemma sparse_recompute_inv:
  assumes old: "sparse_inv H t" and key: "member_key m"
    and L: "\<And>k. k \<noteq> bits m \<Longrightarrow> jget (path_leaves (sm_leaves s)) k = jget (path_leaves (sm_leaves t)) k"
    and leaves: "distinct (jkeys (sm_leaves s))" "\<forall>k \<in> set (jkeys (sm_leaves s)). member_key k"
    and counts: "\<And>p. jget_or 0 (sm_counts s) p = key_count (path_leaves (sm_leaves s)) p"
    and nodes: "sm_nodes s = sm_nodes t"
  shows "sparse_inv H (sparse_recompute H m s) \<and> sm_leaves (sparse_recompute H m s) = sm_leaves s"
proof -
  let ?key = "bits m" and ?K = "path_leaves (sm_leaves s)"
  define s' where "s' = (case jget (sm_leaves s) m of
          Some leaf \<Rightarrow> s\<lparr>sm_nodes := jset ?key leaf (sm_nodes s)\<rparr>
        | None \<Rightarrow> s\<lparr>sm_nodes := jdelete ?key (sm_nodes s)\<rparr>)"
  have len: "length ?key = 256" "set ?key \<subseteq> {CHR ''0'', CHR ''1''}" using bits_path [OF key] by auto
  have s': "sm_leaves s' = sm_leaves s" "sm_counts s' = sm_counts s"
    "map_of (sm_nodes s') = (map_of (sm_nodes t))(?key := jget ?K ?key)"
    using path_leaves_get [OF leaves(2) key] by (auto simp: s'_def nodes update_conv delete_conv split: option.splits)
  have old_nodes: "jget (sm_nodes t) p =
      (if length p \<le> 256 then sparse_tree H (path_leaves (sm_leaves t)) (256 - length p) p else None)" for p
    using old by (simp add: sparse_inv_def)
  have pre: "map_of (sm_nodes s') p = sparse_tree H ?K (256 - length p) p"
    if "length p \<le> 256" "\<not> (prefix p ?key \<and> length p < 256)" for p
  proof (cases "p = ?key")
    case True
    then show ?thesis using s' len by simp
  next
    case False
    then have "\<not> prefix p ?key" using that len by (auto simp: prefix_def)
    then have "sparse_tree H (path_leaves (sm_leaves t)) d p = sparse_tree H ?K d p" for d
      using L by (intro subtree_local) metis
    then show ?thesis using that False s' old_nodes by simp
  qed
  have gone: "jget (sm_nodes s') p = None" if "length p \<le> 256" "\<not> (prefix p ?key \<and> length p < 256)" "\<not> occupied ?K p" for p
    using pre [OF that(1,2)] that(3) occupied_iff [of ?K p] by (cases "256 - length p") auto
  define t' where "t' = sparse_up H ?key 256 ?key s'"
  have t': "sm_leaves t' = sm_leaves s" "sm_counts t' = sm_counts s"
    "map_of (sm_nodes t') = path_fill ''01'' (sparse_comb H) ?K 256 ?key (map_of (sm_nodes s'))"
    using sparse_up_refines [of ?key 256 s' ?K H] gone counts s' len unfolding t'_def by simp_all
  have "jget (sm_nodes t') p = (if length p \<le> 256 then sparse_tree H ?K (256 - length p) p else None)" for p
  proof (cases "length p \<le> 256")
    case True
    then have "path_fill ''01'' (sparse_comb H) ?K 256 ?key (map_of (sm_nodes s')) p = sparse_tree H ?K (256 - length p) p"
      by (intro path_fill_correct [OF len(1)]) (simp_all add: pre len)
    then show ?thesis using True t'(3) by simp
  next
    case False
    then have "\<not> prefix p (butlast ?key)" "p \<noteq> ?key" using len by (auto dest: prefix_length_le)
    then show ?thesis using False t'(3) s'(3) old_nodes by (simp add: path_fill_outside)
  qed
  then have "sparse_inv H t'" using t' leaves counts by (simp add: sparse_inv_def)
  moreover have "sparse_recompute H m s = t'" by (simp add: sparse_recompute_def Let_def t'_def s'_def)
  ultimately show ?thesis using t'(1) by simp
qed

section \<open>Every operation keeps the invariant\<close>

lemma sparse_inv_empty: "sparse_inv H sparse_empty"
proof -
  have "sparse_tree H [] d p = None" for d p by (cases d) (simp_all add: occupied_def)
  then show ?thesis by (simp add: sparse_inv_def sparse_empty_def key_count_def path_leaves_def)
qed

lemma sparse_set_ok:
  assumes inv: "sparse_inv H t" and key: "member_key m"
  shows "sparse_inv H (sparse_set H m l t) \<and> sm_leaves (sparse_set H m l t) = jset m (sparse_leaf H m l) (sm_leaves t)"
proof -
  define t1 where "t1 = (if jhas (sm_leaves t) m then t else t\<lparr>sm_counts := bump_counts 256 (bits m) (sm_counts t)\<rparr>)"
  define s where "s = t1\<lparr>sm_leaves := jset m (sparse_leaf H m l) (sm_leaves t1)\<rparr>"
  have t1: "sm_leaves t1 = sm_leaves t" "sm_nodes t1 = sm_nodes t" by (simp_all add: t1_def)
  have keys: "\<forall>k \<in> set (jkeys (sm_leaves t)). member_key k" "distinct (jkeys (sm_leaves t))"
    and cnt: "\<And>p. jget_or 0 (sm_counts t) p = key_count (path_leaves (sm_leaves t)) p" using inv by (simp_all add: sparse_inv_def)
  have len: "256 \<le> length (bits m)" "\<And>p. prefix p (bits m) \<Longrightarrow> length p \<le> 256" using bits_path [OF key] by (auto dest: prefix_length_le)
  have has: "bits m \<in> set (jkeys (path_leaves (sm_leaves t))) \<longleftrightarrow> m \<in> set (jkeys (sm_leaves t))"
    unfolding path_leaves_keys using bits_inject key keys(1) by auto
  have pl: "path_leaves (sm_leaves s) = jset (bits m) (sparse_leaf H m l) (path_leaves (sm_leaves t))"
    using path_leaves_jset [OF keys(1) key] by (simp add: s_def t1)
  have "jget_or 0 (sm_counts s) p = key_count (path_leaves (sm_leaves s)) p" for p
    unfolding pl key_count_jset has using cnt len by (simp add: s_def t1_def bump_counts_get)
  moreover have "\<forall>k \<in> set (jkeys (sm_leaves s)). member_key k" "distinct (jkeys (sm_leaves s))"
    using keys key by (auto simp: s_def t1 dom_update)
  moreover have "jget (path_leaves (sm_leaves s)) k = jget (path_leaves (sm_leaves t)) k" if "k \<noteq> bits m" for k
    using that by (simp add: pl)
  ultimately have "sparse_inv H (sparse_recompute H m s) \<and> sm_leaves (sparse_recompute H m s) = sm_leaves s"
    by (intro sparse_recompute_inv [OF inv key]) (simp_all add: s_def t1)
  moreover have "sparse_set H m l t = sparse_recompute H m s" by (simp add: sparse_set_def s_def t1_def Let_def)
  ultimately show ?thesis by (simp add: s_def t1)
qed

lemma sparse_delete_ok:
  assumes inv: "sparse_inv H t" and key: "member_key m"
  shows "sparse_inv H (sparse_delete H m t) \<and> sm_leaves (sparse_delete H m t) = jdelete m (sm_leaves t)"
proof (cases "m \<in> set (jkeys (sm_leaves t))")
  case False
  then show ?thesis using inv by (simp add: sparse_delete_def)
next
  case True
  let ?P = "path_leaves (sm_leaves t)"
  define s where "s = t\<lparr>sm_counts := drop_counts 256 (bits m) (sm_counts t), sm_leaves := jdelete m (sm_leaves t)\<rparr>"
  have keys: "\<forall>k \<in> set (jkeys (sm_leaves t)). member_key k" "distinct (jkeys (sm_leaves t))"
    and cnt: "\<And>p. jget_or 0 (sm_counts t) p = key_count ?P p" using inv by (simp_all add: sparse_inv_def)
  have len: "256 \<le> length (bits m)" "\<And>p. prefix p (bits m) \<Longrightarrow> length p \<le> 256" using bits_path [OF key] by (auto dest: prefix_length_le)
  have mem: "bits m \<in> set (jkeys ?P)" using imageI [OF True, of bits] by (simp only: path_leaves_keys list.set_map)
  have dist: "distinct (jkeys ?P)" unfolding path_leaves_keys by (rule distinct_map [THEN iffD2]) (use keys bits_inject in \<open>auto simp: inj_on_def\<close>)
  have "key_count ?P p \<ge> 1" if "prefix p (bits m)" for p
  proof -
    have "occupied ?P p" using mem that by (force simp: occupied_def list_ex_iff)
    then have "key_count ?P p \<noteq> 0" by (simp add: key_count_pos)
    then show ?thesis by (simp add: key_count_def Suc_le_eq)
  qed
  then have "jget_or 0 (drop_counts 256 (bits m) (sm_counts t)) p = key_count ?P p - (if prefix p (bits m) then 1 else 0)" for p
    using len cnt by (simp add: drop_counts_get)
  moreover have pl: "path_leaves (sm_leaves s) = jdelete (bits m) ?P" using path_leaves_jdelete [OF keys(1) key] by (simp add: s_def)
  ultimately have "jget_or 0 (sm_counts s) p = key_count (path_leaves (sm_leaves s)) p" for p
    using key_count_jdelete [OF dist mem] by (simp add: s_def)
  moreover have "\<forall>k \<in> set (jkeys (sm_leaves s)). member_key k" "distinct (jkeys (sm_leaves s))"
    using keys by (auto simp: s_def distinct_delete)
  moreover have "jget (path_leaves (sm_leaves s)) k = jget ?P k" if "k \<noteq> bits m" for k
    using that by (simp add: pl)
  ultimately have "sparse_inv H (sparse_recompute H m s) \<and> sm_leaves (sparse_recompute H m s) = sm_leaves s"
    by (intro sparse_recompute_inv [OF inv key]) (simp_all add: s_def)
  moreover have "sparse_delete H m t = sparse_recompute H m s" using True by (simp add: sparse_delete_def s_def)
  ultimately show ?thesis by (simp add: s_def)
qed

definition sparse_spec_root :: "sha256 \<Rightarrow> (string, string) jsmap \<Rightarrow> string" where
  "sparse_spec_root H L = (case sparse_tree H (path_leaves L) 256 [] of None \<Rightarrow> ZERO_DIGEST | Some d \<Rightarrow> d)"

lemma sparse_root_spec: "sparse_inv H t \<Longrightarrow> sparse_root t = sparse_spec_root H (sm_leaves t)"
proof -
  assume inv: "sparse_inv H t"
  have "sm_leaves t = [] \<Longrightarrow> sparse_tree H (path_leaves (sm_leaves t)) 256 [] = None"
    by (simp add: subtree_None_iff occupied_def path_leaves_def)
  then show ?thesis using inv
    by (auto simp: sparse_root_def sparse_spec_root_def sparse_inv_def jget_or_def)
qed

interpretation sparse: authenticated_set sparse_empty "\<lambda>m l t. Inr (sparse_set H m l t) :: unit + sparse_merkle"
  "\<lambda>m t. Inr (sparse_delete H m t)" sparse_root "\<lambda>t. map_of (sm_leaves t)" "sparse_inv H" id "sparse_leaf H" member_key
  "\<lambda>_ m l. member_key m" for H
proof
  show "sparse_inv H sparse_empty" by (rule sparse_inv_empty)
  show "map_of (sm_leaves sparse_empty) = Map.empty" by (simp add: sparse_empty_def)
next
  fix t k v
  assume "sparse_inv H t" and "member_key k"
  then show "\<exists>t'. Inr (sparse_set H k v t) = Inr t' \<and> sparse_inv H t' \<and>
    map_of (sm_leaves t') = (map_of (sm_leaves t))(id k \<mapsto> sparse_leaf H k v)"
    using sparse_set_ok [of H t k v] by (simp add: update_conv)
next
  fix t k
  assume "sparse_inv H t" and "member_key k"
  then show "\<exists>t'. Inr (sparse_delete H k t) = Inr t' \<and> sparse_inv H t' \<and>
    map_of (sm_leaves t') = (map_of (sm_leaves t))(id k := None)"
    using sparse_delete_ok [of H t k] by (simp add: delete_conv)
next
  fix s t
  assume "sparse_inv H s" and "sparse_inv H t" and "map_of (sm_leaves s) = map_of (sm_leaves t)"
  then have "map_of (path_leaves (sm_leaves s)) = map_of (path_leaves (sm_leaves t))"
    by (intro path_leaves_cong) (simp_all add: sparse_inv_def)
  then have "sparse_spec_root H (sm_leaves s) = sparse_spec_root H (sm_leaves t)"
    by (simp only: sparse_spec_root_def subtree_cong_map [of "path_leaves (sm_leaves s)"])
  then show "sparse_root s = sparse_root t"
    using \<open>sparse_inv H s\<close> \<open>sparse_inv H t\<close> by (simp add: sparse_root_spec)
qed

section \<open>The properties of the sparse set\<close>

fun sparse_apply :: "sha256 \<Rightarrow> (string, string) set_op \<Rightarrow> sparse_merkle \<Rightarrow> sparse_merkle" where
  "sparse_apply H (Put m l) t = sparse_set H m l t"
| "sparse_apply H (Del m) t = sparse_delete H m t"

lemma sparse_run_fold: "run_ops (\<lambda>m l t. Inr (sparse_set H m l t)) (\<lambda>m t. Inr (sparse_delete H m t)) ops t = (Inr (fold (sparse_apply H) ops t) :: unit + sparse_merkle)"
proof (induction ops arbitrary: t)
  case (Cons op ops)
  then show ?case by (cases op) simp_all
qed simp

abbreviation sparse_spec :: "sha256 \<Rightarrow> (string, string) set_op list \<Rightarrow> (string \<rightharpoonup> string) option" where
  "sparse_spec H ops \<equiv> spec_ops id (sparse_leaf H) member_key (\<lambda>_ m l. member_key m) ops Map.empty"

lemma sparse_histories:
  assumes "sparse_spec H ops = Some c" and "sparse_spec H ops' = Some c"
  shows "map_of (sm_leaves (fold (sparse_apply H) ops sparse_empty)) = c \<and> map_of (sm_leaves (fold (sparse_apply H) ops' sparse_empty)) = c
    \<and> sparse_root (fold (sparse_apply H) ops sparse_empty) = sparse_root (fold (sparse_apply H) ops' sparse_empty)"
  using sparse.histories_agree [OF assms] by (simp add: sparse_run_fold)

text \<open>
  C30.  The root of a \<open>SparseMerkleSet\<close> does not depend on its history: two sequences of \<open>set\<close> and \<open>delete\<close>
  calls on member digests that leave the same abstract contents give sets with these contents and equal roots; in
  particular \<open>verify\<close> with the entries of one insertion sequence accepts every set with the same contents.
\<close>

theorem sparse_histories_agree:
  assumes "sparse_spec H ops = Some c" and "sparse_spec H (map (\<lambda>(m, l). Put m l) entries) = Some c"
  shows "map_of (sm_leaves (fold (sparse_apply H) ops sparse_empty)) = c
    \<and> (sparse_spec H ops' = Some c \<longrightarrow> sparse_root (fold (sparse_apply H) ops sparse_empty) = sparse_root (fold (sparse_apply H) ops' sparse_empty))
    \<and> sparse_verify H entries (fold (sparse_apply H) ops sparse_empty)"
proof -
  have "fold (sparse_apply H) (map (\<lambda>(m, l). Put m l) entries) t = fold (\<lambda>(m, l). sparse_set H m l) entries t" for t
    by (induction entries arbitrary: t) (simp_all add: split_def)
  then show ?thesis using sparse_histories [OF assms] sparse_histories [OF assms(1), of ops'] by (simp add: sparse_verify_def)
qed

definition member_a :: string where
  "member_a = sha_prefix @ sample_a"

definition member_b :: string where
  "member_b = sha_prefix @ sample_b"

lemma member_samples: "member_key member_a" "member_key member_b" "member_a \<noteq> member_b"
  using sample_lower64 by (simp_all add: member_key_def member_a_def member_b_def sha_prefix_def)

theorem sparse_histories_agree_witness:
  "sparse_verify flat_hash [(member_a, sample_b)]
     (fold (sparse_apply flat_hash) [Put member_b sample_a, Put member_a sample_b, Del member_b] sparse_empty)
   \<and> sparse_root (fold (sparse_apply flat_hash) [Put member_b sample_a, Put member_a sample_b, Del member_b] sparse_empty)
     = sparse_root (fold (sparse_apply flat_hash) [Put member_a sample_a, Put member_a sample_b] sparse_empty)"
  using sparse_histories_agree [of flat_hash "[Put member_b sample_a, Put member_a sample_b, Del member_b]" "[member_a \<mapsto> sparse_leaf flat_hash member_a sample_b]"
      "[(member_a, sample_b)]" "[Put member_a sample_a, Put member_a sample_b]"] member_samples
  by (simp add: fun_upd_twist del: fold_simps)

end
