(* ===== verification/Watcher_Events.thy ===== *)
theory Watcher_Events
  imports Urdira_Prelude
begin

text \<open>
  The data and the pure functions of \<open>packages/engine/src/watchers.ts\<close>: the classification and
  normalisation of physical file events, the selection of the watcher backend, the budgeted file
  count, and the routing of a hint batch to the callbacks of \<open>WorkspaceWatcherManager\<close>.  A callback
  is a value of \<open>manager_call\<close>, so a handler is the list of calls it makes.  \<open>toLocaleLowerCase\<close> is the
  parameter \<open>lower\<close>; \<open>process.platform\<close> and \<open>process.env\<close> are arguments.
\<close>

section \<open>Data\<close>

datatype watcher_event_class =
    Presence | Modify | Absence | Exclusion | Overflow | ProviderReset | Administrative
  | GitHead | GitIndex | WorktreeAdministration | ProviderRootTransition

record watcher_binding =
  wb_workspace_id :: string
  wb_source_provider_binding_id :: string
  wb_source_provider :: string
  wb_source_provider_version :: string
  wb_ordering_domain :: string
  wb_root :: string
  wb_case_sensitive :: "bool option"
  wb_mutable_watched :: "bool option"
  wb_authoritative_delete_events :: "bool option"

datatype physical_event_type = Create | Update | Delete

record physical_watcher_event =
  pe_type :: physical_event_type
  pe_path :: string

datatype hint_authority = Hint | AuthoritativeDelete

record watcher_hint =
  wh_workspace_id :: string
  wh_source_provider_binding_id :: string
  wh_source_provider :: string
  wh_source_provider_version :: string
  wh_ordering_domain :: string
  wh_provider_sequence :: string
  wh_event_class :: watcher_event_class
  wh_normalized_uri :: string
  wh_authority :: hint_authority

record watcher_hint_batch =
  hb_workspace_id :: string
  hb_source_provider_binding_id :: string
  hb_source_provider :: string
  hb_source_provider_version :: string
  hb_ordering_domain :: string
  hb_events :: "watcher_hint list"
  hb_watermark :: string

datatype reconcile_reason = BranchChanged | EventsLost | ProviderResetReason | Changed

datatype watcher_error = WatcherPathOutsideRoot | WatcherPathInvalid

section \<open>Paths\<close>

fun collapse_slashes :: "string \<Rightarrow> string" where
  "collapse_slashes [] = []"
| "collapse_slashes [c] = [c]"
| "collapse_slashes (c # d # s) =
     (if c = CHR ''/'' \<and> d = CHR ''/'' then collapse_slashes (d # s) else c # collapse_slashes (d # s))"

definition strip_trailing :: "string \<Rightarrow> string" where
  "strip_trailing s = rev (dropWhile (\<lambda>c. c = CHR ''/'') (rev s))"

definition strip_leading :: "string \<Rightarrow> string" where
  "strip_leading s = dropWhile (\<lambda>c. c = CHR ''/'') s"

definition slashPath :: "string \<Rightarrow> string" where
  "slashPath path =
     (let normalized = collapse_slashes (map (\<lambda>c. if c = CHR 92 then CHR ''/'' else c) path)
      in if length normalized > 1 then strip_trailing normalized else normalized)"

text \<open>\<open>String.prototype.split\<close> on a one-character separator.\<close>

definition normalizedUri :: "(string \<Rightarrow> string) \<Rightarrow> string \<Rightarrow> string \<Rightarrow> bool \<Rightarrow> watcher_error + string" where
  "normalizedUri lower root path caseSensitive =
     (let normalizedRoot = slashPath root;
          normalizedPath = slashPath path;
          comparedRoot = (if caseSensitive then normalizedRoot else lower normalizedRoot);
          comparedPath = (if caseSensitive then normalizedPath else lower normalizedPath)
      in if comparedPath \<noteq> comparedRoot \<and> \<not> prefix (comparedRoot @ ''/'') comparedPath
         then Inl WatcherPathOutsideRoot
         else let uri = strip_trailing (strip_leading (drop (length normalizedRoot) normalizedPath))
              in if list_ex (\<lambda>segment. segment = ''.'' \<or> segment = ''..'') (split_on CHR ''/'' uri)
                 then Inl WatcherPathInvalid
                 else Inr uri)"

definition GIT_PROVIDER :: string where
  "GIT_PROVIDER = ''core:git_worktree_source_provider''"

definition eventClass ::
  "(string \<Rightarrow> string) \<Rightarrow> watcher_binding \<Rightarrow> physical_event_type \<Rightarrow> string \<Rightarrow> watcher_event_class" where
  "eventClass lower binding type uri =
     (let plain = (case type of Create \<Rightarrow> Presence | Delete \<Rightarrow> Absence | Update \<Rightarrow> Modify);
          folded = (wb_case_sensitive binding = Some False);
          compared = (if folded then lower uri else uri)
      in if length uri = 0 then ProviderRootTransition
         else if wb_source_provider binding = GIT_PROVIDER then
           (if compared = (if folded then ''.git/head'' else ''.git/HEAD'') then GitHead
            else if compared = ''.git/index'' then GitIndex
            else if compared = ''.git'' \<or> prefix ''.git/'' compared then WorktreeAdministration
            else plain)
         else plain)"

section \<open>Backend selection\<close>

datatype backend_error_kind = UserDropped | KernelDropped | TooManyEvents | OtherKind

definition watcherBackendErrorKind :: "string \<Rightarrow> backend_error_kind" where
  "watcherBackendErrorKind message =
     (if sublist ''FSEvents client'' message then UserDropped
      else if sublist ''kernel'' message then KernelDropped
      else if sublist ''Too many events'' message then TooManyEvents
      else OtherKind)"

definition KQUEUE_FILE_WATCH_BUDGET :: nat where
  "KQUEUE_FILE_WATCH_BUDGET = 2000"

text \<open>
  A directory tree as \<open>readDirectory\<close> reveals it: \<open>Unreadable\<close> is a directory whose listing throws.
\<close>

datatype dir_tree = Unreadable | Dir "(string \<times> dir_entry) list"
  and dir_entry = File | SubDir dir_tree

definition skipped_name :: "string \<Rightarrow> bool" where
  "skipped_name name \<longleftrightarrow> name = ''.git'' \<or> name = ''node_modules'' \<or> name = ''.urdira''"

text \<open>\<open>walk\<close> returns the running count and whether the walk may go on.\<close>

fun walk :: "nat \<Rightarrow> dir_tree \<Rightarrow> nat \<Rightarrow> nat \<times> bool"
  and walk_entries :: "nat \<Rightarrow> (string \<times> dir_entry) list \<Rightarrow> nat \<Rightarrow> nat \<times> bool" where
  "walk budget Unreadable n = (n, True)"
| "walk budget (Dir entries) n = walk_entries budget entries n"
| "walk_entries budget [] n = (n, True)"
| "walk_entries budget ((name, SubDir t) # es) n =
     (if skipped_name name then walk_entries budget es n
      else (case walk budget t n of (c, go) \<Rightarrow> if \<not> go then (c, False) else walk_entries budget es c))"
| "walk_entries budget ((name, File) # es) n =
     (if skipped_name name then walk_entries budget es n
      else if n + 1 > budget then (n + 1, False) else walk_entries budget es (n + 1))"

record file_count_estimate =
  fc_count :: nat
  fc_over_budget :: bool

definition countFilesUpToBudget :: "dir_tree \<Rightarrow> nat \<Rightarrow> file_count_estimate" where
  "countFilesUpToBudget root budget =
     (case walk budget root 0 of (n, withinBudget) \<Rightarrow> \<lparr>fc_count = n, fc_over_budget = \<not> withinBudget\<rparr>)"

definition DEFAULT_EXCLUDE :: "string list" where
  "DEFAULT_EXCLUDE = [''node_modules/**'', ''.git/**'', ''dist/**'', ''coverage/**'', ''test-results/**'',
     ''tests/baselines/**'', ''tests/cases/**'', ''.urdira/**'']"

record watcher_options =
  wo_ignore :: "string list"
  wo_kqueue :: bool

definition watcherOptionsForSourceProvider ::
  "string \<Rightarrow> string option \<Rightarrow> string \<Rightarrow> file_count_estimate option \<Rightarrow> watcher_options" where
  "watcherOptionsForSourceProvider platform forcedBackend sourceProvider fileCountEstimate =
     (let excludedGlobs = filter (\<lambda>pattern. sourceProvider \<noteq> GIT_PROVIDER \<or> pattern \<noteq> ''.git/**'') DEFAULT_EXCLUDE;
          excludedPaths = map (\<lambda>pattern. if suffix ''/**'' pattern then take (length pattern - 3) pattern else pattern) excludedGlobs;
          overFdBudget = (case fileCountEstimate of None \<Rightarrow> False | Some e \<Rightarrow> fc_over_budget e)
      in \<lparr>wo_ignore = js_uniq (excludedPaths @ excludedGlobs),
          wo_kqueue = (platform = ''darwin'' \<and> forcedBackend \<noteq> Some ''fs-events'' \<and> \<not> overFdBudget)\<rparr>)"

section \<open>Routing a batch\<close>

datatype manager_call =
    OnBatch watcher_hint_batch
  | OnConfigurationChange string
  | OnReconcile string "string list option" reconcile_reason "watcher_hint list option"

definition unsafeReason :: "watcher_hint_batch \<Rightarrow> reconcile_reason option" where
  "unsafeReason batch =
     (let classes = map wh_event_class (hb_events batch)
      in if list_ex (\<lambda>c. c = GitHead \<or> c = GitIndex \<or> c = WorktreeAdministration) classes then Some BranchChanged
         else if list_ex (\<lambda>c. c = Overflow) classes then Some EventsLost
         else if list_ex (\<lambda>c. c = ProviderReset \<or> c = ProviderRootTransition) classes then Some ProviderResetReason
         else None)"

definition is_authoritative_delete :: "watcher_hint \<Rightarrow> bool" where
  "is_authoritative_delete e \<longleftrightarrow> wh_authority e = AuthoritativeDelete \<and> wh_event_class e = Absence"

definition git_uri :: "string \<Rightarrow> bool" where
  "git_uri uri \<longleftrightarrow> uri = ''.git'' \<or> prefix ''.git/'' uri"

definition authoritativeDeletes :: "watcher_hint_batch \<Rightarrow> watcher_hint list" where
  "authoritativeDeletes batch = filter is_authoritative_delete (hb_events batch)"

definition deletedUris :: "watcher_hint_batch \<Rightarrow> string list" where
  "deletedUris batch = map wh_normalized_uri (authoritativeDeletes batch)"

definition changedUris :: "watcher_hint_batch \<Rightarrow> string list" where
  "changedUris batch =
     js_uniq (filter (\<lambda>uri. length uri > 0 \<and> \<not> git_uri uri)
       (map wh_normalized_uri
         (filter (\<lambda>e. \<not> is_authoritative_delete e
             \<and> \<not> (wh_normalized_uri e \<in> set (deletedUris batch) \<and> wh_event_class e = Modify)) (hb_events batch))))"

definition reconcile_calls :: "string \<Rightarrow> watcher_hint_batch \<Rightarrow> manager_call list" where
  "reconcile_calls workspaceId batch =
     (case unsafeReason batch of
        Some reason \<Rightarrow> [OnReconcile workspaceId None reason None]
      | None \<Rightarrow>
          let deletes = authoritativeDeletes batch;
              samePathRecreates = filter (\<lambda>uri. uri \<in> set (deletedUris batch)) (changedUris batch);
              combinableUris = filter (\<lambda>uri. uri \<notin> set (deletedUris batch)) (changedUris batch)
          in (if length deletes > 0 \<or> length combinableUris > 0
              then [OnReconcile workspaceId (Some combinableUris) Changed (Some deletes)] else [])
           @ (if length samePathRecreates > 0
              then [OnReconcile workspaceId (Some samePathRecreates) Changed None] else []))"

definition route_batch :: "string \<Rightarrow> watcher_hint_batch \<Rightarrow> manager_call list" where
  "route_batch workspaceId batch =
     OnBatch batch #
     (if list_ex (\<lambda>e. wh_normalized_uri e = ''.urdira/config.json'') (hb_events batch)
      then [OnConfigurationChange workspaceId] else [])
     @ reconcile_calls workspaceId batch"

text \<open>The awaited calls of one delivery: a rejected call (\<open>rejects\<close>) ends the delivery.\<close>

fun run_calls :: "(manager_call \<Rightarrow> bool) \<Rightarrow> manager_call list \<Rightarrow> manager_call list" where
  "run_calls rejects [] = []"
| "run_calls rejects (c # cs) = c # (if rejects c then [] else run_calls rejects cs)"

section \<open>Normalised paths\<close>

abbreviation no_double_slash :: "string \<Rightarrow> bool" where
  "no_double_slash \<equiv> successively (\<lambda>c d. \<not> (c = CHR ''/'' \<and> d = CHR ''/''))"

definition clean_path :: "string \<Rightarrow> bool" where
  "clean_path s \<longleftrightarrow> CHR 92 \<notin> set s \<and> no_double_slash s \<and> (length s > 1 \<longrightarrow> last s \<noteq> CHR ''/'')"

lemma collapse_slashes_Nil [simp]: "collapse_slashes s = [] \<longleftrightarrow> s = []"
  by (induction s rule: collapse_slashes.induct) auto

lemma hd_collapse_slashes: "hd (collapse_slashes s) = hd s"
  by (induction s rule: collapse_slashes.induct) auto

lemma collapse_slashes_no_double: "no_double_slash (collapse_slashes s)"
  by (induction s rule: collapse_slashes.induct) (auto simp: successively_Cons hd_collapse_slashes)

lemma collapse_slashes_id: "no_double_slash s \<Longrightarrow> collapse_slashes s = s"
  by (induction s rule: collapse_slashes.induct) auto

lemma set_collapse_slashes: "set (collapse_slashes s) = set s"
  by (induction s rule: collapse_slashes.induct) auto

lemma strip_trailing_id: "s = [] \<or> last s \<noteq> CHR ''/'' \<Longrightarrow> strip_trailing s = s"
  by (cases s rule: rev_cases) (auto simp: strip_trailing_def)

lemma strip_trailing_split: "\<exists>t. s = strip_trailing s @ t"
  unfolding strip_trailing_def by (metis rev_append rev_rev_ident takeWhile_dropWhile_id)

lemma last_strip_trailing: "strip_trailing s \<noteq> [] \<Longrightarrow> last (strip_trailing s) \<noteq> CHR ''/''"
  unfolding strip_trailing_def by (metis (mono_tags, lifting) hd_dropWhile last_rev rev_is_Nil_conv)

lemma clean_slashPath: "clean_path (slashPath s)"
proof -
  let ?m = "map (\<lambda>c. if c = CHR 92 then CHR ''/'' else c) s"
  let ?n = "collapse_slashes ?m"
  have n: "CHR 92 \<notin> set ?n" by (auto simp: set_collapse_slashes)
  have nd: "no_double_slash ?n" by (rule collapse_slashes_no_double)
  obtain t where t: "?n = strip_trailing ?n @ t" using strip_trailing_split by blast
  have "no_double_slash (strip_trailing ?n @ t)" using nd t by simp
  then have "no_double_slash (strip_trailing ?n)" by (simp only: successively_append_iff)
  moreover have "CHR 92 \<notin> set (strip_trailing ?n)" using n by (auto simp: strip_trailing_def dest: set_dropWhileD)
  moreover have "length (strip_trailing ?n) > 1 \<longrightarrow> last (strip_trailing ?n) \<noteq> CHR ''/''"
    using last_strip_trailing by force
  ultimately show ?thesis using n nd by (auto simp: slashPath_def clean_path_def Let_def)
qed

lemma slashPath_id: "clean_path s \<Longrightarrow> slashPath s = s"
proof -
  assume c: "clean_path s"
  then have "map (\<lambda>c. if c = CHR 92 then CHR ''/'' else c) s = s"
    by (intro map_idI) (auto simp: clean_path_def)
  then show ?thesis using c by (auto simp: slashPath_def clean_path_def collapse_slashes_id strip_trailing_id)
qed

lemma slashPath_nonempty: "s \<noteq> [] \<Longrightarrow> slashPath s \<noteq> []"
proof -
  assume "s \<noteq> []"
  let ?n = "collapse_slashes (map (\<lambda>c. if c = CHR 92 then CHR ''/'' else c) s)"
  have ne: "?n \<noteq> []" using \<open>s \<noteq> []\<close> by simp
  have nd: "no_double_slash ?n" by (rule collapse_slashes_no_double)
  have "strip_trailing ?n \<noteq> []" if len: "length ?n > 1"
  proof
    assume "strip_trailing ?n = []"
    then have "\<forall>c \<in> set ?n. c = CHR ''/''" by (auto simp: strip_trailing_def)
    moreover obtain a b r where "?n = a # b # r" using len by (cases ?n; cases "tl ?n") auto
    ultimately show False using nd by auto
  qed
  then show ?thesis using ne by (simp add: slashPath_def Let_def)
qed

lemma split_on_segments:
  "no_double_slash s \<Longrightarrow> s \<noteq> [] \<Longrightarrow> hd s \<noteq> CHR ''/'' \<Longrightarrow> last s \<noteq> CHR ''/'' \<Longrightarrow> [] \<notin> set (split_on CHR ''/'' s)"
proof (induction s rule: length_induct)
  case (1 s)
  then obtain c r where s: "s = c # r" "c \<noteq> CHR ''/''" by (cases s) auto
  show ?case
  proof (cases r)
    case Nil
    then show ?thesis using s by simp
  next
    case r: (Cons d t)
    show ?thesis
    proof (cases "d = CHR ''/''")
      case True
      then have "t \<noteq> []" "hd t \<noteq> CHR ''/''" "no_double_slash t" "last t \<noteq> CHR ''/''"
        using 1 s r by (cases t; auto)+
      moreover have "length t < length s" using s r by simp
      ultimately have "[] \<notin> set (split_on CHR ''/'' t)" using 1(1) by blast
      then show ?thesis using True s r by auto
    next
      case False
      have "no_double_slash r" "r \<noteq> []" "hd r \<noteq> CHR ''/''" "last r \<noteq> CHR ''/''"
        using 1(2-) s r False by simp_all
      moreover have "length r < length s" using s by simp
      ultimately have "[] \<notin> set (split_on CHR ''/'' r)" using 1(1) by blast
      then show ?thesis using s by (auto split: list.splits)
    qed
  qed
qed

definition uri_ok :: "string \<Rightarrow> bool" where
  "uri_ok uri \<longleftrightarrow> list_all (\<lambda>w. w \<noteq> [] \<and> w \<noteq> ''.'' \<and> w \<noteq> ''..'') (split_on CHR ''/'' uri)"

lemma below_root:
  assumes "slashPath path = r @ ''/'' @ rest" and "r \<noteq> []"
  shows "rest \<noteq> []" "no_double_slash rest" "hd rest \<noteq> CHR ''/''" "last rest \<noteq> CHR ''/''"
    and "strip_trailing (strip_leading (drop (length r) (slashPath path))) = rest"
proof -
  have c: "clean_path (r @ ''/'' @ rest)" using clean_slashPath [of path] assms(1) by simp
  have "last (r @ ''/'' @ rest) \<noteq> CHR ''/''" using c assms(2) by (cases r) (auto simp: clean_path_def)
  then show ne: "rest \<noteq> []" and l: "last rest \<noteq> CHR ''/''" by (auto split: if_splits)
  have "no_double_slash (r @ ''/'' @ rest)" using c by (simp only: clean_path_def)
  then have "no_double_slash (''/'' @ rest)" by (simp only: successively_append_iff)
  then show nd: "no_double_slash rest" and h: "hd rest \<noteq> CHR ''/''" using ne by (cases rest; simp)+
  show "strip_trailing (strip_leading (drop (length r) (slashPath path))) = rest"
    using assms(1) ne h l by (cases rest) (auto simp: strip_leading_def strip_trailing_id)
qed

lemma normalizedUri_cases:
  assumes "root \<noteq> []"
  shows "normalizedUri lower root path True =
    (if slashPath path = slashPath root then Inr []
     else if prefix (slashPath root @ ''/'') (slashPath path)
     then (let uri = drop (length (slashPath root) + 1) (slashPath path) in if uri_ok uri then Inr uri else Inl WatcherPathInvalid)
     else Inl WatcherPathOutsideRoot)"
proof -
  let ?r = "slashPath root" and ?p = "slashPath path"
  have r: "?r \<noteq> []" using assms by (rule slashPath_nonempty)
  consider "?p = ?r" | "?p \<noteq> ?r" "\<not> prefix (?r @ ''/'') ?p" | rest where "?p = ?r @ ''/'' @ rest"
    by (auto simp: prefix_def)
  then show ?thesis
  proof cases
    case 1
    then show ?thesis by (simp add: normalizedUri_def strip_leading_def strip_trailing_def)
  next
    case 2
    then show ?thesis by (simp add: normalizedUri_def)
  next
    case 3
    note b = below_root [OF 3 r]
    have "[] \<notin> set (split_on CHR ''/'' rest)" using b split_on_segments by blast
    then have ok: "uri_ok rest \<longleftrightarrow> \<not> list_ex (\<lambda>segment. segment = ''.'' \<or> segment = ''..'') (split_on CHR ''/'' rest)"
      by (auto simp: uri_ok_def list_all_iff list_ex_iff)
    have "drop (length ?r + 1) ?p = rest" "prefix (?r @ ''/'') ?p" "?p \<noteq> ?r" using 3 by simp_all
    then show ?thesis using b(5) ok by (auto simp: normalizedUri_def Let_def)
  qed
qed

section \<open>The properties of watcher events\<close>

text \<open>
  With case-sensitive paths \<open>normalizedUri\<close> accepts exactly the root itself (as the empty URI) and the
  paths that lie, after normalisation, strictly below the root through non-empty segments other than
  \<open>.\<close> and \<open>..\<close>; the URI is then the path relative to the root.
\<close>

theorem normalizedUri_spec:
  assumes "root \<noteq> []"
  shows "normalizedUri lower root path True = Inr uri \<longleftrightarrow>
    slashPath path = slashPath root \<and> uri = [] \<or>
    slashPath path = slashPath root @ ''/'' @ uri \<and> uri_ok uri"
proof
  assume "normalizedUri lower root path True = Inr uri"
  then show "slashPath path = slashPath root \<and> uri = [] \<or> slashPath path = slashPath root @ ''/'' @ uri \<and> uri_ok uri"
    by (auto simp: normalizedUri_cases [OF assms] Let_def prefix_def split: if_splits)
next
  assume "slashPath path = slashPath root \<and> uri = [] \<or> slashPath path = slashPath root @ ''/'' @ uri \<and> uri_ok uri"
  then show "normalizedUri lower root path True = Inr uri"
    by (auto simp: normalizedUri_cases [OF assms] Let_def)
qed

theorem normalizedUri_spec_witness:
  "normalizedUri id ''/repo/'' ''/repo//src/a.ts/'' True = Inr ''src/a.ts'' \<longleftrightarrow>
    slashPath ''/repo//src/a.ts/'' = slashPath ''/repo/'' \<and> ''src/a.ts'' = [] \<or>
    slashPath ''/repo//src/a.ts/'' = slashPath ''/repo/'' @ ''/'' @ ''src/a.ts'' \<and> uri_ok ''src/a.ts''"
  by (rule normalizedUri_spec) simp

text \<open>
  A watcher bound to the file-system root \<open>/\<close> rejects every event below it: the containment test looks for
  the prefix \<open>//\<close>, which no normalised path has.
\<close>

theorem normalizedUri_filesystem_root:
  "normalizedUri lower ''/'' path True = (if slashPath path = ''/'' then Inr [] else Inl WatcherPathOutsideRoot)"
proof -
  have "\<not> prefix ''//'' (slashPath path)"
    using clean_slashPath [of path] by (auto simp: clean_path_def prefix_def)
  moreover have "slashPath ''/'' = ''/''" by (simp add: slashPath_def)
  ultimately show ?thesis by (simp add: normalizedUri_cases)
qed

text \<open>Every file the walk would count.\<close>

fun eligible :: "dir_tree \<Rightarrow> nat" and eligible_entries :: "(string \<times> dir_entry) list \<Rightarrow> nat" where
  "eligible Unreadable = 0"
| "eligible (Dir es) = eligible_entries es"
| "eligible_entries [] = 0"
| "eligible_entries ((name, SubDir t) # es) = (if skipped_name name then 0 else eligible t) + eligible_entries es"
| "eligible_entries ((name, File) # es) = (if skipped_name name then 0 else 1) + eligible_entries es"

lemma walk_spec:
  "n \<le> budget \<Longrightarrow> walk budget t n = (if n + eligible t \<le> budget then (n + eligible t, True) else (budget + 1, False))"
  "n \<le> budget \<Longrightarrow> walk_entries budget es n =
     (if n + eligible_entries es \<le> budget then (n + eligible_entries es, True) else (budget + 1, False))"
  by (induction budget t n and budget es n rule: walk_walk_entries.induct) auto

text \<open>
  \<open>countFilesUpToBudget\<close> is exact up to the budget: it reports \<open>over_budget\<close> exactly when the tree holds more
  eligible files than the budget, with the exact count below it and \<open>budget + 1\<close> above it.
\<close>

theorem countFilesUpToBudget_spec:
  "countFilesUpToBudget root budget =
     \<lparr>fc_count = min (eligible root) (budget + 1), fc_over_budget = (eligible root > budget)\<rparr>"
  using walk_spec(1) [of 0 budget root] by (simp add: countFilesUpToBudget_def)

text \<open>What one reconcile call covers: its changed URIs and its authoritative deletes.\<close>

fun call_changed :: "manager_call \<Rightarrow> string set" where
  "call_changed (OnReconcile ws (Some uris) r d) = set uris"
| "call_changed _ = {}"

fun call_deleted :: "manager_call \<Rightarrow> string set" where
  "call_deleted (OnReconcile ws u r (Some ds)) = wh_normalized_uri ` set ds"
| "call_deleted _ = {}"

lemma set_changedUris:
  "u \<in> set (changedUris b) \<longleftrightarrow> u \<noteq> [] \<and> \<not> git_uri u \<and>
     (\<exists>e \<in> set (hb_events b). wh_normalized_uri e = u \<and> \<not> is_authoritative_delete e
        \<and> \<not> (u \<in> set (deletedUris b) \<and> wh_event_class e = Modify))"
  by (auto simp: changedUris_def)

lemma deleted_event: "e \<in> set (hb_events b) \<Longrightarrow> is_authoritative_delete e \<Longrightarrow> e \<in> set (authoritativeDeletes b)"
  by (simp add: authoritativeDeletes_def)

definition delete_call :: "string \<Rightarrow> watcher_hint_batch \<Rightarrow> manager_call" where
  "delete_call ws b = OnReconcile ws (Some (filter (\<lambda>uri. uri \<notin> set (deletedUris b)) (changedUris b))) Changed (Some (authoritativeDeletes b))"

definition recreate_call :: "string \<Rightarrow> watcher_hint_batch \<Rightarrow> manager_call" where
  "recreate_call ws b = OnReconcile ws (Some (filter (\<lambda>uri. uri \<in> set (deletedUris b)) (changedUris b))) Changed None"

lemma reconcile_calls_safe:
  "unsafeReason b = None \<Longrightarrow> reconcile_calls ws b =
     (if set (deletedUris b) \<noteq> {} \<or> \<not> set (changedUris b) \<subseteq> set (deletedUris b) then [delete_call ws b] else [])
   @ (if set (changedUris b) \<inter> set (deletedUris b) \<noteq> {} then [recreate_call ws b] else [])"
proof -
  assume "unsafeReason b = None"
  moreover have "authoritativeDeletes b \<noteq> [] \<longleftrightarrow> set (deletedUris b) \<noteq> {}" by (simp add: deletedUris_def)
  moreover have "filter (\<lambda>uri. uri \<notin> set (deletedUris b)) (changedUris b) \<noteq> [] \<longleftrightarrow> \<not> set (changedUris b) \<subseteq> set (deletedUris b)"
    by (auto simp: filter_empty_conv)
  moreover have "filter (\<lambda>uri. uri \<in> set (deletedUris b)) (changedUris b) \<noteq> [] \<longleftrightarrow> set (changedUris b) \<inter> set (deletedUris b) \<noteq> {}"
    by (auto simp: filter_empty_conv)
  ultimately show ?thesis by (simp only: reconcile_calls_def Let_def delete_call_def recreate_call_def option.case length_greater_0_conv)
qed

lemma call_sets [simp]:
  "call_deleted (delete_call ws b) = set (deletedUris b)" "call_deleted (recreate_call ws b) = {}"
  "call_changed (delete_call ws b) = set (changedUris b) - set (deletedUris b)"
  "call_changed (recreate_call ws b) = set (changedUris b) \<inter> set (deletedUris b)"
  by (auto simp: delete_call_def recreate_call_def deletedUris_def)

lemma safe_calls:
  assumes "unsafeReason b = None"
  shows "u \<in> set (deletedUris b) \<Longrightarrow> \<exists>c \<in> set (reconcile_calls ws b). u \<in> call_deleted c"
    and "u \<in> set (changedUris b) \<Longrightarrow> \<exists>c \<in> set (reconcile_calls ws b). u \<in> call_changed c"
proof -
  show "\<exists>c \<in> set (reconcile_calls ws b). u \<in> call_deleted c" if "u \<in> set (deletedUris b)"
  proof
    show "u \<in> call_deleted (delete_call ws b)" using that by simp
    show "delete_call ws b \<in> set (reconcile_calls ws b)" using that by (auto simp: reconcile_calls_safe [OF assms])
  qed
  show "\<exists>c \<in> set (reconcile_calls ws b). u \<in> call_changed c" if "u \<in> set (changedUris b)"
  proof
    let ?c = "if u \<in> set (deletedUris b) then recreate_call ws b else delete_call ws b"
    show "u \<in> call_changed ?c" using that by simp
    show "?c \<in> set (reconcile_calls ws b)" using that by (auto simp: reconcile_calls_safe [OF assms])
  qed
qed

text \<open>
  C40.  Routing loses no change: in a batch without an unsafe event, the URI of every event that is not under
  \<open>.git\<close> and not the root reaches \<open>on_reconcile\<close>, as a changed URI or as an authoritative delete; and an event that
  is not a stale modification of a deleted path reaches it as what it is.
\<close>

theorem routing_covers:
  assumes "unsafeReason b = None" and "e \<in> set (hb_events b)"
    and "wh_normalized_uri e \<noteq> []" and "\<not> git_uri (wh_normalized_uri e)"
  shows "\<exists>c \<in> set (route_batch ws b).
    if is_authoritative_delete e \<or> wh_normalized_uri e \<in> set (deletedUris b) \<and> wh_event_class e = Modify
    then wh_normalized_uri e \<in> call_deleted c else wh_normalized_uri e \<in> call_changed c"
proof (cases "is_authoritative_delete e \<or> wh_normalized_uri e \<in> set (deletedUris b) \<and> wh_event_class e = Modify")
  case True
  then have "wh_normalized_uri e \<in> set (deletedUris b)"
    using assms(2) deleted_event by (auto simp: deletedUris_def)
  then show ?thesis using safe_calls(1) [OF assms(1)] True by (fastforce simp: route_batch_def)
next
  case False
  then have "wh_normalized_uri e \<in> set (changedUris b)"
    unfolding set_changedUris using assms by blast
  then show ?thesis using safe_calls(2) [OF assms(1)] False by (fastforce simp: route_batch_def)
qed

definition sample_hint :: "watcher_event_class \<Rightarrow> string \<Rightarrow> hint_authority \<Rightarrow> watcher_hint" where
  "sample_hint c uri a = \<lparr>wh_workspace_id = ''w'', wh_source_provider_binding_id = ''b'', wh_source_provider = ''p'',
     wh_source_provider_version = ''1'', wh_ordering_domain = ''d'', wh_provider_sequence = ''1'', wh_event_class = c,
     wh_normalized_uri = uri, wh_authority = a\<rparr>"

definition sample_batch :: "watcher_hint list \<Rightarrow> watcher_hint_batch" where
  "sample_batch es = \<lparr>hb_workspace_id = ''w'', hb_source_provider_binding_id = ''b'', hb_source_provider = ''p'',
     hb_source_provider_version = ''1'', hb_ordering_domain = ''d'', hb_events = es, hb_watermark = ''1''\<rparr>"

lemmas sample_defs = sample_hint_def sample_batch_def unsafeReason_def git_uri_def is_authoritative_delete_def
  deletedUris_def authoritativeDeletes_def

theorem routing_covers_witness:
  "\<exists>c \<in> set (route_batch ''w'' (sample_batch [sample_hint Absence ''a'' AuthoritativeDelete, sample_hint Modify ''b'' Hint])).
    if is_authoritative_delete (sample_hint Modify ''b'' Hint) \<or> wh_normalized_uri (sample_hint Modify ''b'' Hint)
        \<in> set (deletedUris (sample_batch [sample_hint Absence ''a'' AuthoritativeDelete, sample_hint Modify ''b'' Hint]))
        \<and> wh_event_class (sample_hint Modify ''b'' Hint) = Modify
    then wh_normalized_uri (sample_hint Modify ''b'' Hint) \<in> call_deleted c
    else wh_normalized_uri (sample_hint Modify ''b'' Hint) \<in> call_changed c"
  by (rule routing_covers) (simp_all add: sample_defs)

text \<open>
  No reconcile call is ambiguous: within one call of \<open>on_reconcile\<close> the changed URIs are distinct, none of
  them is empty or under \<open>.git\<close>, and none is also deleted by that call.  A path that is deleted and
  recreated in one batch is deleted by the first call and changed by the second.
\<close>

theorem routing_separates:
  "list_all (\<lambda>c. call_changed c \<inter> call_deleted c = {} \<and> [] \<notin> call_changed c \<and> \<not> Bex (call_changed c) git_uri) (route_batch ws b)
   \<and> (if unsafeReason b = None \<and> u \<in> set (changedUris b) \<and> u \<in> set (deletedUris b)
      then \<exists>c1 c2. reconcile_calls ws b = [c1, c2] \<and> u \<in> call_deleted c1 \<and> u \<notin> call_changed c1 \<and> u \<in> call_changed c2
      else True)"
proof (intro conjI)
  have "[] \<notin> set (changedUris b)" "\<not> Bex (set (changedUris b)) git_uri" by (auto simp: set_changedUris)
  then show "list_all (\<lambda>c. call_changed c \<inter> call_deleted c = {} \<and> [] \<notin> call_changed c \<and> \<not> Bex (call_changed c) git_uri) (route_batch ws b)"
    by (cases "unsafeReason b") (auto simp: route_batch_def reconcile_calls_safe, auto simp: reconcile_calls_def)
  show "if unsafeReason b = None \<and> u \<in> set (changedUris b) \<and> u \<in> set (deletedUris b)
      then \<exists>c1 c2. reconcile_calls ws b = [c1, c2] \<and> u \<in> call_deleted c1 \<and> u \<notin> call_changed c1 \<and> u \<in> call_changed c2
      else True"
    by (auto simp: reconcile_calls_safe)
qed

text \<open>
  The exclusion of \<open>.git\<close> does not extend to authoritative deletes: an authoritative delete of any path,
  one under \<open>.git\<close> included, in a batch without an unsafe event always causes a reconcile call that carries it.
\<close>

theorem routing_git_deletes:
  assumes "unsafeReason b = None" and "e \<in> set (hb_events b)" and "is_authoritative_delete e"
  shows "\<exists>uris ds. OnReconcile ws (Some uris) Changed (Some ds) \<in> set (route_batch ws b) \<and> e \<in> set ds"
proof -
  have "e \<in> set (authoritativeDeletes b)" using assms(2,3) by (rule deleted_event)
  moreover from this have "authoritativeDeletes b \<noteq> []" by auto
  ultimately show ?thesis using assms(1) by (auto simp: route_batch_def reconcile_calls_def Let_def)
qed

theorem routing_git_deletes_witness:
  "\<exists>uris ds. OnReconcile ''w'' (Some uris) Changed (Some ds)
      \<in> set (route_batch ''w'' (sample_batch [sample_hint Absence ''.git/packed-refs.lock'' AuthoritativeDelete]))
    \<and> sample_hint Absence ''.git/packed-refs.lock'' AuthoritativeDelete \<in> set ds"
  by (rule routing_git_deletes) (simp_all add: sample_defs)

end
