(* ===== verification/Watcher_Adapter.thy ===== *)
theory Watcher_Adapter
  imports Watcher_Events
begin

text \<open>
  \<open>ParcelWatcherAdapter\<close> and \<open>DeterministicFakeWatcher\<close> of \<open>packages/engine/src/watchers.ts\<close>.  The adapter's
  \<open>subscribe\<close> closure is a machine: its local variables and the fields it shares with the class are the
  record \<open>adapter\<close>, and each point where control comes back to it (a backend callback, the settling of a
  backend call, the end of a delay, \<open>unsubscribe\<close>) is a label of \<open>adapter_label\<close>.  \<open>adapter_react\<close> is the reaction to
  a label, None when the label cannot occur.  A backend subscription is named by the generation that
  \<open>arm\<close> gave it.
\<close>

section \<open>Hints and batches\<close>

definition adapter_hint :: "watcher_binding \<Rightarrow> watcher_event_class \<Rightarrow> string \<Rightarrow> nat \<Rightarrow> watcher_hint" where
  "adapter_hint b kind uri seq =
     \<lparr>wh_workspace_id = wb_workspace_id b,
      wh_source_provider_binding_id = wb_source_provider_binding_id b,
      wh_source_provider = wb_source_provider b,
      wh_source_provider_version = wb_source_provider_version b,
      wh_ordering_domain = wb_ordering_domain b,
      wh_provider_sequence = nat_str (seq + 1),
      wh_event_class = kind,
      wh_normalized_uri = uri,
      wh_authority = (if kind = Absence \<and> wb_authoritative_delete_events b = Some True then AuthoritativeDelete else Hint)\<rparr>"

definition adapter_batch :: "watcher_binding \<Rightarrow> watcher_hint list \<Rightarrow> nat \<Rightarrow> watcher_hint_batch" where
  "adapter_batch b events seq =
     \<lparr>hb_workspace_id = wb_workspace_id b,
      hb_source_provider_binding_id = wb_source_provider_binding_id b,
      hb_source_provider = wb_source_provider b,
      hb_source_provider_version = wb_source_provider_version b,
      hb_ordering_domain = wb_ordering_domain b,
      hb_events = events,
      hb_watermark = (if events = [] then nat_str seq else wh_provider_sequence (last events))\<rparr>"

text \<open>
  \<open>normalize_events\<close> numbers the hints as it goes; the sequence numbers spent before an event that throws
  stay spent.
\<close>

record adapter_env =
  ae_binding :: watcher_binding
  ae_lower :: "string \<Rightarrow> string"
  ae_win32 :: bool
  ae_rearm_delay_ms :: nat

definition env_case_sensitive :: "adapter_env \<Rightarrow> bool" where
  "env_case_sensitive env = (case wb_case_sensitive (ae_binding env) of Some c \<Rightarrow> c | None \<Rightarrow> \<not> ae_win32 env)"

fun hint_events :: "adapter_env \<Rightarrow> physical_watcher_event list \<Rightarrow> nat \<Rightarrow> nat \<times> (watcher_error + watcher_hint list)" where
  "hint_events env [] seq = (seq, Inr [])"
| "hint_events env (e # es) seq =
     (case normalizedUri (ae_lower env) (wb_root (ae_binding env)) (pe_path e) (env_case_sensitive env) of
        Inl err \<Rightarrow> (seq, Inl err)
      | Inr uri \<Rightarrow>
          let hint = adapter_hint (ae_binding env) (eventClass (ae_lower env) (ae_binding env) (pe_type e) uri) uri seq
          in case hint_events env es (seq + 1) of (seq', r) \<Rightarrow> (seq', res_bind r (\<lambda>hs. Inr (hint # hs))))"

definition normalize_events ::
  "adapter_env \<Rightarrow> physical_watcher_event list \<Rightarrow> nat \<Rightarrow> nat \<times> (watcher_error + watcher_hint_batch)" where
  "normalize_events env events seq =
     (case hint_events env events seq of
        (seq', r) \<Rightarrow> (seq', res_bind r (\<lambda>hints. Inr (adapter_batch (ae_binding env) hints seq'))))"

section \<open>The adapter\<close>

definition MAX_CONSECUTIVE_REARM_ATTEMPTS :: nat where
  "MAX_CONSECUTIVE_REARM_ATTEMPTS = 5"

definition DEFAULT_REARM_DELAY_MS :: nat where
  "DEFAULT_REARM_DELAY_MS = 100"

definition MAX_REARM_DELAY_MS :: nat where
  "MAX_REARM_DELAY_MS = 2000"

definition rearm_delay_option :: "int option \<Rightarrow> nat" where
  "rearm_delay_option d = (case d of None \<Rightarrow> DEFAULT_REARM_DELAY_MS | Some ms \<Rightarrow> nat (max 0 ms))"

text \<open>Where the re-arm task stands: nothing to do, loading the backend, closing, or waiting.\<close>

datatype rearm_phase = Idle | Importing | Closing nat | Waiting nat

record adapter =
  ad_sequence :: nat
  ad_stopped :: bool
  ad_active :: "nat option"
  ad_consecutiveErrors :: nat
  ad_rearmExhausted :: bool
  ad_activeGeneration :: nat
  ad_phase :: rearm_phase
  ad_issued :: "nat list"
  ad_subscribing :: "nat list"
  ad_open :: "nat list"
  ad_rearmRejected :: bool
  ad_onErrors :: nat
  ad_delivered :: "watcher_hint_batch list"

definition adapter_init :: adapter where
  "adapter_init = \<lparr>ad_sequence = 0, ad_stopped = False, ad_active = None, ad_consecutiveErrors = 0,
     ad_rearmExhausted = False, ad_activeGeneration = 0, ad_phase = Importing, ad_issued = [], ad_subscribing = [],
     ad_open = [], ad_rearmRejected = False, ad_onErrors = 0, ad_delivered = []\<rparr>"

definition adapter_arm :: "adapter \<Rightarrow> adapter" where
  "adapter_arm s =
     (if ad_stopped s \<or> ad_rearmExhausted s then s\<lparr>ad_phase := Idle\<rparr>
      else s\<lparr>ad_activeGeneration := ad_activeGeneration s + 1,
             ad_issued := (ad_activeGeneration s + 1) # ad_issued s,
             ad_subscribing := (ad_activeGeneration s + 1) # ad_subscribing s,
             ad_phase := Idle\<rparr>)"

definition deliver :: "watcher_hint_batch \<Rightarrow> adapter \<Rightarrow> adapter" where
  "deliver batch s = s\<lparr>ad_delivered := ad_delivered s @ [batch]\<rparr>"

text \<open>\<open>#deliver(handler, #batch([#hint("provider_reset", "")]))\<close>.\<close>

definition deliver_reset :: "adapter_env \<Rightarrow> adapter \<Rightarrow> adapter" where
  "deliver_reset env s =
     (let hint = adapter_hint (ae_binding env) ProviderReset [] (ad_sequence s)
      in deliver (adapter_batch (ae_binding env) [hint] (ad_sequence s + 1))
           (s\<lparr>ad_sequence := ad_sequence s + 1\<rparr>))"

definition rearm_delay :: "adapter_env \<Rightarrow> nat \<Rightarrow> nat" where
  "rearm_delay env errors = min MAX_REARM_DELAY_MS (ae_rearm_delay_ms env * 2 ^ (errors - 1))"

definition close_failed :: "adapter \<Rightarrow> adapter" where
  "close_failed s =
     s\<lparr>ad_open := (case ad_active s of None \<Rightarrow> ad_open s | Some g \<Rightarrow> removeAll g (ad_open s)), ad_active := None\<rparr>"

definition callback_error :: "adapter_env \<Rightarrow> adapter \<Rightarrow> adapter" where
  "callback_error env s =
     (if ad_stopped s \<or> ad_rearmExhausted s then s
      else let s = s\<lparr>ad_activeGeneration := ad_activeGeneration s + 1,
                     ad_consecutiveErrors := ad_consecutiveErrors s + 1,
                     ad_onErrors := ad_onErrors s + 1\<rparr>;
               s = close_failed (deliver_reset env s)
           in if ad_consecutiveErrors s \<ge> MAX_CONSECUTIVE_REARM_ATTEMPTS
              then s\<lparr>ad_rearmExhausted := True, ad_phase := Idle\<rparr>
              else s\<lparr>ad_phase := Closing (rearm_delay env (ad_consecutiveErrors s))\<rparr>)"

definition callback_events :: "adapter_env \<Rightarrow> physical_watcher_event list \<Rightarrow> adapter \<Rightarrow> adapter" where
  "callback_events env events s =
     (let s = s\<lparr>ad_consecutiveErrors := 0\<rparr>
      in if events = [] then s
         else case normalize_events env events (ad_sequence s) of
           (seq, Inr batch) \<Rightarrow> deliver batch (s\<lparr>ad_sequence := seq\<rparr>)
         | (seq, Inl err) \<Rightarrow> deliver_reset env (s\<lparr>ad_sequence := seq, ad_onErrors := ad_onErrors s + 1\<rparr>))"

definition subscribe_resolved :: "nat \<Rightarrow> adapter \<Rightarrow> adapter" where
  "subscribe_resolved g s =
     (let s = s\<lparr>ad_subscribing := removeAll g (ad_subscribing s)\<rparr>
      in if ad_stopped s \<or> ad_rearmExhausted s \<or> g \<noteq> ad_activeGeneration s then s
         else s\<lparr>ad_active := Some g, ad_open := g # ad_open s\<rparr>)"

text \<open>
  A rejected re-arm is logged and reported to \<open>on_error\<close> by the maintenance task; the rejection of the first
  arm (generation 1) goes to the caller of \<open>subscribe\<close> instead.
\<close>

definition subscribe_rejected :: "nat \<Rightarrow> adapter \<Rightarrow> adapter" where
  "subscribe_rejected g s =
     s\<lparr>ad_subscribing := removeAll g (ad_subscribing s), ad_rearmRejected := True,
       ad_onErrors := (if g = 1 then ad_onErrors s else ad_onErrors s + 1)\<rparr>"

datatype adapter_label =
    BackendImported
  | CallbackError nat
  | CallbackEvents nat "physical_watcher_event list"
  | SubscribeResolved nat
  | SubscribeRejected nat
  | FailedClosed
  | DelayElapsed
  | Unsubscribe
  | UnsubscribeClose

fun adapter_react :: "adapter_env \<Rightarrow> adapter_label \<Rightarrow> adapter \<Rightarrow> adapter option" where
  "adapter_react env BackendImported s = (if ad_phase s = Importing then Some (adapter_arm s) else None)"
| "adapter_react env (CallbackError g) s =
     (if g \<notin> set (ad_issued s) then None
      else if g \<noteq> ad_activeGeneration s then Some s
      else Some (callback_error env s))"
| "adapter_react env (CallbackEvents g events) s =
     (if g \<notin> set (ad_issued s) then None
      else if g \<noteq> ad_activeGeneration s then Some s
      else Some (callback_events env events s))"
| "adapter_react env (SubscribeResolved g) s =
     (if g \<in> set (ad_subscribing s) then Some (subscribe_resolved g s) else None)"
| "adapter_react env (SubscribeRejected g) s =
     (if g \<in> set (ad_subscribing s) then Some (subscribe_rejected g s) else None)"
| "adapter_react env FailedClosed s =
     (case ad_phase s of
        Closing d \<Rightarrow> Some (if d > 0 then s\<lparr>ad_phase := Waiting d\<rparr> else adapter_arm s)
      | _ \<Rightarrow> None)"
| "adapter_react env DelayElapsed s =
     (case ad_phase s of Waiting d \<Rightarrow> Some (adapter_arm s) | _ \<Rightarrow> None)"
| "adapter_react env Unsubscribe s =
     (if ad_stopped s \<or> ad_phase s = Importing \<or> 1 \<in> set (ad_subscribing s) then None
      else Some (s\<lparr>ad_stopped := True, ad_activeGeneration := ad_activeGeneration s + 1\<rparr>))"
| "adapter_react env UnsubscribeClose s =
     (if ad_stopped s \<and> ad_phase s = Idle
      then Some (s\<lparr>ad_open := (case ad_active s of None \<Rightarrow> ad_open s | Some g \<Rightarrow> removeAll g (ad_open s))\<rparr>)
      else None)"

definition adapter_step :: "adapter_env \<Rightarrow> adapter \<Rightarrow> adapter_label \<Rightarrow> adapter \<Rightarrow> bool" where
  "adapter_step env s l t \<longleftrightarrow> adapter_react env l s = Some t"

section \<open>The invariant of the adapter\<close>

text \<open>Control: who may call back, which subscription is open, how many errors were counted.\<close>

definition adapter_control :: "adapter_env \<Rightarrow> adapter \<Rightarrow> bool" where
  "adapter_control env s \<longleftrightarrow>
     ad_consecutiveErrors s \<le> MAX_CONSECUTIVE_REARM_ATTEMPTS
   \<and> (ad_rearmExhausted s \<longleftrightarrow> ad_consecutiveErrors s = MAX_CONSECUTIVE_REARM_ATTEMPTS)
   \<and> (\<forall>g \<in> set (ad_issued s). g \<le> ad_activeGeneration s)
   \<and> set (ad_subscribing s) \<subseteq> set (ad_issued s)
   \<and> (\<forall>g \<in> set (ad_open s). ad_active s = Some g)
   \<and> distinct (ad_open s)
   \<and> (\<forall>g. ad_active s = Some g \<longrightarrow> g \<in> set (ad_issued s) \<and> (\<not> ad_stopped s \<longrightarrow> g = ad_activeGeneration s) \<and> g \<notin> set (ad_subscribing s))
   \<and> (ad_stopped s \<or> ad_rearmExhausted s \<or> ad_phase s \<noteq> Idle \<longrightarrow> ad_activeGeneration s \<notin> set (ad_issued s))
   \<and> distinct (ad_subscribing s)
   \<and> (ad_rearmExhausted s \<longrightarrow> ad_active s = None)
   \<and> (\<forall>d. ad_phase s = Closing d \<or> ad_phase s = Waiting d \<longrightarrow>
        d = rearm_delay env (ad_consecutiveErrors s) \<and> 0 < ad_consecutiveErrors s)"

text \<open>Progress: a live adapter is armed, arming, or about to arm, unless a re-arm was refused.\<close>

definition adapter_progress :: "adapter \<Rightarrow> bool" where
  "adapter_progress s \<longleftrightarrow>
     ad_stopped s \<or> ad_rearmExhausted s \<or> ad_rearmRejected s \<or> ad_phase s \<noteq> Idle
   \<or> ad_activeGeneration s \<in> set (ad_subscribing s)
   \<or> ad_active s = Some (ad_activeGeneration s) \<and> ad_activeGeneration s \<in> set (ad_open s)"

text \<open>Numbering: the hints delivered so far carry strictly increasing sequence numbers.\<close>

definition hint_numbers :: "watcher_hint_batch list \<Rightarrow> nat list" where
  "hint_numbers bs = map (\<lambda>h. str_nat (wh_provider_sequence h)) (concat (map hb_events bs))"

definition batch_ok :: "watcher_hint_batch \<Rightarrow> bool" where
  "batch_ok b \<longleftrightarrow> hb_events b \<noteq> [] \<and> hb_watermark b = wh_provider_sequence (last (hb_events b))"

definition adapter_numbered :: "adapter \<Rightarrow> bool" where
  "adapter_numbered s \<longleftrightarrow>
     sorted_wrt (<) (hint_numbers (ad_delivered s)) \<and> (\<forall>n \<in> set (hint_numbers (ad_delivered s)). n \<le> ad_sequence s)
   \<and> list_all batch_ok (ad_delivered s)"

lemmas adapter_ops = adapter_arm_def deliver_def deliver_reset_def close_failed_def callback_error_def
  callback_events_def subscribe_resolved_def subscribe_rejected_def Let_def

lemma hint_events_numbers:
  "hint_events env es seq = (seq', Inr hs) \<Longrightarrow>
     map (\<lambda>h. str_nat (wh_provider_sequence h)) hs = [Suc seq..<Suc seq'] \<and> length hs = length es \<and> seq \<le> seq'"
proof (induction env es seq arbitrary: hs seq' rule: hint_events.induct)
  case (1 env seq)
  then show ?case by simp
next
  case (2 env e es seq)
  obtain uri where uri: "normalizedUri (ae_lower env) (wb_root (ae_binding env)) (pe_path e) (env_case_sensitive env) = Inr uri"
    using 2(2) by (auto split: sum.splits)
  obtain hs' where hs': "hint_events env es (seq + 1) = (seq', Inr hs')"
    and hs: "hs = adapter_hint (ae_binding env) (eventClass (ae_lower env) (ae_binding env) (pe_type e) uri) uri seq # hs'"
    using 2(2) uri by (auto simp: Let_def res_bind_Inr_iff split: prod.splits)
  have "map (\<lambda>h. str_nat (wh_provider_sequence h)) hs' = [Suc (seq + 1)..<Suc seq'] \<and> length hs' = length es \<and> seq + 1 \<le> seq'"
    using 2(1) uri hs' by simp
  then show ?case using hs by (auto simp: adapter_hint_def upt_conv_Cons)
qed

lemma hint_events_mono: "fst (hint_events env es seq) \<ge> seq"
proof (induction es arbitrary: seq)
  case (Cons e es)
  have "seq + 1 \<le> fst (hint_events env es (seq + 1))" by (rule Cons.IH)
  then show ?case by (auto simp: Let_def split: sum.splits prod.splits)
qed simp

lemma normalize_events_ok:
  assumes "normalize_events env es seq = (seq', Inr b)" and "es \<noteq> []"
  shows "batch_ok b \<and> map (\<lambda>h. str_nat (wh_provider_sequence h)) (hb_events b) = [Suc seq..<Suc seq'] \<and> seq \<le> seq'"
proof -
  obtain hs where hs: "hint_events env es seq = (seq', Inr hs)" "b = adapter_batch (ae_binding env) hs seq'"
    using assms(1) by (auto simp: normalize_events_def res_bind_Inr_iff split: prod.splits)
  then show ?thesis
    using hint_events_numbers [OF hs(1)] assms(2) by (auto simp: adapter_batch_def batch_ok_def)
qed

text \<open>Appending a batch numbered from the current sequence keeps the numbering.\<close>

lemma numbered_deliver:
  assumes "adapter_numbered s" and "batch_ok b" and "ad_sequence s \<le> seq" and "seq \<le> seq'"
    and "map (\<lambda>h. str_nat (wh_provider_sequence h)) (hb_events b) = [Suc seq..<Suc seq']"
    and "ad_delivered t = ad_delivered s @ [b]" and "ad_sequence t = seq'"
  shows "adapter_numbered t"
proof -
  have "hint_numbers (ad_delivered t) = hint_numbers (ad_delivered s) @ [Suc seq..<Suc seq']"
    using assms(5,6) by (simp add: hint_numbers_def)
  then show ?thesis
    using assms by (fastforce simp: adapter_numbered_def sorted_wrt_append)
qed

lemma numbered_reset:
  assumes "adapter_numbered s" and "ad_sequence s \<le> ad_sequence t" and "ad_delivered t = ad_delivered s"
  shows "adapter_numbered (deliver_reset env t)"
  by (rule numbered_deliver [OF assms(1) _ assms(2), of
        "adapter_batch (ae_binding env) [adapter_hint (ae_binding env) ProviderReset [] (ad_sequence t)] (ad_sequence t + 1)"
        "ad_sequence t + 1"])
     (simp_all add: assms(3) deliver_reset_def deliver_def batch_ok_def adapter_batch_def adapter_hint_def Let_def)

lemma numbered_cong:
  "adapter_numbered s \<Longrightarrow> ad_delivered t = ad_delivered s \<Longrightarrow> ad_sequence t = ad_sequence s \<Longrightarrow> adapter_numbered t"
  by (simp add: adapter_numbered_def)

lemma numbered_error: "adapter_numbered s \<Longrightarrow> adapter_numbered (callback_error env s)"
proof -
  let ?s = "s\<lparr>ad_activeGeneration := ad_activeGeneration s + 1, ad_consecutiveErrors := ad_consecutiveErrors s + 1,
    ad_onErrors := ad_onErrors s + 1\<rparr>"
  assume s: "adapter_numbered s"
  then have "adapter_numbered (deliver_reset env ?s)" by (rule numbered_reset) simp_all
  then show ?thesis
    using s by (auto simp: callback_error_def Let_def close_failed_def adapter_numbered_def)
qed

lemma numbered_events: "adapter_numbered s \<Longrightarrow> adapter_numbered (callback_events env es s)"
proof -
  assume s: "adapter_numbered s"
  obtain seq r where n: "normalize_events env es (ad_sequence s) = (seq, r)" by (cases "normalize_events env es (ad_sequence s)")
  then have mono: "ad_sequence s \<le> seq"
    using hint_events_mono [of "ad_sequence s" env es] by (auto simp: normalize_events_def split: prod.splits)
  show ?thesis
  proof (cases "es = []")
    case True
    then show ?thesis using s by (auto simp: callback_events_def Let_def intro: numbered_cong)
  next
    case False
    show ?thesis
    proof (cases r)
      case (Inl e)
      then show ?thesis using n s False mono by (auto simp: callback_events_def Let_def intro!: numbered_reset)
    next
      case (Inr b)
      note ok = normalize_events_ok [OF n [unfolded Inr] False]
      show ?thesis
        by (rule numbered_deliver [OF s, of b "ad_sequence s" seq]) (use ok n Inr False in \<open>simp_all add: callback_events_def deliver_def Let_def\<close>)
    qed
  qed
qed

lemma numbered_step: "adapter_numbered s \<Longrightarrow> adapter_step env s l t \<Longrightarrow> adapter_numbered t"
  by (cases l)
     (auto simp: adapter_step_def numbered_error numbered_events split: if_splits rearm_phase.splits,
      auto simp: adapter_arm_def subscribe_resolved_def subscribe_rejected_def Let_def intro: numbered_cong)

text \<open>Delivering touches only the numbering and the log.\<close>

lemma deliver_reset_simps [simp]:
  "ad_stopped (deliver_reset env s) = ad_stopped s" "ad_active (deliver_reset env s) = ad_active s"
  "ad_consecutiveErrors (deliver_reset env s) = ad_consecutiveErrors s"
  "ad_rearmExhausted (deliver_reset env s) = ad_rearmExhausted s"
  "ad_activeGeneration (deliver_reset env s) = ad_activeGeneration s" "ad_phase (deliver_reset env s) = ad_phase s"
  "ad_issued (deliver_reset env s) = ad_issued s" "ad_subscribing (deliver_reset env s) = ad_subscribing s"
  "ad_open (deliver_reset env s) = ad_open s" "ad_rearmRejected (deliver_reset env s) = ad_rearmRejected s"
  by (simp_all add: deliver_reset_def deliver_def Let_def)

lemma callback_events_simps [simp]:
  "ad_stopped (callback_events env es s) = ad_stopped s" "ad_active (callback_events env es s) = ad_active s"
  "ad_consecutiveErrors (callback_events env es s) = 0"
  "ad_rearmExhausted (callback_events env es s) = ad_rearmExhausted s"
  "ad_activeGeneration (callback_events env es s) = ad_activeGeneration s" "ad_phase (callback_events env es s) = ad_phase s"
  "ad_issued (callback_events env es s) = ad_issued s" "ad_subscribing (callback_events env es s) = ad_subscribing s"
  "ad_open (callback_events env es s) = ad_open s" "ad_rearmRejected (callback_events env es s) = ad_rearmRejected s"
  by (simp_all add: callback_events_def deliver_def Let_def split: prod.splits sum.splits)

lemma control_arm:
  assumes "adapter_control env s" and "ad_phase s \<noteq> Idle" and "ad_active s = None"
  shows "adapter_control env (adapter_arm s)"
  using assms by (force simp: adapter_control_def adapter_arm_def)

lemma control_error:
  assumes "adapter_control env s" and "ad_activeGeneration s \<in> set (ad_issued s)"
  shows "adapter_control env (callback_error env s)"
proof -
  have "ad_open s = [] \<or> (\<exists>g. ad_active s = Some g \<and> ad_open s = [g])"
    using assms(1) by (cases "ad_open s"; cases "tl (ad_open s)") (auto simp: adapter_control_def)
  moreover have "Suc (ad_activeGeneration s) \<notin> set (ad_issued s)"
    using assms(1) by (auto simp: adapter_control_def)
  ultimately show ?thesis
    using assms by (auto simp: adapter_control_def callback_error_def close_failed_def Let_def MAX_CONSECUTIVE_REARM_ATTEMPTS_def le_Suc_eq split: option.splits)
qed

lemma control_events:
  assumes "adapter_control env s" and "ad_activeGeneration s \<in> set (ad_issued s)"
  shows "adapter_control env (callback_events env es s)"
  using assms by (auto simp: adapter_control_def MAX_CONSECUTIVE_REARM_ATTEMPTS_def)

lemma control_resolved:
  assumes "adapter_control env s" and "g \<in> set (ad_subscribing s)"
  shows "adapter_control env (subscribe_resolved g s)"
proof (cases "ad_stopped s \<or> ad_rearmExhausted s \<or> g \<noteq> ad_activeGeneration s")
  case True
  then have "subscribe_resolved g s = s\<lparr>ad_subscribing := removeAll g (ad_subscribing s)\<rparr>"
    by (auto simp: subscribe_resolved_def Let_def)
  moreover have "set (removeAll g (ad_subscribing s)) \<subseteq> set (ad_subscribing s)" by auto
  ultimately show ?thesis using assms(1) by (simp add: adapter_control_def distinct_removeAll) blast
next
  case False
  then have eq: "subscribe_resolved g s =
      s\<lparr>ad_subscribing := removeAll g (ad_subscribing s), ad_active := Some g, ad_open := g # ad_open s\<rparr>"
    by (auto simp: subscribe_resolved_def Let_def)
  have "ad_active s = None" using assms False by (cases "ad_active s") (auto simp: adapter_control_def)
  then have "ad_open s = []" using assms(1) by (cases "ad_open s") (auto simp: adapter_control_def)
  moreover have "g \<in> set (ad_issued s)" using assms by (auto simp: adapter_control_def)
  ultimately show ?thesis
    using assms(1) False unfolding eq by (simp add: adapter_control_def distinct_removeAll) blast
qed

definition adapter_quiet :: "adapter \<Rightarrow> bool" where
  "adapter_quiet s \<longleftrightarrow> (ad_phase s \<noteq> Idle \<longrightarrow> ad_active s = None)"

lemma control_step:
  assumes "adapter_control env s" and "adapter_quiet s" and "adapter_step env s l t"
  shows "adapter_control env t \<and> adapter_quiet t"
  using assms
proof (cases l)
  case Unsubscribe
  have t: "t = s\<lparr>ad_stopped := True, ad_activeGeneration := ad_activeGeneration s + 1\<rparr>"
    using assms(3) Unsubscribe by (simp add: adapter_step_def split: if_splits)
  have "Suc (ad_activeGeneration s) \<notin> set (ad_issued s)" using assms(1) by (auto simp: adapter_control_def)
  then show ?thesis
    using assms(1,2) unfolding t by (simp add: adapter_control_def adapter_quiet_def le_SucI)
next
  case UnsubscribeClose
  then obtain os where t: "t = s\<lparr>ad_open := os\<rparr>" "set os \<subseteq> set (ad_open s)" "distinct os"
    using assms(1,3) by (cases "ad_active s") (auto simp: adapter_step_def adapter_control_def distinct_removeAll split: if_splits)
  then show ?thesis
    using assms(1,2) unfolding t(1) by (simp add: adapter_control_def adapter_quiet_def) blast
next
  case (SubscribeRejected g)
  then have t: "t = subscribe_rejected g s" using assms(3) by (simp add: adapter_step_def split: if_splits)
  have "set (removeAll g (ad_subscribing s)) \<subseteq> set (ad_subscribing s)" by auto
  then show ?thesis
    using assms(1,2) unfolding t by (simp add: adapter_control_def adapter_quiet_def subscribe_rejected_def distinct_removeAll) blast
next
  case (SubscribeResolved g)
  moreover from assms SubscribeResolved have "ad_phase s \<noteq> Idle \<Longrightarrow> g \<noteq> ad_activeGeneration s"
    by (auto simp: adapter_step_def adapter_control_def split: if_splits)
  ultimately show ?thesis
    using assms control_resolved [of env s g]
    by (auto simp: adapter_step_def adapter_quiet_def subscribe_resolved_def Let_def split: if_splits)
next
  case (CallbackError g)
  then show ?thesis
    using assms control_error [of env s]
    by (auto simp: adapter_step_def adapter_quiet_def callback_error_def close_failed_def Let_def split: if_splits)
next
  case (CallbackEvents g es)
  then show ?thesis
    using assms control_events [of env s] by (auto simp: adapter_step_def adapter_quiet_def split: if_splits)
next
  case FailedClosed
  then obtain d where d: "ad_phase s = Closing d" "t = (if d > 0 then s\<lparr>ad_phase := Waiting d\<rparr> else adapter_arm s)"
    using assms(3) by (auto simp: adapter_step_def split: rearm_phase.splits)
  have a: "ad_active s = None" using assms(2) d(1) by (simp add: adapter_quiet_def)
  show ?thesis
  proof (cases "d > 0")
    case True
    then show ?thesis using assms(1) d a by (simp add: adapter_control_def adapter_quiet_def)
  next
    case False
    then show ?thesis using control_arm [OF assms(1)] d a by (simp add: adapter_quiet_def adapter_arm_def)
  qed
next
  case DelayElapsed
  then show ?thesis
    using assms control_arm [of env s]
    by (auto simp: adapter_step_def adapter_quiet_def split: if_splits rearm_phase.splits) (auto simp: adapter_arm_def)
next
  case BackendImported
  then show ?thesis
    using assms control_arm [of env s]
    by (auto simp: adapter_step_def adapter_quiet_def split: if_splits rearm_phase.splits) (auto simp: adapter_arm_def)
qed

lemma progress_step:
  assumes "adapter_control env s" and "adapter_progress s" and "adapter_step env s l t"
  shows "adapter_progress t"
proof -
  have fresh: "g \<noteq> ad_activeGeneration s" if "ad_phase s \<noteq> Idle" "g \<in> set (ad_issued s)" for g
    using assms(1) that by (auto simp: adapter_control_def)
  show ?thesis
  proof (cases l)
    case (SubscribeResolved g)
    then show ?thesis using assms(2,3) by (auto simp: adapter_step_def adapter_progress_def subscribe_resolved_def Let_def split: if_splits)
  next
    case (CallbackError g)
    then show ?thesis
      using assms(2,3) by (auto simp: adapter_step_def adapter_progress_def callback_error_def close_failed_def Let_def split: if_splits)
  next
    case UnsubscribeClose
    then show ?thesis using assms(2,3) by (auto simp: adapter_step_def adapter_progress_def split: if_splits)
  qed (use assms(2,3) in \<open>auto simp: adapter_step_def adapter_progress_def adapter_arm_def subscribe_rejected_def split: if_splits rearm_phase.splits\<close>)
qed

definition adapter_inv :: "adapter_env \<Rightarrow> adapter \<Rightarrow> bool" where
  "adapter_inv env s \<longleftrightarrow> adapter_control env s \<and> adapter_quiet s \<and> adapter_progress s \<and> adapter_numbered s"

interpretation adapter: transition_system "\<lambda>s. s = adapter_init" "adapter_step env" "adapter_inv env" for env
proof
  show "adapter_inv env s" if "s = adapter_init" for s
    using that by (simp add: adapter_inv_def adapter_init_def adapter_control_def adapter_quiet_def adapter_progress_def
        adapter_numbered_def hint_numbers_def MAX_CONSECUTIVE_REARM_ATTEMPTS_def)
  show "adapter_inv env t" if "adapter_inv env s" "adapter_step env s l t" for s l t
    using that control_step progress_step numbered_step unfolding adapter_inv_def by blast
qed

lemma control_open: "adapter_control env s \<Longrightarrow> length (ad_open s) \<le> 1"
  by (cases "ad_open s"; cases "tl (ad_open s)") (auto simp: adapter_control_def)

text \<open>A run is a sequence of labels; it reaches the states of the step relation.\<close>

fun adapter_run :: "adapter_env \<Rightarrow> adapter_label list \<Rightarrow> adapter \<Rightarrow> adapter option" where
  "adapter_run env [] s = Some s"
| "adapter_run env (l # ls) s = (case adapter_react env l s of None \<Rightarrow> None | Some t \<Rightarrow> adapter_run env ls t)"

lemma adapter_run_reach:
  "adapter_run env ls s = Some t \<Longrightarrow> reach (\<lambda>s. s = adapter_init) (adapter_step env) s \<Longrightarrow>
   reach (\<lambda>s. s = adapter_init) (adapter_step env) t"
proof (induction ls arbitrary: s)
  case (Cons l ls)
  then obtain u where u: "adapter_react env l s = Some u" "adapter_run env ls u = Some t" by (auto split: option.splits)
  then have "adapter_step env s l u" by (simp add: adapter_step_def)
  then show ?case using Cons.IH [OF u(2)] reach_step [OF Cons.prems(2)] by blast
qed simp

section \<open>The properties of the adapter\<close>

definition sample_binding :: watcher_binding where
  "sample_binding = \<lparr>wb_workspace_id = ''w'', wb_source_provider_binding_id = ''b'', wb_source_provider = ''p'',
     wb_source_provider_version = ''1'', wb_ordering_domain = ''d'', wb_root = ''/r'', wb_case_sensitive = Some True,
     wb_mutable_watched = None, wb_authoritative_delete_events = Some True\<rparr>"

definition sample_env :: adapter_env where
  "sample_env = \<lparr>ae_binding = sample_binding, ae_lower = id, ae_win32 = False, ae_rearm_delay_ms = 100\<rparr>"

lemma sample_reach:
  "adapter_run sample_env ls adapter_init = Some s \<Longrightarrow> reach (\<lambda>s. s = adapter_init) (adapter_step sample_env) s"
  by (erule adapter_run_reach) (rule reach_init, rule refl)

text \<open>
  The retry policy is bounded in every reachable state: at most five consecutive errors are counted, the
  adapter has given up exactly when five were counted, at most one backend subscription is open, and a pending
  re-arm waits for the exponential backoff, which never exceeds two seconds.
\<close>

theorem adapter_bounded:
  assumes "reach (\<lambda>s. s = adapter_init) (adapter_step env) s"
  shows "ad_consecutiveErrors s \<le> 5 \<and> (ad_rearmExhausted s \<longleftrightarrow> ad_consecutiveErrors s = 5) \<and> length (ad_open s) \<le> 1
    \<and> (case ad_phase s of
        Closing d \<Rightarrow> d = min 2000 (ae_rearm_delay_ms env * 2 ^ (ad_consecutiveErrors s - 1)) \<and> 0 < ad_consecutiveErrors s
      | Waiting d \<Rightarrow> d = min 2000 (ae_rearm_delay_ms env * 2 ^ (ad_consecutiveErrors s - 1)) \<and> 0 < ad_consecutiveErrors s
      | _ \<Rightarrow> True)"
proof -
  have c: "adapter_control env s" using adapter.reachable_inv [OF assms] by (simp add: adapter_inv_def)
  then show ?thesis
    using control_open [OF c]
    by (auto simp: adapter_control_def MAX_CONSECUTIVE_REARM_ATTEMPTS_def MAX_REARM_DELAY_MS_def rearm_delay_def split: rearm_phase.splits)
qed

theorem adapter_bounded_witness:
  "\<exists>s. adapter_run sample_env [BackendImported, CallbackError 1, SubscribeResolved 1, FailedClosed] adapter_init = Some s
    \<and> ad_phase s = Waiting 100 \<and> ad_consecutiveErrors s \<le> 5 \<and> (ad_rearmExhausted s \<longleftrightarrow> ad_consecutiveErrors s = 5) \<and> length (ad_open s) \<le> 1"
proof -
  obtain s where s: "adapter_run sample_env [BackendImported, CallbackError 1, SubscribeResolved 1, FailedClosed] adapter_init = Some s"
    "ad_phase s = Waiting 100"
    by (simp add: adapter_init_def adapter_ops rearm_delay_def MAX_REARM_DELAY_MS_def MAX_CONSECUTIVE_REARM_ATTEMPTS_def sample_env_def)
  then show ?thesis using adapter_bounded [OF sample_reach [OF s(1)]] by blast
qed

text \<open>
  The watcher is never silently dead: in every reachable state it was stopped, it has exhausted its retries,
  the backend has refused a subscription, a re-arm is under way, a subscription of the current
  generation is being installed, or the current subscription is open.
\<close>

theorem adapter_not_silently_dead:
  assumes "reach (\<lambda>s. s = adapter_init) (adapter_step env) s"
  shows "ad_stopped s \<or> ad_rearmExhausted s \<or> ad_rearmRejected s \<or> ad_phase s \<noteq> Idle
    \<or> ad_activeGeneration s \<in> set (ad_subscribing s)
    \<or> ad_active s = Some (ad_activeGeneration s) \<and> ad_activeGeneration s \<in> set (ad_open s)"
  using adapter.reachable_inv [OF assms] by (simp add: adapter_inv_def adapter_progress_def)

theorem adapter_not_silently_dead_witness:
  "\<exists>s. adapter_run sample_env [BackendImported, CallbackError 1, SubscribeResolved 1, FailedClosed, DelayElapsed, SubscribeResolved 3] adapter_init = Some s
    \<and> \<not> ad_stopped s \<and> \<not> ad_rearmExhausted s \<and> \<not> ad_rearmRejected s
    \<and> (ad_phase s \<noteq> Idle \<or> ad_activeGeneration s \<in> set (ad_subscribing s)
       \<or> ad_active s = Some (ad_activeGeneration s) \<and> ad_activeGeneration s \<in> set (ad_open s))"
proof -
  obtain s where s: "adapter_run sample_env [BackendImported, CallbackError 1, SubscribeResolved 1, FailedClosed, DelayElapsed, SubscribeResolved 3] adapter_init = Some s"
    "\<not> ad_stopped s" "\<not> ad_rearmExhausted s" "\<not> ad_rearmRejected s"
    by (simp add: adapter_init_def adapter_ops rearm_delay_def MAX_REARM_DELAY_MS_def MAX_CONSECUTIVE_REARM_ATTEMPTS_def sample_env_def)
  then show ?thesis using adapter_not_silently_dead [OF sample_reach [OF s(1)]] by blast
qed

text \<open>
  The stream a handler sees is ordered: in every reachable state the sequence numbers of the hints delivered
  so far are strictly increasing across all batches, no batch is empty, and the watermark of each batch
  is the sequence number of its last hint.
\<close>

theorem adapter_stream_ordered:
  assumes "reach (\<lambda>s. s = adapter_init) (adapter_step env) s"
  shows "sorted_wrt (<) (hint_numbers (ad_delivered s)) \<and> list_all batch_ok (ad_delivered s)"
  using adapter.reachable_inv [OF assms] by (simp add: adapter_inv_def adapter_numbered_def)

theorem adapter_stream_ordered_witness:
  "\<exists>s. adapter_run sample_env [BackendImported, SubscribeResolved 1, CallbackEvents 1 [\<lparr>pe_type = Update, pe_path = ''/r/a''\<rparr>],
        CallbackEvents 1 [\<lparr>pe_type = Update, pe_path = ''/q''\<rparr>], CallbackError 1] adapter_init = Some s
    \<and> length (ad_delivered s) = 3 \<and> sorted_wrt (<) (hint_numbers (ad_delivered s)) \<and> list_all batch_ok (ad_delivered s)"
proof -
  have u: "normalizedUri id ''/r'' ''/r/a'' True = Inr ''a''" "normalizedUri id ''/r'' ''/q'' True = Inl WatcherPathOutsideRoot"
    by (simp_all add: normalizedUri_def slashPath_def strip_trailing_def strip_leading_def Let_def)
  obtain s where s: "adapter_run sample_env [BackendImported, SubscribeResolved 1, CallbackEvents 1 [\<lparr>pe_type = Update, pe_path = ''/r/a''\<rparr>],
        CallbackEvents 1 [\<lparr>pe_type = Update, pe_path = ''/q''\<rparr>], CallbackError 1] adapter_init = Some s" "length (ad_delivered s) = 3"
    by (simp add: u adapter_init_def adapter_ops normalize_events_def MAX_CONSECUTIVE_REARM_ATTEMPTS_def sample_env_def sample_binding_def env_case_sensitive_def)
  then show ?thesis using adapter_stream_ordered [OF sample_reach [OF s(1)]] by blast
qed

definition live_callback :: "adapter_label \<Rightarrow> adapter \<Rightarrow> bool" where
  "live_callback l s = (case l of
      CallbackError g \<Rightarrow> g = ad_activeGeneration s
    | CallbackEvents g es \<Rightarrow> g = ad_activeGeneration s \<and> es \<noteq> []
    | _ \<Rightarrow> False)"

lemma delivered_error:
  "\<not> ad_stopped s \<Longrightarrow> \<not> ad_rearmExhausted s \<Longrightarrow>
   ad_delivered (callback_error env s) =
     ad_delivered s @ [adapter_batch (ae_binding env) [adapter_hint (ae_binding env) ProviderReset [] (ad_sequence s)] (ad_sequence s + 1)]"
  by (simp add: adapter_ops)

lemma delivered_events: "es \<noteq> [] \<Longrightarrow> \<exists>b. ad_delivered (callback_events env es s) = ad_delivered s @ [b]"
  by (auto simp: adapter_ops split: prod.splits sum.splits)

text \<open>
  C39.  No change is lost and no stale callback is heard: a callback of the current generation that reports an
  error or a non-empty list of events delivers exactly one batch (a \<open>provider_reset\<close> when the
  events cannot be normalised); every other step delivers none.  Once the adapter is stopped or has given up, no callback is current.
\<close>

theorem adapter_delivery:
  assumes "reach (\<lambda>s. s = adapter_init) (adapter_step env) s" and "adapter_step env s l t"
  shows "(\<exists>bs. ad_delivered t = ad_delivered s @ bs \<and> length bs = (if live_callback l s then 1 else 0))
    \<and> (if ad_stopped s \<or> ad_rearmExhausted s then \<not> live_callback l s else True)"
proof -
  have c: "adapter_control env s" using adapter.reachable_inv [OF assms(1)] by (simp add: adapter_inv_def)
  then have dead: "ad_activeGeneration s \<notin> set (ad_issued s)" if "ad_stopped s \<or> ad_rearmExhausted s"
    using that by (auto simp: adapter_control_def)
  show ?thesis
  proof (cases l)
    case (CallbackError g)
    then show ?thesis
      using assms(2) dead delivered_error [of s env] by (auto simp: adapter_step_def live_callback_def split: if_splits)
  next
    case (CallbackEvents g es)
    then show ?thesis
      using assms(2) dead delivered_events [of es env s]
      by (cases "es = []") (auto simp: adapter_step_def live_callback_def callback_events_def split: if_splits)
  qed (use assms(2) in \<open>auto simp: adapter_step_def live_callback_def adapter_arm_def subscribe_resolved_def
        subscribe_rejected_def Let_def split: if_splits rearm_phase.splits\<close>)
qed

theorem adapter_delivery_witness:
  "\<exists>s t. adapter_run sample_env [BackendImported, SubscribeResolved 1] adapter_init = Some s
    \<and> adapter_step sample_env s (CallbackError 1) t
    \<and> (\<exists>bs. ad_delivered t = ad_delivered s @ bs \<and> length bs = (if live_callback (CallbackError 1) s then 1 else 0))
    \<and> live_callback (CallbackError 1) s"
proof -
  obtain s where s: "adapter_run sample_env [BackendImported, SubscribeResolved 1] adapter_init = Some s"
    "ad_activeGeneration s = 1" "ad_issued s = [1]"
    by (simp add: adapter_init_def adapter_ops)
  then have step: "adapter_step sample_env s (CallbackError 1) (callback_error sample_env s)" by (simp add: adapter_step_def)
  have live: "live_callback (CallbackError 1) s" using s(2) by (simp add: live_callback_def)
  show ?thesis
    using adapter_delivery [OF sample_reach [OF s(1)] step] s(1) step live by blast
qed

end
