(* ===== verification/Watcher_Manager.thy ===== *)
theory Watcher_Manager
  imports Watcher_Adapter
begin

text \<open>
  The two clients of a hint stream in \<open>packages/engine/src/watchers.ts\<close>: \<open>WorkspaceWatcherManager\<close>, which
  serialises the batches of each workspace, and \<open>DeterministicFakeWatcher\<close>, a second source of batches.  The
  locale \<open>hint_source\<close> is what a consumer may assume of a source; both sources interpret it.
\<close>

section \<open>The contract of a hint source\<close>

locale hint_source =
  fixes reachable :: "'s \<Rightarrow> bool" and stream :: "'s \<Rightarrow> watcher_hint_batch list"
  assumes ordered: "reachable s \<Longrightarrow> sorted_wrt (<) (hint_numbers (stream s))"
begin

lemma numbers_distinct: "reachable s \<Longrightarrow> distinct (hint_numbers (stream s))"
  using ordered [of s] by (auto simp: strict_sorted_iff)

lemma later_batches:
  assumes "reachable s" and "stream s = bs @ b # cs" and "h \<in> set (hb_events b)" and "h' \<in> set (concat (map hb_events cs))"
  shows "str_nat (wh_provider_sequence h) < str_nat (wh_provider_sequence h')"
  using ordered [OF assms(1)] assms(2-) by (fastforce simp: hint_numbers_def sorted_wrt_append)

end

interpretation adapter_source: hint_source "reach (\<lambda>s. s = adapter_init) (adapter_step env)" ad_delivered for env
proof
  show "sorted_wrt (<) (hint_numbers (ad_delivered s))" if "reach (\<lambda>s. s = adapter_init) (adapter_step env) s" for s
    using adapter.reachable_inv [OF that] by (simp add: adapter_inv_def adapter_numbered_def)
qed

section \<open>The fake watcher\<close>

record fake_watcher =
  fw_sequence :: nat
  fw_handlers :: "nat list"
  fw_delivery :: "(nat \<times> watcher_hint_batch) list"

definition fake_init :: fake_watcher where
  "fake_init = \<lparr>fw_sequence = 0, fw_handlers = [], fw_delivery = []\<rparr>"

definition fake_subscribe :: "nat \<Rightarrow> fake_watcher \<Rightarrow> fake_watcher" where
  "fake_subscribe h w = w\<lparr>fw_handlers := (if h \<in> set (fw_handlers w) then fw_handlers w else fw_handlers w @ [h])\<rparr>"

definition fake_unsubscribe :: "nat \<Rightarrow> fake_watcher \<Rightarrow> fake_watcher" where
  "fake_unsubscribe h w = w\<lparr>fw_handlers := removeAll h (fw_handlers w)\<rparr>"

fun fake_hints :: "watcher_binding \<Rightarrow> (watcher_event_class \<times> string) list \<Rightarrow> nat \<Rightarrow> watcher_hint list" where
  "fake_hints b [] seq = []"
| "fake_hints b ((kind, uri) # es) seq = adapter_hint b kind uri seq # fake_hints b es (seq + 1)"

definition fake_emit ::
  "watcher_binding \<Rightarrow> (watcher_event_class \<times> string) list \<Rightarrow> fake_watcher \<Rightarrow> watcher_hint_batch \<times> fake_watcher" where
  "fake_emit b events w =
     (let seq = fw_sequence w + length events;
          batch = adapter_batch b (fake_hints b events (fw_sequence w)) seq
      in (batch, w\<lparr>fw_sequence := seq, fw_delivery := fw_delivery w @ map (\<lambda>h. (h, batch)) (fw_handlers w)\<rparr>))"

definition fake_modify :: "watcher_binding \<Rightarrow> string \<Rightarrow> fake_watcher \<Rightarrow> watcher_hint_batch \<times> fake_watcher" where
  "fake_modify b uri = fake_emit b [(Modify, uri)]"

definition fake_presence :: "watcher_binding \<Rightarrow> string \<Rightarrow> fake_watcher \<Rightarrow> watcher_hint_batch \<times> fake_watcher" where
  "fake_presence b uri = fake_emit b [(Presence, uri)]"

definition fake_absence :: "watcher_binding \<Rightarrow> string \<Rightarrow> fake_watcher \<Rightarrow> watcher_hint_batch \<times> fake_watcher" where
  "fake_absence b uri = fake_emit b [(Absence, uri)]"

definition fake_exclusion :: "watcher_binding \<Rightarrow> string \<Rightarrow> fake_watcher \<Rightarrow> watcher_hint_batch \<times> fake_watcher" where
  "fake_exclusion b uri = fake_emit b [(Exclusion, uri)]"

definition fake_duplicate :: "watcher_binding \<Rightarrow> string \<Rightarrow> fake_watcher \<Rightarrow> watcher_hint_batch \<times> fake_watcher" where
  "fake_duplicate b uri = fake_emit b [(Modify, uri), (Modify, uri)]"

definition fake_reordered :: "watcher_binding \<Rightarrow> string list \<Rightarrow> fake_watcher \<Rightarrow> watcher_hint_batch \<times> fake_watcher" where
  "fake_reordered b uris = fake_emit b (map (\<lambda>uri. (Modify, uri)) uris)"

definition fake_overflow :: "watcher_binding \<Rightarrow> fake_watcher \<Rightarrow> watcher_hint_batch \<times> fake_watcher" where
  "fake_overflow b = fake_emit b [(Overflow, [])]"

definition fake_reset :: "watcher_binding \<Rightarrow> fake_watcher \<Rightarrow> watcher_hint_batch \<times> fake_watcher" where
  "fake_reset b = fake_emit b [(ProviderReset, [])]"

definition administrative_path :: "watcher_event_class \<Rightarrow> string" where
  "administrative_path kind = (case kind of
      Administrative \<Rightarrow> ''.git'' | GitHead \<Rightarrow> ''.git/HEAD'' | GitIndex \<Rightarrow> ''.git/index''
    | WorktreeAdministration \<Rightarrow> ''.git'' | _ \<Rightarrow> [])"

definition fake_administrative_change ::
  "watcher_binding \<Rightarrow> watcher_event_class \<Rightarrow> fake_watcher \<Rightarrow> watcher_hint_batch \<times> fake_watcher" where
  "fake_administrative_change b kind = fake_emit b [(kind, administrative_path kind)]"

datatype fake_op = FakeSubscribe nat | FakeUnsubscribe nat | FakeEmit "(watcher_event_class \<times> string) list"

fun fake_step :: "watcher_binding \<Rightarrow> fake_watcher \<Rightarrow> fake_op \<Rightarrow> fake_watcher \<Rightarrow> bool" where
  "fake_step b w (FakeSubscribe h) w' \<longleftrightarrow> w' = fake_subscribe h w"
| "fake_step b w (FakeUnsubscribe h) w' \<longleftrightarrow> w' = fake_unsubscribe h w"
| "fake_step b w (FakeEmit es) w' \<longleftrightarrow> w' = snd (fake_emit b es w)"

definition fake_stream :: "nat \<Rightarrow> fake_watcher \<Rightarrow> watcher_hint_batch list" where
  "fake_stream h w = map snd (filter (\<lambda>d. fst d = h) (fw_delivery w))"

definition fake_inv :: "fake_watcher \<Rightarrow> bool" where
  "fake_inv w \<longleftrightarrow> distinct (fw_handlers w)
     \<and> (\<forall>h. sorted_wrt (<) (hint_numbers (fake_stream h w)) \<and> (\<forall>n \<in> set (hint_numbers (fake_stream h w)). n \<le> fw_sequence w))"

lemma fake_hints_numbers:
  "map (\<lambda>h. str_nat (wh_provider_sequence h)) (fake_hints b es seq) = [Suc seq..<Suc (seq + length es)]"
  by (induction b es seq rule: fake_hints.induct) (auto simp: adapter_hint_def upt_conv_Cons simp del: upt_Suc)

lemma filter_handler: "distinct hs \<Longrightarrow> filter (\<lambda>d. fst d = h) (map (\<lambda>h. (h, b)) hs) = (if h \<in> set hs then [(h, b)] else [])"
  by (induction hs) auto

lemma fake_emit_inv: "fake_inv w \<Longrightarrow> fake_inv (snd (fake_emit b es w))"
proof -
  assume w: "fake_inv w"
  let ?b = "fst (fake_emit b es w)"
  have stream: "fake_stream h (snd (fake_emit b es w)) = fake_stream h w @ (if h \<in> set (fw_handlers w) then [?b] else [])" for h
    using w by (simp add: fake_emit_def fake_stream_def filter_handler fake_inv_def Let_def)
  have new: "hint_numbers [?b] = [Suc (fw_sequence w)..<Suc (fw_sequence w + length es)]"
    by (simp add: hint_numbers_def fake_emit_def adapter_batch_def fake_hints_numbers Let_def del: upt_Suc)
  have numbers: "hint_numbers (fake_stream h (snd (fake_emit b es w))) = hint_numbers (fake_stream h w) @
      (if h \<in> set (fw_handlers w) then [Suc (fw_sequence w)..<Suc (fw_sequence w + length es)] else [])" for h
    using new stream [of h] by (simp add: hint_numbers_def del: upt_Suc)
  have seq: "fw_sequence (snd (fake_emit b es w)) = fw_sequence w + length es" "fw_handlers (snd (fake_emit b es w)) = fw_handlers w"
    by (simp_all add: fake_emit_def Let_def)
  show ?thesis
    unfolding fake_inv_def numbers seq using w by (fastforce simp: fake_inv_def sorted_wrt_append simp del: upt_Suc)
qed

interpretation fake: transition_system "\<lambda>w. w = fake_init" "fake_step b" fake_inv for b
proof
  show "fake_inv w" if "w = fake_init" for w
    using that by (simp add: fake_inv_def fake_init_def fake_stream_def hint_numbers_def)
  show "fake_inv w'" if "fake_inv w" "fake_step b w op w'" for w op w'
    using that fake_emit_inv
    by (cases op) (auto simp: fake_inv_def fake_subscribe_def fake_unsubscribe_def fake_stream_def distinct_removeAll)
qed

interpretation fake_source: hint_source "reach (\<lambda>w. w = fake_init) (fake_step b)" "fake_stream h" for b h
proof
  show "sorted_wrt (<) (hint_numbers (fake_stream h w))" if "reach (\<lambda>w. w = fake_init) (fake_step b) w" for w
    using fake.reachable_inv [OF that] by (simp add: fake_inv_def)
qed

section \<open>The manager\<close>

text \<open>
  \<open>deliveries\<close> maps a workspace to the tail of a promise chain.  A chain is a number; the batches received on
  it and how many of them have settled describe the promises.  Which callbacks reject is the parameter
  \<open>rejects\<close>; a rejected delivery is caught, so the next batch of the chain still runs.
\<close>

record manager =
  mg_subscriptions :: "(string, nat) jsmap"
  mg_deliveries :: "(string, nat) jsmap"
  mg_received :: "nat \<Rightarrow> (string \<times> watcher_hint_batch) list"
  mg_settled :: "nat \<Rightarrow> nat"
  mg_next :: nat
  mg_starting :: "string list"
  mg_stopping :: "(string \<times> (nat \<times> nat) option) list"
  mg_unsubscribed :: "nat list"
  mg_calls :: "(nat \<times> manager_call) list"

definition manager_init :: manager where
  "manager_init = \<lparr>mg_subscriptions = [], mg_deliveries = [], mg_received = (\<lambda>_. []), mg_settled = (\<lambda>_. 0), mg_next = 0,
     mg_starting = [], mg_stopping = [], mg_unsubscribed = [], mg_calls = []\<rparr>"

definition manager_start :: "string \<Rightarrow> manager \<Rightarrow> manager" where
  "manager_start ws m =
     (if jhas (mg_subscriptions m) ws then m
      else m\<lparr>mg_deliveries := jset ws (mg_next m) (mg_deliveries m), mg_next := mg_next m + 1, mg_starting := ws # mg_starting m\<rparr>)"

definition manager_subscribed :: "string \<Rightarrow> nat \<Rightarrow> manager \<Rightarrow> manager" where
  "manager_subscribed ws sub m =
     m\<lparr>mg_subscriptions := jset ws sub (mg_subscriptions m), mg_starting := remove1 ws (mg_starting m)\<rparr>"

text \<open>The batch handler: chain the delivery after the previous one, or start a new chain.\<close>

definition manager_receive :: "string \<Rightarrow> watcher_hint_batch \<Rightarrow> manager \<Rightarrow> manager" where
  "manager_receive ws batch m =
     (case jget (mg_deliveries m) ws of
        Some c \<Rightarrow> m\<lparr>mg_received := (mg_received m)(c := mg_received m c @ [(ws, batch)])\<rparr>
      | None \<Rightarrow> m\<lparr>mg_received := (mg_received m)(mg_next m := mg_received m (mg_next m) @ [(ws, batch)]),
                  mg_deliveries := jset ws (mg_next m) (mg_deliveries m), mg_next := mg_next m + 1\<rparr>)"

definition manager_deliver :: "(manager_call \<Rightarrow> bool) \<Rightarrow> nat \<Rightarrow> manager \<Rightarrow> manager" where
  "manager_deliver rejects c m =
     (let (ws, batch) = mg_received m c ! mg_settled m c
      in m\<lparr>mg_settled := (mg_settled m)(c := mg_settled m c + 1),
           mg_calls := mg_calls m @ map (Pair c) (run_calls rejects (route_batch ws batch))\<rparr>)"

definition manager_stop :: "string \<Rightarrow> manager \<Rightarrow> manager" where
  "manager_stop ws m =
     m\<lparr>mg_stopping := (ws, map_option (\<lambda>c. (c, length (mg_received m c))) (jget (mg_deliveries m) ws)) # mg_stopping m\<rparr>"

definition stop_ready :: "(nat \<times> nat) option \<Rightarrow> manager \<Rightarrow> bool" where
  "stop_ready w m = (case w of None \<Rightarrow> True | Some (c, k) \<Rightarrow> k \<le> mg_settled m c)"

definition manager_stopped :: "string \<Rightarrow> (nat \<times> nat) option \<Rightarrow> manager \<Rightarrow> manager" where
  "manager_stopped ws w m =
     m\<lparr>mg_unsubscribed := (case jget (mg_subscriptions m) ws of None \<Rightarrow> mg_unsubscribed m | Some s \<Rightarrow> s # mg_unsubscribed m),
       mg_subscriptions := jdelete ws (mg_subscriptions m),
       mg_deliveries := jdelete ws (mg_deliveries m),
       mg_stopping := remove1 (ws, w) (mg_stopping m)\<rparr>"

text \<open>\<open>stopAll\<close> and \<open>restore\<close> call \<open>stop\<close> and \<open>start\<close> one after the other; \<open>idle\<close> waits for every chain.\<close>

definition manager_stopAll :: "manager \<Rightarrow> string list" where
  "manager_stopAll m = jkeys (mg_subscriptions m)"

definition manager_restore :: "string list \<Rightarrow> manager \<Rightarrow> manager" where
  "manager_restore bindings m = fold manager_start bindings m"

definition manager_idle :: "manager \<Rightarrow> bool" where
  "manager_idle m \<longleftrightarrow> list_all (\<lambda>(ws, c). mg_settled m c = length (mg_received m c)) (mg_deliveries m)"

datatype manager_event =
    Start string | Subscribed string nat | Receive string watcher_hint_batch | Deliver nat
  | Stop string | Stopped string "(nat \<times> nat) option"

inductive manager_step :: "(manager_call \<Rightarrow> bool) \<Rightarrow> manager \<Rightarrow> manager_event \<Rightarrow> manager \<Rightarrow> bool" for rejects where
  step_start: "manager_step rejects m (Start ws) (manager_start ws m)"
| step_subscribed: "ws \<in> set (mg_starting m) \<Longrightarrow> manager_step rejects m (Subscribed ws sub) (manager_subscribed ws sub m)"
| step_receive: "manager_step rejects m (Receive ws batch) (manager_receive ws batch m)"
| step_deliver: "mg_settled m c < length (mg_received m c) \<Longrightarrow> manager_step rejects m (Deliver c) (manager_deliver rejects c m)"
| step_stop: "manager_step rejects m (Stop ws) (manager_stop ws m)"
| step_stopped: "(ws, w) \<in> set (mg_stopping m) \<Longrightarrow> stop_ready w m \<Longrightarrow>
    manager_step rejects m (Stopped ws w) (manager_stopped ws w m)"

inductive_cases manager_stepE: "manager_step rejects m e m'"

definition chain_calls :: "nat \<Rightarrow> manager \<Rightarrow> manager_call list" where
  "chain_calls c m = map snd (filter (\<lambda>x. fst x = c) (mg_calls m))"

definition manager_order :: "(manager_call \<Rightarrow> bool) \<Rightarrow> manager \<Rightarrow> bool" where
  "manager_order rejects m \<longleftrightarrow>
     (\<forall>c. mg_settled m c \<le> length (mg_received m c)
        \<and> chain_calls c m = concat (map (\<lambda>(ws, b). run_calls rejects (route_batch ws b)) (take (mg_settled m c) (mg_received m c))))"

text \<open>A chain belongs to one workspace.\<close>

definition manager_chains :: "manager \<Rightarrow> bool" where
  "manager_chains m \<longleftrightarrow> (\<exists>owner. (\<forall>ws c. jget (mg_deliveries m) ws = Some c \<longrightarrow> c < mg_next m \<and> owner c = ws)
     \<and> (\<forall>c ws b. (ws, b) \<in> set (mg_received m c) \<longrightarrow> c < mg_next m \<and> owner c = ws))"

lemma order_step:
  assumes "manager_order rejects m" and "manager_step rejects m e m'"
  shows "manager_order rejects m'"
  using assms(2)
proof (cases rule: manager_step.cases)
  case (step_deliver c)
  obtain ws b where wb: "mg_received m c ! mg_settled m c = (ws, b)" by (cases "mg_received m c ! mg_settled m c")
  have m': "m' = m\<lparr>mg_settled := (mg_settled m)(c := mg_settled m c + 1),
      mg_calls := mg_calls m @ map (Pair c) (run_calls rejects (route_batch ws b))\<rparr>"
    using step_deliver(2) wb by (simp add: manager_deliver_def)
  have "chain_calls d m' = chain_calls d m @ (if d = c then run_calls rejects (route_batch ws b) else [])" for d
    by (auto simp: m' chain_calls_def filter_map o_def)
  moreover have "mg_settled m' = (mg_settled m)(c := Suc (mg_settled m c))" "mg_received m' = mg_received m" by (simp_all add: m')
  ultimately show ?thesis
    using assms(1) step_deliver(3) wb unfolding manager_order_def by (auto simp: take_Suc_conv_app_nth)
next
  case (step_receive ws b)
  then show ?thesis
    using assms(1) by (auto simp: manager_order_def manager_receive_def chain_calls_def le_SucI split: option.splits)
qed (use assms(1) in \<open>auto simp: manager_order_def manager_start_def manager_subscribed_def manager_stop_def manager_stopped_def chain_calls_def\<close>)

lemma chains_fresh: "manager_chains m \<Longrightarrow> mg_received m (mg_next m) = []"
  unfolding manager_chains_def by (metis less_irrefl list.set_intros(1) neq_Nil_conv surj_pair)

lemma chains_new:
  assumes "manager_chains m" and "mg_deliveries m' = jset ws (mg_next m) (mg_deliveries m)" and "mg_next m' = mg_next m + 1"
    and "\<And>c. c \<noteq> mg_next m \<Longrightarrow> mg_received m' c = mg_received m c" and "\<And>v b. (v, b) \<in> set (mg_received m' (mg_next m)) \<Longrightarrow> v = ws"
  shows "manager_chains m'"
proof -
  obtain owner where o: "\<And>ws c. jget (mg_deliveries m) ws = Some c \<Longrightarrow> c < mg_next m \<and> owner c = ws"
    "\<And>c v b. (v, b) \<in> set (mg_received m c) \<Longrightarrow> c < mg_next m \<and> owner c = v"
    using assms(1) unfolding manager_chains_def by blast
  have "c < mg_next m' \<and> (owner(mg_next m := ws)) c = v" if "jget (mg_deliveries m') v = Some c" for v c
    using that o(1) [of v c] by (auto simp: assms(2,3) split: if_splits)
  moreover have "c < mg_next m' \<and> (owner(mg_next m := ws)) c = v" if "(v, b) \<in> set (mg_received m' c)" for v b c
    using that o(2) [of v b c] assms(3,4,5) by (cases "c = mg_next m") auto
  ultimately show ?thesis unfolding manager_chains_def by blast
qed

lemma chains_shrink:
  assumes "manager_chains m" and "\<And>ws c. jget (mg_deliveries m') ws = Some c \<Longrightarrow> jget (mg_deliveries m) ws = Some c"
    and "mg_next m' = mg_next m" and "mg_received m' = mg_received m"
  shows "manager_chains m'"
  using assms unfolding manager_chains_def by metis

lemma chains_step:
  assumes "manager_chains m" and "manager_step rejects m e m'"
  shows "manager_chains m'"
  using assms(2)
proof (cases rule: manager_step.cases)
  case (step_receive ws b)
  have fresh: "mg_received m (mg_next m) = []"
    using assms(1) by (rule chains_fresh)
  show ?thesis
  proof (cases "jget (mg_deliveries m) ws")
    case None
    then show ?thesis
      using step_receive fresh by (intro chains_new [OF assms(1), of _ ws]) (auto simp: manager_receive_def)
  next
    case (Some c)
    obtain owner where o: "\<And>ws c. jget (mg_deliveries m) ws = Some c \<Longrightarrow> c < mg_next m \<and> owner c = ws"
      "\<And>c ws b. (ws, b) \<in> set (mg_received m c) \<Longrightarrow> c < mg_next m \<and> owner c = ws"
      using assms(1) unfolding manager_chains_def by blast
    have m': "mg_deliveries m' = mg_deliveries m" "mg_next m' = mg_next m"
      "mg_received m' = (mg_received m)(c := mg_received m c @ [(ws, b)])"
      using Some step_receive by (simp_all add: manager_receive_def)
    have "d < mg_next m \<and> owner d = v" if "(v, x) \<in> set (mg_received m' d)" for v x d
      using that o(1) [OF Some] o(2) [of v x d] by (auto simp: m' split: if_splits)
    then show ?thesis using o(1) unfolding manager_chains_def m'(1,2) by blast
  qed
next
  case (step_start ws)
  have "mg_received m (mg_next m) = []"
    using assms(1) by (rule chains_fresh)
  then have "manager_chains (m\<lparr>mg_deliveries := jset ws (mg_next m) (mg_deliveries m), mg_next := mg_next m + 1, mg_starting := ws # mg_starting m\<rparr>)"
    by (intro chains_new [OF assms(1), of _ ws]) auto
  then show ?thesis using assms(1) step_start by (simp add: manager_start_def)
qed (rule chains_shrink [OF assms(1)], auto simp: manager_subscribed_def manager_stop_def manager_stopped_def manager_deliver_def
      case_prod_beta split: if_splits)+

interpretation manager: transition_system "\<lambda>m. m = manager_init" "manager_step rejects"
  "\<lambda>m. manager_order rejects m \<and> manager_chains m" for rejects
proof
  show "manager_order rejects m \<and> manager_chains m" if "m = manager_init" for m
    using that by (auto simp: manager_init_def manager_order_def manager_chains_def chain_calls_def)
qed (use order_step chains_step in blast)

section \<open>The property of the manager\<close>

text \<open>
  The manager serialises deliveries: on every chain of a workspace the callbacks made so far are, in order
  and without a gap, those of the batches received on that chain, each batch completely (or up to its
  first rejected callback) before the next; a rejected delivery does not stop the later ones, and a chain carries the batches of one workspace only.
\<close>

theorem manager_serial:
  assumes "reach (\<lambda>m. m = manager_init) (manager_step rejects) m"
  shows "chain_calls c m = concat (map (\<lambda>(ws, b). run_calls rejects (route_batch ws b)) (take (mg_settled m c) (mg_received m c)))
    \<and> mg_settled m c \<le> length (mg_received m c) \<and> (\<exists>ws. set (map fst (mg_received m c)) \<subseteq> {ws})"
proof -
  have m: "manager_order rejects m" "manager_chains m" using manager.reachable_inv [OF assms] by auto
  obtain owner where o: "\<And>c ws b. (ws, b) \<in> set (mg_received m c) \<Longrightarrow> c < mg_next m \<and> owner c = ws"
    using m(2) unfolding manager_chains_def by blast
  have "fst x = owner c" if "x \<in> set (mg_received m c)" for x
    using that o [of "fst x" "snd x" c] by simp
  then have "set (map fst (mg_received m c)) \<subseteq> {owner c}" by auto
  then show ?thesis using m(1) by (auto simp: manager_order_def)
qed

theorem manager_serial_witness:
  "\<exists>m. reach (\<lambda>m. m = manager_init) (manager_step (\<lambda>_. False)) m \<and> mg_settled m 0 = 1
    \<and> chain_calls 0 m = concat (map (\<lambda>(ws, b). run_calls (\<lambda>_. False) (route_batch ws b)) (take (mg_settled m 0) (mg_received m 0)))"
proof -
  let ?b = "sample_batch [sample_hint Modify ''b'' Hint]"
  let ?m1 = "manager_start ''w'' manager_init" and ?r = "reach (\<lambda>m. m = manager_init) (manager_step (\<lambda>_. False))"
  let ?m2 = "manager_receive ''w'' ?b ?m1"
  have r1: "?r ?m1" by (rule reach_step [OF reach_init], rule refl, rule step_start)
  then have r2: "?r ?m2" by (rule reach_step) (rule step_receive)
  have "mg_settled ?m2 0 < length (mg_received ?m2 0)" "mg_settled ?m2 0 = 0"
    by (simp_all add: manager_start_def manager_receive_def manager_init_def)
  then have "?r (manager_deliver (\<lambda>_. False) 0 ?m2)" "mg_settled (manager_deliver (\<lambda>_. False) 0 ?m2) 0 = 1"
    using reach_step [OF r2, OF step_deliver [of ?m2 0]] by (blast, simp add: manager_deliver_def case_prod_beta)
  then show ?thesis using manager_serial by blast
qed

end
