(* ===== verification/Reconciliation.thy ===== *)
theory Reconciliation
  imports Watcher_Events
begin

text \<open>
  \<open>ReconciliationCoordinator\<close> of \<open>packages/engine/src/reconciliation.ts\<close>.  The record \<open>binding_state\<close> is the
  \<open>BindingState\<close> of one provider binding; the record \<open>coordinator\<close> holds all of them, the promise tail as a
  queue of operations, the operation that is running and the await point at which it is suspended
  (\<open>running\<close>).  The methods on one binding return the new binding state and the operations they enqueue.
  \<open>co_react\<close> is the reaction of the coordinator to an external event; the port and the clock are the
  environment that chooses the events.  A pending timer is its deadline.  Three history variables make
  the properties statable: the hints accepted and the hints settled so far, and the barrier state the
  port has stored last.
\<close>

section \<open>Data\<close>

datatype reconciliation_kind = Targeted | AdministrativeKind | Complete

datatype reconciliation_trigger =
    SettledBatch | MaximumBatchWindow | AbsenceBarrier | ExclusionBarrier | WatcherOverflow | ProviderResetTrigger
  | ProviderRestart | DaemonRecovery | Resume | ExplicitFreshness | UnprovenFreshness | Periodic
  | AdministrativeChange | SourceBarrier

datatype barrier_state = Stale | Current | Degraded

datatype engine_error =
    ReconciliationConfigurationInvalid | DebounceInvalid | RetryInvalid | CompleteReconciliationRequired
  | CompleteIntervalInvalid | BindingInvalid | CoordinatorClosed | WatcherBindingMismatch | ReconciliationUnstable
  | SourceBarrierUnstable | TargetStateRequired | BindingUnknown | PortError string

record reconciliation_request =
  rq_workspace_id :: string
  rq_source_provider_binding_id :: string
  rq_source_provider :: string
  rq_source_provider_version :: string
  rq_ordering_domain :: string
  rq_kind :: reconciliation_kind
  rq_trigger :: reconciliation_trigger
  rq_hints :: "watcher_hint list"
  rq_source_barrier :: bool
  rq_source_epoch :: nat

record reconciliation_result =
  rr_stable :: bool
  rr_equivalent :: bool
  rr_checkpoint_id :: string
  rr_has_target_state :: bool

datatype commit_outcome = Committed | StaleOutcome

datatype barrier_error_code = ReconciliationFailed | StateWriteFailed

record binding_state =
  bs_binding :: watcher_binding
  bs_hints :: "watcher_hint list"
  bs_first_hint_at :: "nat option"
  bs_quiet_timer :: "nat option"
  bs_maximum_timer :: "nat option"
  bs_periodic_timer :: "nat option"
  bs_retry_timer :: "nat option"
  bs_retry_pending :: "(nat \<times> nat) list"
  bs_barrier_open :: bool
  bs_barrier_state :: barrier_state
  bs_barrier_attempts :: nat
  bs_barrier_error_code :: "barrier_error_code option"
  bs_persisted :: bool
  bs_source_epoch :: nat
  bs_durable :: barrier_state

datatype queued_op =
    OpReconcile string reconciliation_kind reconciliation_trigger bool "watcher_hint list" nat
  | OpBarrier string

text \<open>The await points of \<open>#reconcile\<close>, \<open>#runSourceBarrier\<close> and \<open>#barrierFailed\<close>; the last argument of the commit points tells whether the port has committed.\<close>

datatype running =
    NotRunning
  | AwaitReconcile string reconciliation_request
  | AwaitCommit string reconciliation_request bool
  | AwaitSetStale string
  | AwaitAdministrative string reconciliation_request
  | AwaitComplete string reconciliation_request
  | AwaitBarrierCommit string reconciliation_request bool
  | AwaitSetDegraded string

record co_config =
  cc_workspace_id :: string
  cc_quiet_ms :: nat
  cc_maximum_ms :: nat
  cc_interval_ms :: nat
  cc_retry_ms :: nat
  cc_maximum_attempts :: nat

record coordinator =
  co_states :: "(string, binding_state) jsmap"
  co_tail :: "queued_op list"
  co_running :: running
  co_error :: "engine_error option"
  co_closed :: bool
  co_now :: nat
  co_next_timer :: nat
  co_accepted :: "(string \<times> watcher_hint) list"
  co_settled :: "(string \<times> watcher_hint) list"

section \<open>Construction\<close>

definition DEFAULT_QUIET_WINDOW_MS :: int where "DEFAULT_QUIET_WINDOW_MS = 50"
definition DEFAULT_MAXIMUM_BATCH_MS :: int where "DEFAULT_MAXIMUM_BATCH_MS = 250"
definition DEFAULT_COMPLETE_INTERVAL_MS :: int where "DEFAULT_COMPLETE_INTERVAL_MS = 10 * 60 * 1000"
definition DEFAULT_BARRIER_RETRY_MS :: int where "DEFAULT_BARRIER_RETRY_MS = 50"
definition MAX_TIMER_MS :: int where "MAX_TIMER_MS = 24 * 60 * 60 * 1000"

definition source_barrier_event :: "watcher_event_class \<Rightarrow> bool" where
  "source_barrier_event c \<longleftrightarrow> c \<in> {Administrative, GitHead, GitIndex, WorktreeAdministration, ProviderRootTransition}"

definition checkedDuration :: "engine_error \<Rightarrow> int \<Rightarrow> int \<Rightarrow> engine_error + nat" where
  "checkedDuration code v maximum = (if v \<le> 0 \<or> v > maximum then Inl code else Inr (nat v))"

record co_options =
  opt_workspace_id :: string
  opt_bindings :: "watcher_binding list"
  opt_quiet_window_ms :: "int option"
  opt_maximum_batch_ms :: "int option"
  opt_complete_interval_ms :: "int option"
  opt_barrier_retry_ms :: "int option"
  opt_maximum_barrier_attempts :: "int option"

definition opt_or :: "'a option \<Rightarrow> 'a \<Rightarrow> 'a" where
  "opt_or x d = (case x of None \<Rightarrow> d | Some y \<Rightarrow> y)"

definition initial_binding :: "watcher_binding \<Rightarrow> binding_state" where
  "initial_binding b = \<lparr>bs_binding = b, bs_hints = [], bs_first_hint_at = None, bs_quiet_timer = None, bs_maximum_timer = None,
     bs_periodic_timer = None, bs_retry_timer = None, bs_retry_pending = [], bs_barrier_open = False, bs_barrier_state = Current,
     bs_barrier_attempts = 0, bs_barrier_error_code = None, bs_persisted = True, bs_source_epoch = 0, bs_durable = Current\<rparr>"

definition schedulePeriodic :: "co_config \<Rightarrow> nat \<Rightarrow> binding_state \<Rightarrow> binding_state" where
  "schedulePeriodic cfg now st = st\<lparr>bs_periodic_timer := Some (now + cc_interval_ms cfg)\<rparr>"

definition register_binding ::
  "string \<Rightarrow> watcher_binding \<Rightarrow> (string, binding_state) jsmap \<Rightarrow> engine_error + (string, binding_state) jsmap" where
  "register_binding ws b states =
     (if wb_workspace_id b \<noteq> ws \<or> jhas states (wb_source_provider_binding_id b) then Inl BindingInvalid
      else Inr (jset (wb_source_provider_binding_id b) (initial_binding b) states))"

definition co_construct :: "co_options \<Rightarrow> nat \<Rightarrow> engine_error + (co_config \<times> coordinator)" where
  "co_construct opts now =
     (if length (opt_workspace_id opts) = 0 \<or> length (opt_bindings opts) = 0 then Inl ReconciliationConfigurationInvalid else
      res_bind (checkedDuration DebounceInvalid (opt_or (opt_quiet_window_ms opts) DEFAULT_QUIET_WINDOW_MS) 60000) (\<lambda>quiet.
      res_bind (checkedDuration DebounceInvalid (opt_or (opt_maximum_batch_ms opts) DEFAULT_MAXIMUM_BATCH_MS) 60000) (\<lambda>maximum.
      res_bind (checkedDuration RetryInvalid (opt_or (opt_barrier_retry_ms opts) DEFAULT_BARRIER_RETRY_MS) 60000) (\<lambda>retry.
      res_bind (checkedDuration RetryInvalid (opt_or (opt_maximum_barrier_attempts opts) 3) 100) (\<lambda>attempts.
      if quiet > maximum then Inl DebounceInvalid else
      let interval = opt_or (opt_complete_interval_ms opts) DEFAULT_COMPLETE_INTERVAL_MS;
          mutableWatched = list_ex (\<lambda>b. wb_mutable_watched b \<noteq> Some False) (opt_bindings opts)
      in if interval = 0 \<and> mutableWatched then Inl CompleteReconciliationRequired else
      res_bind (if interval = 0 then Inr 0 else checkedDuration CompleteIntervalInvalid interval MAX_TIMER_MS) (\<lambda>intervalMs.
      res_bind (res_fold (register_binding (opt_workspace_id opts)) (opt_bindings opts) []) (\<lambda>states.
      let cfg = \<lparr>cc_workspace_id = opt_workspace_id opts, cc_quiet_ms = quiet, cc_maximum_ms = maximum, cc_interval_ms = intervalMs,
                 cc_retry_ms = retry, cc_maximum_attempts = attempts\<rparr>
      in Inr (cfg, \<lparr>co_states = (if intervalMs > 0 then map (\<lambda>(k, st). (k, schedulePeriodic cfg now st)) states else states),
                    co_tail = [], co_running = NotRunning, co_error = None, co_closed = False, co_now = now, co_next_timer = 0,
                    co_accepted = [], co_settled = []\<rparr>))))))))"

section \<open>Operations on one binding\<close>

definition clearBatchTimers :: "binding_state \<Rightarrow> binding_state" where
  "clearBatchTimers st = st\<lparr>bs_quiet_timer := None, bs_maximum_timer := None, bs_first_hint_at := None\<rparr>"

definition clearAllTimers :: "binding_state \<Rightarrow> binding_state" where
  "clearAllTimers st =
     (let st = clearBatchTimers st
      in st\<lparr>bs_periodic_timer := None,
            bs_retry_pending := (case bs_retry_timer st of None \<Rightarrow> bs_retry_pending st | Some h \<Rightarrow> filter (\<lambda>(t, d). t \<noteq> h) (bs_retry_pending st)),
            bs_retry_timer := None\<rparr>)"

definition takeHints :: "binding_state \<Rightarrow> watcher_hint list \<times> binding_state" where
  "takeHints st = (bs_hints st, clearBatchTimers (st\<lparr>bs_hints := []\<rparr>))"

definition restorePrefix :: "watcher_hint list \<Rightarrow> binding_state \<Rightarrow> binding_state" where
  "restorePrefix hints st = (if length hints > 0 then st\<lparr>bs_hints := hints @ bs_hints st\<rparr> else st)"

definition push_hints :: "watcher_hint list \<Rightarrow> binding_state \<Rightarrow> binding_state" where
  "push_hints hs st = st\<lparr>bs_hints := bs_hints st @ hs\<rparr>"

definition binding_id :: "binding_state \<Rightarrow> string" where
  "binding_id st = wb_source_provider_binding_id (bs_binding st)"

definition queueFlush ::
  "reconciliation_kind \<Rightarrow> reconciliation_trigger \<Rightarrow> bool \<Rightarrow> binding_state \<Rightarrow> binding_state \<times> queued_op list" where
  "queueFlush kind trigger sourceBarrier st =
     (if kind = Targeted \<and> bs_barrier_open st then (st, [])
      else let (hints, st') = takeHints st
           in (st', [OpReconcile (binding_id st) kind trigger sourceBarrier hints (bs_source_epoch st')]))"

definition completeNow ::
  "reconciliation_trigger \<Rightarrow> watcher_hint list \<Rightarrow> binding_state \<Rightarrow> binding_state \<times> queued_op list" where
  "completeNow trigger extraHints st =
     (let st = push_hints extraHints st
      in if bs_barrier_open st
         then (clearBatchTimers (st\<lparr>bs_source_epoch := bs_source_epoch st + 1\<rparr>),
               if trigger \<noteq> Periodic then [OpBarrier (binding_id st)] else [])
         else queueFlush Complete trigger False st)"

definition scheduleBatch :: "co_config \<Rightarrow> nat \<Rightarrow> binding_state \<Rightarrow> binding_state" where
  "scheduleBatch cfg now st =
     (let st = (if bs_first_hint_at st = None
                then st\<lparr>bs_first_hint_at := Some now, bs_maximum_timer := Some (now + cc_maximum_ms cfg)\<rparr> else st)
      in st\<lparr>bs_quiet_timer := Some (now + cc_quiet_ms cfg)\<rparr>)"

definition open_barrier :: "binding_state \<Rightarrow> binding_state" where
  "open_barrier st = st\<lparr>bs_barrier_open := True, bs_barrier_state := Stale, bs_barrier_attempts := 0,
     bs_barrier_error_code := None, bs_persisted := False\<rparr>"

definition acceptHint :: "co_config \<Rightarrow> nat \<Rightarrow> watcher_hint \<Rightarrow> binding_state \<Rightarrow> binding_state \<times> queued_op list" where
  "acceptHint cfg now hint st =
     (let st = st\<lparr>bs_source_epoch := bs_source_epoch st + 1\<rparr>; c = wh_event_class hint
      in if source_barrier_event c then
           (let st = clearBatchTimers (push_hints [hint] st)
            in if \<not> bs_barrier_open st \<or> bs_barrier_state st = Degraded
               then (open_barrier st, [OpBarrier (binding_id st)])
               else (st, []))
         else if c = Overflow \<or> c = ProviderReset then
           completeNow (if c = Overflow then WatcherOverflow else ProviderResetTrigger) [hint] st
         else if bs_barrier_open st then (push_hints [hint] st, [])
         else if c = Absence \<or> c = Exclusion then
           queueFlush Targeted (if c = Absence then AbsenceBarrier else ExclusionBarrier) False (push_hints [hint] st)
         else (scheduleBatch cfg now (push_hints [hint] st), []))"

fun acceptHints :: "co_config \<Rightarrow> nat \<Rightarrow> watcher_hint list \<Rightarrow> binding_state \<Rightarrow> binding_state \<times> queued_op list" where
  "acceptHints cfg now [] st = (st, [])"
| "acceptHints cfg now (h # hs) st =
     (case acceptHint cfg now h st of (st1, ops1) \<Rightarrow>
      case acceptHints cfg now hs st1 of (st2, ops2) \<Rightarrow> (st2, ops1 @ ops2))"

definition co_request ::
  "co_config \<Rightarrow> binding_state \<Rightarrow> reconciliation_kind \<Rightarrow> reconciliation_trigger \<Rightarrow> watcher_hint list \<Rightarrow> bool \<Rightarrow> nat \<Rightarrow> reconciliation_request" where
  "co_request cfg st kind trigger hints sourceBarrier sourceEpoch =
     \<lparr>rq_workspace_id = cc_workspace_id cfg, rq_source_provider_binding_id = binding_id st,
      rq_source_provider = wb_source_provider (bs_binding st), rq_source_provider_version = wb_source_provider_version (bs_binding st),
      rq_ordering_domain = wb_ordering_domain (bs_binding st), rq_kind = kind, rq_trigger = trigger, rq_hints = hints,
      rq_source_barrier = sourceBarrier, rq_source_epoch = sourceEpoch\<rparr>"

text \<open>The head of the loop of \<open>#runSourceBarrier\<close>, up to its first await.\<close>

definition barrier_loop :: "co_config \<Rightarrow> bool \<Rightarrow> string \<Rightarrow> binding_state \<Rightarrow> binding_state \<times> running" where
  "barrier_loop cfg closed b st =
     (if bs_barrier_open st \<and> bs_barrier_state st \<noteq> Degraded \<and> \<not> closed then
        (if \<not> bs_persisted st then (st, AwaitSetStale b)
         else let (hints, st') = takeHints st
              in (st', AwaitAdministrative b (co_request cfg st' AdministrativeKind AdministrativeChange hints True (bs_source_epoch st'))))
      else (st, NotRunning))"

definition barrierFailed :: "co_config \<Rightarrow> nat \<Rightarrow> nat \<Rightarrow> string \<Rightarrow> binding_state \<Rightarrow> binding_state \<times> running" where
  "barrierFailed cfg now timer b st =
     (let st = st\<lparr>bs_barrier_attempts := bs_barrier_attempts st + 1\<rparr>
      in if bs_barrier_attempts st \<ge> cc_maximum_attempts cfg
         then (st\<lparr>bs_barrier_state := Degraded, bs_barrier_error_code := Some ReconciliationFailed\<rparr>, AwaitSetDegraded b)
         else (st\<lparr>bs_retry_timer := Some timer, bs_retry_pending := (timer, now + cc_retry_ms cfg) # bs_retry_pending st\<rparr>, NotRunning))"

section \<open>Reactions of the coordinator\<close>

definition put_state :: "string \<Rightarrow> binding_state \<Rightarrow> coordinator \<Rightarrow> coordinator" where
  "put_state b st co = co\<lparr>co_states := jset b st (co_states co)\<rparr>"

definition enqueue :: "queued_op list \<Rightarrow> coordinator \<Rightarrow> coordinator" where
  "enqueue ops co = co\<lparr>co_tail := co_tail co @ ops\<rparr>"

definition with_state ::
  "string \<Rightarrow> (binding_state \<Rightarrow> binding_state \<times> queued_op list) \<Rightarrow> coordinator \<Rightarrow> engine_error + coordinator" where
  "with_state b f co =
     (case jget (co_states co) b of
        None \<Rightarrow> Inl BindingUnknown
      | Some st \<Rightarrow> (case f st of (st', ops) \<Rightarrow> Inr (enqueue ops (put_state b st' co))))"

definition batch_matches :: "co_config \<Rightarrow> watcher_hint_batch \<Rightarrow> binding_state \<Rightarrow> bool" where
  "batch_matches cfg batch st \<longleftrightarrow>
     hb_workspace_id batch = cc_workspace_id cfg \<and> hb_source_provider batch = wb_source_provider (bs_binding st)
   \<and> hb_source_provider_version batch = wb_source_provider_version (bs_binding st)
   \<and> hb_ordering_domain batch = wb_ordering_domain (bs_binding st)
   \<and> list_all (\<lambda>e. wh_source_provider_binding_id e = hb_source_provider_binding_id batch
        \<and> wh_workspace_id e = hb_workspace_id batch \<and> wh_ordering_domain e = hb_ordering_domain batch) (hb_events batch)"

definition co_accept :: "co_config \<Rightarrow> watcher_hint_batch \<Rightarrow> coordinator \<Rightarrow> engine_error + coordinator" where
  "co_accept cfg batch co =
     (if co_closed co then Inl CoordinatorClosed
      else let b = hb_source_provider_binding_id batch
           in case jget (co_states co) b of
                None \<Rightarrow> Inl BindingUnknown
              | Some st \<Rightarrow>
                  if \<not> batch_matches cfg batch st then Inl WatcherBindingMismatch
                  else res_bind (with_state b (acceptHints cfg (co_now co) (hb_events batch)) co) (\<lambda>co'.
                    Inr (co'\<lparr>co_accepted := co_accepted co' @ map (Pair b) (hb_events batch)\<rparr>)))"

definition provider_restarted :: "string \<Rightarrow> coordinator \<Rightarrow> engine_error + coordinator" where
  "provider_restarted b = with_state b (completeNow ProviderRestart [])"

definition co_recover :: "string \<Rightarrow> coordinator \<Rightarrow> engine_error + coordinator" where
  "co_recover b = with_state b (completeNow DaemonRecovery [])"

definition co_resume :: "string \<Rightarrow> coordinator \<Rightarrow> engine_error + coordinator" where
  "co_resume b = with_state b (completeNow Resume [])"

definition request_freshness :: "string \<Rightarrow> bool \<Rightarrow> coordinator \<Rightarrow> engine_error + coordinator" where
  "request_freshness b proven =
     with_state b (if proven then queueFlush Targeted ExplicitFreshness False else completeNow UnprovenFreshness [])"

record source_barrier_status =
  st_state :: barrier_state
  st_attempts :: nat
  st_pending_hint_count :: nat
  st_error_code :: "barrier_error_code option"

definition barrier_open :: "string \<Rightarrow> coordinator \<Rightarrow> engine_error + bool" where
  "barrier_open b co = (case jget (co_states co) b of None \<Rightarrow> Inl BindingUnknown | Some st \<Rightarrow> Inr (bs_barrier_open st))"

definition barrier_status :: "string \<Rightarrow> coordinator \<Rightarrow> engine_error + source_barrier_status" where
  "barrier_status b co =
     (case jget (co_states co) b of
        None \<Rightarrow> Inl BindingUnknown
      | Some st \<Rightarrow> Inr \<lparr>st_state = bs_barrier_state st, st_attempts = bs_barrier_attempts st,
                       st_pending_hint_count = length (bs_hints st), st_error_code = bs_barrier_error_code st\<rparr>)"

definition co_close :: "coordinator \<Rightarrow> coordinator" where
  "co_close co =
     (if co_closed co then co
      else co\<lparr>co_closed := True, co_states := map (\<lambda>(k, st). (k, clearAllTimers st)) (co_states co)\<rparr>)"

text \<open>\<open>idle\<close> after the tail has settled: hand over the queued error once.\<close>

definition co_idle :: "coordinator \<Rightarrow> engine_error option \<times> coordinator" where
  "co_idle co = (co_error co, co\<lparr>co_error := None\<rparr>)"

text \<open>Timer callbacks; each is enabled when its timer is pending and due.\<close>

definition fire_quiet :: "binding_state \<Rightarrow> binding_state \<times> queued_op list" where
  "fire_quiet st = queueFlush Targeted SettledBatch False (st\<lparr>bs_quiet_timer := None\<rparr>)"

definition fire_maximum :: "binding_state \<Rightarrow> binding_state \<times> queued_op list" where
  "fire_maximum st = queueFlush Targeted MaximumBatchWindow False (st\<lparr>bs_maximum_timer := None\<rparr>)"

definition fire_periodic :: "co_config \<Rightarrow> nat \<Rightarrow> bool \<Rightarrow> binding_state \<Rightarrow> binding_state \<times> queued_op list" where
  "fire_periodic cfg now closed st =
     (let st = st\<lparr>bs_periodic_timer := None\<rparr>
      in if closed then (st, [])
         else case completeNow Periodic [] st of (st', ops) \<Rightarrow> (schedulePeriodic cfg now st', ops))"

definition fire_retry :: "nat \<Rightarrow> binding_state \<Rightarrow> binding_state \<times> queued_op list" where
  "fire_retry timer st =
     (st\<lparr>bs_retry_timer := None, bs_retry_pending := filter (\<lambda>(t, d). t \<noteq> timer) (bs_retry_pending st)\<rparr>, [OpBarrier (binding_id st)])"

text \<open>Starting the next queued operation, up to its first await.\<close>

definition start_op :: "co_config \<Rightarrow> queued_op \<Rightarrow> coordinator \<Rightarrow> coordinator" where
  "start_op cfg op co =
     (case op of
        OpReconcile b kind trigger sb hints epoch \<Rightarrow>
          (case jget (co_states co) b of
             None \<Rightarrow> co
           | Some st \<Rightarrow>
               if kind = Targeted \<and> bs_barrier_open st then put_state b (restorePrefix hints st) co
               else co\<lparr>co_running := AwaitReconcile b (co_request cfg st kind trigger hints sb epoch)\<rparr>)
      | OpBarrier b \<Rightarrow>
          (case jget (co_states co) b of
             None \<Rightarrow> co
           | Some st \<Rightarrow> (case barrier_loop cfg (co_closed co) b st of (st', r) \<Rightarrow> (put_state b st' co)\<lparr>co_running := r\<rparr>)))"

definition continue_barrier :: "co_config \<Rightarrow> string \<Rightarrow> binding_state \<Rightarrow> coordinator \<Rightarrow> coordinator" where
  "continue_barrier cfg b st co =
     (case barrier_loop cfg (co_closed co) b st of (st', r) \<Rightarrow> (put_state b st' co)\<lparr>co_running := r\<rparr>)"

definition fail_barrier :: "co_config \<Rightarrow> string \<Rightarrow> binding_state \<Rightarrow> coordinator \<Rightarrow> coordinator" where
  "fail_barrier cfg b st co =
     (case barrierFailed cfg (co_now co) (co_next_timer co) b st of
        (st', r) \<Rightarrow> (put_state b st' co)\<lparr>co_running := r, co_next_timer := co_next_timer co + 1\<rparr>)"

definition settle :: "string \<Rightarrow> watcher_hint list \<Rightarrow> coordinator \<Rightarrow> coordinator" where
  "settle b hints co = co\<lparr>co_settled := co_settled co @ map (Pair b) hints\<rparr>"

definition finish :: "engine_error option \<Rightarrow> string \<Rightarrow> binding_state \<Rightarrow> coordinator \<Rightarrow> coordinator" where
  "finish err b st co =
     (put_state b st co)\<lparr>co_running := NotRunning, co_error := (case err of None \<Rightarrow> co_error co | Some e \<Rightarrow> Some e)\<rparr>"

text \<open>\<open>#commitStableResult\<close> throws before it reaches the port when a changed result has no target state.\<close>

definition commit_guard :: "reconciliation_result \<Rightarrow> bool" where
  "commit_guard r \<longleftrightarrow> rr_equivalent r \<or> rr_has_target_state r"

datatype port_reply = Reconciled reconciliation_result | Written | Outcome commit_outcome | Thrown string

text \<open>The continuation of the running operation when the awaited port call settles.\<close>

definition resume_op :: "co_config \<Rightarrow> port_reply \<Rightarrow> coordinator \<Rightarrow> coordinator option" where
  "resume_op cfg reply co =
     (case co_running co of
        NotRunning \<Rightarrow> None
      | AwaitReconcile b rq \<Rightarrow>
          (case jget (co_states co) b of None \<Rightarrow> None | Some st \<Rightarrow>
           (case reply of
              Reconciled r \<Rightarrow>
                if rq_kind rq = Targeted \<and> bs_barrier_open st then Some (finish None b (restorePrefix (rq_hints rq) st) co)
                else if \<not> rr_stable r then Some (finish (Some ReconciliationUnstable) b (restorePrefix (rq_hints rq) st) co)
                else if \<not> commit_guard r then Some (finish (Some TargetStateRequired) b (restorePrefix (rq_hints rq) st) co)
                else Some (co\<lparr>co_running := AwaitCommit b rq False\<rparr>)
            | Thrown e \<Rightarrow> Some (finish (Some (PortError e)) b (restorePrefix (rq_hints rq) st) co)
            | _ \<Rightarrow> None))
      | AwaitCommit b rq committed \<Rightarrow>
          (case jget (co_states co) b of None \<Rightarrow> None | Some st \<Rightarrow>
           (case reply of
              Outcome Committed \<Rightarrow> if committed then Some (settle b (rq_hints rq) (finish None b st co)) else None
            | Outcome StaleOutcome \<Rightarrow> if committed then None else Some (finish None b (restorePrefix (rq_hints rq) st) co)
            | Thrown e \<Rightarrow> Some (finish (Some (PortError e)) b (restorePrefix (rq_hints rq) st) co)
            | _ \<Rightarrow> None))
      | AwaitSetStale b \<Rightarrow>
          (case jget (co_states co) b of None \<Rightarrow> None | Some st \<Rightarrow>
           (case reply of
              Written \<Rightarrow>
                (let st = st\<lparr>bs_persisted := True, bs_durable := Stale\<rparr>; (hints, st') = takeHints st
                 in Some ((put_state b st' co)\<lparr>co_running := AwaitAdministrative b
                      (co_request cfg st' AdministrativeKind AdministrativeChange hints True (bs_source_epoch st'))\<rparr>))
            | Thrown e \<Rightarrow> Some (fail_barrier cfg b st co)
            | _ \<Rightarrow> None))
      | AwaitAdministrative b rq \<Rightarrow>
          (case jget (co_states co) b of None \<Rightarrow> None | Some st \<Rightarrow>
           (case reply of
              Reconciled r \<Rightarrow> Some (co\<lparr>co_running := AwaitComplete b
                (co_request cfg st Complete SourceBarrier (rq_hints rq) True (rq_source_epoch rq))\<rparr>)
            | Thrown e \<Rightarrow> Some (fail_barrier cfg b (restorePrefix (rq_hints rq) st) co)
            | _ \<Rightarrow> None))
      | AwaitComplete b rq \<Rightarrow>
          (case jget (co_states co) b of None \<Rightarrow> None | Some st \<Rightarrow>
           (case reply of
              Reconciled r \<Rightarrow>
                if \<not> rr_stable r then Some (fail_barrier cfg b (restorePrefix (rq_hints rq) st) co)
                else if bs_source_epoch st \<noteq> rq_source_epoch rq then Some (continue_barrier cfg b (restorePrefix (rq_hints rq) st) co)
                else if \<not> commit_guard r then Some (fail_barrier cfg b (restorePrefix (rq_hints rq) st) co)
                else Some (co\<lparr>co_running := AwaitBarrierCommit b rq False\<rparr>)
            | Thrown e \<Rightarrow> Some (fail_barrier cfg b (restorePrefix (rq_hints rq) st) co)
            | _ \<Rightarrow> None))
      | AwaitBarrierCommit b rq committed \<Rightarrow>
          (case jget (co_states co) b of None \<Rightarrow> None | Some st \<Rightarrow>
           (case reply of
              Outcome Committed \<Rightarrow>
                if \<not> committed then None
                else if bs_source_epoch st \<noteq> rq_source_epoch rq
                then Some (settle b (rq_hints rq) (continue_barrier cfg b (st\<lparr>bs_persisted := False\<rparr>) co))
                else Some (settle b (rq_hints rq) (continue_barrier cfg b
                       (st\<lparr>bs_barrier_open := False, bs_barrier_state := Current, bs_barrier_attempts := 0,
                           bs_barrier_error_code := None, bs_persisted := True\<rparr>) co))
            | Outcome StaleOutcome \<Rightarrow>
                if committed then None else Some (continue_barrier cfg b (restorePrefix (rq_hints rq) st) co)
            | Thrown e \<Rightarrow> Some (fail_barrier cfg b (restorePrefix (rq_hints rq) st) co)
            | _ \<Rightarrow> None))
      | AwaitSetDegraded b \<Rightarrow>
          (case jget (co_states co) b of None \<Rightarrow> None | Some st \<Rightarrow>
           (case reply of
              Written \<Rightarrow> Some (finish None b (st\<lparr>bs_persisted := True, bs_durable := Degraded\<rparr>) co)
            | Thrown e \<Rightarrow> Some (finish None b (st\<lparr>bs_barrier_error_code := Some StateWriteFailed, bs_persisted := False\<rparr>) co)
            | _ \<Rightarrow> None)))"

text \<open>
  The port commits: its documented contract is to consult \<open>is_current\<close> and to commit only when it
  holds.  A barrier commit also stores the state \<open>current\<close>.
\<close>

definition port_commit :: "coordinator \<Rightarrow> coordinator option" where
  "port_commit co =
     (case co_running co of
        AwaitCommit b rq False \<Rightarrow>
          (case jget (co_states co) b of None \<Rightarrow> None | Some st \<Rightarrow>
             if rq_kind rq \<noteq> Targeted \<or> \<not> bs_barrier_open st then Some (co\<lparr>co_running := AwaitCommit b rq True\<rparr>) else None)
      | AwaitBarrierCommit b rq False \<Rightarrow>
          (case jget (co_states co) b of None \<Rightarrow> None | Some st \<Rightarrow>
             if bs_barrier_open st \<and> bs_barrier_state st = Stale \<and> bs_source_epoch st = rq_source_epoch rq
             then Some ((put_state b (st\<lparr>bs_durable := Current\<rparr>) co)\<lparr>co_running := AwaitBarrierCommit b rq True\<rparr>) else None)
      | _ \<Rightarrow> None)"

datatype co_event =
    Accept watcher_hint_batch | ProviderRestarted string | RecoverEv string | ResumeEv string | RequestFreshness string bool
  | QuietDue string | MaximumDue string | PeriodicDue string | RetryDue string nat
  | CloseEv | Tick | StartNext | PortCommits | PortReplies port_reply

definition due :: "nat option \<Rightarrow> nat \<Rightarrow> bool" where
  "due t now = (case t of None \<Rightarrow> False | Some d \<Rightarrow> d \<le> now)"

text \<open>An API call that throws leaves the coordinator as it is.\<close>

definition api :: "(engine_error + coordinator) \<Rightarrow> coordinator \<Rightarrow> coordinator option" where
  "api r co = Some (case r of Inl _ \<Rightarrow> co | Inr co' \<Rightarrow> co')"

definition timer_event ::
  "string \<Rightarrow> (binding_state \<Rightarrow> bool) \<Rightarrow> (binding_state \<Rightarrow> binding_state \<times> queued_op list) \<Rightarrow> coordinator \<Rightarrow> coordinator option" where
  "timer_event b enabled f co =
     (case jget (co_states co) b of
        None \<Rightarrow> None
      | Some st \<Rightarrow> if enabled st then (case f st of (st', ops) \<Rightarrow> Some (enqueue ops (put_state b st' co))) else None)"

fun co_react :: "co_config \<Rightarrow> co_event \<Rightarrow> coordinator \<Rightarrow> coordinator option" where
  "co_react cfg (Accept batch) co = api (co_accept cfg batch co) co"
| "co_react cfg (ProviderRestarted b) co = api (provider_restarted b co) co"
| "co_react cfg (RecoverEv b) co = api (co_recover b co) co"
| "co_react cfg (ResumeEv b) co = api (co_resume b co) co"
| "co_react cfg (RequestFreshness b proven) co = api (request_freshness b proven co) co"
| "co_react cfg (QuietDue b) co = timer_event b (\<lambda>st. due (bs_quiet_timer st) (co_now co)) fire_quiet co"
| "co_react cfg (MaximumDue b) co = timer_event b (\<lambda>st. due (bs_maximum_timer st) (co_now co)) fire_maximum co"
| "co_react cfg (PeriodicDue b) co =
     timer_event b (\<lambda>st. due (bs_periodic_timer st) (co_now co)) (fire_periodic cfg (co_now co) (co_closed co)) co"
| "co_react cfg (RetryDue b t) co = timer_event b (\<lambda>st. list_ex (\<lambda>(i, d). i = t \<and> d \<le> co_now co) (bs_retry_pending st)) (fire_retry t) co"
| "co_react cfg CloseEv co = Some (co_close co)"
| "co_react cfg Tick co = Some (co\<lparr>co_now := co_now co + 1\<rparr>)"
| "co_react cfg StartNext co =
     (if co_running co \<noteq> NotRunning then None
      else case co_tail co of [] \<Rightarrow> None | op # ops \<Rightarrow> Some (start_op cfg op (co\<lparr>co_tail := ops\<rparr>)))"
| "co_react cfg PortCommits co = port_commit co"
| "co_react cfg (PortReplies reply) co = resume_op cfg reply co"

end
