(* ===== verification/Reconciliation_Safety.thy ===== *)
theory Reconciliation_Safety
  imports Reconciliation
begin

text \<open>
  The invariant of the reconciliation coordinator and its properties.  \<open>binding_ok\<close> is the invariant of one
  binding; \<open>local_ok\<close> is what every method on one binding guarantees about the state it returns and the
  operations it enqueues; \<open>co_inv\<close> lifts both to the coordinator with its queue and its running operation.
\<close>

section \<open>What a method on one binding guarantees\<close>

definition binding_ok :: "co_config \<Rightarrow> binding_state \<Rightarrow> bool" where
  "binding_ok cfg st \<longleftrightarrow>
     (bs_barrier_state st = Current \<longleftrightarrow> \<not> bs_barrier_open st)
   \<and> bs_barrier_attempts st \<le> cc_maximum_attempts cfg
   \<and> (bs_barrier_state st = Degraded \<longleftrightarrow> bs_barrier_attempts st = cc_maximum_attempts cfg)
   \<and> (bs_barrier_open st \<longrightarrow> bs_first_hint_at st = None \<and> bs_quiet_timer st = None)
   \<and> bs_maximum_timer st = map_option (\<lambda>f. f + cc_maximum_ms cfg) (bs_first_hint_at st)
   \<and> (bs_first_hint_at st = None \<longrightarrow> bs_quiet_timer st = None)"

fun op_hints :: "string \<Rightarrow> queued_op \<Rightarrow> watcher_hint multiset" where
  "op_hints b (OpReconcile b' kind trigger sb hints epoch) = (if b = b' then mset hints else {#})"
| "op_hints b (OpBarrier b') = {#}"

abbreviation ops_hints :: "string \<Rightarrow> queued_op list \<Rightarrow> watcher_hint multiset" where
  "ops_hints b ops \<equiv> sum_list (map (op_hints b) ops)"

abbreviation stale_open :: "binding_state \<Rightarrow> bool" where
  "stale_open st \<equiv> bs_barrier_open st \<and> bs_barrier_state st = Stale"

definition local_ok ::
  "co_config \<Rightarrow> watcher_hint list \<Rightarrow> binding_state \<Rightarrow> binding_state \<times> queued_op list \<Rightarrow> bool" where
  "local_ok cfg extra st r \<longleftrightarrow> (case r of (st', ops) \<Rightarrow>
     binding_ok cfg st'
   \<and> bs_binding st' = bs_binding st
   \<and> mset (bs_hints st') + ops_hints (binding_id st) ops = mset (bs_hints st) + mset extra
   \<and> (\<forall>b. b \<noteq> binding_id st \<longrightarrow> ops_hints b ops = {#})
   \<and> (bs_barrier_open st \<longrightarrow> bs_barrier_open st' \<and> bs_source_epoch st \<le> bs_source_epoch st'
        \<and> (bs_source_epoch st' = bs_source_epoch st \<longrightarrow> bs_hints st' = bs_hints st))
   \<and> (stale_open st \<longrightarrow> stale_open st')
   \<and> (stale_open st' \<longrightarrow> OpBarrier (binding_id st) \<in> set ops
        \<or> stale_open st \<and> (bs_retry_pending st \<noteq> [] \<longrightarrow> bs_retry_pending st' \<noteq> [])))"

lemmas binding_ops = clearBatchTimers_def takeHints_def restorePrefix_def push_hints_def queueFlush_def completeNow_def
  scheduleBatch_def open_barrier_def binding_id_def Let_def

lemma flush_local:
  assumes "binding_ok cfg st" and "kind = Targeted \<or> \<not> bs_barrier_open st"
  shows "local_ok cfg [] st (queueFlush kind trigger sb st)"
  using assms by (auto simp: local_ok_def binding_ok_def binding_ops)

lemma flush_pushed:
  assumes "binding_ok cfg st" and "\<not> bs_barrier_open st"
  shows "local_ok cfg hs st (queueFlush kind trigger sb (push_hints hs st))"
  using assms by (auto simp: local_ok_def binding_ok_def binding_ops)

lemma complete_local:
  assumes "binding_ok cfg st"
  shows "local_ok cfg hs st (completeNow trigger hs st)"
  using assms by (auto simp: local_ok_def binding_ok_def binding_ops)

lemma accept_local:
  assumes "binding_ok cfg st" and "0 < cc_maximum_attempts cfg"
  shows "local_ok cfg [h] st (acceptHint cfg now h st)"
proof -
  let ?st = "st\<lparr>bs_source_epoch := bs_source_epoch st + 1\<rparr>"
  have ok: "binding_ok cfg ?st" using assms(1) by (simp add: binding_ok_def)
  have lift: "local_ok cfg [h] st r" if "local_ok cfg [h] ?st r" for r
    using that by (auto simp: local_ok_def binding_id_def split: prod.splits)
  consider (barrier) "source_barrier_event (wh_event_class h)"
    | (lost) "\<not> source_barrier_event (wh_event_class h)" "wh_event_class h = Overflow \<or> wh_event_class h = ProviderReset"
    | (held) "\<not> source_barrier_event (wh_event_class h)" "\<not> (wh_event_class h = Overflow \<or> wh_event_class h = ProviderReset)"
        "bs_barrier_open st"
    | (plain) "\<not> source_barrier_event (wh_event_class h)" "\<not> (wh_event_class h = Overflow \<or> wh_event_class h = ProviderReset)"
        "\<not> bs_barrier_open st"
    by blast
  then show ?thesis
  proof cases
    case barrier
    then show ?thesis
      using assms by (cases "bs_barrier_state st") (auto simp: acceptHint_def Let_def local_ok_def binding_ok_def binding_ops)
  next
    case lost
    then have "acceptHint cfg now h st = completeNow (if wh_event_class h = Overflow then WatcherOverflow else ProviderResetTrigger) [h] ?st"
      by (auto simp: acceptHint_def Let_def)
    then show ?thesis using lift complete_local [OF ok] by simp
  next
    case held
    then show ?thesis using assms by (auto simp: acceptHint_def Let_def local_ok_def binding_ok_def binding_ops)
  next
    case plain
    show ?thesis
    proof (cases "wh_event_class h = Absence \<or> wh_event_class h = Exclusion")
      case True
      then have "acceptHint cfg now h st = queueFlush Targeted
          (if wh_event_class h = Absence then AbsenceBarrier else ExclusionBarrier) False (push_hints [h] ?st)"
        using plain by (auto simp: acceptHint_def Let_def)
      then show ?thesis using lift flush_pushed [OF ok] plain(3) by simp
    next
      case False
      then have "acceptHint cfg now h st = (scheduleBatch cfg now (push_hints [h] ?st), [])"
        using plain by (auto simp: acceptHint_def Let_def)
      then show ?thesis using assms plain(3) by (auto simp: local_ok_def binding_ok_def binding_ops Let_def)
    qed
  qed
qed

lemma local_ok_compose:
  assumes "local_ok cfg xs st (st1, ops1)" and "local_ok cfg ys st1 (st2, ops2)"
  shows "local_ok cfg (xs @ ys) st (st2, ops1 @ ops2)"
proof -
  note A = assms(1) [unfolded local_ok_def prod.case] and B = assms(2) [unfolded local_ok_def prod.case]
  have id: "binding_id st1 = binding_id st" using A by (simp add: binding_id_def)
  have "mset (bs_hints st2) + ops_hints (binding_id st) ops2 = mset (bs_hints st1) + mset ys" using B id by simp
  moreover have "mset (bs_hints st1) + ops_hints (binding_id st) ops1 = mset (bs_hints st) + mset xs" using A by simp
  ultimately have "mset (bs_hints st2) + ops_hints (binding_id st) (ops1 @ ops2) = mset (bs_hints st) + mset (xs @ ys)"
    by (simp add: ac_simps) (metis add.assoc add.commute)
  moreover have "bs_barrier_open st2 \<and> bs_source_epoch st \<le> bs_source_epoch st2
      \<and> (bs_source_epoch st2 = bs_source_epoch st \<longrightarrow> bs_hints st2 = bs_hints st)" if "bs_barrier_open st"
  proof -
    have "bs_barrier_open st1" "bs_source_epoch st \<le> bs_source_epoch st1"
      "bs_source_epoch st1 = bs_source_epoch st \<longrightarrow> bs_hints st1 = bs_hints st" using A that by blast+
    moreover from this(1) have "bs_barrier_open st2" "bs_source_epoch st1 \<le> bs_source_epoch st2"
      "bs_source_epoch st2 = bs_source_epoch st1 \<longrightarrow> bs_hints st2 = bs_hints st1" using B by blast+
    ultimately show ?thesis by (metis le_antisym order_trans)
  qed
  moreover have "OpBarrier (binding_id st) \<in> set (ops1 @ ops2) \<or> stale_open st \<and> (bs_retry_pending st \<noteq> [] \<longrightarrow> bs_retry_pending st2 \<noteq> [])"
    if "stale_open st2"
    using A B id that by (metis Un_iff set_append)
  moreover have "stale_open st \<longrightarrow> stale_open st2" using A B by blast
  moreover have "\<forall>b. b \<noteq> binding_id st \<longrightarrow> ops_hints b (ops1 @ ops2) = {#}" using A B id by simp
  ultimately show ?thesis using A B unfolding local_ok_def prod.case by auto
qed

lemma accepts_local:
  "binding_ok cfg st \<Longrightarrow> 0 < cc_maximum_attempts cfg \<Longrightarrow> local_ok cfg hs st (acceptHints cfg now hs st)"
proof (induction hs arbitrary: st)
  case Nil
  then show ?case by (auto simp: local_ok_def)
next
  case (Cons h hs)
  obtain st1 ops1 where 1: "acceptHint cfg now h st = (st1, ops1)" by fastforce
  obtain st2 ops2 where 2: "acceptHints cfg now hs st1 = (st2, ops2)" by fastforce
  have ok1: "local_ok cfg [h] st (st1, ops1)" using accept_local [OF Cons.prems] 1 by metis
  then have "binding_ok cfg st1" by (simp add: local_ok_def)
  then have "local_ok cfg hs st1 (st2, ops2)" using Cons.IH Cons.prems(2) 2 by metis
  then show ?case using local_ok_compose [OF ok1] 1 2 by simp
qed

lemma timers_local:
  assumes "binding_ok cfg st"
  shows "bs_quiet_timer st \<noteq> None \<Longrightarrow> local_ok cfg [] st (fire_quiet st)"
    and "bs_maximum_timer st \<noteq> None \<Longrightarrow> local_ok cfg [] st (fire_maximum st)"
    and "local_ok cfg [] st (fire_periodic cfg now closed st)"
    and "local_ok cfg [] st (fire_retry t st)"
  using assms by (auto simp: fire_quiet_def fire_maximum_def fire_periodic_def fire_retry_def schedulePeriodic_def
      local_ok_def binding_ok_def binding_ops Let_def)

section \<open>The invariant of the coordinator\<close>

fun running_hints :: "string \<Rightarrow> running \<Rightarrow> watcher_hint multiset" where
  "running_hints b (AwaitReconcile b' rq) = (if b = b' then mset (rq_hints rq) else {#})"
| "running_hints b (AwaitCommit b' rq c) = (if b = b' then mset (rq_hints rq) else {#})"
| "running_hints b (AwaitAdministrative b' rq) = (if b = b' then mset (rq_hints rq) else {#})"
| "running_hints b (AwaitComplete b' rq) = (if b = b' then mset (rq_hints rq) else {#})"
| "running_hints b (AwaitBarrierCommit b' rq c) = (if b = b' then mset (rq_hints rq) else {#})"
| "running_hints b _ = {#}"

fun running_barrier :: "string \<Rightarrow> running \<Rightarrow> bool" where
  "running_barrier b (AwaitSetStale b') = (b = b')"
| "running_barrier b (AwaitAdministrative b' rq) = (b = b')"
| "running_barrier b (AwaitComplete b' rq) = (b = b')"
| "running_barrier b (AwaitBarrierCommit b' rq c) = (b = b')"
| "running_barrier b _ = False"

fun running_on :: "running \<Rightarrow> string \<Rightarrow> bool" where
  "running_on NotRunning b = True"
| "running_on (AwaitReconcile b' rq) b = (b = b')"
| "running_on (AwaitCommit b' rq c) b = (b = b')"
| "running_on (AwaitSetStale b') b = (b = b')"
| "running_on (AwaitAdministrative b' rq) b = (b = b')"
| "running_on (AwaitComplete b' rq) b = (b = b')"
| "running_on (AwaitBarrierCommit b' rq c) b = (b = b')"
| "running_on (AwaitSetDegraded b') b = (b = b')"

text \<open>What holds of the binding whose operation is suspended.\<close>

definition epoch_guard :: "reconciliation_request \<Rightarrow> binding_state \<Rightarrow> bool" where
  "epoch_guard rq st \<longleftrightarrow> stale_open st \<and> rq_source_epoch rq \<le> bs_source_epoch st
     \<and> (bs_source_epoch st = rq_source_epoch rq \<longrightarrow> bs_hints st = [])"

fun suspended_ok :: "running \<Rightarrow> binding_state \<Rightarrow> bool" where
  "suspended_ok (AwaitSetStale b) st = stale_open st"
| "suspended_ok (AwaitAdministrative b rq) st = epoch_guard rq st"
| "suspended_ok (AwaitComplete b rq) st = epoch_guard rq st"
| "suspended_ok (AwaitBarrierCommit b rq c) st = epoch_guard rq st"
| "suspended_ok (AwaitSetDegraded b) st = bs_barrier_open st"
| "suspended_ok _ st = True"

definition hints_of :: "string \<Rightarrow> (string \<times> watcher_hint) list \<Rightarrow> watcher_hint multiset" where
  "hints_of b xs = mset (map snd (filter (\<lambda>x. fst x = b) xs))"

lemma hints_of_append [simp]: "hints_of b (xs @ ys) = hints_of b xs + hints_of b ys"
  by (simp add: hints_of_def)

lemma hints_of_pairs [simp]: "hints_of b (map (Pair b') hs) = (if b = b' then mset hs else {#})"
  by (simp add: hints_of_def filter_map o_def)

definition conserved :: "string \<Rightarrow> binding_state \<Rightarrow> coordinator \<Rightarrow> bool" where
  "conserved b st co \<longleftrightarrow> hints_of b (co_accepted co) =
     mset (bs_hints st) + ops_hints b (co_tail co) + running_hints b (co_running co) + hints_of b (co_settled co)"

definition alive :: "string \<Rightarrow> binding_state \<Rightarrow> coordinator \<Rightarrow> bool" where
  "alive b st co \<longleftrightarrow> (stale_open st \<and> \<not> co_closed co \<longrightarrow>
     bs_retry_pending st \<noteq> [] \<or> OpBarrier b \<in> set (co_tail co) \<or> running_barrier b (co_running co))"

definition co_inv :: "co_config \<Rightarrow> coordinator \<Rightarrow> bool" where
  "co_inv cfg co \<longleftrightarrow>
     (\<forall>b st. jget (co_states co) b = Some st \<longrightarrow> binding_ok cfg st \<and> binding_id st = b \<and> conserved b st co \<and> alive b st co
        \<and> (running_on (co_running co) b \<longrightarrow> suspended_ok (co_running co) st))
   \<and> (\<forall>b. running_on (co_running co) b \<longrightarrow> co_running co = NotRunning \<or> b \<in> set (jkeys (co_states co)))"

lemma co_invD:
  assumes "co_inv cfg co" and "jget (co_states co) b = Some st"
  shows "binding_ok cfg st" "binding_id st = b" "conserved b st co" "alive b st co"
    "running_on (co_running co) b \<Longrightarrow> suspended_ok (co_running co) st"
  using assms unfolding co_inv_def by blast+

lemma suspended_local:
  assumes "local_ok cfg extra st (st', ops)" and "suspended_ok r st"
  shows "suspended_ok r st'"
  using assms by (cases r) (auto simp: local_ok_def epoch_guard_def)

text \<open>A method call on one binding keeps the invariant.\<close>

lemma inv_local:
  assumes inv: "co_inv cfg co" and st: "jget (co_states co) b = Some st" and loc: "local_ok cfg extra st (st', ops)"
    and co': "co' = (enqueue ops (put_state b st' co))\<lparr>co_accepted := co_accepted co @ map (Pair b) extra\<rparr>"
  shows "co_inv cfg co'"
proof -
  note S = co_invD [OF inv st]
  have id: "binding_id st' = b" using loc S(2) by (simp add: local_ok_def binding_id_def)
  have f: "co_running co' = co_running co" "co_closed co' = co_closed co" "co_settled co' = co_settled co"
    "co_tail co' = co_tail co @ ops" "co_accepted co' = co_accepted co @ map (Pair b) extra"
    "co_states co' = jset b st' (co_states co)"
    by (simp_all add: co' enqueue_def put_state_def)
  have "binding_ok cfg u \<and> binding_id u = c \<and> conserved c u co' \<and> alive c u co'
      \<and> (running_on (co_running co') c \<longrightarrow> suspended_ok (co_running co') u)"
    if u: "jget (co_states co') c = Some u" for c u
  proof (cases "c = b")
    case True
    then have [simp]: "u = st'" using u f by simp
    have "mset (bs_hints st') + ops_hints b ops = mset (bs_hints st) + mset extra"
      using loc S(2) by (simp add: local_ok_def)
    then have "conserved b st' co'" using S(3) by (simp add: conserved_def f ac_simps)
    moreover have "alive b st' co'" using loc S(2,4) by (auto simp: alive_def local_ok_def f)
    ultimately show ?thesis using True id loc S(5) suspended_local [OF loc] f by (auto simp: local_ok_def)
  next
    case False
    then have u0: "jget (co_states co) c = Some u" using u f by simp
    note U = co_invD [OF inv u0]
    have "ops_hints c ops = {#}" using loc S(2) False by (simp add: local_ok_def)
    then show ?thesis using U False by (auto simp: conserved_def alive_def f)
  qed
  moreover have "co_running co' = NotRunning \<or> c \<in> set (jkeys (co_states co'))" if "running_on (co_running co') c" for c
    using inv that unfolding co_inv_def f jkeys_jset by blast
  ultimately show ?thesis unfolding co_inv_def by blast
qed

text \<open>Moving the running operation of one binding from one await point to the next keeps it too.\<close>

lemma inv_replace:
  assumes inv: "co_inv cfg co" and st: "jget (co_states co) b = Some st" and on: "running_on (co_running co) b"
    and states: "co_states co' = jset b st' (co_states co)" and closed: "co_closed co' = co_closed co"
    and accepted: "co_accepted co' = co_accepted co"
    and ok: "binding_ok cfg st'" "bs_binding st' = bs_binding st" "alive b st' co'" "suspended_ok (co_running co') st'"
    and on': "co_running co' = NotRunning \<or> (\<forall>c. running_on (co_running co') c \<longleftrightarrow> c = b)"
    and cons: "mset (bs_hints st') + ops_hints b (co_tail co') + running_hints b (co_running co') + hints_of b (co_settled co')
       = mset (bs_hints st) + ops_hints b (co_tail co) + running_hints b (co_running co) + hints_of b (co_settled co)"
    and others: "\<And>c. c \<noteq> b \<Longrightarrow> ops_hints c (co_tail co') = ops_hints c (co_tail co) \<and> hints_of c (co_settled co') = hints_of c (co_settled co)
       \<and> (OpBarrier c \<in> set (co_tail co) \<longrightarrow> OpBarrier c \<in> set (co_tail co'))"
  shows "co_inv cfg co'"
proof -
  note S = co_invD [OF inv st]
  have away: "running_hints c r = {#} \<and> \<not> running_barrier c r" if "running_on r b" "c \<noteq> b" for c r
    using that by (cases r) auto
  have away': "running_hints c (co_running co') = {#} \<and> \<not> running_barrier c (co_running co')" if "c \<noteq> b" for c
    using on' that away [of "co_running co'" c] by (cases "co_running co' = NotRunning") auto
  have "binding_ok cfg u \<and> binding_id u = c \<and> conserved c u co' \<and> alive c u co'
      \<and> (running_on (co_running co') c \<longrightarrow> suspended_ok (co_running co') u)"
    if u: "jget (co_states co') c = Some u" for c u
  proof (cases "c = b")
    case True
    then have [simp]: "u = st'" using u states by simp
    have "conserved b st' co'" using S(3) cons accepted by (simp add: conserved_def)
    then show ?thesis using True ok S(2) by (simp add: binding_id_def)
  next
    case False
    then have u0: "jget (co_states co) c = Some u" using u states by simp
    note U = co_invD [OF inv u0]
    have "conserved c u co'" using U(3) away [OF on False] away' [OF False] others [OF False] accepted by (simp add: conserved_def)
    moreover have "alive c u co'" using U(4) away [OF on False] others [OF False] closed by (auto simp: alive_def)
    ultimately show ?thesis using U False on' by auto
  qed
  moreover have "co_running co' = NotRunning \<or> c \<in> set (jkeys (co_states co'))" if "running_on (co_running co') c" for c
    using on' that unfolding states jkeys_jset by blast
  ultimately show ?thesis unfolding co_inv_def by blast
qed

section \<open>Every reaction keeps the invariant\<close>

lemma inv_local_plain:
  assumes "co_inv cfg co" and "jget (co_states co) b = Some st" and "local_ok cfg [] st (st', ops)"
  shows "co_inv cfg (enqueue ops (put_state b st' co))"
  by (rule inv_local [OF assms]) (simp add: enqueue_def put_state_def)

lemma inv_with_state:
  assumes "co_inv cfg co" and "with_state b f co = Inr co'"
    and "\<And>st. jget (co_states co) b = Some st \<Longrightarrow> binding_ok cfg st \<Longrightarrow> local_ok cfg [] st (f st)"
  shows "co_inv cfg co'"
proof -
  obtain st st' ops where st: "jget (co_states co) b = Some st" "f st = (st', ops)" "co' = enqueue ops (put_state b st' co)"
    using assms(2) by (auto simp: with_state_def split: option.splits prod.splits)
  have "local_ok cfg [] st (st', ops)" using assms(3) [OF st(1)] co_invD [OF assms(1) st(1)] st(2) by simp
  then show ?thesis unfolding st(3) by (rule inv_local_plain [OF assms(1) st(1)])
qed

lemma inv_timer:
  assumes "co_inv cfg co" and "timer_event b enabled f co = Some co'"
    and "\<And>st. enabled st \<Longrightarrow> binding_ok cfg st \<Longrightarrow> local_ok cfg [] st (f st)"
  shows "co_inv cfg co'"
proof -
  obtain st st' ops where st: "jget (co_states co) b = Some st" "enabled st" "f st = (st', ops)" "co' = enqueue ops (put_state b st' co)"
    using assms(2) by (auto simp: timer_event_def split: option.splits prod.splits if_splits)
  have "local_ok cfg [] st (st', ops)" using assms(3) [OF st(2)] co_invD [OF assms(1) st(1)] st(3) by simp
  then show ?thesis unfolding st(4) by (rule inv_local_plain [OF assms(1) st(1)])
qed

lemma inv_accept:
  assumes "co_inv cfg co" and "0 < cc_maximum_attempts cfg" and "co_accept cfg batch co = Inr co'"
  shows "co_inv cfg co'"
proof -
  let ?b = "hb_source_provider_binding_id batch"
  obtain st st' ops where st: "jget (co_states co) ?b = Some st" "acceptHints cfg (co_now co) (hb_events batch) st = (st', ops)"
    and co': "co' = (enqueue ops (put_state ?b st' co))\<lparr>co_accepted := co_accepted co @ map (Pair ?b) (hb_events batch)\<rparr>"
    using assms(3)
    by (auto simp: co_accept_def with_state_def Let_def enqueue_def put_state_def res_bind_Inr_iff split: option.splits prod.splits if_splits)
  have "local_ok cfg (hb_events batch) st (st', ops)"
    using accepts_local [of cfg st] co_invD [OF assms(1) st(1)] assms(2) st(2) by metis
  then show ?thesis by (rule inv_local [OF assms(1) st(1) _ co'])
qed

lemma inv_close: "co_inv cfg co \<Longrightarrow> co_inv cfg (co_close co)"
proof -
  assume inv: "co_inv cfg co"
  show ?thesis
  proof (cases "co_closed co")
    case True
    then show ?thesis using inv by (simp add: co_close_def)
  next
    case False
    let ?co = "co\<lparr>co_closed := True, co_states := map (\<lambda>(k, st). (k, clearAllTimers st)) (co_states co)\<rparr>"
    have get: "jget (co_states ?co) b = map_option clearAllTimers (jget (co_states co) b)" for b
      by (simp add: map_of_map)
    have keys: "set (jkeys (co_states ?co)) = set (jkeys (co_states co))" by (simp add: image_image case_prod_beta)
    have same: "bs_hints (clearAllTimers st) = bs_hints st" "bs_barrier_open (clearAllTimers st) = bs_barrier_open st"
      "bs_barrier_state (clearAllTimers st) = bs_barrier_state st" "bs_source_epoch (clearAllTimers st) = bs_source_epoch st"
      "binding_id (clearAllTimers st) = binding_id st" for st
      by (simp_all add: clearAllTimers_def clearBatchTimers_def binding_id_def Let_def)
    have ok: "binding_ok cfg st \<Longrightarrow> binding_ok cfg (clearAllTimers st)" for st
      by (simp add: binding_ok_def clearAllTimers_def clearBatchTimers_def Let_def)
    have susp: "suspended_ok r (clearAllTimers st) = suspended_ok r st" for r st
      by (cases r) (simp_all add: same epoch_guard_def)
    have "binding_ok cfg u \<and> binding_id u = c \<and> conserved c u ?co \<and> alive c u ?co \<and> (running_on (co_running ?co) c \<longrightarrow> suspended_ok (co_running ?co) u)"
      if u: "jget (co_states ?co) c = Some u" for c u
    proof -
      obtain st where st: "jget (co_states co) c = Some st" "u = clearAllTimers st" using u get by auto
      then show ?thesis using co_invD [OF inv st(1)] ok by (simp add: same susp conserved_def alive_def)
    qed
    moreover have "co_running ?co = NotRunning \<or> c \<in> set (jkeys (co_states ?co))" if "running_on (co_running ?co) c" for c
      unfolding keys using inv that by (simp add: co_inv_def)
    ultimately have "co_inv cfg ?co" unfolding co_inv_def by blast
    then show ?thesis using False by (simp add: co_close_def)
  qed
qed

text \<open>The loop head and the failure path of the barrier.\<close>

lemma barrier_loop_ok:
  assumes "binding_ok cfg st" and "barrier_loop cfg closed b st = (st', r)"
  shows "binding_ok cfg st'" "bs_binding st' = bs_binding st" "suspended_ok r st'"
    "mset (bs_hints st') + running_hints b r = mset (bs_hints st)"
    "stale_open st' \<Longrightarrow> \<not> closed \<Longrightarrow> running_barrier b r"
    "r = NotRunning \<or> (\<forall>c. running_on r c \<longleftrightarrow> c = b)"
  using assms
  by (auto simp: barrier_loop_def takeHints_def clearBatchTimers_def binding_ok_def epoch_guard_def co_request_def
      split: if_splits; cases "bs_barrier_state st"; auto)+

lemma barrierFailed_ok:
  assumes "binding_ok cfg st" and "stale_open st" and "barrierFailed cfg now t b st = (st', r)"
  shows "binding_ok cfg st'" "bs_binding st' = bs_binding st" "suspended_ok r st'" "bs_hints st' = bs_hints st"
    "stale_open st' \<Longrightarrow> bs_retry_pending st' \<noteq> []" "running_hints b r = {#}"
    "r = NotRunning \<or> (\<forall>c. running_on r c \<longleftrightarrow> c = b)"
  using assms by (auto simp: barrierFailed_def binding_ok_def Let_def split: if_splits)

lemma restore_ok:
  "binding_ok cfg (restorePrefix hs st) = binding_ok cfg st" "bs_binding (restorePrefix hs st) = bs_binding st"
  "bs_hints (restorePrefix hs st) = hs @ bs_hints st" "bs_barrier_open (restorePrefix hs st) = bs_barrier_open st"
  "bs_barrier_state (restorePrefix hs st) = bs_barrier_state st" "bs_retry_pending (restorePrefix hs st) = bs_retry_pending st"
  "bs_source_epoch (restorePrefix hs st) = bs_source_epoch st"
  by (auto simp: restorePrefix_def binding_ok_def)

lemmas co_record = put_state_def finish_def settle_def enqueue_def

lemma inv_continue:
  assumes inv: "co_inv cfg co" and st: "jget (co_states co) b = Some st" and on: "running_on (co_running co) b"
    and st1: "binding_ok cfg st1" "bs_binding st1 = bs_binding st"
    and cons: "mset (bs_hints st1) + mset hs = mset (bs_hints st) + running_hints b (co_running co)"
  shows "co_inv cfg (settle b hs (continue_barrier cfg b st1 co))"
proof -
  obtain st' r where l: "barrier_loop cfg (co_closed co) b st1 = (st', r)" by fastforce
  note L = barrier_loop_ok [OF st1(1) l]
  show ?thesis
    by (rule inv_replace [OF inv st on, of _ st'])
       (use L st1 cons in \<open>auto simp: continue_barrier_def co_record l alive_def ac_simps\<close>)
qed

lemma inv_continue_plain:
  assumes "co_inv cfg co" and "jget (co_states co) b = Some st" and "running_on (co_running co) b"
    and "binding_ok cfg st1" "bs_binding st1 = bs_binding st"
    and "mset (bs_hints st1) = mset (bs_hints st) + running_hints b (co_running co)"
  shows "co_inv cfg (continue_barrier cfg b st1 co)"
  using inv_continue [OF assms(1-5), of "[]"] assms(6) by (simp add: settle_def)

lemma inv_fail:
  assumes inv: "co_inv cfg co" and st: "jget (co_states co) b = Some st" and on: "running_on (co_running co) b"
    and st1: "binding_ok cfg st1" "bs_binding st1 = bs_binding st" "stale_open st1"
    and cons: "mset (bs_hints st1) = mset (bs_hints st) + running_hints b (co_running co)"
  shows "co_inv cfg (fail_barrier cfg b st1 co)"
proof -
  obtain st' r where l: "barrierFailed cfg (co_now co) (co_next_timer co) b st1 = (st', r)" by fastforce
  note L = barrierFailed_ok [OF st1(1,3) l]
  show ?thesis
    by (rule inv_replace [OF inv st on, of _ st'])
       (use L st1 cons in \<open>auto simp: fail_barrier_def co_record l alive_def ac_simps\<close>)
qed

lemma inv_finish:
  assumes inv: "co_inv cfg co" and st: "jget (co_states co) b = Some st" and on: "running_on (co_running co) b"
    and st1: "binding_ok cfg st1" "bs_binding st1 = bs_binding st" "stale_open st1 \<Longrightarrow> stale_open st \<and> \<not> running_barrier b (co_running co)"
      "bs_retry_pending st1 = bs_retry_pending st"
    and cons: "mset (bs_hints st1) + mset hs = mset (bs_hints st) + running_hints b (co_running co)"
  shows "co_inv cfg (settle b hs (finish err b st1 co))"
proof -
  have "alive b st co" using co_invD(4) [OF inv st] .
  then show ?thesis
    by (intro inv_replace [OF inv st on, of _ st1])
       (use st1 cons in \<open>auto simp: co_record alive_def ac_simps\<close>)
qed

lemma inv_finish_plain:
  assumes "co_inv cfg co" and "jget (co_states co) b = Some st" and "running_on (co_running co) b"
    and "binding_ok cfg st1" "bs_binding st1 = bs_binding st" "stale_open st1 \<Longrightarrow> stale_open st \<and> \<not> running_barrier b (co_running co)"
      "bs_retry_pending st1 = bs_retry_pending st"
    and "mset (bs_hints st1) = mset (bs_hints st) + running_hints b (co_running co)"
  shows "co_inv cfg (finish err b st1 co)"
  using inv_finish [OF assms(1-7), of "[]"] assms(8) by (simp add: settle_def)

lemma inv_await:
  assumes inv: "co_inv cfg co" and st: "jget (co_states co) b = Some st" and on: "running_on (co_running co) b"
    and r: "\<And>c. running_on r c \<longleftrightarrow> c = b" "suspended_ok r st" "running_hints b r = running_hints b (co_running co)"
      "running_barrier b r = running_barrier b (co_running co)"
  shows "co_inv cfg (co\<lparr>co_running := r\<rparr>)"
proof -
  let ?co = "(put_state b st co)\<lparr>co_running := r\<rparr>"
  have "co_inv cfg ?co"
    by (rule inv_replace [OF inv st on, of _ st])
       (use r co_invD [OF inv st] in \<open>auto simp: co_record alive_def\<close>)
  moreover have "jset b st (co_states co) = co_states co" using st by (rule update_triv)
  ultimately show ?thesis by (simp add: put_state_def)
qed

lemma inv_resume:
  assumes inv: "co_inv cfg co" and r: "resume_op cfg reply co = Some co'"
  shows "co_inv cfg co'"
proof (cases "co_running co")
  case NotRunning
  then show ?thesis using r by (simp add: resume_op_def)
next
  case (AwaitReconcile b rq)
  obtain st where st: "jget (co_states co) b = Some st"
    using r AwaitReconcile by (auto simp: resume_op_def split: option.splits)
  note S = co_invD [OF inv st]
  have undo: "co_inv cfg (finish err b (restorePrefix (rq_hints rq) st) co)" for err
    by (rule inv_finish_plain [OF inv st]) (use S AwaitReconcile in \<open>auto simp: restore_ok\<close>)
  have "co_inv cfg (co\<lparr>co_running := AwaitCommit b rq False\<rparr>)"
    by (rule inv_await [OF inv st]) (use AwaitReconcile in auto)
  then show ?thesis
    using r AwaitReconcile st undo by (auto simp: resume_op_def split: port_reply.splits if_splits)
next
  case (AwaitCommit b rq c)
  obtain st where st: "jget (co_states co) b = Some st"
    using r AwaitCommit by (auto simp: resume_op_def split: option.splits)
  note S = co_invD [OF inv st]
  have undo: "co_inv cfg (finish err b (restorePrefix (rq_hints rq) st) co)" for err
    by (rule inv_finish_plain [OF inv st]) (use S AwaitCommit in \<open>auto simp: restore_ok\<close>)
  have "co_inv cfg (settle b (rq_hints rq) (finish None b st co))"
    by (rule inv_finish [OF inv st]) (use S AwaitCommit in auto)
  then show ?thesis
    using r AwaitCommit st undo by (auto simp: resume_op_def split: port_reply.splits commit_outcome.splits if_splits)
next
  case (AwaitSetStale b)
  obtain st where st: "jget (co_states co) b = Some st"
    using r AwaitSetStale by (auto simp: resume_op_def split: option.splits)
  note S = co_invD [OF inv st]
  have fail: "co_inv cfg (fail_barrier cfg b st co)"
    by (rule inv_fail [OF inv st]) (use S AwaitSetStale in auto)
  let ?st = "clearBatchTimers (st\<lparr>bs_persisted := True, bs_durable := Stale, bs_hints := []\<rparr>)"
  have "co_inv cfg ((put_state b ?st co)\<lparr>co_running := AwaitAdministrative b
      (co_request cfg ?st AdministrativeKind AdministrativeChange (bs_hints st) True (bs_source_epoch ?st))\<rparr>)"
    by (rule inv_replace [OF inv st, of _ ?st])
       (use S AwaitSetStale in \<open>auto simp: co_record alive_def clearBatchTimers_def binding_ok_def epoch_guard_def co_request_def\<close>)
  then show ?thesis
    using r AwaitSetStale st fail by (auto simp: resume_op_def takeHints_def Let_def split: port_reply.splits)
next
  case (AwaitAdministrative b rq)
  obtain st where st: "jget (co_states co) b = Some st"
    using r AwaitAdministrative by (auto simp: resume_op_def split: option.splits)
  note S = co_invD [OF inv st]
  have fail: "co_inv cfg (fail_barrier cfg b (restorePrefix (rq_hints rq) st) co)"
    by (rule inv_fail [OF inv st]) (use S AwaitAdministrative in \<open>auto simp: restore_ok epoch_guard_def\<close>)
  have "co_inv cfg (co\<lparr>co_running := AwaitComplete b (co_request cfg st Complete SourceBarrier (rq_hints rq) True (rq_source_epoch rq))\<rparr>)"
    by (rule inv_await [OF inv st]) (use S AwaitAdministrative in \<open>auto simp: co_request_def epoch_guard_def\<close>)
  then show ?thesis
    using r AwaitAdministrative st fail by (auto simp: resume_op_def split: port_reply.splits)
next
  case (AwaitComplete b rq)
  obtain st where st: "jget (co_states co) b = Some st"
    using r AwaitComplete by (auto simp: resume_op_def split: option.splits)
  note S = co_invD [OF inv st]
  have fail: "co_inv cfg (fail_barrier cfg b (restorePrefix (rq_hints rq) st) co)"
    by (rule inv_fail [OF inv st]) (use S AwaitComplete in \<open>auto simp: restore_ok epoch_guard_def\<close>)
  have again: "co_inv cfg (continue_barrier cfg b (restorePrefix (rq_hints rq) st) co)"
    by (rule inv_continue_plain [OF inv st]) (use S AwaitComplete in \<open>auto simp: restore_ok\<close>)
  have "co_inv cfg (co\<lparr>co_running := AwaitBarrierCommit b rq False\<rparr>)"
    by (rule inv_await [OF inv st]) (use S AwaitComplete in auto)
  then show ?thesis
    using r AwaitComplete st fail again by (auto simp: resume_op_def split: port_reply.splits if_splits)
next
  case (AwaitBarrierCommit b rq c)
  obtain st where st: "jget (co_states co) b = Some st"
    using r AwaitBarrierCommit by (auto simp: resume_op_def split: option.splits)
  note S = co_invD [OF inv st]
  have fail: "co_inv cfg (fail_barrier cfg b (restorePrefix (rq_hints rq) st) co)"
    by (rule inv_fail [OF inv st]) (use S AwaitBarrierCommit in \<open>auto simp: restore_ok epoch_guard_def\<close>)
  have again: "co_inv cfg (continue_barrier cfg b (restorePrefix (rq_hints rq) st) co)"
    by (rule inv_continue_plain [OF inv st]) (use S AwaitBarrierCommit in \<open>auto simp: restore_ok\<close>)
  have moved: "co_inv cfg (settle b (rq_hints rq) (continue_barrier cfg b (st\<lparr>bs_persisted := False\<rparr>) co))"
    by (rule inv_continue [OF inv st]) (use S AwaitBarrierCommit in \<open>auto simp: binding_ok_def\<close>)
  have "co_inv cfg (settle b (rq_hints rq) (continue_barrier cfg b (st\<lparr>bs_barrier_open := False, bs_barrier_state := Current,
      bs_barrier_attempts := 0, bs_barrier_error_code := None, bs_persisted := True\<rparr>) co))"
    by (rule inv_continue [OF inv st]) (use S AwaitBarrierCommit in \<open>auto simp: binding_ok_def epoch_guard_def\<close>)
  then show ?thesis
    using r AwaitBarrierCommit st fail again moved
    by (auto simp: resume_op_def split: port_reply.splits commit_outcome.splits if_splits)
next
  case (AwaitSetDegraded b)
  obtain st where st: "jget (co_states co) b = Some st"
    using r AwaitSetDegraded by (auto simp: resume_op_def split: option.splits)
  note S = co_invD [OF inv st]
  have fin: "co_inv cfg (finish None b st1 co)"
    if "st1 \<in> {st\<lparr>bs_persisted := True, bs_durable := Degraded\<rparr>, st\<lparr>bs_barrier_error_code := Some StateWriteFailed, bs_persisted := False\<rparr>}" for st1
    by (rule inv_finish_plain [OF inv st]) (use S AwaitSetDegraded that in \<open>auto simp: binding_ok_def\<close>)
  then show ?thesis
    using r AwaitSetDegraded st by (auto simp: resume_op_def split: port_reply.splits)
qed

lemma inv_start:
  assumes inv: "co_inv cfg co" and idle: "co_running co = NotRunning" and tail: "co_tail co = op # ops"
  shows "co_inv cfg (start_op cfg op (co\<lparr>co_tail := ops\<rparr>))"
proof -
  have skip: "co_inv cfg (co\<lparr>co_tail := ops\<rparr>)" if "jget (co_states co) b = None"
    "\<And>c. c \<noteq> b \<Longrightarrow> op_hints c op = {#} \<and> op \<noteq> OpBarrier c" for b
  proof -
    have "conserved c st (co\<lparr>co_tail := ops\<rparr>) \<and> alive c st (co\<lparr>co_tail := ops\<rparr>)" if "jget (co_states co) c = Some st" for c st
      using co_invD [OF inv that] that \<open>jget (co_states co) b = None\<close> \<open>\<And>c. c \<noteq> b \<Longrightarrow> op_hints c op = {#} \<and> op \<noteq> OpBarrier c\<close> [of c] tail
      by (cases "c = b") (auto simp: conserved_def alive_def)
    then show ?thesis using inv unfolding co_inv_def by simp
  qed
  show ?thesis
  proof (cases op)
    case (OpReconcile b kind trigger sb hints epoch)
    show ?thesis
    proof (cases "jget (co_states co) b")
      case None
      then show ?thesis using skip [of b] OpReconcile by (simp add: start_op_def)
    next
      case (Some st)
      note S = co_invD [OF inv Some]
      show ?thesis
      proof (cases "kind = Targeted \<and> bs_barrier_open st")
        case True
        have "co_inv cfg (put_state b (restorePrefix hints st) (co\<lparr>co_tail := ops\<rparr>))"
          by (rule inv_replace [OF inv Some, of _ "restorePrefix hints st"])
             (use S idle tail OpReconcile in \<open>auto simp: co_record restore_ok alive_def\<close>)
        then show ?thesis using True Some OpReconcile by (simp add: start_op_def)
      next
        case False
        have "co_inv cfg ((put_state b st (co\<lparr>co_tail := ops\<rparr>))\<lparr>co_running := AwaitReconcile b (co_request cfg st kind trigger hints sb epoch)\<rparr>)"
          by (rule inv_replace [OF inv Some, of _ st])
             (use S idle tail OpReconcile in \<open>auto simp: co_record alive_def co_request_def\<close>)
        moreover have "jset b st (co_states co) = co_states co" using Some by (rule update_triv)
        ultimately show ?thesis using False Some OpReconcile by (auto simp: start_op_def put_state_def)
      qed
    qed
  next
    case (OpBarrier b)
    show ?thesis
    proof (cases "jget (co_states co) b")
      case None
      then show ?thesis using skip [of b] OpBarrier by (simp add: start_op_def)
    next
      case (Some st)
      obtain st' r where l: "barrier_loop cfg (co_closed co) b st = (st', r)" by fastforce
      note L = barrier_loop_ok [OF co_invD(1) [OF inv Some] l]
      have "co_inv cfg ((put_state b st' (co\<lparr>co_tail := ops\<rparr>))\<lparr>co_running := r\<rparr>)"
        by (rule inv_replace [OF inv Some, of _ st'])
           (use L idle tail OpBarrier in \<open>auto simp: co_record alive_def ac_simps\<close>)
      then show ?thesis using Some OpBarrier l by (simp add: start_op_def)
    qed
  qed
qed

lemma inv_port_commit:
  assumes inv: "co_inv cfg co" and r: "port_commit co = Some co'"
  shows "co_inv cfg co'"
proof -
  consider b rq st where "co_running co = AwaitCommit b rq False" "jget (co_states co) b = Some st" "co' = co\<lparr>co_running := AwaitCommit b rq True\<rparr>"
    | b rq st where "co_running co = AwaitBarrierCommit b rq False" "jget (co_states co) b = Some st"
        "co' = (put_state b (st\<lparr>bs_durable := Current\<rparr>) co)\<lparr>co_running := AwaitBarrierCommit b rq True\<rparr>"
    using r by (auto simp: port_commit_def split: running.splits option.splits if_splits bool.splits)
  then show ?thesis
  proof cases
    case 1
    then show ?thesis by (simp add: inv_await [OF inv 1(2)])
  next
    case 2
    note S = co_invD [OF inv 2(2)]
    show ?thesis
      unfolding 2(3)
      by (rule inv_replace [OF inv 2(2), of _ "st\<lparr>bs_durable := Current\<rparr>"])
         (use S 2(1) in \<open>auto simp: co_record alive_def binding_ok_def epoch_guard_def\<close>)
  qed
qed

lemma due_pending: "due t now \<Longrightarrow> t \<noteq> None"
  by (cases t) (auto simp: due_def)

definition co_step :: "co_config \<Rightarrow> coordinator \<Rightarrow> co_event \<Rightarrow> coordinator \<Rightarrow> bool" where
  "co_step cfg co e co' \<longleftrightarrow> co_react cfg e co = Some co'"

lemma inv_api:
  assumes "co_inv cfg co" and "api r co = Some co'" and "\<And>co1. r = Inr co1 \<Longrightarrow> co_inv cfg co1"
  shows "co_inv cfg co'"
  using assms by (cases r) (auto simp: api_def)

lemma inv_react:
  assumes inv: "co_inv cfg co" and attempts: "0 < cc_maximum_attempts cfg" and step: "co_react cfg e co = Some co'"
  shows "co_inv cfg co'"
proof (cases e)
  case (Accept batch)
  then show ?thesis using inv_api [OF inv] step inv_accept [OF inv attempts] by auto
next
  case (ProviderRestarted b)
  then have "api (provider_restarted b co) co = Some co'" using step by simp
  then show ?thesis by (rule inv_api [OF inv]) (auto simp: provider_restarted_def intro: inv_with_state [OF inv] complete_local)
next
  case (RecoverEv b)
  then have "api (co_recover b co) co = Some co'" using step by simp
  then show ?thesis by (rule inv_api [OF inv]) (auto simp: co_recover_def intro: inv_with_state [OF inv] complete_local)
next
  case (ResumeEv b)
  then have "api (co_resume b co) co = Some co'" using step by simp
  then show ?thesis by (rule inv_api [OF inv]) (auto simp: co_resume_def intro: inv_with_state [OF inv] complete_local)
next
  case (RequestFreshness b proven)
  then have "api (request_freshness b proven co) co = Some co'" using step by simp
  then show ?thesis
    by (rule inv_api [OF inv]) (auto simp: request_freshness_def intro: inv_with_state [OF inv] complete_local flush_local split: if_splits)
next
  case (QuietDue b)
  then have "timer_event b (\<lambda>st. due (bs_quiet_timer st) (co_now co)) fire_quiet co = Some co'" using step by simp
  then show ?thesis by (rule inv_timer [OF inv]) (blast intro: timers_local(1) dest: due_pending)
next
  case (MaximumDue b)
  then have "timer_event b (\<lambda>st. due (bs_maximum_timer st) (co_now co)) fire_maximum co = Some co'" using step by simp
  then show ?thesis by (rule inv_timer [OF inv]) (blast intro: timers_local(2) dest: due_pending)
next
  case (PeriodicDue b)
  then show ?thesis using step by (auto intro: inv_timer [OF inv] timers_local)
next
  case (RetryDue b t)
  then show ?thesis using step by (auto intro: inv_timer [OF inv] timers_local)
next
  case CloseEv
  then show ?thesis using step inv_close [OF inv] by auto
next
  case Tick
  then have "co' = co\<lparr>co_now := co_now co + 1\<rparr>" using step by simp
  then show ?thesis using inv by (simp add: co_inv_def conserved_def alive_def)
next
  case StartNext
  then show ?thesis using step inv_start [OF inv] by (auto split: if_splits list.splits)
next
  case PortCommits
  then show ?thesis using step inv_port_commit [OF inv] by simp
next
  case (PortReplies reply)
  then show ?thesis using step inv_resume [OF inv] by simp
qed

text \<open>The states that a constructor call returns.\<close>

lemma register_states:
  assumes "res_fold (register_binding ws) bs states = Inr states'"
    and "\<And>b st. jget states b = Some st \<Longrightarrow> \<exists>bd. st = initial_binding bd \<and> wb_source_provider_binding_id bd = b"
  shows "jget states' b = Some st \<Longrightarrow> \<exists>bd. st = initial_binding bd \<and> wb_source_provider_binding_id bd = b"
  using assms
proof (induction bs arbitrary: states)
  case (Cons bd bs)
  then obtain states1 where s1: "register_binding ws bd states = Inr states1" "res_fold (register_binding ws) bs states1 = Inr states'"
    by (auto simp: res_bind_Inr_iff)
  have "\<exists>bd. st = initial_binding bd \<and> wb_source_provider_binding_id bd = b" if "jget states1 b = Some st" for b st
    using that s1(1) Cons.prems(3) by (auto simp: register_binding_def split: if_splits)
  then show ?case using Cons.IH [OF Cons.prems(1) s1(2)] by blast
qed auto

lemma construct_inv:
  assumes "co_construct opts now = Inr (cfg, co)"
  shows "co_inv cfg co \<and> 0 < cc_maximum_attempts cfg \<and> cc_quiet_ms cfg \<le> cc_maximum_ms cfg"
proof -
  obtain states where fold: "res_fold (register_binding (opt_workspace_id opts)) (opt_bindings opts) [] = Inr states"
    and co: "co_states co = (if cc_interval_ms cfg > 0 then map (\<lambda>(k, st). (k, schedulePeriodic cfg now st)) states else states)"
      "co_tail co = []" "co_running co = NotRunning" "co_accepted co = []" "co_settled co = []"
    and cfg: "0 < cc_maximum_attempts cfg" "cc_quiet_ms cfg \<le> cc_maximum_ms cfg"
    using assms by (auto simp: co_construct_def checkedDuration_def res_bind_Inr_iff Let_def split: if_splits)
  have "binding_ok cfg st \<and> binding_id st = b \<and> bs_hints st = [] \<and> \<not> bs_barrier_open st" if got: "jget (co_states co) b = Some st" for b st
  proof -
    obtain st0 where st0: "jget states b = Some st0" "st = st0 \<or> st = schedulePeriodic cfg now st0"
      using got by (auto simp: co(1) map_of_map split: if_splits)
    obtain bd where "st = initial_binding bd \<or> st = schedulePeriodic cfg now (initial_binding bd)" "wb_source_provider_binding_id bd = b"
      using register_states [OF fold _ st0(1)] st0(2) by auto
    then show ?thesis using cfg by (auto simp: binding_ok_def initial_binding_def schedulePeriodic_def binding_id_def)
  qed
  then show ?thesis using co cfg by (auto simp: co_inv_def conserved_def alive_def hints_of_def)
qed

interpretation coordinator: transition_system "\<lambda>co. \<exists>opts now. co_construct opts now = Inr (cfg, co)" "co_step cfg"
  "\<lambda>co. co_inv cfg co \<and> 0 < cc_maximum_attempts cfg" for cfg
  by unfold_locales (use construct_inv inv_react in \<open>auto simp: co_step_def\<close>)

section \<open>Which reactions close a barrier\<close>

definition open_at :: "string \<Rightarrow> coordinator \<Rightarrow> bool" where
  "open_at b co = (case jget (co_states co) b of None \<Rightarrow> False | Some st \<Rightarrow> bs_barrier_open st)"

lemma open_at_put [simp]:
  "open_at b (put_state c st co) = (if b = c then bs_barrier_open st else open_at b co)"
  "open_at b (enqueue ops co) = open_at b co"
  "open_at b (co\<lparr>co_running := r\<rparr>) = open_at b co"
  "open_at b (co\<lparr>co_tail := t\<rparr>) = open_at b co"
  "open_at b (co\<lparr>co_accepted := xs\<rparr>) = open_at b co"
  "open_at b (co\<lparr>co_now := n\<rparr>) = open_at b co"
  "open_at b (settle c hs co) = open_at b co"
  "open_at b (finish err c st co) = (if b = c then bs_barrier_open st else open_at b co)"
  by (auto simp: open_at_def put_state_def enqueue_def settle_def finish_def)

lemma open_barrier_loop: "barrier_loop cfg closed b st = (st', r) \<Longrightarrow> bs_barrier_open st' = bs_barrier_open st"
  by (auto simp: barrier_loop_def takeHints_def clearBatchTimers_def split: if_splits)

lemma open_continue [simp]:
  "open_at b (continue_barrier cfg c st co) = (if b = c then bs_barrier_open st else open_at b co)"
  "open_at b (fail_barrier cfg c st co) = (if b = c then bs_barrier_open st else open_at b co)"
  by (auto simp: continue_barrier_def fail_barrier_def barrierFailed_def Let_def open_at_def put_state_def
      dest: open_barrier_loop split: prod.splits)

lemma open_local:
  "local_ok cfg extra st (st', ops) \<Longrightarrow> jget (co_states co) c = Some st \<Longrightarrow> open_at b co \<Longrightarrow>
   open_at b (enqueue ops (put_state c st' co))"
  by (auto simp: local_ok_def open_at_def put_state_def enqueue_def)

lemma open_with_state:
  assumes "co_inv cfg co" and "with_state c f co = Inr co'" and "open_at b co"
    and "\<And>st. jget (co_states co) c = Some st \<Longrightarrow> binding_ok cfg st \<Longrightarrow> local_ok cfg (extra st) st (f st)"
  shows "open_at b co'"
proof -
  obtain st st' ops where st: "jget (co_states co) c = Some st" "f st = (st', ops)" "co' = enqueue ops (put_state c st' co)"
    using assms(2) by (auto simp: with_state_def split: option.splits prod.splits)
  then show ?thesis using open_local [OF _ st(1)] assms(4) [OF st(1)] co_invD [OF assms(1) st(1)] assms(3) by metis
qed

lemma open_timer:
  assumes "co_inv cfg co" and "timer_event c enabled f co = Some co'" and "open_at b co"
    and "\<And>st. enabled st \<Longrightarrow> binding_ok cfg st \<Longrightarrow> local_ok cfg [] st (f st)"
  shows "open_at b co'"
proof -
  obtain st st' ops where st: "jget (co_states co) c = Some st" "enabled st" "f st = (st', ops)" "co' = enqueue ops (put_state c st' co)"
    using assms(2) by (auto simp: timer_event_def split: option.splits prod.splits if_splits)
  then show ?thesis using open_local [OF _ st(1)] assms(4) [OF st(2)] co_invD [OF assms(1) st(1)] assms(3) by metis
qed

lemma open_api: "api r co = Some co' \<Longrightarrow> open_at b co \<Longrightarrow> (\<And>co1. r = Inr co1 \<Longrightarrow> open_at b co1) \<Longrightarrow> open_at b co'"
  by (cases r) (auto simp: api_def)

lemma open_accept:
  assumes "co_inv cfg co" and "0 < cc_maximum_attempts cfg" and "co_accept cfg batch co = Inr co'" and "open_at b co"
  shows "open_at b co'"
proof -
  let ?f = "acceptHints cfg (co_now co) (hb_events batch)"
  obtain co1 where co1: "with_state (hb_source_provider_binding_id batch) ?f co = Inr co1"
    "co' = co1\<lparr>co_accepted := co_accepted co1 @ map (Pair (hb_source_provider_binding_id batch)) (hb_events batch)\<rparr>"
    using assms(3) by (auto simp: co_accept_def Let_def res_bind_Inr_iff split: option.splits if_splits)
  have "open_at b co1"
    by (rule open_with_state [OF assms(1) co1(1) assms(4), where extra = "\<lambda>_. hb_events batch"]) (rule accepts_local [OF _ assms(2)])
  then show ?thesis unfolding co1(2) by simp
qed

lemma open_resume:
  assumes r: "resume_op cfg reply co = Some co'" and o: "open_at b co" and c: "\<not> open_at b co'"
  shows "\<exists>rq st. reply = Outcome Committed \<and> co_running co = AwaitBarrierCommit b rq True
    \<and> jget (co_states co) b = Some st \<and> bs_source_epoch st = rq_source_epoch rq
    \<and> co' = settle b (rq_hints rq) (continue_barrier cfg b (st\<lparr>bs_barrier_open := False, bs_barrier_state := Current,
        bs_barrier_attempts := 0, bs_barrier_error_code := None, bs_persisted := True\<rparr>) co)"
proof (cases "co_running co")
  case (AwaitBarrierCommit c rq d)
  then show ?thesis
    using r o c by (auto simp: resume_op_def restore_ok open_at_def [of b co] split: option.splits port_reply.splits commit_outcome.splits if_splits)
qed (use r o c in \<open>auto simp: resume_op_def restore_ok takeHints_def clearBatchTimers_def Let_def open_at_def [of b co]
      split: option.splits port_reply.splits commit_outcome.splits if_splits\<close>)

lemma open_start: "open_at b co \<Longrightarrow> open_at b (start_op cfg op (co\<lparr>co_tail := ops\<rparr>))"
  by (cases op) (auto simp: start_op_def restore_ok open_at_def [of b co] dest: open_barrier_loop split: option.splits prod.splits)

lemma open_close: "open_at b (co_close co) = open_at b co"
  by (auto simp: open_at_def co_close_def map_of_map clearAllTimers_def clearBatchTimers_def Let_def split: option.splits)

lemma open_port_commit: "port_commit co = Some co' \<Longrightarrow> open_at b co' = open_at b co"
  by (auto simp: port_commit_def open_at_def put_state_def split: running.splits bool.splits option.splits if_splits)

lemma only_commit_closes:
  assumes inv: "co_inv cfg co" and attempts: "0 < cc_maximum_attempts cfg" and step: "co_react cfg e co = Some co'"
    and o: "open_at b co" and c: "\<not> open_at b co'"
  shows "\<exists>reply. e = PortReplies reply"
proof (rule ccontr)
  assume no: "\<not> ?thesis"
  have "open_at b co'"
  proof (cases e)
    case (Accept batch)
    then have "api (co_accept cfg batch co) co = Some co'" using step by simp
    then show ?thesis by (rule open_api [OF _ o]) (rule open_accept [OF inv attempts _ o])
  next
    case (ProviderRestarted d)
    then have "api (provider_restarted d co) co = Some co'" using step by simp
    then show ?thesis
      by (rule open_api [OF _ o]) (unfold provider_restarted_def, rule open_with_state [OF inv _ o, where extra = "\<lambda>_. []"], assumption, rule complete_local)
  next
    case (RecoverEv d)
    then have "api (co_recover d co) co = Some co'" using step by simp
    then show ?thesis
      by (rule open_api [OF _ o]) (unfold co_recover_def, rule open_with_state [OF inv _ o, where extra = "\<lambda>_. []"], assumption, rule complete_local)
  next
    case (ResumeEv d)
    then have "api (co_resume d co) co = Some co'" using step by simp
    then show ?thesis
      by (rule open_api [OF _ o]) (unfold co_resume_def, rule open_with_state [OF inv _ o, where extra = "\<lambda>_. []"], assumption, rule complete_local)
  next
    case (RequestFreshness d proven)
    then have "api (request_freshness d proven co) co = Some co'" using step by simp
    then show ?thesis
      by (rule open_api [OF _ o]) (unfold request_freshness_def, rule open_with_state [OF inv _ o, where extra = "\<lambda>_. []"], assumption,
          auto intro: complete_local flush_local)
  next
    case (QuietDue d)
    then have "timer_event d (\<lambda>st. due (bs_quiet_timer st) (co_now co)) fire_quiet co = Some co'" using step by simp
    then show ?thesis by (rule open_timer [OF inv _ o]) (blast intro: timers_local(1) dest: due_pending)
  next
    case (MaximumDue d)
    then have "timer_event d (\<lambda>st. due (bs_maximum_timer st) (co_now co)) fire_maximum co = Some co'" using step by simp
    then show ?thesis by (rule open_timer [OF inv _ o]) (blast intro: timers_local(2) dest: due_pending)
  next
    case (PeriodicDue d)
    then show ?thesis using step by (auto intro: open_timer [OF inv _ o] timers_local)
  next
    case (RetryDue d t)
    then show ?thesis using step by (auto intro: open_timer [OF inv _ o] timers_local)
  qed (use step o no open_start open_close open_port_commit in \<open>auto split: if_splits list.splits\<close>)
  then show False using c by simp
qed

section \<open>The properties of the coordinator\<close>

definition co_reachable :: "co_config \<Rightarrow> coordinator \<Rightarrow> bool" where
  "co_reachable cfg = reach (\<lambda>co. \<exists>opts now. co_construct opts now = Inr (cfg, co)) (co_step cfg)"

lemma reachable_co_inv: "co_reachable cfg co \<Longrightarrow> co_inv cfg co"
  using coordinator.reachable_inv by (simp add: co_reachable_def)

fun co_run :: "co_config \<Rightarrow> co_event list \<Rightarrow> coordinator \<Rightarrow> coordinator option" where
  "co_run cfg [] co = Some co"
| "co_run cfg (e # es) co = (case co_react cfg e co of None \<Rightarrow> None | Some co' \<Rightarrow> co_run cfg es co')"

lemma co_run_reachable: "co_run cfg es co = Some co' \<Longrightarrow> co_reachable cfg co \<Longrightarrow> co_reachable cfg co'"
proof (induction es arbitrary: co)
  case (Cons e es)
  then obtain co1 where c: "co_react cfg e co = Some co1" "co_run cfg es co1 = Some co'" by (auto split: option.splits)
  then have "co_step cfg co e co1" by (simp add: co_step_def)
  then have "co_reachable cfg co1" using reach_step [OF Cons.prems(2) [unfolded co_reachable_def]] by (simp add: co_reachable_def)
  then show ?case using Cons.IH c(2) by blast
qed simp

text \<open>A coordinator with one binding and a single barrier attempt, and two batches for it.\<close>

definition one_binding :: watcher_binding where
  "one_binding = \<lparr>wb_workspace_id = ''w'', wb_source_provider_binding_id = ''b'', wb_source_provider = ''p'',
     wb_source_provider_version = ''1'', wb_ordering_domain = ''d'', wb_root = ''/r'', wb_case_sensitive = None,
     wb_mutable_watched = None, wb_authoritative_delete_events = None\<rparr>"

definition one_options :: "int \<Rightarrow> co_options" where
  "one_options attempts = \<lparr>opt_workspace_id = ''w'', opt_bindings = [one_binding], opt_quiet_window_ms = None,
     opt_maximum_batch_ms = None, opt_complete_interval_ms = None, opt_barrier_retry_ms = None,
     opt_maximum_barrier_attempts = Some attempts\<rparr>"

definition one_config :: "nat \<Rightarrow> co_config" where
  "one_config attempts = \<lparr>cc_workspace_id = ''w'', cc_quiet_ms = 50, cc_maximum_ms = 250, cc_interval_ms = 600000, cc_retry_ms = 50,
     cc_maximum_attempts = attempts\<rparr>"

definition one_start :: coordinator where
  "one_start = \<lparr>co_states = [(''b'', (initial_binding one_binding)\<lparr>bs_periodic_timer := Some 600000\<rparr>)], co_tail = [],
     co_running = NotRunning, co_error = None, co_closed = False, co_now = 0, co_next_timer = 0, co_accepted = [], co_settled = []\<rparr>"

lemmas default_ms = DEFAULT_QUIET_WINDOW_MS_def DEFAULT_MAXIMUM_BATCH_MS_def DEFAULT_COMPLETE_INTERVAL_MS_def
  DEFAULT_BARRIER_RETRY_MS_def MAX_TIMER_MS_def

lemma one_constructed: "co_construct (one_options 1) 0 = Inr (one_config 1, one_start)"
  by (simp add: co_construct_def one_options_def one_binding_def one_config_def one_start_def checkedDuration_def opt_or_def
      default_ms register_binding_def schedulePeriodic_def initial_binding_def)

lemma one_reachable: "co_run (one_config 1) es one_start = Some co \<Longrightarrow> co_reachable (one_config 1) co"
proof (erule co_run_reachable)
  show "co_reachable (one_config 1) one_start"
    unfolding co_reachable_def by (rule reach_init) (use one_constructed in blast)
qed

definition head_batch :: watcher_hint_batch where
  "head_batch = sample_batch [sample_hint GitHead ''.git/HEAD'' Hint]"

lemmas co_eval = one_config_def one_start_def one_binding_def initial_binding_def head_batch_def sample_batch_def sample_hint_def
  api_def co_accept_def with_state_def batch_matches_def acceptHint_def source_barrier_event_def clearBatchTimers_def push_hints_def
  open_barrier_def binding_id_def enqueue_def put_state_def start_op_def barrier_loop_def takeHints_def resume_op_def
  co_request_def fail_barrier_def barrierFailed_def restorePrefix_def finish_def port_commit_def settle_def continue_barrier_def
  commit_guard_def Let_def

text \<open>
  C1.  No hint is lost or duplicated: in every reachable state the hints accepted for a binding are, as a multiset,
  those pending in the binding, those carried by queued operations, those of the operation that is
  running, and those whose reconciliation has been committed.
\<close>

theorem hints_conserved:
  assumes "co_reachable cfg co" and "jget (co_states co) b = Some st"
  shows "hints_of b (co_accepted co) =
    mset (bs_hints st) + ops_hints b (co_tail co) + running_hints b (co_running co) + hints_of b (co_settled co)"
  using co_invD(3) [OF reachable_co_inv [OF assms(1)] assms(2)] by (simp add: conserved_def)

theorem hints_conserved_witness:
  "\<exists>co st. co_run (one_config 1) [Accept head_batch, StartNext, PortReplies Written] one_start = Some co
    \<and> jget (co_states co) ''b'' = Some st \<and> co_accepted co \<noteq> [] \<and> hints_of ''b'' (co_accepted co) =
      mset (bs_hints st) + ops_hints ''b'' (co_tail co) + running_hints ''b'' (co_running co) + hints_of ''b'' (co_settled co)"
proof -
  obtain co st where co: "co_run (one_config 1) [Accept head_batch, StartNext, PortReplies Written] one_start = Some co"
    "jget (co_states co) ''b'' = Some st" "co_accepted co \<noteq> []"
    by (simp add: co_eval)
  then show ?thesis using hints_conserved [OF one_reachable [OF co(1)] co(2)] by blast
qed

text \<open>
  The source barrier is coherent in every reachable state: it is open exactly when its state is not
  \<open>current\<close>, it is degraded exactly when the maximum number of attempts has failed, no batch timer is armed while it is
  open, and an armed maximum-window timer is due exactly \<open>maximum_batch_ms\<close> after the first pending hint.
\<close>

theorem barrier_coherent:
  assumes "co_reachable cfg co" and "jget (co_states co) b = Some st"
  shows "(bs_barrier_state st = Current \<longleftrightarrow> \<not> bs_barrier_open st)
    \<and> bs_barrier_attempts st \<le> cc_maximum_attempts cfg
    \<and> (bs_barrier_state st = Degraded \<longleftrightarrow> bs_barrier_attempts st = cc_maximum_attempts cfg)
    \<and> (if bs_barrier_open st then bs_quiet_timer st = None \<and> bs_maximum_timer st = None else True)
    \<and> bs_maximum_timer st = map_option (\<lambda>f. f + cc_maximum_ms cfg) (bs_first_hint_at st)"
  using co_invD(1) [OF reachable_co_inv [OF assms(1)] assms(2)] by (auto simp: binding_ok_def)

theorem barrier_coherent_witness:
  "\<exists>co st. co_run (one_config 1) [Accept head_batch, StartNext, PortReplies Written, PortReplies (Thrown ''x'')] one_start = Some co
    \<and> jget (co_states co) ''b'' = Some st \<and> bs_barrier_open st
    \<and> (bs_barrier_state st = Degraded \<longleftrightarrow> bs_barrier_attempts st = cc_maximum_attempts (one_config 1))"
proof -
  obtain co st where co: "co_run (one_config 1) [Accept head_batch, StartNext, PortReplies Written, PortReplies (Thrown ''x'')] one_start = Some co"
    "jget (co_states co) ''b'' = Some st" "bs_barrier_open st"
    by (simp add: co_eval)
  then show ?thesis using barrier_coherent [OF one_reachable [OF co(1)] co(2)] by blast
qed

text \<open>
  C3.  An open barrier is never forgotten: while the coordinator is not closed and the barrier is stale, a retry
  timer is pending, a barrier operation is queued, or one is running for that binding.
\<close>

theorem barrier_never_forgotten:
  assumes "co_reachable cfg co" and "jget (co_states co) b = Some st"
    and "bs_barrier_open st" and "bs_barrier_state st = Stale" and "\<not> co_closed co"
  shows "bs_retry_pending st \<noteq> [] \<or> OpBarrier b \<in> set (co_tail co) \<or> running_barrier b (co_running co)"
  using co_invD(4) [OF reachable_co_inv [OF assms(1)] assms(2)] assms(3-) by (simp add: alive_def)

theorem barrier_never_forgotten_witness:
  "\<exists>co st. co_run (one_config 1) [Accept head_batch] one_start = Some co \<and> jget (co_states co) ''b'' = Some st
    \<and> (bs_retry_pending st \<noteq> [] \<or> OpBarrier ''b'' \<in> set (co_tail co) \<or> running_barrier ''b'' (co_running co))"
proof -
  obtain co st where co: "co_run (one_config 1) [Accept head_batch] one_start = Some co"
    "jget (co_states co) ''b'' = Some st" "bs_barrier_open st" "bs_barrier_state st = Stale" "\<not> co_closed co"
    by (simp add: co_eval)
  then show ?thesis using barrier_never_forgotten [OF one_reachable [OF co(1)] co(2-)] by blast
qed

text \<open>
  C2.  A barrier closes only on a commit that covers everything: the only step that closes an open barrier is the
  reply of a successful barrier commit whose request carries the current source epoch; after it the
  barrier is \<open>current\<close>, no hint is pending, and the hints of the request are settled.
\<close>

theorem barrier_closes_on_commit:
  assumes "co_reachable cfg co" and "co_react cfg e co = Some co'"
    and "jget (co_states co) b = Some st" and "bs_barrier_open st"
    and "jget (co_states co') b = Some st'" and "\<not> bs_barrier_open st'"
  shows "\<exists>rq. e = PortReplies (Outcome Committed) \<and> co_running co = AwaitBarrierCommit b rq True
    \<and> bs_source_epoch st = rq_source_epoch rq \<and> bs_barrier_state st' = Current \<and> bs_hints st' = []
    \<and> co_settled co' = co_settled co @ map (Pair b) (rq_hints rq)"
proof -
  have inv: "co_inv cfg co" "0 < cc_maximum_attempts cfg"
    using assms(1) coordinator.reachable_inv by (simp_all add: co_reachable_def)
  have o: "open_at b co" "\<not> open_at b co'" using assms(3-) by (simp_all add: open_at_def)
  obtain reply where e: "e = PortReplies reply" using only_commit_closes [OF inv assms(2) o] by blast
  then have "resume_op cfg reply co = Some co'" using assms(2) by simp
  from open_resume [OF this o] assms(3) obtain rq where rq: "reply = Outcome Committed" "co_running co = AwaitBarrierCommit b rq True"
    "bs_source_epoch st = rq_source_epoch rq"
    "co' = settle b (rq_hints rq) (continue_barrier cfg b (st\<lparr>bs_barrier_open := False, bs_barrier_state := Current,
        bs_barrier_attempts := 0, bs_barrier_error_code := None, bs_persisted := True\<rparr>) co)" by auto
  have "epoch_guard rq st" using co_invD(5) [OF inv(1) assms(3)] rq(2) by simp
  then have "bs_hints st = []" using rq(3) by (simp add: epoch_guard_def)
  then show ?thesis
    using assms(5) e rq by (auto simp: settle_def continue_barrier_def barrier_loop_def put_state_def)
qed

lemma closing_run:
  "\<exists>co co'. co_run (one_config 1) [Accept head_batch, StartNext, PortReplies Written,
      PortReplies (Reconciled \<lparr>rr_stable = True, rr_equivalent = True, rr_checkpoint_id = ''c'', rr_has_target_state = False\<rparr>),
      PortReplies (Reconciled \<lparr>rr_stable = True, rr_equivalent = True, rr_checkpoint_id = ''c'', rr_has_target_state = False\<rparr>),
      PortCommits] one_start = Some co
    \<and> co_react (one_config 1) (PortReplies (Outcome Committed)) co = Some co'
    \<and> open_at ''b'' co \<and> \<not> open_at ''b'' co' \<and> ''b'' \<in> set (jkeys (co_states co'))"
  by (simp add: co_eval open_at_def)

theorem barrier_closes_on_commit_witness:
  "\<exists>co co' st st' rq. co_reachable (one_config 1) co \<and> co_react (one_config 1) (PortReplies (Outcome Committed)) co = Some co'
    \<and> jget (co_states co) ''b'' = Some st \<and> bs_barrier_open st \<and> jget (co_states co') ''b'' = Some st' \<and> \<not> bs_barrier_open st'
    \<and> co_running co = AwaitBarrierCommit ''b'' rq True \<and> bs_source_epoch st = rq_source_epoch rq \<and> bs_hints st' = []
    \<and> co_settled co' = co_settled co @ map (Pair ''b'') (rq_hints rq)"
proof -
  obtain co co' where run: "co_reachable (one_config 1) co" "co_react (one_config 1) (PortReplies (Outcome Committed)) co = Some co'"
    "open_at ''b'' co" "\<not> open_at ''b'' co'" "''b'' \<in> set (jkeys (co_states co'))"
    using closing_run one_reachable by blast
  obtain st st' where st: "jget (co_states co) ''b'' = Some st" "bs_barrier_open st" "jget (co_states co') ''b'' = Some st'" "\<not> bs_barrier_open st'"
    using run(3-5) by (auto simp: open_at_def split: option.splits dest: weak_map_of_SomeI)
  show ?thesis using barrier_closes_on_commit [OF run(1,2) st] run(1,2) st by blast
qed

text \<open>
  The flag that says the barrier state is stored can be wrong: when a barrier event arrives while the write of
  the \<open>degraded\<close> state is in flight, the completion of that write marks the new \<open>stale\<close> state as stored although
  the port holds \<open>degraded\<close>.
\<close>

theorem barrier_persisted_race:
  "\<exists>co st. co_reachable (one_config 1) co \<and> jget (co_states co) ''b'' = Some st
    \<and> bs_persisted st \<and> bs_barrier_state st = Stale \<and> bs_durable st = Degraded"
proof -
  obtain co st where co: "co_run (one_config 1) [Accept head_batch, StartNext, PortReplies Written, PortReplies (Thrown ''x''),
      Accept head_batch, PortReplies Written] one_start = Some co"
    "jget (co_states co) ''b'' = Some st" "bs_persisted st" "bs_barrier_state st = Stale" "bs_durable st = Degraded"
    by (simp add: co_eval)
  then show ?thesis using one_reachable [OF co(1)] by blast
qed

lemma register_keys:
  assumes "res_fold (register_binding ws) bs states = Inr states'"
  shows "jkeys states' = jkeys states @ map wb_source_provider_binding_id bs \<and> (distinct (jkeys states) \<longrightarrow> distinct (jkeys states'))"
  using assms
proof (induction bs arbitrary: states)
  case (Cons bd bs)
  then obtain states1 where s1: "register_binding ws bd states = Inr states1" "res_fold (register_binding ws) bs states1 = Inr states'"
    by (auto simp: res_bind_Inr_iff)
  then have "jkeys states1 = jkeys states @ [wb_source_provider_binding_id bd]" "distinct (jkeys states) \<longrightarrow> distinct (jkeys states1)"
    by (auto simp: register_binding_def jkeys_jset_eq split: if_splits)
  then show ?case using Cons.IH [OF s1(2)] by (metis append.assoc append_Cons append_Nil list.map(2))
qed simp

text \<open>
  C35.  The constructor enforces its safety bounds: when it returns, the windows satisfy
  \<open>0 < quiet \<le> maximum \<le> 60000\<close>, between 1 and 100 barrier attempts are allowed, periodic complete reconciliation is
  scheduled within a day unless every binding is immutable, and the bindings are registered once each
  under their own identifier.
\<close>

theorem construct_bounds:
  assumes "co_construct opts now = Inr (cfg, co)"
  shows "0 < cc_quiet_ms cfg \<and> cc_quiet_ms cfg \<le> cc_maximum_ms cfg \<and> cc_maximum_ms cfg \<le> 60000
    \<and> 0 < cc_maximum_attempts cfg \<and> cc_maximum_attempts cfg \<le> 100
    \<and> cc_interval_ms cfg \<le> 86400000 \<and> (cc_interval_ms cfg = 0 \<longrightarrow> list_all (\<lambda>b. wb_mutable_watched b = Some False) (opt_bindings opts))
    \<and> jkeys (co_states co) = map wb_source_provider_binding_id (opt_bindings opts) \<and> distinct (jkeys (co_states co))"
proof -
  obtain states where fold: "res_fold (register_binding (opt_workspace_id opts)) (opt_bindings opts) [] = Inr states"
    and co: "co_states co = (if cc_interval_ms cfg > 0 then map (\<lambda>(k, st). (k, schedulePeriodic cfg now st)) states else states)"
    and cfg: "0 < cc_quiet_ms cfg" "cc_quiet_ms cfg \<le> cc_maximum_ms cfg" "cc_maximum_ms cfg \<le> 60000"
      "0 < cc_maximum_attempts cfg" "cc_maximum_attempts cfg \<le> 100" "cc_interval_ms cfg \<le> 86400000"
      "cc_interval_ms cfg = 0 \<longrightarrow> list_all (\<lambda>b. wb_mutable_watched b = Some False) (opt_bindings opts)"
    using assms by (auto simp: co_construct_def checkedDuration_def res_bind_Inr_iff Let_def list_all_iff list_ex_iff MAX_TIMER_MS_def split: if_splits)
  have "jkeys (co_states co) = jkeys states" by (simp add: co case_prod_beta)
  then show ?thesis using register_keys [OF fold] cfg by (metis append_Nil distinct.simps(1) list.map(1))
qed

theorem construct_bounds_witness:
  "co_construct (one_options 1) 0 = Inr (one_config 1, one_start)
    \<and> 0 < cc_quiet_ms (one_config 1) \<and> cc_quiet_ms (one_config 1) \<le> cc_maximum_ms (one_config 1)
    \<and> jkeys (co_states one_start) = map wb_source_provider_binding_id (opt_bindings (one_options 1))"
  using one_constructed construct_bounds [OF one_constructed] by blast

end
