(* ===== verification/Freshness.thy ===== *)
theory Freshness
  imports Reconciliation
begin

text \<open>
  \<open>FreshnessBarrier\<close> of \<open>packages/engine/src/reconciliation.ts\<close>.  One call of \<open>wait_for_current\<close> is a record
  \<open>fr_op\<close>; two tasks may work for it, the setup started by the call and an evaluation started by
  \<open>check\<close>, and each is suspended at an await point (\<open>fr_task\<close>).  The port and the clock choose the events.  The
  history variables of an operation list its settlements, the checkpoints the port answered with, and the snapshot
  bindings that were acquired, released, and dropped.
\<close>

section \<open>Data\<close>

record target_watermark =
  tw_binding_id :: string
  tw_ordering_domain :: string
  tw_watermark :: string
  tw_required_successor :: "string option"

record workspace_target =
  wt_workspace_id :: string
  wt_watermarks :: "target_watermark list"

record checkpoint_watermark =
  cw_binding_id :: string
  cw_ordering_domain :: string
  cw_watermark :: string
  cw_represents :: "string list option"

datatype verification_status = Equivalent | ChangesPending | DegradedStatus

record checkpoint =
  ck_workspace_id :: string
  ck_checkpoint_id :: string
  ck_status :: verification_status
  ck_watermarks :: "checkpoint_watermark list"

record snapshot_binding =
  sb_workspace_id :: string
  sb_snapshot_id :: string
  sb_checkpoint_id :: string
  sb_lease_id :: string

record binding_request =
  br_workspace_id :: string
  br_target :: workspace_target
  br_checkpoint_id :: string

datatype freshness_error =
    FreshnessTimeoutInvalid | FreshnessScopeInvalid | FreshnessTargetCaptureInvalid | FreshnessAtomicBindingFailed
  | FreshnessWaitTimeout | FreshnessPortError string

datatype fr_outcome = Resolved "snapshot_binding list" | Rejected freshness_error

text \<open>\<open>Releasing bs mismatch\<close>: giving back \<open>bs\<close>, because they did not match or because the wait was cancelled.\<close>

datatype fr_task = NoTask | Validating | Capturing | Checkpointing | Acquiring "binding_request list" | Releasing "snapshot_binding list" bool

record fr_op =
  fo_workspaces :: "string list"
  fo_timeout_ms :: int
  fo_timer :: "nat option"
  fo_targets :: "workspace_target list option"
  fo_cancelled :: bool
  fo_settled :: bool
  fo_listed :: bool
  fo_setup :: fr_task
  fo_eval :: fr_task
  fo_outcomes :: "fr_outcome list"
  fo_answers :: "checkpoint option list list"
  fo_acquired :: "snapshot_binding list"
  fo_released :: "snapshot_binding list"
  fo_release_failed :: "snapshot_binding list"
  fo_dropped :: "snapshot_binding list"
  fo_overlap :: bool

definition DEFAULT_FRESHNESS_TIMEOUT_MS :: int where "DEFAULT_FRESHNESS_TIMEOUT_MS = 5000"
definition MAXIMUM_FRESHNESS_TIMEOUT_MS :: int where "MAXIMUM_FRESHNESS_TIMEOUT_MS = 60000"

record fr_config =
  fc_default_ms :: int
  fc_maximum_ms :: int

definition fr_construct :: "int option \<Rightarrow> int option \<Rightarrow> freshness_error + fr_config" where
  "fr_construct default_ms maximum_ms =
     (let maximum = opt_or maximum_ms MAXIMUM_FRESHNESS_TIMEOUT_MS; dflt = opt_or default_ms DEFAULT_FRESHNESS_TIMEOUT_MS
      in if maximum \<le> 0 \<or> maximum > MAXIMUM_FRESHNESS_TIMEOUT_MS \<or> dflt < 0 \<or> dflt > maximum
         then Inl FreshnessTimeoutInvalid else Inr \<lparr>fc_default_ms = dflt, fc_maximum_ms = maximum\<rparr>)"

section \<open>Coverage and validation\<close>

definition watermark_covered :: "target_watermark \<Rightarrow> checkpoint_watermark \<Rightarrow> bool" where
  "watermark_covered w c \<longleftrightarrow>
     (let required = opt_or (tw_required_successor w) (tw_watermark w)
      in cw_binding_id c = tw_binding_id w \<and> cw_ordering_domain c = tw_ordering_domain w
       \<and> (cw_watermark c = required \<or> (case cw_represents c of None \<Rightarrow> False | Some ws \<Rightarrow> required \<in> set ws)))"

definition covers :: "workspace_target \<Rightarrow> checkpoint \<Rightarrow> bool" where
  "covers t c \<longleftrightarrow>
     (if ck_workspace_id c \<noteq> wt_workspace_id t \<or> ck_status c \<noteq> Equivalent then False
      else list_all (\<lambda>w. list_ex (watermark_covered w) (ck_watermarks c)) (wt_watermarks t))"

definition validateTargets :: "string list \<Rightarrow> workspace_target list \<Rightarrow> bool" where
  "validateTargets workspaceIds targets \<longleftrightarrow>
     \<not> (length targets \<noteq> length (remdups workspaceIds)
        \<or> length (remdups (map wt_workspace_id targets)) \<noteq> length targets
        \<or> list_ex (\<lambda>t. wt_workspace_id t \<notin> set workspaceIds \<or> length (wt_watermarks t) = 0
            \<or> list_ex (\<lambda>w. length (tw_binding_id w) = 0 \<or> length (tw_ordering_domain w) = 0 \<or> length (tw_watermark w) = 0) (wt_watermarks t)) targets)"

definition scope_invalid :: "string list \<Rightarrow> bool" where
  "scope_invalid workspaceIds \<longleftrightarrow> length workspaceIds = 0 \<or> length (remdups workspaceIds) \<noteq> length workspaceIds \<or> list_ex (\<lambda>i. length i = 0) workspaceIds"

definition requests_for :: "workspace_target list \<Rightarrow> checkpoint list \<Rightarrow> binding_request list" where
  "requests_for targets checkpoints =
     map (\<lambda>(t, c). \<lparr>br_workspace_id = wt_workspace_id t, br_target = t, br_checkpoint_id = ck_checkpoint_id c\<rparr>) (zip targets checkpoints)"

definition bindings_mismatch :: "binding_request list \<Rightarrow> snapshot_binding list \<Rightarrow> bool" where
  "bindings_mismatch requests bindings \<longleftrightarrow>
     length bindings \<noteq> length requests
   \<or> length (remdups (map sb_workspace_id bindings)) \<noteq> length bindings
   \<or> list_ex (\<lambda>b. map_of (rev (map (\<lambda>r. (br_workspace_id r, br_checkpoint_id r)) requests)) (sb_workspace_id b) \<noteq> Some (sb_checkpoint_id b)
        \<or> length (sb_snapshot_id b) = 0 \<or> length (sb_lease_id b) = 0) bindings"

text \<open>\<open>bindings.find(...)\<close> for every request; a request without a binding would give \<open>undefined\<close>.\<close>

definition ordered_bindings :: "binding_request list \<Rightarrow> snapshot_binding list \<Rightarrow> snapshot_binding option list" where
  "ordered_bindings requests bindings = map (\<lambda>r. find (\<lambda>b. sb_workspace_id b = br_workspace_id r) bindings) requests"

section \<open>Settling\<close>

definition fr_resolve :: "snapshot_binding list \<Rightarrow> fr_op \<Rightarrow> fr_op" where
  "fr_resolve bindings op =
     (if fo_settled op \<or> fo_cancelled op then op\<lparr>fo_dropped := fo_dropped op @ bindings\<rparr>
      else op\<lparr>fo_settled := True, fo_listed := False, fo_timer := None, fo_outcomes := fo_outcomes op @ [Resolved bindings]\<rparr>)"

definition fr_reject :: "freshness_error \<Rightarrow> fr_op \<Rightarrow> fr_op" where
  "fr_reject err op =
     (if fo_settled op then op
      else op\<lparr>fo_cancelled := True, fo_settled := True, fo_listed := False, fo_timer := None, fo_outcomes := fo_outcomes op @ [Rejected err]\<rparr>)"

definition fr_expire :: "fr_op \<Rightarrow> fr_op" where
  "fr_expire op = fr_reject FreshnessWaitTimeout op"

section \<open>The two tasks\<close>

datatype fr_who = Setup | Eval

fun set_task :: "fr_who \<Rightarrow> fr_task \<Rightarrow> fr_op \<Rightarrow> fr_op" where
  "set_task Setup t op = op\<lparr>fo_setup := t\<rparr>"
| "set_task Eval t op = op\<lparr>fo_eval := t\<rparr>"

fun get_task :: "fr_who \<Rightarrow> fr_op \<Rightarrow> fr_task" where
  "get_task Setup op = fo_setup op"
| "get_task Eval op = fo_eval op"

text \<open>What the caller of \<open>#tryAcquire\<close> does with its result: \<open>undefined\<close>, bindings, or an exception.\<close>

definition acquired_nothing :: "fr_who \<Rightarrow> fr_op \<Rightarrow> fr_op" where
  "acquired_nothing who op =
     (let op = set_task who NoTask op
      in if who = Setup \<and> fo_timeout_ms op = 0 then fr_expire op else op)"

definition acquired_bindings :: "fr_who \<Rightarrow> snapshot_binding list \<Rightarrow> fr_op \<Rightarrow> fr_op" where
  "acquired_bindings who bs op = fr_resolve bs (set_task who NoTask op)"

definition task_failed :: "fr_who \<Rightarrow> freshness_error \<Rightarrow> fr_op \<Rightarrow> fr_op" where
  "task_failed who err op = fr_reject err (set_task who NoTask op)"

definition begin_acquire :: "fr_who \<Rightarrow> fr_op \<Rightarrow> fr_op" where
  "begin_acquire who op =
     (if fo_targets op = None \<or> fo_cancelled op then acquired_nothing who op else set_task who Checkpointing op)"

definition checkpoints_known :: "fr_who \<Rightarrow> checkpoint option list \<Rightarrow> fr_op \<Rightarrow> fr_op" where
  "checkpoints_known who cks op =
     (case fo_targets op of
        None \<Rightarrow> acquired_nothing who op
      | Some targets \<Rightarrow>
          if fo_cancelled op then acquired_nothing who op
          else if list_ex (\<lambda>(t, c). case c of None \<Rightarrow> True | Some k \<Rightarrow> \<not> covers t k) (zip targets cks) then acquired_nothing who op
          else set_task who (Acquiring (requests_for targets (map the cks))) op)"

definition bindings_known :: "fr_who \<Rightarrow> binding_request list \<Rightarrow> snapshot_binding list \<Rightarrow> fr_op \<Rightarrow> fr_op" where
  "bindings_known who requests bs op =
     (let op = op\<lparr>fo_acquired := fo_acquired op @ bs\<rparr>
      in if fo_cancelled op then (if length bs > 0 then set_task who (Releasing bs False) op else acquired_nothing who op)
         else if bindings_mismatch requests bs
         then (if length bs > 0 then set_task who (Releasing bs True) op else task_failed who FreshnessAtomicBindingFailed op)
         else acquired_bindings who (map the (ordered_bindings requests bs)) op)"

definition port_threw :: "fr_who \<Rightarrow> string \<Rightarrow> fr_op \<Rightarrow> fr_op" where
  "port_threw who e op =
     task_failed who (FreshnessPortError e)
       (case get_task who op of Releasing bs mismatch \<Rightarrow> op\<lparr>fo_release_failed := fo_release_failed op @ bs\<rparr> | _ \<Rightarrow> op)"

definition release_done :: "fr_who \<Rightarrow> snapshot_binding list \<Rightarrow> bool \<Rightarrow> fr_op \<Rightarrow> fr_op" where
  "release_done who bs mismatch op =
     (let op = op\<lparr>fo_released := fo_released op @ bs\<rparr>
      in if mismatch then task_failed who FreshnessAtomicBindingFailed op else acquired_nothing who op)"

section \<open>Events\<close>

definition fr_begin :: "fr_config \<Rightarrow> nat \<Rightarrow> string list \<Rightarrow> int option \<Rightarrow> fr_op" where
  "fr_begin cfg now workspaceIds timeout_ms =
     (let timeout = opt_or timeout_ms (fc_default_ms cfg);
          op = \<lparr>fo_workspaces = workspaceIds, fo_timeout_ms = timeout,
                fo_timer = (if timeout > 0 \<and> timeout \<le> fc_maximum_ms cfg then Some (now + nat timeout) else None),
                fo_targets = None, fo_cancelled = False, fo_settled = False, fo_listed = True, fo_setup = Validating, fo_eval = NoTask,
                fo_outcomes = [], fo_answers = [], fo_acquired = [], fo_released = [], fo_release_failed = [], fo_dropped = [], fo_overlap = False\<rparr>
      in if timeout < 0 \<or> timeout > fc_maximum_ms cfg then task_failed Setup FreshnessTimeoutInvalid op
         else if scope_invalid workspaceIds then task_failed Setup FreshnessScopeInvalid op
         else op)"

datatype fr_reply =
    Validated | Captured "workspace_target list" | CheckpointsAre "checkpoint option list"
  | BindingsAre "snapshot_binding list" | ReleasedOk | PortThrows string

definition setup_captured :: "workspace_target list \<Rightarrow> fr_op \<Rightarrow> fr_op" where
  "setup_captured targets op =
     (if fo_cancelled op then set_task Setup NoTask op
      else if \<not> validateTargets (fo_workspaces op) targets then task_failed Setup FreshnessTargetCaptureInvalid op
      else begin_acquire Setup (op\<lparr>fo_targets := Some targets\<rparr>))"

fun fr_reply_step :: "fr_who \<Rightarrow> fr_reply \<Rightarrow> fr_op \<Rightarrow> fr_op option" where
  "fr_reply_step who reply op =
     (case (get_task who op, reply) of
        (NoTask, _) \<Rightarrow> None
      | (_, PortThrows e) \<Rightarrow> Some (port_threw who e op)
      | (Validating, Validated) \<Rightarrow> Some (if fo_cancelled op then set_task who NoTask op else set_task who Capturing op)
      | (Capturing, Captured targets) \<Rightarrow> Some (setup_captured targets op)
      | (Checkpointing, CheckpointsAre cks) \<Rightarrow>
          (case fo_targets op of None \<Rightarrow> None | Some ts \<Rightarrow> if length cks = length ts then Some (checkpoints_known who cks (op\<lparr>fo_answers := fo_answers op @ [cks]\<rparr>)) else None)
      | (Acquiring requests, BindingsAre bs) \<Rightarrow> Some (bindings_known who requests bs op)
      | (Releasing bs mismatch, ReleasedOk) \<Rightarrow> Some (release_done who bs mismatch op)
      | _ \<Rightarrow> None)"

text \<open>\<open>#evaluate\<close>, called by \<open>check\<close> for every listed operation.\<close>

definition fr_evaluate :: "fr_op \<Rightarrow> fr_op" where
  "fr_evaluate op =
     (if fo_cancelled op \<or> fo_settled op \<or> fo_targets op = None then op
      else if fo_eval op \<noteq> NoTask then op
      else begin_acquire Eval (op\<lparr>fo_overlap := (fo_overlap op \<or> fo_setup op \<noteq> NoTask)\<rparr>))"

record freshness =
  fr_ops :: "fr_op list"
  fr_checks :: "nat list list"
  fr_now :: nat

definition fr_init :: freshness where
  "fr_init = \<lparr>fr_ops = [], fr_checks = [], fr_now = 0\<rparr>"

definition setups_running :: "freshness \<Rightarrow> nat list" where
  "setups_running f = filter (\<lambda>i. fo_setup (fr_ops f ! i) \<noteq> NoTask) [0..<length (fr_ops f)]"

datatype fr_event =
    Wait "string list" "int option" | Check | CheckProceeds nat | TimerDue nat | Reply nat fr_who fr_reply | TimePasses

fun fr_react :: "fr_config \<Rightarrow> fr_event \<Rightarrow> freshness \<Rightarrow> freshness option" where
  "fr_react cfg (Wait ids timeout) f = Some (f\<lparr>fr_ops := fr_ops f @ [fr_begin cfg (fr_now f) ids timeout]\<rparr>)"
| "fr_react cfg Check f = Some (f\<lparr>fr_checks := fr_checks f @ [setups_running f]\<rparr>)"
| "fr_react cfg (CheckProceeds k) f =
     (if k < length (fr_checks f) \<and> list_all (\<lambda>i. fo_setup (fr_ops f ! i) = NoTask) (fr_checks f ! k)
      then Some (f\<lparr>fr_ops := map (\<lambda>op. if fo_listed op then fr_evaluate op else op) (fr_ops f),
                   fr_checks := take k (fr_checks f) @ drop (Suc k) (fr_checks f)\<rparr>)
      else None)"
| "fr_react cfg (TimerDue i) f =
     (if i < length (fr_ops f) \<and> due (fo_timer (fr_ops f ! i)) (fr_now f)
      then Some (f\<lparr>fr_ops := (fr_ops f)[i := fr_expire (fr_ops f ! i)]\<rparr>) else None)"
| "fr_react cfg (Reply i who reply) f =
     (if i < length (fr_ops f)
      then map_option (\<lambda>op. f\<lparr>fr_ops := (fr_ops f)[i := op]\<rparr>) (fr_reply_step who reply (fr_ops f ! i)) else None)"
| "fr_react cfg TimePasses f = Some (f\<lparr>fr_now := fr_now f + 1\<rparr>)"

definition fr_step :: "fr_config \<Rightarrow> freshness \<Rightarrow> fr_event \<Rightarrow> freshness \<Rightarrow> bool" where
  "fr_step cfg f e f' \<longleftrightarrow> fr_react cfg e f = Some f'"

section \<open>The invariant of one operation\<close>

definition releasing :: "fr_task \<Rightarrow> snapshot_binding list" where
  "releasing t = (case t of Releasing bs m \<Rightarrow> bs | _ \<Rightarrow> [])"

definition handed :: "fr_outcome list \<Rightarrow> snapshot_binding list" where
  "handed os = concat (map (\<lambda>oc. case oc of Resolved bs \<Rightarrow> bs | Rejected e \<Rightarrow> []) os)"

text \<open>The bindings handed out match the captured targets, in order, through covering checkpoints of one answer of the port.\<close>

definition matches_targets :: "checkpoint option list list \<Rightarrow> workspace_target list \<Rightarrow> snapshot_binding list \<Rightarrow> bool" where
  "matches_targets answers ts bs \<longleftrightarrow> (\<exists>cks. map Some cks \<in> set answers \<and> list_all2 covers ts cks
     \<and> list_all2 (\<lambda>c b. sb_workspace_id b = ck_workspace_id c \<and> sb_checkpoint_id b = ck_checkpoint_id c
          \<and> sb_snapshot_id b \<noteq> [] \<and> sb_lease_id b \<noteq> []) cks bs)"

definition task_ok :: "checkpoint option list list \<Rightarrow> workspace_target list option \<Rightarrow> fr_task \<Rightarrow> bool" where
  "task_ok answers targets t = (case t of
      Checkpointing \<Rightarrow> targets \<noteq> None
    | Acquiring rs \<Rightarrow> (\<exists>ts cks. targets = Some ts \<and> map Some cks \<in> set answers \<and> list_all2 covers ts cks \<and> rs = requests_for ts cks)
    | _ \<Rightarrow> True)"

definition settle_ok :: "fr_op \<Rightarrow> bool" where
  "settle_ok op \<longleftrightarrow> length (fo_outcomes op) = (if fo_settled op then 1 else 0)
     \<and> (fo_listed op \<longleftrightarrow> \<not> fo_settled op) \<and> (fo_cancelled op \<longleftrightarrow> (\<exists>e. fo_outcomes op = [Rejected e]))
     \<and> (\<forall>bs. fo_outcomes op = [Resolved bs] \<longrightarrow> (\<exists>ts. fo_targets op = Some ts \<and> matches_targets (fo_answers op) ts bs))
     \<and> (\<forall>ts. fo_targets op = Some ts \<longrightarrow> validateTargets (fo_workspaces op) ts \<and> \<not> scope_invalid (fo_workspaces op))
     \<and> (fo_settled op \<longrightarrow> fo_timer op = None)"

definition account_ok :: "fr_op \<Rightarrow> bool" where
  "account_ok op \<longleftrightarrow> mset (fo_acquired op) =
     mset (handed (fo_outcomes op)) + mset (fo_released op) + mset (fo_release_failed op) + mset (fo_dropped op)
     + mset (releasing (fo_setup op)) + mset (releasing (fo_eval op))"

definition overlap_ok :: "fr_op \<Rightarrow> bool" where
  "overlap_ok op \<longleftrightarrow> (\<not> fo_overlap op \<longrightarrow> fo_dropped op = [] \<and> (fo_setup op = NoTask \<or> fo_eval op = NoTask)
     \<and> (fo_setup op \<noteq> NoTask \<or> fo_eval op \<noteq> NoTask \<longrightarrow> fo_settled op \<longrightarrow> fo_cancelled op))"

definition fr_op_inv :: "fr_op \<Rightarrow> bool" where
  "fr_op_inv op \<longleftrightarrow> settle_ok op \<and> account_ok op \<and> overlap_ok op \<and> task_ok (fo_answers op) (fo_targets op) (fo_setup op) \<and> task_ok (fo_answers op) (fo_targets op) (fo_eval op)
     \<and> fo_eval op \<notin> {Validating, Capturing} 
     \<and> (fo_setup op \<in> {Validating, Capturing} \<longrightarrow> fo_targets op = None \<and> \<not> scope_invalid (fo_workspaces op))"

lemma handed_append [simp]: "handed (os @ [Resolved bs]) = handed os @ bs" "handed (os @ [Rejected e]) = handed os"
  "handed [] = []"
  by (simp_all add: handed_def)

text \<open>An answer without a mismatch contains exactly one binding per request, and it is the right one.\<close>

lemma validated_distinct: "validateTargets ids ts \<Longrightarrow> distinct (map wt_workspace_id ts)"
  by (auto simp: validateTargets_def) (metis card_distinct length_map length_remdups_card_conv list.set_map)

lemma map_of_rev_distinct: "distinct (map fst xs) \<Longrightarrow> map_of (rev xs) = map_of xs"
  by (rule map_of_eqI) (auto simp: distinct_map map_of_eq_None_iff rev_map dest: map_of_SomeD intro!: map_of_is_SomeI [symmetric])

lemma find_SomeD: "find P xs = Some x \<Longrightarrow> x \<in> set xs \<and> P x"
  by (induction xs) (auto split: if_splits)

lemma ordered_bindings_ok:
  assumes d: "distinct (map br_workspace_id rs)" and ok: "\<not> bindings_mismatch rs bs"
  shows "list_all2 (\<lambda>r b. sb_workspace_id b = br_workspace_id r \<and> sb_checkpoint_id b = br_checkpoint_id r
      \<and> sb_snapshot_id b \<noteq> [] \<and> sb_lease_id b \<noteq> []) rs (map the (ordered_bindings rs bs))"
    and "mset (map the (ordered_bindings rs bs)) = mset bs"
proof -
  let ?E = "map (\<lambda>r. (br_workspace_id r, br_checkpoint_id r)) rs" and ?ys = "map the (ordered_bindings rs bs)"
  have E: "map_of (rev ?E) = map_of ?E" using d by (intro map_of_rev_distinct) (simp add: o_def)
  have len: "length bs = length rs" and db: "distinct (map sb_workspace_id bs)"
    and b: "\<And>b. b \<in> set bs \<Longrightarrow> map_of ?E (sb_workspace_id b) = Some (sb_checkpoint_id b) \<and> sb_snapshot_id b \<noteq> [] \<and> sb_lease_id b \<noteq> []"
    using ok unfolding bindings_mismatch_def E by (auto simp: list_ex_iff) (metis length_map length_remdups_eq remdups_id_iff_distinct)
  have "sb_workspace_id x \<in> br_workspace_id ` set rs" if "x \<in> set bs" for x
    using b [OF that] by (auto dest!: map_of_SomeD)
  then have "sb_workspace_id ` set bs \<subseteq> br_workspace_id ` set rs" by blast
  moreover have "card (sb_workspace_id ` set bs) = card (br_workspace_id ` set rs)"
    using len d db by (metis distinct_card length_map list.set_map)
  ultimately have all: "br_workspace_id ` set rs = sb_workspace_id ` set bs"
    by (metis card_subset_eq finite_imageI finite_set)
  have one: "\<exists>b. find (\<lambda>b. sb_workspace_id b = br_workspace_id r) bs = Some b \<and> b \<in> set bs \<and> sb_workspace_id b = br_workspace_id r
      \<and> sb_checkpoint_id b = br_checkpoint_id r" if r: "r \<in> set rs" for r
  proof -
    have "find (\<lambda>b. sb_workspace_id b = br_workspace_id r) bs \<noteq> None"
      using all r by (auto simp: find_None_iff) (metis (mono_tags) image_iff)
    then obtain x where x: "find (\<lambda>b. sb_workspace_id b = br_workspace_id r) bs = Some x" by blast
    note m = find_SomeD [OF x]
    have "map_of ?E (br_workspace_id r) = Some (br_checkpoint_id r)"
      using d r by (intro map_of_is_SomeI) (auto simp: o_def)
    then show ?thesis using x m b [of x] by simp
  qed
  show "list_all2 (\<lambda>r b. sb_workspace_id b = br_workspace_id r \<and> sb_checkpoint_id b = br_checkpoint_id r
      \<and> sb_snapshot_id b \<noteq> [] \<and> sb_lease_id b \<noteq> []) rs ?ys"
    using one b by (fastforce simp: ordered_bindings_def list_all2_map2 intro!: list.rel_refl_strong)
  have "map sb_workspace_id ?ys = map br_workspace_id rs" using one by (fastforce simp: ordered_bindings_def)
  then have "distinct (map sb_workspace_id ?ys)" using d by simp
  then have "distinct ?ys" using distinct_map by blast
  moreover have "distinct bs" using db distinct_map by blast
  moreover have "set ?ys \<subseteq> set bs" using one by (fastforce simp: ordered_bindings_def)
  moreover have "length ?ys = length bs" using len by (simp add: ordered_bindings_def)
  ultimately show "mset ?ys = mset bs"
    by (metis card_subset_eq distinct_card finite_set set_eq_iff_mset_eq_distinct)
qed

text \<open>Every way a task can end keeps the invariant.\<close>

lemma requests_distinct:
  "validateTargets ids ts \<Longrightarrow> length cks = length ts \<Longrightarrow> distinct (map br_workspace_id (requests_for ts cks))"
  using validated_distinct [of ids ts] by (simp add: requests_for_def o_def case_prod_beta map_fst_zip [symmetric] del: map_fst_zip)
     (metis (no_types, lifting) comp_apply map_eq_conv map_fst_zip map_map)

lemma covers_workspace: "covers t c \<Longrightarrow> ck_workspace_id c = wt_workspace_id t"
  by (auto simp: covers_def split: if_splits)

lemma matches_from_requests:
  assumes "list_all2 covers ts cks" and "map Some cks \<in> set answers"
    and "list_all2 (\<lambda>r b. sb_workspace_id b = br_workspace_id r \<and> sb_checkpoint_id b = br_checkpoint_id r
      \<and> sb_snapshot_id b \<noteq> [] \<and> sb_lease_id b \<noteq> []) (requests_for ts cks) bs"
  shows "matches_targets answers ts bs"
proof -
  have len: "length ts = length cks" using assms(1) by (rule list_all2_lengthD)
  have "list_all2 (\<lambda>c b. sb_workspace_id b = ck_workspace_id c \<and> sb_checkpoint_id b = ck_checkpoint_id c
      \<and> sb_snapshot_id b \<noteq> [] \<and> sb_lease_id b \<noteq> []) cks bs"
    using assms len covers_workspace by (auto simp: list_all2_conv_all_nth requests_for_def)
  then show ?thesis using assms(1,2) unfolding matches_targets_def by blast
qed

lemma other_task [simp]:
  "fo_outcomes (set_task who t op) = fo_outcomes op" "fo_settled (set_task who t op) = fo_settled op"
  "fo_cancelled (set_task who t op) = fo_cancelled op" "fo_listed (set_task who t op) = fo_listed op"
  "fo_targets (set_task who t op) = fo_targets op" "fo_workspaces (set_task who t op) = fo_workspaces op"
  "fo_timer (set_task who t op) = fo_timer op" "fo_timeout_ms (set_task who t op) = fo_timeout_ms op"
  "fo_acquired (set_task who t op) = fo_acquired op" "fo_released (set_task who t op) = fo_released op"
  "fo_release_failed (set_task who t op) = fo_release_failed op" "fo_dropped (set_task who t op) = fo_dropped op"
  "fo_overlap (set_task who t op) = fo_overlap op" "fo_answers (set_task who t op) = fo_answers op"
  by (cases who; simp)+

lemma settle_task [simp]: "settle_ok (set_task who t op) = settle_ok op"
  by (simp_all add: settle_ok_def)

lemma reject_settle: "settle_ok op \<Longrightarrow> settle_ok (fr_reject e op)"
  by (auto simp: settle_ok_def fr_reject_def)

lemma resolve_settle:
  "settle_ok op \<Longrightarrow> fo_targets op = Some ts \<Longrightarrow> matches_targets (fo_answers op) ts bs \<Longrightarrow> settle_ok (fr_resolve bs op)"
  by (auto simp: settle_ok_def fr_resolve_def)

lemma reject_fields [simp]:
  "fo_targets (fr_reject e op) = fo_targets op" "fo_setup (fr_reject e op) = fo_setup op" "fo_eval (fr_reject e op) = fo_eval op"
  "fo_acquired (fr_reject e op) = fo_acquired op" "fo_released (fr_reject e op) = fo_released op"
  "fo_release_failed (fr_reject e op) = fo_release_failed op" "fo_dropped (fr_reject e op) = fo_dropped op"
  "fo_overlap (fr_reject e op) = fo_overlap op" "handed (fo_outcomes (fr_reject e op)) = handed (fo_outcomes op)"
  "fo_workspaces (fr_reject e op) = fo_workspaces op" "fo_answers (fr_reject e op) = fo_answers op"
  by (simp_all add: fr_reject_def)

lemma resolve_fields [simp]:
  "fo_targets (fr_resolve bs op) = fo_targets op" "fo_setup (fr_resolve bs op) = fo_setup op" "fo_eval (fr_resolve bs op) = fo_eval op"
  "fo_acquired (fr_resolve bs op) = fo_acquired op" "fo_released (fr_resolve bs op) = fo_released op"
  "fo_release_failed (fr_resolve bs op) = fo_release_failed op" "fo_overlap (fr_resolve bs op) = fo_overlap op"
  "fo_workspaces (fr_resolve bs op) = fo_workspaces op" "fo_answers (fr_resolve bs op) = fo_answers op"
  by (simp_all add: fr_resolve_def)

lemma reject_inv: "fr_op_inv op \<Longrightarrow> fr_op_inv (fr_reject e op)"
proof -
  assume inv: "fr_op_inv op"
  then have "settle_ok (fr_reject e op)" using reject_settle by (simp add: fr_op_inv_def)
  moreover have "account_ok (fr_reject e op)" using inv by (simp add: fr_op_inv_def account_ok_def)
  moreover have "overlap_ok (fr_reject e op)" using inv by (auto simp: fr_op_inv_def overlap_ok_def settle_ok_def fr_reject_def)
  ultimately show ?thesis using inv by (auto simp: fr_op_inv_def)
qed

text \<open>Replacing the phase of one task, with the accounting of what it acquired or gave back.\<close>

lemma retask:
  assumes inv: "fr_op_inv op" and busy: "get_task who op \<noteq> NoTask" and t: "task_ok (fo_answers op) (fo_targets op) t" "t \<notin> {Validating, Capturing}"
    and acc: "mset a + mset (releasing (get_task who op)) = mset (fo_acquired op) + mset r + mset f + mset (releasing t)"
  shows "fr_op_inv (set_task who t (op\<lparr>fo_acquired := a, fo_released := fo_released op @ r, fo_release_failed := fo_release_failed op @ f\<rparr>))"
    (is "fr_op_inv ?op")
proof -
  have "settle_ok ?op" using inv by (simp add: fr_op_inv_def settle_ok_def)
  moreover have "account_ok ?op"
    using inv acc by (cases who) (auto simp: fr_op_inv_def account_ok_def ac_simps; metis add.assoc add.commute add_left_imp_eq)+
  moreover have "overlap_ok ?op" using inv busy by (cases who) (auto simp: fr_op_inv_def overlap_ok_def)
  ultimately show ?thesis using inv t by (cases who) (auto simp: fr_op_inv_def)
qed

lemma retask_plain:
  assumes "fr_op_inv op" and "get_task who op \<noteq> NoTask" and "task_ok (fo_answers op) (fo_targets op) t" "t \<notin> {Validating, Capturing}"
    and "releasing (get_task who op) = []" "releasing t = []"
  shows "fr_op_inv (set_task who t op)"
  using retask [OF assms(1-4), of "fo_acquired op" "[]" "[]"] assms(5,6) by simp

lemma nothing_inv: "fr_op_inv (set_task who NoTask op) \<Longrightarrow> fr_op_inv (acquired_nothing who op)"
  by (cases who) (simp_all add: acquired_nothing_def Let_def fr_expire_def reject_inv)

lemma failed_inv: "fr_op_inv (set_task who NoTask op) \<Longrightarrow> fr_op_inv (task_failed who e op)"
  by (simp add: task_failed_def reject_inv)

lemma no_task [simp]: "task_ok an ts NoTask" "releasing NoTask = []" "releasing Checkpointing = []" "releasing (Acquiring rs) = []"
  "releasing Validating = []" "releasing Capturing = []" "releasing (Releasing bs m) = bs" "task_ok an ts (Releasing bs m)"
  by (simp_all add: task_ok_def releasing_def)

lemma acquired_inv:
  assumes inv: "fr_op_inv op" and task: "get_task who op = Acquiring rs" and ok: "\<not> bindings_mismatch rs bs" and live: "\<not> fo_cancelled op"
  shows "fr_op_inv (acquired_bindings who (map the (ordered_bindings rs bs)) (op\<lparr>fo_acquired := fo_acquired op @ bs\<rparr>))" (is "fr_op_inv ?op")
proof -
  obtain ts cks where ts: "fo_targets op = Some ts" "list_all2 covers ts cks" "rs = requests_for ts cks" "map Some cks \<in> set (fo_answers op)"
    using inv task by (cases who) (auto simp: fr_op_inv_def task_ok_def)
  have v: "validateTargets (fo_workspaces op) ts" using inv ts(1) by (simp add: fr_op_inv_def settle_ok_def)
  have len: "length cks = length ts" using ts(2) by (metis list_all2_lengthD)
  note bs = ordered_bindings_ok [OF requests_distinct [OF v len, folded ts(3)] ok]
  have m: "matches_targets (fo_answers op) ts (map the (ordered_bindings rs bs))" using matches_from_requests [OF ts(2,4)] bs(1) ts(3) by simp
  have "settle_ok ?op"
    unfolding acquired_bindings_def using inv ts(1) m by (intro resolve_settle [where ts = ts]) (simp_all add: fr_op_inv_def settle_ok_def)
  moreover have "account_ok ?op"
    using inv task bs(2) by (cases who) (auto simp: fr_op_inv_def account_ok_def acquired_bindings_def fr_resolve_def simp flip: bs(2))
  moreover have "overlap_ok ?op"
    using inv task live by (cases who) (auto simp: fr_op_inv_def overlap_ok_def acquired_bindings_def fr_resolve_def)
  ultimately show ?thesis using inv by (cases who) (auto simp: fr_op_inv_def acquired_bindings_def)
qed

lemma bindings_known_inv:
  assumes inv: "fr_op_inv op" and task: "get_task who op = Acquiring rs"
  shows "fr_op_inv (bindings_known who rs bs op)"
proof -
  have upd: "fr_op_inv (set_task who t (op\<lparr>fo_acquired := fo_acquired op @ bs\<rparr>))" if "releasing t = bs" "t \<in> {NoTask, Releasing bs True, Releasing bs False}" for t
    using retask [OF inv, of who t "fo_acquired op @ bs" "[]" "[]"] that task by (cases t) auto
  show ?thesis
    unfolding bindings_known_def Let_def
    using upd [of NoTask] upd [of "Releasing bs True"] upd [of "Releasing bs False"] acquired_inv [OF inv task]
    by (auto intro: nothing_inv failed_inv)
qed

lemma begin_acquire_inv:
  assumes "fr_op_inv op" and "get_task who op \<noteq> NoTask" and "releasing (get_task who op) = []"
  shows "fr_op_inv (begin_acquire who op)"
  unfolding begin_acquire_def
  using retask_plain [OF assms(1,2), of Checkpointing] retask_plain [OF assms(1,2), of NoTask] assms(3)
  by (auto intro: nothing_inv simp: task_ok_def)

lemma captured_inv:
  assumes inv: "fr_op_inv op" and task: "get_task who op = Capturing"
  shows "fr_op_inv (setup_captured ts op)"
proof -
  have su: "fo_setup op = Capturing" "who = Setup" using inv task by (cases who; auto simp: fr_op_inv_def)+
  then have t: "fo_targets op = None" "\<not> scope_invalid (fo_workspaces op)" using inv by (auto simp: fr_op_inv_def)
  have idle: "fr_op_inv (set_task Setup NoTask op)" using retask_plain [OF inv, of Setup NoTask] su by simp
  have "fr_op_inv (begin_acquire Setup (op\<lparr>fo_targets := Some ts\<rparr>))"
    if ok: "\<not> fo_cancelled op" "validateTargets (fo_workspaces op) ts"
  proof -
    have eval: "task_ok (fo_answers op) (Some ts) (fo_eval op)" using inv t(1) by (auto simp: fr_op_inv_def task_ok_def split: fr_task.splits)
    have "fo_outcomes op \<noteq> [Resolved bs]" for bs using inv t(1) by (auto simp: fr_op_inv_def settle_ok_def)
    then have "settle_ok (op\<lparr>fo_targets := Some ts, fo_setup := Checkpointing\<rparr>)"
      using inv ok t by (auto simp: fr_op_inv_def settle_ok_def)
    moreover have "account_ok (op\<lparr>fo_targets := Some ts, fo_setup := Checkpointing\<rparr>)"
      using inv su by (auto simp: fr_op_inv_def account_ok_def)
    moreover have "overlap_ok (op\<lparr>fo_targets := Some ts, fo_setup := Checkpointing\<rparr>)"
      using inv su by (auto simp: fr_op_inv_def overlap_ok_def)
    ultimately show ?thesis
      using inv ok eval by (auto simp: begin_acquire_def fr_op_inv_def task_ok_def [of _ _ Checkpointing])
  qed
  then show ?thesis using idle by (auto simp: setup_captured_def intro: failed_inv)
qed

lemma checkpoints_inv:
  assumes inv: "fr_op_inv op" and task: "get_task who op = Checkpointing" and ts: "fo_targets op = Some ts" and len: "length cks = length ts" and an: "cks \<in> set (fo_answers op)"
  shows "fr_op_inv (checkpoints_known who cks op)"
proof -
  have idle: "fr_op_inv (set_task who NoTask op)" using retask_plain [OF inv, of who NoTask] task by simp
  have "task_ok (fo_answers op) (fo_targets op) (Acquiring (requests_for ts (map the cks)))"
    if "\<not> list_ex (\<lambda>(t, c). case c of None \<Rightarrow> True | Some k \<Rightarrow> \<not> covers t k) (zip ts cks)"
  proof -
    have "cks ! i \<noteq> None" if "i < length ts" for i
    proof -
      have "(ts ! i, cks ! i) \<in> set (zip ts cks)" using that len by (auto simp: set_zip)
      then show ?thesis using \<open>\<not> list_ex _ _\<close> by (auto simp: list_ex_iff split: option.splits)
    qed
    then have "map Some (map the cks) = cks" using len by (intro nth_equalityI) simp_all
    then have "map Some (map the cks) \<in> set (fo_answers op)" using an by simp
    moreover have "list_all2 covers ts (map the cks)"
      unfolding list_all2_conv_all_nth using that len
      by (auto simp: list_ex_iff set_zip split: option.splits) (metis len nth_map option.exhaust_sel option.sel)
    ultimately show ?thesis using ts unfolding task_ok_def by (simp only: fr_task.case) blast
  qed
  then show ?thesis
    unfolding checkpoints_known_def
    using ts idle retask_plain [OF inv, of who "Acquiring (requests_for ts (map the cks))"] task
    by (auto intro: nothing_inv)
qed

lemma answered_inv:
  assumes "fr_op_inv op"
  shows "fr_op_inv (op\<lparr>fo_answers := fo_answers op @ [cks]\<rparr>)" (is "fr_op_inv ?op")
proof -
  have more: "task_ok (fo_answers op @ [cks]) ts t" if "task_ok (fo_answers op) ts t" for ts t
    using that by (auto simp: task_ok_def split: fr_task.splits)
  have "settle_ok ?op" using assms by (fastforce simp: fr_op_inv_def settle_ok_def matches_targets_def)
  moreover have "account_ok ?op" "overlap_ok ?op" using assms by (simp_all add: fr_op_inv_def account_ok_def overlap_ok_def)
  ultimately show ?thesis using assms more by (simp add: fr_op_inv_def)
qed

lemma release_inv:
  assumes inv: "fr_op_inv op" and task: "get_task who op = Releasing bs m"
  shows "fr_op_inv (release_done who bs m op)"
proof -
  have "fr_op_inv (set_task who NoTask (op\<lparr>fo_released := fo_released op @ bs\<rparr>))"
    using retask [OF inv, of who NoTask "fo_acquired op" bs "[]"] task by simp
  then show ?thesis by (auto simp: release_done_def Let_def intro: nothing_inv failed_inv)
qed

lemma port_threw_inv:
  assumes inv: "fr_op_inv op" and busy: "get_task who op \<noteq> NoTask"
  shows "fr_op_inv (port_threw who e op)"
proof (cases "get_task who op")
  case (Releasing bs m)
  have "fr_op_inv (set_task who NoTask (op\<lparr>fo_release_failed := fo_release_failed op @ bs\<rparr>))"
    using retask [OF inv busy, of NoTask "fo_acquired op" "[]" bs] Releasing by simp
  then show ?thesis using Releasing by (simp add: port_threw_def failed_inv)
qed (use retask_plain [OF inv busy, of NoTask] busy in \<open>simp_all add: port_threw_def failed_inv\<close>)

lemma reply_inv:
  assumes inv: "fr_op_inv op" and r: "fr_reply_step who reply op = Some op'"
  shows "fr_op_inv op'"
proof (cases reply)
  case (PortThrows e)
  then show ?thesis using r port_threw_inv [OF inv, of who e] by (cases "get_task who op") auto
next
  case Validated
  then have task: "get_task who op = Validating" using r by (cases "get_task who op") auto
  then have su: "who = Setup" using inv by (cases who) (auto simp: fr_op_inv_def)
  have "fr_op_inv (set_task Setup NoTask op)" using retask_plain [OF inv, of who NoTask] task su by simp
  moreover have "fr_op_inv (op\<lparr>fo_setup := Capturing\<rparr>)"
    using inv task su by (auto simp: fr_op_inv_def account_ok_def overlap_ok_def settle_ok_def task_ok_def [of _ _ Capturing])
  ultimately show ?thesis using r Validated task su by (auto split: if_splits)
next
  case (Captured ts)
  then show ?thesis using r captured_inv [OF inv, of who ts] by (cases "get_task who op") auto
next
  case (CheckpointsAre cks)
  obtain ts where "fo_targets op = Some ts" "length cks = length ts" "get_task who op = Checkpointing"
    and op': "op' = checkpoints_known who cks (op\<lparr>fo_answers := fo_answers op @ [cks]\<rparr>)"
    using r CheckpointsAre by (cases "get_task who op") (auto split: option.splits if_splits)
  then show ?thesis unfolding op' using checkpoints_inv [OF answered_inv [OF inv, of cks], of who ts cks] by (cases who) simp_all
next
  case (BindingsAre bs)
  then show ?thesis using r bindings_known_inv [OF inv, of who _ bs] by (cases "get_task who op") auto
next
  case ReleasedOk
  then show ?thesis using r release_inv [OF inv, of who] by (cases "get_task who op") auto
qed

lemma evaluate_inv: "fr_op_inv op \<Longrightarrow> fr_op_inv (fr_evaluate op)"
proof -
  assume inv: "fr_op_inv op"
  let ?op = "op\<lparr>fo_overlap := fo_overlap op \<or> fo_setup op \<noteq> NoTask, fo_eval := Checkpointing\<rparr>"
  show ?thesis
  proof (cases "fo_cancelled op \<or> fo_settled op \<or> fo_targets op = None \<or> fo_eval op \<noteq> NoTask")
    case True
    then show ?thesis using inv by (auto simp: fr_evaluate_def)
  next
    case False
    have "settle_ok ?op" "account_ok ?op" using inv False by (simp_all add: fr_op_inv_def settle_ok_def account_ok_def)
    moreover have "overlap_ok ?op" using inv False by (auto simp: fr_op_inv_def overlap_ok_def)
    moreover have "task_ok (fo_answers op) (fo_targets op) Checkpointing" using False by (simp add: task_ok_def)
    ultimately have "fr_op_inv ?op" using inv False by (simp add: fr_op_inv_def)
    then show ?thesis using False by (auto simp: fr_evaluate_def begin_acquire_def)
  qed
qed

lemma begin_inv: "fr_op_inv (fr_begin cfg now ids timeout)"
proof -
  have base: "fr_op_inv \<lparr>fo_workspaces = ids, fo_timeout_ms = t, fo_timer = tm, fo_targets = None, fo_cancelled = False, fo_settled = False,
      fo_listed = True, fo_setup = s, fo_eval = NoTask, fo_outcomes = [], fo_answers = [], fo_acquired = [], fo_released = [], fo_release_failed = [],
      fo_dropped = [], fo_overlap = False\<rparr>" if "s = NoTask \<or> s = Validating \<and> \<not> scope_invalid ids" for t tm s
    using that by (auto simp: fr_op_inv_def settle_ok_def account_ok_def overlap_ok_def task_ok_def)
  show ?thesis
    by (auto simp: fr_begin_def Let_def task_failed_def intro!: base reject_inv)
qed

definition fr_inv :: "freshness \<Rightarrow> bool" where
  "fr_inv f \<longleftrightarrow> list_all fr_op_inv (fr_ops f)"

lemma inv_nth: "fr_inv f \<Longrightarrow> i < length (fr_ops f) \<Longrightarrow> fr_op_inv (fr_ops f ! i)"
  by (simp add: fr_inv_def list_all_length)

lemma inv_update: "fr_inv f \<Longrightarrow> fr_op_inv op \<Longrightarrow> fr_inv (f\<lparr>fr_ops := (fr_ops f)[i := op]\<rparr>)"
  by (auto simp: fr_inv_def list_all_iff dest: set_update_subset_insert [THEN subsetD])

lemma fr_react_inv: "fr_inv f \<Longrightarrow> fr_react cfg e f = Some f' \<Longrightarrow> fr_inv f'"
proof (cases e)
  case (Reply i who reply)
  assume inv: "fr_inv f" and step: "fr_react cfg e f = Some f'"
  then obtain op where "i < length (fr_ops f)" "fr_reply_step who reply (fr_ops f ! i) = Some op" "f' = f\<lparr>fr_ops := (fr_ops f)[i := op]\<rparr>"
    using Reply by (auto split: if_splits simp del: fr_reply_step.simps)
  then show ?thesis using inv_update [OF inv] reply_inv inv_nth [OF inv] by blast
next
  case (TimerDue i)
  assume inv: "fr_inv f" and step: "fr_react cfg e f = Some f'"
  then show ?thesis using TimerDue inv_update [OF inv] inv_nth [OF inv] reject_inv by (auto simp: fr_expire_def split: if_splits)
next
  case (CheckProceeds k)
  assume inv: "fr_inv f" and step: "fr_react cfg e f = Some f'"
  then show ?thesis using CheckProceeds evaluate_inv by (auto simp: fr_inv_def list_all_iff split: if_splits)
qed (auto simp: fr_inv_def begin_inv)

interpretation freshness: transition_system "\<lambda>f. f = fr_init" "fr_step cfg" fr_inv for cfg
  by unfold_locales (auto simp: fr_step_def fr_init_def fr_inv_def intro: fr_react_inv [unfolded fr_inv_def])

definition fr_reachable :: "fr_config \<Rightarrow> freshness \<Rightarrow> bool" where
  "fr_reachable cfg = reach (\<lambda>f. f = fr_init) (fr_step cfg)"

lemma reachable_op:
  "fr_reachable cfg f \<Longrightarrow> op \<in> set (fr_ops f) \<Longrightarrow> fr_op_inv op"
  using freshness.reachable_inv by (auto simp: fr_reachable_def fr_inv_def list_all_iff)

section \<open>The properties of the freshness barrier\<close>

fun fr_run :: "fr_config \<Rightarrow> fr_event list \<Rightarrow> freshness \<Rightarrow> freshness option" where
  "fr_run cfg [] f = Some f"
| "fr_run cfg (e # es) f = (case fr_react cfg e f of None \<Rightarrow> None | Some f' \<Rightarrow> fr_run cfg es f')"

lemma fr_run_reachable: "fr_run cfg es f = Some f' \<Longrightarrow> fr_reachable cfg f \<Longrightarrow> fr_reachable cfg f'"
proof (induction es arbitrary: f)
  case (Cons e es)
  then obtain g where g: "fr_react cfg e f = Some g" "fr_run cfg es g = Some f'" by (auto split: option.splits simp del: fr_react.simps)
  then have "fr_step cfg f e g" by (simp add: fr_step_def del: fr_react.simps)
  then have "fr_reachable cfg g" using reach_step [OF Cons.prems(2) [unfolded fr_reachable_def]] by (simp add: fr_reachable_def)
  then show ?case using Cons.IH g(2) by blast
qed simp

lemma fr_run_init: "fr_run cfg es fr_init = Some f \<Longrightarrow> fr_reachable cfg f"
proof (erule fr_run_reachable)
  show "fr_reachable cfg fr_init" unfolding fr_reachable_def by (rule reach_init) (rule refl)
qed

definition sample_target :: workspace_target where
  "sample_target = \<lparr>wt_workspace_id = ''w'', wt_watermarks = [\<lparr>tw_binding_id = ''b'', tw_ordering_domain = ''d'', tw_watermark = ''7'', tw_required_successor = None\<rparr>]\<rparr>"

definition sample_checkpoint :: checkpoint where
  "sample_checkpoint = \<lparr>ck_workspace_id = ''w'', ck_checkpoint_id = ''c'', ck_status = Equivalent,
     ck_watermarks = [\<lparr>cw_binding_id = ''b'', cw_ordering_domain = ''d'', cw_watermark = ''9'', cw_represents = Some [''7'']\<rparr>]\<rparr>"

definition sample_snapshot :: "string \<Rightarrow> snapshot_binding" where
  "sample_snapshot lease = \<lparr>sb_workspace_id = ''w'', sb_snapshot_id = ''s'', sb_checkpoint_id = ''c'', sb_lease_id = lease\<rparr>"

definition sample_fr :: fr_config where
  "sample_fr = \<lparr>fc_default_ms = 5000, fc_maximum_ms = 60000\<rparr>"

definition acquire_run :: "fr_event list" where
  "acquire_run = [Wait [''w''] None, Reply 0 Setup Validated, Reply 0 Setup (Captured [sample_target]),
     Reply 0 Setup (CheckpointsAre [Some sample_checkpoint]), Reply 0 Setup (BindingsAre [sample_snapshot ''l''])]"

lemmas fr_eval_defs = fr_init_def fr_begin_def opt_or_def scope_invalid_def sample_fr_def sample_target_def sample_checkpoint_def
  sample_snapshot_def setup_captured_def validateTargets_def begin_acquire_def checkpoints_known_def covers_def watermark_covered_def
  requests_for_def bindings_known_def bindings_mismatch_def ordered_bindings_def acquired_bindings_def fr_resolve_def setups_running_def
  fr_evaluate_def acquired_nothing_def Let_def

lemma acquire_run_ok:
  "\<exists>f. fr_run sample_fr acquire_run fr_init = Some f \<and> length (fr_ops f) = 1
    \<and> fo_outcomes (fr_ops f ! 0) = [Resolved [sample_snapshot ''l'']] \<and> \<not> fo_overlap (fr_ops f ! 0) \<and> fo_workspaces (fr_ops f ! 0) = [''w'']"
  by (simp add: acquire_run_def fr_eval_defs)

text \<open>
  A freshness wait settles at most once: in every reachable state an operation has one recorded settlement
  when it is settled and none otherwise, it is cancelled exactly when it was rejected, and a settled operation has no
  timer and is no longer evaluated.
\<close>

theorem freshness_settles_once:
  assumes "fr_reachable cfg f" and "op \<in> set (fr_ops f)"
  shows "length (fo_outcomes op) = (if fo_settled op then 1 else 0)
    \<and> (fo_cancelled op \<longleftrightarrow> (\<exists>e. fo_outcomes op = [Rejected e])) \<and> (fo_listed op \<longleftrightarrow> \<not> fo_settled op)
    \<and> (if fo_settled op then fo_timer op = None \<and> fr_evaluate op = op else True)"
  using reachable_op [OF assms] by (auto simp: fr_op_inv_def settle_ok_def fr_evaluate_def)

theorem freshness_settles_once_witness:
  "\<exists>f. fr_run sample_fr acquire_run fr_init = Some f \<and> fr_ops f \<noteq> []
    \<and> length (fo_outcomes (fr_ops f ! 0)) = (if fo_settled (fr_ops f ! 0) then 1 else 0)"
proof -
  obtain f where f: "fr_run sample_fr acquire_run fr_init = Some f" "length (fr_ops f) = 1" using acquire_run_ok by blast
  have mem: "fr_ops f ! 0 \<in> set (fr_ops f)" using f(2) by (intro nth_mem) simp
  have "fr_ops f \<noteq> []" using f(2) by auto
  then show ?thesis using freshness_settles_once [OF fr_run_init [OF f(1)] mem] f(1) by blast
qed

lemma matches_workspaces: "matches_targets answers ts bs \<Longrightarrow> map sb_workspace_id bs = map wt_workspace_id ts"
  unfolding matches_targets_def list_all2_conv_all_nth using covers_workspace by (auto intro!: nth_equalityI)

lemma covers_spec:
  "covers t c \<longleftrightarrow> ck_workspace_id c = wt_workspace_id t \<and> ck_status c = Equivalent
     \<and> (\<forall>w \<in> set (wt_watermarks t). \<exists>m \<in> set (ck_watermarks c). cw_binding_id m = tw_binding_id w \<and> cw_ordering_domain m = tw_ordering_domain w
          \<and> (let required = (case tw_required_successor w of Some n \<Rightarrow> n | None \<Rightarrow> tw_watermark w)
             in required = cw_watermark m \<or> (\<exists>ws. cw_represents m = Some ws \<and> required \<in> set ws)))"
proof -
  have "watermark_covered w m \<longleftrightarrow> cw_binding_id m = tw_binding_id w \<and> cw_ordering_domain m = tw_ordering_domain w
      \<and> (let required = (case tw_required_successor w of Some n \<Rightarrow> n | None \<Rightarrow> tw_watermark w)
         in required = cw_watermark m \<or> (\<exists>ws. cw_represents m = Some ws \<and> required \<in> set ws))" for w m
    by (cases "cw_represents m"; cases "tw_required_successor w") (auto simp: watermark_covered_def opt_or_def Let_def)
  then show ?thesis by (auto simp: covers_def list_all_iff list_ex_iff)
qed

lemma validated_workspaces:
  assumes "validateTargets ids ts" and "\<not> scope_invalid ids"
  shows "mset (map wt_workspace_id ts) = mset ids"
proof -
  have d: "distinct ids" using assms(2) by (auto simp: scope_invalid_def)
  have t: "distinct (map wt_workspace_id ts)" using validated_distinct [OF assms(1)] .
  have len: "length ts = length ids" using assms(1) d by (auto simp: validateTargets_def distinct_remdups_id)
  have "set (map wt_workspace_id ts) \<subseteq> set ids" using assms(1) by (auto simp: validateTargets_def list_ex_iff)
  moreover have "card (set (map wt_workspace_id ts)) = card (set ids)" using len d t by (metis distinct_card length_map)
  ultimately have "set (map wt_workspace_id ts) = set ids" by (metis card_subset_eq finite_set)
  then show ?thesis using d t set_eq_iff_mset_eq_distinct by blast
qed

text \<open>
  C4.  A wait that resolves returns exactly what was asked: one snapshot binding for every requested workspace and
  no other, all of them acquired from the port for this wait, each with a non-empty snapshot and lease.  They are
  bound to the checkpoints of one answer the port gave to this wait, one for each captured target in order, and each of those
  checkpoints is equivalent and, for every watermark of its target, has a watermark of the same binding and ordering
  domain that is or represents the required one.
\<close>

theorem freshness_resolves_targets:
  assumes "fr_reachable cfg f" and "op \<in> set (fr_ops f)" and "fo_outcomes op = [Resolved bs]"
  shows "mset (map sb_workspace_id bs) = mset (fo_workspaces op) \<and> set bs \<subseteq> set (fo_acquired op)
    \<and> (\<exists>ts cks. fo_targets op = Some ts \<and> map Some cks \<in> set (fo_answers op)
        \<and> list_all2 (\<lambda>t c. ck_workspace_id c = wt_workspace_id t \<and> ck_status c = Equivalent
            \<and> (\<forall>w \<in> set (wt_watermarks t). \<exists>m \<in> set (ck_watermarks c). cw_binding_id m = tw_binding_id w \<and> cw_ordering_domain m = tw_ordering_domain w
                 \<and> (let required = (case tw_required_successor w of Some n \<Rightarrow> n | None \<Rightarrow> tw_watermark w)
                    in required = cw_watermark m \<or> (\<exists>ws. cw_represents m = Some ws \<and> required \<in> set ws)))) ts cks
        \<and> list_all2 (\<lambda>c b. sb_workspace_id b = ck_workspace_id c \<and> sb_checkpoint_id b = ck_checkpoint_id c
            \<and> sb_snapshot_id b \<noteq> [] \<and> sb_lease_id b \<noteq> []) cks bs)"
proof -
  obtain ts where ts: "fo_targets op = Some ts" "matches_targets (fo_answers op) ts bs" "validateTargets (fo_workspaces op) ts" "\<not> scope_invalid (fo_workspaces op)"
    and acc: "account_ok op"
    using reachable_op [OF assms(1,2)] assms(3) by (auto simp: fr_op_inv_def settle_ok_def)
  have "mset bs \<subseteq># mset (fo_acquired op)" using acc assms(3) by (simp add: account_ok_def handed_def)
  then have "set bs \<subseteq> set (fo_acquired op)" by (metis set_mset_mono set_mset_mset)
  then show ?thesis
    using ts(1,2) matches_workspaces [OF ts(2)] validated_workspaces [OF ts(3,4)] unfolding covers_spec [symmetric] matches_targets_def by auto
qed

theorem freshness_resolves_targets_witness:
  "\<exists>f. fr_run sample_fr acquire_run fr_init = Some f
    \<and> mset (map sb_workspace_id [sample_snapshot ''l'']) = mset (fo_workspaces (fr_ops f ! 0)) \<and> fo_workspaces (fr_ops f ! 0) = [''w'']"
proof -
  obtain f where f: "fr_run sample_fr acquire_run fr_init = Some f" "length (fr_ops f) = 1"
    "fo_outcomes (fr_ops f ! 0) = [Resolved [sample_snapshot ''l'']]" "fo_workspaces (fr_ops f ! 0) = [''w'']" using acquire_run_ok by blast
  have mem: "fr_ops f ! 0 \<in> set (fr_ops f)" using f(2) by (intro nth_mem) simp
  show ?thesis using freshness_resolves_targets [OF fr_run_init [OF f(1)] mem f(3)] f(1,4) by blast
qed

text \<open>
  C5.  Acquired snapshot leases are accounted for: every binding acquired for an operation has been handed to the
  caller, released, is being released, belongs to a release that failed, or was dropped; nothing is dropped as long as no evaluation
  of the operation overlapped its setup.
\<close>

theorem freshness_leases_accounted:
  assumes "fr_reachable cfg f" and "op \<in> set (fr_ops f)"
  shows "mset (fo_acquired op) = mset (handed (fo_outcomes op)) + mset (fo_released op) + mset (fo_release_failed op)
      + mset (fo_dropped op) + mset (releasing (fo_setup op)) + mset (releasing (fo_eval op))
    \<and> (fo_overlap op \<or> fo_dropped op = [])"
  using reachable_op [OF assms] by (auto simp: fr_op_inv_def account_ok_def overlap_ok_def)

theorem freshness_leases_accounted_witness:
  "\<exists>f. fr_run sample_fr acquire_run fr_init = Some f \<and> fo_dropped (fr_ops f ! 0) = []
    \<and> mset (fo_acquired (fr_ops f ! 0)) = mset (handed (fo_outcomes (fr_ops f ! 0))) + mset (fo_released (fr_ops f ! 0))
      + mset (fo_release_failed (fr_ops f ! 0)) + mset (fo_dropped (fr_ops f ! 0)) + mset (releasing (fo_setup (fr_ops f ! 0)))
      + mset (releasing (fo_eval (fr_ops f ! 0)))"
proof -
  obtain f where f: "fr_run sample_fr acquire_run fr_init = Some f" "length (fr_ops f) = 1" "\<not> fo_overlap (fr_ops f ! 0)" using acquire_run_ok by blast
  have mem: "fr_ops f ! 0 \<in> set (fr_ops f)" using f(2) by (intro nth_mem) simp
  show ?thesis using freshness_leases_accounted [OF fr_run_init [OF f(1)] mem] f(1,3) by blast
qed

text \<open>
  C6.  An evaluation that overlaps the setup of the same wait can leak a lease: \<open>check\<close> waits only for the setups that
  were running when it was called, so it may evaluate a newer operation whose setup is acquiring; both
  acquire, one resolves, and the bindings of the other are dropped without a release.
\<close>

theorem freshness_lease_leak:
  "\<exists>f. fr_reachable sample_fr f \<and> length (fr_ops f) = 2
    \<and> fo_outcomes (fr_ops f ! 1) = [Resolved [sample_snapshot ''l1'']] \<and> fo_dropped (fr_ops f ! 1) = [sample_snapshot ''l2'']
    \<and> fo_released (fr_ops f ! 1) = [] \<and> fo_setup (fr_ops f ! 1) = NoTask \<and> fo_eval (fr_ops f ! 1) = NoTask"
proof -
  let ?es = "[Wait [''v''] None, Check, Wait [''w''] None, Reply 1 Setup Validated, Reply 1 Setup (Captured [sample_target]),
      Reply 0 Setup (PortThrows ''x''), CheckProceeds 0,
      Reply 1 Setup (CheckpointsAre [Some sample_checkpoint]), Reply 1 Eval (CheckpointsAre [Some sample_checkpoint]),
      Reply 1 Setup (BindingsAre [sample_snapshot ''l1'']), Reply 1 Eval (BindingsAre [sample_snapshot ''l2''])]"
  obtain f where f: "fr_run sample_fr ?es fr_init = Some f" "length (fr_ops f) = 2"
    "fo_outcomes (fr_ops f ! 1) = [Resolved [sample_snapshot ''l1'']]" "fo_dropped (fr_ops f ! 1) = [sample_snapshot ''l2'']"
    "fo_released (fr_ops f ! 1) = []" "fo_setup (fr_ops f ! 1) = NoTask" "fo_eval (fr_ops f ! 1) = NoTask"
    by (simp add: fr_eval_defs port_threw_def task_failed_def fr_reject_def numeral_2_eq_2)
  then show ?thesis using fr_run_init [OF f(1)] by blast
qed

end
