(* ===== verification/Canonical_Json.thy ===== *)
theory Canonical_Json
  imports Urdira_Prelude
begin

text \<open>
  The canonical JSON of \<open>packages/plugin-sdk/src/canonical.ts\<close>: the comparison of strings by their
  UTF-8 bytes, the canonical encoder with its sorted object keys, and \<open>hasExactKeys\<close>.  A JavaScript value
  is a tree of the datatype \<open>json\<close>; an object is its list of own enumerable fields.  Trees have
  no cycles, so the ancestor check of \<open>encode\<close> never fires.  Text is a list of code units below
  256, whose UTF-8 form has one or two bytes.
\<close>

section \<open>UTF-8 order\<close>

definition utf8_unit :: "char \<Rightarrow> nat list" where
  "utf8_unit c = (let n = of_char c in if n < 128 then [n] else [192 + n div 64, 128 + n mod 64])"

definition utf8_bytes :: "string \<Rightarrow> nat list" where
  "utf8_bytes s = concat (map utf8_unit s)"

text \<open>The byte loop of \<open>compareUtf8Bytes\<close>: the first difference, else the difference of the lengths.\<close>

fun compare_units :: "nat list \<Rightarrow> nat list \<Rightarrow> int" where
  "compare_units (x # xs) (y # ys) = (if x \<noteq> y then int x - int y else compare_units xs ys)"
| "compare_units xs ys = int (length xs) - int (length ys)"

definition compareEncodedEqualityTieBreak :: "string \<Rightarrow> string \<Rightarrow> int" where
  "compareEncodedEqualityTieBreak left right = compare_units (map of_char left) (map of_char right)"

definition compareUtf8Bytes :: "string \<Rightarrow> string \<Rightarrow> int" where
  "compareUtf8Bytes left right =
     (let d = compare_units (utf8_bytes left) (utf8_bytes right)
      in if d \<noteq> 0 then d else compareEncodedEqualityTieBreak left right)"

section \<open>The encoder\<close>

datatype json = JNull | JBool bool | JNum int | JText string | JArr "json list" | JObj "(string \<times> json) list"

datatype sdk_error =
    CanonicalValueInvalid | VersionInvalid | VersionRequirementInvalid

definition hex_digit :: "nat \<Rightarrow> char" where
  "hex_digit n = (if n < 10 then char_of (48 + n) else char_of (87 + n))"

text \<open>\<open>JSON.stringify\<close> of one code unit of a string.\<close>

definition json_unit :: "char \<Rightarrow> string" where
  "json_unit c =
     (if c = CHR 0x22 then [CHR 0x5C, CHR 0x22]
      else if c = CHR 0x5C then [CHR 0x5C, CHR 0x5C]
      else if c = CHR 0x08 then [CHR 0x5C, CHR ''b'']
      else if c = CHR 0x09 then [CHR 0x5C, CHR ''t'']
      else if c = CHR 0x0A then [CHR 0x5C, CHR ''n'']
      else if c = CHR 0x0C then [CHR 0x5C, CHR ''f'']
      else if c = CHR 0x0D then [CHR 0x5C, CHR ''r'']
      else if (of_char c :: nat) < 32
      then [CHR 0x5C, CHR ''u'', CHR ''0'', CHR ''0'', hex_digit (of_char c div 16), hex_digit (of_char c mod 16)]
      else [c])"

definition json_string :: "string \<Rightarrow> string" where
  "json_string s = CHR 0x22 # concat (map json_unit s) @ [CHR 0x22]"

definition int_str :: "int \<Rightarrow> string" where
  "int_str n = (if n < 0 then CHR ''-'' # nat_str (nat (- n)) else nat_str (nat n))"

definition MAX_SAFE_INTEGER :: int where
  "MAX_SAFE_INTEGER = 9007199254740991"

definition compareKeyEntries :: "string \<times> 'a \<Rightarrow> string \<times> 'a \<Rightarrow> int" where
  "compareKeyEntries left right = compareUtf8Bytes (fst left) (fst right)"

text \<open>\<open>encode\<close>: the fields are encoded and listed in the order of their keys.\<close>

fun cj_encode :: "json \<Rightarrow> sdk_error + string" where
  "cj_encode JNull = Inr ''null''"
| "cj_encode (JBool b) = Inr (if b then ''true'' else ''false'')"
| "cj_encode (JText s) = Inr (json_string s)"
| "cj_encode (JNum n) = (if \<bar>n\<bar> \<le> MAX_SAFE_INTEGER then Inr (int_str n) else Inl CanonicalValueInvalid)"
| "cj_encode (JArr vs) =
     res_bind (res_map cj_encode vs) (\<lambda>items. Inr (CHR ''['' # join_on CHR '','' items @ '']''))"
| "cj_encode (JObj fields) =
     res_bind (res_map (\<lambda>(k, v). res_bind (cj_encode v) (\<lambda>t. Inr (k, t))) fields)
       (\<lambda>keyed. Inr (CHR ''{'' # join_on CHR '','' (map (\<lambda>(k, t). json_string k @ CHR '':'' # t) (sort_by compareKeyEntries keyed)) @ ''}''))"

definition canonicalJson :: "json \<Rightarrow> sdk_error + string" where
  "canonicalJson v = cj_encode v"

definition hasExactKeys :: "json \<Rightarrow> string list \<Rightarrow> string list \<Rightarrow> bool" where
  "hasExactKeys value required optional =
     (case value of
        JObj fields \<Rightarrow> list_all (\<lambda>k. k \<in> set (map fst fields)) required
          \<and> list_all (\<lambda>k. k \<in> set (required @ optional)) (map fst fields)
      | _ \<Rightarrow> False)"


section \<open>The order of texts\<close>

lemma sgn_compare_units: "sgn (compare_units xs ys) = lex_cmp int xs ys"
proof (induction xs arbitrary: ys)
  case Nil
  then show ?case by (cases ys) auto
next
  case (Cons x xs)
  then show ?case by (cases ys) auto
qed

lemma two_bytes_less:
  fixes m n :: nat
  assumes "m < n"
  shows "m div 64 < n div 64 \<or> m div 64 = n div 64 \<and> m mod 64 < n mod 64"
proof (cases "m div 64 = n div 64")
  case True
  then show ?thesis using assms mult_div_mod_eq [of 64 m] mult_div_mod_eq [of 64 n] by linarith
next
  case False
  then show ?thesis using assms div_le_mono [of m n 64] by linarith
qed

lemma utf8_unit_less:
  assumes less: "(of_char c :: nat) < of_char d"
  shows "lex_cmp int (utf8_unit c @ xs) (utf8_unit d @ ys) = -1"
proof -
  obtain m n where mn: "m = (of_char c :: nat)" "n = (of_char d :: nat)" by blast
  have bytes: "utf8_unit c = (if m < 128 then [m] else [192 + m div 64, 128 + m mod 64])"
    "utf8_unit d = (if n < 128 then [n] else [192 + n div 64, 128 + n mod 64])" by (simp_all add: utf8_unit_def mn Let_def)
  have "m < n" using less mn by simp
  then show ?thesis unfolding bytes using two_bytes_less [of m n] by (cases "m < 128"; cases "n < 128") auto
qed

lemma lex_unit:
  "lex_cmp int (utf8_unit c @ xs) (utf8_unit d @ ys) =
     (if (of_char c :: int) < of_char d then -1 else if (of_char d :: int) < of_char c then 1 else lex_cmp int xs ys)"
proof -
  have int: "(of_char c :: int) < of_char d \<longleftrightarrow> (of_char c :: nat) < of_char d" for c d
    using of_nat_less_iff [where ?'a = int, of "of_char c" "of_char d"] by (simp only: of_nat_of_char)
  consider "(of_char c :: nat) < of_char d" | "(of_char d :: nat) < of_char c" | "c = d"
    using of_char_eqI [where ?'a = nat, of c d] by linarith
  then show ?thesis
  proof cases
    case 1
    then show ?thesis by (simp add: int utf8_unit_less)
  next
    case 2
    then show ?thesis using utf8_unit_less [OF 2, of ys xs] lex_cmp_swap [of int "utf8_unit c @ xs"] by (simp add: int)
  next
    case 3
    then show ?thesis by (simp add: lex_cmp_append)
  qed
qed

lemma utf8_unit_nonempty: "\<exists>b bs. utf8_unit c = b # bs"
  by (simp add: utf8_unit_def Let_def)

lemma lex_utf8: "lex_cmp int (utf8_bytes s) (utf8_bytes t) = str_cmp s t"
  unfolding str_cmp_def utf8_bytes_def
proof (induction "of_char :: char \<Rightarrow> int" s t rule: lex_cmp.induct)
  case (2 y ys)
  obtain b bs where "utf8_unit y = b # bs" using utf8_unit_nonempty by blast
  then show ?case by simp
next
  case (3 x xs)
  obtain b bs where "utf8_unit x = b # bs" using utf8_unit_nonempty by blast
  then show ?case by simp
qed (simp_all add: lex_unit)

lemma sgn_compareUtf8Bytes: "sgn (compareUtf8Bytes s t) = str_cmp s t"
proof -
  have "sgn (compare_units (utf8_bytes s) (utf8_bytes t)) = str_cmp s t" by (simp add: sgn_compare_units lex_utf8)
  moreover have "compareEncodedEqualityTieBreak s t = 0" if "str_cmp s t = 0"
    using str_order.cmp_eq [OF that] by (metis compareEncodedEqualityTieBreak_def lex_cmp_refl sgn_0_0 sgn_compare_units)
  ultimately show ?thesis unfolding compareUtf8Bytes_def Let_def by (auto simp: sgn_0_0)
qed

interpretation utf8_order: strict_comparator compareUtf8Bytes
proof
  show "sgn (compareUtf8Bytes y x) = - sgn (compareUtf8Bytes x y)" for x y
    unfolding sgn_compareUtf8Bytes str_cmp_def by (rule lex_cmp_swap)
  show "compareUtf8Bytes x z \<le> 0" if "compareUtf8Bytes x y \<le> 0" "compareUtf8Bytes y z \<le> 0" for x y z
    using that str_order.cmp_trans [of x y z] by (metis sgn_compareUtf8Bytes not_le sgn_greater)
  show "x = y" if "compareUtf8Bytes x y = 0" for x y
    using that str_order.cmp_eq by (metis sgn_0 sgn_compareUtf8Bytes)
qed

section \<open>The encoder identifies exactly the values that differ in key order\<close>

text \<open>A printer that keeps the order of fields, and the value with its fields sorted.\<close>

fun print_json :: "json \<Rightarrow> string" where
  "print_json JNull = ''null''"
| "print_json (JBool b) = (if b then ''true'' else ''false'')"
| "print_json (JText s) = json_string s"
| "print_json (JNum n) = int_str n"
| "print_json (JArr vs) = CHR ''['' # join_on CHR '','' (map print_json vs) @ '']''"
| "print_json (JObj fs) = CHR ''{'' # join_on CHR '','' (map (\<lambda>(k, v). json_string k @ CHR '':'' # print_json v) fs) @ ''}''"

fun sort_keys :: "json \<Rightarrow> json" where
  "sort_keys (JArr vs) = JArr (map sort_keys vs)"
| "sort_keys (JObj fs) = JObj (sort_by compareKeyEntries (map (\<lambda>(k, v). (k, sort_keys v)) fs))"
| "sort_keys v = v"

lemma res_map_eq_map: "res_map f xs = Inr ys \<Longrightarrow> (\<And>x y. x \<in> set xs \<Longrightarrow> f x = Inr y \<Longrightarrow> y = g x) \<Longrightarrow> ys = map g xs"
  by (induction xs arbitrary: ys) (auto simp: res_bind_Inr_iff)

lemma encode_prints: "cj_encode v = Inr t \<Longrightarrow> t = print_json (sort_keys v)"
proof (induction v arbitrary: t)
  case (JArr vs)
  then obtain items where items: "res_map cj_encode vs = Inr items" "t = CHR ''['' # join_on CHR '','' items @ '']''"
    by (auto simp: res_bind_Inr_iff)
  then show ?case using res_map_eq_map [OF items(1)] JArr.IH by (simp add: comp_def) (metis (mono_tags, lifting) map_eq_conv)
next
  case (JObj fs)
  let ?enc = "\<lambda>(k, v). res_bind (cj_encode v) (\<lambda>t. Inr (k, t))" and ?g = "\<lambda>(k, v). (k, print_json (sort_keys v))"
  let ?sorted = "\<lambda>(k, v). (k, sort_keys v)" and ?print = "\<lambda>(k, v). (k, print_json v)"
  from JObj.prems obtain keyed where keyed: "res_map ?enc fs = Inr keyed"
    "t = CHR ''{'' # join_on CHR '','' (map (\<lambda>(k, t). json_string k @ CHR '':'' # t) (sort_by compareKeyEntries keyed)) @ ''}''"
    by (auto simp: res_bind_Inr_iff)
  have "keyed = map ?g fs"
    by (rule res_map_eq_map [OF keyed(1)]) (auto simp: res_bind_Inr_iff dest!: JObj.IH)
  then have "keyed = map ?print (map ?sorted fs)" by (simp add: comp_def case_prod_beta)
  then have "sort_by compareKeyEntries keyed = map ?print (sort_by compareKeyEntries (map ?sorted fs))"
    by (simp only:) (rule sort_by_map, simp add: compareKeyEntries_def case_prod_beta)
  then show ?case by (simp add: keyed(2) comp_def case_prod_unfold)
qed (auto split: if_splits)


definition stops :: "string \<Rightarrow> bool" where
  "stops r \<longleftrightarrow> r = [] \<or> hd r \<in> {CHR '','', CHR '']'', CHR ''}''}"

lemma stops_simps [simp]: "stops []" "stops (CHR '','' # r)" "stops (CHR '']'' # r)" "stops (CHR ''}'' # r)"
  by (simp_all add: stops_def)

definition hex_value :: "char \<Rightarrow> nat" where
  "hex_value c = (let n = of_char c in if n < 58 then n - 48 else n - 87)"

lemma hex_value_digit: "n < 16 \<Longrightarrow> hex_value (hex_digit n) = n"
  by (simp add: hex_value_def hex_digit_def Let_def)

text \<open>A reader of one encoded code unit.\<close>

fun read_escape :: "string \<Rightarrow> (char \<times> string) option" where
  "read_escape (e # r) =
     (if e = CHR ''u'' then (case r of z1 # z2 # h # l # r' \<Rightarrow> Some (char_of (hex_value h * 16 + hex_value l), r') | _ \<Rightarrow> None)
      else Some (if e = CHR ''b'' then CHR 0x08 else if e = CHR ''t'' then CHR 0x09 else if e = CHR ''n'' then CHR 0x0A
                 else if e = CHR ''f'' then CHR 0x0C else if e = CHR ''r'' then CHR 0x0D else e, r))"
| "read_escape [] = None"

fun read_unit :: "string \<Rightarrow> (char \<times> string) option" where
  "read_unit (b # r) = (if b = CHR 0x5C then read_escape r else Some (b, r))"
| "read_unit [] = None"

lemma read_json_unit: "read_unit (json_unit c @ r) = Some (c, r)"
proof (cases "(of_char c :: nat) < 32")
  case True
  have "char_of (of_char c div 16 * 16 + of_char c mod 16 :: nat) = c" by simp
  moreover have "(of_char c :: nat) div 16 < 16" "(of_char c :: nat) mod 16 < 16" using True by auto
  ultimately show ?thesis by (simp add: json_unit_def hex_value_digit)
qed (simp add: json_unit_def)

lemma json_unit_start: "json_unit c @ x \<noteq> CHR 0x22 # y"
  by (simp add: json_unit_def)

lemma units_inj:
  "concat (map json_unit s) @ CHR 0x22 # x = concat (map json_unit t) @ CHR 0x22 # y \<Longrightarrow> s = t \<and> x = y"
proof (induction s arbitrary: t)
  case Nil
  then show ?case by (cases t) (auto simp: json_unit_start [symmetric])
next
  case (Cons c s)
  then obtain d t' where t: "t = d # t'" by (cases t) (auto simp: json_unit_start)
  let ?x = "concat (map json_unit s) @ CHR 0x22 # x" and ?y = "concat (map json_unit t') @ CHR 0x22 # y"
  have "json_unit c @ ?x = json_unit d @ ?y" using Cons.prems t by simp
  then have "Some (c, ?x) = Some (d, ?y)" by (metis read_json_unit)
  then show ?case using Cons.IH t by simp
qed

lemma json_string_inj: "json_string s @ x = json_string t @ y \<Longrightarrow> s = t \<and> x = y"
proof -
  assume "json_string s @ x = json_string t @ y"
  then have "concat (map json_unit s) @ CHR 0x22 # x = concat (map json_unit t) @ CHR 0x22 # y" by (simp add: json_string_def)
  then show ?thesis by (rule units_inj)
qed

definition digit :: "char \<Rightarrow> bool" where
  "digit c \<longleftrightarrow> (of_char c :: nat) \<in> {48..57}"

lemma digit_digit_char [simp]: "digit (digit_char n)"
  by (simp add: digit_def digit_char_def)

lemma nat_str_digits: "list_all digit (nat_str n)" and nat_str_nonempty: "nat_str n \<noteq> []"
  by (induction n rule: nat_str.induct) (subst nat_str.simps, simp)+

lemma nat_str_split:
  assumes "nat_str m @ x = nat_str n @ y" and "stops x" and "stops y"
  shows "m = n \<and> x = y"
proof -
  have "takeWhile digit (nat_str k @ z) = nat_str k \<and> dropWhile digit (nat_str k @ z) = z" if "stops z" for k z
  proof -
    have "\<not> digit a" if "z = a # w" for a w using that \<open>stops z\<close> by (auto simp: stops_def digit_def)
    then have "takeWhile digit z = []" "dropWhile digit z = z" by (cases z; simp)+
    moreover have "\<forall>c \<in> set (nat_str k). digit c" using nat_str_digits [of k] by (simp add: list_all_iff)
    ultimately show ?thesis by (simp add: takeWhile_append2 dropWhile_append2)
  qed
  then show ?thesis using assms by (metis nat_str_inject)
qed

lemma int_str_split:
  assumes "int_str m @ x = int_str n @ y" and "stops x" and "stops y"
  shows "m = n \<and> x = y"
proof -
  have minus: "nat_str k @ z \<noteq> CHR ''-'' # w" for k z w
    using nat_str_digits [of k] nat_str_nonempty [of k] by (cases "nat_str k") (auto simp: digit_def)
  show ?thesis
  proof (cases "m < 0"; cases "n < 0")
    assume "m < 0" "n < 0"
    then have "nat_str (nat (- m)) @ x = nat_str (nat (- n)) @ y" using assms(1) by (simp add: int_str_def)
    from nat_str_split [OF this assms(2,3)] show ?thesis using \<open>m < 0\<close> \<open>n < 0\<close> by auto
  next
    assume "\<not> m < 0" "\<not> n < 0"
    then have "nat_str (nat m) @ x = nat_str (nat n) @ y" using assms(1) by (simp add: int_str_def)
    from nat_str_split [OF this assms(2,3)] show ?thesis using \<open>\<not> m < 0\<close> \<open>\<not> n < 0\<close> by auto
  next
    assume "m < 0" "\<not> n < 0"
    then show ?thesis using assms(1) minus by (metis append_Cons int_str_def)
  next
    assume "\<not> m < 0" "n < 0"
    then show ?thesis using assms(1) minus by (metis append_Cons int_str_def)
  qed
qed

lemma join_cons: "join_on CHR '','' (x # xs) = x @ concat (map (Cons CHR '','') xs)"
  by (induction xs arbitrary: x) auto

lemma tail_inj:
  assumes el: "\<And>v w r s. v \<in> set vs \<Longrightarrow> e v @ r = e w @ s \<Longrightarrow> stops r \<Longrightarrow> stops s \<Longrightarrow> v = w \<and> r = s"
    and c: "c = CHR '']'' \<or> c = CHR ''}''"
    and eq: "concat (map (\<lambda>v. CHR '','' # e v) vs) @ c # r = concat (map (\<lambda>v. CHR '','' # e v) ws) @ c # s"
  shows "vs = ws \<and> r = s"
  using el eq
proof (induction vs arbitrary: ws)
  case Nil
  then show ?case using c by (cases ws) auto
next
  case (Cons v vs)
  let ?tail = "\<lambda>vs r. concat (map (\<lambda>v. CHR '','' # e v) vs) @ c # r"
  obtain w ws' where ws: "ws = w # ws'" using Cons.prems c by (cases ws) auto
  have st: "stops (?tail xs t)" for xs t using c by (cases xs) auto
  have "e v @ ?tail vs r = e w @ ?tail ws' s" using Cons.prems(2) ws by simp
  then have "v = w \<and> ?tail vs r = ?tail ws' s" by (intro Cons.prems(1)) (auto intro: st)
  moreover from this have "vs = ws' \<and> r = s" using Cons.IH [OF Cons.prems(1) [OF list.set_intros(2)]] by blast
  ultimately show ?case using ws by simp
qed

lemma commas_inj:
  assumes el: "\<And>v w r s. v \<in> set vs \<Longrightarrow> e v @ r = e w @ s \<Longrightarrow> stops r \<Longrightarrow> stops s \<Longrightarrow> v = w \<and> r = s"
    and start: "\<And>v r. \<not> stops (e v @ r)" and c: "c = CHR '']'' \<or> c = CHR ''}''"
    and eq: "join_on CHR '','' (map e vs) @ c # r = join_on CHR '','' (map e ws) @ c # s"
  shows "vs = ws \<and> r = s"
proof -
  let ?tail = "\<lambda>vs r. concat (map (\<lambda>v. CHR '','' # e v) vs) @ c # r"
  have st: "stops (?tail xs t)" for xs t using c by (cases xs) auto
  have first: "e v @ ?tail xs t \<noteq> c # u" for v xs t u using start [of v "?tail xs t"] c by (metis stops_simps(3,4))
  show ?thesis
  proof (cases vs)
    case Nil
    then show ?thesis using eq first by (cases ws) (auto simp: join_cons comp_def, metis)
  next
    case (Cons v vs')
    then obtain w ws' where ws: "ws = w # ws'" using eq first by (cases ws) (auto simp: join_cons comp_def)
    have "e v @ ?tail vs' r = e w @ ?tail ws' s" using eq Cons ws by (simp add: join_cons comp_def)
    then have "v = w \<and> ?tail vs' r = ?tail ws' s" using Cons by (intro el) (auto intro: st)
    then show ?thesis using tail_inj [of vs' e c r ws' s] el c Cons ws by auto
  qed
qed

text \<open>The first character of a printed value tells its constructor.\<close>

fun tag_of :: "json \<Rightarrow> char set" where
  "tag_of JNull = {CHR ''n''}"
| "tag_of (JBool b) = (if b then {CHR ''t''} else {CHR ''f''})"
| "tag_of (JText s) = {CHR 0x22}"
| "tag_of (JNum n) = insert CHR ''-'' (Collect digit)"
| "tag_of (JArr vs) = {CHR ''[''}"
| "tag_of (JObj fs) = {CHR ''{''}"

lemma nat_str_head: "\<exists>c r. nat_str n = c # r \<and> digit c"
  using nat_str_digits [of n] nat_str_nonempty [of n] by (cases "nat_str n") auto

lemma print_head: "\<exists>c r. print_json v = c # r \<and> c \<in> tag_of v"
proof (cases v)
  case (JNum n)
  then show ?thesis using nat_str_head [of "nat n"] by (auto simp: int_str_def)
qed (auto simp: json_string_def)

lemma print_starts: "\<not> stops (print_json v @ r)"
  using print_head [of v] by (cases v) (auto simp: stops_def digit_def split: if_splits)

lemma print_tags:
  assumes "print_json v @ r = print_json w @ s"
  shows "tag_of v \<inter> tag_of w \<noteq> {}"
proof -
  obtain c x d y where cd: "print_json v = c # x" "c \<in> tag_of v" "print_json w = d # y" "d \<in> tag_of w"
    using print_head by metis
  then show ?thesis using assms by auto
qed

lemma print_inj: "print_json v @ r = print_json w @ s \<Longrightarrow> stops r \<Longrightarrow> stops s \<Longrightarrow> v = w \<and> r = s"
proof (induction v arbitrary: w r s)
  case (JArr vs)
  obtain ws where w: "w = JArr ws" using print_tags [OF JArr.prems(1)] by (cases w) (auto simp: digit_def split: if_splits)
  have "join_on CHR '','' (map print_json vs) @ CHR '']'' # r = join_on CHR '','' (map print_json ws) @ CHR '']'' # s"
    using JArr.prems(1) w by simp
  then have "vs = ws \<and> r = s" using JArr.IH by (intro commas_inj [where e = print_json]) (auto simp: print_starts)
  then show ?case using w by simp
next
  case (JObj fs)
  let ?e = "\<lambda>(k, v). json_string k @ CHR '':'' # print_json v"
  obtain gs where w: "w = JObj gs" using print_tags [OF JObj.prems(1)] by (cases w) (auto simp: digit_def split: if_splits)
  have el: "p = q \<and> x = y" if "p \<in> set fs" "?e p @ x = ?e q @ y" "stops x" "stops y" for p q x y
  proof -
    obtain k v l u where kv: "p = (k, v)" "q = (l, u)" by (metis prod.exhaust)
    have "json_string k @ (CHR '':'' # print_json v @ x) = json_string l @ (CHR '':'' # print_json u @ y)" using that(2) kv by simp
    then have kl: "k = l" "print_json v @ x = print_json u @ y" using json_string_inj by blast+
    have "v = u \<and> x = y" using JObj.IH [OF that(1) _ kl(2) that(3,4)] kv(1) by simp
    then show ?thesis using kv kl(1) by simp
  qed
  have "join_on CHR '','' (map ?e fs) @ CHR ''}'' # r = join_on CHR '','' (map ?e gs) @ CHR ''}'' # s" using JObj.prems(1) w by simp
  then have "fs = gs \<and> r = s"
    by (intro commas_inj [where e = ?e, OF el]) (auto simp: stops_def json_string_def split: prod.splits)
  then show ?case using w by simp
next
  case (JText t)
  then obtain u where w: "w = JText u" using print_tags [OF JText.prems(1)] by (cases w) (auto simp: digit_def split: if_splits)
  then have "json_string t @ r = json_string u @ s" using JText.prems(1) by simp
  then show ?case using json_string_inj w by blast
next
  case (JNum n)
  then obtain m where w: "w = JNum m" using print_tags [OF JNum.prems(1)] by (cases w) (auto simp: digit_def split: if_splits)
  then have "int_str n @ r = int_str m @ s" using JNum.prems(1) by simp
  then show ?case using int_str_split JNum.prems(2,3) w by blast
next
  case JNull
  then show ?case using print_tags [OF JNull.prems(1)] by (cases w) (auto simp: digit_def split: if_splits)
next
  case (JBool b)
  then show ?case using print_tags [OF JBool.prems(1)] by (cases w) (auto simp: digit_def split: if_splits)
qed

lemma sort_fields_mset:
  assumes "distinct (map fst fs)" and "mset fs = mset gs"
  shows "sort_by compareKeyEntries fs = sort_by compareKeyEntries gs"
proof -
  have srt: "sorted_wrt (\<lambda>x y. compareUtf8Bytes x y \<le> 0) (map fst (sort_by compareKeyEntries xs))" for xs :: "(string \<times> 'a) list"
  proof -
    have "map fst (sort_by compareKeyEntries xs) = sort_by compareUtf8Bytes (map fst xs)"
      by (rule sort_by_map [symmetric]) (simp add: compareKeyEntries_def)
    then show ?thesis using utf8_order.sorted_sort_by by simp
  qed
  have "mset (map fst fs) = mset (map fst gs)" using assms(2) by (metis mset_map)
  then have keys: "map fst (sort_by compareKeyEntries fs) = map fst (sort_by compareKeyEntries gs)"
    by (intro utf8_order.sorted_unique srt) simp
  have "inj_on fst (set fs)" using assms(1) by (simp add: distinct_map)
  moreover have "set (sort_by compareKeyEntries fs) = set fs" "set (sort_by compareKeyEntries gs) = set fs"
    using mset_eq_setD [OF assms(2)] by simp_all
  ultimately show ?thesis using keys by (simp add: inj_on_map_eq_map)
qed

lemma canonical_text_iff:
  assumes "canonicalJson v = Inr s" and "canonicalJson w = Inr t"
  shows "s = t \<longleftrightarrow> sort_keys v = sort_keys w"
proof -
  have "s = print_json (sort_keys v)" "t = print_json (sort_keys w)"
    using assms encode_prints by (simp_all add: canonicalJson_def)
  then show ?thesis using print_inj [of "sort_keys v" "[]" "sort_keys w" "[]"] by auto
qed

text \<open>
  C38.  Canonical JSON identifies exactly the values that differ in the order of their keys: two values the encoder accepts
  have the same text if and only if they are equal once the fields of every object are sorted, and
  an object's text does not depend on the order in which its fields were added.
\<close>

theorem canonical_json_identity:
  assumes "canonicalJson v = Inr s" and "canonicalJson w = Inr t"
  shows "(s = t \<longleftrightarrow> sort_keys v = sort_keys w)
    \<and> (\<forall>fs gs. distinct (map fst fs) \<longrightarrow> mset fs = mset gs \<longrightarrow> v = JObj fs \<longrightarrow> w = JObj gs \<longrightarrow> s = t)"
proof -
  note iff = canonical_text_iff [OF assms]
  have "s = t" if "distinct (map fst fs)" "mset fs = mset gs" "v = JObj fs" "w = JObj gs" for fs gs
  proof -
    let ?f = "\<lambda>(k, v). (k, sort_keys v)"
    have "sort_by compareKeyEntries (map ?f fs) = sort_by compareKeyEntries (map ?f gs)"
      by (rule sort_fields_mset) (use that in \<open>simp_all add: comp_def case_prod_beta\<close>)
    then show ?thesis by (simp add: iff that(3,4))
  qed
  with iff show ?thesis by blast
qed

theorem canonical_json_identity_witness:
  "canonicalJson (JObj [(''b'', JNum 1), (''a'', JArr [JText ''x''])]) = canonicalJson (JObj [(''a'', JArr [JText ''x'']), (''b'', JNum 1)])"
proof -
  let ?v = "JObj [(''b'', JNum 1), (''a'', JArr [JText ''x''])]" and ?w = "JObj [(''a'', JArr [JText ''x'']), (''b'', JNum 1)]"
  obtain s t where st: "canonicalJson ?v = Inr s" "canonicalJson ?w = Inr t"
    by (simp add: canonicalJson_def MAX_SAFE_INTEGER_def)
  then have "s = t" using canonical_json_identity [OF st] by auto
  then show ?thesis using st by simp
qed

end
