(* ===== verification/Semver.thy ===== *)
theory Semver
  imports Canonical_Json
begin

text \<open>
  Semantic versions and structured version requirements, \<open>packages/plugin-sdk/src/semver.ts\<close>: the
  parser (the regular expression \<open>SEMVER\<close> as the function \<open>semver_match\<close>), precedence, the
  normalisation of requirements, their satisfaction, and the textual range syntax.  The theorems show that
  the parser accepts exactly the grammar of SemVer 2.0.0, that precedence is the one the standard defines,
  that normalisation keeps the meaning of a requirement, and what the caret and tilde ranges admit.
\<close>

section \<open>Versions\<close>

datatype public_numeric = PublicNumber int | PublicText string

record semver =
  sv_normalized :: string
  sv_major :: public_numeric
  sv_minor :: public_numeric
  sv_patch :: public_numeric
  sv_prerelease :: "string list"
  sv_build :: "string list"
  sv_core :: "string list"

definition ident_char :: "char \<Rightarrow> bool" where
  "ident_char c \<longleftrightarrow> digit c \<or> (of_char c :: nat) \<in> {65..90} \<or> (of_char c :: nat) \<in> {97..122} \<or> c = CHR ''-''"

definition numeric_id :: "string \<Rightarrow> bool" where
  "numeric_id s \<longleftrightarrow> s = ''0'' \<or> s \<noteq> [] \<and> list_all digit s \<and> hd s \<noteq> CHR ''0''"

definition prerelease_id :: "string \<Rightarrow> bool" where
  "prerelease_id s \<longleftrightarrow> numeric_id s \<or> list_all ident_char s \<and> list_ex (\<lambda>c. \<not> digit c) s"

definition build_id :: "string \<Rightarrow> bool" where
  "build_id s \<longleftrightarrow> s \<noteq> [] \<and> list_all ident_char s"

text \<open>The match of \<open>SEMVER\<close>: the three core numbers, the prerelease identifiers and the build identifiers.\<close>

definition semver_match :: "string \<Rightarrow> (string list \<times> string list \<times> string list) option" where
  "semver_match version =
     (let core = split_on CHR ''.'' (takeWhile (\<lambda>c. c \<noteq> CHR ''-'' \<and> c \<noteq> CHR ''+'') version);
          rest = dropWhile (\<lambda>c. c \<noteq> CHR ''-'' \<and> c \<noteq> CHR ''+'') version;
          (pre, rest) = (case rest of
              c # r \<Rightarrow> if c = CHR ''-'' then (split_on CHR ''.'' (takeWhile (\<lambda>c. c \<noteq> CHR ''+'') r), dropWhile (\<lambda>c. c \<noteq> CHR ''+'') r) else ([], rest)
            | [] \<Rightarrow> ([], []));
          build = (case rest of c # r \<Rightarrow> split_on CHR ''.'' r | [] \<Rightarrow> [])
      in if length core = 3 \<and> list_all numeric_id core \<and> list_all prerelease_id pre \<and> list_all build_id build
         then Some (core, pre, build) else None)"

definition publicNumeric :: "string \<Rightarrow> public_numeric" where
  "publicNumeric s = (if int (str_nat s) \<le> MAX_SAFE_INTEGER then PublicNumber (int (str_nat s)) else PublicText s)"

definition normalized_text :: "string list \<Rightarrow> string list \<Rightarrow> string list \<Rightarrow> string" where
  "normalized_text core pre build =
     join_on CHR ''.'' core @ (if pre \<noteq> [] then CHR ''-'' # join_on CHR ''.'' pre else []) @ (if build \<noteq> [] then CHR ''+'' # join_on CHR ''.'' build else [])"

definition semver_of :: "string list \<Rightarrow> string list \<Rightarrow> string list \<Rightarrow> semver" where
  "semver_of core pre build =
     \<lparr>sv_normalized = normalized_text core pre build, sv_major = publicNumeric (core ! 0), sv_minor = publicNumeric (core ! 1),
      sv_patch = publicNumeric (core ! 2), sv_prerelease = pre, sv_build = build, sv_core = core\<rparr>"

definition parseInternal :: "string \<Rightarrow> sdk_error + semver" where
  "parseInternal version =
     (case semver_match version of None \<Rightarrow> Inl VersionInvalid | Some (core, pre, build) \<Rightarrow> Inr (semver_of core pre build))"

section \<open>Precedence\<close>

definition compareNumeric :: "string \<Rightarrow> string \<Rightarrow> int" where
  "compareNumeric left right =
     (if length left \<noteq> length right then int (length left) - int (length right) else str_cmp left right)"

fun compare_core :: "string list \<Rightarrow> string list \<Rightarrow> int" where
  "compare_core (a # as) (b # bs) = (if compareNumeric a b \<noteq> 0 then compareNumeric a b else compare_core as bs)"
| "compare_core _ _ = 0"

definition all_digits :: "string \<Rightarrow> bool" where
  "all_digits s \<longleftrightarrow> s \<noteq> [] \<and> list_all digit s"

fun compare_prerelease :: "string list \<Rightarrow> string list \<Rightarrow> int" where
  "compare_prerelease [] [] = 0"
| "compare_prerelease [] (b # bs) = -1"
| "compare_prerelease (a # as) [] = 1"
| "compare_prerelease (a # as) (b # bs) =
     (if a = b then compare_prerelease as bs
      else if all_digits a \<and> all_digits b then compareNumeric a b
      else if all_digits a \<noteq> all_digits b then (if all_digits a then -1 else 1)
      else if str_cmp a b < 0 then -1 else 1)"

definition compareParsed :: "semver \<Rightarrow> semver \<Rightarrow> int" where
  "compareParsed left right =
     (let order = compare_core (sv_core left) (sv_core right); l = sv_prerelease left; r = sv_prerelease right
      in if order \<noteq> 0 then order
         else if l = [] \<or> r = [] then (if length l = length r then 0 else if l = [] then 1 else -1)
         else compare_prerelease l r)"

definition compareSemVerPrecedence :: "string \<Rightarrow> string \<Rightarrow> sdk_error + int" where
  "compareSemVerPrecedence left right =
     res_bind (parseInternal left) (\<lambda>l. res_bind (parseInternal right) (\<lambda>r. Inr (compareParsed l r)))"

section \<open>Requirements\<close>

record interval =
  iv_minimum :: "string option"
  iv_minimum_inclusive :: "bool option"
  iv_maximum :: "string option"
  iv_maximum_inclusive :: "bool option"

record requirement =
  vr_alternatives :: "interval list"
  vr_allow_prerelease :: bool

definition empty_interval :: interval where
  "empty_interval = \<lparr>iv_minimum = None, iv_minimum_inclusive = None, iv_maximum = None, iv_maximum_inclusive = None\<rparr>"

definition opt_field :: "string \<Rightarrow> ('a \<Rightarrow> json) \<Rightarrow> 'a option \<Rightarrow> (string \<times> json) list" where
  "opt_field k f x = (case x of None \<Rightarrow> [] | Some v \<Rightarrow> [(k, f v)])"

definition interval_json :: "interval \<Rightarrow> json" where
  "interval_json iv = JObj (opt_field ''minimum'' JText (iv_minimum iv) @ opt_field ''minimum_inclusive'' JBool (iv_minimum_inclusive iv)
     @ opt_field ''maximum'' JText (iv_maximum iv) @ opt_field ''maximum_inclusive'' JBool (iv_maximum_inclusive iv))"

definition normalize_bound :: "string option \<Rightarrow> bool option \<Rightarrow> sdk_error + (string option \<times> bool option)" where
  "normalize_bound bound inclusive =
     (case bound of None \<Rightarrow> Inr (None, None)
      | Some b \<Rightarrow> res_bind (parseInternal b) (\<lambda>p. Inr (Some (sv_normalized p), Some (case inclusive of None \<Rightarrow> True | Some i \<Rightarrow> i))))"

definition normalize_interval :: "interval \<Rightarrow> sdk_error + interval" where
  "normalize_interval iv =
     (if iv_minimum_inclusive iv \<noteq> None \<and> iv_minimum iv = None \<or> iv_maximum_inclusive iv \<noteq> None \<and> iv_maximum iv = None
      then Inl VersionRequirementInvalid
      else res_bind (normalize_bound (iv_minimum iv) (iv_minimum_inclusive iv)) (\<lambda>(mn, mi).
           res_bind (normalize_bound (iv_maximum iv) (iv_maximum_inclusive iv)) (\<lambda>(mx, xi).
             let item = \<lparr>iv_minimum = mn, iv_minimum_inclusive = mi, iv_maximum = mx, iv_maximum_inclusive = xi\<rparr>
             in case (mn, mx) of
                  (Some l, Some u) \<Rightarrow> res_bind (compareSemVerPrecedence l u) (\<lambda>order.
                     if order > 0 \<or> order = 0 \<and> (mi \<noteq> Some True \<or> xi \<noteq> Some True) then Inl VersionRequirementInvalid else Inr item)
                | _ \<Rightarrow> Inr item)))"

definition keyed_interval :: "interval \<Rightarrow> sdk_error + (string \<times> interval)" where
  "keyed_interval iv = res_bind (canonicalJson (interval_json iv)) (\<lambda>k. Inr (k, iv))"

definition normalizeVersionRequirement :: "requirement \<Rightarrow> sdk_error + requirement" where
  "normalizeVersionRequirement r =
     (if vr_alternatives r = [] then Inl VersionRequirementInvalid
      else res_bind (res_map normalize_interval (vr_alternatives r)) (\<lambda>normalized.
           res_bind (res_map keyed_interval normalized) (\<lambda>keyed.
             let unique = foldl (\<lambda>m (k, iv). jset k iv m) [] keyed
             in Inr \<lparr>vr_alternatives = map snd (sort_by compareKeyEntries unique), vr_allow_prerelease = vr_allow_prerelease r\<rparr>)))"

text \<open>\<open>some\<close> with a callback that may throw.\<close>

fun res_some :: "('a \<Rightarrow> 'e + bool) \<Rightarrow> 'a list \<Rightarrow> 'e + bool" where
  "res_some f [] = Inr False"
| "res_some f (x # xs) = res_bind (f x) (\<lambda>b. if b then Inr True else res_some f xs)"

definition interval_admits :: "string \<Rightarrow> interval \<Rightarrow> sdk_error + bool" where
  "interval_admits version iv =
     res_bind (case iv_minimum iv of None \<Rightarrow> Inr True
               | Some b \<Rightarrow> res_bind (compareSemVerPrecedence version b) (\<lambda>order.
                   Inr (\<not> (order < 0 \<or> order = 0 \<and> iv_minimum_inclusive iv = Some False)))) (\<lambda>lower.
     if \<not> lower then Inr False
     else case iv_maximum iv of None \<Rightarrow> Inr True
          | Some b \<Rightarrow> res_bind (compareSemVerPrecedence version b) (\<lambda>order.
              Inr (\<not> (order > 0 \<or> order = 0 \<and> iv_maximum_inclusive iv = Some False))))"

definition satisfiesVersionRequirement :: "string \<Rightarrow> requirement \<Rightarrow> sdk_error + bool" where
  "satisfiesVersionRequirement version requirement =
     res_bind (parseInternal version) (\<lambda>parsed.
     res_bind (normalizeVersionRequirement requirement) (\<lambda>normalized.
       if sv_prerelease parsed \<noteq> [] \<and> \<not> vr_allow_prerelease normalized then Inr False
       else res_some (interval_admits version) (vr_alternatives normalized)))"

section \<open>The textual range syntax\<close>

definition js_space :: "char \<Rightarrow> bool" where
  "js_space c \<longleftrightarrow> (of_char c :: nat) \<in> {9..13} \<or> (of_char c :: nat) = 32 \<or> (of_char c :: nat) = 160"

definition js_trim :: "string \<Rightarrow> string" where
  "js_trim s = rev (dropWhile js_space (rev (dropWhile js_space s)))"

text \<open>\<open>split("||")\<close>, and \<open>split(/\s+/u)\<close>.\<close>

fun split_bars :: "string \<Rightarrow> string list" where
  "split_bars [] = [[]]"
| "split_bars [c] = [[c]]"
| "split_bars (c # d # s) =
     (if c = CHR ''|'' \<and> d = CHR ''|'' then [] # split_bars s
      else case split_bars (d # s) of [] \<Rightarrow> [[c]] | w # ws \<Rightarrow> (c # w) # ws)"

function split_spaces :: "string \<Rightarrow> string list" where
  "split_spaces s =
     (let w = takeWhile (\<lambda>c. \<not> js_space c) s; r = dropWhile (\<lambda>c. \<not> js_space c) s
      in case r of [] \<Rightarrow> [w] | c # r' \<Rightarrow> w # split_spaces (dropWhile js_space r'))"
  by auto
termination
proof (relation "measure length", simp)
  fix s :: string and w r c r'
  assume "r = dropWhile (\<lambda>c. \<not> js_space c) s" "r = c # r'"
  then have "length r' < length s" by (metis Suc_le_eq length_Cons length_dropWhile_le)
  then show "(dropWhile js_space r', s) \<in> measure length" using le_less_trans [OF length_dropWhile_le] by simp
qed

definition range_maximum :: "char \<Rightarrow> nat \<Rightarrow> nat \<Rightarrow> nat \<Rightarrow> string" where
  "range_maximum operator major minor patch =
     (if operator = CHR ''^'' then
        (if major > 0 then nat_str (major + 1) @ ''.0.0''
         else if minor > 0 then ''0.'' @ nat_str (minor + 1) @ ''.0''
         else ''0.0.'' @ nat_str (patch + 1))
      else nat_str major @ CHR ''.'' # nat_str (minor + 1) @ ''.0'')"

text \<open>An alternative yields its interval and whether it names a prerelease.\<close>

definition single_range :: "char \<Rightarrow> string \<Rightarrow> sdk_error + (interval \<times> bool)" where
  "single_range operator version =
     res_bind (parseInternal version) (\<lambda>p.
       Inr (\<lparr>iv_minimum = Some (sv_normalized p), iv_minimum_inclusive = Some True,
             iv_maximum = Some (range_maximum operator (str_nat (sv_core p ! 0)) (str_nat (sv_core p ! 1)) (str_nat (sv_core p ! 2))),
             iv_maximum_inclusive = Some False\<rparr>, sv_prerelease p \<noteq> []))"

text \<open>The operator of a comparator and the text after it: \<open>(lower, inclusive, version)\<close>.\<close>

fun comparator_parts :: "string \<Rightarrow> (bool \<times> bool \<times> string) option" where
  "comparator_parts (c # r) =
     (if c \<noteq> CHR ''>'' \<and> c \<noteq> CHR ''<'' then None
      else case r of
             d # r' \<Rightarrow> if d = CHR ''='' then Some (c = CHR ''>'', True, r') else Some (c = CHR ''>'', False, r)
           | [] \<Rightarrow> Some (c = CHR ''>'', False, []))"
| "comparator_parts [] = None"

definition is_comparator :: "string \<Rightarrow> bool" where
  "is_comparator s = (case comparator_parts s of None \<Rightarrow> False | Some (_, _, r) \<Rightarrow> r \<noteq> [] \<and> digit (hd r))"

definition tighten :: "bool \<Rightarrow> bool \<Rightarrow> string \<Rightarrow> interval \<Rightarrow> sdk_error + interval" where
  "tighten lower inclusive version iv =
     (let bound = (if lower then iv_minimum iv else iv_maximum iv);
          replace = (if lower then iv\<lparr>iv_minimum := Some version, iv_minimum_inclusive := Some inclusive\<rparr>
                     else iv\<lparr>iv_maximum := Some version, iv_maximum_inclusive := Some inclusive\<rparr>)
      in case bound of
           None \<Rightarrow> Inr replace
         | Some b \<Rightarrow> res_bind (compareSemVerPrecedence version b) (\<lambda>order.
             if (if lower then order > 0 else order < 0) then Inr replace
             else if order = 0 then
               Inr (if lower then iv\<lparr>iv_minimum_inclusive := Some (iv_minimum_inclusive iv = Some True \<and> inclusive)\<rparr>
                    else iv\<lparr>iv_maximum_inclusive := Some (iv_maximum_inclusive iv = Some True \<and> inclusive)\<rparr>)
             else Inr iv))"

definition apply_comparator :: "string \<Rightarrow> interval \<times> bool \<Rightarrow> sdk_error + (interval \<times> bool)" where
  "apply_comparator text state =
     (case comparator_parts text of
        None \<Rightarrow> Inl VersionInvalid
      | Some (lower, inclusive, version) \<Rightarrow>
          res_bind (parseInternal version) (\<lambda>p.
          res_bind (tighten lower inclusive (sv_normalized p) (fst state)) (\<lambda>iv.
            Inr (iv, snd state \<or> sv_prerelease p \<noteq> []))))"

definition parse_alternative :: "string \<Rightarrow> sdk_error + (interval \<times> bool)" where
  "parse_alternative alternative =
     (if alternative = ''*'' then Inr (empty_interval, False)
      else if hd alternative = CHR ''^'' then single_range CHR ''^'' (tl alternative)
      else if hd alternative = CHR ''~'' then single_range CHR ''~'' (tl alternative)
      else if list_all is_comparator (split_spaces alternative)
      then res_fold apply_comparator (split_spaces alternative) (empty_interval, False)
      else res_bind (parseInternal alternative) (\<lambda>p.
        Inr (\<lparr>iv_minimum = Some (sv_normalized p), iv_minimum_inclusive = Some True,
              iv_maximum = Some (sv_normalized p), iv_maximum_inclusive = Some True\<rparr>, sv_prerelease p \<noteq> [])))"

definition parseVersionRequirementText :: "string \<Rightarrow> sdk_error + requirement" where
  "parseVersionRequirementText text =
     (if js_trim text = [] then Inl VersionRequirementInvalid
      else res_bind (res_map parse_alternative (filter (\<lambda>s. s \<noteq> []) (map js_trim (split_bars text)))) (\<lambda>alternatives.
        normalizeVersionRequirement \<lparr>vr_alternatives = map fst alternatives, vr_allow_prerelease = list_ex snd alternatives\<rparr>))"

section \<open>The parser accepts the grammar\<close>

definition core_ok :: "string list \<Rightarrow> bool" where
  "core_ok core \<longleftrightarrow> length core = 3 \<and> list_all numeric_id core"

lemma ident_chars:
  "numeric_id s \<Longrightarrow> c \<in> set s \<Longrightarrow> digit c"
  "prerelease_id s \<Longrightarrow> c \<in> set s \<Longrightarrow> ident_char c"
  "build_id s \<Longrightarrow> c \<in> set s \<Longrightarrow> ident_char c"
proof -
  show digits: "digit c" if "numeric_id s" "c \<in> set s" for s c
    using that by (auto simp: numeric_id_def list_all_iff digit_def)
  show "ident_char c" if "prerelease_id s" "c \<in> set s"
    using that digits by (auto simp: prerelease_id_def list_all_iff ident_char_def)
  show "ident_char c" if "build_id s" "c \<in> set s"
    using that by (auto simp: build_id_def list_all_iff)
qed

lemma not_ident [simp]: "\<not> digit CHR ''.''" "\<not> digit CHR ''-''" "\<not> digit CHR ''+''" "\<not> ident_char CHR ''.''" "\<not> ident_char CHR ''+''"
  by (simp_all add: digit_def ident_char_def)

lemma set_join: "set (join_on sep ws) \<subseteq> insert sep (\<Union>w \<in> set ws. set w)"
  by (induction sep ws rule: join_on.induct) auto

lemma core_chars: "core_ok core \<Longrightarrow> c \<in> set (join_on CHR ''.'' core) \<Longrightarrow> c \<noteq> CHR ''-'' \<and> c \<noteq> CHR ''+''"
  using set_join [of "CHR ''.''" core] ident_chars(1) by (fastforce simp: core_ok_def list_all_iff)

lemma pre_chars: "list_all prerelease_id pre \<Longrightarrow> c \<in> set (join_on CHR ''.'' pre) \<Longrightarrow> c \<noteq> CHR ''+''"
  using set_join [of "CHR ''.''" pre] ident_chars(2) by (fastforce simp: list_all_iff)

lemma split_ids:
  "core_ok core \<Longrightarrow> split_on CHR ''.'' (join_on CHR ''.'' core) = core"
  "list_all prerelease_id pre \<Longrightarrow> pre \<noteq> [] \<Longrightarrow> split_on CHR ''.'' (join_on CHR ''.'' pre) = pre"
  "list_all build_id build \<Longrightarrow> build \<noteq> [] \<Longrightarrow> split_on CHR ''.'' (join_on CHR ''.'' build) = build"
  using ident_chars by (auto intro!: split_on_join simp: core_ok_def list_all_iff) fastforce+

lemma take_core:
  assumes "core_ok core" and "rest = [] \<or> hd rest = CHR ''-'' \<or> hd rest = CHR ''+''"
  shows "takeWhile (\<lambda>c. c \<noteq> CHR ''-'' \<and> c \<noteq> CHR ''+'') (join_on CHR ''.'' core @ rest) = join_on CHR ''.'' core"
    "dropWhile (\<lambda>c. c \<noteq> CHR ''-'' \<and> c \<noteq> CHR ''+'') (join_on CHR ''.'' core @ rest) = rest"
proof -
  have "takeWhile (\<lambda>c. c \<noteq> CHR ''-'' \<and> c \<noteq> CHR ''+'') rest = []" "dropWhile (\<lambda>c. c \<noteq> CHR ''-'' \<and> c \<noteq> CHR ''+'') rest = rest"
    using assms(2) by (cases rest; auto)+
  then show "takeWhile (\<lambda>c. c \<noteq> CHR ''-'' \<and> c \<noteq> CHR ''+'') (join_on CHR ''.'' core @ rest) = join_on CHR ''.'' core"
    "dropWhile (\<lambda>c. c \<noteq> CHR ''-'' \<and> c \<noteq> CHR ''+'') (join_on CHR ''.'' core @ rest) = rest"
    using core_chars [OF assms(1)] by (simp_all add: takeWhile_append2 dropWhile_append2)
qed

lemma take_pre:
  assumes "list_all prerelease_id pre" and "rest = [] \<or> hd rest = CHR ''+''"
  shows "takeWhile (\<lambda>c. c \<noteq> CHR ''+'') (join_on CHR ''.'' pre @ rest) = join_on CHR ''.'' pre"
    "dropWhile (\<lambda>c. c \<noteq> CHR ''+'') (join_on CHR ''.'' pre @ rest) = rest"
proof -
  have "takeWhile (\<lambda>c. c \<noteq> CHR ''+'') rest = []" "dropWhile (\<lambda>c. c \<noteq> CHR ''+'') rest = rest"
    using assms(2) by (cases rest; auto)+
  then show "takeWhile (\<lambda>c. c \<noteq> CHR ''+'') (join_on CHR ''.'' pre @ rest) = join_on CHR ''.'' pre"
    "dropWhile (\<lambda>c. c \<noteq> CHR ''+'') (join_on CHR ''.'' pre @ rest) = rest"
    using pre_chars [OF assms(1)] by (simp_all add: takeWhile_append2 dropWhile_append2)
qed

lemma match_text:
  assumes "core_ok core" and "list_all prerelease_id pre" and "list_all build_id build"
  shows "semver_match (normalized_text core pre build) = Some (core, pre, build)"
proof -
  let ?build = "if build \<noteq> [] then CHR ''+'' # join_on CHR ''.'' build else []"
  let ?rest = "(if pre \<noteq> [] then CHR ''-'' # join_on CHR ''.'' pre else []) @ ?build"
  have shape: "normalized_text core pre build = join_on CHR ''.'' core @ ?rest" by (simp add: normalized_text_def)
  have r: "?rest = [] \<or> hd ?rest = CHR ''-'' \<or> hd ?rest = CHR ''+''"
    and b: "?build = [] \<or> hd ?build = CHR ''+''" by auto
  show ?thesis
    unfolding semver_match_def shape take_core [OF assms(1) r]
    using split_ids(1) [OF assms(1)] split_ids(2) [OF assms(2)] split_ids(3) [OF assms(3)] take_pre [OF assms(2) b] assms
    supply dropWhile_eq_Nil_conv [simp del] takeWhile_eq_all_conv [simp del]
    by (cases "pre = []"; cases "build = []") (simp_all add: core_ok_def)
qed

lemma match_sound:
  assumes "semver_match v = Some (core, pre, build)"
  shows "core_ok core \<and> list_all prerelease_id pre \<and> list_all build_id build \<and> v = normalized_text core pre build"
proof -
  define p where "p = (\<lambda>c :: char. c \<noteq> CHR ''-'' \<and> c \<noteq> CHR ''+'')"
  have v: "v = takeWhile p v @ dropWhile p v" by simp
  show ?thesis
  proof (cases "dropWhile p v")
    case Nil
    then show ?thesis using assms v unfolding semver_match_def Let_def p_def [symmetric] Nil
      by (simp add: core_ok_def normalized_text_def split: if_splits) auto
  next
    case (Cons c r)
    then have c: "c = CHR ''-'' \<or> c = CHR ''+''" using hd_dropWhile [of p v] by (auto simp: p_def)
    show ?thesis
    proof (cases "c = CHR ''-''")
      case False
      then have "c = CHR ''+''" using c by simp
      then show ?thesis using assms v unfolding semver_match_def Let_def p_def [symmetric] Cons
        by (simp add: core_ok_def normalized_text_def split: if_splits) auto
    next
      case True
      define q where "q = (\<lambda>c :: char. c \<noteq> CHR ''+'')"
      have r: "r = takeWhile q r @ dropWhile q r" by simp
      have "hd (dropWhile q r) = CHR ''+''" if "dropWhile q r \<noteq> []" using hd_dropWhile [OF that] by (simp add: q_def)
      then show ?thesis using assms v r True unfolding semver_match_def Let_def p_def [symmetric] q_def [symmetric] Cons
        by (cases "dropWhile q r") (simp add: core_ok_def normalized_text_def split: if_splits; auto)+
    qed
  qed
qed

text \<open>
  C37.  The version parser accepts exactly the grammar of SemVer 2.0.0 and loses nothing: parsing succeeds with a result if and only
  if the text is three canonical numbers, an optional dash and dot-separated prerelease identifiers, and
  an optional plus and dot-separated build identifiers, and the result holds exactly those parts with the text itself as normal form.
\<close>

theorem semver_parse_exact:
  "parseInternal v = Inr p \<longleftrightarrow>
     (\<exists>core pre build. length core = 3 \<and> list_all numeric_id core \<and> list_all prerelease_id pre \<and> list_all build_id build
        \<and> v = normalized_text core pre build \<and> p = semver_of core pre build)"
proof -
  have "parseInternal v = Inr p \<longleftrightarrow> (\<exists>core pre build. semver_match v = Some (core, pre, build) \<and> p = semver_of core pre build)"
    by (auto simp: parseInternal_def split: option.splits prod.splits)
  moreover have "semver_match v = Some (core, pre, build) \<longleftrightarrow>
      core_ok core \<and> list_all prerelease_id pre \<and> list_all build_id build \<and> v = normalized_text core pre build" for core pre build
    using match_sound match_text by blast
  ultimately show ?thesis unfolding core_ok_def by blast
qed

section \<open>Precedence is that of the standard\<close>

text \<open>
  SemVer 2.0.0, section 11: the numbers of the core decide numerically from left to right; a release comes after its
  prereleases; prerelease identifiers are compared from left to right, numeric ones numerically and before
  all others, the others by their characters; a proper prefix comes first.
\<close>

datatype pre_ident = PNum nat | PAlpha string

type_synonym version = "nat list \<times> pre_ident list"

fun ident_class :: "pre_ident \<Rightarrow> int" where
  "ident_class (PNum n) = 0"
| "ident_class (PAlpha s) = 1"

fun ident_number :: "pre_ident \<Rightarrow> int" where
  "ident_number (PNum n) = int n"
| "ident_number (PAlpha s) = 0"

fun ident_text :: "pre_ident \<Rightarrow> string" where
  "ident_text (PNum n) = []"
| "ident_text (PAlpha s) = s"

definition spec_ident :: "pre_ident \<Rightarrow> pre_ident \<Rightarrow> int" where
  "spec_ident = then_by (\<lambda>a b. ident_class a - ident_class b)
     (then_by (\<lambda>a b. ident_number a - ident_number b) (\<lambda>a b. str_cmp (ident_text a) (ident_text b)))"

definition spec_precedence :: "version \<Rightarrow> version \<Rightarrow> int" where
  "spec_precedence = then_by (\<lambda>v w. lex_by (\<lambda>m n. int m - int n) (fst v) (fst w))
     (then_by (\<lambda>v w. of_bool (snd v = []) - of_bool (snd w = [])) (\<lambda>v w. lex_by spec_ident (snd v) (snd w)))"

definition ident_of :: "string \<Rightarrow> pre_ident" where
  "ident_of s = (if all_digits s then PNum (str_nat s) else PAlpha s)"

definition version_of :: "semver \<Rightarrow> version" where
  "version_of p = (map str_nat (sv_core p), map ident_of (sv_prerelease p))"

interpretation spec_precedence: comparator spec_precedence
  unfolding spec_precedence_def spec_ident_def
  by (intro comparator_then_by comparator_diff comparator_pullback [where f = fst] comparator_pullback [where f = snd]
      comparator_pullback [where f = ident_text] comparator_lex_by str_order.comparator_axioms)

lemma str_nat_foldl: "foldl (\<lambda>a c. a * 10 + char_digit c) a s = a * 10 ^ length s + str_nat s"
proof (induction s arbitrary: a)
  case (Cons c s)
  show ?case using Cons.IH [of "a * 10 + char_digit c"] Cons.IH [of "char_digit c"] by (simp add: str_nat_def algebra_simps)
qed (simp add: str_nat_def)

lemma str_nat_Cons: "str_nat (c # s) = char_digit c * 10 ^ length s + str_nat s"
  using str_nat_foldl [of "char_digit c" s] by (simp add: str_nat_def)

lemma digit_bound: "digit c \<Longrightarrow> char_digit c \<le> 9"
  unfolding digit_def char_digit_def atLeastAtMost_iff by linarith

lemma str_nat_bound: "list_all digit s \<Longrightarrow> str_nat s < 10 ^ length s"
proof (induction s)
  case Nil
  then show ?case by (simp add: str_nat_def)
next
  case (Cons c s)
  then have "str_nat s < 10 ^ length s" "char_digit c * 10 ^ length s \<le> 9 * 10 ^ length s"
    using digit_bound [of c] by (auto intro: mult_le_mono1)
  then show ?case unfolding str_nat_Cons list.size power_Suc add_Suc_right add_0_right by linarith
qed

lemma nat_order: "sgn (int m - int n) = (if m < n then -1 else if n < m then 1 else 0)"
  by (simp add: sgn_if)

lemma str_cmp_digits:
  "length s = length t \<Longrightarrow> list_all digit s \<Longrightarrow> list_all digit t \<Longrightarrow> str_cmp s t = sgn (int (str_nat s) - int (str_nat t))"
proof (induction s t rule: list_induct2)
  case (Cons c s d t)
  have codes: "(of_char x :: int) = int (char_digit x) + 48" if "digit x" for x
    using that by (simp add: digit_def char_digit_def of_nat_diff of_nat_of_char)
  have bounds: "str_nat s < 10 ^ length t" "str_nat t < 10 ^ length t" using Cons.prems Cons.hyps str_nat_bound [of s] str_nat_bound [of t] by simp_all
  have cd: "digit c" "digit d" using Cons.prems by auto
  have less: "x * P + a < y * P + b" if "x < y" "a < P" for x y a b P :: nat
  proof -
    have "x * P + P \<le> y * P" using that(1) by (metis add.commute mult_Suc mult_le_mono1 Suc_leI)
    then show ?thesis using that(2) by linarith
  qed
  have "str_cmp (c # s) (d # t) = (if char_digit c < char_digit d then -1 else if char_digit d < char_digit c then 1 else str_cmp s t)"
    by (simp add: str_cmp_def codes cd)
  then show ?case using less [of "char_digit c" "char_digit d" "str_nat s" "10 ^ length t" "str_nat t"]
      less [of "char_digit d" "char_digit c" "str_nat t" "10 ^ length t" "str_nat s"] bounds Cons
    unfolding nat_order by (auto simp: str_nat_Cons)
qed (simp add: str_cmp_def str_nat_def)

lemma numeric_digits: "numeric_id s \<Longrightarrow> list_all digit s \<and> s \<noteq> []"
  by (auto simp: numeric_id_def digit_def)

lemma numeric_lower: "numeric_id s \<Longrightarrow> 1 < length s \<Longrightarrow> 10 ^ (length s - 1) \<le> str_nat s"
proof -
  assume s: "numeric_id s" "1 < length s"
  then obtain c r where cr: "s = c # r" "c \<noteq> CHR ''0''" "digit c" by (cases s) (auto simp: numeric_id_def)
  have "char_digit c \<noteq> 0"
  proof
    assume "char_digit c = 0"
    then have "(of_char c :: nat) = of_char (CHR ''0'')" using cr(3) by (simp add: char_digit_def digit_def)
    then show False using cr(2) of_char_eqI by blast
  qed
  then have "1 * 10 ^ length r \<le> char_digit c * 10 ^ length r" by (intro mult_le_mono1) simp
  then have "10 ^ length r \<le> char_digit c * 10 ^ length r + str_nat r" by linarith
  then show ?thesis unfolding cr(1) str_nat_Cons by (simp only: list.size diff_Suc_1 add_Suc_right add_0_right)
qed

lemma numeric_shorter: "numeric_id s \<Longrightarrow> numeric_id t \<Longrightarrow> length s < length t \<Longrightarrow> str_nat s < str_nat t"
proof -
  assume st: "numeric_id s" "numeric_id t" "length s < length t"
  have "str_nat s < 10 ^ length s" using str_nat_bound numeric_digits st(1) by blast
  also have "\<dots> \<le> 10 ^ (length t - 1)" using st(3) by (intro power_increasing) auto
  also have "\<dots> \<le> str_nat t" using numeric_lower [OF st(2)] st(1,3) numeric_digits [OF st(1)] by (cases s) auto
  finally show ?thesis .
qed

lemma compareNumeric_spec:
  assumes "numeric_id s" and "numeric_id t"
  shows "sgn (compareNumeric s t) = sgn (int (str_nat s) - int (str_nat t))"
  using numeric_shorter [OF assms] numeric_shorter [OF assms(2,1)] str_cmp_digits numeric_digits assms
  by (cases "length s" "length t" rule: linorder_cases) (auto simp: compareNumeric_def sgn_if)

lemma compareNumeric_zero [simp]: "compareNumeric s t = 0 \<longleftrightarrow> s = t"
  by (auto simp: compareNumeric_def str_order.cmp_zero_iff)

lemma sgn_zero_iff: "sgn (a :: int) = sgn b \<Longrightarrow> a = 0 \<longleftrightarrow> b = 0"
  by (metis sgn_0_0)

lemma core_precedence:
  "length l = length r \<Longrightarrow> list_all numeric_id l \<Longrightarrow> list_all numeric_id r \<Longrightarrow>
   sgn (compare_core l r) = sgn (lex_by (\<lambda>m n. int m - int n) (map str_nat l) (map str_nat r))"
proof (induction l r rule: list_induct2)
  case (Cons a as b bs)
  have "sgn (compareNumeric a b) = sgn (int (str_nat a) - int (str_nat b))" using Cons.prems by (simp add: compareNumeric_spec)
  from this sgn_zero_iff [OF this] show ?case using Cons by (cases "compareNumeric a b = 0") (simp_all del: compareNumeric_zero)
qed simp

lemma ident_precedence:
  assumes "prerelease_id a" and "prerelease_id b" and "a \<noteq> b"
  shows "sgn (spec_ident (ident_of a) (ident_of b)) =
    sgn (if all_digits a \<and> all_digits b then compareNumeric a b else if all_digits a \<noteq> all_digits b then (if all_digits a then -1 else 1)
         else if str_cmp a b < 0 then -1 else 1)"
    and "spec_ident (ident_of a) (ident_of b) \<noteq> 0"
proof -
  have numeric: "numeric_id s" if "prerelease_id s" "all_digits s" for s
    using that by (auto simp: prerelease_id_def all_digits_def list_all_iff list_ex_iff)
  have cmp: "sgn (compareNumeric a b) = sgn (int (str_nat a) - int (str_nat b))" "int (str_nat a) - int (str_nat b) \<noteq> 0" if "all_digits a" "all_digits b"
  proof -
    show eq: "sgn (compareNumeric a b) = sgn (int (str_nat a) - int (str_nat b))" using that assms numeric compareNumeric_spec by blast
    have "compareNumeric a b \<noteq> 0" using assms(3) by simp
    then show "int (str_nat a) - int (str_nat b) \<noteq> 0" using eq by (metis sgn_0_0)
  qed
  have "str_cmp a b \<noteq> 0" using assms(3) str_order.cmp_zero_iff by blast
  then show "sgn (spec_ident (ident_of a) (ident_of b)) =
    sgn (if all_digits a \<and> all_digits b then compareNumeric a b else if all_digits a \<noteq> all_digits b then (if all_digits a then -1 else 1)
         else if str_cmp a b < 0 then -1 else 1)" "spec_ident (ident_of a) (ident_of b) \<noteq> 0"
    using cmp by (auto simp: spec_ident_def then_by_def ident_of_def)
qed

lemma prerelease_precedence:
  "list_all prerelease_id l \<Longrightarrow> list_all prerelease_id r \<Longrightarrow>
   sgn (compare_prerelease l r) = sgn (lex_by spec_ident (map ident_of l) (map ident_of r))"
proof (induction l r rule: compare_prerelease.induct)
  case (4 a as b bs)
  have "spec_ident x x = 0" for x by (simp add: spec_ident_def then_by_def str_cmp_def)
  then show ?case using 4 ident_precedence [of a b] by (cases "a = b") (auto simp: sgn_0_0)
qed auto

lemma parsed_parts:
  assumes "parseInternal v = Inr p"
  shows "length (sv_core p) = 3" "list_all numeric_id (sv_core p)" "list_all prerelease_id (sv_prerelease p)" "sv_normalized p = v"
    "p = semver_of (sv_core p) (sv_prerelease p) (sv_build p)"
  using assms match_sound by (auto simp: parseInternal_def semver_of_def core_ok_def split: option.splits)

lemma precedence_of_parsed:
  assumes "parseInternal v = Inr p" and "parseInternal w = Inr q"
  shows "sgn (compareParsed p q) = sgn (spec_precedence (version_of p) (version_of q))"
proof -
  note p = parsed_parts [OF assms(1)] and q = parsed_parts [OF assms(2)]
  have core: "sgn (compare_core (sv_core p) (sv_core q)) = sgn (lex_by (\<lambda>m n. int m - int n) (map str_nat (sv_core p)) (map str_nat (sv_core q)))"
    by (rule core_precedence) (simp_all add: p(1-3) q(1-3))
  have pre: "sgn (compare_prerelease (sv_prerelease p) (sv_prerelease q)) = sgn (lex_by spec_ident (map ident_of (sv_prerelease p)) (map ident_of (sv_prerelease q)))"
    by (rule prerelease_precedence) (simp_all add: p(1-3) q(1-3))
  show ?thesis
  proof (cases "compare_core (sv_core p) (sv_core q) = 0")
    case True
    then have "lex_by (\<lambda>m n. int m - int n) (map str_nat (sv_core p)) (map str_nat (sv_core q)) = 0" using sgn_zero_iff [OF core] by simp
    then show ?thesis using True pre by (auto simp: compareParsed_def spec_precedence_def then_by_def version_of_def)
  next
    case False
    then have "lex_by (\<lambda>m n. int m - int n) (map str_nat (sv_core p)) (map str_nat (sv_core q)) \<noteq> 0" using sgn_zero_iff [OF core] by simp
    then show ?thesis using False core by (simp add: compareParsed_def spec_precedence_def then_by_def version_of_def)
  qed
qed

text \<open>
  C36.  Version precedence is the one SemVer 2.0.0 defines: on two valid versions the comparison returns a number whose sign is
  that of the standard's order (core numbers numerically, releases after prereleases, identifiers
  left to right); in particular it never throws, is antisymmetric, and is transitive on valid versions.
\<close>

theorem semver_precedence_standard:
  assumes "parseInternal u = Inr p" and "parseInternal v = Inr q" and "parseInternal w = Inr r"
  shows "\<exists>uv vu vw uw. compareSemVerPrecedence u v = Inr uv \<and> compareSemVerPrecedence v u = Inr vu
      \<and> compareSemVerPrecedence v w = Inr vw \<and> compareSemVerPrecedence u w = Inr uw
      \<and> sgn uv = sgn (spec_precedence (version_of p) (version_of q)) \<and> sgn vu = - sgn uv \<and> (uv \<le> 0 \<longrightarrow> vw \<le> 0 \<longrightarrow> uw \<le> 0)"
proof -
  have sign: "compareParsed a b \<le> 0 \<longleftrightarrow> spec_precedence (version_of a) (version_of b) \<le> 0"
    if "parseInternal x = Inr a" "parseInternal y = Inr b" for x y a b
    using precedence_of_parsed [OF that] by (metis not_le sgn_greater)
  have "compareParsed p q \<le> 0 \<longrightarrow> compareParsed q r \<le> 0 \<longrightarrow> compareParsed p r \<le> 0"
    using sign [OF assms(1,2)] sign [OF assms(2,3)] sign [OF assms(1,3)] spec_precedence.cmp_trans by blast
  moreover have "sgn (compareParsed q p) = - sgn (compareParsed p q)"
    using precedence_of_parsed [OF assms(1,2)] precedence_of_parsed [OF assms(2,1)] spec_precedence.cmp_swap by metis
  ultimately show ?thesis using precedence_of_parsed [OF assms(1,2)] by (simp add: compareSemVerPrecedence_def assms)
qed

lemma parse_release: "parseInternal ''1.10.0'' = Inr (semver_of [''1'', ''10'', ''0''] [] [])"
  "parseInternal ''1.9.0-rc.2'' = Inr (semver_of [''1'', ''9'', ''0''] [''rc'', ''2''] [])"
  by (simp_all add: parseInternal_def semver_match_def numeric_id_def prerelease_id_def ident_char_def digit_def)

theorem semver_precedence_standard_witness:
  "\<exists>n. compareSemVerPrecedence ''1.9.0-rc.2'' ''1.10.0'' = Inr n
    \<and> sgn n = sgn (spec_precedence ([1, 9, 0], [PAlpha ''rc'', PNum 2]) ([1, 10, 0], []))"
  using semver_precedence_standard [OF parse_release(2) parse_release(1) parse_release(1)]
  by (auto simp: version_of_def semver_of_def ident_of_def all_digits_def digit_def str_nat_def char_digit_def)

section \<open>What a requirement means\<close>

definition bound_version :: "string \<Rightarrow> version" where
  "bound_version b = (case parseInternal b of Inr q \<Rightarrow> version_of q | Inl _ \<Rightarrow> ([], []))"

definition in_interval :: "version \<Rightarrow> interval \<Rightarrow> bool" where
  "in_interval v iv \<longleftrightarrow>
     (case iv_minimum iv of None \<Rightarrow> True
      | Some b \<Rightarrow> let o1 = spec_precedence v (bound_version b) in o1 > 0 \<or> o1 = 0 \<and> iv_minimum_inclusive iv \<noteq> Some False)
   \<and> (case iv_maximum iv of None \<Rightarrow> True
      | Some b \<Rightarrow> let o2 = spec_precedence v (bound_version b) in o2 < 0 \<or> o2 = 0 \<and> iv_maximum_inclusive iv \<noteq> Some False)"

definition interval_ok :: "interval \<Rightarrow> bool" where
  "interval_ok iv \<longleftrightarrow> (\<forall>b \<in> set_option (iv_minimum iv) \<union> set_option (iv_maximum iv). \<exists>q. parseInternal b = Inr q)"

lemma interval_fields:
  "(''minimum'', JText b) \<in> set (case interval_json iv of JObj fs \<Rightarrow> fs | _ \<Rightarrow> []) \<longleftrightarrow> iv_minimum iv = Some b"
  "(''minimum_inclusive'', JBool i) \<in> set (case interval_json iv of JObj fs \<Rightarrow> fs | _ \<Rightarrow> []) \<longleftrightarrow> iv_minimum_inclusive iv = Some i"
  "(''maximum'', JText b) \<in> set (case interval_json iv of JObj fs \<Rightarrow> fs | _ \<Rightarrow> []) \<longleftrightarrow> iv_maximum iv = Some b"
  "(''maximum_inclusive'', JBool i) \<in> set (case interval_json iv of JObj fs \<Rightarrow> fs | _ \<Rightarrow> []) \<longleftrightarrow> iv_maximum_inclusive iv = Some i"
  by (auto simp: interval_json_def opt_field_def split: option.splits)

lemma sort_keys_fields: "sort_keys (interval_json iv) = JObj (sort_by compareKeyEntries (case interval_json iv of JObj fs \<Rightarrow> fs | _ \<Rightarrow> []))"
  by (simp add: interval_json_def opt_field_def split: option.splits)

definition interval_key :: "interval \<Rightarrow> string" where
  "interval_key iv = print_json (sort_keys (interval_json iv))"

lemma keyed_interval_eq: "keyed_interval iv = Inr (interval_key iv, iv)"
proof -
  have "\<exists>t. cj_encode (interval_json iv) = Inr t" by (simp add: interval_json_def opt_field_def split: option.splits)
  then show ?thesis by (auto simp: keyed_interval_def canonicalJson_def interval_key_def dest: encode_prints)
qed

lemma interval_key_inj: "interval_key iv = interval_key jv \<Longrightarrow> iv = jv"
proof -
  assume "interval_key iv = interval_key jv"
  then have "sort_keys (interval_json iv) = sort_keys (interval_json jv)"
    using print_inj [of _ "[]" _ "[]"] by (auto simp: interval_key_def)
  then have fields: "set (case interval_json iv of JObj fs \<Rightarrow> fs | _ \<Rightarrow> []) = set (case interval_json jv of JObj fs \<Rightarrow> fs | _ \<Rightarrow> [])"
    unfolding sort_keys_fields by (metis json.inject(5) set_sort_by)
  have eq: "x = y" if "\<And>b. x = Some b \<longleftrightarrow> y = Some b" for x y :: "'b option" using that by (metis option.exhaust)
  show "iv = jv" using interval_fields [of _ iv] interval_fields [of _ jv] unfolding fields by (intro interval.equality eq) auto
qed

definition keyed_by :: "('a \<Rightarrow> 'k) \<Rightarrow> ('k, 'a) jsmap \<Rightarrow> bool" where
  "keyed_by f m \<longleftrightarrow> list_all (\<lambda>p. fst p = f (snd p)) m"

lemma jset_values:
  assumes "keyed_by f m" and "\<And>x y. f x = f y \<Longrightarrow> x = y"
  shows "snd ` set (jset (f v) v m) = insert v (snd ` set m) \<and> keyed_by f (jset (f v) v m)"
  using assms(1)
proof (induction m)
  case (Cons p m)
  then have p: "fst p = f (snd p)" "keyed_by f m" by (simp_all add: keyed_by_def)
  show ?case
  proof (cases "snd p = v")
    case True
    then show ?thesis using p by (cases p) (simp add: keyed_by_def)
  next
    case False
    then have "f (snd p) \<noteq> f v" using assms(2) by blast
    then show ?thesis using p Cons.IH by (cases p) (auto simp: keyed_by_def)
  qed
qed (simp add: keyed_by_def)

lemma unique_values:
  assumes "keyed_by f m" and inj: "\<And>x y. f x = f y \<Longrightarrow> x = y"
  shows "snd ` set (foldl (\<lambda>m (k, x). jset k x m) m (map (\<lambda>x. (f x, x)) xs)) = snd ` set m \<union> set xs"
  using assms(1)
proof (induction xs arbitrary: m)
  case (Cons x xs)
  note step = jset_values [OF Cons.prems inj, where v = x]
  show ?case using Cons.IH [OF step [THEN conjunct2]] step [THEN conjunct1] by simp
qed simp

lemma normalize_bound_Inr:
  assumes "normalize_bound b i = Inr (b', i')"
  shows "b' = b" "i' = (if b = None then None else Some (i \<noteq> Some False))" "\<forall>x \<in> set_option b. \<exists>q. parseInternal x = Inr q"
  using assms parsed_parts(4) by (auto simp: normalize_bound_def res_bind_Inr_iff split: option.splits)

lemma normalize_interval_Inr:
  assumes "normalize_interval iv = Inr iv'"
  shows "interval_ok iv'" "in_interval v iv' = in_interval v iv"
proof -
  obtain mi xi where n: "normalize_bound (iv_minimum iv) (iv_minimum_inclusive iv) = Inr (iv_minimum iv, mi)"
    "normalize_bound (iv_maximum iv) (iv_maximum_inclusive iv) = Inr (iv_maximum iv, xi)"
    "iv' = \<lparr>iv_minimum = iv_minimum iv, iv_minimum_inclusive = mi, iv_maximum = iv_maximum iv, iv_maximum_inclusive = xi\<rparr>"
    using assms normalize_bound_Inr(1)
    by (simp add: normalize_interval_def res_bind_Inr_iff Let_def split: if_splits prod.splits option.splits) metis+
  then show "interval_ok iv'" "in_interval v iv' = in_interval v iv"
    using normalize_bound_Inr(2,3) [OF n(1)] normalize_bound_Inr(2,3) [OF n(2)]
    by (auto simp: interval_ok_def in_interval_def Let_def split: option.splits if_splits)
qed

lemma res_map_set: "res_map f xs = Inr ys \<Longrightarrow> set ys = {y. \<exists>x \<in> set xs. f x = Inr y}"
  by (induction xs arbitrary: ys) (auto simp: res_bind_Inr_iff)

lemma normalize_Inr:
  assumes "normalizeVersionRequirement r = Inr n"
  shows "vr_allow_prerelease n = vr_allow_prerelease r"
    "set (vr_alternatives n) = {iv'. \<exists>iv \<in> set (vr_alternatives r). normalize_interval iv = Inr iv'}"
    "\<And>iv. iv \<in> set (vr_alternatives r) \<Longrightarrow> \<exists>iv'. normalize_interval iv = Inr iv'"
proof -
  obtain ivs where ivs: "res_map normalize_interval (vr_alternatives r) = Inr ivs"
    using assms by (auto simp: normalizeVersionRequirement_def res_bind_Inr_iff split: if_splits)
  have keyed: "res_map keyed_interval ivs = Inr (map (\<lambda>iv. (interval_key iv, iv)) ivs)"
    by (rule res_map_total) (rule keyed_interval_eq)
  have n: "n = \<lparr>vr_alternatives = map snd (sort_by compareKeyEntries (foldl (\<lambda>m (k, iv). jset k iv m) [] (map (\<lambda>iv. (interval_key iv, iv)) ivs))),
      vr_allow_prerelease = vr_allow_prerelease r\<rparr>"
    using assms by (simp add: normalizeVersionRequirement_def ivs keyed Let_def split: if_splits)
  show "vr_allow_prerelease n = vr_allow_prerelease r" by (simp add: n)
  have "set (vr_alternatives n) = set ivs"
    using unique_values [of interval_key "[]" ivs, OF _ interval_key_inj] by (simp add: n keyed_by_def)
  then show "set (vr_alternatives n) = {iv'. \<exists>iv \<in> set (vr_alternatives r). normalize_interval iv = Inr iv'}"
    using res_map_set [OF ivs] by simp
  show "\<exists>iv'. normalize_interval iv = Inr iv'" if "iv \<in> set (vr_alternatives r)" for iv
    using that res_map_Inr_nth [OF ivs] by (metis in_set_conv_nth)
qed

lemma interval_admits_spec:
  assumes "parseInternal v = Inr p" and "interval_ok iv"
  shows "interval_admits v iv = Inr (in_interval (version_of p) iv)"
proof -
  have bound: "\<exists>n. compareSemVerPrecedence v b = Inr n \<and> sgn n = sgn (spec_precedence (version_of p) (bound_version b))"
    if b: "b \<in> set_option (iv_minimum iv) \<union> set_option (iv_maximum iv)" for b
  proof -
    obtain q where q: "parseInternal b = Inr q" using assms(2) b unfolding interval_ok_def by blast
    then show ?thesis using precedence_of_parsed [OF assms(1) q] by (simp add: compareSemVerPrecedence_def assms(1) bound_version_def)
  qed
  have sign: "n < 0 \<longleftrightarrow> m < 0" "n = 0 \<longleftrightarrow> m = 0" "n > 0 \<longleftrightarrow> m > 0" if "sgn n = sgn m" for n m :: int
    using sgn_less [of n] sgn_less [of m] sgn_0_0 [of n] sgn_0_0 [of m] sgn_greater [of n] sgn_greater [of m] unfolding that by argo+
  have lower: "(case iv_minimum iv of None \<Rightarrow> Inr True
      | Some b \<Rightarrow> res_bind (compareSemVerPrecedence v b) (\<lambda>order. Inr (\<not> (order < 0 \<or> order = 0 \<and> iv_minimum_inclusive iv = Some False)))) =
    Inr (case iv_minimum iv of None \<Rightarrow> True
      | Some b \<Rightarrow> let o1 = spec_precedence (version_of p) (bound_version b) in o1 > 0 \<or> o1 = 0 \<and> iv_minimum_inclusive iv \<noteq> Some False)"
  proof (cases "iv_minimum iv")
    case (Some b)
    then obtain n where n: "compareSemVerPrecedence v b = Inr n" "sgn n = sgn (spec_precedence (version_of p) (bound_version b))"
      using bound by auto
    show ?thesis using sign [OF n(2)] by (auto simp: Some n(1) Let_def)
  qed simp
  have upper: "(case iv_maximum iv of None \<Rightarrow> Inr True
      | Some b \<Rightarrow> res_bind (compareSemVerPrecedence v b) (\<lambda>order. Inr (\<not> (order > 0 \<or> order = 0 \<and> iv_maximum_inclusive iv = Some False)))) =
    Inr (case iv_maximum iv of None \<Rightarrow> True
      | Some b \<Rightarrow> let o2 = spec_precedence (version_of p) (bound_version b) in o2 < 0 \<or> o2 = 0 \<and> iv_maximum_inclusive iv \<noteq> Some False)"
  proof (cases "iv_maximum iv")
    case (Some b)
    then obtain n where n: "compareSemVerPrecedence v b = Inr n" "sgn n = sgn (spec_precedence (version_of p) (bound_version b))"
      using bound by auto
    show ?thesis using sign [OF n(2)] by (auto simp: Some n(1) Let_def)
  qed simp
  show ?thesis unfolding interval_admits_def lower upper res_bind_simps in_interval_def by simp
qed

lemma res_some_total: "(\<And>x. x \<in> set xs \<Longrightarrow> f x = Inr (g x)) \<Longrightarrow> res_some f xs = Inr (list_ex g xs)"
  by (induction xs) auto

text \<open>
  Satisfaction has the declared meaning: for a valid version and a requirement that normalises, the test returns (never
  throws) true exactly when the version is a release or prereleases are allowed, and the version lies within
  one of the declared intervals; parsing, deduplicating and sorting the intervals changes nothing.
\<close>

theorem satisfies_meaning:
  assumes "parseInternal v = Inr p" and "normalizeVersionRequirement r = Inr n"
  shows "satisfiesVersionRequirement v r =
    Inr ((sv_prerelease p = [] \<or> vr_allow_prerelease r) \<and> list_ex (in_interval (version_of p)) (vr_alternatives r))"
proof -
  note n = normalize_Inr [OF assms(2)]
  have ok: "interval_ok iv" if "iv \<in> set (vr_alternatives n)" for iv
    using that n(2) normalize_interval_Inr(1) by auto
  have "res_some (interval_admits v) (vr_alternatives n) = Inr (list_ex (in_interval (version_of p)) (vr_alternatives n))"
    by (rule res_some_total) (rule interval_admits_spec [OF assms(1) ok])
  moreover have "list_ex (in_interval (version_of p)) (vr_alternatives n) = list_ex (in_interval (version_of p)) (vr_alternatives r)"
    unfolding list_ex_iff n(2) using n(3) normalize_interval_Inr(2) by blast
  ultimately show ?thesis by (auto simp: satisfiesVersionRequirement_def assms n(1))
qed

definition any_version :: requirement where
  "any_version = \<lparr>vr_alternatives = [empty_interval], vr_allow_prerelease = False\<rparr>"

lemma any_normalizes: "normalizeVersionRequirement any_version = Inr any_version"
proof -
  have "normalize_interval empty_interval = Inr empty_interval"
    by (simp add: normalize_interval_def empty_interval_def normalize_bound_def)
  then show ?thesis by (simp add: normalizeVersionRequirement_def any_version_def keyed_interval_eq sort_by_def)
qed

theorem satisfies_meaning_witness:
  "satisfiesVersionRequirement ''1.10.0'' any_version = Inr True \<and> satisfiesVersionRequirement ''1.9.0-rc.2'' any_version = Inr False"
  using satisfies_meaning [OF parse_release(1) any_normalizes] satisfies_meaning [OF parse_release(2) any_normalizes]
  by (simp add: any_version_def empty_interval_def in_interval_def semver_of_def)

section \<open>Caret and tilde ranges\<close>

definition release_text :: "nat \<Rightarrow> nat \<Rightarrow> nat \<Rightarrow> string" where
  "release_text a b c = join_on CHR ''.'' [nat_str a, nat_str b, nat_str c]"

lemma digit_char_0: "digit_char 0 = CHR ''0''"
  by (simp add: digit_char_def char_of_eq_iff)

lemma nat_str_hd: "0 < n \<Longrightarrow> hd (nat_str n) \<noteq> CHR ''0''"
proof (induction n rule: nat_str.induct)
  case (1 n)
  show ?case
  proof (cases "n < 10")
    case True
    then have "digit_char n \<noteq> CHR ''0''" using 1(2) unfolding digit_char_0 [symmetric] by (metis char_digit_char mod_less mod_0 neq0_conv)
    then show ?thesis using True by (simp add: nat_str.simps [of n])
  next
    case False
    then have "hd (nat_str n) = hd (nat_str (n div 10))" by (simp add: nat_str.simps [of n] nat_str_nonempty)
    then show ?thesis using 1 False by simp
  qed
qed

lemma numeric_nat_str: "numeric_id (nat_str n)"
proof (cases "n = 0")
  case True
  then show ?thesis by (simp add: numeric_id_def nat_str.simps digit_char_0)
next
  case False
  then show ?thesis using nat_str_hd [of n] nat_str_digits [of n] nat_str_nonempty [of n] by (simp add: numeric_id_def)
qed

lemma parse_release_text: "parseInternal (release_text a b c) = Inr (semver_of [nat_str a, nat_str b, nat_str c] [] [])"
proof -
  have "core_ok [nat_str a, nat_str b, nat_str c]" by (simp add: core_ok_def numeric_nat_str)
  from match_text [OF this, of "[]" "[]"] show ?thesis by (simp add: parseInternal_def normalized_text_def release_text_def)
qed

lemma release_version: "version_of (semver_of [nat_str a, nat_str b, nat_str c] [] []) = ([a, b, c], [])"
  by (simp add: version_of_def semver_of_def)

lemma bound_release: "bound_version (release_text a b c) = ([a, b, c], [])"
  by (simp add: bound_version_def parse_release_text release_version)

lemma release_order: "spec_precedence ([a, b, c], []) ([x, y, z], []) =
    (if a \<noteq> x then int a - int x else if b \<noteq> y then int b - int y else int c - int z)"
  by (simp add: spec_precedence_def then_by_def)

lemma range_maximum_text:
  "range_maximum CHR ''^'' x y z = (if x > 0 then release_text (x + 1) 0 0 else if y > 0 then release_text 0 (y + 1) 0 else release_text 0 0 (z + 1))"
  "range_maximum CHR ''~'' x y z = release_text x (y + 1) 0"
  by (simp_all add: range_maximum_def release_text_def nat_str.simps [of 0] digit_char_0)

lemma range_text:
  assumes "op = CHR ''^'' \<or> op = CHR ''~''"
  shows "js_trim (op # release_text x y z) = op # release_text x y z" "split_bars (op # release_text x y z) = [op # release_text x y z]"
    "op # release_text x y z \<noteq> ''*''"
proof -
  have core: "core_ok [nat_str x, nat_str y, nat_str z]" by (simp add: core_ok_def numeric_nat_str)
  have chars: "c = CHR ''.'' \<or> digit c" if "c \<in> set (release_text x y z)" for c
    using that set_join [of "CHR ''.''" "[nat_str x, nat_str y, nat_str z]"] nat_str_digits unfolding release_text_def list_all_iff by fastforce
  have space: "\<not> js_space c" and bar: "c \<noteq> CHR ''|''" if "c \<in> set (op # release_text x y z)" for c
    using that chars [of c] assms by (auto simp: js_space_def digit_def)
  have trim: "dropWhile js_space s = s" if "\<And>c. c \<in> set s \<Longrightarrow> \<not> js_space c" for s using that by (cases s) auto
  show "js_trim (op # release_text x y z) = op # release_text x y z"
    unfolding js_trim_def using trim [of "op # release_text x y z"] trim [of "rev (op # release_text x y z)"] space by (metis rev_rev_ident set_rev)
  have "split_bars s = [s]" if "\<And>c. c \<in> set s \<Longrightarrow> c \<noteq> CHR ''|''" for s
    using that by (induction s rule: split_bars.induct) auto
  then show "split_bars (op # release_text x y z) = [op # release_text x y z]" using bar by blast
  show "op # release_text x y z \<noteq> ''*''" using assms by auto
qed

definition range_of :: "char \<Rightarrow> nat \<Rightarrow> nat \<Rightarrow> nat \<Rightarrow> interval" where
  "range_of op x y z = \<lparr>iv_minimum = Some (release_text x y z), iv_minimum_inclusive = Some True,
     iv_maximum = Some (range_maximum op x y z), iv_maximum_inclusive = Some False\<rparr>"

lemma range_maximum_release:
  assumes "op = CHR ''^'' \<or> op = CHR ''~''"
  shows "\<exists>a b c. range_maximum op x y z = release_text a b c \<and> spec_precedence ([x, y, z], []) ([a, b, c], []) < 0"
proof (cases "op = CHR ''~''")
  case True
  then show ?thesis by (intro exI [of _ x] exI [of _ "y + 1"] exI [of _ 0]) (simp add: range_maximum_text release_order)
next
  case False
  then have op: "op = CHR ''^''" using assms by simp
  consider "x > 0" | "x = 0" "y > 0" | "x = 0" "y = 0" by blast
  then show ?thesis
  proof cases
    case 1
    then show ?thesis by (intro exI [of _ "x + 1"] exI [of _ 0]) (simp add: op range_maximum_text release_order)
  next
    case 2
    then show ?thesis by (intro exI [of _ 0] exI [of _ "y + 1"]) (simp add: op range_maximum_text release_order)
  next
    case 3
    then show ?thesis by (intro exI [of _ 0] exI [of _ "z + 1"]) (simp add: op range_maximum_text release_order)
  qed
qed

lemma parse_range:
  assumes op: "op = CHR ''^'' \<or> op = CHR ''~''"
  shows "\<exists>r. parseVersionRequirementText (op # release_text x y z) = Inr r \<and> vr_alternatives r = [range_of op x y z] \<and> \<not> vr_allow_prerelease r
    \<and> normalizeVersionRequirement r = Inr r"
proof -
  let ?iv = "range_of op x y z" and ?core = "\<lambda>x y z. semver_of [nat_str x, nat_str y, nat_str z] [] []"
  have norm: "sv_normalized (?core d e f) = release_text d e f" for d e f
    by (simp add: semver_of_def normalized_text_def release_text_def)
  have "single_range op (release_text x y z) = Inr (?iv, False)"
    by (simp add: single_range_def parse_release_text norm range_of_def) (simp add: semver_of_def)
  then have alt: "parse_alternative (op # release_text x y z) = Inr (?iv, False)"
    using op by (elim disjE) (simp_all add: parse_alternative_def)
  obtain a b c where mx: "range_maximum op x y z = release_text a b c" "spec_precedence ([x, y, z], []) ([a, b, c], []) < 0"
    using range_maximum_release [OF op] by blast
  have "sgn (compareParsed (?core x y z) (?core a b c)) = sgn (spec_precedence ([x, y, z], []) ([a, b, c], []))"
    using precedence_of_parsed [OF parse_release_text [of x y z] parse_release_text [of a b c]] by (simp add: release_version)
  then have less: "compareParsed (?core x y z) (?core a b c) < 0" using mx(2) by (metis sgn_less)
  have iv: "normalize_interval ?iv = Inr ?iv"
    using less by (simp add: normalize_interval_def range_of_def normalize_bound_def parse_release_text mx(1) norm compareSemVerPrecedence_def)
  have key: "keyed_interval ?iv = Inr (interval_key ?iv, ?iv)" by (rule keyed_interval_eq)
  let ?r = "\<lparr>vr_alternatives = [?iv], vr_allow_prerelease = False\<rparr>"
  have "normalizeVersionRequirement ?r = Inr ?r"
    by (simp add: normalizeVersionRequirement_def iv key sort_by_def)
  then have "parseVersionRequirementText (op # release_text x y z) = Inr ?r"
    using range_text(1,2) [OF op, of x y z] alt by (simp add: parseVersionRequirementText_def)
  then show ?thesis using \<open>normalizeVersionRequirement ?r = Inr ?r\<close> by fastforce
qed

lemma satisfies_range:
  assumes op: "op = CHR ''^'' \<or> op = CHR ''~''"
  shows "\<exists>r. parseVersionRequirementText (op # release_text x y z) = Inr r \<and> (\<forall>a b c. satisfiesVersionRequirement (release_text a b c) r =
    Inr (in_interval ([a, b, c], []) (range_of op x y z)))"
proof -
  obtain r where r: "parseVersionRequirementText (op # release_text x y z) = Inr r" "vr_alternatives r = [range_of op x y z]" "\<not> vr_allow_prerelease r"
    "normalizeVersionRequirement r = Inr r" using parse_range [OF op] by blast
  have ok: "interval_ok (range_of op x y z)" using normalize_Inr(2) [OF r(4)] normalize_interval_Inr(1) unfolding r(2) by auto
  have "satisfiesVersionRequirement (release_text a b c) r = Inr (in_interval ([a, b, c], []) (range_of op x y z))" for a b c
    using interval_admits_spec [OF parse_release_text ok, of a b c]
    by (simp add: satisfiesVersionRequirement_def parse_release_text r release_version) (simp add: semver_of_def)
  then show ?thesis using r(1) by blast
qed

text \<open>
  Caret and tilde ranges admit exactly the compatible releases: parsing \<open>^x.y.z\<close> succeeds, and a release
  satisfies it exactly when it is at least \<open>x.y.z\<close> and agrees with it up to the leftmost non-zero
  number; \<open>~x.y.z\<close> admits exactly the releases \<open>x.y.c\<close> with \<open>z \<le> c\<close>.
\<close>

theorem range_text_meaning:
  "(\<exists>r. parseVersionRequirementText (CHR ''^'' # release_text x y z) = Inr r \<and>
     (\<forall>a b c. satisfiesVersionRequirement (release_text a b c) r =
        Inr (if x > 0 then a = x \<and> (y < b \<or> y = b \<and> z \<le> c) else if y > 0 then a = 0 \<and> b = y \<and> z \<le> c else a = 0 \<and> b = 0 \<and> c = z)))
   \<and> (\<exists>r. parseVersionRequirementText (CHR ''~'' # release_text x y z) = Inr r \<and>
     (\<forall>a b c. satisfiesVersionRequirement (release_text a b c) r = Inr (a = x \<and> b = y \<and> z \<le> c)))"
proof -
  have caret: "in_interval ([a, b, c], []) (range_of CHR ''^'' x y z) =
      (if x > 0 then a = x \<and> (y < b \<or> y = b \<and> z \<le> c) else if y > 0 then a = 0 \<and> b = y \<and> z \<le> c else a = 0 \<and> b = 0 \<and> c = z)" for a b c
    by (auto simp: in_interval_def range_of_def range_maximum_text bound_release release_order Let_def split: if_splits)
  have tilde: "in_interval ([a, b, c], []) (range_of CHR ''~'' x y z) = (a = x \<and> b = y \<and> z \<le> c)" for a b c
    by (auto simp: in_interval_def range_of_def range_maximum_text bound_release release_order Let_def split: if_splits)
  show ?thesis using satisfies_range [of "CHR ''^''" x y z] satisfies_range [of "CHR ''~''" x y z] unfolding caret tilde by auto
qed

end
