(* ===== verification/Plugin_Resolution.thy ===== *)
theory Plugin_Resolution
  imports Semver
begin

text \<open>
  The plugin resolver, \<open>packages/plugin-sdk/src/resolution.ts\<close>: the backtracking search for a
  consistent set of plugin packages, the cycle check, the preservation of an existing lock, and
  \<open>PluginResolver.resolve\<close>.  The digest authority is a parameter (the functions \<open>da_resolution_lock\<close> and
  \<open>da_executable_binding\<close> may fail), and so is the schema check of an executable binding.  The caller's
  identifier source and clock are the values they return: every path of \<open>resolve\<close> reads each at most once.
  An existing lock arrives already materialised: \<open>Some None\<close> is a supplied lock that is malformed.
\<close>

section \<open>Data\<close>

record plugin_dependency =
  dp_plugin_id :: string
  dp_namespace :: string
  dp_version_requirement :: string
  dp_required_capabilities :: "string list"

record capability_offer =
  of_capability :: string
  of_version_requirement :: string

record runtime_build =
  rb_build_id :: string
  rb_component_id :: string
  rb_component_version :: string
  rb_implementation_digest :: string

text \<open>\<open>cd_contracts\<close> holds \<open>Number(contract_version)\<close> of each contract binding, None when it is no integer.\<close>

record component_definition =
  cd_component_id :: string
  cd_component_version :: string
  cd_contracts :: "int option list"

record executable_binding =
  eb_plugin_id :: string
  eb_plugin_version :: string
  eb_package_digest :: string
  eb_build_id :: string
  eb_implementation_digest :: string
  eb_contract_version :: int
  eb_digest :: string
  eb_value :: json

record plugin_package =
  pk_plugin_id :: string
  pk_plugin_version :: string
  pk_namespace :: string
  pk_package_digest :: string
  pk_declaration_digest :: string
  pk_contribution_digest :: string
  pk_analysis_digest :: string
  pk_analysis_configuration_digest :: string
  pk_plugin_contracts :: "int list"
  pk_registry_contracts :: "int list"
  pk_dependencies :: "plugin_dependency list"
  pk_offered :: "capability_offer list"
  pk_builds :: "runtime_build list"
  pk_components :: "component_definition list"
  pk_registry_contract_version :: string
  pk_binding :: "executable_binding option"

record plugin_requirement =
  pr_plugin_id :: string
  pr_requirement :: requirement
  pr_capabilities :: "string list"

record plugin_pin =
  pp_plugin_id :: string
  pp_plugin_version :: string
  pp_package_digest :: string

record resolved_plugin =
  rp_plugin_id :: string
  rp_plugin_version :: string
  rp_namespace :: string
  rp_package_digest :: string
  rp_declaration_digest :: string
  rp_contribution_digest :: string
  rp_analysis_digest :: string
  rp_analysis_configuration_digest :: string
  rp_plugin_contract_version :: string
  rp_registry_contract_version :: string
  rp_dependency_ids :: "string list"
  rp_capabilities :: "string list"
  rp_binding :: "executable_binding option"

record lock_input =
  li_lock_id :: string
  li_workspace_id :: string
  li_resolver_version :: string
  li_plugins :: "resolved_plugin list"

record resolution_lock =
  rl_input :: lock_input
  rl_digest :: string
  rl_created_at :: string

record digest_authority =
  da_resolution_lock :: "lock_input \<Rightarrow> string option"
  da_executable_binding :: "executable_binding \<Rightarrow> string option"
  da_binding_schema :: "executable_binding \<Rightarrow> bool"

record resolution_input =
  in_packages :: "plugin_package list"
  in_requirements :: "plugin_requirement list"
  in_pins :: "plugin_pin list"
  in_runtime_contracts :: "int list"
  in_registry_contracts :: "int list"
  in_existing_lock :: "resolution_lock option option"
  in_workspace_id :: string
  in_resolver_version :: string
  in_clock :: string
  in_id :: string

datatype failure_code =
    NamespaceConflict | VersionConflict | DependencyCycle | CapabilityUnavailable | ContractIncompatible | RegistryIncompatible

record search_failure =
  sf_code :: failure_code
  sf_plugin_ids :: "string list"
  sf_payload :: json

datatype issue_phase = ResolutionPhase | NegotiationPhase

record compatibility_issue =
  ci_issue_id :: string
  ci_code :: failure_code
  ci_phase :: issue_phase
  ci_required_action :: string
  ci_plugin_ids :: "string list"
  ci_payload :: json
  ci_created_at :: string

datatype resolution_result =
    Resolved_ok resolution_lock "plugin_package list" bool
  | Resolution_failed "compatibility_issue list"

record constraint =
  cs_requirement :: requirement
  cs_capabilities :: "string list"
  cs_namespace :: "string option"
  cs_declaring :: "string option"

section \<open>Capabilities\<close>

fun issue_metadata :: "failure_code \<Rightarrow> issue_phase \<times> string" where
  "issue_metadata NamespaceConflict = (ResolutionPhase, ''resolve_namespace_conflict'')"
| "issue_metadata VersionConflict = (ResolutionPhase, ''select_compatible_version'')"
| "issue_metadata DependencyCycle = (ResolutionPhase, ''remove_dependency_cycle'')"
| "issue_metadata CapabilityUnavailable = (NegotiationPhase, ''install_capability_provider'')"
| "issue_metadata ContractIncompatible = (NegotiationPhase, ''update_plugin_or_engine'')"
| "issue_metadata RegistryIncompatible = (NegotiationPhase, ''update_plugin_or_engine'')"

definition compatibilityIssue :: "resolution_input \<Rightarrow> search_failure \<Rightarrow> compatibility_issue" where
  "compatibilityIssue input failure =
     \<lparr>ci_issue_id = in_id input, ci_code = sf_code failure, ci_phase = fst (issue_metadata (sf_code failure)),
      ci_required_action = snd (issue_metadata (sf_code failure)), ci_plugin_ids = sort_by compareUtf8Bytes (sf_plugin_ids failure),
      ci_payload = sf_payload failure, ci_created_at = in_clock input\<rparr>"

definition positiveVersions :: "int list \<Rightarrow> int list" where
  "positiveVersions values = sort_by (\<lambda>l r. r - l) (js_uniq (filter (\<lambda>v. 0 < v \<and> v \<le> MAX_SAFE_INTEGER) values))"

text \<open>\<open>indexOf\<close> and \<open>lastIndexOf\<close> of a character.\<close>

definition js_index :: "char \<Rightarrow> string \<Rightarrow> int" where
  "js_index c s = (if c \<in> set s then int (length (takeWhile (\<lambda>d. d \<noteq> c) s)) else -1)"

definition js_last_index :: "char \<Rightarrow> string \<Rightarrow> int" where
  "js_last_index c s = (if c \<in> set s then int (length s) - 1 - int (length (takeWhile (\<lambda>d. d \<noteq> c) (rev s))) else -1)"

definition requiredCapability :: "string \<Rightarrow> sdk_error + (string \<times> requirement)" where
  "requiredCapability text =
     (let separator = js_last_index CHR ''@'' text
      in if separator > js_index CHR '':'' text
         then res_bind (parseVersionRequirementText (drop (nat separator + 1) text)) (\<lambda>r. Inr (take (nat separator) text, r))
         else res_bind (parseVersionRequirementText ''*'') (\<lambda>r. Inr (text, r)))"

definition opt_bound :: "string option \<Rightarrow> bool option \<Rightarrow> (string \<times> bool) list" where
  "opt_bound bound inclusive = (case bound of None \<Rightarrow> [] | Some b \<Rightarrow> [(b, inclusive = Some True)])"

text \<open>
  The tightest of at most two bounds: the sort puts the second first only when it is strictly tighter, and the result is
  inclusive when every bound of equal precedence is.
\<close>

definition tightest :: "(int \<Rightarrow> bool) \<Rightarrow> (string \<times> bool) list \<Rightarrow> sdk_error + (string \<times> bool) option" where
  "tightest tighter bounds =
     (case bounds of
        [] \<Rightarrow> Inr None
      | [x] \<Rightarrow> res_bind (compareSemVerPrecedence (fst x) (fst x)) (\<lambda>_. Inr (Some x))
      | x # y # _ \<Rightarrow> res_bind (compareSemVerPrecedence (fst y) (fst x)) (\<lambda>order.
          Inr (Some (if order = 0 then (fst x, snd x \<and> snd y) else if tighter order then y else x))))"

definition public_string :: "public_numeric \<Rightarrow> string" where
  "public_string n = (case n of PublicNumber i \<Rightarrow> int_str i | PublicText s \<Rightarrow> s)"

definition least_candidate :: "bool \<Rightarrow> (string \<times> bool) option \<Rightarrow> sdk_error + string" where
  "least_candidate both_prerelease lower =
     (case lower of
        None \<Rightarrow> Inr ''0.0.0''
      | Some (version, inclusive) \<Rightarrow>
          res_bind (parseInternal version) (\<lambda>p.
            let major = public_string (sv_major p); minor = public_string (sv_minor p); patch = public_string (sv_patch p);
                stable = join_on CHR ''.'' [major, minor, patch]; next_patch = nat_str (str_nat patch + 1)
            in Inr (if \<not> both_prerelease then
                      (if sv_prerelease p \<noteq> [] \<or> inclusive then stable else join_on CHR ''.'' [major, minor, next_patch])
                    else if inclusive then version
                    else if sv_prerelease p \<noteq> [] then takeWhile (\<lambda>c. c \<noteq> CHR ''+'') version @ ''.0''
                    else join_on CHR ''.'' [major, minor, next_patch] @ ''-0'')))"

definition intervals_intersect :: "bool \<Rightarrow> interval \<Rightarrow> interval \<Rightarrow> sdk_error + bool" where
  "intervals_intersect both_prerelease left right =
     res_bind (tightest (\<lambda>order. order > 0) (opt_bound (iv_minimum left) (iv_minimum_inclusive left) @ opt_bound (iv_minimum right) (iv_minimum_inclusive right))) (\<lambda>lower.
     res_bind (tightest (\<lambda>order. order < 0) (opt_bound (iv_maximum left) (iv_maximum_inclusive left) @ opt_bound (iv_maximum right) (iv_maximum_inclusive right))) (\<lambda>upper.
     res_bind (case (lower, upper) of
                 (Some (l, li), Some (u, ui)) \<Rightarrow> res_bind (compareSemVerPrecedence l u) (\<lambda>order. Inr (\<not> (order > 0 \<or> order = 0 \<and> (\<not> li \<or> \<not> ui))))
               | _ \<Rightarrow> Inr True) (\<lambda>nonempty.
     if \<not> nonempty then Inr False
     else res_bind (least_candidate both_prerelease lower) (\<lambda>candidate.
       case upper of
         None \<Rightarrow> Inr True
       | Some (u, ui) \<Rightarrow> res_bind (compareSemVerPrecedence candidate u) (\<lambda>order. Inr (order < 0 \<or> order = 0 \<and> ui))))))"

definition requirementsIntersect :: "requirement \<Rightarrow> requirement \<Rightarrow> sdk_error + bool" where
  "requirementsIntersect left right =
     res_some (\<lambda>l. res_some (intervals_intersect (vr_allow_prerelease left \<and> vr_allow_prerelease right) l) (vr_alternatives right)) (vr_alternatives left)"

definition offer_matches :: "string \<Rightarrow> requirement \<Rightarrow> capability_offer \<Rightarrow> bool" where
  "offer_matches capability requirement offered =
     (of_capability offered = capability \<and>
      (case res_bind (parseVersionRequirementText (of_version_requirement offered)) (\<lambda>o'. requirementsIntersect o' requirement) of
         Inl _ \<Rightarrow> False | Inr b \<Rightarrow> b))"

definition capabilityAvailable :: "plugin_package \<Rightarrow> string \<Rightarrow> sdk_error + bool" where
  "capabilityAvailable candidate required =
     res_bind (requiredCapability required) (\<lambda>(capability, requirement). Inr (list_ex (offer_matches capability requirement) (pk_offered candidate)))"

definition compatibleBuilds :: "plugin_package \<Rightarrow> int \<Rightarrow> runtime_build list" where
  "compatibleBuilds candidate contract =
     (case pk_binding candidate of
        Some b \<Rightarrow> if eb_contract_version b \<noteq> contract then []
                  else sort_by (\<lambda>l r. compareUtf8Bytes (rb_build_id l) (rb_build_id r))
                    (filter (\<lambda>build. rb_build_id build = eb_build_id b \<and> list_ex (\<lambda>d. cd_component_id d = rb_component_id build
                       \<and> cd_component_version d = rb_component_version build \<and> Some contract \<in> set (cd_contracts d)) (pk_components candidate)) (pk_builds candidate))
      | None \<Rightarrow> sort_by (\<lambda>l r. compareUtf8Bytes (rb_build_id l) (rb_build_id r))
                  (filter (\<lambda>build. list_ex (\<lambda>d. cd_component_id d = rb_component_id build
                     \<and> cd_component_version d = rb_component_version build \<and> Some contract \<in> set (cd_contracts d)) (pk_components candidate)) (pk_builds candidate)))"

section \<open>The cycle check\<close>

type_synonym selection = "(string, plugin_package) jsmap"

definition deps_of :: "selection \<Rightarrow> string \<Rightarrow> string list" where
  "deps_of selected pluginId = (case jget selected pluginId of None \<Rightarrow> [] | Some p \<Rightarrow> map dp_plugin_id (pk_dependencies p))"

text \<open>
  \<open>visit\<close> with its sets \<open>visited\<close> and \<open>active\<close>, both in insertion order.  The fuel bounds the depth
  of the recursion; None is fuel exhaustion.
\<close>

datatype visit_result = Found search_failure | Visited "string list"

definition cycle_failure :: "string list \<Rightarrow> string \<Rightarrow> search_failure" where
  "cycle_failure active pluginId =
     \<lparr>sf_code = DependencyCycle, sf_plugin_ids = active @ [pluginId], sf_payload = JObj [(''repeated_endpoint'', JText pluginId)]\<rparr>"

fun visit_all :: "(string \<Rightarrow> string list \<Rightarrow> visit_result option) \<Rightarrow> string list \<Rightarrow> string list \<Rightarrow> visit_result option" where
  "visit_all f [] visited = Some (Visited visited)"
| "visit_all f (d # ds) visited =
     (case f d visited of
        None \<Rightarrow> None
      | Some (Found e) \<Rightarrow> Some (Found e)
      | Some (Visited visited') \<Rightarrow> visit_all f ds visited')"

fun visit :: "nat \<Rightarrow> selection \<Rightarrow> string list \<Rightarrow> string \<Rightarrow> string list \<Rightarrow> visit_result option" where
  "visit 0 selected active pluginId visited = None"
| "visit (Suc fuel) selected active pluginId visited =
     (if pluginId \<in> set active then Some (Found (cycle_failure active pluginId))
      else if pluginId \<in> set visited then Some (Visited visited)
      else case visit_all (visit fuel selected (active @ [pluginId])) (deps_of selected pluginId) visited of
             None \<Rightarrow> None
           | Some (Found e) \<Rightarrow> Some (Found e)
           | Some (Visited visited') \<Rightarrow> Some (Visited (visited' @ [pluginId])))"

definition detectCycle :: "selection \<Rightarrow> search_failure option option" where
  "detectCycle selected =
     (case visit_all (visit (length selected + 2) selected []) (sort_by compareUtf8Bytes (jkeys selected)) [] of
        None \<Rightarrow> None
      | Some (Found e) \<Rightarrow> Some (Some e)
      | Some (Visited _) \<Rightarrow> Some None)"

section \<open>The search\<close>

type_synonym constraints = "(string, constraint list) jsmap"

datatype search_result = Solved selection | Failed "search_failure option"

definition push_constraint :: "string \<Rightarrow> constraint \<Rightarrow> constraints \<Rightarrow> constraints" where
  "push_constraint plugin_id c m = jset plugin_id (jget_or [] m plugin_id @ [c]) m"

definition initial_constraints :: "plugin_requirement list \<Rightarrow> sdk_error + constraints" where
  "initial_constraints requirements =
     res_fold (\<lambda>r m. res_bind (normalizeVersionRequirement (pr_requirement r)) (\<lambda>n.
       Inr (push_constraint (pr_plugin_id r) \<lparr>cs_requirement = n, cs_capabilities = pr_capabilities r, cs_namespace = None, cs_declaring = None\<rparr> m))) requirements []"

definition unresolved_id :: "constraints \<Rightarrow> selection \<Rightarrow> string option" where
  "unresolved_id current selected =
     (case sort_by compareUtf8Bytes (filter (\<lambda>k. \<not> jhas selected k) (jkeys current)) of [] \<Rightarrow> None | k # _ \<Rightarrow> Some k)"

definition find_pin :: "resolution_input \<Rightarrow> string \<Rightarrow> plugin_pin option" where
  "find_pin input plugin_id = find (\<lambda>p. pp_plugin_id p = plugin_id) (in_pins input)"

text \<open>\<open>every\<close>, \<open>filter\<close> and \<open>find\<close> with a callback that may throw.\<close>

fun res_every :: "('a \<Rightarrow> 'e + bool) \<Rightarrow> 'a list \<Rightarrow> 'e + bool" where
  "res_every f [] = Inr True"
| "res_every f (x # xs) = res_bind (f x) (\<lambda>b. if b then res_every f xs else Inr False)"

fun res_filter :: "('a \<Rightarrow> 'e + bool) \<Rightarrow> 'a list \<Rightarrow> 'e + 'a list" where
  "res_filter f [] = Inr []"
| "res_filter f (x # xs) = res_bind (f x) (\<lambda>b. res_bind (res_filter f xs) (\<lambda>ys. Inr (if b then x # ys else ys)))"

fun res_find :: "('a \<Rightarrow> 'e + bool) \<Rightarrow> 'a list \<Rightarrow> 'e + 'a option" where
  "res_find f [] = Inr None"
| "res_find f (x # xs) = res_bind (f x) (\<lambda>b. if b then Inr (Some x) else res_find f xs)"

definition contract_text :: "int \<Rightarrow> string" where
  "contract_text n = int_str n @ ''.0.0''"

definition candidate_ok :: "resolution_input \<Rightarrow> int \<Rightarrow> int \<Rightarrow> constraint list \<Rightarrow> plugin_pin option \<Rightarrow> plugin_package \<Rightarrow> sdk_error + bool" where
  "candidate_ok input runtimeContract registryContract requirements pin candidate =
     (if runtimeContract \<in> set (pk_plugin_contracts candidate) \<and> registryContract \<in> set (pk_registry_contracts candidate)
         \<and> compatibleBuilds candidate runtimeContract \<noteq> [] \<and> pk_registry_contract_version candidate = contract_text registryContract
      then res_bind (res_every (\<lambda>c. satisfiesVersionRequirement (pk_plugin_version candidate) (cs_requirement c)) requirements) (\<lambda>ok.
        Inr (ok \<and> (case pin of None \<Rightarrow> True
          | Some p \<Rightarrow> pk_plugin_version candidate = pp_plugin_version p \<and> pk_package_digest candidate = pp_package_digest p)))
      else Inr False)"

text \<open>The filter has parsed the version of every candidate, so the comparison of two of them never throws.\<close>

definition precedence_of :: "string \<Rightarrow> string \<Rightarrow> int" where
  "precedence_of left right = (case compareSemVerPrecedence left right of Inl _ \<Rightarrow> 0 | Inr n \<Rightarrow> n)"

definition compare_candidates :: "plugin_package \<Rightarrow> plugin_package \<Rightarrow> int" where
  "compare_candidates = then_by (\<lambda>l r. precedence_of (pk_plugin_version r) (pk_plugin_version l))
     (then_by (\<lambda>l r. compareUtf8Bytes (pk_plugin_version l) (pk_plugin_version r)) (\<lambda>l r. compareUtf8Bytes (pk_package_digest l) (pk_package_digest r)))"

definition ambiguous :: "plugin_package list \<Rightarrow> bool" where
  "ambiguous candidates = (case candidates of a # b # _ \<Rightarrow> precedence_of (pk_plugin_version a) (pk_plugin_version b) = 0 | _ \<Rightarrow> False)"

definition failure :: "failure_code \<Rightarrow> string list \<Rightarrow> json \<Rightarrow> search_failure" where
  "failure code ids payload = \<lparr>sf_code = code, sf_plugin_ids = ids, sf_payload = payload\<rparr>"

text \<open>The checks of one candidate before it is selected; \<open>Some f\<close> is the failure that skips it.\<close>

definition check_candidate :: "constraint list \<Rightarrow> selection \<Rightarrow> plugin_package \<Rightarrow> sdk_error + search_failure option" where
  "check_candidate requirements selected candidate =
     (case find (\<lambda>item. pk_namespace item = pk_namespace candidate \<and> pk_plugin_id item \<noteq> pk_plugin_id candidate) (map snd selected) of
        Some owner \<Rightarrow> Inr (Some (failure NamespaceConflict [pk_plugin_id owner, pk_plugin_id candidate] (JObj [(''namespace'', JText (pk_namespace candidate))])))
      | None \<Rightarrow>
      case find (\<lambda>c. cs_namespace c \<noteq> None \<and> cs_namespace c \<noteq> Some (pk_namespace candidate)) requirements of
        Some m \<Rightarrow> Inr (Some (failure NamespaceConflict [case cs_declaring m of None \<Rightarrow> pk_plugin_id candidate | Some d \<Rightarrow> d, pk_plugin_id candidate]
          (JObj [(''namespace'', JText (pk_namespace candidate))])))
      | None \<Rightarrow>
          res_bind (res_find (\<lambda>capability. res_bind (capabilityAvailable candidate capability) (\<lambda>b. Inr (\<not> b))) (concat (map cs_capabilities requirements))) (\<lambda>missing.
            Inr (case missing of
                   Some m \<Rightarrow> if m \<noteq> [] then Some (failure CapabilityUnavailable [pk_plugin_id candidate] (JObj [(''capability'', JText m)])) else None
                 | None \<Rightarrow> None)))"

definition capability_missing :: "plugin_package \<Rightarrow> string list \<Rightarrow> sdk_error + bool" where
  "capability_missing item capabilities = res_some (\<lambda>c. res_bind (capabilityAvailable item c) (\<lambda>b. Inr (\<not> b))) capabilities"

text \<open>The check of a dependency against an already selected package: the failure code, if any.\<close>

definition existing_conflict :: "plugin_dependency \<Rightarrow> requirement \<Rightarrow> plugin_package \<Rightarrow> sdk_error + failure_code option" where
  "existing_conflict dependency requirement existing =
     (if pk_namespace existing \<noteq> dp_namespace dependency then Inr (Some NamespaceConflict)
      else res_bind (satisfiesVersionRequirement (pk_plugin_version existing) requirement) (\<lambda>ok.
           res_bind (capability_missing existing (dp_required_capabilities dependency)) (\<lambda>missing.
             Inr (if missing then Some CapabilityUnavailable else if \<not> ok then Some VersionConflict else None))))"

fun add_dependencies :: "plugin_package \<Rightarrow> selection \<Rightarrow> plugin_dependency list \<Rightarrow> constraints \<Rightarrow> sdk_error + (search_failure + constraints)" where
  "add_dependencies candidate selected [] current = Inr (Inr current)"
| "add_dependencies candidate selected (d # ds) current =
     (let conflict = (\<lambda>code. Inr (Inl (failure code [pk_plugin_id candidate, dp_plugin_id d] (JObj [(''plugin_id'', JText (dp_plugin_id d))]))))
      in case parseVersionRequirementText (dp_version_requirement d) of
           Inl _ \<Rightarrow> conflict VersionConflict
         | Inr requirement \<Rightarrow>
             (let current' = push_constraint (dp_plugin_id d) \<lparr>cs_requirement = requirement, cs_capabilities = dp_required_capabilities d,
                   cs_namespace = Some (dp_namespace d), cs_declaring = Some (pk_plugin_id candidate)\<rparr> current
              in case jget selected (dp_plugin_id d) of
                   None \<Rightarrow> add_dependencies candidate selected ds current'
                 | Some existing \<Rightarrow> res_bind (existing_conflict d requirement existing) (\<lambda>c.
                     case c of Some code \<Rightarrow> conflict code | None \<Rightarrow> add_dependencies candidate selected ds current')))"

fun try_candidates ::
  "(constraints \<Rightarrow> selection \<Rightarrow> search_failure option \<Rightarrow> (sdk_error + search_result) option) \<Rightarrow> string \<Rightarrow> constraint list
   \<Rightarrow> constraints \<Rightarrow> selection \<Rightarrow> plugin_package list \<Rightarrow> search_failure option \<Rightarrow> (sdk_error + search_result) option" where
  "try_candidates rec unresolved requirements current selected [] lastFailure = Some (Inr (Failed lastFailure))"
| "try_candidates rec unresolved requirements current selected (c # cs) lastFailure =
     (case check_candidate requirements selected c of
        Inl e \<Rightarrow> Some (Inl e)
      | Inr (Some f) \<Rightarrow> try_candidates rec unresolved requirements current selected cs (Some f)
      | Inr None \<Rightarrow>
      case add_dependencies c (jset unresolved c selected) (pk_dependencies c) current of
        Inl e \<Rightarrow> Some (Inl e)
      | Inr (Inl f) \<Rightarrow> try_candidates rec unresolved requirements current selected cs (Some f)
      | Inr (Inr nxt) \<Rightarrow>
      case rec nxt (jset unresolved c selected) lastFailure of
        None \<Rightarrow> None
      | Some (Inl e) \<Rightarrow> Some (Inl e)
      | Some (Inr (Solved s)) \<Rightarrow> Some (Inr (Solved s))
      | Some (Inr (Failed lf)) \<Rightarrow> try_candidates rec unresolved requirements current selected cs lf)"

definition candidates_for ::
  "resolution_input \<Rightarrow> int \<Rightarrow> int \<Rightarrow> string \<Rightarrow> constraint list \<Rightarrow> sdk_error + plugin_package list" where
  "candidates_for input runtimeContract registryContract unresolved requirements =
     res_bind (res_filter (candidate_ok input runtimeContract registryContract requirements (find_pin input unresolved))
                (filter (\<lambda>p. pk_plugin_id p = unresolved) (in_packages input)))
       (\<lambda>cs. Inr (sort_by compare_candidates cs))"

text \<open>\<open>search\<close>, with the depth of its recursion bounded by fuel: every level selects one more plugin that has packages.\<close>

fun search ::
  "nat \<Rightarrow> resolution_input \<Rightarrow> int \<Rightarrow> int \<Rightarrow> constraints \<Rightarrow> selection \<Rightarrow> search_failure option \<Rightarrow> (sdk_error + search_result) option" where
  "search 0 input runtimeContract registryContract current selected lastFailure = None"
| "search (Suc fuel) input runtimeContract registryContract current selected lastFailure =
     (case unresolved_id current selected of
        None \<Rightarrow> (case detectCycle selected of
                   None \<Rightarrow> None
                 | Some (Some cycle) \<Rightarrow> Some (Inr (Failed (Some cycle)))
                 | Some None \<Rightarrow> Some (Inr (Solved selected)))
      | Some unresolved \<Rightarrow>
          (let requirements = jget_or [] current unresolved
           in case candidates_for input runtimeContract registryContract unresolved requirements of
                Inl e \<Rightarrow> Some (Inl e)
              | Inr candidates \<Rightarrow>
                  if find_pin input unresolved = None \<and> ambiguous candidates
                  then Some (Inr (Failed (Some (failure VersionConflict [unresolved] (JObj [(''plugin_id'', JText unresolved), (''ambiguous'', JBool True)])))))
                  else if candidates = [] then Some (Inr (Failed (Some (failure VersionConflict [unresolved] (JObj [(''plugin_id'', JText unresolved)])))))
                  else try_candidates (search fuel input runtimeContract registryContract) unresolved requirements current selected candidates lastFailure))"

definition solveGraph :: "resolution_input \<Rightarrow> int \<Rightarrow> int \<Rightarrow> (sdk_error + (search_failure + selection)) option" where
  "solveGraph input runtimeContract registryContract =
     (case initial_constraints (in_requirements input) of
        Inl e \<Rightarrow> Some (Inl e)
      | Inr constraints \<Rightarrow>
          (case search (length (in_packages input) + 1) input runtimeContract registryContract constraints [] None of
             None \<Rightarrow> None
           | Some (Inl e) \<Rightarrow> Some (Inl e)
           | Some (Inr (Solved selected)) \<Rightarrow> Some (Inr (Inr selected))
           | Some (Inr (Failed lf)) \<Rightarrow> Some (Inr (Inl (case lf of None \<Rightarrow> failure VersionConflict [] (JObj []) | Some f \<Rightarrow> f)))))"

section \<open>Locks\<close>

definition contractNumber :: "string \<Rightarrow> int option" where
  "contractNumber text =
     (let n = length text - 4; digits = take n text
      in if drop n text = ''.0.0'' \<and> numeric_id digits \<and> digits \<noteq> ''0'' \<and> int (str_nat digits) \<le> MAX_SAFE_INTEGER
         then Some (int (str_nat digits)) else None)"

definition lock_digest_text :: "string \<Rightarrow> bool" where
  "lock_digest_text s \<longleftrightarrow> take 7 s = ''sha256:'' \<and> length s = 71
     \<and> list_all (\<lambda>c. digit c \<or> (of_char c :: nat) \<in> {97..102}) (drop 7 s)"

definition lockDigest :: "digest_authority \<Rightarrow> lock_input \<Rightarrow> string option" where
  "lockDigest digests core =
     (case da_resolution_lock digests core of None \<Rightarrow> None | Some d \<Rightarrow> if lock_digest_text d then Some d else None)"

definition validExecutableBinding :: "digest_authority \<Rightarrow> executable_binding \<Rightarrow> bool" where
  "validExecutableBinding digests b \<longleftrightarrow> da_binding_schema digests b \<and> da_executable_binding digests b = Some (eb_digest b)"

datatype preserve_result = Preserved resolution_lock "plugin_package list" | InvalidLock | StaleLock

fun namespaces_consistent :: "resolved_plugin list \<Rightarrow> (string, string) jsmap \<Rightarrow> bool" where
  "namespaces_consistent [] owners = True"
| "namespaces_consistent (p # ps) owners =
     (case jget owners (rp_namespace p) of
        Some owner \<Rightarrow> if owner \<noteq> rp_plugin_id p then False else namespaces_consistent ps (jset (rp_namespace p) (rp_plugin_id p) owners)
      | None \<Rightarrow> namespaces_consistent ps (jset (rp_namespace p) (rp_plugin_id p) owners))"

definition binding_json :: "executable_binding option \<Rightarrow> json" where
  "binding_json b = (case b of None \<Rightarrow> JNull | Some b \<Rightarrow> eb_value b)"

definition sorted_text_json :: "string list \<Rightarrow> json" where
  "sorted_text_json xs = JArr (map JText (sort_by compareUtf8Bytes xs))"

definition locked_package :: "resolution_input \<Rightarrow> resolved_plugin \<Rightarrow> plugin_package option" where
  "locked_package input locked = find (\<lambda>c. pk_plugin_id c = rp_plugin_id locked \<and> pk_plugin_version c = rp_plugin_version locked
     \<and> pk_package_digest c = rp_package_digest locked) (in_packages input)"

definition contract_supported :: "int list \<Rightarrow> string \<Rightarrow> bool" where
  "contract_supported supported text = (case contractNumber text of None \<Rightarrow> -1 \<in> set supported | Some n \<Rightarrow> n \<in> set supported)"

text \<open>\<open>canonicalJson\<close> of two values differ; the first failure throws.\<close>

definition json_differ :: "json \<Rightarrow> json \<Rightarrow> sdk_error + bool" where
  "json_differ v w = res_bind (canonicalJson v) (\<lambda>s. res_bind (canonicalJson w) (\<lambda>t. Inr (s \<noteq> t)))"

definition package_moved :: "digest_authority \<Rightarrow> resolved_plugin \<Rightarrow> plugin_package \<Rightarrow> sdk_error + bool" where
  "package_moved digests locked item =
     (if pk_namespace item \<noteq> rp_namespace locked \<or> pk_declaration_digest item \<noteq> rp_declaration_digest locked
         \<or> pk_contribution_digest item \<noteq> rp_contribution_digest locked \<or> pk_analysis_digest item \<noteq> rp_analysis_digest locked
         \<or> pk_analysis_configuration_digest item \<noteq> rp_analysis_configuration_digest locked
         \<or> \<not> contract_supported (pk_plugin_contracts item) (rp_plugin_contract_version locked)
         \<or> \<not> contract_supported (pk_registry_contracts item) (rp_registry_contract_version locked)
         \<or> pk_registry_contract_version item \<noteq> rp_registry_contract_version locked
      then Inr True
      else res_bind (json_differ (binding_json (pk_binding item)) (binding_json (rp_binding locked))) (\<lambda>d.
        if d \<or> (case rp_binding locked of None \<Rightarrow> False | Some b \<Rightarrow> \<not> validExecutableBinding digests b) then Inr True
        else res_bind (json_differ (sorted_text_json (map dp_plugin_id (pk_dependencies item))) (sorted_text_json (rp_dependency_ids locked))) (\<lambda>d.
          if d then Inr True
          else json_differ (sorted_text_json (map of_capability (pk_offered item))) (sorted_text_json (rp_capabilities locked)))))"

text \<open>The packages of a lock, or None when one is missing or has moved.\<close>

fun locked_packages :: "digest_authority \<Rightarrow> resolution_input \<Rightarrow> resolved_plugin list \<Rightarrow> sdk_error + plugin_package list option" where
  "locked_packages digests input [] = Inr (Some [])"
| "locked_packages digests input (l # ls) =
     (case locked_package input l of
        None \<Rightarrow> Inr None
      | Some item \<Rightarrow> res_bind (package_moved digests l item) (\<lambda>moved.
          if moved then Inr None
          else res_bind (locked_packages digests input ls) (\<lambda>r. Inr (map_option (Cons item) r))))"

definition dependency_met :: "selection \<Rightarrow> plugin_dependency \<Rightarrow> sdk_error + bool" where
  "dependency_met selected d =
     (case jget selected (dp_plugin_id d) of
        None \<Rightarrow> Inr False
      | Some item \<Rightarrow>
          if pk_namespace item \<noteq> dp_namespace d then Inr False
          else res_bind (parseVersionRequirementText (dp_version_requirement d)) (\<lambda>r.
               res_bind (satisfiesVersionRequirement (pk_plugin_version item) r) (\<lambda>ok.
                 if \<not> ok then Inr False
                 else res_bind (capability_missing item (dp_required_capabilities d)) (\<lambda>m. Inr (\<not> m)))))"

definition requirement_met :: "selection \<Rightarrow> plugin_requirement \<Rightarrow> sdk_error + bool" where
  "requirement_met selected r =
     (case jget selected (pr_plugin_id r) of
        None \<Rightarrow> Inr False
      | Some item \<Rightarrow>
          res_bind (normalizeVersionRequirement (pr_requirement r)) (\<lambda>n.
          res_bind (satisfiesVersionRequirement (pk_plugin_version item) n) (\<lambda>ok.
            if \<not> ok then Inr False
            else res_bind (capability_missing item (pr_capabilities r)) (\<lambda>m. Inr (\<not> m)))))"

definition pin_met :: "resolution_lock \<Rightarrow> selection \<Rightarrow> plugin_pin \<Rightarrow> bool" where
  "pin_met lock selected pin =
     (case jget selected (pp_plugin_id pin) of
        None \<Rightarrow> False
      | Some item \<Rightarrow> list_ex (\<lambda>l. rp_plugin_id l = pp_plugin_id pin) (li_plugins (rl_input lock))
          \<and> pk_plugin_version item = pp_plugin_version pin \<and> pk_package_digest item = pp_package_digest pin)"

definition lock_authentic :: "resolution_input \<Rightarrow> digest_authority \<Rightarrow> resolution_lock \<Rightarrow> bool" where
  "lock_authentic input digests lock \<longleftrightarrow>
     li_workspace_id (rl_input lock) = in_workspace_id input
   \<and> lockDigest digests (rl_input lock) = Some (rl_digest lock)
   \<and> distinct (map rp_plugin_id (li_plugins (rl_input lock)))
   \<and> namespaces_consistent (li_plugins (rl_input lock)) []"

definition one_supported_contract :: "int list \<Rightarrow> string list \<Rightarrow> bool" where
  "one_supported_contract supported texts =
     (case js_uniq (map contractNumber texts) of [Some n] \<Rightarrow> n \<in> set supported | _ \<Rightarrow> False)"

definition preserveExistingLock :: "resolution_input \<Rightarrow> digest_authority \<Rightarrow> resolution_lock option \<Rightarrow> (sdk_error + preserve_result) option" where
  "preserveExistingLock input digests existing =
     (case existing of
        None \<Rightarrow> Some (Inr InvalidLock)
      | Some lock \<Rightarrow>
          if \<not> lock_authentic input digests lock then Some (Inr InvalidLock)
          else if \<not> one_supported_contract (in_runtime_contracts input) (map rp_plugin_contract_version (li_plugins (rl_input lock)))
             \<or> \<not> one_supported_contract (in_registry_contracts input) (map rp_registry_contract_version (li_plugins (rl_input lock)))
          then Some (Inr StaleLock)
          else case locked_packages digests input (li_plugins (rl_input lock)) of
                 Inl e \<Rightarrow> Some (Inl e)
               | Inr None \<Rightarrow> Some (Inr StaleLock)
               | Inr (Some packages) \<Rightarrow>
                   (let selected = foldl (\<lambda>m p. jset (pk_plugin_id p) p m) [] packages
                    in case detectCycle selected of
                         None \<Rightarrow> None
                       | Some (Some _) \<Rightarrow> Some (Inr StaleLock)
                       | Some None \<Rightarrow>
                           Some (res_bind (res_every (dependency_met selected) (concat (map pk_dependencies packages))) (\<lambda>deps.
                             if \<not> deps then Inr StaleLock
                             else res_bind (res_every (requirement_met selected) (in_requirements input)) (\<lambda>reqs.
                               if \<not> reqs \<or> \<not> list_all (pin_met lock selected) (in_pins input) then Inr StaleLock
                               else Inr (Preserved lock (sort_by (\<lambda>l r. compareUtf8Bytes (pk_plugin_id l) (pk_plugin_id r)) packages)))))))"

section \<open>The resolver\<close>

definition invalid_binding :: "digest_authority \<Rightarrow> plugin_package \<Rightarrow> bool" where
  "invalid_binding digests candidate =
     (case pk_binding candidate of
        None \<Rightarrow> False
      | Some b \<Rightarrow> \<not> validExecutableBinding digests b \<or> eb_plugin_id b \<noteq> pk_plugin_id candidate \<or> eb_plugin_version b \<noteq> pk_plugin_version candidate
          \<or> eb_package_digest b \<noteq> pk_package_digest candidate
          \<or> \<not> list_ex (\<lambda>build. rb_build_id build = eb_build_id b \<and> rb_implementation_digest build = eb_implementation_digest b) (pk_builds candidate))"

fun failurePriority :: "failure_code \<Rightarrow> nat" where
  "failurePriority DependencyCycle = 3"
| "failurePriority NamespaceConflict = 3"
| "failurePriority CapabilityUnavailable = 3"
| "failurePriority VersionConflict = 2"
| "failurePriority _ = 1"

definition resolved_of :: "int \<Rightarrow> int \<Rightarrow> plugin_package \<Rightarrow> resolved_plugin" where
  "resolved_of runtimeContract registryContract item =
     \<lparr>rp_plugin_id = pk_plugin_id item, rp_plugin_version = pk_plugin_version item, rp_namespace = pk_namespace item,
      rp_package_digest = pk_package_digest item, rp_declaration_digest = pk_declaration_digest item,
      rp_contribution_digest = pk_contribution_digest item, rp_analysis_digest = pk_analysis_digest item,
      rp_analysis_configuration_digest = pk_analysis_configuration_digest item,
      rp_plugin_contract_version = contract_text runtimeContract, rp_registry_contract_version = contract_text registryContract,
      rp_dependency_ids = sort_by compareUtf8Bytes (map dp_plugin_id (pk_dependencies item)),
      rp_capabilities = sort_by compareUtf8Bytes (map of_capability (pk_offered item)), rp_binding = pk_binding item\<rparr>"

definition fresh_lock :: "resolution_input \<Rightarrow> digest_authority \<Rightarrow> int \<Rightarrow> int \<Rightarrow> selection \<Rightarrow> resolution_result" where
  "fresh_lock input digests runtimeContract registryContract selected =
     (let packages = sort_by (\<lambda>l r. compareUtf8Bytes (pk_plugin_id l) (pk_plugin_id r)) (map snd selected);
          core = \<lparr>li_lock_id = in_id input, li_workspace_id = in_workspace_id input, li_resolver_version = in_resolver_version input,
                  li_plugins = map (resolved_of runtimeContract registryContract) packages\<rparr>
      in case lockDigest digests core of
           None \<Rightarrow> Resolution_failed [compatibilityIssue input (failure VersionConflict (map pk_plugin_id packages) (JObj [(''lock_digest_unavailable'', JBool True)]))]
         | Some digest \<Rightarrow> Resolved_ok \<lparr>rl_input = core, rl_digest = digest, rl_created_at = in_clock input\<rparr> packages False)"

text \<open>The loop over the pairs of contract versions, in the order the code tries them.\<close>

fun try_contracts :: "resolution_input \<Rightarrow> digest_authority \<Rightarrow> (int \<times> int) list \<Rightarrow> search_failure \<Rightarrow> (sdk_error + resolution_result) option" where
  "try_contracts input digests [] best = Some (Inr (Resolution_failed [compatibilityIssue input best]))"
| "try_contracts input digests ((runtimeContract, registryContract) # rest) best =
     (case solveGraph input runtimeContract registryContract of
        None \<Rightarrow> None
      | Some (Inl e) \<Rightarrow> Some (Inl e)
      | Some (Inr (Inl f)) \<Rightarrow> try_contracts input digests rest (if failurePriority (sf_code f) > failurePriority (sf_code best) then f else best)
      | Some (Inr (Inr selected)) \<Rightarrow> Some (Inr (fresh_lock input digests runtimeContract registryContract selected)))"

definition resolve :: "digest_authority \<Rightarrow> resolution_input \<Rightarrow> (sdk_error + resolution_result) option" where
  "resolve digests input =
     (case find (invalid_binding digests) (in_packages input) of
        Some p \<Rightarrow> Some (Inr (Resolution_failed [compatibilityIssue input (failure VersionConflict [pk_plugin_id p] (JObj [(''runtime_executable_binding_invalid'', JBool True)]))]))
      | None \<Rightarrow>
          (let existing = (case in_existing_lock input of None \<Rightarrow> None | Some l \<Rightarrow> l);
               runtime = positiveVersions (in_runtime_contracts input); registry = positiveVersions (in_registry_contracts input);
               fresh = try_contracts input digests (List.product runtime registry)
                 (if runtime = [] then failure ContractIncompatible [] (JObj []) else failure RegistryIncompatible [] (JObj []))
           in case preserveExistingLock input digests existing of
                None \<Rightarrow> None
              | Some (Inl e) \<Rightarrow> Some (Inl e)
              | Some (Inr (Preserved lock packages)) \<Rightarrow> Some (Inr (Resolved_ok lock packages True))
              | Some (Inr InvalidLock) \<Rightarrow>
                  if in_existing_lock input \<noteq> None
                  then Some (Inr (Resolution_failed [compatibilityIssue input (failure VersionConflict
                         (case existing of None \<Rightarrow> [] | Some l \<Rightarrow> map rp_plugin_id (li_plugins (rl_input l))) (JObj [(''existing_lock_invalid'', JBool True)]))]))
                  else fresh
              | Some (Inr StaleLock) \<Rightarrow> fresh))"

end
