(* ===== verification/Plugin_Graph.thy ===== *)
theory Plugin_Graph
  imports Plugin_Resolution
begin

text \<open>
  Correctness of the plugin resolver: the cycle check decides acyclicity and terminates, the
  search terminates within its fuel, and every selection the resolver returns, fresh or preserved
  from a lock, is a consistent plugin graph.
\<close>

section \<open>The cycle check\<close>

definition dep_rel :: "selection \<Rightarrow> (string \<times> string) set" where
  "dep_rel selected = {(a, b). b \<in> set (deps_of selected a)}"

definition topo :: "selection \<Rightarrow> string list \<Rightarrow> bool" where
  "topo selected vs \<longleftrightarrow> (\<forall>i < length vs. set (deps_of selected (vs ! i)) \<subseteq> set (take i vs))"

lemma topo_Nil [simp]: "topo selected []"
  by (simp add: topo_def)

lemma topo_snoc: "topo selected vs \<Longrightarrow> set (deps_of selected x) \<subseteq> set vs \<Longrightarrow> topo selected (vs @ [x])"
  by (auto simp: topo_def nth_append less_Suc_eq)

lemma visit_all_topo:
  assumes step: "\<And>d vs vs'. f d vs = Some (Visited vs') \<Longrightarrow> topo selected vs \<Longrightarrow> topo selected vs' \<and> insert d (set vs) \<subseteq> set vs'"
    and "visit_all f ds vs = Some (Visited vs')" and "topo selected vs"
  shows "topo selected vs' \<and> set ds \<union> set vs \<subseteq> set vs'"
  using assms(2,3)
proof (induction ds arbitrary: vs)
  case (Cons d ds)
  then obtain vs1 where vs1: "f d vs = Some (Visited vs1)" "visit_all f ds vs1 = Some (Visited vs')"
    by (auto split: option.splits visit_result.splits)
  then have "topo selected vs1" "insert d (set vs) \<subseteq> set vs1" using step Cons.prems(2) by blast+
  then show ?case using Cons.IH [OF vs1(2)] by auto
qed simp

lemma visit_topo:
  "visit fuel selected active x vs = Some (Visited vs') \<Longrightarrow> topo selected vs \<Longrightarrow> topo selected vs' \<and> insert x (set vs) \<subseteq> set vs'"
proof (induction fuel arbitrary: active x vs vs')
  case (Suc fuel)
  show ?case
  proof (cases "x \<in> set vs")
    case True
    then show ?thesis using Suc.prems by (auto split: if_splits)
  next
    case False
    then obtain vs1 where vs1: "visit_all (visit fuel selected (active @ [x])) (deps_of selected x) vs = Some (Visited vs1)" "vs' = vs1 @ [x]"
      using Suc.prems(1) by (auto split: if_splits option.splits visit_result.splits)
    have "topo selected vs1 \<and> set (deps_of selected x) \<union> set vs \<subseteq> set vs1"
      by (rule visit_all_topo [OF _ vs1(1) Suc.prems(2)]) (rule Suc.IH)
    then show ?thesis using topo_snoc vs1(2) by auto
  qed
qed simp

lemma topo_acyclic:
  assumes "topo selected vs" and "set (jkeys selected) \<subseteq> set vs"
  shows "acyclic (dep_rel selected)"
proof -
  define rank where "rank x = length (takeWhile (\<lambda>y. y \<noteq> x) vs)" for x
  have less: "rank b < rank a" if "(a, b) \<in> dep_rel selected" for a b
  proof -
    have b: "b \<in> set (deps_of selected a)" using that by (simp add: dep_rel_def)
    then have "a \<in> set (jkeys selected)" using jget_Some_key [of selected a] by (cases "jget selected a") (simp_all add: deps_of_def)
    then have a: "a \<in> set vs" using assms(2) by blast
    then obtain ys zs where vs: "vs = ys @ a # zs" "a \<notin> set ys" by (metis split_list_first)
    have rank: "rank x = length (takeWhile (\<lambda>y. y \<noteq> x) ys)" if "x \<in> set ys" for x
      using that by (auto simp: rank_def vs(1) takeWhile_append)
    have tw: "takeWhile (\<lambda>y. y \<noteq> a) ys = ys" using vs(2) by (simp add: takeWhile_eq_all_conv) blast
    then have ra: "rank a = length ys" by (simp add: rank_def vs(1))
    have "set (deps_of selected (vs ! length ys)) \<subseteq> set (take (length ys) vs)" using assms(1) unfolding topo_def by (rule allE [of _ "length ys"]) (simp add: vs(1))
    then have "b \<in> set ys" using b by (auto simp: vs(1))
    then have "takeWhile (\<lambda>y. y \<noteq> b) ys \<noteq> ys" by (metis (mono_tags, lifting) set_takeWhileD)
    then have "length (takeWhile (\<lambda>y. y \<noteq> b) ys) < length ys" by (metis length_takeWhile_le le_neq_implies_less takeWhile_eq_take take_all_iff order_refl)
    then show ?thesis using rank [OF \<open>b \<in> set ys\<close>] ra by simp
  qed
  have "wf (measure rank)" by simp
  then have "acyclic (measure rank)" by (rule wf_acyclic)
  moreover have "dep_rel selected \<subseteq> (measure rank)\<inverse>" using less by auto
  ultimately show ?thesis using acyclic_subset acyclic_converse by blast
qed

fun chain :: "selection \<Rightarrow> string list \<Rightarrow> bool" where
  "chain selected (a # b # r) \<longleftrightarrow> (a, b) \<in> dep_rel selected \<and> chain selected (b # r)"
| "chain selected _ \<longleftrightarrow> True"

lemma chain_snoc: "chain selected (xs @ [a]) \<Longrightarrow> (a, b) \<in> dep_rel selected \<Longrightarrow> chain selected (xs @ [a, b])"
  by (induction selected xs rule: chain.induct) auto

lemma chain_path: "chain selected (xs @ [b]) \<Longrightarrow> a \<in> set xs \<Longrightarrow> (a, b) \<in> (dep_rel selected)\<^sup>+"
proof (induction xs arbitrary: a)
  case (Cons x xs)
  show ?case
  proof (cases xs)
    case Nil
    then show ?thesis using Cons.prems by auto
  next
    case (Cons y ys)
    then have step: "(x, y) \<in> dep_rel selected" and c: "chain selected (xs @ [b])" using Cons.prems(1) by auto
    then have "(y, b) \<in> (dep_rel selected)\<^sup>+" using Cons.IH \<open>xs = y # ys\<close> by simp
    then show ?thesis using step c Cons.IH Cons.prems(2) by (auto intro: trancl_into_trancl2)
  qed
qed simp

text \<open>A reported cycle is a cycle: the active nodes form a chain of dependencies that ends in the node being visited.\<close>

lemma visit_all_found:
  assumes "visit_all f ds vs = Some (Found e)"
  shows "\<exists>d \<in> set ds. \<exists>vs'. f d vs' = Some (Found e)"
  using assms by (induction ds arbitrary: vs) (auto split: option.splits visit_result.splits)

lemma visit_found:
  "visit fuel selected active x vs = Some (Found e) \<Longrightarrow> chain selected (active @ [x]) \<Longrightarrow> \<not> acyclic (dep_rel selected)"
proof (induction fuel arbitrary: active x vs)
  case (Suc fuel)
  show ?case
  proof (cases "x \<in> set active")
    case True
    then show ?thesis using chain_path [OF Suc.prems(2)] by (auto simp: acyclic_def)
  next
    case False
    then obtain d vs' where d: "d \<in> set (deps_of selected x)" "visit fuel selected (active @ [x]) d vs' = Some (Found e)"
      using Suc.prems(1) visit_all_found by (force split: if_splits option.splits visit_result.splits)
    then have "chain selected ((active @ [x]) @ [d])" using chain_snoc [OF Suc.prems(2)] by (simp add: dep_rel_def)
    then show ?thesis using Suc.IH d(2) by blast
  qed
qed simp

lemma visit_all_total:
  assumes "\<And>d vs. d \<in> set ds \<Longrightarrow> f d vs \<noteq> None"
  shows "visit_all f ds vs \<noteq> None"
  using assms
proof (induction ds arbitrary: vs)
  case (Cons d ds)
  then obtain r where "f d vs = Some r" by (metis list.set_intros(1) not_None_eq)
  then show ?case using Cons by (cases r) auto
qed simp

lemma visit_total: "card (set (jkeys selected) - set active) + 1 < fuel \<Longrightarrow> visit fuel selected active x vs \<noteq> None"
proof (induction fuel arbitrary: active x vs)
  case (Suc fuel)
  have "visit_all (visit fuel selected (active @ [x])) (deps_of selected x) vs \<noteq> None" if x: "x \<notin> set active"
  proof (cases "x \<in> set (jkeys selected)")
    case True
    then have "card (set (jkeys selected) - set (active @ [x])) < card (set (jkeys selected) - set active)"
      using x by (intro psubset_card_mono) auto
    then show ?thesis using Suc by (intro visit_all_total) simp
  next
    case False
    then have "deps_of selected x = []" by (simp add: deps_of_def map_of_eq_None_iff [THEN iffD2])
    then show ?thesis by simp
  qed
  then show ?case by (cases "x \<in> set active") (auto split: option.splits visit_result.splits)
qed simp

lemma detectCycle_iff:
  "detectCycle selected \<noteq> None" "detectCycle selected = Some None \<longleftrightarrow> acyclic (dep_rel selected)"
proof -
  let ?run = "visit_all (visit (length selected + 2) selected []) (sort_by compareUtf8Bytes (jkeys selected)) []"
  have "card (set (jkeys selected)) \<le> length selected" by (metis card_length length_map)
  then have total: "?run \<noteq> None" by (intro visit_all_total visit_total) simp
  then show "detectCycle selected \<noteq> None" by (auto simp: detectCycle_def split: visit_result.splits)
  from total obtain r where r: "?run = Some r" by blast
  show "detectCycle selected = Some None \<longleftrightarrow> acyclic (dep_rel selected)"
  proof (cases r)
    case (Found e)
    then have "\<not> acyclic (dep_rel selected)" using visit_all_found [of _ _ _ e] visit_found [of _ selected "[]"] r by fastforce
    then show ?thesis using r Found by (simp add: detectCycle_def)
  next
    case (Visited vs)
    have "topo selected vs \<and> set (sort_by compareUtf8Bytes (jkeys selected)) \<union> set [] \<subseteq> set vs"
      by (rule visit_all_topo [OF _ r [unfolded Visited] topo_Nil]) (rule visit_topo)
    then show ?thesis using topo_acyclic r Visited by (auto simp: detectCycle_def)
  qed
qed

section \<open>The search terminates\<close>

lemma try_candidates_total:
  assumes "\<And>c nxt lf. c \<in> set cs \<Longrightarrow> rec nxt (jset k c selected) lf \<noteq> None"
  shows "try_candidates rec k reqs current selected cs lf \<noteq> None"
  using assms
proof (induction cs arbitrary: lf)
  case (Cons c cs)
  have IH: "try_candidates rec k reqs current selected cs lf' \<noteq> None" for lf' using Cons by simp
  have rec: "rec nxt (jset k c selected) lf' \<noteq> None" for nxt lf' using Cons.prems by simp
  show ?case
    using IH rec by (auto split: sum.splits option.splits search_result.splits) (metis option.distinct(1))
qed simp

lemma res_filter_subset: "res_filter f xs = Inr ys \<Longrightarrow> set ys = {x \<in> set xs. f x = Inr True}"
  by (induction xs arbitrary: ys) (auto simp: res_bind_Inr_iff split: if_splits)

lemma candidates_for_Inr:
  assumes "candidates_for input rt rg k reqs = Inr cs"
  shows "set cs = {p \<in> set (in_packages input). pk_plugin_id p = k \<and> candidate_ok input rt rg reqs (find_pin input k) p = Inr True}"
  using assms by (auto simp: candidates_for_def res_bind_Inr_iff dest: res_filter_subset)

lemma unresolved_id_None: "unresolved_id current selected = None \<Longrightarrow> set (jkeys current) \<subseteq> set (jkeys selected)"
proof -
  assume "unresolved_id current selected = None"
  then have "sort_by compareUtf8Bytes (filter (\<lambda>k. \<not> jhas selected k) (jkeys current)) = []" by (simp add: unresolved_id_def split: list.splits)
  then have "filter (\<lambda>k. \<not> jhas selected k) (jkeys current) = []" by (metis length_0_conv length_sort_by)
  then show ?thesis by (auto simp: filter_empty_conv)
qed

lemma unresolved_id_Some:
  assumes "unresolved_id current selected = Some k"
  shows "k \<in> set (jkeys current) - set (jkeys selected)"
proof -
  obtain ks where ks: "sort_by compareUtf8Bytes (filter (\<lambda>k. \<not> jhas selected k) (jkeys current)) = k # ks"
    using assms by (auto simp: unresolved_id_def split: list.splits)
  have "k \<in> set (sort_by compareUtf8Bytes (filter (\<lambda>k. \<not> jhas selected k) (jkeys current)))" unfolding ks by simp
  then show ?thesis by simp
qed

lemma search_total:
  "card (pk_plugin_id ` set (in_packages input) - set (jkeys selected)) < fuel \<Longrightarrow> search fuel input rt rg current selected lf \<noteq> None"
proof (induction fuel arbitrary: current selected lf)
  case (Suc fuel)
  show ?case
  proof (cases "unresolved_id current selected")
    case None
    then show ?thesis using detectCycle_iff(1) by (auto split: option.splits)
  next
    case (Some k)
    show ?thesis
    proof (cases "candidates_for input rt rg k (jget_or [] current k)")
      case (Inr cs)
      have "search fuel input rt rg nxt (jset k c selected) lf' \<noteq> None" if c: "c \<in> set cs" for c nxt lf'
      proof (rule Suc.IH)
        have "k \<in> pk_plugin_id ` set (in_packages input)" using c candidates_for_Inr [OF Inr] by auto
        then have "card (pk_plugin_id ` set (in_packages input) - set (jkeys (jset k c selected)))
            < card (pk_plugin_id ` set (in_packages input) - set (jkeys selected))"
          using unresolved_id_Some [OF Some] by (intro psubset_card_mono) (auto simp: dom_update)
        then show "card (pk_plugin_id ` set (in_packages input) - set (jkeys (jset k c selected))) < fuel" using Suc.prems by simp
      qed
      then have "try_candidates (search fuel input rt rg) k (jget_or [] current k) current selected cs lf \<noteq> None"
        by (intro try_candidates_total) blast
      then show ?thesis using Some Inr by (simp add: Let_def)
    qed (simp add: Some Let_def)
  qed
qed simp

lemma solveGraph_total: "solveGraph input rt rg \<noteq> None"
proof -
  have "card (pk_plugin_id ` set (in_packages input) - set (jkeys ([] :: selection))) \<le> length (in_packages input)"
    using card_image_le [of "set (in_packages input)" pk_plugin_id] card_length [of "in_packages input"] by simp
  then have total: "search (length (in_packages input) + 1) input rt rg current [] None \<noteq> None" for current
    by (intro search_total) simp
  show ?thesis
  proof (cases "initial_constraints (in_requirements input)")
    case (Inr current)
    obtain r where "search (length (in_packages input) + 1) input rt rg current [] None = Some r" using total by blast
    then show ?thesis using Inr by (auto simp del: search.simps simp: solveGraph_def split: sum.splits search_result.splits)
  qed (simp add: solveGraph_def)
qed

lemma try_contracts_total: "try_contracts input digests pairs best \<noteq> None"
proof (induction pairs arbitrary: best)
  case (Cons p pairs)
  obtain rt rg where p: "p = (rt, rg)" by fastforce
  obtain r where "solveGraph input rt rg = Some r" using solveGraph_total by blast
  then show ?case using Cons by (auto simp: p split: sum.splits)
qed simp

lemma preserve_total: "preserveExistingLock input digests existing \<noteq> None"
proof (cases existing)
  case (Some lock)
  show ?thesis
  proof (cases "locked_packages digests input (li_plugins (rl_input lock))")
    case (Inr r)
    obtain c where c: "detectCycle (foldl (\<lambda>m p. jset (pk_plugin_id p) p m) [] (case r of None \<Rightarrow> [] | Some ps \<Rightarrow> ps)) = Some c"
      using detectCycle_iff(1) by blast
    then show ?thesis by (cases r; cases c) (simp_all add: preserveExistingLock_def Some Inr Let_def)
  qed (simp add: preserveExistingLock_def Some)
qed (simp add: preserveExistingLock_def)

lemma resolve_total: "resolve digests input \<noteq> None"
proof -
  obtain r where "preserveExistingLock input digests (case in_existing_lock input of None \<Rightarrow> None | Some l \<Rightarrow> l) = Some r"
    using preserve_total by blast
  then show ?thesis using try_contracts_total
    by (auto simp: resolve_def Let_def split: option.splits sum.splits preserve_result.splits)
qed

section \<open>The search is sound\<close>

definition caps_met :: "plugin_package \<Rightarrow> string list \<Rightarrow> bool" where
  "caps_met p capabilities \<longleftrightarrow> (\<forall>c \<in> set capabilities. capabilityAvailable p c = Inr True)"

definition meets :: "plugin_package \<Rightarrow> constraint \<Rightarrow> bool" where
  "meets p c \<longleftrightarrow> satisfiesVersionRequirement (pk_plugin_version p) (cs_requirement c) = Inr True
     \<and> (cs_namespace c = None \<or> cs_namespace c = Some (pk_namespace p)) \<and> caps_met p (cs_capabilities c)"

definition dep_constraint :: "plugin_dependency \<Rightarrow> constraint \<Rightarrow> bool" where
  "dep_constraint d c \<longleftrightarrow> parseVersionRequirementText (dp_version_requirement d) = Inr (cs_requirement c)
     \<and> cs_capabilities c = dp_required_capabilities d \<and> cs_namespace c = Some (dp_namespace d)"

definition pin_ok :: "resolution_input \<Rightarrow> plugin_package \<Rightarrow> bool" where
  "pin_ok input p = (case find_pin input (pk_plugin_id p) of None \<Rightarrow> True
     | Some pin \<Rightarrow> pk_plugin_version p = pp_plugin_version pin \<and> pk_package_digest p = pp_package_digest pin)"

definition selectable :: "resolution_input \<Rightarrow> int \<Rightarrow> int \<Rightarrow> plugin_package \<Rightarrow> bool" where
  "selectable input rt rg p \<longleftrightarrow> p \<in> set (in_packages input) \<and> pin_ok input p \<and> rt \<in> set (pk_plugin_contracts p) \<and> rg \<in> set (pk_registry_contracts p)"

text \<open>No required capability is the empty string; the code's truthiness test treats a missing empty capability as present.\<close>

definition capabilities_named :: "resolution_input \<Rightarrow> bool" where
  "capabilities_named input \<longleftrightarrow> list_all (\<lambda>r. [] \<notin> set (pr_capabilities r)) (in_requirements input)
     \<and> list_all (\<lambda>p. list_all (\<lambda>d. [] \<notin> set (dp_required_capabilities d)) (pk_dependencies p)) (in_packages input)"

lemma res_every_Inr_True: "res_every f xs = Inr True \<Longrightarrow> x \<in> set xs \<Longrightarrow> f x = Inr True"
  by (induction xs) (auto simp: res_bind_Inr_iff split: if_splits)

lemma res_some_Inr_False: "res_some f xs = Inr False \<Longrightarrow> x \<in> set xs \<Longrightarrow> f x = Inr False"
  by (induction xs) (auto simp: res_bind_Inr_iff split: if_splits)

lemma res_find_Inr:
  "res_find f xs = Inr None \<Longrightarrow> x \<in> set xs \<Longrightarrow> f x = Inr False"
  "res_find f xs = Inr (Some m) \<Longrightarrow> m \<in> set xs"
  by (induction xs) (auto simp: res_bind_Inr_iff split: if_splits)

lemma capability_missing_False: "capability_missing p caps = Inr False \<Longrightarrow> caps_met p caps"
  unfolding capability_missing_def caps_met_def by (auto simp: res_bind_Inr_iff dest!: res_some_Inr_False)

lemma existing_conflict_None:
  assumes "existing_conflict d r p = Inr None" and "dep_constraint d c" and "cs_requirement c = r"
  shows "meets p c"
proof -
  have ns: "pk_namespace p = dp_namespace d" using assms(1) by (auto simp: existing_conflict_def split: if_splits)
  then have "satisfiesVersionRequirement (pk_plugin_version p) r = Inr True" "capability_missing p (dp_required_capabilities d) = Inr False"
    using assms(1) by (auto simp: existing_conflict_def res_bind_Inr_iff split: if_splits)
  then show ?thesis using ns capability_missing_False assms(2,3) by (auto simp: meets_def dep_constraint_def)
qed

lemma check_candidate_None:
  assumes "check_candidate reqs selected c = Inr None" and named: "\<forall>r \<in> set reqs. [] \<notin> set (cs_capabilities r)"
  shows "\<And>q. q \<in> set (map snd selected) \<Longrightarrow> pk_namespace q = pk_namespace c \<Longrightarrow> pk_plugin_id q = pk_plugin_id c"
    "\<And>r. r \<in> set reqs \<Longrightarrow> cs_namespace r = None \<or> cs_namespace r = Some (pk_namespace c)"
    "\<And>r. r \<in> set reqs \<Longrightarrow> caps_met c (cs_capabilities r)"
proof -
  let ?missing = "\<lambda>capability. res_bind (capabilityAvailable c capability) (\<lambda>b. Inr (\<not> b))"
  let ?caps = "concat (map cs_capabilities reqs)"
  have f1: "find (\<lambda>item. pk_namespace item = pk_namespace c \<and> pk_plugin_id item \<noteq> pk_plugin_id c) (map snd selected) = None"
    using assms(1) by (auto simp: check_candidate_def split: option.splits)
  then have f2: "find (\<lambda>r. cs_namespace r \<noteq> None \<and> cs_namespace r \<noteq> Some (pk_namespace c)) reqs = None"
    using assms(1) by (auto simp: check_candidate_def split: option.splits)
  obtain m where m: "res_find ?missing ?caps = Inr m" "\<forall>x. m = Some x \<longrightarrow> x = []"
    using assms(1) f1 f2 by (auto simp: check_candidate_def res_bind_Inr_iff split: option.splits if_splits)
  have "[] \<notin> set ?caps" using named by auto
  then have "m = None" using m res_find_Inr(2) [of ?missing ?caps] by (cases m) auto
  then have "?missing x = Inr False" if "x \<in> set ?caps" for x using res_find_Inr(1) [of ?missing ?caps x] that m(1) by simp
  then show "caps_met c (cs_capabilities r)" if "r \<in> set reqs" for r
    using that by (fastforce simp: caps_met_def res_bind_Inr_iff)
  show "pk_plugin_id q = pk_plugin_id c" if "q \<in> set (map snd selected)" "pk_namespace q = pk_namespace c" for q
    using f1 that by (auto simp: find_None_iff)
  show "cs_namespace r = None \<or> cs_namespace r = Some (pk_namespace c)" if "r \<in> set reqs" for r
    using f2 that by (auto simp: find_None_iff)
qed

lemma lookup_push: "jget_or [] (push_constraint k c m) l = (if l = k then jget_or [] m k @ [c] else jget_or [] m l)"
  by (auto simp: push_constraint_def)

lemma add_dependencies_Inr:
  assumes "add_dependencies c selected ds current = Inr (Inr nxt)"
  shows "set (jget_or [] current k) \<subseteq> set (jget_or [] nxt k)"
    "x \<in> set (jget_or [] nxt k) \<Longrightarrow> x \<in> set (jget_or [] current k)
      \<or> (\<exists>d \<in> set ds. dp_plugin_id d = k \<and> dep_constraint d x \<and> (\<forall>p. jget selected k = Some p \<longrightarrow> meets p x))"
    "d \<in> set ds \<Longrightarrow> \<exists>x \<in> set (jget_or [] nxt (dp_plugin_id d)). dep_constraint d x"
proof -
  have "(\<forall>k. set (jget_or [] current k) \<subseteq> set (jget_or [] nxt k)) \<and>
    (\<forall>k x. x \<in> set (jget_or [] nxt k) \<longrightarrow> x \<in> set (jget_or [] current k)
      \<or> (\<exists>d \<in> set ds. dp_plugin_id d = k \<and> dep_constraint d x \<and> (\<forall>p. jget selected k = Some p \<longrightarrow> meets p x))) \<and>
    (\<forall>d \<in> set ds. \<exists>x \<in> set (jget_or [] nxt (dp_plugin_id d)). dep_constraint d x)"
    using assms
  proof (induction ds arbitrary: current)
    case (Cons d ds)
    obtain r where r: "parseVersionRequirementText (dp_version_requirement d) = Inr r"
      using Cons.prems by (auto split: sum.splits)
    define x where "x = \<lparr>cs_requirement = r, cs_capabilities = dp_required_capabilities d, cs_namespace = Some (dp_namespace d), cs_declaring = Some (pk_plugin_id c)\<rparr>"
    have dep: "dep_constraint d x" by (simp add: dep_constraint_def x_def r)
    have rest: "add_dependencies c selected ds (push_constraint (dp_plugin_id d) x current) = Inr (Inr nxt)"
      and ok: "\<And>p. jget selected (dp_plugin_id d) = Some p \<Longrightarrow> existing_conflict d r p = Inr None"
      using Cons.prems by (auto simp: r x_def Let_def res_bind_Inr_iff split: option.splits)
    have met: "meets p x" if "jget selected (dp_plugin_id d) = Some p" for p
      using existing_conflict_None [OF ok [OF that] dep] by (simp add: x_def)
    let ?cur = "push_constraint (dp_plugin_id d) x current"
    have IH: "\<And>k. set (jget_or [] ?cur k) \<subseteq> set (jget_or [] nxt k)"
      "\<And>k y. y \<in> set (jget_or [] nxt k) \<Longrightarrow> y \<in> set (jget_or [] ?cur k)
        \<or> (\<exists>d \<in> set ds. dp_plugin_id d = k \<and> dep_constraint d y \<and> (\<forall>p. jget selected k = Some p \<longrightarrow> meets p y))"
      "\<forall>d \<in> set ds. \<exists>x \<in> set (jget_or [] nxt (dp_plugin_id d)). dep_constraint d x"
      using Cons.IH [OF rest] by blast+
    have cur: "set (jget_or [] ?cur k) = (if k = dp_plugin_id d then insert x (set (jget_or [] current k)) else set (jget_or [] current k))" for k
      by (simp add: lookup_push)
    have sub: "set (jget_or [] current k) \<subseteq> set (jget_or [] nxt k)" for k using IH(1) [of k] cur [of k] by (auto split: if_splits)
    have src: "y \<in> set (jget_or [] current k) \<or> (\<exists>d' \<in> set (d # ds). dp_plugin_id d' = k \<and> dep_constraint d' y \<and> (\<forall>p. jget selected k = Some p \<longrightarrow> meets p y))"
      if "y \<in> set (jget_or [] nxt k)" for k y
    proof (cases "k = dp_plugin_id d \<and> y = x")
      case True
      then show ?thesis using dep met by auto
    next
      case False
      then show ?thesis using IH(2) [OF that] cur [of k] by (auto split: if_splits)
    qed
    have "\<exists>y \<in> set (jget_or [] nxt (dp_plugin_id d)). dep_constraint d y" using IH(1) [of "dp_plugin_id d"] cur [of "dp_plugin_id d"] dep by auto
    then have "\<forall>d \<in> set (d # ds). \<exists>x \<in> set (jget_or [] nxt (dp_plugin_id d)). dep_constraint d x" using IH(3) by simp
    then show ?case using sub src by blast
  qed simp
  then show "set (jget_or [] current k) \<subseteq> set (jget_or [] nxt k)"
    "x \<in> set (jget_or [] nxt k) \<Longrightarrow> x \<in> set (jget_or [] current k)
      \<or> (\<exists>d \<in> set ds. dp_plugin_id d = k \<and> dep_constraint d x \<and> (\<forall>p. jget selected k = Some p \<longrightarrow> meets p x))"
    "d \<in> set ds \<Longrightarrow> \<exists>x \<in> set (jget_or [] nxt (dp_plugin_id d)). dep_constraint d x"
    by blast+
qed

definition search_inv :: "resolution_input \<Rightarrow> int \<Rightarrow> int \<Rightarrow> constraints \<Rightarrow> constraints \<Rightarrow> selection \<Rightarrow> bool" where
  "search_inv input rt rg base current selected \<longleftrightarrow>
     distinct (jkeys selected)
   \<and> (\<forall>k p. jget selected k = Some p \<longrightarrow> pk_plugin_id p = k \<and> selectable input rt rg p)
   \<and> (\<forall>k p c. jget selected k = Some p \<longrightarrow> c \<in> set (jget_or [] current k) \<longrightarrow> meets p c)
   \<and> (\<forall>k p d. jget selected k = Some p \<longrightarrow> d \<in> set (pk_dependencies p) \<longrightarrow> (\<exists>c \<in> set (jget_or [] current (dp_plugin_id d)). dep_constraint d c))
   \<and> (\<forall>k l p q. jget selected k = Some p \<longrightarrow> jget selected l = Some q \<longrightarrow> pk_namespace p = pk_namespace q \<longrightarrow> k = l)
   \<and> (\<forall>k. set (jget_or [] base k) \<subseteq> set (jget_or [] current k))
   \<and> (\<forall>k c. c \<in> set (jget_or [] current k) \<longrightarrow> [] \<notin> set (cs_capabilities c))"

lemma search_invD:
  assumes "search_inv input rt rg base current selected"
  shows "distinct (jkeys selected)"
    "\<And>k p. jget selected k = Some p \<Longrightarrow> pk_plugin_id p = k" "\<And>k p. jget selected k = Some p \<Longrightarrow> selectable input rt rg p"
    "\<And>k p c. jget selected k = Some p \<Longrightarrow> c \<in> set (jget_or [] current k) \<Longrightarrow> meets p c"
    "\<And>k p d. jget selected k = Some p \<Longrightarrow> d \<in> set (pk_dependencies p) \<Longrightarrow> \<exists>c \<in> set (jget_or [] current (dp_plugin_id d)). dep_constraint d c"
    "\<And>k l p q. jget selected k = Some p \<Longrightarrow> jget selected l = Some q \<Longrightarrow> pk_namespace p = pk_namespace q \<Longrightarrow> k = l"
    "\<And>k. set (jget_or [] base k) \<subseteq> set (jget_or [] current k)"
    "\<And>k c. c \<in> set (jget_or [] current k) \<Longrightarrow> [] \<notin> set (cs_capabilities c)"
  using assms unfolding search_inv_def by blast+

lemma select_inv:
  assumes inv: "search_inv input rt rg base current selected" and named: "capabilities_named input"
    and k: "k \<notin> set (jkeys selected)" and c: "c \<in> set (in_packages input)" "pk_plugin_id c = k"
    and ok: "candidate_ok input rt rg (jget_or [] current k) (find_pin input k) c = Inr True"
    and chk: "check_candidate (jget_or [] current k) selected c = Inr None"
    and add: "add_dependencies c (jset k c selected) (pk_dependencies c) current = Inr (Inr nxt)"
  shows "search_inv input rt rg base nxt (jset k c selected)"
proof -
  note i = search_invD [OF inv]
  note a = add_dependencies_Inr [OF add]
  have sel: "jget (jset k c selected) l = Some p \<longleftrightarrow> (if l = k then p = c else jget selected l = Some p)" for l p by auto
  have nm: "\<forall>r \<in> set (jget_or [] current k). [] \<notin> set (cs_capabilities r)" using i(8) by blast
  note check = check_candidate_None [OF chk nm]
  have sat: "satisfiesVersionRequirement (pk_plugin_version c) (cs_requirement r) = Inr True" if r: "r \<in> set (jget_or [] current k)" for r
  proof -
    have "res_every (\<lambda>r. satisfiesVersionRequirement (pk_plugin_version c) (cs_requirement r)) (jget_or [] current k) = Inr True"
      using ok by (auto simp: candidate_ok_def res_bind_Inr_iff split: if_splits)
    from res_every_Inr_True [OF this r] show ?thesis .
  qed
  have selectable: "selectable input rt rg c"
    using ok c by (auto simp: candidate_ok_def selectable_def pin_ok_def res_bind_Inr_iff split: if_splits)
  have meets_c: "meets c r" if "r \<in> set (jget_or [] current k)" for r
    using sat [OF that] check(2,3) [OF that] by (simp add: meets_def)
  have meets: "meets p x" if "jget (jset k c selected) l = Some p" "x \<in> set (jget_or [] nxt l)" for l p x
    using a(2) [OF that(2)] that(1) meets_c i(4) [of l p x] unfolding sel by (auto split: if_splits)
  have deps: "\<exists>x \<in> set (jget_or [] nxt (dp_plugin_id d)). dep_constraint d x"
    if "jget (jset k c selected) l = Some p" "d \<in> set (pk_dependencies p)" for l p d
  proof (cases "l = k")
    case True
    then show ?thesis using that a(3) unfolding sel by auto
  next
    case False
    then show ?thesis using that i(5) [of l p d] a(1) [of "dp_plugin_id d"] unfolding sel by auto
  qed
  have mem: "q \<in> set (map snd selected)" if "jget selected l = Some q" for l q
    using map_of_SomeD [OF that] by force
  have owner: "l = k" if "jget selected l = Some q" "pk_namespace q = pk_namespace c" for l q
    using check(1) [OF mem [OF that(1)] that(2)] i(2) [OF that(1)] c(2) by simp
  have ns: "l = m" if "jget (jset k c selected) l = Some p" "jget (jset k c selected) m = Some q" "pk_namespace p = pk_namespace q" for l m p q
  proof (cases "l = k")
    case True
    then have "p = c" using that(1) by simp
    then show ?thesis using owner [of m q] that(2,3) True by (cases "m = k") simp_all
  next
    case False
    then have l: "jget selected l = Some p" using that(1) by simp
    show ?thesis
    proof (cases "m = k")
      case True
      then show ?thesis using owner [OF l] that(2,3) by simp
    next
      case False
      then have "jget selected m = Some q" using that(2) by simp
      then show ?thesis using i(6) [OF l _ that(3)] by blast
    qed
  qed
  have dep_named: "[] \<notin> set (dp_required_capabilities d)" if "d \<in> set (pk_dependencies c)" for d
    using named c(1) that by (auto simp: capabilities_named_def list_all_iff)
  have caps: "[] \<notin> set (cs_capabilities x)" if "x \<in> set (jget_or [] nxt l)" for l x
    using a(2) [OF that] i(8) [of x l] dep_named by (auto simp: dep_constraint_def)
  have sub: "set (jget_or [] base l) \<subseteq> set (jget_or [] nxt l)" for l using i(7) [of l] a(1) [of l] by blast
  have ids: "pk_plugin_id p = l \<and> selectable input rt rg p" if "jget (jset k c selected) l = Some p" for l p
    using that i(2,3) [of l p] selectable c(2) by (cases "l = k") auto
  show ?thesis
    unfolding search_inv_def
    by (intro conjI allI impI) (use distinct_jset [OF i(1)] ids meets deps ns caps sub in blast)+
qed

lemma try_candidates_Solved:
  assumes "try_candidates rec k reqs current selected cs lf = Some (Inr (Solved s))"
  shows "\<exists>c nxt lf'. c \<in> set cs \<and> check_candidate reqs selected c = Inr None
    \<and> add_dependencies c (jset k c selected) (pk_dependencies c) current = Inr (Inr nxt) \<and> rec nxt (jset k c selected) lf' = Some (Inr (Solved s))"
  using assms
proof (induction cs arbitrary: lf)
  case (Cons c cs)
  then show ?case by (fastforce split: sum.splits option.splits search_result.splits)
qed simp

lemma search_sound:
  assumes "search fuel input rt rg current selected lf = Some (Inr (Solved s))"
    and "search_inv input rt rg base current selected" and "capabilities_named input"
  shows "\<exists>final. search_inv input rt rg base final s \<and> set (jkeys final) \<subseteq> set (jkeys s) \<and> acyclic (dep_rel s)"
  using assms(1,2)
proof (induction fuel arbitrary: current selected lf)
  case (Suc fuel)
  show ?case
  proof (cases "unresolved_id current selected")
    case None
    then have "detectCycle selected = Some None" "s = selected" using Suc.prems(1) by (auto split: option.splits)
    then show ?thesis using Suc.prems(2) unresolved_id_None [OF None] detectCycle_iff(2) by blast
  next
    case (Some k)
    then obtain cs where cs: "candidates_for input rt rg k (jget_or [] current k) = Inr cs"
      "try_candidates (search fuel input rt rg) k (jget_or [] current k) current selected cs lf = Some (Inr (Solved s))"
      using Suc.prems(1) by (auto simp: Let_def split: sum.splits if_splits)
    obtain c nxt lf' where c: "c \<in> set cs" "check_candidate (jget_or [] current k) selected c = Inr None"
      "add_dependencies c (jset k c selected) (pk_dependencies c) current = Inr (Inr nxt)"
      "search fuel input rt rg nxt (jset k c selected) lf' = Some (Inr (Solved s))"
      using try_candidates_Solved [OF cs(2)] by blast
    have "c \<in> set (in_packages input)" "pk_plugin_id c = k" "candidate_ok input rt rg (jget_or [] current k) (find_pin input k) c = Inr True"
      using c(1) candidates_for_Inr [OF cs(1)] by auto
    then have "search_inv input rt rg base nxt (jset k c selected)"
      using select_inv [OF Suc.prems(2) assms(3) _ _ _ _ c(2,3)] unresolved_id_Some [OF Some] by blast
    then show ?thesis using Suc.IH c(4) by blast
  qed
qed simp

section \<open>Consistent plugin graphs\<close>

definition requirement_ok :: "plugin_package list \<Rightarrow> plugin_requirement \<Rightarrow> bool" where
  "requirement_ok packages r \<longleftrightarrow> (\<exists>p \<in> set packages. pk_plugin_id p = pr_plugin_id r \<and> caps_met p (pr_capabilities r)
     \<and> (\<exists>n. normalizeVersionRequirement (pr_requirement r) = Inr n \<and> satisfiesVersionRequirement (pk_plugin_version p) n = Inr True))"

definition dependency_ok :: "plugin_package list \<Rightarrow> plugin_dependency \<Rightarrow> bool" where
  "dependency_ok packages d \<longleftrightarrow> (\<exists>q \<in> set packages. pk_plugin_id q = dp_plugin_id d \<and> pk_namespace q = dp_namespace d
     \<and> caps_met q (dp_required_capabilities d)
     \<and> (\<exists>r. parseVersionRequirementText (dp_version_requirement d) = Inr r \<and> satisfiesVersionRequirement (pk_plugin_version q) r = Inr True))"

definition depends :: "plugin_package list \<Rightarrow> (string \<times> string) set" where
  "depends packages = {(pk_plugin_id p, dp_plugin_id d) | p d. p \<in> set packages \<and> d \<in> set (pk_dependencies p)}"

definition graph_ok :: "resolution_input \<Rightarrow> plugin_package list \<Rightarrow> bool" where
  "graph_ok input packages \<longleftrightarrow>
     set packages \<subseteq> set (in_packages input) \<and> distinct (map pk_plugin_id packages)
   \<and> (\<forall>p \<in> set packages. \<forall>q \<in> set packages. pk_namespace p = pk_namespace q \<longrightarrow> p = q)
   \<and> (\<forall>p \<in> set packages. pin_ok input p \<and> (\<forall>d \<in> set (pk_dependencies p). dependency_ok packages d))
   \<and> (\<forall>r \<in> set (in_requirements input). requirement_ok packages r)
   \<and> acyclic (depends packages)"

lemma graph_ok_cong:
  assumes "graph_ok input ps" and "mset qs = mset ps"
  shows "graph_ok input qs"
proof -
  have "set qs = set ps" "distinct (map pk_plugin_id qs) = distinct (map pk_plugin_id ps)"
    using assms(2) by (metis set_mset_mset, metis mset_eq_imp_distinct_iff mset_map)
  then show ?thesis using assms(1) by (simp add: graph_ok_def requirement_ok_def dependency_ok_def depends_def)
qed

lemma selection_entry:
  assumes "distinct (jkeys s)" and "\<And>k p. jget s k = Some p \<Longrightarrow> pk_plugin_id p = k"
  shows "jget s k = Some p \<longleftrightarrow> p \<in> set (map snd s) \<and> pk_plugin_id p = k"
proof
  show "p \<in> set (map snd s) \<and> pk_plugin_id p = k" if "jget s k = Some p"
    using that assms(2) map_of_SomeD [OF that] by force
  show "jget s k = Some p" if p: "p \<in> set (map snd s) \<and> pk_plugin_id p = k"
  proof -
    obtain l where "(l, p) \<in> set s" using p by auto
    then have "jget s l = Some p" using assms(1) by simp
    then show ?thesis using assms(2) [of l p] p by simp
  qed
qed

lemma dep_rel_depends:
  assumes "distinct (jkeys s)" and "\<And>k p. jget s k = Some p \<Longrightarrow> pk_plugin_id p = k"
  shows "dep_rel s = depends (map snd s)"
proof -
  have rel: "(a, b) \<in> dep_rel s \<longleftrightarrow> (\<exists>p d. jget s a = Some p \<and> d \<in> set (pk_dependencies p) \<and> b = dp_plugin_id d)" for a b
    by (cases "jget s a") (auto simp: dep_rel_def deps_of_def)
  have entry: "jget s k = Some p \<longleftrightarrow> p \<in> set (map snd s) \<and> pk_plugin_id p = k" for k p by (rule selection_entry [OF assms])
  have "(a, b) \<in> dep_rel s \<longleftrightarrow> (a, b) \<in> depends (map snd s)" for a b
    unfolding rel entry depends_def mem_Collect_eq prod.inject by blast
  then show ?thesis by auto
qed

lemma initial_constraints_Inr:
  assumes "initial_constraints reqs = Inr m"
  shows "r \<in> set reqs \<Longrightarrow> \<exists>n. normalizeVersionRequirement (pr_requirement r) = Inr n
      \<and> \<lparr>cs_requirement = n, cs_capabilities = pr_capabilities r, cs_namespace = None, cs_declaring = None\<rparr> \<in> set (jget_or [] m (pr_plugin_id r))"
    "c \<in> set (jget_or [] m k) \<Longrightarrow> \<exists>r \<in> set reqs. cs_capabilities c = pr_capabilities r"
proof -
  let ?step = "\<lambda>r m. res_bind (normalizeVersionRequirement (pr_requirement r)) (\<lambda>n.
     Inr (push_constraint (pr_plugin_id r) \<lparr>cs_requirement = n, cs_capabilities = pr_capabilities r, cs_namespace = None, cs_declaring = None\<rparr> m))"
  have fold: "(\<forall>k. set (jget_or [] m0 k) \<subseteq> set (jget_or [] m k))
    \<and> (\<forall>r \<in> set reqs. \<exists>n. normalizeVersionRequirement (pr_requirement r) = Inr n
      \<and> \<lparr>cs_requirement = n, cs_capabilities = pr_capabilities r, cs_namespace = None, cs_declaring = None\<rparr> \<in> set (jget_or [] m (pr_plugin_id r)))
    \<and> (\<forall>k c. c \<in> set (jget_or [] m k) \<longrightarrow> c \<in> set (jget_or [] m0 k) \<or> (\<exists>r \<in> set reqs. cs_capabilities c = pr_capabilities r))"
    if "res_fold ?step reqs m0 = Inr m" for m0
    using that
  proof (induction reqs arbitrary: m0)
    case (Cons r reqs)
    then obtain n where n: "normalizeVersionRequirement (pr_requirement r) = Inr n" by (auto simp: res_bind_Inr_iff)
    define x where "x = \<lparr>cs_requirement = n, cs_capabilities = pr_capabilities r, cs_namespace = None, cs_declaring = None\<rparr>"
    let ?m1 = "push_constraint (pr_plugin_id r) x m0"
    have rest: "res_fold ?step reqs ?m1 = Inr m" using Cons.prems n by (simp add: x_def)
    have m1: "set (jget_or [] ?m1 k) = (if k = pr_plugin_id r then insert x (set (jget_or [] m0 k)) else set (jget_or [] m0 k))" for k
      by (simp add: lookup_push)
    have IH: "\<And>k. set (jget_or [] ?m1 k) \<subseteq> set (jget_or [] m k)"
      "\<forall>r \<in> set reqs. \<exists>n. normalizeVersionRequirement (pr_requirement r) = Inr n
        \<and> \<lparr>cs_requirement = n, cs_capabilities = pr_capabilities r, cs_namespace = None, cs_declaring = None\<rparr> \<in> set (jget_or [] m (pr_plugin_id r))"
      "\<And>k c. c \<in> set (jget_or [] m k) \<Longrightarrow> c \<in> set (jget_or [] ?m1 k) \<or> (\<exists>r \<in> set reqs. cs_capabilities c = pr_capabilities r)"
      using Cons.IH [OF rest] by blast+
    have sub: "set (jget_or [] m0 k) \<subseteq> set (jget_or [] m k)" for k using IH(1) [of k] m1 [of k] by (auto split: if_splits)
    have "x \<in> set (jget_or [] m (pr_plugin_id r))" using IH(1) [of "pr_plugin_id r"] m1 [of "pr_plugin_id r"] by auto
    then have "\<forall>r \<in> set (r # reqs). \<exists>n. normalizeVersionRequirement (pr_requirement r) = Inr n
        \<and> \<lparr>cs_requirement = n, cs_capabilities = pr_capabilities r, cs_namespace = None, cs_declaring = None\<rparr> \<in> set (jget_or [] m (pr_plugin_id r))"
      using IH(2) n by (simp add: x_def)
    moreover have "c \<in> set (jget_or [] m0 k) \<or> (\<exists>r \<in> set (r # reqs). cs_capabilities c = pr_capabilities r)" if "c \<in> set (jget_or [] m k)" for k c
      using IH(3) [OF that] m1 [of k] by (auto simp: x_def split: if_splits)
    ultimately show ?case using sub by blast
  qed simp
  have "res_fold ?step reqs [] = Inr m" using assms by (simp add: initial_constraints_def)
  from fold [OF this] show "r \<in> set reqs \<Longrightarrow> \<exists>n. normalizeVersionRequirement (pr_requirement r) = Inr n
      \<and> \<lparr>cs_requirement = n, cs_capabilities = pr_capabilities r, cs_namespace = None, cs_declaring = None\<rparr> \<in> set (jget_or [] m (pr_plugin_id r))"
    "c \<in> set (jget_or [] m k) \<Longrightarrow> \<exists>r \<in> set reqs. cs_capabilities c = pr_capabilities r"
    by simp_all
qed

lemma solveGraph_sound:
  assumes "solveGraph input rt rg = Some (Inr (Inr s))" and named: "capabilities_named input"
  shows "graph_ok input (map snd s)"
proof -
  obtain m where m: "initial_constraints (in_requirements input) = Inr m"
    "search (length (in_packages input) + 1) input rt rg m [] None = Some (Inr (Solved s))"
    using assms(1) by (auto simp del: search.simps simp: solveGraph_def split: sum.splits option.splits search_result.splits)
  have "search_inv input rt rg m m []"
    using initial_constraints_Inr(2) [OF m(1)] named by (fastforce simp: search_inv_def capabilities_named_def list_all_iff)
  from search_sound [OF m(2) this named] obtain final where inv: "search_inv input rt rg m final s"
    and keys: "set (jkeys final) \<subseteq> set (jkeys s)" and acyc: "acyclic (dep_rel s)" by blast
  note i = search_invD [OF inv]
  note entry = selection_entry [OF i(1,2)]
  have met: "\<exists>p \<in> set (map snd s). pk_plugin_id p = k \<and> meets p c" if "c \<in> set (jget_or [] final k)" for k c
  proof -
    have "jget final k \<noteq> None" using that by (cases "jget final k") (auto simp: jget_or_def)
    then have "k \<in> set (jkeys final)" using map_of_eq_None_iff [of final k] by simp
    then have "k \<in> fst ` set s" using keys by auto
    then obtain p where p: "jget s k = Some p" using map_of_eq_None_iff [of s k] by blast
    then show ?thesis using i(4) [OF p that] entry by blast
  qed
  have req: "requirement_ok (map snd s) r" if r: "r \<in> set (in_requirements input)" for r
  proof -
    obtain n where n: "normalizeVersionRequirement (pr_requirement r) = Inr n"
      "\<lparr>cs_requirement = n, cs_capabilities = pr_capabilities r, cs_namespace = None, cs_declaring = None\<rparr> \<in> set (jget_or [] final (pr_plugin_id r))"
      using initial_constraints_Inr(1) [OF m(1) r] i(7) by blast
    show ?thesis using met [OF n(2)] n(1) by (auto simp: requirement_ok_def meets_def)
  qed
  have dep: "dependency_ok (map snd s) d" if p: "p \<in> set (map snd s)" and d: "d \<in> set (pk_dependencies p)" for p d
  proof -
    have "jget s (pk_plugin_id p) = Some p" using entry p by blast
    from i(5) [OF this d] obtain c where c: "c \<in> set (jget_or [] final (dp_plugin_id d))" "dep_constraint d c" by blast
    show ?thesis using met [OF c(1)] c(2) by (auto simp: dependency_ok_def meets_def dep_constraint_def)
  qed
  have ids: "distinct (map pk_plugin_id (map snd s))"
  proof -
    have "map pk_plugin_id (map snd s) = jkeys s" using i(1,2) by (auto simp: comp_def)
    then show ?thesis using i(1) by (simp only:)
  qed
  have sel: "selectable input rt rg p" if "p \<in> set (map snd s)" for p using i(3) entry that by blast
  have ns: "p = q" if pq: "p \<in> set (map snd s)" "q \<in> set (map snd s)" "pk_namespace p = pk_namespace q" for p q
  proof -
    have e: "jget s (pk_plugin_id p) = Some p" "jget s (pk_plugin_id q) = Some q" using entry pq by blast+
    have "Some p = Some q" using e(1) unfolding i(6) [OF e pq(3)] e(2) by simp
    then show ?thesis by simp
  qed
  have acyc': "acyclic (depends (map snd s))" using acyc dep_rel_depends [OF i(1,2)] by simp
  show ?thesis unfolding graph_ok_def
    using sel ids ns dep req acyc' unfolding selectable_def by blast
qed

section \<open>Preserved locks\<close>

lemma jset_new: "k \<notin> set (jkeys m) \<Longrightarrow> jset k v m = m @ [(k, v)]"
  by (induction m) auto

lemma index_packages:
  assumes "distinct (map pk_plugin_id ps)"
  shows "foldl (\<lambda>m p. jset (pk_plugin_id p) p m) [] ps = map (\<lambda>p. (pk_plugin_id p, p)) ps"
  using assms
proof (induction ps rule: rev_induct)
  case (snoc p ps)
  then show ?case by (auto simp: jset_new)
qed simp

lemma namespaces_consistent_ids:
  assumes "namespaces_consistent ls owners" and "l \<in> set ls"
  shows "jget owners (rp_namespace l) = None \<or> jget owners (rp_namespace l) = Some (rp_plugin_id l)"
    "l' \<in> set ls \<Longrightarrow> rp_namespace l' = rp_namespace l \<Longrightarrow> rp_plugin_id l' = rp_plugin_id l"
proof -
  have "(\<forall>l \<in> set ls. jget owners (rp_namespace l) = None \<or> jget owners (rp_namespace l) = Some (rp_plugin_id l))
    \<and> (\<forall>l \<in> set ls. \<forall>l' \<in> set ls. rp_namespace l' = rp_namespace l \<longrightarrow> rp_plugin_id l' = rp_plugin_id l)"
    using assms(1)
  proof (induction ls arbitrary: owners)
    case (Cons p ls)
    let ?o = "jset (rp_namespace p) (rp_plugin_id p) owners"
    have rest: "namespaces_consistent ls ?o" and p: "jget owners (rp_namespace p) = None \<or> jget owners (rp_namespace p) = Some (rp_plugin_id p)"
      using Cons.prems by (auto split: option.splits if_splits)
    note IH = Cons.IH [OF rest, THEN conjunct1, rule_format] and IH2 = Cons.IH [OF rest, THEN conjunct2, rule_format]
    have same: "rp_plugin_id l = rp_plugin_id p" if "l \<in> set ls" "rp_namespace l = rp_namespace p" for l
      using IH [OF that(1)] that(2) by simp
    have own: "jget owners (rp_namespace l) = None \<or> jget owners (rp_namespace l) = Some (rp_plugin_id l)" if "l \<in> set (p # ls)" for l
    proof (cases "rp_namespace l = rp_namespace p")
      case True
      then have "rp_plugin_id l = rp_plugin_id p" using that same by auto
      then show ?thesis using p True by simp
    next
      case False
      then show ?thesis using IH [of l] that by auto
    qed
    have "rp_plugin_id l' = rp_plugin_id l" if "l \<in> set (p # ls)" "l' \<in> set (p # ls)" "rp_namespace l' = rp_namespace l" for l l'
      using that same [of l] same [of l'] IH2 [of l l'] by (cases "l = p"; cases "l' = p") simp_all
    then show ?case using own by blast
  qed simp
  then show "jget owners (rp_namespace l) = None \<or> jget owners (rp_namespace l) = Some (rp_plugin_id l)"
    "l' \<in> set ls \<Longrightarrow> rp_namespace l' = rp_namespace l \<Longrightarrow> rp_plugin_id l' = rp_plugin_id l"
    using assms(2) by blast+
qed

lemma locked_packages_Inr:
  assumes "locked_packages digests input ls = Inr (Some ps)"
  shows "list_all2 (\<lambda>l p. p \<in> set (in_packages input) \<and> pk_plugin_id p = rp_plugin_id l \<and> pk_namespace p = rp_namespace l) ls ps"
  using assms
proof (induction ls arbitrary: ps)
  case (Cons l ls)
  obtain item where item: "locked_package input l = Some item" using Cons.prems by (auto split: option.splits)
  then obtain ps' where ps': "package_moved digests l item = Inr False" "locked_packages digests input ls = Inr (Some ps')" "ps = item # ps'"
    using Cons.prems by (auto simp: res_bind_Inr_iff split: if_splits option.splits)
  have "item \<in> set (in_packages input)" "pk_plugin_id item = rp_plugin_id l"
    using item unfolding locked_package_def find_Some_iff by auto
  moreover have "pk_namespace item = rp_namespace l" using ps'(1) by (auto simp: package_moved_def split: if_splits)
  ultimately show ?case using Cons.IH [OF ps'(2)] ps'(3) by simp
qed simp

lemma preserve_sound:
  assumes "preserveExistingLock input digests existing = Some (Inr (Preserved lock packages))"
  shows "existing = Some lock" "lock_authentic input digests lock" "graph_ok input packages"
    "mset (map pk_plugin_id packages) = mset (map rp_plugin_id (li_plugins (rl_input lock)))"
proof -
  let ?ls = "li_plugins (rl_input lock)"
  show ex: "existing = Some lock" and auth: "lock_authentic input digests lock"
    using assms by (auto simp: preserveExistingLock_def Let_def res_bind_Inr_iff split: option.splits sum.splits if_splits)
  obtain ps where lp: "locked_packages digests input ?ls = Inr (Some ps)"
    using assms ex auth by (auto simp: preserveExistingLock_def split: option.splits sum.splits if_splits)
  define sel where "sel = foldl (\<lambda>m p. jset (pk_plugin_id p) p m) [] ps"
  have cyc: "detectCycle sel = Some None"
    using assms ex auth lp by (auto simp: preserveExistingLock_def Let_def sel_def split: option.splits if_splits)
  have rest: "res_every (dependency_met sel) (concat (map pk_dependencies ps)) = Inr True"
    "res_every (requirement_met sel) (in_requirements input) = Inr True" "list_all (pin_met lock sel) (in_pins input)"
    "packages = sort_by (\<lambda>l r. compareUtf8Bytes (pk_plugin_id l) (pk_plugin_id r)) ps"
    using assms ex auth lp cyc by (auto simp: preserveExistingLock_def Let_def sel_def [symmetric] res_bind_Inr_iff split: if_splits)
  note all2 = locked_packages_Inr [OF lp]
  have ids: "map pk_plugin_id ps = map rp_plugin_id ?ls"
    using all2 by (intro nth_equalityI) (auto simp: list_all2_conv_all_nth)
  have dist: "distinct (map pk_plugin_id ps)" using auth by (simp add: ids lock_authentic_def)
  have seleq: "sel = map (\<lambda>p. (pk_plugin_id p, p)) ps" unfolding sel_def by (rule index_packages [OF dist])
  have keys: "distinct (jkeys sel)" and snds: "map snd sel = ps" using dist by (simp_all add: seleq comp_def)
  have idk: "pk_plugin_id p = k" if "jget sel k = Some p" for k p using map_of_SomeD [OF that] by (auto simp: seleq)
  have entry: "jget sel k = Some p \<longleftrightarrow> p \<in> set ps \<and> pk_plugin_id p = k" for k p
    using selection_entry [OF keys idk] by (simp only: snds)
  have inp: "set ps \<subseteq> set (in_packages input)"
    using all2 by (auto simp: list_all2_conv_all_nth in_set_conv_nth)
  have ns: "p = q" if pq: "p \<in> set ps" "q \<in> set ps" "pk_namespace p = pk_namespace q" for p q
  proof -
    obtain i j where ij: "i < length ps" "ps ! i = p" "j < length ps" "ps ! j = q" using pq by (metis in_set_conv_nth)
    then have l: "?ls ! i \<in> set ?ls" "?ls ! j \<in> set ?ls" "rp_namespace (?ls ! i) = rp_namespace (?ls ! j)"
      "rp_plugin_id (?ls ! i) = pk_plugin_id p" "rp_plugin_id (?ls ! j) = pk_plugin_id q"
      using all2 pq(3) by (auto simp: list_all2_conv_all_nth)
    have "namespaces_consistent ?ls []" using auth by (simp add: lock_authentic_def)
    from namespaces_consistent_ids(2) [OF this l(2,1,3)] have "pk_plugin_id p = pk_plugin_id q" using l(4,5) by simp
    then show ?thesis using pq(1,2) dist by (metis distinct_map inj_onD)
  qed
  have pins: "pin_ok input p" if p: "p \<in> set ps" for p
  proof (cases "find_pin input (pk_plugin_id p)")
    case (Some pin)
    then have pin: "pin \<in> set (in_pins input)" "pp_plugin_id pin = pk_plugin_id p"
      unfolding find_pin_def find_Some_iff by auto
    have "jget sel (pk_plugin_id p) = Some p" using entry p by blast
    then show ?thesis using rest(3) pin Some by (auto simp: list_all_iff pin_met_def pin_ok_def)
  qed (simp add: pin_ok_def)
  have deps: "dependency_ok ps d" if p: "p \<in> set ps" "d \<in> set (pk_dependencies p)" for p d
  proof -
    have "d \<in> set (concat (map pk_dependencies ps))" using p by auto
    from res_every_Inr_True [OF rest(1) this] obtain q where q: "jget sel (dp_plugin_id d) = Some q" "pk_namespace q = dp_namespace d"
      "\<exists>r. parseVersionRequirementText (dp_version_requirement d) = Inr r \<and> satisfiesVersionRequirement (pk_plugin_version q) r = Inr True"
      "capability_missing q (dp_required_capabilities d) = Inr False"
      by (auto simp: dependency_met_def res_bind_Inr_iff split: option.splits if_splits)
    then show ?thesis using entry capability_missing_False by (auto simp: dependency_ok_def)
  qed
  have reqs: "requirement_ok ps r" if r: "r \<in> set (in_requirements input)" for r
  proof -
    from res_every_Inr_True [OF rest(2) r] obtain q where q: "jget sel (pr_plugin_id r) = Some q"
      "\<exists>n. normalizeVersionRequirement (pr_requirement r) = Inr n \<and> satisfiesVersionRequirement (pk_plugin_version q) n = Inr True"
      "capability_missing q (pr_capabilities r) = Inr False"
      by (auto simp: requirement_met_def res_bind_Inr_iff split: option.splits if_splits)
    then show ?thesis using entry capability_missing_False by (auto simp: requirement_ok_def)
  qed
  have acyc: "acyclic (depends ps)" using cyc detectCycle_iff(2) dep_rel_depends [OF keys idk] by (simp add: snds)
  have "graph_ok input ps" unfolding graph_ok_def using inp dist ns pins deps reqs acyc by blast
  then show "graph_ok input packages" by (rule graph_ok_cong) (simp add: rest(4))
  show "mset (map pk_plugin_id packages) = mset (map rp_plugin_id ?ls)" by (simp add: rest(4) ids [symmetric])
qed

section \<open>Properties of the resolver\<close>

lemma try_contracts_ok:
  assumes "try_contracts input digests pairs best = Some (Inr (Resolved_ok lock packages preserved))" and "capabilities_named input"
  shows "\<exists>rt rg s. (rt, rg) \<in> set pairs \<and> graph_ok input (map snd s) \<and> fresh_lock input digests rt rg s = Resolved_ok lock packages preserved"
  using assms(1)
proof (induction pairs arbitrary: best)
  case (Cons p pairs)
  obtain rt rg where p: "p = (rt, rg)" by fastforce
  obtain r where r: "solveGraph input rt rg = Some (Inr r)" using Cons.prems by (auto simp: p split: option.splits sum.splits)
  show ?case
  proof (cases r)
    case (Inl f)
    then show ?thesis using Cons r by (fastforce simp: p)
  next
    case (Inr s)
    then have "fresh_lock input digests rt rg s = Resolved_ok lock packages preserved" using Cons.prems r by (simp add: p)
    then show ?thesis using solveGraph_sound [OF r [unfolded Inr] assms(2)] p by auto
  qed
qed simp

lemma fresh_lock_ok:
  assumes "fresh_lock input digests rt rg s = Resolved_ok lock packages preserved"
  shows "\<not> preserved" "mset packages = mset (map snd s)" "lockDigest digests (rl_input lock) = Some (rl_digest lock)"
    "li_plugins (rl_input lock) = map (resolved_of rt rg) packages" "li_workspace_id (rl_input lock) = in_workspace_id input"
  using assms by (auto simp: fresh_lock_def Let_def split: option.splits)

lemma positive_subset: "set (positiveVersions vs) \<subseteq> set vs"
  by (auto simp: positiveVersions_def)

text \<open>
  C7.  As long as no workspace requirement and no dependency of an installed package requires the empty string as a
  capability (\<open>capabilities_named\<close>; lemma \<open>empty_capability_accepted\<close> shows what the search does with one), whatever the
  resolver returns is a consistent plugin graph: when it succeeds, with a fresh or a preserved lock, the packages are installed ones, one per plugin and one owner per namespace; every workspace requirement
  and every dependency of a selected package is met by a selected package with the right namespace,
  version and capabilities; the pins are respected; and no dependencies form a cycle.  The lock carries its own valid
  digest, names exactly those plugins, and belongs to the workspace; a preserved lock is the supplied one.
\<close>

theorem resolve_graph_consistent:
  assumes "resolve digests input = Some (Inr (Resolved_ok lock packages preserved))" and "capabilities_named input"
  shows "graph_ok input packages \<and> lockDigest digests (rl_input lock) = Some (rl_digest lock)
    \<and> li_workspace_id (rl_input lock) = in_workspace_id input
    \<and> mset (map rp_plugin_id (li_plugins (rl_input lock))) = mset (map pk_plugin_id packages)
    \<and> (if preserved then in_existing_lock input = Some (Some lock)
       else \<exists>rt rg. rt \<in> set (in_runtime_contracts input) \<and> rg \<in> set (in_registry_contracts input)
          \<and> li_plugins (rl_input lock) = map (resolved_of rt rg) packages)"
proof -
  let ?existing = "case in_existing_lock input of None \<Rightarrow> None | Some l \<Rightarrow> l"
  let ?pairs = "List.product (positiveVersions (in_runtime_contracts input)) (positiveVersions (in_registry_contracts input))"
  consider (kept) "preserveExistingLock input digests ?existing = Some (Inr (Preserved lock packages))" "preserved"
    | (fresh) best where "try_contracts input digests ?pairs best = Some (Inr (Resolved_ok lock packages preserved))"
    using assms(1) by (auto simp: resolve_def Let_def split: option.splits sum.splits preserve_result.splits if_splits)
  then show ?thesis
  proof cases
    case kept
    note k = preserve_sound [OF kept(1)]
    have "in_existing_lock input = Some (Some lock)" using k(1) by (cases "in_existing_lock input") auto
    then show ?thesis using k kept(2) by (auto simp: lock_authentic_def)
  next
    case (fresh best)
    obtain rt rg s where s: "(rt, rg) \<in> set ?pairs" "graph_ok input (map snd s)" "fresh_lock input digests rt rg s = Resolved_ok lock packages preserved"
      using try_contracts_ok [OF fresh assms(2)] by blast
    note f = fresh_lock_ok [OF s(3)]
    have "rt \<in> set (in_runtime_contracts input)" "rg \<in> set (in_registry_contracts input)" using s(1) positive_subset by auto
    moreover have "map rp_plugin_id (li_plugins (rl_input lock)) = map pk_plugin_id packages" by (simp add: f(4) comp_def resolved_of_def)
    then have "mset (map rp_plugin_id (li_plugins (rl_input lock))) = mset (map pk_plugin_id packages)" by (simp only:)
    ultimately show ?thesis using graph_ok_cong [OF s(2) f(2)] f(1,3,4,5) by (simp only: if_False) blast
  qed
qed

text \<open>
  C13.  The cycle check decides acyclicity: it always returns, and it reports no failure exactly when the dependency relation of the
  selected packages is acyclic.
\<close>

theorem detect_cycle_exact:
  "detectCycle selected \<noteq> None \<and> (detectCycle selected = Some None \<longleftrightarrow> acyclic (dep_rel selected))"
  using detectCycle_iff by blast

text \<open>
  C11.  Resolution terminates on every input: the backtracking search never needs more nested levels than there are packages,
  so \<open>resolve\<close> returns a result or throws.
\<close>

theorem resolve_terminates:
  "\<exists>r. resolve digests input = Some r"
  using resolve_total [of digests input] by blast

text \<open>
  A supplied lock that is malformed, foreign, tampered with or inconsistent fails closed: resolution reports an issue and returns
  no lock.
\<close>

theorem existing_lock_fails_closed:
  assumes "in_existing_lock input = Some l" and "\<not> (case l of None \<Rightarrow> False | Some lock \<Rightarrow> lock_authentic input digests lock)"
  shows "\<exists>issue. resolve digests input = Some (Inr (Resolution_failed [issue])) \<and> ci_code issue = VersionConflict"
proof -
  have "preserveExistingLock input digests l = Some (Inr InvalidLock)"
    using assms(2) by (cases l) (simp_all add: preserveExistingLock_def)
  then show ?thesis
    using assms(1) by (auto simp: resolve_def Let_def compatibilityIssue_def failure_def split: option.splits)
qed

section \<open>A resolution\<close>

definition sample_package :: plugin_package where
  "sample_package = \<lparr>pk_plugin_id = ''a:p'', pk_plugin_version = ''1.0.0'', pk_namespace = ''a'', pk_package_digest = ''d'',
     pk_declaration_digest = ''e'', pk_contribution_digest = ''f'', pk_analysis_digest = ''g'', pk_analysis_configuration_digest = ''h'',
     pk_plugin_contracts = [1], pk_registry_contracts = [1], pk_dependencies = [], pk_offered = [],
     pk_builds = [\<lparr>rb_build_id = ''b'', rb_component_id = ''c'', rb_component_version = ''1'', rb_implementation_digest = ''i''\<rparr>],
     pk_components = [\<lparr>cd_component_id = ''c'', cd_component_version = ''1'', cd_contracts = [Some 1]\<rparr>],
     pk_registry_contract_version = ''1.0.0'', pk_binding = None\<rparr>"

definition sample_input :: resolution_input where
  "sample_input = \<lparr>in_packages = [sample_package],
     in_requirements = [\<lparr>pr_plugin_id = ''a:p'', pr_requirement = any_version, pr_capabilities = []\<rparr>], in_pins = [],
     in_runtime_contracts = [1], in_registry_contracts = [1], in_existing_lock = None, in_workspace_id = ''w'', in_resolver_version = ''1.0.0'',
     in_clock = ''t'', in_id = ''l''\<rparr>"

definition sample_digests :: digest_authority where
  "sample_digests = \<lparr>da_resolution_lock = \<lambda>_. Some (''sha256:'' @ replicate 64 CHR ''0''), da_executable_binding = \<lambda>_. None, da_binding_schema = \<lambda>_. True\<rparr>"

lemma sample_satisfies: "satisfiesVersionRequirement ''1.0.0'' any_version = Inr True"
proof -
  have "parseInternal ''1.0.0'' = Inr (semver_of [''1'', ''0'', ''0''] [] [])"
    by (simp add: parseInternal_def semver_match_def numeric_id_def digit_def)
  moreover have "interval_admits ''1.0.0'' empty_interval = Inr True" by (simp add: interval_admits_def empty_interval_def)
  ultimately show ?thesis using any_normalizes
    by (simp add: satisfiesVersionRequirement_def semver_of_def) (simp add: any_version_def)
qed

lemma sample_solves: "solveGraph sample_input 1 1 = Some (Inr (Inr [(''a:p'', sample_package)]))"
proof -
  define c where "c = \<lparr>cs_requirement = any_version, cs_capabilities = [], cs_namespace = None, cs_declaring = None\<rparr>"
  have ct: "contract_text 1 = ''1.0.0''" by (simp add: contract_text_def int_str_def nat_str.simps digit_char_def char_of_eq_iff)
  have ok: "candidate_ok sample_input 1 1 [c] None sample_package = Inr True"
    by (simp add: candidate_ok_def sample_package_def compatibleBuilds_def sort_by_def sample_satisfies ct c_def)
  have init: "initial_constraints (in_requirements sample_input) = Inr [(''a:p'', [c])]"
    by (simp add: initial_constraints_def sample_input_def any_normalizes push_constraint_def c_def jget_or_def)
  have pin: "find_pin sample_input ''a:p'' = None" by (simp add: find_pin_def sample_input_def)
  have pks: "in_packages sample_input = [sample_package]" by (simp add: sample_input_def)
  have pid: "pk_plugin_id sample_package = ''a:p''" "pk_dependencies sample_package = []" by (simp_all add: sample_package_def)
  have cand: "candidates_for sample_input 1 1 ''a:p'' [c] = Inr [sample_package]"
    by (simp add: candidates_for_def pin pks pid ok sort_by_def)
  have un: "unresolved_id [(''a:p'', [c])] [] = Some ''a:p''" "unresolved_id [(''a:p'', [c])] [(''a:p'', sample_package)] = None"
    by (simp_all add: unresolved_id_def sort_by_def)
  have chk: "check_candidate [c] [] sample_package = Inr None" by (simp add: check_candidate_def c_def)
  have "deps_of [(''a:p'', sample_package)] a = []" for a by (simp add: deps_of_def pid)
  then have cyc: "detectCycle [(''a:p'', sample_package)] = Some None"
    unfolding detectCycle_iff(2) by (simp add: dep_rel_def acyclic_def)
  show ?thesis
    by (simp add: solveGraph_def init pks un cand pin ambiguous_def chk pid cyc Let_def jget_or_def numeral_2_eq_2)
qed

text \<open>
  A required capability that is the empty string is found missing, but the search tests what it found for being
  non-empty: the candidate is accepted, and so are the capabilities it lacks after that one.
\<close>

lemma empty_capability_accepted:
  "capability_missing sample_package [[]] = Inr True"
  "capability_missing sample_package [''x''] = Inr True"
  "check_candidate [\<lparr>cs_requirement = any_version, cs_capabilities = [[], ''x''], cs_namespace = None, cs_declaring = None\<rparr>] [] sample_package = Inr None"
  by code_simp+

lemma sample_resolves: "\<exists>lock. resolve sample_digests sample_input = Some (Inr (Resolved_ok lock [sample_package] False))"
proof -
  have d: "lock_digest_text (''sha256:'' @ replicate 64 CHR ''0'')" by (simp add: lock_digest_text_def digit_def list_all_iff)
  have l: "lockDigest sample_digests core = Some (''sha256:'' @ replicate 64 CHR ''0'')" for core
    using d by (simp add: lockDigest_def sample_digests_def)
  have v: "positiveVersions [1] = [1]" by (simp add: positiveVersions_def js_uniq_def sort_by_def MAX_SAFE_INTEGER_def)
  have i: "in_runtime_contracts sample_input = [1]" "in_registry_contracts sample_input = [1]" "in_existing_lock sample_input = None"
    "find (invalid_binding sample_digests) (in_packages sample_input) = None"
    by (simp_all add: sample_input_def invalid_binding_def sample_package_def)
  have f: "\<exists>lock. fresh_lock sample_input sample_digests 1 1 [(''a:p'', sample_package)] = Resolved_ok lock [sample_package] False"
    by (simp add: fresh_lock_def l sort_by_def Let_def)
  show ?thesis using f by (simp add: resolve_def i v sample_solves preserveExistingLock_def Let_def)
qed

theorem resolve_graph_consistent_witness:
  "\<exists>lock. resolve sample_digests sample_input = Some (Inr (Resolved_ok lock [sample_package] False)) \<and> graph_ok sample_input [sample_package]
    \<and> lockDigest sample_digests (rl_input lock) = Some (rl_digest lock)"
proof -
  obtain lock where lock: "resolve sample_digests sample_input = Some (Inr (Resolved_ok lock [sample_package] False))" using sample_resolves by blast
  have "capabilities_named sample_input" by (simp add: capabilities_named_def sample_input_def sample_package_def)
  from resolve_graph_consistent [OF lock this] lock show ?thesis by blast
qed

theorem existing_lock_fails_closed_witness:
  "\<exists>issue. resolve sample_digests (sample_input\<lparr>in_existing_lock := Some None\<rparr>) = Some (Inr (Resolution_failed [issue])) \<and> ci_code issue = VersionConflict"
  using existing_lock_fails_closed [of "sample_input\<lparr>in_existing_lock := Some None\<rparr>" None sample_digests] by simp

end
