(* ===== verification/Query_Relations.thy ===== *)
theory Query_Relations
  imports Urdira_Prelude
begin

text \<open>
  The relation operators of the query engine, \<open>packages/engine/src/query-operators.ts\<close>: the adjacency
  index, the bounded breadth-first expansion from a set of roots and the search for shortest paths.
  A queue with its read index is the list of the elements still to be read.  The host's
  \<open>localeCompare\<close>, which orders the paths of the result, is a parameter.
\<close>

section \<open>Relation edges and their index\<close>

datatype classification = Confirmed | Possible | Unclassified
datatype direction = Inbound | Outbound | Both

record relation_edge =
  e_source :: string
  e_target :: string
  e_kind :: string
  e_class :: classification
  e_sort_key :: "string option"

datatype query_error = BudgetInvalid

type_synonym adjacency_index = "(string, relation_edge list) jsmap"

definition add_edge :: "string \<Rightarrow> relation_edge \<Rightarrow> adjacency_index \<Rightarrow> adjacency_index" where
  "add_edge subject edge bySubject =
     (case jget bySubject subject of
        None \<Rightarrow> jset subject [edge] bySubject
      | Some current \<Rightarrow> jset subject (current @ [edge]) bySubject)"

definition index_edge :: "direction \<Rightarrow> string list \<Rightarrow> relation_edge \<Rightarrow> adjacency_index \<Rightarrow> adjacency_index" where
  "index_edge direction relationKinds edge m =
     (if relationKinds \<noteq> [] \<and> e_kind edge \<notin> set relationKinds then m
      else
        let m = (if direction = Outbound \<or> direction = Both then add_edge (e_source edge) edge m else m)
        in if (direction = Inbound \<or> direction = Both) \<and> e_target edge \<noteq> e_source edge
           then add_edge (e_target edge) (edge\<lparr>e_source := e_target edge, e_target := e_source edge\<rparr>) m else m)"

definition adjacency :: "relation_edge list \<Rightarrow> direction \<Rightarrow> string list \<Rightarrow> adjacency_index" where
  "adjacency edges direction relationKinds = fold (index_edge direction relationKinds) edges []"

section \<open>Expansion\<close>

record expanded_relation =
  x_subject :: string
  x_depth :: nat
  x_kind :: string
  x_class :: classification
  x_sort_key :: string

type_synonym frontier = "(string \<times> nat) list"

definition default_sort_key :: "nat \<Rightarrow> relation_edge \<Rightarrow> string" where
  "default_sort_key depth edge = nat_str depth @ [CHR 0x00] @ e_target edge @ [CHR 0x00] @ e_kind edge"

definition expanded :: "nat \<Rightarrow> relation_edge \<Rightarrow> expanded_relation" where
  "expanded depth edge =
     \<lparr>x_subject = e_target edge, x_depth = depth, x_kind = e_kind edge, x_class = e_class edge,
      x_sort_key = (case e_sort_key edge of Some k \<Rightarrow> k | None \<Rightarrow> default_sort_key depth edge)\<rparr>"

text \<open>The inner loop over the edges of the current subject; \<open>depth\<close> is that of their targets.\<close>

fun visit_edges :: "nat \<Rightarrow> nat \<Rightarrow> relation_edge list \<Rightarrow> frontier \<times> string list \<times> expanded_relation list \<Rightarrow> frontier \<times> string list \<times> expanded_relation list" where
  "visit_edges depth minDepth [] st = st"
| "visit_edges depth minDepth (edge # es) (queue, seen, found) =
     (if e_target edge \<in> set seen then visit_edges depth minDepth es (queue, seen, found)
      else visit_edges depth minDepth es
        (queue @ [(e_target edge, depth)], seen @ [e_target edge], if depth \<ge> minDepth then found @ [expanded depth edge] else found))"

definition edges_of :: "adjacency_index \<Rightarrow> string \<Rightarrow> relation_edge list" where
  "edges_of bySubject subject = jget_or [] bySubject subject"

definition index_targets :: "adjacency_index \<Rightarrow> string set" where
  "index_targets m = (\<Union>se \<in> set m. e_target ` set (snd se))"

lemma edges_of_targets: "e \<in> set (edges_of m s) \<Longrightarrow> e_target e \<in> index_targets m"
proof (cases "jget m s")
  case (Some es)
  assume "e \<in> set (edges_of m s)"
  then have "e \<in> set es" using Some by (simp add: edges_of_def jget_or_def)
  moreover have "(s, es) \<in> set m" using Some by (rule map_of_SomeD)
  ultimately show ?thesis unfolding index_targets_def by force
qed (simp add: edges_of_def jget_or_def)

lemma finite_index_targets [simp]: "finite (index_targets m)"
  by (simp add: index_targets_def)

lemma visit_edges_seen:
  "visit_edges depth mn es (q, seen, found) = (q', seen', found') \<Longrightarrow> set seen' = set seen \<union> e_target ` set es"
  by (induction depth mn es "(q, seen, found)" arbitrary: q seen found rule: visit_edges.induct) (auto split: if_splits)

lemma visit_edges_same:
  "visit_edges depth mn es (q, seen, found) = (q', seen', found') \<Longrightarrow> set seen' = set seen \<Longrightarrow> q' = q"
proof (induction depth mn es "(q, seen, found)" arbitrary: q seen found rule: visit_edges.induct)
  case (2 depth mn e es q seen found)
  then show ?case using visit_edges_seen [of depth mn "e # es" q seen found q' seen' found'] by (auto split: if_splits)
qed simp

function (sequential) expand_loop ::
    "adjacency_index \<Rightarrow> nat \<Rightarrow> nat \<Rightarrow> frontier \<Rightarrow> string list \<Rightarrow> expanded_relation list \<Rightarrow> expanded_relation list" where
  "expand_loop bySubject minDepth maxDepth [] seen found = found"
| "expand_loop bySubject minDepth maxDepth ((subject, depth) # queue) seen found =
     (if depth \<ge> maxDepth then expand_loop bySubject minDepth maxDepth queue seen found
      else
        let st = visit_edges (Suc depth) minDepth (edges_of bySubject subject) (queue, seen, found)
        in expand_loop bySubject minDepth maxDepth (fst st) (fst (snd st)) (snd (snd st)))"
  by pat_completeness auto
termination
proof (relation "measures [\<lambda>(m, _, _, q, seen, _). card (index_targets m - set seen), \<lambda>(_, _, _, q, _, _). length q]", goal_cases)
  case (3 m mn mx s d q seen found st)
  obtain q' seen' found' where st: "visit_edges (Suc d) mn (edges_of m s) (q, seen, found) = (q', seen', found')"
    using prod_cases3 by blast
  have sup: "set seen' = set seen \<union> e_target ` set (edges_of m s)" by (rule visit_edges_seen [OF st])
  show ?case
  proof (cases "set seen' = set seen")
    case True
    then show ?thesis using 3 st visit_edges_same [OF st] by simp
  next
    case False
    then have "index_targets m - set seen' \<subset> index_targets m - set seen" using sup edges_of_targets by fastforce
    then have "card (index_targets m - set seen') < card (index_targets m - set seen)" by (intro psubset_card_mono) simp_all
    then show ?thesis using 3 st by simp
  qed
qed simp_all

definition safe_integer :: "int \<Rightarrow> bool" where
  "safe_integer n \<longleftrightarrow> \<bar>n\<bar> \<le> 2 ^ 53 - 1"

record expansion_options =
  xo_direction :: direction
  xo_min_depth :: "int option"
  xo_max_depth :: "int option"
  xo_relation_kinds :: "string list option"

definition min_depth_of :: "expansion_options \<Rightarrow> int" where
  "min_depth_of options = (case xo_min_depth options of Some n \<Rightarrow> n | None \<Rightarrow> 1)"

definition max_depth_of :: "expansion_options \<Rightarrow> int" where
  "max_depth_of options = (case xo_max_depth options of Some n \<Rightarrow> n | None \<Rightarrow> min_depth_of options)"

definition kinds_of :: "string list option \<Rightarrow> string list" where
  "kinds_of k = (case k of Some ks \<Rightarrow> ks | None \<Rightarrow> [])"

definition expandRelations :: "relation_edge list \<Rightarrow> string list \<Rightarrow> expansion_options \<Rightarrow> query_error + expanded_relation list" where
  "expandRelations edges roots options =
     (let minDepth = min_depth_of options; maxDepth = max_depth_of options; relationKinds = kinds_of (xo_relation_kinds options)
      in if \<not> safe_integer minDepth \<or> minDepth < 0 \<or> \<not> safe_integer maxDepth \<or> maxDepth < minDepth then Inl BudgetInvalid
         else Inr (expand_loop (adjacency edges (xo_direction options) relationKinds) (nat minDepth) (nat maxDepth)
           (map (\<lambda>subject. (subject, 0)) roots) (js_uniq roots) []))"

section \<open>Shortest paths\<close>

record path_entry =
  pe_subjects :: "string list"
  pe_relations :: "string list"
  pe_classes :: "classification list"

record shortest_path =
  sp_subjects :: "string list"
  sp_kinds :: "string list"
  sp_class :: classification
  sp_sort_key :: string

definition path_class :: "classification list \<Rightarrow> classification" where
  "path_class cs = (if Possible \<in> set cs then Possible else if Unclassified \<in> set cs then Unclassified else Confirmed)"

definition path_result :: "path_entry \<Rightarrow> shortest_path" where
  "path_result p = \<lparr>sp_subjects = pe_subjects p, sp_kinds = pe_relations p, sp_class = path_class (pe_classes p), sp_sort_key = join_on (CHR 0x00) (pe_subjects p)\<rparr>"

definition extend_path :: "path_entry \<Rightarrow> relation_edge \<Rightarrow> path_entry" where
  "extend_path p edge =
     \<lparr>pe_subjects = pe_subjects p @ [e_target edge], pe_relations = pe_relations p @ [e_kind edge], pe_classes = pe_classes p @ [e_class edge]\<rparr>"

definition path_depth :: "path_entry \<Rightarrow> nat" where
  "path_depth p = length (pe_subjects p) - 1"

definition path_steps :: "adjacency_index \<Rightarrow> path_entry \<Rightarrow> path_entry list" where
  "path_steps bySubject p =
     map (extend_path p) (filter (\<lambda>edge. e_target edge \<notin> set (pe_subjects p)) (edges_of bySubject (last (pe_subjects p))))"

definition index_size :: "adjacency_index \<Rightarrow> nat" where
  "index_size m = length (concat (map snd m))"

definition path_weight :: "adjacency_index \<Rightarrow> nat \<Rightarrow> path_entry \<Rightarrow> nat" where
  "path_weight m maxDepth p = (index_size m + 2) ^ (maxDepth + 2 - length (pe_subjects p))"

lemma edges_of_size: "length (edges_of m s) \<le> index_size m"
proof (cases "jget m s")
  case (Some es)
  then obtain xs ys where "m = xs @ (s, es) # ys" by (meson map_of_SomeD split_list)
  then show ?thesis using Some by (simp add: edges_of_def jget_or_def index_size_def)
qed (simp add: edges_of_def jget_or_def)

lemma path_steps_weight:
  assumes "path_depth p < maxDepth"
  shows "sum_list (map (path_weight m maxDepth) (path_steps m p)) < path_weight m maxDepth p"
proof -
  let ?w = "(index_size m + 2) ^ (maxDepth + 1 - length (pe_subjects p))"
  have "path_weight m maxDepth q = ?w" if "q \<in> set (path_steps m p)" for q
    using that by (auto simp: path_steps_def extend_path_def path_weight_def)
  then have "sum_list (map (path_weight m maxDepth) (path_steps m p)) = length (path_steps m p) * ?w"
    by (simp add: sum_list_replicate map_replicate_const cong: map_cong)
  also have "\<dots> \<le> index_size m * ?w"
    using order_trans [OF length_filter_le edges_of_size [of m "last (pe_subjects p)"]] by (simp add: path_steps_def)
  also have "\<dots> < (index_size m + 2) * ?w" by simp
  also have "\<dots> = path_weight m maxDepth p" using assms by (simp add: path_weight_def path_depth_def Suc_diff_le)
  finally show ?thesis .
qed

function (sequential) path_loop ::
    "adjacency_index \<Rightarrow> string list \<Rightarrow> nat \<Rightarrow> bool \<Rightarrow> path_entry list \<Rightarrow> nat option \<Rightarrow> shortest_path list \<Rightarrow> shortest_path list" where
  "path_loop bySubject targets maxDepth allShortest [] shortest results = results"
| "path_loop bySubject targets maxDepth allShortest (current # queue) shortest results =
     (if (case shortest of Some s \<Rightarrow> path_depth current > s | None \<Rightarrow> False)
      then path_loop bySubject targets maxDepth allShortest queue shortest results
      else if path_depth current > 0 \<and> last (pe_subjects current) \<in> set targets then
        (if \<not> allShortest then results @ [path_result current]
         else path_loop bySubject targets maxDepth allShortest queue (Some (path_depth current)) (results @ [path_result current]))
      else if path_depth current \<ge> maxDepth then path_loop bySubject targets maxDepth allShortest queue shortest results
      else path_loop bySubject targets maxDepth allShortest (queue @ path_steps bySubject current) shortest results)"
  by pat_completeness auto
termination
proof (relation "measure (\<lambda>(m, _, mx, _, q, _, _). sum_list (map (path_weight m mx) q))", goal_cases)
  case (5 m targets mx all p q shortest results)
  then show ?case using path_steps_weight [of p mx m] by simp
qed (simp_all add: path_weight_def)

record path_options =
  po_direction :: direction
  po_max_depth :: int
  po_all_shortest :: bool
  po_relation_kinds :: "string list option"

definition findShortestPaths ::
    "(string \<Rightarrow> string \<Rightarrow> int) \<Rightarrow> relation_edge list \<Rightarrow> string list \<Rightarrow> string list \<Rightarrow> path_options \<Rightarrow> query_error + shortest_path list" where
  "findShortestPaths localeCompare edges sources targets options =
     (if \<not> safe_integer (po_max_depth options) \<or> po_max_depth options < 0 then Inl BudgetInvalid
      else
        let relationKinds = kinds_of (po_relation_kinds options);
            start = map (\<lambda>subject. \<lparr>pe_subjects = [subject], pe_relations = [], pe_classes = []\<rparr>) sources
        in Inr (sort_by (\<lambda>left right. localeCompare (sp_sort_key left) (sp_sort_key right))
             (path_loop (adjacency edges (po_direction options) relationKinds) targets (nat (po_max_depth options)) (po_all_shortest options) start None [])))"

end
