(* ===== verification/Query_Graph.thy ===== *)
theory Query_Graph
  imports Query_Relations
begin

text \<open>
  Correctness of the relation operators against walks in the graph that the edges, the direction and
  the relation kinds describe: the expansion returns every subject at its distance from the roots,
  and the path search returns the shortest simple paths.
\<close>

section \<open>The graph of the edges\<close>

definition kind_ok :: "string list \<Rightarrow> relation_edge \<Rightarrow> bool" where
  "kind_ok kinds e \<longleftrightarrow> kinds = [] \<or> e_kind e \<in> set kinds"

text \<open>The steps the options allow, each with the relation kind and class it carries.\<close>

definition links :: "relation_edge list \<Rightarrow> direction \<Rightarrow> string list \<Rightarrow> (string \<times> string) set" where
  "links edges dir kinds =
     {(u, v). \<exists>e \<in> set edges. kind_ok kinds e \<and>
        (dir \<noteq> Inbound \<and> e_source e = u \<and> e_target e = v \<or> dir \<noteq> Outbound \<and> u \<noteq> v \<and> e_target e = u \<and> e_source e = v)}"

lemma edges_of_add: "edges_of (add_edge s e m) t = (if s = t then edges_of m t @ [e] else edges_of m t)"
  by (auto simp: edges_of_def add_edge_def jget_or_def split: option.splits)

definition edge_steps :: "direction \<Rightarrow> string list \<Rightarrow> relation_edge \<Rightarrow> string \<Rightarrow> relation_edge list" where
  "edge_steps dir kinds e u =
     (if kind_ok kinds e
      then (if dir \<noteq> Inbound \<and> e_source e = u then [e] else [])
        @ (if dir \<noteq> Outbound \<and> e_target e \<noteq> e_source e \<and> e_target e = u then [e\<lparr>e_source := e_target e, e_target := e_source e\<rparr>] else [])
      else [])"

lemma edges_of_index: "edges_of (index_edge dir kinds e m) u = edges_of m u @ edge_steps dir kinds e u"
  by (cases dir) (auto simp: index_edge_def edge_steps_def kind_ok_def edges_of_add Let_def)

lemma edges_of_adjacency: "edges_of (adjacency edges dir kinds) u = concat (map (\<lambda>e. edge_steps dir kinds e u) edges)"
proof -
  have "edges_of (fold (index_edge dir kinds) edges m) u = edges_of m u @ concat (map (\<lambda>e. edge_steps dir kinds e u) edges)" for m
    by (induction edges arbitrary: m) (simp_all add: edges_of_index)
  then show ?thesis by (simp add: adjacency_def edges_of_def)
qed

lemma edge_steps_targets:
  "e_target ` set (edge_steps dir kinds e u) = {v. kind_ok kinds e \<and>
     (dir \<noteq> Inbound \<and> e_source e = u \<and> e_target e = v \<or> dir \<noteq> Outbound \<and> u \<noteq> v \<and> e_target e = u \<and> e_source e = v)}"
  by (auto simp: edge_steps_def)

lemma adjacency_links: "e_target ` set (edges_of (adjacency edges dir kinds) u) = {v. (u, v) \<in> links edges dir kinds}"
  by (simp add: edges_of_adjacency image_UN edge_steps_targets links_def) blast

section \<open>Distance\<close>

definition distance :: "('a \<times> 'a) set \<Rightarrow> 'a set \<Rightarrow> 'a \<Rightarrow> nat \<Rightarrow> bool" where
  "distance R S v d \<longleftrightarrow> (\<exists>u \<in> S. (u, v) \<in> R ^^ d) \<and> (\<forall>d' < d. \<forall>u \<in> S. (u, v) \<notin> R ^^ d')"

lemma distance_unique: "distance R S v d \<Longrightarrow> distance R S v d' \<Longrightarrow> d = d'"
  unfolding distance_def by (meson linorder_neqE_nat)

lemma distance_zero: "distance R S v 0 \<longleftrightarrow> v \<in> S"
  by (auto simp: distance_def)

lemma distance_pred:
  assumes "distance R S v (Suc d)"
  obtains u where "distance R S u d" "(u, v) \<in> R"
proof -
  obtain r u where r: "r \<in> S" "(r, u) \<in> R ^^ d" "(u, v) \<in> R" using assms unfolding distance_def by (meson relpow_Suc_E)
  have "(s, u) \<notin> R ^^ d'" if "d' < d" "s \<in> S" for d' s
  proof
    assume "(s, u) \<in> R ^^ d'"
    then have "(s, v) \<in> R ^^ Suc d'" using r(3) by (rule relpow_Suc_I)
    then show False using assms that unfolding distance_def by (meson Suc_less_eq)
  qed
  then have "distance R S u d" using r(1,2) unfolding distance_def by blast
  then show thesis using r(3) by (rule that)
qed

lemma distance_exists: "(\<exists>u \<in> S. (u, v) \<in> R ^^ n) \<Longrightarrow> \<exists>d \<le> n. distance R S v d"
proof -
  let ?P = "\<lambda>d. \<exists>u \<in> S. (u, v) \<in> R ^^ d"
  assume "?P n"
  then have "?P (LEAST d. ?P d)" by (rule LeastI)
  moreover have "(LEAST d. ?P d) \<le> n" using \<open>?P n\<close> by (rule Least_le)
  moreover have "\<not> ?P d" if "d < (LEAST d. ?P d)" for d using that by (rule not_less_Least)
  ultimately show ?thesis unfolding distance_def by blast
qed

lemma distance_succ:
  assumes "distance R S u d" and "(u, v) \<in> R"
  obtains d' where "d' \<le> Suc d" "distance R S v d'"
proof -
  have "\<exists>r \<in> S. (r, v) \<in> R ^^ Suc d" using assms unfolding distance_def by (meson relpow_Suc_I)
  then have "\<exists>d' \<le> Suc d. distance R S v d'" by (rule distance_exists)
  then show thesis using that by blast
qed

section \<open>Breadth-first expansion\<close>

fun fresh :: "relation_edge list \<Rightarrow> string set \<Rightarrow> relation_edge list" where
  "fresh [] A = []"
| "fresh (e # es) A = (if e_target e \<in> A then fresh es A else e # fresh es (insert (e_target e) A))"

lemma fresh_targets: "e_target ` set (fresh es A) = e_target ` set es - A"
  by (induction es A rule: fresh.induct) auto

lemma fresh_distinct: "distinct (map e_target (fresh es A))"
proof (induction es A rule: fresh.induct)
  case (2 e es A)
  have "e_target e \<notin> e_target ` set (fresh es (insert (e_target e) A))" by (simp add: fresh_targets)
  then show ?case using 2 by auto
qed simp

lemma visit_edges_fresh:
  "visit_edges d mn es (q, seen, found) =
     (q @ map (\<lambda>e. (e_target e, d)) (fresh es (set seen)), seen @ map e_target (fresh es (set seen)),
      found @ (if d \<ge> mn then map (expanded d) (fresh es (set seen)) else []))"
  by (induction d mn es "(q, seen, found)" arbitrary: q seen found rule: visit_edges.induct) simp_all

text \<open>
  The invariant of the loop: queued subjects carry their distance, in order and at most one level
  apart; every subject up to the level of the head has been seen; the successors of the subjects read so far have been seen.
\<close>

definition frontier_ok :: "(string \<times> string) set \<Rightarrow> string set \<Rightarrow> nat \<Rightarrow> frontier \<Rightarrow> string set \<Rightarrow> bool" where
  "frontier_ok R S mx q A \<longleftrightarrow>
     (\<forall>u d. (u, d) \<in> set q \<longrightarrow> distance R S u d \<and> u \<in> A \<and> d \<le> mx)
   \<and> sorted (map snd q) \<and> (\<forall>u d. (u, d) \<in> set q \<longrightarrow> d \<le> Suc (snd (hd q)))
   \<and> (\<forall>v d. q \<noteq> [] \<longrightarrow> distance R S v d \<longrightarrow> d \<le> snd (hd q) \<longrightarrow> v \<in> A)"

definition seen_ok :: "(string \<times> string) set \<Rightarrow> string set \<Rightarrow> nat \<Rightarrow> frontier \<Rightarrow> string set \<Rightarrow> bool" where
  "seen_ok R S mx q A \<longleftrightarrow>
     S \<subseteq> A \<and> (\<forall>v \<in> A. \<exists>d \<le> mx. distance R S v d)
   \<and> (\<forall>u d v. u \<in> A \<longrightarrow> distance R S u d \<longrightarrow> d < mx \<longrightarrow> u \<notin> fst ` set q \<longrightarrow> (u, v) \<in> R \<longrightarrow> v \<in> A)"

definition found_ok :: "(string \<times> string) set \<Rightarrow> string set \<Rightarrow> nat \<Rightarrow> frontier \<Rightarrow> string set \<Rightarrow> expanded_relation list \<Rightarrow> bool" where
  "found_ok R S mn q A found \<longleftrightarrow>
     distinct (map x_subject found) \<and> sorted (map x_depth found)
   \<and> (\<forall>x \<in> set found. q \<noteq> [] \<longrightarrow> x_depth x \<le> Suc (snd (hd q)))
   \<and> (\<forall>v d. (\<exists>x \<in> set found. x_subject x = v \<and> x_depth x = d) \<longleftrightarrow> v \<in> A \<and> v \<notin> S \<and> distance R S v d \<and> mn \<le> d)"

definition bfs_inv :: "(string \<times> string) set \<Rightarrow> string set \<Rightarrow> nat \<Rightarrow> nat \<Rightarrow> frontier \<Rightarrow> string set \<Rightarrow> expanded_relation list \<Rightarrow> bool" where
  "bfs_inv R S mn mx q A found \<longleftrightarrow> frontier_ok R S mx q A \<and> seen_ok R S mx q A \<and> found_ok R S mn q A found"

lemma frontierD:
  assumes "frontier_ok R S mx ((u, d) # q) A"
  shows "distance R S u d" "u \<in> A" "d \<le> mx"
    and "\<And>v e. (v, e) \<in> set q \<Longrightarrow> distance R S v e \<and> v \<in> A \<and> e \<le> mx \<and> d \<le> e \<and> e \<le> Suc d"
    and "\<And>v e. distance R S v e \<Longrightarrow> e \<le> d \<Longrightarrow> v \<in> A"
    and "sorted (map snd q)"
  using assms unfolding frontier_ok_def by (simp, simp, simp, force, auto)

lemma frontierI:
  assumes "\<And>v e. (v, e) \<in> set q \<Longrightarrow> distance R S v e \<and> v \<in> A \<and> e \<le> mx"
    and "sorted (map snd q)" and "\<And>v e. (v, e) \<in> set q \<Longrightarrow> e \<le> Suc (snd (hd q))"
    and "\<And>v e. q \<noteq> [] \<Longrightarrow> distance R S v e \<Longrightarrow> e \<le> snd (hd q) \<Longrightarrow> v \<in> A"
  shows "frontier_ok R S mx q A"
  unfolding frontier_ok_def using assms by blast

lemma bfs_skip:
  assumes "bfs_inv R S mn mx ((u, d) # q) A found" and "mx \<le> d"
  shows "bfs_inv R S mn mx q A found"
proof -
  have f: "frontier_ok R S mx ((u, d) # q) A" and s: "seen_ok R S mx ((u, d) # q) A" and o: "found_ok R S mn ((u, d) # q) A found"
    using assms(1) by (simp_all add: bfs_inv_def)
  note F = frontierD [OF f]
  have q: "e = d" if "(v, e) \<in> set q" for v e using F(4) [OF that] assms(2) by linarith
  have hd: "q \<noteq> [] \<Longrightarrow> snd (hd q) = d" using q [of "fst (hd q)" "snd (hd q)"] by (cases q) auto
  have "frontier_ok R S mx q A"
  proof (rule frontierI)
    show "e \<le> Suc (snd (hd q))" if "(v, e) \<in> set q" for v e using q [OF that] hd that by (cases q) auto
    show "v \<in> A" if "q \<noteq> []" "distance R S v e" "e \<le> snd (hd q)" for v e using F(5) [OF that(2)] that hd by simp
  qed (use F in blast)+
  moreover have "seen_ok R S mx q A"
    unfolding seen_ok_def
  proof (intro conjI allI impI)
    fix w e v assume w: "w \<in> A" "distance R S w e" "e < mx" "w \<notin> fst ` set q" "(w, v) \<in> R"
    have "w \<noteq> u" using distance_unique [OF F(1)] w(2,3) assms(2) by auto
    then have "w \<notin> fst ` set ((u, d) # q)" using w(4) by auto
    then show "v \<in> A" using s w unfolding seen_ok_def by blast
  qed (use s in \<open>auto simp: seen_ok_def\<close>)
  moreover have "found_ok R S mn q A found"
    using o hd unfolding found_ok_def by auto
  ultimately show ?thesis by (simp add: bfs_inv_def)
qed

lemma found_okD: "found_ok R S mn q A found \<Longrightarrow> x \<in> set found \<Longrightarrow> x_subject x \<in> A \<and> (q \<noteq> [] \<longrightarrow> x_depth x \<le> Suc (snd (hd q)))"
  unfolding found_ok_def by blast

lemma found_extend:
  assumes "found_ok R S mn ((u, d) # q) A found" and "\<And>v. v \<in> e_target ` set ns \<Longrightarrow> distance R S v (Suc d)"
    and "e_target ` set ns \<inter> A = {}" and "S \<subseteq> A" and "distinct (map e_target ns)" and "q' \<noteq> [] \<Longrightarrow> d \<le> snd (hd q')"
  shows "found_ok R S mn q' (A \<union> e_target ` set ns) (found @ (if Suc d \<ge> mn then map (expanded (Suc d)) ns else []))"
proof -
  let ?ns = "if Suc d \<ge> mn then map (expanded (Suc d)) ns else []"
  have depth: "x_depth x \<le> Suc d" and sub: "x_subject x \<in> A" if "x \<in> set found" for x
    using found_okD [OF assms(1) that] by auto
  have nd: "x_depth x = Suc d" "x_subject x \<in> e_target ` set ns" if "x \<in> set ?ns" for x
    using that by (auto simp: expanded_def split: if_splits)
  have "distinct (map x_subject (found @ ?ns))"
  proof -
    have "distinct (map x_subject ?ns)" using assms(5) by (simp add: comp_def expanded_def)
    moreover have "x_subject ` set found \<subseteq> A" using sub by (intro image_subsetI)
    moreover have "x_subject ` set ?ns \<subseteq> e_target ` set ns" using nd(2) by (intro image_subsetI)
    ultimately have "distinct (map x_subject ?ns)" "x_subject ` set found \<inter> x_subject ` set ?ns = {}" using assms(3) by blast+
    then show ?thesis using assms(1) unfolding found_ok_def by simp
  qed
  moreover have "sorted (map x_depth (found @ ?ns))"
    using assms(1) depth nd(1) unfolding found_ok_def by (auto simp: sorted_append comp_def expanded_def map_replicate_const)
  moreover have "\<forall>x \<in> set (found @ ?ns). q' \<noteq> [] \<longrightarrow> x_depth x \<le> Suc (snd (hd q'))"
    using depth nd(1) assms(6) by fastforce
  moreover have "(\<exists>x \<in> set (found @ ?ns). x_subject x = v \<and> x_depth x = e) \<longleftrightarrow> v \<in> A \<union> e_target ` set ns \<and> v \<notin> S \<and> distance R S v e \<and> mn \<le> e" for v e
  proof (cases "v \<in> e_target ` set ns")
    case True
    have e: "distance R S v e \<longleftrightarrow> e = Suc d" using distance_unique assms(2) [OF True] by metis
    have v: "v \<notin> A" "v \<notin> S" using True assms(3,4) by blast+
    obtain y where y: "y \<in> set ns" "v = e_target y" using True by blast
    then have "mn \<le> Suc d \<Longrightarrow> expanded (Suc d) y \<in> set ?ns" "x_subject (expanded (Suc d) y) = v" "x_depth (expanded (Suc d) y) = Suc d"
      by (simp_all add: expanded_def)
    moreover have "x \<in> set ?ns \<Longrightarrow> mn \<le> Suc d" for x by (simp split: if_splits)
    moreover have "x \<notin> set found" if "x_subject x = v" for x using sub v(1) that by blast
    ultimately have "(\<exists>x \<in> set (found @ ?ns). x_subject x = v \<and> x_depth x = e) \<longleftrightarrow> e = Suc d \<and> mn \<le> Suc d"
      using nd(1) by (metis Un_iff set_append)
    then show ?thesis using e v True by auto
  next
    case False
    then have "(\<exists>x \<in> set (found @ ?ns). x_subject x = v \<and> x_depth x = e) \<longleftrightarrow> (\<exists>x \<in> set found. x_subject x = v \<and> x_depth x = e)"
      using nd(2) by auto
    then show ?thesis using assms(1) False unfolding found_ok_def by simp
  qed
  ultimately show ?thesis unfolding found_ok_def by blast
qed

lemma bfs_visit:
  assumes inv: "bfs_inv R S mn mx ((u, d) # q) A found" and lt: "d < mx"
    and succ: "e_target ` set es = {v. (u, v) \<in> R}"
  defines "ns \<equiv> fresh es A"
  shows "bfs_inv R S mn mx (q @ map (\<lambda>e. (e_target e, Suc d)) ns) (A \<union> e_target ` set ns)
           (found @ (if Suc d \<ge> mn then map (expanded (Suc d)) ns else []))"
proof -
  let ?q = "q @ map (\<lambda>e. (e_target e, Suc d)) ns" and ?A = "A \<union> e_target ` set ns"
  have f: "frontier_ok R S mx ((u, d) # q) A" and s: "seen_ok R S mx ((u, d) # q) A" and o: "found_ok R S mn ((u, d) # q) A found"
    using inv by (simp_all add: bfs_inv_def)
  note F = frontierD [OF f]
  have new: "e_target ` set ns = {v. (u, v) \<in> R} - A" unfolding ns_def fresh_targets succ ..
  have dist: "distance R S v (Suc d)" if "v \<in> e_target ` set ns" for v
  proof -
    have v: "(u, v) \<in> R" "v \<notin> A" using that new by auto
    obtain d' where d': "d' \<le> Suc d" "distance R S v d'" by (rule distance_succ [OF F(1) v(1)])
    then have "\<not> d' \<le> d" using F(5) v(2) by blast
    then show ?thesis using d' by (simp add: le_Suc_eq)
  qed
  have level: "?q \<noteq> [] \<Longrightarrow> d \<le> snd (hd ?q) \<and> snd (hd ?q) \<le> Suc d"
    using F(4) [of "fst (hd q)" "snd (hd q)"] by (cases q) (auto simp: hd_map)
  have dq: "distance R S v e" if "(v, e) \<in> set ?q" for v e using that F(4) dist by auto
  have qs: "d \<le> e \<and> e \<le> Suc d" if "(v, e) \<in> set ?q" for v e using that F(4) by auto
  have "\<forall>x \<in> set q. snd x \<le> Suc d" using F(4) by (metis prod.collapse)
  then have sorted: "sorted (map snd ?q)" using F(6) by (auto simp: sorted_append comp_def map_replicate_const)
  have closed: "v \<in> ?A" if "(w, v) \<in> R" "w \<in> A" "distance R S w e" "e < mx" "w \<notin> fst ` set ?q" for w e v
  proof (cases "w = u")
    case True
    then show ?thesis using that new by blast
  next
    case False
    then have "w \<notin> fst ` set ((u, d) # q)" using that(5) by auto
    then show ?thesis using s that unfolding seen_ok_def by blast
  qed
  have "frontier_ok R S mx ?q ?A"
  proof (rule frontierI)
    show "distance R S v e \<and> v \<in> ?A \<and> e \<le> mx" if "(v, e) \<in> set ?q" for v e
      using that F(4) dist lt by auto
    show "sorted (map snd ?q)" by (rule sorted)
    show "e \<le> Suc (snd (hd ?q))" if "(v, e) \<in> set ?q" for v e using qs [OF that] level that by fastforce
    show "v \<in> ?A" if q: "?q \<noteq> []" and v: "distance R S v e" and e: "e \<le> snd (hd ?q)" for v e
    proof (cases "e \<le> d")
      case True
      then show ?thesis using F(5) [OF v] by simp
    next
      case False
      then have e': "e = Suc d" "snd (hd ?q) = Suc d" using e level [OF q] by auto
      obtain w where w: "distance R S w d" "(w, v) \<in> R" using distance_pred v e'(1) by metis
      have "Suc d \<le> k" if "(w, k) \<in> set ?q" for k using that sorted e'(2) q by (cases ?q) auto
      then have "(w, k) \<notin> set ?q" for k using distance_unique [OF w(1) dq] by fastforce
      then have "w \<notin> fst ` set ?q" by force
      then show ?thesis using closed w F(5) [OF w(1)] lt by blast
    qed
  qed
  moreover have "seen_ok R S mx ?q ?A"
    unfolding seen_ok_def
  proof (intro conjI allI impI ballI)
    show "S \<subseteq> ?A" using s by (auto simp: seen_ok_def)
    show "\<exists>d \<le> mx. distance R S v d" if "v \<in> ?A" for v using that s dist lt unfolding seen_ok_def by (meson Suc_leI Un_iff)
    fix w e v assume w: "w \<in> ?A" "distance R S w e" "e < mx" "w \<notin> fst ` set ?q" "(w, v) \<in> R"
    have "fst ` set ?q = fst ` set q \<union> e_target ` set ns" by (simp add: image_Un image_image)
    then have "w \<in> A" using w(1,4) by blast
    then show "v \<in> ?A" using closed w by blast
  qed
  moreover have "found_ok R S mn ?q ?A (found @ (if Suc d \<ge> mn then map (expanded (Suc d)) ns else []))"
    using o dist new s level by (intro found_extend) (auto simp: seen_ok_def fresh_distinct ns_def)
  ultimately show ?thesis by (simp add: bfs_inv_def)
qed

lemma bfs_found:
  "bfs_inv R S mn mx q A found \<Longrightarrow> (\<exists>x \<in> set found. x_subject x = v \<and> x_depth x = d) \<longleftrightarrow> v \<in> A \<and> v \<notin> S \<and> distance R S v d \<and> mn \<le> d"
  unfolding bfs_inv_def found_ok_def by simp

lemma bfs_order: "bfs_inv R S mn mx q A found \<Longrightarrow> distinct (map x_subject found) \<and> sorted (map x_depth found)"
  unfolding bfs_inv_def found_ok_def by simp

lemma bfs_seen:
  assumes "bfs_inv R S mn mx q A found" and "v \<in> A"
  obtains d where "d \<le> mx" "distance R S v d"
  using assms unfolding bfs_inv_def seen_ok_def by blast

lemma bfs_done:
  assumes "bfs_inv R S mn mx [] A found" and "distance R S v d" and "d \<le> mx"
  shows "v \<in> A"
  using assms(2,3)
proof (induction d arbitrary: v)
  case 0
  then show ?case using assms(1) by (auto simp: bfs_inv_def seen_ok_def distance_zero)
next
  case (Suc d)
  obtain u where u: "distance R S u d" "(u, v) \<in> R" by (rule distance_pred [OF Suc.prems(1)])
  then have "u \<in> A" using Suc by simp
  then show ?case using assms(1) u Suc.prems(2) unfolding bfs_inv_def seen_ok_def by fastforce
qed

lemma expand_loop_distance:
  assumes "\<forall>u. e_target ` set (edges_of m u) = {v. (u, v) \<in> R}" and "bfs_inv R S mn mx q (set seen) found"
  shows "\<exists>A. bfs_inv R S mn mx [] A (expand_loop m mn mx q seen found)"
  using assms
proof (induction m mn mx q seen found rule: expand_loop.induct)
  case (1 m mn mx seen found)
  then show ?case by auto
next
  case (2 m mn mx u d q seen found)
  show ?case
  proof (cases "mx \<le> d")
    case True
    then show ?thesis using 2(1) [OF True 2(3)] bfs_skip [OF 2(4) True] by simp
  next
    case False
    have "e_target ` set (edges_of m u) = {v. (u, v) \<in> R}" using 2(3) by blast
    then show ?thesis
      using 2(2) [OF False refl 2(3)] bfs_visit [OF 2(4), of "edges_of m u"] False by (simp add: visit_edges_fresh Let_def)
  qed
qed

lemma bfs_start:
  assumes "\<not> mx < mn"
  shows "bfs_inv R (set roots) mn mx (map (\<lambda>s. (s, 0)) roots) (set (js_uniq roots)) []"
proof -
  have hd: "roots \<noteq> [] \<Longrightarrow> snd (hd (map (\<lambda>s. (s, 0::nat)) roots)) = 0" by (cases roots) simp_all
  have "frontier_ok R (set roots) mx (map (\<lambda>s. (s, 0)) roots) (set roots)"
    by (rule frontierI) (auto simp: distance_zero comp_def map_replicate_const hd)
  moreover have "seen_ok R (set roots) mx (map (\<lambda>s. (s, 0)) roots) (set roots)"
    by (auto simp: seen_ok_def distance_zero image_image intro!: exI [of _ 0])
  moreover have "found_ok R (set roots) mn (map (\<lambda>s. (s, 0)) roots) (set roots) []"
    by (simp add: found_ok_def)
  ultimately show ?thesis by (simp add: bfs_inv_def)
qed

text \<open>
  C29. The bounded expansion is exact: with depth bounds that are safe integers, \<open>expandRelations\<close>
  returns, without duplicates and in order of depth, the subjects whose distance from the roots (along
  the edges of the selected kinds in the selected direction) lies between the bounds and is not zero, each at that distance.
\<close>

theorem expansion_exact:
  assumes "safe_integer (min_depth_of options)" and "0 \<le> min_depth_of options" and "safe_integer (max_depth_of options)"
    and "min_depth_of options \<le> max_depth_of options"
  shows "\<exists>found. expandRelations edges roots options = Inr found
    \<and> distinct (map x_subject found) \<and> sorted (map x_depth found)
    \<and> (\<forall>v d. (\<exists>x \<in> set found. x_subject x = v \<and> x_depth x = d) \<longleftrightarrow>
         0 < d \<and> min_depth_of options \<le> int d \<and> int d \<le> max_depth_of options
         \<and> distance (links edges (xo_direction options) (kinds_of (xo_relation_kinds options))) (set roots) v d)"
proof -
  let ?mn = "nat (min_depth_of options)" and ?mx = "nat (max_depth_of options)" and ?kinds = "kinds_of (xo_relation_kinds options)"
  let ?R = "links edges (xo_direction options) ?kinds" and ?m = "adjacency edges (xo_direction options) ?kinds"
  let ?found = "expand_loop ?m ?mn ?mx (map (\<lambda>s. (s, 0)) roots) (js_uniq roots) []"
  have run: "expandRelations edges roots options = Inr ?found"
    using assms by (simp add: expandRelations_def Let_def)
  have link: "\<forall>u. e_target ` set (edges_of ?m u) = {v. (u, v) \<in> ?R}" by (simp add: adjacency_links)
  have start: "bfs_inv ?R (set roots) ?mn ?mx (map (\<lambda>s. (s, 0)) roots) (set (js_uniq roots)) []"
    by (rule bfs_start) (use assms in simp)
  obtain A where A: "bfs_inv ?R (set roots) ?mn ?mx [] A ?found" using expand_loop_distance [OF link start] by blast
  have exact: "(\<exists>x \<in> set ?found. x_subject x = v \<and> x_depth x = d) \<longleftrightarrow> v \<in> A \<and> v \<notin> set roots \<and> distance ?R (set roots) v d \<and> ?mn \<le> d" for v d
    by (rule bfs_found [OF A])
  have seen: "v \<in> A \<longleftrightarrow> d \<le> ?mx" if "distance ?R (set roots) v d" for v d
  proof
    show "d \<le> ?mx" if "v \<in> A"
    proof -
      obtain e where "e \<le> ?mx" "distance ?R (set roots) v e" by (rule bfs_seen [OF A \<open>v \<in> A\<close>])
      then show ?thesis using distance_unique [OF \<open>distance ?R (set roots) v d\<close>] by simp
    qed
  qed (rule bfs_done [OF A that])
  have root: "v \<notin> set roots \<longleftrightarrow> 0 < d" if "distance ?R (set roots) v d" for v d
    using distance_unique [OF that] distance_zero [of ?R "set roots" v] that by (metis gr0I less_numeral_extra(3))
  have "(\<exists>x \<in> set ?found. x_subject x = v \<and> x_depth x = d) \<longleftrightarrow>
      0 < d \<and> min_depth_of options \<le> int d \<and> int d \<le> max_depth_of options \<and> distance ?R (set roots) v d" for v d
  proof -
    have "?mn \<le> d \<longleftrightarrow> min_depth_of options \<le> int d" "d \<le> ?mx \<longleftrightarrow> int d \<le> max_depth_of options" using assms(2,4) by linarith+
    then show ?thesis unfolding exact using seen root by blast
  qed
  moreover have "distinct (map x_subject ?found)" "sorted (map x_depth ?found)" using bfs_order [OF A] by simp_all
  ultimately show ?thesis using run by blast
qed

section \<open>Shortest paths\<close>

text \<open>The steps that leave a subject, and the path a list of steps describes.\<close>

definition steps_from :: "relation_edge list \<Rightarrow> direction \<Rightarrow> string list \<Rightarrow> string \<Rightarrow> relation_edge list" where
  "steps_from edges dir kinds u = concat (map (\<lambda>e. edge_steps dir kinds e u) edges)"

fun follows :: "(string \<Rightarrow> relation_edge list) \<Rightarrow> string \<Rightarrow> relation_edge list \<Rightarrow> bool" where
  "follows step s [] \<longleftrightarrow> True"
| "follows step s (e # es) \<longleftrightarrow> e \<in> set (step s) \<and> follows step (e_target e) es"

definition path_of :: "string \<Rightarrow> relation_edge list \<Rightarrow> path_entry" where
  "path_of s es = \<lparr>pe_subjects = s # map e_target es, pe_relations = map e_kind es, pe_classes = map e_class es\<rparr>"

text \<open>A simple path from a source, and one that ends in a target within the depth bound.\<close>

definition simple_path :: "(string \<Rightarrow> relation_edge list) \<Rightarrow> string list \<Rightarrow> string \<Rightarrow> relation_edge list \<Rightarrow> bool" where
  "simple_path step sources s es \<longleftrightarrow> s \<in> set sources \<and> follows step s es \<and> distinct (s # map e_target es)"

definition solution :: "(string \<Rightarrow> relation_edge list) \<Rightarrow> string list \<Rightarrow> string list \<Rightarrow> nat \<Rightarrow> string \<Rightarrow> relation_edge list \<Rightarrow> bool" where
  "solution step sources targets mx s es \<longleftrightarrow>
     simple_path step sources s es \<and> es \<noteq> [] \<and> e_target (last es) \<in> set targets \<and> length es \<le> mx"

definition shortest_solution :: "(string \<Rightarrow> relation_edge list) \<Rightarrow> string list \<Rightarrow> string list \<Rightarrow> nat \<Rightarrow> string \<Rightarrow> relation_edge list \<Rightarrow> bool" where
  "shortest_solution step sources targets mx s es \<longleftrightarrow>
     solution step sources targets mx s es \<and> (\<forall>s' es'. solution step sources targets mx s' es' \<longrightarrow> length es \<le> length es')"

lemma path_of_simps [simp]:
  "path_depth (path_of s es) = length es" "pe_subjects (path_of s es) = s # map e_target es"
  by (simp_all add: path_of_def path_depth_def)

lemma extend_path_of: "extend_path (path_of s es) e = path_of s (es @ [e])"
  by (simp add: extend_path_def path_of_def)

lemma last_subject: "last (s # map e_target es) = (if es = [] then s else e_target (last es))"
  by (induction es arbitrary: s) auto

lemma follows_append: "follows step s (es @ fs) \<longleftrightarrow> follows step s es \<and> follows step (last (s # map e_target es)) fs"
  by (induction es arbitrary: s) auto

lemma path_steps_of:
  "set (path_steps m (path_of s es)) =
     {path_of s (es @ [e]) | e. e \<in> set (edges_of m (last (s # map e_target es))) \<and> e_target e \<notin> set (s # map e_target es)}"
  by (auto simp: path_steps_def extend_path_of image_iff)

lemma simple_path_step:
  "simple_path (edges_of m) sources s es \<Longrightarrow> p \<in> set (path_steps m (path_of s es)) \<Longrightarrow> \<exists>e. p = path_of s (es @ [e]) \<and> simple_path (edges_of m) sources s (es @ [e])"
  by (auto simp: path_steps_of simple_path_def follows_append)

lemma simple_path_next:
  assumes "simple_path (edges_of m) sources s (es @ e # fs)"
  shows "path_of s (es @ [e]) \<in> set (path_steps m (path_of s es))"
  using assms by (auto simp: path_steps_of simple_path_def follows_append)

lemma shortest_exists:
  assumes "solution step sources targets mx s es"
  obtains s' es' where "shortest_solution step sources targets mx s' es'" "length es' \<le> length es"
proof -
  let ?P = "\<lambda>n. \<exists>s es. solution step sources targets mx s es \<and> length es = n"
  have "?P (length es)" using assms by blast
  then have "?P (LEAST n. ?P n)" by (rule LeastI)
  then obtain s' es' where s': "solution step sources targets mx s' es'" "length es' = (LEAST n. ?P n)" by blast
  have "(LEAST n. ?P n) \<le> length es''" if "solution step sources targets mx s'' es''" for s'' es''
    by (rule Least_le) (use that in blast)
  then have "shortest_solution step sources targets mx s' es'" "length es' \<le> length es" using s' assms unfolding shortest_solution_def by simp_all
  then show thesis by (rule that)
qed

lemma shortest_length:
  "shortest_solution step sources targets mx s es \<Longrightarrow> shortest_solution step sources targets mx s' es' \<Longrightarrow> length es = length es'"
  unfolding shortest_solution_def by (meson le_antisym)

section \<open>The invariant of the path search\<close>

text \<open>
  The queue holds simple paths in order of their length, at most one step apart; every shortest
  solution is among the results or has a prefix in the queue.
\<close>

definition queue_ok :: "adjacency_index \<Rightarrow> string list \<Rightarrow> nat \<Rightarrow> path_entry list \<Rightarrow> bool" where
  "queue_ok m sources mx q \<longleftrightarrow> (\<forall>p \<in> set q. \<exists>s es. p = path_of s es \<and> simple_path (edges_of m) sources s es \<and> length es \<le> mx)
     \<and> sorted (map path_depth q) \<and> (\<forall>p \<in> set q. path_depth p \<le> Suc (path_depth (hd q)))"

definition covered :: "adjacency_index \<Rightarrow> string list \<Rightarrow> string list \<Rightarrow> nat \<Rightarrow> path_entry list \<Rightarrow> shortest_path list \<Rightarrow> bool" where
  "covered m sources targets mx q rs \<longleftrightarrow> (\<forall>s es. shortest_solution (edges_of m) sources targets mx s es \<longrightarrow> path_result (path_of s es) \<in> set rs \<or> (\<exists>n \<le> length es. path_of s (take n es) \<in> set q))"

definition results_ok :: "adjacency_index \<Rightarrow> string list \<Rightarrow> string list \<Rightarrow> nat \<Rightarrow> nat option \<Rightarrow> shortest_path list \<Rightarrow> bool" where
  "results_ok m sources targets mx shortest rs \<longleftrightarrow>
     (\<forall>r \<in> set rs. \<exists>s es. shortest_solution (edges_of m) sources targets mx s es \<and> r = path_result (path_of s es))
   \<and> (case shortest of None \<Rightarrow> rs = [] | Some k \<Rightarrow> \<exists>s es. shortest_solution (edges_of m) sources targets mx s es \<and> length es = k)"

definition search_ok :: "adjacency_index \<Rightarrow> string list \<Rightarrow> string list \<Rightarrow> nat \<Rightarrow> path_entry list \<Rightarrow> nat option \<Rightarrow> shortest_path list \<Rightarrow> bool" where
  "search_ok m sources targets mx q shortest rs \<longleftrightarrow> queue_ok m sources mx q \<and> covered m sources targets mx q rs \<and> results_ok m sources targets mx shortest rs"

lemma queue_tl: "queue_ok m sources mx (p # q) \<Longrightarrow> queue_ok m sources mx q"
  unfolding queue_ok_def by (cases q) (auto simp: le_Suc_eq dest: order_trans)

lemma queue_hd:
  assumes "queue_ok m sources mx (p # q)"
  obtains s es where "p = path_of s es" "simple_path (edges_of m) sources s es" "length es \<le> mx"
    "\<forall>p' \<in> set q. length es \<le> path_depth p' \<and> path_depth p' \<le> Suc (length es)"
proof -
  obtain s es where p: "p = path_of s es" "simple_path (edges_of m) sources s es" "length es \<le> mx" using assms by (auto simp: queue_ok_def)
  have "length es \<le> path_depth p' \<and> path_depth p' \<le> Suc (length es)" if "p' \<in> set q" for p'
    using assms that p by (auto simp: queue_ok_def)
  then show thesis using that p by blast
qed

text \<open>The first target that is read ends a shortest path.\<close>

lemma target_is_shortest:
  assumes ok: "search_ok m sources targets mx (path_of s es # q) shortest rs" and es: "es \<noteq> []" "e_target (last es) \<in> set targets"
    and open_: "case shortest of Some k \<Rightarrow> length es \<le> k | None \<Rightarrow> True"
    and p: "simple_path (edges_of m) sources s es" "length es \<le> mx"
    and q: "\<And>p'. p' \<in> set q \<Longrightarrow> length es \<le> path_depth p'"
  shows "shortest_solution (edges_of m) sources targets mx s es"
proof -
  have sol: "solution (edges_of m) sources targets mx s es" using es p by (simp add: solution_def)
  obtain s' es' where s': "shortest_solution (edges_of m) sources targets mx s' es'" "length es' \<le> length es" by (rule shortest_exists [OF sol])
  have "length es \<le> length es'"
  proof (cases shortest)
    case None
    then have "rs = []" using ok by (simp add: search_ok_def results_ok_def)
    then obtain n where n: "n \<le> length es'" "path_of s' (take n es') \<in> set (path_of s es # q)"
      using ok s'(1) unfolding search_ok_def covered_def by fastforce
    have "length es \<le> path_depth (path_of s' (take n es'))"
    proof (cases "path_of s' (take n es') \<in> set q")
      case False
      then have "path_of s' (take n es') = path_of s es" using n(2) by simp
      then show ?thesis by (metis order_refl path_of_simps(1))
    qed (rule q)
    then show ?thesis using n(1) by simp
  next
    case (Some k)
    then obtain t ts where "shortest_solution (edges_of m) sources targets mx t ts" "length ts = k"
      using ok unfolding search_ok_def results_ok_def by auto
    then have "k = length es'" using shortest_length [OF _ s'(1)] by blast
    then show ?thesis using open_ Some by simp
  qed
  then show ?thesis using sol s' unfolding shortest_solution_def by (meson order_trans)
qed

text \<open>When the head leaves the queue, only the shortest paths that have it as a prefix need attention.\<close>

lemma covered_step:
  assumes "covered m sources targets mx (p # q) rs" and "set rs \<subseteq> set rs'" and "set q \<subseteq> set q'"
    and "\<And>s es n. shortest_solution (edges_of m) sources targets mx s es \<Longrightarrow> n \<le> length es \<Longrightarrow> p = path_of s (take n es)
      \<Longrightarrow> path_result (path_of s es) \<in> set rs' \<or> (\<exists>k \<le> length es. path_of s (take k es) \<in> set q')"
  shows "covered m sources targets mx q' rs'"
  unfolding covered_def
proof (intro allI impI)
  fix s es assume short: "shortest_solution (edges_of m) sources targets mx s es"
  then consider "path_result (path_of s es) \<in> set rs" | n where "n \<le> length es" "p = path_of s (take n es)"
    | n where "n \<le> length es" "path_of s (take n es) \<in> set q"
    using assms(1) unfolding covered_def by fastforce
  then show "path_result (path_of s es) \<in> set rs' \<or> (\<exists>n \<le> length es. path_of s (take n es) \<in> set q')"
  proof cases
    case 2
    then show ?thesis using assms(4) [OF short] by blast
  qed (use assms(2,3) in blast)+
qed

lemma prefix_length: "path_of s es = path_of s' (take n es') \<Longrightarrow> n \<le> length es' \<Longrightarrow> length es = n"
  by (metis length_take min.absorb2 path_of_simps(1))

lemma shortest_ends:
  assumes "shortest_solution step sources targets mx s es"
  shows "es \<noteq> []" "e_target (last es) \<in> set targets" "length es \<le> mx" "simple_path step sources s es"
  using assms by (simp_all add: shortest_solution_def solution_def)

text \<open>A head that is no target is a proper prefix.\<close>

lemma proper_prefix:
  assumes "shortest_solution (edges_of m) sources targets mx s' es'" and "n \<le> length es'" and "path_of s es = path_of s' (take n es')"
    and "\<not> (0 < length es \<and> last (s # map e_target es) \<in> set targets)"
  shows "n < length es'"
proof (rule ccontr)
  assume "\<not> n < length es'"
  then have eq: "path_of s es = path_of s' es'" using assms(2,3) by simp
  then have "s # map e_target es = s' # map e_target es'" by (metis path_of_simps(2))
  moreover have "length es = length es'" using eq by (metis path_of_simps(1))
  ultimately show False using assms(4) shortest_ends [OF assms(1)] by (auto simp: last_map)
qed

lemma queue_extend:
  assumes "queue_ok m sources mx (path_of s es # q)" and "length es < mx" and es: "simple_path (edges_of m) sources s es"
    and q: "\<forall>p \<in> set q. length es \<le> path_depth p \<and> path_depth p \<le> Suc (length es)"
  shows "queue_ok m sources mx (q @ path_steps m (path_of s es))"
proof -
  have new: "\<exists>e. p = path_of s (es @ [e]) \<and> simple_path (edges_of m) sources s (es @ [e])" if "p \<in> set (path_steps m (path_of s es))" for p
    by (rule simple_path_step [OF es that])
  then have depth: "\<forall>p \<in> set (path_steps m (path_of s es)). path_depth p = Suc (length es)" by fastforce
  then have "map path_depth (path_steps m (path_of s es)) = replicate (length (path_steps m (path_of s es))) (Suc (length es))"
    by (simp add: map_replicate_const cong: map_cong)
  then have "sorted (map path_depth (q @ path_steps m (path_of s es)))"
    using assms(1) q depth by (simp add: queue_ok_def sorted_append)
  moreover have "path_depth p \<le> Suc (path_depth (hd (q @ path_steps m (path_of s es))))" if "p \<in> set (q @ path_steps m (path_of s es))" for p
  proof -
    have "length es \<le> path_depth (hd (q @ path_steps m (path_of s es)))"
      using q depth that by (cases q; cases "path_steps m (path_of s es)") auto
    moreover have "path_depth p \<le> Suc (length es)" using that q depth by auto
    ultimately show ?thesis by linarith
  qed
  moreover have "\<exists>s es. p = path_of s es \<and> simple_path (edges_of m) sources s es \<and> length es \<le> mx" if "p \<in> set (q @ path_steps m (path_of s es))" for p
    using that assms new by (fastforce simp: queue_ok_def)
  ultimately show ?thesis unfolding queue_ok_def by blast
qed

definition search_result :: "adjacency_index \<Rightarrow> string list \<Rightarrow> string list \<Rightarrow> nat \<Rightarrow> bool \<Rightarrow> shortest_path list \<Rightarrow> bool" where
  "search_result m sources targets mx every rs \<longleftrightarrow>
     (let best = {path_result (path_of s es) | s es. shortest_solution (edges_of m) sources targets mx s es}
      in if every then set rs = best else best = {} \<and> rs = [] \<or> (\<exists>r \<in> best. rs = [r]))"

lemma search_end: "search_ok m sources targets mx [] shortest rs \<Longrightarrow> every \<or> shortest = None \<Longrightarrow> search_result m sources targets mx every rs"
  by (auto simp: search_ok_def covered_def results_ok_def search_result_def Let_def; blast)

lemma search_skip:
  assumes ok: "search_ok m sources targets mx (path_of s es # q) (Some k) rs" and "k < length es"
  shows "search_ok m sources targets mx q (Some k) rs"
proof -
  obtain t ts where t: "shortest_solution (edges_of m) sources targets mx t ts" "length ts = k"
    using ok by (auto simp: search_ok_def results_ok_def)
  have "covered m sources targets mx q rs"
  proof (rule covered_step [where p = "path_of s es" and q = q and rs = rs])
    fix s' es' n assume a: "shortest_solution (edges_of m) sources targets mx s' es'" "n \<le> length es'" "path_of s es = path_of s' (take n es')"
    then have "length es \<le> k" using prefix_length [OF a(3,2)] shortest_length [OF a(1) t(1)] t(2) by simp
    then show "path_result (path_of s' es') \<in> set rs \<or> (\<exists>k \<le> length es'. path_of s' (take k es') \<in> set q)" using assms(2) by simp
  qed (use ok in \<open>auto simp: search_ok_def\<close>)
  then show ?thesis using ok queue_tl unfolding search_ok_def by blast
qed

lemma search_hit:
  assumes ok: "search_ok m sources targets mx (path_of s es # q) shortest rs" and short: "shortest_solution (edges_of m) sources targets mx s es"
  shows "search_ok m sources targets mx q (Some (length es)) (rs @ [path_result (path_of s es)])"
proof -
  have "covered m sources targets mx q (rs @ [path_result (path_of s es)])"
  proof (rule covered_step [where p = "path_of s es" and q = q and rs = rs])
    fix s' es' n assume a: "shortest_solution (edges_of m) sources targets mx s' es'" "n \<le> length es'" "path_of s es = path_of s' (take n es')"
    then have "n = length es'" using prefix_length [OF a(3,2)] shortest_length [OF a(1) short] by simp
    then show "path_result (path_of s' es') \<in> set (rs @ [path_result (path_of s es)]) \<or> (\<exists>k \<le> length es'. path_of s' (take k es') \<in> set q)"
      using a(3) by simp
  qed (use ok in \<open>auto simp: search_ok_def\<close>)
  moreover have "results_ok m sources targets mx (Some (length es)) (rs @ [path_result (path_of s es)])"
    using ok short by (auto simp: search_ok_def results_ok_def)
  ultimately show ?thesis using ok queue_tl unfolding search_ok_def by blast
qed

lemma search_drop:
  assumes ok: "search_ok m sources targets mx (path_of s es # q) shortest rs" and "mx \<le> length es"
    and miss: "\<not> (0 < length es \<and> last (s # map e_target es) \<in> set targets)"
  shows "search_ok m sources targets mx q shortest rs"
proof -
  have "covered m sources targets mx q rs"
  proof (rule covered_step [where p = "path_of s es" and q = q and rs = rs])
    fix s' es' n assume a: "shortest_solution (edges_of m) sources targets mx s' es'" "n \<le> length es'" "path_of s es = path_of s' (take n es')"
    then show "path_result (path_of s' es') \<in> set rs \<or> (\<exists>k \<le> length es'. path_of s' (take k es') \<in> set q)"
      using prefix_length [OF a(3,2)] proper_prefix [OF a miss] shortest_ends(3) [OF a(1)] assms(2) by simp
  qed (use ok in \<open>auto simp: search_ok_def\<close>)
  then show ?thesis using ok queue_tl unfolding search_ok_def by blast
qed

lemma search_extend:
  assumes ok: "search_ok m sources targets mx (path_of s es # q) shortest rs" and "length es < mx"
    and miss: "\<not> (0 < length es \<and> last (s # map e_target es) \<in> set targets)" and es: "simple_path (edges_of m) sources s es"
    and q: "\<forall>p \<in> set q. length es \<le> path_depth p \<and> path_depth p \<le> Suc (length es)"
  shows "search_ok m sources targets mx (q @ path_steps m (path_of s es)) shortest rs"
proof -
  have "covered m sources targets mx (q @ path_steps m (path_of s es)) rs"
  proof (rule covered_step [where p = "path_of s es" and q = q and rs = rs])
    fix s' es' n assume a: "shortest_solution (edges_of m) sources targets mx s' es'" "n \<le> length es'" "path_of s es = path_of s' (take n es')"
    have n: "n < length es'" by (rule proper_prefix [OF a miss])
    have "simple_path (edges_of m) sources s' (take n es' @ es' ! n # drop (Suc n) es')"
      using shortest_ends(4) [OF a(1)] n by (simp add: id_take_nth_drop [symmetric])
    then have "path_of s' (take (Suc n) es') \<in> set (path_steps m (path_of s es))"
      using simple_path_next a(3) n by (simp add: take_Suc_conv_app_nth)
    then show "path_result (path_of s' es') \<in> set rs \<or> (\<exists>k \<le> length es'. path_of s' (take k es') \<in> set (q @ path_steps m (path_of s es)))"
      using n by (intro disjI2 exI [of _ "Suc n"]) simp
  qed (use ok in \<open>auto simp: search_ok_def\<close>)
  moreover have "queue_ok m sources mx (q @ path_steps m (path_of s es))" using ok queue_extend assms(2) es q unfolding search_ok_def by blast
  ultimately show ?thesis using ok unfolding search_ok_def by blast
qed

lemma path_loop_shortest:
  "search_ok m sources targets mx q shortest rs \<Longrightarrow> every \<or> shortest = None \<Longrightarrow> search_result m sources targets mx every (path_loop m targets mx every q shortest rs)"
proof (induction m targets mx every q shortest rs rule: path_loop.induct)
  case (1 m targets mx every shortest rs)
  then show ?case using search_end by simp
next
  case (2 m targets mx every p q shortest rs)
  obtain s es where p: "p = path_of s es" and es: "simple_path (edges_of m) sources s es" "length es \<le> mx"
    and q: "\<forall>p \<in> set q. length es \<le> path_depth p \<and> path_depth p \<le> Suc (length es)"
    using 2(5) unfolding search_ok_def by (elim conjE, elim queue_hd)
  note ok = 2(5) [unfolded p]
  have depth: "path_depth p = length es" and last: "last (pe_subjects p) = last (s # map e_target es)" by (simp_all only: p path_of_simps)
  note IH = 2(1-4) [unfolded depth last] and loop = path_loop.simps(2) [of m targets mx every p q shortest rs, unfolded depth last]
  note first = 2(6)
  let ?skip = "case shortest of Some k \<Rightarrow> length es > k | None \<Rightarrow> False"
  let ?hit = "0 < length es \<and> last (s # map e_target es) \<in> set targets"
  consider (skip) ?skip | (hit) "\<not> ?skip" ?hit
    | (stop) "\<not> ?skip" "\<not> ?hit" "mx \<le> length es" | (more) "\<not> ?skip" "\<not> ?hit" "\<not> mx \<le> length es"
    by blast
  then show ?case
  proof cases
    case skip
    then obtain k where "shortest = Some k" "k < length es" by (cases shortest) auto
    then have "search_ok m sources targets mx q shortest rs" using search_skip [of m sources targets mx s es q k rs] ok by simp
    then show ?thesis using IH(1) [OF skip _ first] skip unfolding loop by simp
  next
    case hit
    then have "es \<noteq> []" "e_target (last es) \<in> set targets" by (auto simp: last_map)
    then have short: "shortest_solution (edges_of m) sources targets mx s es"
      using target_is_shortest [OF ok] es q hit(1) by (auto split: option.splits)
    note hit' = search_hit [OF ok short, folded p]
    have best: "\<exists>s es. path_result p = path_result (path_of s es) \<and> shortest_solution (edges_of m) sources targets mx s es" using short p by blast
    show ?thesis
    proof (cases every)
      case True
      then show ?thesis using IH(2) [OF hit _ hit'] hit unfolding loop by (auto simp del: last.simps)
    next
      case False
      then have "rs = []" using ok first by (simp add: search_ok_def results_ok_def)
      then show ?thesis using False hit best unfolding loop by (auto simp del: last.simps simp add: search_result_def Let_def)
    qed
  next
    case stop
    then show ?thesis using IH(3) [OF stop _ first] search_drop [OF ok stop(3,2)] unfolding loop by (auto simp del: last.simps)
  next
    case more
    have "search_ok m sources targets mx (q @ path_steps m p) shortest rs"
      using search_extend [OF ok _ more(2) es(1) q] more(3) p by simp
    then show ?thesis using IH(4) [OF more _ first] more unfolding loop by (auto simp del: last.simps)
  qed
qed

lemma sort_by_one: "xs = [] \<or> (\<exists>x. xs = [x]) \<Longrightarrow> sort_by cmp xs = xs"
  by (auto simp: sort_by_def)

lemma search_start:
  "search_ok m sources targets mx (map (\<lambda>s. \<lparr>pe_subjects = [s], pe_relations = [], pe_classes = []\<rparr>) sources) None []"
proof -
  have start: "(\<lambda>s. \<lparr>pe_subjects = [s], pe_relations = [], pe_classes = []\<rparr>) = (\<lambda>s. path_of s [])" by (simp add: path_of_def fun_eq_iff)
  have "covered m sources targets mx (map (\<lambda>s. path_of s []) sources) []"
    unfolding covered_def by (auto dest!: shortest_ends(4) simp: simple_path_def image_iff intro!: exI [of _ 0])
  moreover have "queue_ok m sources mx (map (\<lambda>s. path_of s []) sources)"
    by (auto simp: queue_ok_def simple_path_def comp_def map_replicate_const intro!: exI)
  ultimately show ?thesis unfolding search_ok_def start by (simp add: results_ok_def)
qed

text \<open>
  C31. The path search returns shortest paths: with a valid depth bound, \<open>findShortestPaths\<close> returns,
  when all are asked for, exactly the simple paths of least positive length from a source to a target
  within the bound (with their relation kinds and their weakest classification), otherwise one of
  them, and none only if no such path exists; for every collation of the result.
\<close>

theorem shortest_paths_exact:
  assumes "safe_integer (po_max_depth options)" and "0 \<le> po_max_depth options"
  shows "\<exists>paths. findShortestPaths localeCompare edges sources targets options = Inr paths
    \<and> (let best = {path_result (path_of s es) | s es.
           shortest_solution (steps_from edges (po_direction options) (kinds_of (po_relation_kinds options))) sources targets (nat (po_max_depth options)) s es}
       in if po_all_shortest options then set paths = best else best = {} \<and> paths = [] \<or> (\<exists>p \<in> best. paths = [p]))"
proof -
  let ?m = "adjacency edges (po_direction options) (kinds_of (po_relation_kinds options))" and ?mx = "nat (po_max_depth options)"
  let ?cmp = "\<lambda>left right. localeCompare (sp_sort_key left) (sp_sort_key right)"
  let ?q = "map (\<lambda>s. \<lparr>pe_subjects = [s], pe_relations = [], pe_classes = []\<rparr>) sources"
  let ?rs = "path_loop ?m targets ?mx (po_all_shortest options) ?q None []"
  have steps: "edges_of ?m = steps_from edges (po_direction options) (kinds_of (po_relation_kinds options))"
    by (simp add: fun_eq_iff edges_of_adjacency steps_from_def)
  have run: "findShortestPaths localeCompare edges sources targets options = Inr (sort_by ?cmp ?rs)"
    using assms by (simp add: findShortestPaths_def Let_def)
  have "search_result ?m sources targets ?mx (po_all_shortest options) ?rs" by (rule path_loop_shortest [OF search_start]) simp
  then have "search_result ?m sources targets ?mx (po_all_shortest options) (sort_by ?cmp ?rs)"
    unfolding search_result_def Let_def by (cases "po_all_shortest options") (auto simp: sort_by_one)
  then show ?thesis unfolding run search_result_def steps by simp
qed

definition sample_edges :: "relation_edge list" where
  "sample_edges =
    [\<lparr>e_source = ''a'', e_target = ''b'', e_kind = ''calls'', e_class = Confirmed, e_sort_key = None\<rparr>,
     \<lparr>e_source = ''b'', e_target = ''d'', e_kind = ''calls'', e_class = Possible, e_sort_key = None\<rparr>,
     \<lparr>e_source = ''a'', e_target = ''c'', e_kind = ''uses'', e_class = Confirmed, e_sort_key = None\<rparr>,
     \<lparr>e_source = ''c'', e_target = ''d'', e_kind = ''uses'', e_class = Confirmed, e_sort_key = None\<rparr>,
     \<lparr>e_source = ''d'', e_target = ''a'', e_kind = ''uses'', e_class = Confirmed, e_sort_key = None\<rparr>]"

definition sample_expansion :: expansion_options where
  "sample_expansion = \<lparr>xo_direction = Outbound, xo_min_depth = Some 1, xo_max_depth = Some 2, xo_relation_kinds = None\<rparr>"

definition sample_search :: path_options where
  "sample_search = \<lparr>po_direction = Outbound, po_max_depth = 3, po_all_shortest = True, po_relation_kinds = None\<rparr>"

theorem expansion_exact_witness:
  "map (\<lambda>x. (x_subject x, x_depth x)) (projr (expandRelations sample_edges [''a''] sample_expansion)) = [(''b'', 1), (''c'', 1), (''d'', 2)]
   \<and> distance (links sample_edges Outbound []) {''a''} ''d'' 2"
proof -
  have run: "map (\<lambda>x. (x_subject x, x_depth x)) (projr (expandRelations sample_edges [''a''] sample_expansion)) = [(''b'', 1), (''c'', 1), (''d'', 2)]"
    by code_simp
  obtain found where found: "expandRelations sample_edges [''a''] sample_expansion = Inr found"
    "\<forall>v d. (\<exists>x \<in> set found. x_subject x = v \<and> x_depth x = d) \<longleftrightarrow> 0 < d \<and> 1 \<le> int d \<and> int d \<le> 2 \<and> distance (links sample_edges Outbound []) {''a''} v d"
    using expansion_exact [of sample_expansion sample_edges "[''a'']"]
    by (auto simp: sample_expansion_def min_depth_of_def max_depth_of_def kinds_of_def safe_integer_def)
  have "(''d'', 2) \<in> set (map (\<lambda>x. (x_subject x, x_depth x)) found)" using run found(1) by simp
  then have "\<exists>x \<in> set found. x_subject x = ''d'' \<and> x_depth x = 2" by auto
  then show ?thesis using run found(2) by blast
qed

theorem shortest_paths_exact_witness:
  "map sp_subjects (projr (findShortestPaths str_cmp sample_edges [''a''] [''d''] sample_search)) = [[''a'', ''b'', ''d''], [''a'', ''c'', ''d'']]
   \<and> (\<exists>s es. shortest_solution (steps_from sample_edges Outbound []) [''a''] [''d''] 3 s es)"
proof -
  have run: "map sp_subjects (projr (findShortestPaths str_cmp sample_edges [''a''] [''d''] sample_search)) = [[''a'', ''b'', ''d''], [''a'', ''c'', ''d'']]"
    by code_simp
  obtain paths where paths: "findShortestPaths str_cmp sample_edges [''a''] [''d''] sample_search = Inr paths"
    "set paths = {path_result (path_of s es) | s es. shortest_solution (steps_from sample_edges Outbound []) [''a''] [''d''] 3 s es}"
    using shortest_paths_exact [of sample_search str_cmp sample_edges "[''a'']" "[''d'']"]
    by (auto simp: sample_search_def kinds_of_def safe_integer_def Let_def)
  have "paths \<noteq> []" using run paths(1) by auto
  then obtain p where "p \<in> set paths" by (cases paths) auto
  then show ?thesis using run paths(2) by blast
qed

end
