(* ===== verification/Logical_Encoding.thy ===== *)
theory Logical_Encoding
  imports Urdira_Prelude
begin

text \<open>
  The logical-value framing of \<open>packages/canonical/src/logical-encoding.ts\<close>: encoder, streaming
  encoder and decoder with their resource limits.  A JavaScript string is its list of UTF-16 code
  units, a byte array a list of numbers below 256, a number its IEEE 754 bit pattern, an object its list of fields;
  \<open>LOther\<close> stands for the values the encoder refuses (undefined, functions, symbols, instances of classes).
  The writer keeps the chunks it has emitted, their total length and the number of elements consumed;
  \<open>encodeCanonical\<close> concatenates the chunks that \<open>encodeCanonicalInto\<close> hands to its sink.
\<close>

section \<open>Text\<close>

type_synonym units = "nat list"
type_synonym bytes = "nat list"

definition high_surrogate :: "nat \<Rightarrow> bool" where "high_surrogate u \<longleftrightarrow> 0xD800 \<le> u \<and> u \<le> 0xDBFF"
definition low_surrogate :: "nat \<Rightarrow> bool" where "low_surrogate u \<longleftrightarrow> 0xDC00 \<le> u \<and> u \<le> 0xDFFF"

text \<open>The scalar values of a string: \<open>TextEncoder\<close> replaces a lone surrogate by U+FFFD.\<close>

fun utf16_points :: "units \<Rightarrow> nat list" where
  "utf16_points [] = []"
| "utf16_points [u] = [if high_surrogate u \<or> low_surrogate u then 0xFFFD else u]"
| "utf16_points (u # v # r) =
     (if high_surrogate u \<and> low_surrogate v then (0x10000 + (u - 0xD800) * 0x400 + (v - 0xDC00)) # utf16_points r
      else (if high_surrogate u \<or> low_surrogate u then 0xFFFD else u) # utf16_points (v # r))"

definition utf8_point :: "nat \<Rightarrow> bytes" where
  "utf8_point p =
     (if p < 0x80 then [p]
      else if p < 0x800 then [0xC0 + p div 0x40, 0x80 + p mod 0x40]
      else if p < 0x10000 then [0xE0 + p div 0x1000, 0x80 + p div 0x40 mod 0x40, 0x80 + p mod 0x40]
      else [0xF0 + p div 0x40000, 0x80 + p div 0x1000 mod 0x40, 0x80 + p div 0x40 mod 0x40, 0x80 + p mod 0x40])"

definition utf8_encode :: "units \<Rightarrow> bytes" where
  "utf8_encode s = concat (map utf8_point (utf16_points s))"

definition continuation :: "nat \<Rightarrow> bool" where "continuation b \<longleftrightarrow> 0x80 \<le> b \<and> b \<le> 0xBF"

text \<open>The fatal UTF-8 decoder: None is its \<open>TypeError\<close>.\<close>

fun utf8_points :: "bytes \<Rightarrow> nat list option" where
  "utf8_points [] = Some []"
| "utf8_points (b # r) =
     (if b < 0x80 then map_option (Cons b) (utf8_points r)
      else if 0xC2 \<le> b \<and> b \<le> 0xDF then
        (case r of c # r' \<Rightarrow> if continuation c then map_option (Cons ((b - 0xC0) * 0x40 + (c - 0x80))) (utf8_points r') else None | _ \<Rightarrow> None)
      else if 0xE0 \<le> b \<and> b \<le> 0xEF then
        (case r of c # d # r' \<Rightarrow>
           if continuation c \<and> continuation d \<and> (b = 0xE0 \<longrightarrow> 0xA0 \<le> c) \<and> (b = 0xED \<longrightarrow> c \<le> 0x9F)
           then map_option (Cons ((b - 0xE0) * 0x1000 + (c - 0x80) * 0x40 + (d - 0x80))) (utf8_points r') else None | _ \<Rightarrow> None)
      else if 0xF0 \<le> b \<and> b \<le> 0xF4 then
        (case r of c # d # e # r' \<Rightarrow>
           if continuation c \<and> continuation d \<and> continuation e \<and> (b = 0xF0 \<longrightarrow> 0x90 \<le> c) \<and> (b = 0xF4 \<longrightarrow> c \<le> 0x8F)
           then map_option (Cons ((b - 0xF0) * 0x40000 + (c - 0x80) * 0x1000 + (d - 0x80) * 0x40 + (e - 0x80))) (utf8_points r') else None | _ \<Rightarrow> None)
      else None)"

definition point_units :: "nat \<Rightarrow> units" where
  "point_units p = (if p < 0x10000 then [p] else [0xD800 + (p - 0x10000) div 0x400, 0xDC00 + (p - 0x10000) mod 0x400])"

text \<open>\<open>decoder.decode\<close>: a leading byte order mark is dropped.\<close>

definition utf8_decode :: "bytes \<Rightarrow> units option" where
  "utf8_decode bs = map_option (\<lambda>ps. concat (map point_units ps)) (utf8_points (if take 3 bs = [0xEF, 0xBB, 0xBF] then drop 3 bs else bs))"

section \<open>Values, limits and errors\<close>

datatype logical =
    LNull | LBool bool | LText units | LBytes bytes | LNumber "64 word" | LBigInt int
  | LArray "logical list" | LObject "(units \<times> logical) list" | LOther

datatype uce_error =
    SchemaValidationFailed | TrailingData | DuplicateMapKey | NonCanonicalEncoding | ResourceLimitExceeded
  | InvalidUnicodeScalar | TextDecodeFailed | NumericValueOutOfRange | DigestBindingInvalid

record limits =
  max_depth :: nat
  max_bytes :: nat
  max_text_code_points :: nat
  max_elements :: nat

definition DEFAULT_LIMITS :: limits where
  "DEFAULT_LIMITS = \<lparr>max_depth = 128, max_bytes = 16 * 1024 * 1024, max_text_code_points = 4 * 1024 * 1024, max_elements = 1000000\<rparr>"

fun compareBytes :: "bytes \<Rightarrow> bytes \<Rightarrow> int" where
  "compareBytes (x # xs) (y # ys) = (if x \<noteq> y then (if x < y then -1 else 1) else compareBytes xs ys)"
| "compareBytes xs ys = int (length xs) - int (length ys)"

fun varint :: "nat \<Rightarrow> bytes" where
  "varint n = (if n div 128 > 0 then (n mod 128 + 128) # varint (n div 128) else [n mod 128])"

declare varint.simps [simp del]

text \<open>
  The loop of \<open>validateUnicode\<close>: the number of code points, or None where it throws.  Behind the last
  unit \<open>charCodeAt\<close> is \<open>NaN\<close>, both comparisons with it are false, and the final unit passes.
\<close>

fun count_points :: "units \<Rightarrow> nat option" where
  "count_points [] = Some 0"
| "count_points [u] = (if low_surrogate u then None else Some 1)"
| "count_points (u # v # r) =
     (if high_surrogate u then (if low_surrogate v then map_option Suc (count_points r) else None)
      else if low_surrogate u then None else map_option Suc (count_points (v # r)))"

definition validateUnicode :: "limits \<Rightarrow> units \<Rightarrow> uce_error + unit" where
  "validateUnicode lim s =
     (case count_points s of
        None \<Rightarrow> Inl InvalidUnicodeScalar
      | Some n \<Rightarrow> if n > max_text_code_points lim then Inl ResourceLimitExceeded else Inr ())"

definition word_bytes :: "64 word \<Rightarrow> bytes" where
  "word_bytes w = map (\<lambda>i. unat w div 256 ^ (7 - i) mod 256) [0..<8]"

definition bytes_word :: "bytes \<Rightarrow> 64 word" where
  "bytes_word bs = word_of_nat (foldl (\<lambda>n b. n * 256 + b) 0 bs)"

definition float_finite :: "64 word \<Rightarrow> bool" where
  "float_finite w \<longleftrightarrow> unat w div 2 ^ 52 mod 2 ^ 11 \<noteq> 2047"

definition negative_zero :: "64 word" where
  "negative_zero = word_of_nat (2 ^ 63)"

section \<open>The writer\<close>

record writer =
  wr_chunks :: "bytes list"
  wr_length :: nat
  wr_elements :: nat

definition write_chunk :: "limits \<Rightarrow> bytes \<Rightarrow> writer \<Rightarrow> uce_error + writer" where
  "write_chunk lim chunk w =
     (if wr_length w + length chunk > max_bytes lim then Inl ResourceLimitExceeded
      else Inr (w\<lparr>wr_chunks := wr_chunks w @ [chunk], wr_length := wr_length w + length chunk\<rparr>))"

definition writes :: "limits \<Rightarrow> bytes list \<Rightarrow> writer \<Rightarrow> uce_error + writer" where
  "writes lim chunks w = res_fold (write_chunk lim) chunks w"

definition consume :: "limits \<Rightarrow> nat \<Rightarrow> writer \<Rightarrow> uce_error + writer" where
  "consume lim n w =
     (if wr_elements w + n > max_elements lim then Inl ResourceLimitExceeded else Inr (w\<lparr>wr_elements := wr_elements w + n\<rparr>))"

definition writeText :: "limits \<Rightarrow> units \<Rightarrow> bytes option \<Rightarrow> writer \<Rightarrow> uce_error + writer" where
  "writeText lim s precomputed w =
     res_bind (validateUnicode lim s) (\<lambda>_.
       let bs = (case precomputed of Some b \<Rightarrow> b | None \<Rightarrow> utf8_encode s) in writes lim [[3], varint (length bs), bs] w)"

definition writeBytes :: "limits \<Rightarrow> bytes \<Rightarrow> writer \<Rightarrow> uce_error + writer" where
  "writeBytes lim bs w =
     (if length bs > max_bytes lim then Inl ResourceLimitExceeded else writes lim [[4], varint (length bs), bs] w)"

text \<open>The magnitude of a big integer, most significant byte first, at least one byte.\<close>

fun magnitude_bytes :: "nat \<Rightarrow> bytes" where
  "magnitude_bytes n = (if n div 256 > 0 then magnitude_bytes (n div 256) @ [n mod 256] else [n mod 256])"

declare magnitude_bytes.simps [simp del]

definition writeBigInt :: "limits \<Rightarrow> int \<Rightarrow> writer \<Rightarrow> uce_error + writer" where
  "writeBigInt lim n w =
     (let bs = magnitude_bytes (nat \<bar>n\<bar>)
      in res_bind (consume lim (length bs) w) (writes lim [[8, if n < 0 then 1 else 0], varint (length bs), bs]))"

text \<open>
  \<open>textBytesLookup\<close> maps the fields of the owner, a field name and its text to already encoded bytes.
\<close>

type_synonym text_lookup = "(units \<times> logical) list \<Rightarrow> units \<Rightarrow> units \<Rightarrow> bytes option"

definition no_lookup :: text_lookup where
  "no_lookup = (\<lambda>_ _ _. None)"

text \<open>The loop over the sorted entries: the duplicate-key check, then the key and the value.\<close>

fun fold_entries :: "(units \<Rightarrow> 'a \<Rightarrow> 's \<Rightarrow> uce_error + 's) \<Rightarrow> (units \<times> 'a) list \<Rightarrow> bytes option \<Rightarrow> 's \<Rightarrow> uce_error + 's" where
  "fold_entries f [] previous s = Inr s"
| "fold_entries f ((k, v) # es) previous s =
     (if previous = Some (utf8_encode k) then Inl DuplicateMapKey
      else res_bind (f k v s) (fold_entries f es (Some (utf8_encode k))))"

lemma fold_entries_cong [fundef_cong]:
  "es = es' \<Longrightarrow> p = p' \<Longrightarrow> s = s' \<Longrightarrow> (\<And>k v s. (k, v) \<in> set es' \<Longrightarrow> f k v s = g k v s) \<Longrightarrow> fold_entries f es p s = fold_entries g es' p' s'"
proof (induction es arbitrary: es' p p' s s')
  case (Cons e es)
  obtain k v where e: "e = (k, v)" by fastforce
  have "fold_entries f es q t = fold_entries g es q t" for q t using Cons.IH [of es q q t t] Cons.prems by (auto simp: e)
  then have "fold_entries f es (Some (utf8_encode k)) = fold_entries g es (Some (utf8_encode k))" by (intro ext)
  then show ?case using Cons.prems by (auto simp: e)
qed simp

lemma res_fold_cong [fundef_cong]:
  "xs = ys \<Longrightarrow> s = t \<Longrightarrow> (\<And>x s. x \<in> set ys \<Longrightarrow> f x s = g x s) \<Longrightarrow> res_fold f xs s = res_fold g ys t"
proof (induction xs arbitrary: ys s t)
  case (Cons x xs)
  have "res_fold f xs u = res_fold g xs u" for u using Cons.IH [of xs u u] Cons.prems by auto
  then have "res_fold f xs = res_fold g xs" by (intro ext)
  then show ?case using Cons.prems by auto
qed simp

definition compare_entries :: "units \<times> 'a \<Rightarrow> units \<times> 'a \<Rightarrow> int" where
  "compare_entries left right = compareBytes (utf8_encode (fst left)) (utf8_encode (fst right))"

function (sequential) writeValue :: "limits \<Rightarrow> text_lookup \<Rightarrow> nat \<Rightarrow> logical \<Rightarrow> writer \<Rightarrow> uce_error + writer" where
  "writeValue lim lookup depth v w =
     (if depth > max_depth lim then Inl ResourceLimitExceeded
      else case v of
        LNull \<Rightarrow> write_chunk lim [0] w
      | LBool b \<Rightarrow> write_chunk lim [if b then 2 else 1] w
      | LText s \<Rightarrow> writeText lim s None w
      | LBytes bs \<Rightarrow> writeBytes lim bs w
      | LNumber f \<Rightarrow>
          if \<not> float_finite f then Inl SchemaValidationFailed
          else write_chunk lim (7 # word_bytes (if f = negative_zero then 0 else f)) w
      | LBigInt n \<Rightarrow> writeBigInt lim n w
      | LArray vs \<Rightarrow>
          res_bind (consume lim (length vs) w) (\<lambda>w.
          res_bind (writes lim [[5], varint (length vs)] w) (\<lambda>w.
            res_fold (writeValue lim lookup (Suc depth)) vs w))
      | LObject fs \<Rightarrow>
          res_bind (consume lim (length fs) w) (\<lambda>w.
          res_bind (writes lim [[6], varint (length fs)] w) (\<lambda>w.
            fold_entries (\<lambda>k v w. res_bind (writeText lim k None w) (\<lambda>w.
                case v of
                  LText s \<Rightarrow> (case lookup fs k s of Some bs \<Rightarrow> writeText lim s (Some bs) w | None \<Rightarrow> writeValue lim lookup (Suc depth) v w)
                | _ \<Rightarrow> writeValue lim lookup (Suc depth) v w))
              (sort_by compare_entries fs) None w))
      | LOther \<Rightarrow> Inl SchemaValidationFailed)"
  by pat_completeness auto
termination
proof (relation "measure (\<lambda>(lim, lookup, depth, v, w). size v)")
qed (auto simp: less_Suc_eq_le size_list_estimation' dest!: size_list_estimation' [where f = "\<lambda>x. Suc (size (snd x))"])

definition start_writer :: writer where
  "start_writer = \<lparr>wr_chunks = [], wr_length = 0, wr_elements = 0\<rparr>"

text \<open>The chunks handed to the sink, and the buffered result.\<close>

definition encodeCanonicalInto :: "limits \<Rightarrow> text_lookup \<Rightarrow> logical \<Rightarrow> uce_error + bytes list" where
  "encodeCanonicalInto lim lookup v = res_bind (writeValue lim lookup 0 v start_writer) (\<lambda>w. Inr (wr_chunks w))"

definition encodeCanonical :: "limits \<Rightarrow> logical \<Rightarrow> uce_error + bytes" where
  "encodeCanonical lim v = res_bind (writeValue lim no_lookup 0 v start_writer) (\<lambda>w. Inr (concat (wr_chunks w)))"

definition encodeArrayHeader :: "nat \<Rightarrow> bytes" where "encodeArrayHeader n = 5 # varint n"
definition encodeMapHeader :: "nat \<Rightarrow> bytes" where "encodeMapHeader n = 6 # varint n"

definition encodeDecimalFraction :: "int \<Rightarrow> int \<Rightarrow> uce_error + bytes" where
  "encodeDecimalFraction exponent mantissa = encodeCanonical DEFAULT_LIMITS (LArray [LBigInt exponent, LBigInt mantissa])"

definition encodeFloat64 :: "64 word \<Rightarrow> uce_error + bytes" where
  "encodeFloat64 f = (if \<not> float_finite f \<or> f = negative_zero then Inl SchemaValidationFailed else Inr (7 # word_bytes f))"

section \<open>The reader\<close>

text \<open>The reader is the bytes still to be read and the number of elements announced so far.\<close>

record reader =
  rd_bytes :: bytes
  rd_elements :: nat

definition readBytes :: "nat \<Rightarrow> reader \<Rightarrow> uce_error + (bytes \<times> reader)" where
  "readBytes n r =
     (if n > length (rd_bytes r) then Inl TrailingData else Inr (take n (rd_bytes r), r\<lparr>rd_bytes := drop n (rd_bytes r)\<rparr>))"

definition read_byte :: "reader \<Rightarrow> uce_error + (nat \<times> reader)" where
  "read_byte r = res_bind (readBytes 1 r) (\<lambda>(bs, r). Inr (hd bs, r))"

fun read_varint :: "nat \<Rightarrow> nat \<Rightarrow> nat \<Rightarrow> reader \<Rightarrow> uce_error + (nat \<times> reader)" where
  "read_varint 0 weight result r = Inl ResourceLimitExceeded"
| "read_varint (Suc k) weight result r =
     res_bind (read_byte r) (\<lambda>(b, r).
       let result = result + b mod 128 * weight
       in if b div 128 mod 2 = 0
          then (if result > 9007199254740991 then Inl ResourceLimitExceeded else Inr (result, r))
          else read_varint k (weight * 128) result r)"

definition readVarint :: "reader \<Rightarrow> uce_error + (nat \<times> reader)" where
  "readVarint r = read_varint 5 1 0 r"

definition bytesValue :: "reader \<Rightarrow> uce_error + (bytes \<times> reader)" where
  "bytesValue r = res_bind (readVarint r) (\<lambda>(n, r). readBytes n r)"

definition read_count :: "limits \<Rightarrow> reader \<Rightarrow> uce_error + (nat \<times> reader)" where
  "read_count lim r =
     res_bind (readVarint r) (\<lambda>(n, r).
       if rd_elements r + n > max_elements lim then Inl ResourceLimitExceeded else Inr (n, r\<lparr>rd_elements := rd_elements r + n\<rparr>))"

definition read_text :: "limits \<Rightarrow> reader \<Rightarrow> uce_error + (logical \<times> reader)" where
  "read_text lim r =
     res_bind (bytesValue r) (\<lambda>(bs, r).
       case utf8_decode bs of
         None \<Rightarrow> Inl TextDecodeFailed
       | Some s \<Rightarrow> res_bind (validateUnicode lim s) (\<lambda>_. Inr (LText s, r)))"

definition read_float :: "reader \<Rightarrow> uce_error + (logical \<times> reader)" where
  "read_float r =
     res_bind (readBytes 8 r) (\<lambda>(bs, r).
       let f = bytes_word bs in if \<not> float_finite f \<or> f = negative_zero then Inl SchemaValidationFailed else Inr (LNumber f, r))"

definition read_bigint :: "reader \<Rightarrow> uce_error + (logical \<times> reader)" where
  "read_bigint r =
     res_bind (read_byte r) (\<lambda>(sign, r).
     res_bind (bytesValue r) (\<lambda>(bs, r).
       let n = int (foldl (\<lambda>n b. n * 256 + b) 0 bs) in Inr (LBigInt (if sign = 1 then - n else n), r)))"

text \<open>The order check between two neighbouring keys.\<close>

definition key_order :: "bytes option \<Rightarrow> bytes \<Rightarrow> uce_error option" where
  "key_order previous keyBytes =
     (case previous of
        None \<Rightarrow> None
      | Some p \<Rightarrow> if compareBytes p keyBytes \<ge> 0
                  then Some (if length p = length keyBytes \<and> compareBytes p keyBytes = 0 then DuplicateMapKey else NonCanonicalEncoding) else None)"

text \<open>
  \<open>value\<close>, and the loops of \<open>array\<close> and \<open>map\<close> with the number of items left to read.  Every nested
  value is one level deeper, and a level beyond the limit fails.
\<close>

function (sequential) read_value :: "limits \<Rightarrow> nat \<Rightarrow> reader \<Rightarrow> uce_error + (logical \<times> reader)"
  and read_items :: "limits \<Rightarrow> nat \<Rightarrow> nat \<Rightarrow> reader \<Rightarrow> uce_error + (logical list \<times> reader)"
  and read_entries :: "limits \<Rightarrow> nat \<Rightarrow> nat \<Rightarrow> bytes option \<Rightarrow> reader \<Rightarrow> uce_error + ((units \<times> logical) list \<times> reader)" where
  "read_value lim depth r =
     (if depth > max_depth lim then Inl ResourceLimitExceeded
      else res_bind (read_byte r) (\<lambda>(tag, r).
        if tag = 0 then Inr (LNull, r)
        else if tag = 1 then Inr (LBool False, r)
        else if tag = 2 then Inr (LBool True, r)
        else if tag = 3 then read_text lim r
        else if tag = 4 then res_bind (bytesValue r) (\<lambda>(bs, r). Inr (LBytes bs, r))
        else if tag = 5 then res_bind (read_count lim r) (\<lambda>(n, r). res_bind (read_items lim (Suc depth) n r) (\<lambda>(vs, r). Inr (LArray vs, r)))
        else if tag = 6 then res_bind (read_count lim r) (\<lambda>(n, r). res_bind (read_entries lim (Suc depth) n None r) (\<lambda>(fs, r). Inr (LObject fs, r)))
        else if tag = 7 then read_float r
        else if tag = 8 then read_bigint r
        else Inl SchemaValidationFailed))"
| "read_items lim depth 0 r = Inr ([], r)"
| "read_items lim depth (Suc n) r =
     res_bind (read_value lim depth r) (\<lambda>(v, r). res_bind (read_items lim depth n r) (\<lambda>(vs, r). Inr (v # vs, r)))"
| "read_entries lim depth 0 previous r = Inr ([], r)"
| "read_entries lim depth (Suc n) previous r =
     res_bind (read_value lim depth r) (\<lambda>(k, r).
       case k of
         LText s \<Rightarrow>
           (case key_order previous (utf8_encode s) of
              Some e \<Rightarrow> Inl e
            | None \<Rightarrow> res_bind (read_value lim depth r) (\<lambda>(v, r).
                res_bind (read_entries lim depth n (Some (utf8_encode s)) r) (\<lambda>(fs, r). Inr ((s, v) # fs, r))))
       | _ \<Rightarrow> Inl SchemaValidationFailed)"
  by pat_completeness auto
termination
  by (relation "inv_image (less_than <*lex*> less_than <*lex*> less_than)
        (\<lambda>x. case x of
           Inl (lim, depth, r) \<Rightarrow> (Suc (max_depth lim) - depth, 0, 0)
         | Inr (Inl (lim, depth, n, r)) \<Rightarrow> (Suc (max_depth lim) - depth, 1, n)
         | Inr (Inr (lim, depth, n, p, r)) \<Rightarrow> (Suc (max_depth lim) - depth, 1, n))") auto

definition decodeCanonical :: "limits \<Rightarrow> bytes \<Rightarrow> uce_error + logical" where
  "decodeCanonical lim bs =
     (if length bs > max_bytes lim then Inl ResourceLimitExceeded
      else res_bind (read_value lim 0 \<lparr>rd_bytes = bs, rd_elements = 0\<rparr>) (\<lambda>(v, r).
        if rd_bytes r \<noteq> [] then Inl TrailingData else Inr v))"

end
