(* ===== verification/Logical_Roundtrip.thy ===== *)
theory Logical_Roundtrip
  imports Logical_Encoding
begin

text \<open>
  What the encoder of the logical framing writes, the decoder reads back: the round trip of
  \<open>encodeCanonical\<close> and \<open>decodeCanonical\<close>, and the two texts for which it fails.
\<close>

section \<open>UTF-16 and UTF-8\<close>

definition scalar :: "nat \<Rightarrow> bool" where
  "scalar p \<longleftrightarrow> p < 0xD800 \<or> 0xDFFF < p \<and> p < 0x110000"

text \<open>Well-formed UTF-16: every surrogate is half of a pair.\<close>

fun well_formed :: "units \<Rightarrow> bool" where
  "well_formed [] \<longleftrightarrow> True"
| "well_formed [u] \<longleftrightarrow> u < 0x10000 \<and> \<not> high_surrogate u \<and> \<not> low_surrogate u"
| "well_formed (u # v # r) \<longleftrightarrow>
     (if high_surrogate u then low_surrogate v \<and> well_formed r
      else u < 0x10000 \<and> \<not> low_surrogate u \<and> well_formed (v # r))"

lemmas surrogate_defs = high_surrogate_def low_surrogate_def

lemma utf16_points_scalar: "well_formed s \<Longrightarrow> \<forall>p \<in> set (utf16_points s). scalar p"
proof (induction s rule: well_formed.induct)
  case (3 u v r)
  show ?case
  proof (cases "high_surrogate u")
    case True
    then have "0x10000 + (u - 0xD800) * 0x400 + (v - 0xDC00) < 0x110000" using 3 by (auto simp: surrogate_defs)
    then show ?thesis using True 3 by (auto simp: scalar_def)
  next
    case False
    then show ?thesis using 3 by (auto simp: scalar_def surrogate_defs)
  qed
qed (auto simp: scalar_def surrogate_defs)

lemma point_units_pair:
  "high_surrogate u \<Longrightarrow> low_surrogate v \<Longrightarrow> point_units (0x10000 + (u - 0xD800) * 0x400 + (v - 0xDC00)) = [u, v]"
proof -
  assume "high_surrogate u" and "low_surrogate v"
  then obtain a b where "u = 0xD800 + a" "v = 0xDC00 + b" "b < 0x400" by (auto simp: surrogate_defs le_iff_add)
  then show ?thesis by (simp add: point_units_def)
qed

lemma utf16_roundtrip: "well_formed s \<Longrightarrow> concat (map point_units (utf16_points s)) = s"
proof (induction s rule: well_formed.induct)
  case (3 u v r)
  then show ?case
    by (cases "high_surrogate u") (simp_all add: point_units_pair, simp add: point_units_def)
qed (auto simp: point_units_def)

lemma split3: "p div 0x1000 * 0x1000 + p div 0x40 mod 0x40 * 0x40 + p mod 0x40 = (p :: nat)"
proof -
  have "p div 0x1000 = p div 0x40 div 0x40" by (simp add: div_mult2_eq [symmetric])
  then show ?thesis using div_mult_mod_eq [of p 64] div_mult_mod_eq [of "p div 0x40" 64] by linarith
qed

lemma split4: "p div 0x40000 * 0x40000 + p div 0x1000 mod 0x40 * 0x1000 + p div 0x40 mod 0x40 * 0x40 + p mod 0x40 = (p :: nat)"
proof -
  have "p div 0x40000 = p div 0x1000 div 0x40" by (simp add: div_mult2_eq [symmetric])
  then show ?thesis using split3 [of p] div_mult_mod_eq [of "p div 0x1000" 64] by linarith
qed

lemma continuation_mod [simp]: "continuation (0x80 + n mod 0x40)"
proof -
  have "n mod 0x40 < 0x40" by simp
  then show ?thesis unfolding continuation_def by linarith
qed

lemma utf8_point_roundtrip: "scalar p \<Longrightarrow> utf8_points (utf8_point p @ r) = map_option (Cons p) (utf8_points r)"
proof -
  assume s: "scalar p"
  have pm: "p mod 0x40 < 0x40" by simp
  consider "p < 0x80" | "0x80 \<le> p" "p < 0x800" | "0x800 \<le> p" "p < 0x10000" | "0x10000 \<le> p" by linarith
  then show ?thesis
  proof cases
    case 2
    then have "2 \<le> p div 0x40" "p div 0x40 \<le> 31" "p div 0x40 * 0x40 + p mod 0x40 = p" by auto
    then have "0xC0 + p div 0x40 \<le> 0xDF" "\<not> 0xC0 + p div 0x40 < 0x80" "0xC2 \<le> 0xC0 + p div 0x40" "(0xC0 + p div 0x40 - 0xC0) * 0x40 + (0x80 + p mod 0x40 - 0x80) = p" by linarith+
    then show ?thesis using 2 by (simp only: utf8_point_def utf8_points.simps) simp
  next
    case 3
    then have a: "p div 0x1000 \<le> 15" by auto
    have "0xA0 \<le> 0x80 + p div 0x40 mod 0x40" if "p div 0x1000 = 0"
      using 3 that split3 [of p] pm by linarith
    moreover have "0x80 + p div 0x40 mod 0x40 \<le> 0x9F" if "p div 0x1000 = 13"
      using 3 s that split3 [of p] pm unfolding scalar_def by linarith
    ultimately show ?thesis using 3 a split3 [of p] by (simp add: utf8_point_def)
  next
    case 4
    then have a: "p div 0x40000 \<le> 4" using s by (auto simp: scalar_def)
    have "0x90 \<le> 0x80 + p div 0x1000 mod 0x40" if "p div 0x40000 = 0"
    proof -
      have "p div 0x1000 div 0x40 = 0" using that by (simp add: div_mult2_eq [symmetric])
      then show ?thesis using 4 by simp
    qed
    moreover have "0x80 + p div 0x1000 mod 0x40 \<le> 0x8F" if "p div 0x40000 = 4"
    proof -
      have "p div 0x1000 div 0x40 = 4" using that by (simp add: div_mult2_eq [symmetric])
      moreover have "p div 0x1000 < 272" using s 4 by (auto simp: scalar_def)
      ultimately show ?thesis using div_mult_mod_eq [of "p div 0x1000" 64] by linarith
    qed
    ultimately show ?thesis using 4 a split4 [of p] by (simp add: utf8_point_def)
  qed (simp add: utf8_point_def)
qed

lemma utf8_points_roundtrip: "\<forall>p \<in> set ps. scalar p \<Longrightarrow> utf8_points (concat (map utf8_point ps)) = Some ps"
  by (induction ps) (simp_all add: utf8_point_roundtrip)

lemma bom_point: "take 3 (utf8_point p @ r) = [0xEF, 0xBB, 0xBF] \<Longrightarrow> p = 0xFEFF"
  using split3 [of p] by (auto simp: utf8_point_def split: if_splits)

lemma utf16_points_hd: "well_formed (u # s) \<Longrightarrow> \<exists>p ps. utf16_points (u # s) = p # ps \<and> (p = 0xFEFF \<longrightarrow> u = 0xFEFF)"
  by (cases s) auto

lemma no_bom:
  assumes "well_formed s" and "take 1 s \<noteq> [0xFEFF]"
  shows "take 3 (utf8_encode s) \<noteq> [0xEF, 0xBB, 0xBF]"
proof (cases s)
  case Nil
  then show ?thesis by (simp add: utf8_encode_def)
next
  case (Cons u r)
  obtain p ps where p: "utf16_points s = p # ps" "p = 0xFEFF \<longrightarrow> u = 0xFEFF" using utf16_points_hd [of u r] assms(1) Cons by auto
  have "p \<noteq> 0xFEFF" using p assms(2) Cons by auto
  then show ?thesis using bom_point [of p] p by (auto simp: utf8_encode_def)
qed

lemma utf8_decode_encode: "well_formed s \<Longrightarrow> take 1 s \<noteq> [0xFEFF] \<Longrightarrow> utf8_decode (utf8_encode s) = Some s"
  using no_bom utf8_points_roundtrip [OF utf16_points_scalar] utf16_roundtrip
  by (simp add: utf8_decode_def utf8_encode_def)

section \<open>Numbers\<close>

lemma read_byte_Cons [simp]: "read_byte \<lparr>rd_bytes = b # bs, rd_elements = e\<rparr> = Inr (b, \<lparr>rd_bytes = bs, rd_elements = e\<rparr>)"
  by (simp add: read_byte_def readBytes_def)

lemma readBytes_append: "n = length bs \<Longrightarrow> readBytes n \<lparr>rd_bytes = bs @ r, rd_elements = e\<rparr> = Inr (bs, \<lparr>rd_bytes = r, rd_elements = e\<rparr>)"
  by (simp add: readBytes_def)

lemma read_varint_roundtrip:
  "0 < k \<Longrightarrow> n < 128 ^ k \<Longrightarrow> acc + n * weight \<le> 9007199254740991
   \<Longrightarrow> read_varint k weight acc \<lparr>rd_bytes = varint n @ r, rd_elements = e\<rparr> = Inr (acc + n * weight, \<lparr>rd_bytes = r, rd_elements = e\<rparr>)"
proof (induction k arbitrary: n weight acc)
  case (Suc k)
  show ?case
  proof (cases "n div 128 > 0")
    case True
    have "n mod 128 * weight + n div 128 * (weight * 128) = (n div 128 * 128 + n mod 128) * weight"
      by (simp only: distrib_right mult.assoc mult.commute [of weight] add.commute)
    then have sum: "acc + n mod 128 * weight + n div 128 * (weight * 128) = acc + n * weight" by simp
    have lt: "n div 128 < 128 ^ k" using Suc.prems(2) by (simp add: less_mult_imp_div_less mult.commute)
    then have "0 < k" using True by (cases k) auto
    then have "read_varint k (weight * 128) (acc + n mod 128 * weight) \<lparr>rd_bytes = varint (n div 128) @ r, rd_elements = e\<rparr>
        = Inr (acc + n * weight, \<lparr>rd_bytes = r, rd_elements = e\<rparr>)"
      using Suc.IH [of "n div 128" "acc + n mod 128 * weight" "weight * 128"] Suc.prems(3) lt sum by simp
    moreover have "varint n = (n mod 128 + 128) # varint (n div 128)" using True by (simp add: varint.simps [of n])
    moreover have "(n mod 128 + 128) div 128 mod 2 = 1" "(n mod 128 + 128) mod 128 = n mod 128" by simp_all
    ultimately show ?thesis by (simp add: Let_def)
  next
    case False
    then have "varint n = [n]" "n < 128" by (simp_all add: varint.simps [of n])
    then show ?thesis using Suc.prems by simp
  qed
qed simp

lemma readVarint_roundtrip:
  "n < 2 ^ 35 \<Longrightarrow> readVarint \<lparr>rd_bytes = varint n @ r, rd_elements = e\<rparr> = Inr (n, \<lparr>rd_bytes = r, rd_elements = e\<rparr>)"
  using read_varint_roundtrip [of 5 n 0 1] by (simp add: readVarint_def)

lemma bytesValue_roundtrip:
  "length bs < 2 ^ 35 \<Longrightarrow> bytesValue \<lparr>rd_bytes = varint (length bs) @ bs @ r, rd_elements = e\<rparr> = Inr (bs, \<lparr>rd_bytes = r, rd_elements = e\<rparr>)"
  by (simp add: bytesValue_def readVarint_roundtrip readBytes_append)

abbreviation big_endian :: "bytes \<Rightarrow> nat" where
  "big_endian bs \<equiv> foldl (\<lambda>n b. n * 256 + b) 0 bs"

lemma magnitude_value: "big_endian (magnitude_bytes n) = n"
proof (induction n rule: magnitude_bytes.induct)
  case (1 n)
  then show ?case by (cases "n div 256 > 0") (simp_all add: magnitude_bytes.simps [of n])
qed

lemma digits_value: "big_endian (map (\<lambda>i. n div 256 ^ (k - Suc i) mod 256) [0..<k]) = n mod 256 ^ k"
proof (induction k arbitrary: n)
  case (Suc k)
  have "map (\<lambda>i. n div 256 ^ (k - i) mod 256) [0..<k] = map (\<lambda>i. n div 256 div 256 ^ (k - Suc i) mod 256) [0..<k]"
  proof (rule map_cong [OF refl])
    fix i assume "i \<in> set [0..<k]"
    then have "k - i = Suc (k - Suc i)" by auto
    then show "n div 256 ^ (k - i) mod 256 = n div 256 div 256 ^ (k - Suc i) mod 256" by (simp add: div_mult2_eq)
  qed
  then have "big_endian (map (\<lambda>i. n div 256 ^ (k - i) mod 256) [0..<k]) = n div 256 mod 256 ^ k" using Suc.IH [of "n div 256"] by (simp only:)
  then show ?case by (simp add: mod_mult2_eq)
qed simp

lemma word_bytes_value [simp]: "bytes_word (word_bytes f) = f"
proof -
  have "big_endian (word_bytes f) = unat f mod 256 ^ 8" using digits_value [of "unat f" 8] by (simp add: word_bytes_def)
  moreover have "unat f < 256 ^ 8" using unsigned_less [of f] by simp
  ultimately show ?thesis by (simp add: bytes_word_def)
qed

lemma word_bytes_length [simp]: "length (word_bytes f) = 8"
  by (simp add: word_bytes_def)

lemma float_zero [simp]: "float_finite 0" "negative_zero \<noteq> 0"
  by (simp_all add: float_finite_def negative_zero_def)

section \<open>The order of keys\<close>

lemma compareBytes_sgn: "sgn (compareBytes xs ys) = sgn (lex_cmp int xs ys)"
proof (induction xs arbitrary: ys)
  case Nil
  then show ?case by (cases ys) auto
next
  case (Cons x xs)
  then show ?case by (cases ys) auto
qed

interpretation byte_order: strict_comparator compareBytes
proof -
  have "comparator compareBytes" by (rule comparator_sgn [OF lexicographic.comparator_axioms compareBytes_sgn])
  moreover have "x = y" if "compareBytes x y = 0" for x y
    using that compareBytes_sgn [of x y] lex_cmp_eq [of int x y] by (simp add: inj_def sgn_0_0)
  ultimately show "strict_comparator compareBytes"
    unfolding strict_comparator_def strict_comparator_axioms_def by blast
qed

interpretation entry_order: comparator compare_entries
  unfolding compare_entries_def by (rule comparator_pullback [OF byte_order.comparator_axioms])

section \<open>What the writer emits\<close>

declare writeValue.simps [simp del] read_value.simps [simp del]

text \<open>\<open>w'\<close> has the bytes of \<open>w\<close> followed by \<open>bs\<close>, has consumed no fewer elements and keeps to the byte limit.\<close>

definition emits :: "limits \<Rightarrow> writer \<Rightarrow> writer \<Rightarrow> bytes \<Rightarrow> bool" where
  "emits lim w w' bs \<longleftrightarrow> concat (wr_chunks w') = concat (wr_chunks w) @ bs \<and> wr_length w' = wr_length w + length bs \<and> wr_elements w \<le> wr_elements w' \<and> (wr_length w \<le> max_bytes lim \<longrightarrow> wr_length w' \<le> max_bytes lim)"

lemma emits_refl: "emits lim w w []"
  by (simp add: emits_def)

lemma emits_trans: "emits lim w w' bs \<Longrightarrow> emits lim w' w'' cs \<Longrightarrow> emits lim w w'' (bs @ cs)"
  unfolding emits_def by auto

lemma write_chunk_emits:
  "write_chunk lim c w = Inr w' \<Longrightarrow> emits lim w w' c \<and> wr_elements w' = wr_elements w \<and> length c \<le> max_bytes lim"
  by (auto simp: write_chunk_def emits_def split: if_splits)

lemma writes_emits:
  "writes lim cs w = Inr w' \<Longrightarrow> emits lim w w' (concat cs) \<and> wr_elements w' = wr_elements w \<and> (\<forall>c \<in> set cs. length c \<le> max_bytes lim)"
proof (induction cs arbitrary: w)
  case Nil
  then show ?case by (simp add: writes_def emits_refl)
next
  case (Cons c cs)
  then obtain u where u: "write_chunk lim c w = Inr u" "writes lim cs u = Inr w'" by (auto simp: writes_def res_bind_Inr_iff)
  then show ?case using write_chunk_emits [OF u(1)] Cons.IH [OF u(2)] emits_trans [of lim w u c w' "concat cs"] by auto
qed

lemma consume_emits:
  "consume lim n w = Inr w' \<Longrightarrow> emits lim w w' [] \<and> wr_elements w' = wr_elements w + n \<and> wr_elements w' \<le> max_elements lim"
  by (auto simp: consume_def emits_def split: if_splits)

section \<open>The round trip\<close>

text \<open>The value the decoder returns: the fields in key order, zero for negative zero.\<close>

fun normal :: "logical \<Rightarrow> logical" where
  "normal (LNumber f) = LNumber (if f = negative_zero then 0 else f)"
| "normal (LArray vs) = LArray (map normal vs)"
| "normal (LObject fs) = LObject (sort_by compare_entries (map (\<lambda>(k, v). (k, normal v)) fs))"
| "normal v = v"

definition plain_text :: "units \<Rightarrow> bool" where
  "plain_text s \<longleftrightarrow> well_formed s \<and> take 1 s \<noteq> [0xFEFF]"

text \<open>All texts and keys are well-formed and do not start with a byte order mark.\<close>

fun plain :: "logical \<Rightarrow> bool" where
  "plain (LText s) \<longleftrightarrow> plain_text s"
| "plain (LArray vs) \<longleftrightarrow> (\<forall>v \<in> set vs. plain v)"
| "plain (LObject fs) \<longleftrightarrow> (\<forall>(k, v) \<in> set fs. plain_text k \<and> plain v)"
| "plain v \<longleftrightarrow> True"

text \<open>Limits under which every announced length fits the five bytes the reader accepts.\<close>

definition small_limits :: "limits \<Rightarrow> bool" where
  "small_limits lim \<longleftrightarrow> max_bytes lim < 2 ^ 35 \<and> max_elements lim < 2 ^ 35"

text \<open>\<open>f\<close> reads \<open>bs\<close> as \<open>x\<close> and leaves what follows, within the element budgets \<open>E\<close> before and \<open>E'\<close> after.\<close>

definition reads :: "(reader \<Rightarrow> uce_error + ('a \<times> reader)) \<Rightarrow> nat \<Rightarrow> nat \<Rightarrow> bytes \<Rightarrow> 'a \<Rightarrow> bool" where
  "reads f E E' bs x \<longleftrightarrow> (\<forall>rest e. e \<le> E \<longrightarrow> (\<exists>e' \<le> E'. f \<lparr>rd_bytes = bs @ rest, rd_elements = e\<rparr> = Inr (x, \<lparr>rd_bytes = rest, rd_elements = e'\<rparr>)))"

lemma readsI:
  "(\<And>rest e. e \<le> E \<Longrightarrow> \<exists>e' \<le> E'. f \<lparr>rd_bytes = bs @ rest, rd_elements = e\<rparr> = Inr (x, \<lparr>rd_bytes = rest, rd_elements = e'\<rparr>)) \<Longrightarrow> reads f E E' bs x"
  by (simp add: reads_def)

lemma readsE:
  assumes "reads f E E' bs x" and "e \<le> E"
  obtains e' where "e' \<le> E'" "f \<lparr>rd_bytes = bs @ rest, rd_elements = e\<rparr> = Inr (x, \<lparr>rd_bytes = rest, rd_elements = e'\<rparr>)"
  using assms unfolding reads_def by blast

lemma reads_bind:
  assumes "reads f E E' bs x" and "reads (g x) E' E'' cs y"
  shows "reads (\<lambda>r. res_bind (f r) (\<lambda>(x, r). g x r)) E E'' (bs @ cs) y"
proof (rule readsI)
  fix rest e assume "e \<le> E"
  obtain e' where e: "e' \<le> E'" "f \<lparr>rd_bytes = bs @ cs @ rest, rd_elements = e\<rparr> = Inr (x, \<lparr>rd_bytes = cs @ rest, rd_elements = e'\<rparr>)"
    by (rule readsE [OF assms(1) \<open>e \<le> E\<close>])
  obtain e'' where "e'' \<le> E''" "g x \<lparr>rd_bytes = cs @ rest, rd_elements = e'\<rparr> = Inr (y, \<lparr>rd_bytes = rest, rd_elements = e''\<rparr>)"
    by (rule readsE [OF assms(2) e(1)])
  then show "\<exists>e' \<le> E''. res_bind (f \<lparr>rd_bytes = (bs @ cs) @ rest, rd_elements = e\<rparr>) (\<lambda>(x, r). g x r) = Inr (y, \<lparr>rd_bytes = rest, rd_elements = e'\<rparr>)"
    using e(2) by (intro exI [of _ e'']) simp
qed

lemma reads_return: "E \<le> E' \<Longrightarrow> reads (\<lambda>r. Inr (x, r)) E E' [] x"
  by (rule readsI) (auto intro: exI)

lemma reads_byte: "reads read_byte E E [b] b"
  by (rule readsI) (auto intro: exI)

lemma reads_varint: "n < 2 ^ 35 \<Longrightarrow> reads readVarint E E (varint n) n"
  by (rule readsI) (auto simp: readVarint_roundtrip intro: exI)

lemma reads_bytes: "length bs < 2 ^ 35 \<Longrightarrow> reads bytesValue E E (varint (length bs) @ bs) bs"
  by (rule readsI) (auto simp: bytesValue_roundtrip intro: exI)

lemma reads_count:
  "n < 2 ^ 35 \<Longrightarrow> E + n \<le> max_elements lim \<Longrightarrow> reads (read_count lim) E (E + n) (varint n) n"
  by (rule readsI) (auto simp: read_count_def readVarint_roundtrip intro!: exI)

lemma reads_tag:
  assumes "\<And>r e. read_value lim d \<lparr>rd_bytes = tag # r, rd_elements = e\<rparr> = f \<lparr>rd_bytes = r, rd_elements = e\<rparr>" and "reads f E E' bs x"
  shows "reads (read_value lim d) E E' (tag # bs) x"
  using assms unfolding reads_def by simp

lemma reads_text:
  assumes "validateUnicode lim s = Inr ()" and "plain_text s" and "length (utf8_encode s) < 2 ^ 35"
  shows "reads (read_text lim) E E (varint (length (utf8_encode s)) @ utf8_encode s) (LText s)"
  using assms utf8_decode_encode [of s]
  by (intro readsI) (auto simp: read_text_def bytesValue_roundtrip plain_text_def intro!: exI)

lemma writeText_reads:
  assumes "writeText lim s None w = Inr w'" and "plain_text s" and "small_limits lim" and "d \<le> max_depth lim"
  shows "\<exists>bs. emits lim w w' bs \<and> reads (read_value lim d) (wr_elements w) (wr_elements w') bs (LText s)"
proof -
  let ?b = "utf8_encode s"
  have v: "validateUnicode lim s = Inr ()" and w: "writes lim [[3], varint (length ?b), ?b] w = Inr w'"
    using assms(1) by (auto simp: writeText_def Let_def res_bind_Inr_iff)
  have e: "emits lim w w' (3 # varint (length ?b) @ ?b)" "wr_elements w' = wr_elements w" "length ?b < 2 ^ 35"
    using writes_emits [OF w] assms(3) by (auto simp: small_limits_def)
  have "reads (read_value lim d) (wr_elements w) (wr_elements w) (3 # varint (length ?b) @ ?b) (LText s)"
    by (rule reads_tag [OF _ reads_text [OF v assms(2) e(3)]]) (use assms(4) in \<open>simp add: read_value.simps [of lim d]\<close>)
  then show ?thesis using e(1,2) by auto
qed

text \<open>The induction predicate: what the writer emits for \<open>v\<close> at depth \<open>d\<close> is read back as its normal form.\<close>

definition transcodes :: "limits \<Rightarrow> nat \<Rightarrow> logical \<Rightarrow> bool" where
  "transcodes lim d v \<longleftrightarrow> (\<forall>w w'. writeValue lim no_lookup d v w = Inr w'
      \<longrightarrow> (\<exists>bs. emits lim w w' bs \<and> reads (read_value lim d) (wr_elements w) (wr_elements w') bs (normal v)))"

lemma transcodesE:
  assumes "transcodes lim d v" and "writeValue lim no_lookup d v w = Inr w'"
  obtains bs where "emits lim w w' bs" "reads (read_value lim d) (wr_elements w) (wr_elements w') bs (normal v)"
  using assms unfolding transcodes_def by blast

lemma writeValue_depth: "writeValue lim lookup d v w = Inr w' \<Longrightarrow> d \<le> max_depth lim"
  by (simp add: writeValue.simps [of lim lookup d] split: if_splits)

lemma reads_items:
  assumes "\<forall>v \<in> set vs. transcodes lim d v"
    and "res_fold (writeValue lim no_lookup d) vs w = Inr w'"
  shows "\<exists>bs. emits lim w w' bs \<and> reads (read_items lim d (length vs)) (wr_elements w) (wr_elements w') bs (map normal vs)"
  using assms
proof (induction vs arbitrary: w)
  case Nil
  then show ?case by (intro exI [of _ "[]"]) (simp add: emits_refl reads_def)
next
  case (Cons v vs)
  then obtain u where u: "writeValue lim no_lookup d v w = Inr u" "res_fold (writeValue lim no_lookup d) vs u = Inr w'"
    by (auto simp: res_bind_Inr_iff)
  obtain bs where bs: "emits lim w u bs" "reads (read_value lim d) (wr_elements w) (wr_elements u) bs (normal v)"
    by (rule transcodesE [OF _ u(1)]) (use Cons.prems(1) in auto)
  obtain cs where cs: "emits lim u w' cs" "reads (read_items lim d (length vs)) (wr_elements u) (wr_elements w') cs (map normal vs)"
    using Cons.IH [OF _ u(2)] Cons.prems(1) by auto
  have "reads (\<lambda>r. res_bind (read_value lim d r) (\<lambda>(v, r). res_bind (read_items lim d (length vs) r) (\<lambda>(vs, r). Inr (v # vs, r))))
      (wr_elements w) (wr_elements w') (bs @ cs @ []) (map normal (v # vs))"
    by (rule reads_bind [OF bs(2)], rule reads_bind [OF cs(2)]) (simp add: reads_return)
  then show ?case using emits_trans [OF bs(1) cs(1)] by (auto simp: reads_def)
qed

lemma reads_entry_step:
  assumes "reads (read_value lim d) E0 E1 ks (LText s)" and "key_order previous (utf8_encode s) = None"
    and "reads (read_value lim d) E1 E2 bs x" and "reads (read_entries lim d n (Some (utf8_encode s))) E2 E3 cs fs"
  shows "reads (read_entries lim d (Suc n) previous) E0 E3 (ks @ bs @ cs) ((s, x) # fs)"
proof -
  have "reads (\<lambda>r. res_bind (read_value lim d r) (\<lambda>(v, r). res_bind (read_entries lim d n (Some (utf8_encode s)) r) (\<lambda>(fs, r). Inr ((s, v) # fs, r))))
      E1 E3 (bs @ cs @ []) ((s, x) # fs)"
    by (rule reads_bind [OF assms(3)], rule reads_bind [OF assms(4)]) (simp add: reads_return)
  then have "reads (\<lambda>r. case LText s of LText s \<Rightarrow> (case key_order previous (utf8_encode s) of Some e \<Rightarrow> Inl e
      | None \<Rightarrow> res_bind (read_value lim d r) (\<lambda>(v, r). res_bind (read_entries lim d n (Some (utf8_encode s)) r) (\<lambda>(fs, r). Inr ((s, v) # fs, r))))
      | _ \<Rightarrow> Inl SchemaValidationFailed) E1 E3 (bs @ cs) ((s, x) # fs)"
    using assms(2) by simp
  then show ?thesis unfolding read_entries.simps by (rule reads_bind [OF assms(1)])
qed

abbreviation write_entry :: "limits \<Rightarrow> nat \<Rightarrow> units \<Rightarrow> logical \<Rightarrow> writer \<Rightarrow> uce_error + writer" where
  "write_entry lim d k v w \<equiv> res_bind (writeText lim k None w) (writeValue lim no_lookup d v)"

lemma reads_entries:
  assumes "\<forall>(k, v) \<in> set fs. plain_text k \<and> transcodes lim d v"
    and "fold_entries (write_entry lim d) fs previous w = Inr w'"
    and "sorted_wrt (\<lambda>x y. compare_entries x y \<le> 0) fs"
    and "\<forall>p x. previous = Some p \<longrightarrow> x \<in> set fs \<longrightarrow> compareBytes p (utf8_encode (fst x)) \<le> 0"
    and "small_limits lim"
  shows "\<exists>bs. emits lim w w' bs \<and> reads (read_entries lim d (length fs) previous) (wr_elements w) (wr_elements w') bs (map (\<lambda>(k, v). (k, normal v)) fs)"
  using assms
proof (induction fs arbitrary: w previous)
  case Nil
  then show ?case by (intro exI [of _ "[]"]) (simp add: emits_refl reads_def)
next
  case (Cons x fs)
  obtain k v where x: "x = (k, v)" by fastforce
  from Cons.prems(2) obtain t u where new: "previous \<noteq> Some (utf8_encode k)" and t: "writeText lim k None w = Inr t"
    and u: "writeValue lim no_lookup d v t = Inr u" and r: "fold_entries (write_entry lim d) fs (Some (utf8_encode k)) u = Inr w'"
    by (auto simp: x res_bind_Inr_iff split: if_splits)
  have order: "key_order previous (utf8_encode k) = None"
    using Cons.prems(4) new byte_order.cmp_eq by (fastforce simp: key_order_def x split: option.splits)
  obtain ks where ks: "emits lim w t ks" "reads (read_value lim d) (wr_elements w) (wr_elements t) ks (LText k)"
    using writeText_reads [OF t _ _ writeValue_depth [OF u]] Cons.prems(1,5) x by force
  obtain bs where bs: "emits lim t u bs" "reads (read_value lim d) (wr_elements t) (wr_elements u) bs (normal v)"
    by (rule transcodesE [OF _ u]) (use Cons.prems(1) x in auto)
  have "\<forall>p y. Some (utf8_encode k) = Some p \<longrightarrow> y \<in> set fs \<longrightarrow> compareBytes p (utf8_encode (fst y)) \<le> 0"
    using Cons.prems(3) x by (auto simp: compare_entries_def)
  then obtain cs where cs: "emits lim u w' cs"
      "reads (read_entries lim d (length fs) (Some (utf8_encode k))) (wr_elements u) (wr_elements w') cs (map (\<lambda>(k, v). (k, normal v)) fs)"
    using Cons.IH [OF _ r] Cons.prems(1,3,5) by auto
  show ?case using reads_entry_step [OF ks(2) order bs(2) cs(2)] emits_trans [OF ks(1) emits_trans [OF bs(1) cs(1)]] by (auto simp: x simp del: read_entries.simps)
qed

lemma normal_fields: "normal (LObject fs) = LObject (map (\<lambda>(k, v). (k, normal v)) (sort_by compare_entries fs))"
  using sort_by_map [of compare_entries "\<lambda>(k, v). (k, normal v)" compare_entries fs] by (simp add: compare_entries_def split_beta)

lemma transcodes_array:
  assumes "\<forall>v \<in> set vs. transcodes lim (Suc d) v" and "small_limits lim"
  shows "transcodes lim d (LArray vs)"
  unfolding transcodes_def
proof (intro allI impI)
  fix w w' assume ok: "writeValue lim no_lookup d (LArray vs) w = Inr w'"
  then obtain t u where t: "consume lim (length vs) w = Inr t" "writes lim [[5], varint (length vs)] t = Inr u"
    and r: "res_fold (writeValue lim no_lookup (Suc d)) vs u = Inr w'"
    by (auto simp: writeValue.simps [of lim no_lookup d] res_bind_Inr_iff split: if_splits)
  have tu: "emits lim w u (5 # varint (length vs))" "wr_elements u = wr_elements w + length vs" "wr_elements u \<le> max_elements lim"
    using consume_emits [OF t(1)] writes_emits [OF t(2)] emits_trans [of lim w t "[]" u] by auto
  obtain bs where bs: "emits lim u w' bs" "reads (read_items lim (Suc d) (length vs)) (wr_elements u) (wr_elements w') bs (map normal vs)"
    using reads_items [OF assms(1) r] by blast
  have n: "length vs < 2 ^ 35" "wr_elements w + length vs \<le> max_elements lim" using tu assms(2) by (auto simp: small_limits_def)
  have "reads (\<lambda>r. res_bind (read_count lim r) (\<lambda>(n, r). res_bind (read_items lim (Suc d) n r) (\<lambda>(vs, r). Inr (LArray vs, r))))
      (wr_elements w) (wr_elements w') (varint (length vs) @ bs @ []) (LArray (map normal vs))"
    by (rule reads_bind [OF reads_count [OF n]], rule reads_bind [OF bs(2) [unfolded tu(2)]], rule reads_return) simp
  then have "reads (read_value lim d) (wr_elements w) (wr_elements w') (5 # varint (length vs) @ bs) (LArray (map normal vs))"
    using writeValue_depth [OF ok] by (intro reads_tag) (auto simp: read_value.simps [of lim d])
  then show "\<exists>bs. emits lim w w' bs \<and> reads (read_value lim d) (wr_elements w) (wr_elements w') bs (normal (LArray vs))"
    using emits_trans [OF tu(1) bs(1)] by auto
qed

lemma no_lookup_entry:
  "(case v of LText s \<Rightarrow> (case no_lookup fs k s of None \<Rightarrow> x | Some bs \<Rightarrow> f s bs) | _ \<Rightarrow> x) = x"
  by (cases v) (simp_all add: no_lookup_def)

lemma transcodes_object:
  assumes "\<forall>(k, v) \<in> set fs. plain_text k \<and> transcodes lim (Suc d) v" and "small_limits lim"
  shows "transcodes lim d (LObject fs)"
  unfolding transcodes_def
proof (intro allI impI)
  let ?fs = "sort_by compare_entries fs"
  fix w w' assume ok: "writeValue lim no_lookup d (LObject fs) w = Inr w'"
  from ok obtain t u where t: "consume lim (length fs) w = Inr t" "writes lim [[6], varint (length fs)] t = Inr u"
    and r: "fold_entries (write_entry lim (Suc d)) ?fs None u = Inr w'"
    by (auto simp: writeValue.simps [of lim no_lookup d] no_lookup_entry res_bind_Inr_iff split: if_splits)
  have tu: "emits lim w u (6 # varint (length fs))" "wr_elements u = wr_elements w + length fs" "wr_elements u \<le> max_elements lim"
    using consume_emits [OF t(1)] writes_emits [OF t(2)] emits_trans [of lim w t "[]" u] by auto
  obtain bs where bs: "emits lim u w' bs"
      "reads (read_entries lim (Suc d) (length fs) None) (wr_elements u) (wr_elements w') bs (map (\<lambda>(k, v). (k, normal v)) ?fs)"
    using reads_entries [OF _ r entry_order.sorted_sort_by] assms by auto
  have n: "length fs < 2 ^ 35" "wr_elements w + length fs \<le> max_elements lim" using tu assms(2) by (auto simp: small_limits_def)
  have "reads (\<lambda>r. res_bind (read_count lim r) (\<lambda>(n, r). res_bind (read_entries lim (Suc d) n None r) (\<lambda>(fs, r). Inr (LObject fs, r))))
      (wr_elements w) (wr_elements w') (varint (length fs) @ bs @ []) (normal (LObject fs))"
    unfolding normal_fields
    by (rule reads_bind [OF reads_count [OF n]], rule reads_bind [OF bs(2) [unfolded tu(2)]], rule reads_return) simp
  then have "reads (read_value lim d) (wr_elements w) (wr_elements w') (6 # varint (length fs) @ bs) (normal (LObject fs))"
    using writeValue_depth [OF ok] by (intro reads_tag) (auto simp: read_value.simps [of lim d])
  then show "\<exists>bs. emits lim w w' bs \<and> reads (read_value lim d) (wr_elements w) (wr_elements w') bs (normal (LObject fs))"
    using emits_trans [OF tu(1) bs(1)] by auto
qed

lemma transcodes_constant:
  assumes "\<And>w. d \<le> max_depth lim \<Longrightarrow> writeValue lim no_lookup d v w = write_chunk lim [tag] w"
    and "\<And>r e. d \<le> max_depth lim \<Longrightarrow> read_value lim d \<lparr>rd_bytes = tag # r, rd_elements = e\<rparr> = Inr (normal v, \<lparr>rd_bytes = r, rd_elements = e\<rparr>)"
  shows "transcodes lim d v"
  unfolding transcodes_def
proof (intro allI impI)
  fix w w' assume ok: "writeValue lim no_lookup d v w = Inr w'"
  then have "emits lim w w' [tag]" "wr_elements w' = wr_elements w"
    using assms(1) [OF writeValue_depth [OF ok]] write_chunk_emits [of lim "[tag]" w w'] by auto
  moreover have "reads (read_value lim d) (wr_elements w) (wr_elements w) [tag] (normal v)"
    using assms(2) [OF writeValue_depth [OF ok]] by (auto simp: reads_def)
  ultimately show "\<exists>bs. emits lim w w' bs \<and> reads (read_value lim d) (wr_elements w) (wr_elements w') bs (normal v)" by auto
qed

lemma transcodes_number: "transcodes lim d (LNumber f)"
  unfolding transcodes_def
proof (intro allI impI)
  let ?f = "if f = negative_zero then 0 else f"
  fix w w' assume ok: "writeValue lim no_lookup d (LNumber f) w = Inr w'"
  then have f: "float_finite ?f" "?f \<noteq> negative_zero" and wr: "write_chunk lim (7 # word_bytes ?f) w = Inr w'"
    by (auto simp: writeValue.simps [of lim no_lookup d] split: if_splits)
  have "reads read_float (wr_elements w) (wr_elements w) (word_bytes ?f) (LNumber ?f)"
    by (rule readsI) (use f in \<open>auto simp: read_float_def readBytes_append Let_def intro!: exI\<close>)
  then have "reads (read_value lim d) (wr_elements w) (wr_elements w) (7 # word_bytes ?f) (LNumber ?f)"
    using writeValue_depth [OF ok] by (intro reads_tag) (auto simp: read_value.simps [of lim d])
  then show "\<exists>bs. emits lim w w' bs \<and> reads (read_value lim d) (wr_elements w) (wr_elements w') bs (normal (LNumber f))"
    using write_chunk_emits [OF wr] by auto
qed

lemma transcodes_bigint:
  assumes "small_limits lim"
  shows "transcodes lim d (LBigInt n)"
  unfolding transcodes_def
proof (intro allI impI)
  let ?b = "magnitude_bytes (nat \<bar>n\<bar>)"
  fix w w' assume ok: "writeValue lim no_lookup d (LBigInt n) w = Inr w'"
  then obtain t where t: "consume lim (length ?b) w = Inr t" "writes lim [[8, if n < 0 then 1 else 0], varint (length ?b), ?b] t = Inr w'"
    by (auto simp: writeValue.simps [of lim no_lookup d] writeBigInt_def Let_def res_bind_Inr_iff split: if_splits)
  have e: "emits lim w w' (8 # (if n < 0 then 1 else 0) # varint (length ?b) @ ?b)" "wr_elements w \<le> wr_elements w'" "length ?b < 2 ^ 35"
    using consume_emits [OF t(1)] writes_emits [OF t(2)] emits_trans [of lim w t "[]" w'] assms by (auto simp: small_limits_def)
  have "reads read_bigint (wr_elements w) (wr_elements w') ((if n < 0 then 1 else 0) # varint (length ?b) @ ?b) (LBigInt n)"
    by (rule readsI) (use e(2,3) in \<open>auto simp: read_bigint_def bytesValue_roundtrip magnitude_value Let_def intro!: exI\<close>)
  then have "reads (read_value lim d) (wr_elements w) (wr_elements w') (8 # (if n < 0 then 1 else 0) # varint (length ?b) @ ?b) (LBigInt n)"
    using writeValue_depth [OF ok] by (intro reads_tag) (auto simp: read_value.simps [of lim d])
  then show "\<exists>bs. emits lim w w' bs \<and> reads (read_value lim d) (wr_elements w) (wr_elements w') bs (normal (LBigInt n))"
    using e(1) by auto
qed

lemma transcodes_bytes:
  assumes "small_limits lim"
  shows "transcodes lim d (LBytes b)"
  unfolding transcodes_def
proof (intro allI impI)
  fix w w' assume ok: "writeValue lim no_lookup d (LBytes b) w = Inr w'"
  then have wr: "writes lim [[4], varint (length b), b] w = Inr w'"
    by (auto simp: writeValue.simps [of lim no_lookup d] writeBytes_def split: if_splits)
  have e: "emits lim w w' (4 # varint (length b) @ b)" "wr_elements w' = wr_elements w" "length b < 2 ^ 35"
    using writes_emits [OF wr] assms by (auto simp: small_limits_def)
  have "reads (\<lambda>r. res_bind (bytesValue r) (\<lambda>(bs, r). Inr (LBytes bs, r))) (wr_elements w) (wr_elements w) ((varint (length b) @ b) @ []) (LBytes b)"
    by (rule reads_bind [OF reads_bytes [OF e(3)]]) (rule reads_return, simp)
  then have "reads (read_value lim d) (wr_elements w) (wr_elements w) (4 # varint (length b) @ b) (LBytes b)"
    using writeValue_depth [OF ok] by (intro reads_tag) (auto simp: read_value.simps [of lim d])
  then show "\<exists>bs. emits lim w w' bs \<and> reads (read_value lim d) (wr_elements w) (wr_elements w') bs (normal (LBytes b))"
    using e(1,2) by auto
qed

lemma transcodes_plain:
  assumes "small_limits lim" shows "plain v \<Longrightarrow> transcodes lim d v"
proof (induction v arbitrary: d)
  case (LText s)
  show ?case unfolding transcodes_def
  proof (intro allI impI)
    fix w w' assume ok: "writeValue lim no_lookup d (LText s) w = Inr w'"
    then have "writeText lim s None w = Inr w'" by (auto simp: writeValue.simps [of lim no_lookup d] split: if_splits)
    then show "\<exists>bs. emits lim w w' bs \<and> reads (read_value lim d) (wr_elements w) (wr_elements w') bs (normal (LText s))"
      using writeText_reads LText assms writeValue_depth [OF ok] by auto
  qed
next
  case (LArray vs)
  then show ?case by (intro transcodes_array assms) auto
next
  case (LObject fs)
  then have "\<forall>(k, v) \<in> set fs. plain_text k \<and> transcodes lim (Suc d) v" by fastforce
  then show ?case using assms by (rule transcodes_object)
next
  case LOther
  then show ?case by (auto simp: transcodes_def writeValue.simps split: if_splits)
qed (auto intro!: transcodes_constant transcodes_number transcodes_bigint transcodes_bytes assms
       simp: writeValue.simps read_value.simps)

lemmas writeValue_eqs = writeValue.simps [of _ _ _ LNull, unfolded logical.case] writeValue.simps [of _ _ _ "LBool b" for b, unfolded logical.case]
  writeValue.simps [of _ _ _ "LText s" for s, unfolded logical.case] writeValue.simps [of _ _ _ "LBytes bs" for bs, unfolded logical.case]
  writeValue.simps [of _ _ _ "LNumber f" for f, unfolded logical.case] writeValue.simps [of _ _ _ "LBigInt n" for n, unfolded logical.case]
  writeValue.simps [of _ _ _ "LArray vs" for vs, unfolded logical.case] writeValue.simps [of _ _ _ "LObject fs" for fs, unfolded logical.case]
  writeValue.simps [of _ _ _ LOther, unfolded logical.case]

lemmas encode_eval = writeValue_eqs encodeCanonical_def encodeCanonicalInto_def start_writer_def write_chunk_def writes_def consume_def
  writeText_def writeBytes_def writeBigInt_def validateUnicode_def utf8_encode_def utf8_point_def surrogate_defs no_lookup_def
  word_bytes_def magnitude_bytes.simps varint.simps sort_by_def compare_entries_def DEFAULT_LIMITS_def upt_rec

lemmas decode_eval = read_value.simps decodeCanonical_def read_text_def bytesValue_def readBytes_def
  utf8_decode_def point_units_def validateUnicode_def surrogate_defs DEFAULT_LIMITS_def

lemma readVarint_small: "b < 128 \<Longrightarrow> readVarint \<lparr>rd_bytes = b # r, rd_elements = e\<rparr> = Inr (b, \<lparr>rd_bytes = r, rd_elements = e\<rparr>)"
  using readVarint_roundtrip [of b r e] by (simp add: varint.simps [of b])

lemma negative_zero_finite: "float_finite negative_zero"
  by (simp add: float_finite_def negative_zero_def unsigned_of_nat take_bit_eq_mod)

text \<open>
  C24. What \<open>encodeCanonical\<close> produces, \<open>decodeCanonical\<close> accepts under the same limits and reads back as
  the value itself, with the fields of every object in byte order of their keys and negative zero as
  zero: for every value whose texts and keys are well-formed UTF-16 without a leading byte order mark, and limits that fit the five-byte length prefix (the defaults do).
\<close>

theorem logical_roundtrip:
  assumes "small_limits lim" and "plain v" and "encodeCanonical lim v = Inr bs"
  shows "decodeCanonical lim bs = Inr (normal v)"
proof -
  obtain w where w: "writeValue lim no_lookup 0 v start_writer = Inr w" "bs = concat (wr_chunks w)"
    using assms(3) by (auto simp: encodeCanonical_def res_bind_Inr_iff)
  obtain cs where cs: "emits lim start_writer w cs" "reads (read_value lim 0) (wr_elements start_writer) (wr_elements w) cs (normal v)"
    by (rule transcodesE [OF transcodes_plain [OF assms(1,2)] w(1)])
  have bs: "bs = cs" "length bs \<le> max_bytes lim" using cs(1) w(2) by (auto simp: emits_def start_writer_def)
  obtain e' where "read_value lim 0 \<lparr>rd_bytes = bs @ [], rd_elements = 0\<rparr> = Inr (normal v, \<lparr>rd_bytes = [], rd_elements = e'\<rparr>)"
    unfolding bs(1) by (rule readsE [OF cs(2), of 0 "[]"]) (simp_all add: start_writer_def)
  then show ?thesis using bs(2) by (simp add: decodeCanonical_def)
qed

definition sample_object :: logical where
  "sample_object = LObject [([0x62], LArray [LBigInt (-300), LBool True, LBytes [255]]), ([0x61], LText [0x20AC, 0xD83D, 0xDE00]), ([0x7A], LNumber negative_zero)]"

definition sample_bytes :: bytes where
  "sample_bytes = [6, 3, 3, 1, 97, 3, 7, 226, 130, 172, 240, 159, 152, 128, 3, 1, 98, 5, 3, 8, 1, 2, 1, 44, 2, 4, 1, 255, 3, 1, 122, 7, 0, 0, 0, 0, 0, 0, 0, 0]"

lemma sample_encoded: "encodeCanonical DEFAULT_LIMITS sample_object = Inr sample_bytes"
  by (simp add: sample_object_def sample_bytes_def encode_eval negative_zero_finite)

theorem logical_roundtrip_witness:
  "encodeCanonical DEFAULT_LIMITS sample_object = Inr sample_bytes \<and> decodeCanonical DEFAULT_LIMITS sample_bytes = Inr (normal sample_object)"
proof -
  have "small_limits DEFAULT_LIMITS" by (simp add: small_limits_def DEFAULT_LIMITS_def)
  moreover have "plain sample_object" by (simp add: sample_object_def plain_text_def surrogate_defs)
  ultimately show ?thesis using logical_roundtrip sample_encoded by blast
qed

section \<open>Texts that do not survive\<close>

text \<open>A text with a leading byte order mark is written with it and read back without it.\<close>

theorem byte_order_mark_lost:
  "encodeCanonical DEFAULT_LIMITS (LText [0xFEFF, 0x61]) = Inr [3, 4, 0xEF, 0xBB, 0xBF, 0x61]
   \<and> decodeCanonical DEFAULT_LIMITS [3, 4, 0xEF, 0xBB, 0xBF, 0x61] = Inr (LText [0x61])"
  by (rule conjI, simp add: encode_eval, simp add: decode_eval readVarint_small)

text \<open>A high surrogate at the end of a text passes the validation and is written as U+FFFD; elsewhere it is refused.\<close>

theorem lone_surrogate_accepted:
  "encodeCanonical DEFAULT_LIMITS (LText [0x61, 0xD800]) = Inr [3, 4, 0x61, 0xEF, 0xBF, 0xBD]
   \<and> encodeCanonical DEFAULT_LIMITS (LText [0xD800, 0x61]) = Inl InvalidUnicodeScalar"
  by (rule conjI; simp add: encode_eval)

section \<open>The streaming twin\<close>

definition honest :: "text_lookup \<Rightarrow> bool" where
  "honest lookup \<longleftrightarrow> (\<forall>fs k s bs. lookup fs k s = Some bs \<longrightarrow> bs = utf8_encode s)"

lemma res_fold_mono:
  "\<forall>x \<in> set xs. \<forall>s t. f x s = Inr t \<longrightarrow> g x s = Inr t \<Longrightarrow> res_fold f xs s = Inr t \<Longrightarrow> res_fold g xs s = Inr t"
proof (induction xs arbitrary: s)
  case (Cons x xs)
  then obtain u where u: "f x s = Inr u" "res_fold f xs u = Inr t" by (auto simp: res_bind_Inr_iff)
  then show ?case using Cons.IH [OF _ u(2)] Cons.prems(1) by simp
qed simp

lemma fold_entries_mono:
  "\<forall>(k, v) \<in> set es. \<forall>s t. f k v s = Inr t \<longrightarrow> g k v s = Inr t \<Longrightarrow> fold_entries f es p s = Inr t \<Longrightarrow> fold_entries g es p s = Inr t"
proof (induction es arbitrary: p s)
  case (Cons e es)
  obtain k v where e: "e = (k, v)" by fastforce
  obtain u where u: "p \<noteq> Some (utf8_encode k)" "f k v s = Inr u" "fold_entries f es (Some (utf8_encode k)) u = Inr t"
    using Cons.prems(2) by (auto simp: e res_bind_Inr_iff split: if_splits)
  then show ?case using Cons.IH [OF _ u(3)] Cons.prems(1) by (auto simp: e)
qed simp

lemma writeText_honest: "honest lookup \<Longrightarrow> lookup fs k s = Some bs \<Longrightarrow> writeText lim s (Some bs) w = writeText lim s None w"
  by (auto simp: writeText_def honest_def)

lemma writeValue_lookup:
  assumes "honest lookup"
  shows "writeValue lim no_lookup d v w = Inr w' \<Longrightarrow> writeValue lim lookup d v w = Inr w'"
proof (induction v arbitrary: d w w')
  case (LArray vs)
  then have "\<forall>v \<in> set vs. \<forall>s t. writeValue lim no_lookup (Suc d) v s = Inr t \<longrightarrow> writeValue lim lookup (Suc d) v s = Inr t" by blast
  note step = res_fold_mono [OF this]
  show ?case using LArray.prems step
    by (auto simp: writeValue_eqs res_bind_Inr_iff split: if_splits)
next
  case (LObject fs)
  let ?entry = "\<lambda>look k v w. res_bind (writeText lim k None w) (\<lambda>w. case v of
       LText s \<Rightarrow> (case look fs k s of Some bs \<Rightarrow> writeText lim s (Some bs) w | None \<Rightarrow> writeValue lim look (Suc d) v w)
     | _ \<Rightarrow> writeValue lim look (Suc d) v w)"
  have "?entry lookup k v s = Inr t" if kv: "(k, v) \<in> set fs" and ok: "?entry no_lookup k v s = Inr t" for k v s t
  proof -
    obtain u where u: "writeText lim k None s = Inr u" "writeValue lim no_lookup (Suc d) v u = Inr t"
      using ok unfolding no_lookup_entry res_bind_Inr_iff by blast
    have v: "writeValue lim lookup (Suc d) v u = Inr t" using LObject.IH [OF kv _ u(2)] by simp
    have "writeText lim x (Some bs) u = Inr t" if "v = LText x" "lookup fs k x = Some bs" for x bs
      using u(2) that writeText_honest [OF assms that(2)] by (simp add: writeValue.simps split: if_splits)
    then show ?thesis using u(1) v by (cases v) (auto split: option.splits)
  qed
  then have "\<forall>(k, v) \<in> set (sort_by compare_entries fs). \<forall>s t. ?entry no_lookup k v s = Inr t \<longrightarrow> ?entry lookup k v s = Inr t" by auto
  note step = fold_entries_mono [OF this]
  from LObject.prems obtain t u where tu: "consume lim (length fs) w = Inr t" "writes lim [[6], varint (length fs)] t = Inr u"
    and fe: "fold_entries (?entry no_lookup) (sort_by compare_entries fs) None u = Inr w'"
    unfolding writeValue_eqs by (auto simp only: res_bind_Inr_iff split: if_splits)
  show ?case using tu step [OF fe] writeValue_depth [OF LObject.prems] unfolding writeValue_eqs by simp
qed (simp_all add: writeValue_eqs split: if_splits)

text \<open>
  C25. The streaming encoder hands its sink, chunk by chunk, the very bytes the buffering encoder
  returns, for every cache of pre-encoded texts that holds the UTF-8 bytes of the text it is asked for.
\<close>

theorem streaming_equals_buffered:
  assumes "honest lookup" and "encodeCanonical lim v = Inr bs"
  shows "\<exists>chunks. encodeCanonicalInto lim lookup v = Inr chunks \<and> concat chunks = bs"
  using assms writeValue_lookup [OF assms(1)]
  by (auto simp: encodeCanonical_def encodeCanonicalInto_def res_bind_Inr_iff)

theorem streaming_equals_buffered_witness:
  "\<exists>chunks. encodeCanonicalInto DEFAULT_LIMITS (\<lambda>_ _ s. Some (utf8_encode s)) sample_object = Inr chunks \<and> concat chunks = sample_bytes"
  using streaming_equals_buffered [of "\<lambda>_ _ s. Some (utf8_encode s)", OF _ sample_encoded] by (simp add: honest_def)

text \<open>The converse fails at the depth limit: a cached text escapes the check that its level would fail.\<close>

theorem streaming_skips_depth:
  "encodeCanonical (DEFAULT_LIMITS\<lparr>max_depth := 0\<rparr>) (LObject [([0x61], LText [])]) = Inl ResourceLimitExceeded
   \<and> encodeCanonicalInto (DEFAULT_LIMITS\<lparr>max_depth := 0\<rparr>) (\<lambda>_ _ s. Some (utf8_encode s)) (LObject [([0x61], LText [])])
     = Inr [[6], [1], [3], [1], [0x61], [3], [0], []]"
  by (rule conjI; simp add: encode_eval)

end
