(* ===== verification/Query_Comparison.thy ===== *)
theory Query_Comparison
  imports Logical_Roundtrip
begin

text \<open>
  The comparison of two snapshots, \<open>packages/engine/src/query-comparison.ts\<close>: the merge of two record
  streams ordered by identity key, and the pairing of added with removed records of equal content.
  A stream is the list of its records (its batches in sequence), read through a generator that holds
  the last key it yielded; strings are lists of UTF-16 code units; the SHA-256 of the host is a parameter.
\<close>

section \<open>Records\<close>

record query_record =
  q_record_id :: units
  q_category :: units
  q_kind :: units
  q_universal_kind :: units
  q_owner_artifact :: units
  q_owner_version :: units
  q_span_json :: "units option"
  q_identity_key :: "units option"
  q_facets :: "units list option"
  q_body :: logical

record record_source =
  rs_records :: "query_record list"
  rs_ordered :: bool

type_synonym comparison_pair = "query_record \<times> query_record"

record comparison_diff =
  cd_added :: "query_record list"
  cd_removed :: "query_record list"
  cd_changed :: "comparison_pair list"
  cd_moved :: "comparison_pair list"
  cd_correlated :: "comparison_pair list"
  cd_possible :: "comparison_pair list"

datatype comparison_error = OrderUnavailable | EncodingFailed uce_error
datatype correlation_policy = Strict | IncludePossible

definition compareCanonicalIdentity :: "units \<Rightarrow> units \<Rightarrow> int" where
  "compareCanonicalIdentity left right = lex_cmp int left right"

definition ascii :: "string \<Rightarrow> units" where
  "ascii s = map of_char s"

definition comparison_content :: "query_record \<Rightarrow> logical" where
  "comparison_content r = LObject
     [(ascii ''kind'', LText (q_kind r)), (ascii ''universal_kind'', LText (q_universal_kind r)), (ascii ''category'', LText (q_category r)),
      (ascii ''body'', q_body r), (ascii ''facets'', LArray (map LText (case q_facets r of Some fs \<Rightarrow> fs | None \<Rightarrow> [])))]"

definition comparisonContentDigest :: "(bytes \<Rightarrow> units) \<Rightarrow> query_record \<Rightarrow> comparison_error + units" where
  "comparisonContentDigest digestBytes r =
     (case encodeCanonical DEFAULT_LIMITS (comparison_content r) of Inl e \<Rightarrow> Inl (EncodingFailed e) | Inr bs \<Rightarrow> Inr (digestBytes bs))"

definition comparisonLocationKey :: "query_record \<Rightarrow> units" where
  "comparisonLocationKey r = q_owner_artifact r @ [0] @ q_owner_version r @ [0] @ (case q_span_json r of Some s \<Rightarrow> s | None \<Rightarrow> ascii ''null'')"

section \<open>The generator\<close>

text \<open>\<open>next()\<close>: records without a key and repetitions of the last key are skipped, a key below the last one throws.\<close>

fun next_record :: "units option \<Rightarrow> query_record list \<Rightarrow> comparison_error + (query_record option \<times> units option \<times> query_record list)" where
  "next_record previousKey [] = Inr (None, previousKey, [])"
| "next_record previousKey (r # rs) =
     (case q_identity_key r of
        None \<Rightarrow> next_record previousKey rs
      | Some key \<Rightarrow>
          if (case previousKey of Some p \<Rightarrow> compareCanonicalIdentity key p < 0 | None \<Rightarrow> False) then Inl OrderUnavailable
          else if previousKey = Some key then next_record previousKey rs
          else Inr (Some r, Some key, rs))"

type_synonym cursor = "query_record option \<times> units option \<times> query_record list"

definition advance :: "cursor \<Rightarrow> comparison_error + cursor" where
  "advance c = next_record (fst (snd c)) (snd (snd c))"

definition cursor_size :: "cursor \<Rightarrow> nat" where
  "cursor_size c = length (snd (snd c)) + (if fst c = None then 0 else 1)"

lemma next_record_size: "next_record p rs = Inr c \<Longrightarrow> cursor_size c \<le> length rs"
  by (induction p rs rule: next_record.induct) (fastforce simp: cursor_size_def split: option.splits if_splits)+

lemma advance_size: "fst c = Some r \<Longrightarrow> advance c = Inr c' \<Longrightarrow> cursor_size c' < cursor_size c"
  using next_record_size [of "fst (snd c)" "snd (snd c)" c'] by (simp add: advance_def cursor_size_def)

section \<open>The merge\<close>

definition key_of :: "query_record \<Rightarrow> units" where
  "key_of r = (case q_identity_key r of Some k \<Rightarrow> k | None \<Rightarrow> [])"

text \<open>A correlated pair is also recorded as changed or, with equal content, as moved.\<close>

definition correlate :: "(bytes \<Rightarrow> units) \<Rightarrow> query_record \<Rightarrow> query_record \<Rightarrow> comparison_diff \<Rightarrow> comparison_error + comparison_diff" where
  "correlate sha b t d =
     res_bind (comparisonContentDigest sha b) (\<lambda>x. res_bind (comparisonContentDigest sha t) (\<lambda>y.
       let d = d\<lparr>cd_correlated := cd_correlated d @ [(b, t)]\<rparr>
       in Inr (if x \<noteq> y then d\<lparr>cd_changed := cd_changed d @ [(b, t)]\<rparr>
               else if comparisonLocationKey b \<noteq> comparisonLocationKey t then d\<lparr>cd_moved := cd_moved d @ [(b, t)]\<rparr> else d)))"

function (sequential) diff_loop :: "(bytes \<Rightarrow> units) \<Rightarrow> cursor \<Rightarrow> cursor \<Rightarrow> comparison_diff \<Rightarrow> comparison_error + comparison_diff" where
  "diff_loop sha base target d =
     (case fst base of
        None \<Rightarrow>
          (case fst target of
             None \<Rightarrow> Inr d
           | Some t \<Rightarrow> res_bind (advance target) (\<lambda>target. diff_loop sha base target (d\<lparr>cd_added := cd_added d @ [t]\<rparr>)))
      | Some b \<Rightarrow>
          (case fst target of
             None \<Rightarrow> res_bind (advance base) (\<lambda>base. diff_loop sha base target (d\<lparr>cd_removed := cd_removed d @ [b]\<rparr>))
           | Some t \<Rightarrow>
               let order = compareCanonicalIdentity (key_of b) (key_of t)
               in if order < 0 then res_bind (advance base) (\<lambda>base. diff_loop sha base target (d\<lparr>cd_removed := cd_removed d @ [b]\<rparr>))
                  else if order > 0 then res_bind (advance target) (\<lambda>target. diff_loop sha base target (d\<lparr>cd_added := cd_added d @ [t]\<rparr>))
                  else res_bind (correlate sha b t d) (\<lambda>d.
                    res_bind (advance base) (\<lambda>base. res_bind (advance target) (\<lambda>target. diff_loop sha base target d)))))"
  by pat_completeness auto
termination
  by (relation "measure (\<lambda>(sha, base, target, d). cursor_size base + cursor_size target)")
     (auto dest: advance_size intro: add_strict_mono)

section \<open>Possible correlations\<close>

fun group_removed :: "(bytes \<Rightarrow> units) \<Rightarrow> query_record list \<Rightarrow> (units, query_record list) jsmap \<Rightarrow> comparison_error + (units, query_record list) jsmap" where
  "group_removed sha [] m = Inr m"
| "group_removed sha (r # rs) m =
     res_bind (comparisonContentDigest sha r) (\<lambda>digest.
       group_removed sha rs (case jget m digest of None \<Rightarrow> jset digest [r] m | Some bucket \<Rightarrow> jset digest (bucket @ [r]) m))"

fun match_added :: "(bytes \<Rightarrow> units) \<Rightarrow> (units, query_record list) jsmap \<Rightarrow> query_record list \<Rightarrow> units list \<Rightarrow> comparison_pair list \<Rightarrow> comparison_error + comparison_pair list" where
  "match_added sha m [] matched pairs = Inr pairs"
| "match_added sha m (t # ts) matched pairs =
     res_bind (comparisonContentDigest sha t) (\<lambda>digest.
       case jget m digest of
         None \<Rightarrow> match_added sha m ts matched pairs
       | Some bucket \<Rightarrow>
           (case find (\<lambda>candidate. q_record_id candidate \<notin> set matched) bucket of
              None \<Rightarrow> match_added sha m ts matched pairs
            | Some b \<Rightarrow> match_added sha m ts (matched @ [q_record_id b]) (pairs @ [(b, t)])))"

definition possible_pairs :: "(bytes \<Rightarrow> units) \<Rightarrow> correlation_policy \<Rightarrow> comparison_diff \<Rightarrow> comparison_error + comparison_pair list" where
  "possible_pairs sha policy d =
     (if policy = IncludePossible \<and> cd_added d \<noteq> [] \<and> cd_removed d \<noteq> []
      then res_bind (group_removed sha (cd_removed d) []) (\<lambda>m. match_added sha m (cd_added d) [] []) else Inr [])"

section \<open>The result\<close>

definition sort_key :: "query_record \<Rightarrow> units" where
  "sort_key r = (case q_identity_key r of Some k \<Rightarrow> k | None \<Rightarrow> q_record_id r)"

definition sortComparisonRecords :: "query_record list \<Rightarrow> query_record list" where
  "sortComparisonRecords = sort_by (\<lambda>left right. compareCanonicalIdentity (sort_key left) (sort_key right))"

definition sortComparisonPairs :: "comparison_pair list \<Rightarrow> comparison_pair list" where
  "sortComparisonPairs = sort_by (\<lambda>left right. compareCanonicalIdentity (sort_key (snd left)) (sort_key (snd right)))"

definition empty_diff :: comparison_diff where
  "empty_diff = \<lparr>cd_added = [], cd_removed = [], cd_changed = [], cd_moved = [], cd_correlated = [], cd_possible = []\<rparr>"

definition diffComparisonRecordSources ::
    "(bytes \<Rightarrow> units) \<Rightarrow> record_source \<Rightarrow> record_source \<Rightarrow> correlation_policy \<Rightarrow> comparison_error + comparison_diff" where
  "diffComparisonRecordSources sha baseSource targetSource policy =
     (if \<not> rs_ordered baseSource \<or> \<not> rs_ordered targetSource then Inl OrderUnavailable
      else res_bind (next_record None (rs_records baseSource)) (\<lambda>base.
           res_bind (next_record None (rs_records targetSource)) (\<lambda>target.
           res_bind (diff_loop sha base target empty_diff) (\<lambda>d.
           res_bind (possible_pairs sha policy d) (\<lambda>possible.
             Inr \<lparr>cd_added = sortComparisonRecords (cd_added d), cd_removed = sortComparisonRecords (cd_removed d),
                  cd_changed = sortComparisonPairs (cd_changed d), cd_moved = sortComparisonPairs (cd_moved d),
                  cd_correlated = sortComparisonPairs (cd_correlated d), cd_possible = sortComparisonPairs possible\<rparr>)))))"

end
