(* ===== verification/Query_Diff.thy ===== *)
theory Query_Diff
  imports Query_Comparison
begin

text \<open>
  The merge of two ordered record streams computes the set-theoretic difference by identity key, and
  refuses every stream that is not ordered.
\<close>

section \<open>What the generator yields\<close>

interpretation identity_order: strict_comparator compareCanonicalIdentity
  unfolding compareCanonicalIdentity_def by unfold_locales (rule lex_cmp_eq, simp_all add: inj_def)

definition record_keys :: "query_record list \<Rightarrow> units list" where
  "record_keys rs = concat (map (\<lambda>r. case q_identity_key r of None \<Rightarrow> [] | Some k \<Rightarrow> [k]) rs)"

definition keys_ordered :: "query_record list \<Rightarrow> bool" where
  "keys_ordered rs \<longleftrightarrow> sorted_wrt (\<lambda>k l. compareCanonicalIdentity k l \<le> 0) (record_keys rs)"

text \<open>The first record of each key, in the order of the stream.\<close>

fun first_records :: "units set \<Rightarrow> query_record list \<Rightarrow> query_record list" where
  "first_records seen [] = []"
| "first_records seen (r # rs) =
     (case q_identity_key r of
        None \<Rightarrow> first_records seen rs
      | Some k \<Rightarrow> if k \<in> seen then first_records seen rs else r # first_records (insert k seen) rs)"

fun yields :: "units option \<Rightarrow> query_record list \<Rightarrow> query_record list option" where
  "yields previous [] = Some []"
| "yields previous (r # rs) =
     (case q_identity_key r of
        None \<Rightarrow> yields previous rs
      | Some k \<Rightarrow>
          if (case previous of Some p \<Rightarrow> compareCanonicalIdentity k p < 0 | None \<Rightarrow> False) then None
          else if previous = Some k then yields previous rs else map_option (Cons r) (yields (Some k) rs))"

lemma record_keys_simps [simp]:
  "record_keys [] = []" "q_identity_key r = None \<Longrightarrow> record_keys (r # rs) = record_keys rs"
  "q_identity_key r = Some k \<Longrightarrow> record_keys (r # rs) = k # record_keys rs"
  by (simp_all add: record_keys_def)

definition above :: "units option \<Rightarrow> units \<Rightarrow> bool" where
  "above previous k \<longleftrightarrow> (case previous of None \<Rightarrow> True | Some p \<Rightarrow> compareCanonicalIdentity p k \<le> 0)"

lemma above_trans: "above p k \<Longrightarrow> compareCanonicalIdentity k l \<le> 0 \<Longrightarrow> above p l"
  by (cases p) (auto simp: above_def intro: identity_order.cmp_trans)

lemma above_iff: "(case previous of Some p \<Rightarrow> compareCanonicalIdentity k p < 0 | None \<Rightarrow> False) \<longleftrightarrow> \<not> above previous k"
  by (cases previous) (auto simp: above_def identity_order.cmp_neg_iff not_le)

lemma yields_iff: "yields previous rs \<noteq> None \<longleftrightarrow> keys_ordered rs \<and> (\<forall>k \<in> set (record_keys rs). above previous k)"
proof (induction previous rs rule: yields.induct)
  case (1 previous)
  then show ?case by (simp add: keys_ordered_def)
next
  case (2 previous r rs)
  show ?case
  proof (cases "q_identity_key r")
    case None
    then show ?thesis using 2(1) by (simp add: keys_ordered_def)
  next
    case (Some k)
    consider (low) "\<not> above previous k" | (same) "above previous k" "previous = Some k" | (new) "above previous k" "previous \<noteq> Some k" by blast
    then show ?thesis
    proof cases
      case low
      then show ?thesis using Some by (simp add: above_iff identity_order.cmp_refl)
    next
      case same
      then show ?thesis using 2(2) [OF Some] Some by (auto simp: above_iff keys_ordered_def above_def identity_order.cmp_refl)
    next
      case new
      then have "yields previous (r # rs) \<noteq> None \<longleftrightarrow> keys_ordered rs \<and> (\<forall>l \<in> set (record_keys rs). above (Some k) l)"
        using 2(3) [OF Some] Some by (simp add: above_iff identity_order.cmp_refl)
      then show ?thesis using new(1) Some above_trans by (auto simp: keys_ordered_def above_def)
    qed
  qed
qed

lemma yields_firsts:
  "yields previous rs = Some xs \<Longrightarrow> \<forall>k \<in> set (record_keys rs). k \<in> seen \<longleftrightarrow> previous = Some k \<Longrightarrow> xs = first_records seen rs"
proof (induction previous rs arbitrary: seen xs rule: yields.induct)
  case (2 previous r rs)
  show ?case
  proof (cases "q_identity_key r")
    case None
    then show ?thesis using 2(1) [OF None] 2(4,5) by simp
  next
    case (Some k)
    have ab: "above previous k" using 2(4) Some by (cases "above previous k") (auto simp: above_iff)
    show ?thesis
    proof (cases "previous = Some k")
      case True
      then show ?thesis using 2(2) [OF Some] 2(4,5) Some ab by (simp add: above_iff identity_order.cmp_refl)
    next
      case False
      then obtain ys where ys: "yields (Some k) rs = Some ys" "xs = r # ys" using 2(4) Some ab by (auto simp: above_iff)
      have high: "\<forall>l \<in> set (record_keys rs). above (Some k) l" using yields_iff [of "Some k" rs] ys(1) by simp
      have "l \<in> insert k seen \<longleftrightarrow> Some k = Some l" if l: "l \<in> set (record_keys rs)" for l
      proof -
        have "previous \<noteq> Some l"
        proof
          assume p: "previous = Some l"
          then have "compareCanonicalIdentity l k \<le> 0" "compareCanonicalIdentity k l \<le> 0" using ab high l by (auto simp: above_def)
          then show False using False p identity_order.cmp_eq identity_order.cmp_le_iff by (metis order_antisym)
        qed
        then show ?thesis using 2(5) l Some by auto
      qed
      then have "ys = first_records (insert k seen) rs" using 2(3) [OF Some] ys(1) False ab by (simp add: above_iff identity_order.cmp_refl)
      moreover have "k \<notin> seen" using 2(5) Some False by simp
      ultimately show ?thesis using ys(2) Some by simp
    qed
  qed
qed simp

lemma yields_None: "yields None rs = (if keys_ordered rs then Some (first_records {} rs) else None)"
  using yields_iff [of None rs] yields_firsts [of None rs _ "{}"] by (cases "yields None rs") (auto simp: above_def)

abbreviation strictly :: "query_record list \<Rightarrow> bool" where
  "strictly xs \<equiv> sorted_wrt (\<lambda>x y. compareCanonicalIdentity (key_of x) (key_of y) < 0) xs"

lemma yields_strict:
  "yields previous rs = Some xs \<Longrightarrow> strictly xs \<and> (\<forall>x \<in> set xs. q_identity_key x = Some (key_of x) \<and> above previous (key_of x) \<and> previous \<noteq> Some (key_of x))"
proof (induction previous rs arbitrary: xs rule: yields.induct)
  case (2 previous r rs)
  show ?case
  proof (cases "q_identity_key r")
    case None
    then show ?thesis using 2(1) [OF None] 2(4) by simp
  next
    case (Some k)
    have ab: "above previous k" using 2(4) Some by (cases "above previous k") (auto simp: above_iff)
    show ?thesis
    proof (cases "previous = Some k")
      case True
      then show ?thesis using 2(2) [OF Some] 2(4) Some ab by (simp add: above_iff identity_order.cmp_refl)
    next
      case False
      then obtain ys where ys: "yields (Some k) rs = Some ys" "xs = r # ys" using 2(4) Some ab by (auto simp: above_iff)
      note IH = 2(3) [OF Some _ False ys(1), simplified above_iff]
      have k: "key_of r = k" using Some by (simp add: key_of_def)
      have high: "compareCanonicalIdentity k (key_of y) < 0" if "y \<in> set ys" for y
        using IH ab that identity_order.cmp_eq [of k "key_of y"] by (auto simp: above_def order_le_less)
      moreover have "above previous (key_of y)" "previous \<noteq> Some (key_of y)" if "y \<in> set ys" for y
        using high [OF that] ab above_trans [of previous k] identity_order.cmp_neg_iff [of k "key_of y"] by (auto simp: above_def)
      ultimately show ?thesis using IH ab ys(2) Some False k by auto
    qed
  qed
qed simp

text \<open>The records a cursor will still deliver, None if the generator throws on the way.\<close>

definition cursor_list :: "cursor \<Rightarrow> query_record list option" where
  "cursor_list c = (case fst c of None \<Rightarrow> Some [] | Some r \<Rightarrow> map_option (Cons r) (yields (fst (snd c)) (snd (snd c))))"

definition cursor_records :: "cursor \<Rightarrow> query_record set" where
  "cursor_records c = set_option (fst c) \<union> set (snd (snd c))"

lemma next_record_cases:
  "case next_record p rs of Inl e \<Rightarrow> e = OrderUnavailable \<and> yields p rs = None
   | Inr c \<Rightarrow> cursor_list c = yields p rs \<and> cursor_records c \<subseteq> set rs"
proof (induction p rs rule: next_record.induct)
  case (2 p r rs)
  show ?case
  proof (cases "q_identity_key r")
    case None
    then show ?thesis using 2(1) [OF None] by (auto split: sum.splits)
  next
    case (Some k)
    show ?thesis
    proof (cases "above p k \<and> p = Some k")
      case True
      then show ?thesis using 2(2) [OF Some] Some by (auto simp: above_iff identity_order.cmp_refl split: sum.splits)
    next
      case False
      then show ?thesis using Some by (cases "above p k") (auto simp: above_iff cursor_list_def cursor_records_def)
    qed
  qed
qed (simp add: cursor_list_def cursor_records_def)

lemma advance_Some:
  assumes "fst c = Some r"
  shows "advance c = Inl OrderUnavailable \<and> cursor_list c = None
    \<or> (\<exists>c'. advance c = Inr c' \<and> cursor_list c = map_option (Cons r) (cursor_list c') \<and> cursor_records c' \<subseteq> cursor_records c)"
  using next_record_cases [of "fst (snd c)" "snd (snd c)"] assms
  by (cases "advance c") (auto simp: advance_def cursor_list_def cursor_records_def)

section \<open>The merge\<close>

definition content_of :: "(bytes \<Rightarrow> units) \<Rightarrow> query_record \<Rightarrow> units" where
  "content_of sha r = projr (comparisonContentDigest sha r)"

definition encodable :: "(bytes \<Rightarrow> units) \<Rightarrow> query_record set \<Rightarrow> bool" where
  "encodable sha A \<longleftrightarrow> (\<forall>r \<in> A. comparisonContentDigest sha r = Inr (content_of sha r))"

text \<open>The specification of the difference of two lists of records with distinct keys.\<close>

definition unmatched :: "query_record list \<Rightarrow> query_record list \<Rightarrow> query_record list" where
  "unmatched xs ys = filter (\<lambda>x. key_of x \<notin> key_of ` set ys) xs"

definition matched :: "query_record list \<Rightarrow> query_record list \<Rightarrow> comparison_pair list" where
  "matched bs ts = concat (map (\<lambda>b. map (Pair b) (filter (\<lambda>t. key_of b = key_of t) ts)) bs)"

definition content_changed :: "(bytes \<Rightarrow> units) \<Rightarrow> comparison_pair \<Rightarrow> bool" where
  "content_changed sha p \<longleftrightarrow> content_of sha (fst p) \<noteq> content_of sha (snd p)"

definition location_changed :: "comparison_pair \<Rightarrow> bool" where
  "location_changed p \<longleftrightarrow> comparisonLocationKey (fst p) \<noteq> comparisonLocationKey (snd p)"

definition extend_diff :: "(bytes \<Rightarrow> units) \<Rightarrow> query_record list \<Rightarrow> query_record list \<Rightarrow> comparison_diff \<Rightarrow> comparison_diff" where
  "extend_diff sha bs ts d = d\<lparr>cd_added := cd_added d @ unmatched ts bs, cd_removed := cd_removed d @ unmatched bs ts,
     cd_changed := cd_changed d @ filter (content_changed sha) (matched bs ts),
     cd_moved := cd_moved d @ filter (\<lambda>p. \<not> content_changed sha p \<and> location_changed p) (matched bs ts),
     cd_correlated := cd_correlated d @ matched bs ts\<rparr>"

lemma matched_simps [simp]: "matched [] ts = []" "matched bs [] = []" "unmatched [] ts = []" "unmatched xs [] = xs"
  by (simp_all add: matched_def unmatched_def)

lemma strictly_neq: "strictly (x # xs) \<Longrightarrow> y \<in> set xs \<Longrightarrow> key_of x \<noteq> key_of y"
  using identity_order.cmp_refl by (metis less_irrefl sorted_wrt.simps(2))

lemma below_all: "compareCanonicalIdentity (key_of x) (key_of y) < 0 \<Longrightarrow> strictly (y # ys) \<Longrightarrow> key_of x \<notin> key_of ` set (y # ys)"
proof
  assume lt: "compareCanonicalIdentity (key_of x) (key_of y) < 0" and s: "strictly (y # ys)" and "key_of x \<in> key_of ` set (y # ys)"
  then obtain z where z: "z \<in> set (y # ys)" "key_of x = key_of z" by blast
  then have "compareCanonicalIdentity (key_of y) (key_of z) \<le> 0" using s identity_order.cmp_refl by auto
  then have "compareCanonicalIdentity (key_of x) (key_of z) < 0" by (rule identity_order.cmp_less_trans [OF lt])
  then show False using z(2) identity_order.cmp_refl by simp
qed

lemma merge_less:
  assumes "compareCanonicalIdentity (key_of b) (key_of t) < 0" and "strictly (t # ts)"
  shows "unmatched (b # bs) (t # ts) = b # unmatched bs (t # ts)" "matched (b # bs) (t # ts) = matched bs (t # ts)"
    "unmatched (t # ts) (b # bs) = unmatched (t # ts) bs"
proof -
  have b: "key_of b \<notin> key_of ` set (t # ts)" by (rule below_all [OF assms])
  then show "unmatched (b # bs) (t # ts) = b # unmatched bs (t # ts)" by (simp add: unmatched_def)
  have "filter (\<lambda>u. key_of b = key_of u) (t # ts) = []" using b by (auto simp: filter_empty_conv image_iff)
  then show "matched (b # bs) (t # ts) = matched bs (t # ts)" unfolding matched_def by simp
  show "unmatched (t # ts) (b # bs) = unmatched (t # ts) bs" unfolding unmatched_def by (rule filter_cong) (use b in \<open>auto simp: image_iff\<close>)
qed

lemma merge_greater:
  assumes "compareCanonicalIdentity (key_of b) (key_of t) > 0" and "strictly (b # bs)"
  shows "unmatched (b # bs) (t # ts) = unmatched (b # bs) ts" "matched (b # bs) (t # ts) = matched (b # bs) ts"
    "unmatched (t # ts) (b # bs) = t # unmatched ts (b # bs)"
proof -
  have t: "key_of t \<notin> key_of ` set (b # bs)" by (rule below_all) (use assms identity_order.cmp_neg_iff in auto)
  then show "unmatched (t # ts) (b # bs) = t # unmatched ts (b # bs)" by (simp add: unmatched_def)
  have "filter (\<lambda>u. key_of x = key_of u) (t # ts) = filter (\<lambda>u. key_of x = key_of u) ts" if "x \<in> set (b # bs)" for x
    using t that by (auto simp: image_iff)
  then show "matched (b # bs) (t # ts) = matched (b # bs) ts" unfolding matched_def by (metis (no_types, lifting) map_cong)
  show "unmatched (b # bs) (t # ts) = unmatched (b # bs) ts" unfolding unmatched_def by (rule filter_cong) (use t in \<open>auto simp: image_iff\<close>)
qed

lemma merge_equal:
  assumes "key_of b = key_of t" and "strictly (b # bs)" and "strictly (t # ts)"
  shows "unmatched (b # bs) (t # ts) = unmatched bs ts" "matched (b # bs) (t # ts) = (b, t) # matched bs ts"
    "unmatched (t # ts) (b # bs) = unmatched ts bs"
proof -
  have nb: "\<forall>x \<in> set bs. key_of x \<noteq> key_of t" and nt: "\<forall>x \<in> set ts. key_of x \<noteq> key_of b"
    using strictly_neq [OF assms(2)] strictly_neq [OF assms(3)] assms(1) by metis+
  have "filter (\<lambda>u. key_of b = key_of u) (t # ts) = [t]" using nt assms(1) by (auto simp: filter_empty_conv)
  moreover have "filter (\<lambda>u. key_of x = key_of u) (t # ts) = filter (\<lambda>u. key_of x = key_of u) ts" if "x \<in> set bs" for x using nb that by auto
  ultimately show "matched (b # bs) (t # ts) = (b, t) # matched bs ts" unfolding matched_def by (simp cong: map_cong)
  show "unmatched (b # bs) (t # ts) = unmatched bs ts" using nb assms(1) by (auto simp: unmatched_def intro!: filter_cong)
  show "unmatched (t # ts) (b # bs) = unmatched ts bs" using nt assms(1) by (auto simp: unmatched_def intro!: filter_cong)
qed

declare diff_loop.simps [simp del]

definition ordered_cursor :: "cursor \<Rightarrow> bool" where
  "ordered_cursor c \<longleftrightarrow> (\<forall>xs. cursor_list c = Some xs \<longrightarrow> strictly xs)"

definition merged :: "(bytes \<Rightarrow> units) \<Rightarrow> cursor \<Rightarrow> cursor \<Rightarrow> comparison_diff \<Rightarrow> comparison_error + comparison_diff" where
  "merged sha base target d =
     (case (cursor_list base, cursor_list target) of (Some bs, Some ts) \<Rightarrow> Inr (extend_diff sha bs ts d) | _ \<Rightarrow> Inl OrderUnavailable)"

lemma advanceE:
  assumes "fst c = Some r"
  obtains "advance c = Inl OrderUnavailable" "cursor_list c = None"
  | c' where "advance c = Inr c'" "cursor_list c = map_option (Cons r) (cursor_list c')" "cursor_records c' \<subseteq> cursor_records c"
      "cursor_size c' < cursor_size c" "ordered_cursor c \<Longrightarrow> ordered_cursor c'"
  using advance_Some [OF assms] advance_size [OF assms] by (fastforce simp: ordered_cursor_def)

lemma correlate_encodable:
  assumes "encodable sha A" and "b \<in> A" and "t \<in> A"
  shows "correlate sha b t d = Inr (d\<lparr>cd_correlated := cd_correlated d @ [(b, t)],
      cd_changed := cd_changed d @ filter (content_changed sha) [(b, t)],
      cd_moved := cd_moved d @ filter (\<lambda>p. \<not> content_changed sha p \<and> location_changed p) [(b, t)]\<rparr>)"
  using assms by (simp add: correlate_def encodable_def content_changed_def location_changed_def Let_def)

lemma encodable_mono: "encodable sha A \<Longrightarrow> B \<subseteq> A \<Longrightarrow> encodable sha B"
  by (auto simp: encodable_def)

lemma cursor_list_None: "fst c = None \<Longrightarrow> cursor_list c = Some []"
  by (simp add: cursor_list_def)

lemma drop_base:
  assumes b: "fst base = Some b" and ob: "ordered_cursor base"
    and IH: "\<And>c. cursor_size c < cursor_size base \<Longrightarrow> cursor_records c \<subseteq> cursor_records base \<Longrightarrow> ordered_cursor c \<Longrightarrow> diff_loop sha c target d' = merged sha c target d'"
    and first: "\<And>bs ts. cursor_list base = Some (b # bs) \<Longrightarrow> cursor_list target = Some ts \<Longrightarrow> extend_diff sha bs ts d' = extend_diff sha (b # bs) ts d"
  shows "res_bind (advance base) (\<lambda>base. diff_loop sha base target d') = merged sha base target d"
proof (rule advanceE [OF b])
  fix c assume c: "advance base = Inr c" "cursor_list base = map_option (Cons b) (cursor_list c)" "cursor_records c \<subseteq> cursor_records base"
    "cursor_size c < cursor_size base" "ordered_cursor base \<Longrightarrow> ordered_cursor c"
  have "diff_loop sha c target d' = merged sha c target d'" by (rule IH [OF c(4,3) c(5) [OF ob]])
  then show ?thesis using c(1,2) first by (cases "cursor_list c"; cases "cursor_list target") (auto simp: merged_def)
qed (simp add: merged_def)

lemma drop_target:
  assumes t: "fst target = Some t" and ot: "ordered_cursor target"
    and IH: "\<And>c. cursor_size c < cursor_size target \<Longrightarrow> cursor_records c \<subseteq> cursor_records target \<Longrightarrow> ordered_cursor c \<Longrightarrow> diff_loop sha base c d' = merged sha base c d'"
    and first: "\<And>bs ts. cursor_list base = Some bs \<Longrightarrow> cursor_list target = Some (t # ts) \<Longrightarrow> extend_diff sha bs ts d' = extend_diff sha bs (t # ts) d"
  shows "res_bind (advance target) (\<lambda>target. diff_loop sha base target d') = merged sha base target d"
proof (rule advanceE [OF t])
  fix c assume c: "advance target = Inr c" "cursor_list target = map_option (Cons t) (cursor_list c)" "cursor_records c \<subseteq> cursor_records target"
    "cursor_size c < cursor_size target" "ordered_cursor target \<Longrightarrow> ordered_cursor c"
  have "diff_loop sha base c d' = merged sha base c d'" by (rule IH [OF c(4,3) c(5) [OF ot]])
  then show ?thesis using c(1,2) first by (cases "cursor_list c"; cases "cursor_list base") (auto simp: merged_def)
qed (cases "cursor_list base"; simp add: merged_def)

lemma drop_both:
  assumes b: "fst base = Some b" and t: "fst target = Some t" and ob: "ordered_cursor base" and ot: "ordered_cursor target"
    and IH: "\<And>c e. cursor_size c < cursor_size base \<Longrightarrow> cursor_records c \<subseteq> cursor_records base \<Longrightarrow> ordered_cursor c
      \<Longrightarrow> cursor_size e < cursor_size target \<Longrightarrow> cursor_records e \<subseteq> cursor_records target \<Longrightarrow> ordered_cursor e \<Longrightarrow> diff_loop sha c e d' = merged sha c e d'"
    and first: "\<And>bs ts. cursor_list base = Some (b # bs) \<Longrightarrow> cursor_list target = Some (t # ts) \<Longrightarrow> extend_diff sha bs ts d' = extend_diff sha (b # bs) (t # ts) d"
  shows "res_bind (advance base) (\<lambda>base. res_bind (advance target) (\<lambda>target. diff_loop sha base target d')) = merged sha base target d"
proof (rule advanceE [OF b])
  fix c assume c: "advance base = Inr c" "cursor_list base = map_option (Cons b) (cursor_list c)" "cursor_records c \<subseteq> cursor_records base"
    "cursor_size c < cursor_size base" "ordered_cursor base \<Longrightarrow> ordered_cursor c"
  have "res_bind (advance target) (\<lambda>target. diff_loop sha c target d') = merged sha base target d"
  proof (rule advanceE [OF t])
    fix e assume e: "advance target = Inr e" "cursor_list target = map_option (Cons t) (cursor_list e)" "cursor_records e \<subseteq> cursor_records target"
      "cursor_size e < cursor_size target" "ordered_cursor target \<Longrightarrow> ordered_cursor e"
    have "diff_loop sha c e d' = merged sha c e d'" by (rule IH [OF c(4,3) c(5) [OF ob] e(4,3) e(5) [OF ot]])
    then show ?thesis using c(1,2) e(1,2) first by (cases "cursor_list c"; cases "cursor_list e") (auto simp: merged_def)
  qed (cases "cursor_list base"; simp add: merged_def)
  then show ?thesis using c(1) by simp
qed (simp add: merged_def)

lemma cursor_hd: "fst c = Some r \<Longrightarrow> r \<in> cursor_records c"
  by (simp add: cursor_records_def)

lemma cursor_list_hd: "fst c = Some r \<Longrightarrow> cursor_list c = Some xs \<Longrightarrow> \<exists>ys. xs = r # ys"
  by (auto simp: cursor_list_def)

lemma diff_loop_pair:
  assumes b: "fst base = Some b" and t: "fst target = Some t" and ob: "ordered_cursor base" and ot: "ordered_cursor target"
    and enc: "encodable sha (cursor_records base \<union> cursor_records target)"
    and IH: "\<And>c e d'. cursor_size c + cursor_size e < cursor_size base + cursor_size target \<Longrightarrow> cursor_records c \<subseteq> cursor_records base
      \<Longrightarrow> cursor_records e \<subseteq> cursor_records target \<Longrightarrow> ordered_cursor c \<Longrightarrow> ordered_cursor e \<Longrightarrow> diff_loop sha c e d' = merged sha c e d'"
  shows "diff_loop sha base target d = merged sha base target d"
proof -
  let ?cmp = "compareCanonicalIdentity (key_of b) (key_of t)"
  have srt: "strictly xs" if "cursor_list base = Some xs \<or> cursor_list target = Some xs" for xs
    using that ob ot by (auto simp: ordered_cursor_def)
  consider (lt) "?cmp < 0" | (gt) "?cmp > 0" | (eq) "?cmp = 0" by linarith
  then show ?thesis
  proof cases
    case lt
    have "res_bind (advance base) (\<lambda>base. diff_loop sha base target (d\<lparr>cd_removed := cd_removed d @ [b]\<rparr>)) = merged sha base target d"
    proof (rule drop_base [OF b ob])
      fix bs ts assume l: "cursor_list base = Some (b # bs)" "cursor_list target = Some ts"
      then obtain us where us: "ts = t # us" using cursor_list_hd [OF t] by blast
      then have s: "strictly (t # us)" using srt l by blast
      show "extend_diff sha bs ts (d\<lparr>cd_removed := cd_removed d @ [b]\<rparr>) = extend_diff sha (b # bs) ts d"
        by (simp add: us extend_diff_def merge_less [OF lt s])
    qed (use IH ot in simp)
    then show ?thesis using lt b t by (simp add: diff_loop.simps [of sha base] Let_def)
  next
    case gt
    have "res_bind (advance target) (\<lambda>target. diff_loop sha base target (d\<lparr>cd_added := cd_added d @ [t]\<rparr>)) = merged sha base target d"
    proof (rule drop_target [OF t ot])
      fix bs ts assume l: "cursor_list base = Some bs" "cursor_list target = Some (t # ts)"
      then obtain us where us: "bs = b # us" using cursor_list_hd [OF b] by blast
      then have s: "strictly (b # us)" using srt l by blast
      show "extend_diff sha bs ts (d\<lparr>cd_added := cd_added d @ [t]\<rparr>) = extend_diff sha bs (t # ts) d"
        by (simp add: us extend_diff_def merge_greater [OF gt s])
    qed (use IH ob in simp)
    then show ?thesis using gt b t by (simp add: diff_loop.simps [of sha base] Let_def)
  next
    case eq
    then have key: "key_of b = key_of t" by (rule identity_order.cmp_eq)
    let ?d = "d\<lparr>cd_correlated := cd_correlated d @ [(b, t)], cd_changed := cd_changed d @ filter (content_changed sha) [(b, t)],
      cd_moved := cd_moved d @ filter (\<lambda>p. \<not> content_changed sha p \<and> location_changed p) [(b, t)]\<rparr>"
    have "correlate sha b t d = Inr ?d" by (rule correlate_encodable [OF enc]) (use cursor_hd b t in auto)
    moreover have "res_bind (advance base) (\<lambda>base. res_bind (advance target) (\<lambda>target. diff_loop sha base target ?d)) = merged sha base target d"
    proof (rule drop_both [OF b t ob ot])
      fix bs ts assume l: "cursor_list base = Some (b # bs)" "cursor_list target = Some (t # ts)"
      then have s: "strictly (b # bs)" "strictly (t # ts)" using srt by blast+
      show "extend_diff sha bs ts ?d = extend_diff sha (b # bs) (t # ts) d"
        by (simp add: extend_diff_def merge_equal [OF key s])
    qed (use IH in simp)
    ultimately show ?thesis using eq b t by (simp add: diff_loop.simps [of sha base] Let_def)
  qed
qed

lemma diff_loop_merged:
  "encodable sha (cursor_records base \<union> cursor_records target) \<Longrightarrow> ordered_cursor base \<Longrightarrow> ordered_cursor target
   \<Longrightarrow> diff_loop sha base target d = merged sha base target d"
proof (induction "cursor_size base + cursor_size target" arbitrary: base target d rule: less_induct)
  case less
  note enc = less.prems(1) and ob = less.prems(2) and ot = less.prems(3)
  have IH: "diff_loop sha c e d' = merged sha c e d'" if "cursor_size c + cursor_size e < cursor_size base + cursor_size target"
      "cursor_records c \<subseteq> cursor_records base" "cursor_records e \<subseteq> cursor_records target" "ordered_cursor c" "ordered_cursor e" for c e d'
    by (rule less.hyps [OF that(1) encodable_mono [OF enc] that(4,5)]) (use that in blast)
  show ?case
  proof (cases "fst base")
    case nb: None
    show ?thesis
    proof (cases "fst target")
      case None
      then show ?thesis using nb by (simp add: diff_loop.simps [of sha base] merged_def cursor_list_None extend_diff_def)
    next
      case (Some t)
      have "res_bind (advance target) (\<lambda>target. diff_loop sha base target (d\<lparr>cd_added := cd_added d @ [t]\<rparr>)) = merged sha base target d"
        by (rule drop_target [OF Some ot]) (use IH ob in \<open>auto simp: cursor_list_None nb extend_diff_def\<close>)
      then show ?thesis using nb Some by (simp add: diff_loop.simps [of sha base])
    qed
  next
    case sb: (Some b)
    show ?thesis
    proof (cases "fst target")
      case None
      have "res_bind (advance base) (\<lambda>base. diff_loop sha base target (d\<lparr>cd_removed := cd_removed d @ [b]\<rparr>)) = merged sha base target d"
        by (rule drop_base [OF sb ob]) (use IH ot in \<open>auto simp: cursor_list_None None extend_diff_def\<close>)
      then show ?thesis using sb None by (simp add: diff_loop.simps [of sha base])
    next
      case (Some t)
      show ?thesis using diff_loop_pair [OF sb Some ob ot enc] IH by blast
    qed
  qed
qed

section \<open>Possible correlations\<close>

text \<open>
  A pairing of removed with added records of equal content that uses every record at most once and
  leaves an added record alone only if all removed records of its content are taken.
\<close>

definition content_matching :: "(bytes \<Rightarrow> units) \<Rightarrow> query_record list \<Rightarrow> query_record list \<Rightarrow> comparison_pair list \<Rightarrow> bool" where
  "content_matching sha removed added ps \<longleftrightarrow>
     (\<forall>(b, t) \<in> set ps. b \<in> set removed \<and> t \<in> set added \<and> content_of sha b = content_of sha t)
   \<and> distinct (map (\<lambda>p. q_record_id (fst p)) ps) \<and> distinct (map (\<lambda>p. key_of (snd p)) ps)
   \<and> (\<forall>t \<in> set added. t \<notin> snd ` set ps \<longrightarrow>
        (\<forall>b \<in> set removed. content_of sha b = content_of sha t \<longrightarrow> q_record_id b \<in> (\<lambda>p. q_record_id (fst p)) ` set ps))"

lemma group_removed_buckets:
  "encodable sha (set rs) \<Longrightarrow> \<exists>m'. group_removed sha rs m = Inr m' \<and> (\<forall>x. jget_or [] m' x = jget_or [] m x @ filter (\<lambda>r. content_of sha r = x) rs)"
proof (induction rs arbitrary: m)
  case (Cons r rs)
  let ?x = "content_of sha r"
  let ?m = "case jget m ?x of None \<Rightarrow> jset ?x [r] m | Some bucket \<Rightarrow> jset ?x (bucket @ [r]) m"
  have "encodable sha (set rs)" "comparisonContentDigest sha r = Inr ?x" using Cons.prems by (simp_all add: encodable_def)
  moreover have "jget_or [] ?m x = jget_or [] m x @ (if ?x = x then [r] else [])" for x
    by (auto simp: jget_or_def split: option.splits)
  ultimately show ?case using Cons.IH [of ?m] by auto
qed simp

lemma match_added_pairs:
  assumes "\<forall>x. jget_or [] m x = filter (\<lambda>r. content_of sha r = x) removed" and "encodable sha (set ts)"
  shows "\<exists>ps. match_added sha m ts taken pairs = Inr (pairs @ ps)
    \<and> (\<forall>p \<in> set ps. fst p \<in> set removed \<and> snd p \<in> set ts \<and> content_of sha (fst p) = content_of sha (snd p) \<and> q_record_id (fst p) \<notin> set taken)
    \<and> distinct (map (\<lambda>p. q_record_id (fst p)) ps)
    \<and> (\<forall>P. sorted_wrt P ts \<longrightarrow> sorted_wrt P (map snd ps))
    \<and> (\<forall>t \<in> set ts. t \<notin> snd ` set ps \<longrightarrow> (\<forall>b \<in> set removed. content_of sha b = content_of sha t \<longrightarrow> q_record_id b \<in> set taken \<union> (\<lambda>p. q_record_id (fst p)) ` set ps))"
  using assms(2)
proof (induction ts arbitrary: taken pairs)
  case (Cons t ts)
  let ?x = "content_of sha t"
  have t: "comparisonContentDigest sha t = Inr ?x" and enc: "encodable sha (set ts)" using Cons.prems by (simp_all add: encodable_def)
  have bucket: "jget_or [] m ?x = filter (\<lambda>r. content_of sha r = ?x) removed" using assms(1) by blast
  define pick where "pick = find (\<lambda>c. q_record_id c \<notin> set taken) (jget_or [] m ?x)"
  have step: "match_added sha m (t # ts) taken pairs =
      (case pick of None \<Rightarrow> match_added sha m ts taken pairs | Some b \<Rightarrow> match_added sha m ts (taken @ [q_record_id b]) (pairs @ [(b, t)]))"
    by (simp add: t pick_def jget_or_def split: option.splits)
  show ?case
  proof (cases pick)
    case None
    then have all: "\<forall>b \<in> set removed. content_of sha b = ?x \<longrightarrow> q_record_id b \<in> set taken"
      using bucket by (auto simp: pick_def find_None_iff)
    show ?thesis using Cons.IH [OF enc, of taken pairs] None all unfolding step by fastforce
  next
    case (Some b)
    then have b: "b \<in> set removed" "content_of sha b = ?x" "q_record_id b \<notin> set taken"
      using bucket by (auto simp: pick_def find_Some_iff dest!: nth_mem)
    obtain ps where ps: "match_added sha m ts (taken @ [q_record_id b]) (pairs @ [(b, t)]) = Inr ((pairs @ [(b, t)]) @ ps)"
      "\<forall>p \<in> set ps. fst p \<in> set removed \<and> snd p \<in> set ts \<and> content_of sha (fst p) = content_of sha (snd p) \<and> q_record_id (fst p) \<notin> set (taken @ [q_record_id b])"
      "distinct (map (\<lambda>p. q_record_id (fst p)) ps)" "\<forall>P. sorted_wrt P ts \<longrightarrow> sorted_wrt P (map snd ps)"
      "\<forall>t \<in> set ts. t \<notin> snd ` set ps \<longrightarrow> (\<forall>b' \<in> set removed. content_of sha b' = content_of sha t \<longrightarrow>
         q_record_id b' \<in> set (taken @ [q_record_id b]) \<union> (\<lambda>p. q_record_id (fst p)) ` set ps)"
      using Cons.IH [OF enc, of "taken @ [q_record_id b]" "pairs @ [(b, t)]"] by blast
    show ?thesis
    proof (intro exI [of _ "(b, t) # ps"] conjI)
      show "match_added sha m (t # ts) taken pairs = Inr (pairs @ (b, t) # ps)" using ps(1) Some unfolding step by simp
      show "distinct (map (\<lambda>p. q_record_id (fst p)) ((b, t) # ps))" using ps(2,3) by auto
      show "\<forall>P. sorted_wrt P (t # ts) \<longrightarrow> sorted_wrt P (map snd ((b, t) # ps))" using ps(2,4) by auto
    qed (use ps(2,5) b in fastforce)+
  qed
qed simp

section \<open>The comparison of two sources\<close>

lemma sort_by_sorted: "sorted_wrt (\<lambda>x y. cmp x y \<le> 0) xs \<Longrightarrow> sort_by cmp xs = xs"
proof (induction xs)
  case (Cons x xs)
  then have "sort_by cmp (x # xs) = insort_by cmp x xs" by (simp add: sort_by_def)
  then show ?case using Cons.prems by (cases xs) simp_all
qed (simp add: sort_by_def)

abbreviation keyed :: "query_record list \<Rightarrow> bool" where
  "keyed xs \<equiv> \<forall>x \<in> set xs. q_identity_key x = Some (key_of x)"

lemma sort_key_keyed: "q_identity_key x = Some (key_of x) \<Longrightarrow> sort_key x = key_of x"
  by (simp add: sort_key_def)

lemma sort_records: "strictly xs \<Longrightarrow> keyed xs \<Longrightarrow> sortComparisonRecords xs = xs"
  unfolding sortComparisonRecords_def
  by (rule sort_by_sorted, rule sorted_wrt_mono_rel) (simp_all add: sort_key_keyed)

lemma sort_pairs: "sorted_wrt (\<lambda>p q. compareCanonicalIdentity (key_of (snd p)) (key_of (snd q)) \<le> 0) ps \<Longrightarrow> keyed (map snd ps) \<Longrightarrow> sortComparisonPairs ps = ps"
  unfolding sortComparisonPairs_def
  by (rule sort_by_sorted, rule sorted_wrt_mono_rel) (simp_all add: sort_key_keyed)

lemma matched_in: "(b, t) \<in> set (matched bs ts) \<longleftrightarrow> b \<in> set bs \<and> t \<in> set ts \<and> key_of b = key_of t"
  by (auto simp: matched_def)

lemma matched_sorted: "strictly bs \<Longrightarrow> sorted_wrt (\<lambda>p q. compareCanonicalIdentity (key_of (snd p)) (key_of (snd q)) \<le> 0) (matched bs ts)"
proof (induction bs)
  case (Cons b bs)
  have split: "matched (b # bs) ts = map (Pair b) (filter (\<lambda>t. key_of b = key_of t) ts) @ matched bs ts" by (simp add: matched_def)
  have own: "sorted_wrt (\<lambda>p q. compareCanonicalIdentity (key_of (snd p)) (key_of (snd q)) \<le> 0) (map (Pair b) (filter (\<lambda>t. key_of b = key_of t) ts))"
    by (induction ts) (auto simp: identity_order.cmp_refl)
  have "compareCanonicalIdentity (key_of b) (key_of t) \<le> 0" if "(c, t) \<in> set (matched bs ts)" for c t
  proof -
    have "c \<in> set bs" "key_of c = key_of t" using that by (simp_all add: matched_in)
    then have "compareCanonicalIdentity (key_of b) (key_of t) < 0" using Cons.prems by (metis sorted_wrt.simps(2))
    then show ?thesis by simp
  qed
  then have "\<forall>p \<in> set (map (Pair b) (filter (\<lambda>t. key_of b = key_of t) ts)). \<forall>q \<in> set (matched bs ts). compareCanonicalIdentity (key_of (snd p)) (key_of (snd q)) \<le> 0"
    by auto
  then show ?case using own Cons unfolding split sorted_wrt_append by simp
qed simp

lemma first_records_keyed: "keyed (first_records seen rs) \<and> set (first_records seen rs) \<subseteq> set rs"
proof (induction seen rs rule: first_records.induct)
  case (2 seen r rs)
  show ?case
  proof (cases "q_identity_key r")
    case None
    then show ?thesis using 2(1) by auto
  next
    case (Some k)
    then have "key_of r = k" by (simp add: key_of_def)
    then show ?thesis using 2(2,3) [OF Some] Some by (cases "k \<in> seen") auto
  qed
qed simp

lemma unmatched_subset: "set (unmatched xs ys) \<subseteq> set xs" "strictly xs \<Longrightarrow> strictly (unmatched xs ys)"
  by (auto simp: unmatched_def intro: sorted_wrt_filter)

lemma start_cursor:
  "case next_record None rs of Inl e \<Rightarrow> e = OrderUnavailable \<and> \<not> keys_ordered rs
   | Inr c \<Rightarrow> ordered_cursor c \<and> cursor_records c \<subseteq> set rs \<and> cursor_list c = (if keys_ordered rs then Some (first_records {} rs) else None)"
  using next_record_cases [of None rs] yields_None [of rs] yields_strict [of None rs]
  by (auto simp: ordered_cursor_def split: sum.splits if_splits)

lemma possible_pairs_matching:
  assumes "encodable sha (set (cd_removed d) \<union> set (cd_added d))" and "strictly (cd_added d)" and "keyed (cd_added d)"
  shows "\<exists>ps. possible_pairs sha policy d = Inr ps \<and> sortComparisonPairs ps = ps
    \<and> (if policy = Strict then ps = [] else content_matching sha (cd_removed d) (cd_added d) ps)"
proof (cases "policy = IncludePossible \<and> cd_added d \<noteq> [] \<and> cd_removed d \<noteq> []")
  case True
  have enc: "encodable sha (set (cd_removed d))" "encodable sha (set (cd_added d))" using assms(1) by (auto simp: encodable_def)
  obtain m where m: "group_removed sha (cd_removed d) [] = Inr m" "\<forall>x. jget_or [] m x = filter (\<lambda>r. content_of sha r = x) (cd_removed d)"
    using group_removed_buckets [OF enc(1), of "[]"] by auto
  obtain ps where ps: "match_added sha m (cd_added d) [] [] = Inr ps"
    "\<forall>p \<in> set ps. fst p \<in> set (cd_removed d) \<and> snd p \<in> set (cd_added d) \<and> content_of sha (fst p) = content_of sha (snd p)"
    "distinct (map (\<lambda>p. q_record_id (fst p)) ps)" "\<forall>P. sorted_wrt P (cd_added d) \<longrightarrow> sorted_wrt P (map snd ps)"
    "\<forall>t \<in> set (cd_added d). t \<notin> snd ` set ps \<longrightarrow> (\<forall>b \<in> set (cd_removed d). content_of sha b = content_of sha t \<longrightarrow> q_record_id b \<in> (\<lambda>p. q_record_id (fst p)) ` set ps)"
    using match_added_pairs [OF m(2) enc(2), of "[]" "[]"] by auto
  have s: "strictly (map snd ps)" using ps(4) assms(2) by blast
  have "sortComparisonPairs ps = ps"
    by (rule sort_pairs) (use s ps(2) assms(3) in \<open>auto simp: sorted_wrt_map elim!: sorted_wrt_mono_rel [rotated]\<close>)
  moreover have "distinct (map (\<lambda>p. key_of (snd p)) ps)"
    using s by (auto simp: distinct_conv_nth sorted_wrt_iff_nth_less identity_order.cmp_refl) (metis identity_order.cmp_refl less_irrefl linorder_neqE_nat)
  ultimately show ?thesis using True ps m(1) by (intro exI [of _ ps]) (auto simp: possible_pairs_def content_matching_def)
next
  case False
  then have "possible_pairs sha policy d = Inr []" by (auto simp: possible_pairs_def)
  moreover have "policy = IncludePossible \<Longrightarrow> content_matching sha (cd_removed d) (cd_added d) []" using False by (auto simp: content_matching_def)
  moreover have "sortComparisonPairs [] = []" by (simp add: sortComparisonPairs_def sort_by_def)
  ultimately show ?thesis by (cases policy) auto
qed

lemma first_records_strict: "keys_ordered rs \<Longrightarrow> strictly (first_records {} rs)"
  using yields_None [of rs] yields_strict [of None rs] by simp

lemma sort_merged:
  assumes "strictly bs" and "strictly ts" and "keyed bs" and "keyed ts"
  shows "sortComparisonRecords (unmatched ts bs) = unmatched ts bs" "sortComparisonRecords (unmatched bs ts) = unmatched bs ts"
    "sortComparisonPairs (matched bs ts) = matched bs ts" "sortComparisonPairs (filter P (matched bs ts)) = filter P (matched bs ts)"
proof -
  have key: "keyed (map snd (matched bs ts))" using assms(4) by (auto simp: matched_in)
  show "sortComparisonRecords (unmatched ts bs) = unmatched ts bs" "sortComparisonRecords (unmatched bs ts) = unmatched bs ts"
    by (rule sort_records; use assms unmatched_subset in blast)+
  show "sortComparisonPairs (matched bs ts) = matched bs ts" by (rule sort_pairs [OF matched_sorted [OF assms(1)] key])
  show "sortComparisonPairs (filter P (matched bs ts)) = filter P (matched bs ts)"
    by (rule sort_pairs [OF sorted_wrt_filter [OF matched_sorted [OF assms(1)]]]) (use key in auto)
qed

lemma merged_possible:
  assumes "encodable sha (set bs \<union> set ts)" and "strictly ts" and "keyed ts"
  shows "\<exists>ps. possible_pairs sha policy (extend_diff sha bs ts empty_diff) = Inr ps \<and> sortComparisonPairs ps = ps
    \<and> (if policy = Strict then ps = [] else content_matching sha (unmatched bs ts) (unmatched ts bs) ps)"
proof -
  have d: "cd_removed (extend_diff sha bs ts empty_diff) = unmatched bs ts" "cd_added (extend_diff sha bs ts empty_diff) = unmatched ts bs"
    by (simp_all add: extend_diff_def empty_diff_def)
  have "encodable sha (set (unmatched bs ts) \<union> set (unmatched ts bs))"
    by (rule encodable_mono [OF assms(1)]) (use unmatched_subset(1) in blast)
  then show ?thesis
    using possible_pairs_matching [of sha "extend_diff sha bs ts empty_diff" policy] unmatched_subset [of ts bs] assms(2,3) unfolding d by blast
qed

text \<open>
  C27. The comparison is the difference by identity key: for records whose content can be encoded, the
  result is refused exactly when a source is not declared or not found to be ordered; otherwise, over
  the first record of each key, it lists the records of the target without a counterpart as added,
  those of the base as removed, the pairs of equal key as correlated, changed when the content
  digests differ and moved when only the location does, all in key order; possible correlations are a
  maximal one-to-one pairing of removed and added records of equal content, and only on request.
\<close>

theorem comparison_exact:
  assumes "encodable sha (set base \<union> set target)"
  shows "if baseOrdered \<and> targetOrdered \<and> keys_ordered base \<and> keys_ordered target
    then let bs = first_records {} base; ts = first_records {} target
      in \<exists>possible. diffComparisonRecordSources sha \<lparr>rs_records = base, rs_ordered = baseOrdered\<rparr> \<lparr>rs_records = target, rs_ordered = targetOrdered\<rparr> policy
          = Inr \<lparr>cd_added = unmatched ts bs, cd_removed = unmatched bs ts,
                 cd_changed = filter (content_changed sha) (matched bs ts),
                 cd_moved = filter (\<lambda>p. \<not> content_changed sha p \<and> location_changed p) (matched bs ts),
                 cd_correlated = matched bs ts, cd_possible = possible\<rparr>
        \<and> (if policy = Strict then possible = [] else content_matching sha (unmatched bs ts) (unmatched ts bs) possible)
    else diffComparisonRecordSources sha \<lparr>rs_records = base, rs_ordered = baseOrdered\<rparr> \<lparr>rs_records = target, rs_ordered = targetOrdered\<rparr> policy
          = Inl OrderUnavailable"
proof -
  let ?b = "\<lparr>rs_records = base, rs_ordered = baseOrdered\<rparr>" and ?t = "\<lparr>rs_records = target, rs_ordered = targetOrdered\<rparr>"
  let ?bs = "first_records {} base" and ?ts = "first_records {} target"
  note sb = start_cursor [of base] and st = start_cursor [of target]
  have run: "res_bind (next_record None base) (\<lambda>b. res_bind (next_record None target) (\<lambda>t. diff_loop sha b t empty_diff)) =
      (if keys_ordered base \<and> keys_ordered target then Inr (extend_diff sha ?bs ?ts empty_diff) else Inl OrderUnavailable)"
  proof (cases "next_record None base"; cases "next_record None target")
    fix b t assume c: "next_record None base = Inr b" "next_record None target = Inr t"
    have "diff_loop sha b t empty_diff = merged sha b t empty_diff"
      by (rule diff_loop_merged [OF encodable_mono [OF assms]]) (use sb st c in auto)
    then show ?thesis using sb st c by (simp add: merged_def)
  qed (use sb st in auto)
  show ?thesis
  proof (cases "baseOrdered \<and> targetOrdered \<and> keys_ordered base \<and> keys_ordered target")
    case False
    then show ?thesis using run by (auto simp: diffComparisonRecordSources_def res_bind_Inl_iff split: if_splits)
  next
    case True
    then obtain b t where c: "next_record None base = Inr b" "next_record None target = Inr t" "diff_loop sha b t empty_diff = Inr (extend_diff sha ?bs ?ts empty_diff)"
      using run by (auto simp: res_bind_Inr_iff split: if_splits)
    have srt: "strictly ?bs" "strictly ?ts" using True first_records_strict by blast+
    have key: "keyed ?bs" "keyed ?ts" "set ?bs \<subseteq> set base" "set ?ts \<subseteq> set target" using first_records_keyed by blast+
    obtain ps where ps: "possible_pairs sha policy (extend_diff sha ?bs ?ts empty_diff) = Inr ps" "sortComparisonPairs ps = ps"
        "if policy = Strict then ps = [] else content_matching sha (unmatched ?bs ?ts) (unmatched ?ts ?bs) ps"
      using merged_possible [OF encodable_mono [OF assms] srt(2) key(2)] key(3,4) by blast
    show ?thesis using True c ps sort_merged [OF srt key(1,2)] by (simp add: diffComparisonRecordSources_def extend_diff_def empty_diff_def Let_def)
  qed
qed

definition sample_record :: "string \<Rightarrow> string \<Rightarrow> string \<Rightarrow> query_record" where
  "sample_record key owner kind = \<lparr>q_record_id = ascii key, q_category = ascii ''entity'', q_kind = ascii kind, q_universal_kind = ascii ''symbol'',
     q_owner_artifact = ascii owner, q_owner_version = ascii ''v1'', q_span_json = None, q_identity_key = Some (ascii key), q_facets = None, q_body = LObject []\<rparr>"

definition sample_base :: "query_record list" where
  "sample_base = [sample_record ''a'' ''x'' ''class'', sample_record ''b'' ''x'' ''class'', sample_record ''c'' ''x'' ''var'']"

definition sample_target :: "query_record list" where
  "sample_target = [sample_record ''b'' ''y'' ''class'', sample_record ''c'' ''x'' ''let'', sample_record ''d'' ''x'' ''class'']"

lemma sample_encodable: "encodable id (set sample_base \<union> set sample_target)"
  by (simp add: encodable_def content_of_def sample_base_def sample_target_def sample_record_def comparisonContentDigest_def comparison_content_def
      ascii_def encode_eval of_char_def)

lemma sample_ordered: "keys_ordered sample_base" "keys_ordered sample_target"
  by code_simp+

theorem comparison_exact_witness:
  "\<exists>d. diffComparisonRecordSources id \<lparr>rs_records = sample_base, rs_ordered = True\<rparr> \<lparr>rs_records = sample_target, rs_ordered = True\<rparr> IncludePossible = Inr d
    \<and> cd_added d = [sample_record ''d'' ''x'' ''class''] \<and> cd_removed d = [sample_record ''a'' ''x'' ''class'']
    \<and> content_matching id (cd_removed d) (cd_added d) (cd_possible d)"
proof -
  let ?bs = "first_records {} sample_base" and ?ts = "first_records {} sample_target"
  have "unmatched ?ts ?bs = [sample_record ''d'' ''x'' ''class'']" "unmatched ?bs ?ts = [sample_record ''a'' ''x'' ''class'']"
    by (simp_all add: unmatched_def sample_base_def sample_target_def sample_record_def ascii_def key_of_def)
  then show ?thesis
    using comparison_exact [OF sample_encodable, of True True IncludePossible] sample_ordered by (auto simp: Let_def)
qed

end
