(* ===== verification/Cursor_Cache.thy ===== *)
theory Cursor_Cache
  imports Digest_Text
begin

text \<open>
  \<open>packages/engine/src/cursor-cache.ts\<close>: signed query cursors and the reading of one page of a result stream.  The
  keyed hash, the compressed JSON of a token's entries and the calendar of the default expiry are the parameter
  \<open>cursor_codec\<close>; the stream behind a page, its hydration and the serialised sizes of its items are the
  parameter \<open>page_source\<close>.  A claim other than the completeness is accepted only as a string: the source reads the direction of
  a token through \<open>String\<close>, which would also accept a one-element array that no encoder writes.
\<close>

section \<open>Claims and tokens\<close>

datatype cursor_direction = ForwardCursor | BackwardCursor

text \<open>A value of a decoded payload: a string, or something else.\<close>

datatype 'c claim_value = ClaimText string | ClaimOther 'c

type_synonym 'c claim_fields = "(string, 'c claim_value) jsmap"

record 'c query_cursor_claims =
  qc_execution_id :: string
  qc_scope_digest :: string
  qc_result_stream :: string
  qc_stable_position :: string
  qc_direction :: cursor_direction
  qc_projection_digest :: string
  qc_ordering_digest :: string
  qc_response_budget_ceiling_digest :: string
  qc_frozen_snapshot_digest :: string
  qc_frozen_status_digest :: string
  qc_completeness :: "'c claim_value option"
  qc_expires_at :: string

text \<open>The errors of the cursor cache, and one that the reader or the hydration of an item throws.\<close>

datatype cursor_error = CursorInvalid | CursorExpired | CursorStreamMismatch | CursorProjectionMismatch | CursorBudgetInvalid | PortError string

text \<open>
  \<open>cc_pack\<close> is the hexadecimal text of the compressed stable JSON of some entries and the three unpackers read the
  payloads of the token versions, None when they throw; \<open>cc_hmac\<close> prints the keyed hash in hexadecimal.
\<close>

record 'c cursor_codec =
  cc_secret :: string
  cc_ttl :: int
  cc_hmac :: "string \<Rightarrow> string \<Rightarrow> string"
  cc_pack :: "'c claim_fields \<Rightarrow> string"
  cc_unpack_v3 :: "string \<Rightarrow> 'c claim_fields option"
  cc_unpack_v2 :: "string \<Rightarrow> 'c claim_fields option"
  cc_unpack_legacy :: "string \<Rightarrow> 'c claim_fields option"
  cc_expiry :: "string \<Rightarrow> int \<Rightarrow> string"

definition new_cursor_cache :: "'c cursor_codec \<Rightarrow> cursor_error + 'c cursor_codec" where
  "new_cursor_cache codec =
     (if cc_secret codec = [] then Inl CursorInvalid
      else if cc_ttl codec \<le> 0 \<or> cc_ttl codec > 9007199254740991 then Inl CursorBudgetInvalid
      else Inr codec)"

definition compact_fields :: "'c query_cursor_claims \<Rightarrow> 'c claim_fields" where
  "compact_fields c =
     [(''b'', ClaimText (qc_response_budget_ceiling_digest c))]
     @ (case qc_completeness c of None \<Rightarrow> [] | Some r \<Rightarrow> [(''c'', r)])
     @ [(''d'', ClaimText (if qc_direction c = ForwardCursor then ''f'' else ''b'')),
        (''e'', ClaimText (qc_execution_id c)), (''f'', ClaimText (qc_frozen_status_digest c)), (''i'', ClaimText (qc_frozen_snapshot_digest c)),
        (''o'', ClaimText (qc_ordering_digest c)), (''p'', ClaimText (qc_stable_position c)), (''q'', ClaimText (qc_projection_digest c)),
        (''r'', ClaimText (qc_result_stream c)), (''s'', ClaimText (qc_scope_digest c)), (''x'', ClaimText (qc_expires_at c))]"

definition encodeV3 :: "'c cursor_codec \<Rightarrow> 'c query_cursor_claims \<Rightarrow> string" where
  "encodeV3 codec claims =
     (let signed = ''v3.'' @ cc_pack codec (compact_fields claims) in signed @ ''.'' @ cc_hmac codec (cc_secret codec) signed)"

definition hex_part :: "string \<Rightarrow> bool" where
  "hex_part s \<longleftrightarrow> s \<noteq> [] \<and> length s mod 2 = 0 \<and> list_all (\<lambda>c. c \<in> set hex_digits) s"

definition text_claim :: "'c claim_fields \<Rightarrow> string \<Rightarrow> string option" where
  "text_claim entries key = (case jget entries key of Some (ClaimText t) \<Rightarrow> Some t | _ \<Rightarrow> None)"

definition renamed_field :: "'c claim_fields \<Rightarrow> string \<times> string \<Rightarrow> 'c claim_fields" where
  "renamed_field compact names = (case jget compact (fst names) of None \<Rightarrow> [] | Some v \<Rightarrow> [(snd names, v)])"

definition expanded_fields :: "'c claim_fields \<Rightarrow> 'c claim_fields" where
  "expanded_fields compact =
     [(''cursor_kind'', ClaimText ''query'')]
     @ (if text_claim compact ''d'' = Some ''f'' then [(''direction'', ClaimText ''forward'')]
        else if text_claim compact ''d'' = Some ''b'' then [(''direction'', ClaimText ''backward'')] else [])
     @ concat (map (renamed_field compact)
         [(''e'', ''execution_id''), (''s'', ''scope_digest''), (''r'', ''result_stream''), (''p'', ''stable_position''), (''q'', ''projection_digest''),
          (''o'', ''ordering_digest''), (''b'', ''response_budget_ceiling_digest''), (''i'', ''frozen_snapshot_digest''), (''f'', ''frozen_status_digest''),
          (''x'', ''expires_at''), (''c'', ''completeness'')])"

definition claims_of :: "'c claim_fields \<Rightarrow> cursor_error + 'c query_cursor_claims" where
  "claims_of entries =
     (case (text_claim entries ''cursor_kind'', text_claim entries ''execution_id'', text_claim entries ''scope_digest'', text_claim entries ''result_stream'',
            text_claim entries ''stable_position'', text_claim entries ''direction'', text_claim entries ''projection_digest'', text_claim entries ''ordering_digest'',
            text_claim entries ''response_budget_ceiling_digest'', text_claim entries ''frozen_snapshot_digest'', text_claim entries ''frozen_status_digest'',
            text_claim entries ''expires_at'') of
        (Some kind, Some execution, Some scope, Some stream, Some position, Some direction, Some projection, Some sorting, Some budget, Some snapshot, Some status, Some expires) \<Rightarrow>
          if kind \<noteq> ''query'' \<or> direction \<noteq> ''forward'' \<and> direction \<noteq> ''backward'' then Inl CursorInvalid
          else Inr \<lparr>qc_execution_id = execution, qc_scope_digest = scope, qc_result_stream = stream, qc_stable_position = position,
             qc_direction = (if direction = ''forward'' then ForwardCursor else BackwardCursor), qc_projection_digest = projection, qc_ordering_digest = sorting,
             qc_response_budget_ceiling_digest = budget, qc_frozen_snapshot_digest = snapshot, qc_frozen_status_digest = status,
             qc_completeness = jget entries ''completeness'', qc_expires_at = expires\<rparr>
      | _ \<Rightarrow> Inl CursorInvalid)"

definition decode :: "'c cursor_codec \<Rightarrow> string \<Rightarrow> cursor_error + 'c query_cursor_claims" where
  "decode codec token =
     (let parts = split_on CHR ''.'' token; legacy = (length parts = 2);
          v2 = (length parts = 3 \<and> hd parts = ''v2''); v3 = (length parts = 3 \<and> hd parts = ''v3'')
      in if \<not> (legacy \<or> v2 \<or> v3) \<or> [] \<in> set parts then Inl CursorInvalid
         else if \<not> list_all hex_part (if legacy then parts else tl parts) then Inl CursorInvalid
         else
           let signed = (if legacy then hd parts else hd parts @ ''.'' @ parts ! 1)
           in if cc_hmac codec (cc_secret codec) signed \<noteq> last parts then Inl CursorInvalid
              else (case (if v3 then map_option expanded_fields (cc_unpack_v3 codec (parts ! 1))
                          else if v2 then cc_unpack_v2 codec (parts ! 1) else cc_unpack_legacy codec (hd parts)) of
                      None \<Rightarrow> Inl CursorInvalid
                    | Some entries \<Rightarrow> claims_of entries))"

section \<open>Pages\<close>

record stream_request =
  sr_execution_id :: string
  sr_result_stream :: string
  sr_direction :: cursor_direction
  sr_position :: "string option"
  sr_limit :: int

record 'i stream_result =
  sr_total :: "int option"
  sr_items :: "'i list"
  sr_has_more :: bool

text \<open>The reader of a stream, the hydration of an item, which may return \<open>undefined\<close>, and what the loop measures of an item.\<close>

record 'i page_source =
  ps_read :: "stream_request \<Rightarrow> cursor_error + 'i stream_result"
  ps_hydrate :: "'i \<Rightarrow> int \<Rightarrow> cursor_error + 'i option"
  ps_characters :: "'i \<Rightarrow> int"
  ps_snippet_characters :: "'i \<Rightarrow> int"
  ps_position :: "'i \<Rightarrow> string option"

record 'c page_request =
  pr_cursor :: "string option"
  pr_execution_id :: "string option"
  pr_result_stream :: "string option"
  pr_direction :: "cursor_direction option"
  pr_projection_digest :: "string option"
  pr_response_budget_ceiling_digest :: "string option"
  pr_frozen_snapshot_digest :: "string option"
  pr_frozen_status_digest :: "string option"
  pr_scope_digest :: "string option"
  pr_ordering_digest :: "string option"
  pr_expected_execution_id :: "string option"
  pr_expected_result_stream :: "string option"
  pr_expected_projection_digest :: "string option"
  pr_expected_response_budget_ceiling_digest :: "string option"
  pr_expected_frozen_snapshot_digest :: "string option"
  pr_expected_frozen_status_digest :: "string option"
  pr_expected_scope_digest :: "string option"
  pr_expected_ordering_digest :: "string option"
  pr_completeness :: "'c claim_value option"
  pr_expires_at :: "string option"
  pr_now :: string
  pr_limit :: int
  pr_max_characters :: int

record 'i read_page =
  pg_start_cursor :: string
  pg_total :: "int option"
  pg_items :: "'i list"
  pg_next_cursor :: "string option"
  pg_previous_cursor :: "string option"
  pg_has_next :: bool
  pg_has_previous :: bool

text \<open>The checks of a decoded cursor in their order: what is expected, what is claimed, and the error.\<close>

definition cursor_checks :: "'c page_request \<Rightarrow> 'c query_cursor_claims \<Rightarrow> (string option \<times> string \<times> cursor_error) list" where
  "cursor_checks r c =
     [(pr_expected_execution_id r, qc_execution_id c, CursorInvalid),
      (pr_expected_result_stream r, qc_result_stream c, CursorStreamMismatch),
      (pr_expected_projection_digest r, qc_projection_digest c, CursorProjectionMismatch),
      (pr_expected_response_budget_ceiling_digest r, qc_response_budget_ceiling_digest c, CursorProjectionMismatch),
      (pr_expected_frozen_snapshot_digest r, qc_frozen_snapshot_digest c, CursorInvalid),
      (pr_expected_frozen_status_digest r, qc_frozen_status_digest c, CursorInvalid),
      (pr_expected_scope_digest r, qc_scope_digest c, CursorInvalid),
      (pr_expected_ordering_digest r, qc_ordering_digest c, CursorProjectionMismatch)]"

definition mismatch :: "string option \<times> string \<times> cursor_error \<Rightarrow> bool" where
  "mismatch check \<longleftrightarrow> fst check \<noteq> None \<and> fst check \<noteq> Some (fst (snd check))"

definition continued_claims :: "'c cursor_codec \<Rightarrow> 'c page_request \<Rightarrow> string \<Rightarrow> cursor_error + 'c query_cursor_claims" where
  "continued_claims codec r token =
     res_bind (decode codec token) (\<lambda>claims.
       if str_cmp (qc_expires_at claims) (pr_now r) \<le> 0 then Inl CursorExpired
       else case find mismatch (cursor_checks r claims) of Some (_, _, e) \<Rightarrow> Inl e | None \<Rightarrow> Inr claims)"

definition initial_claims :: "'c cursor_codec \<Rightarrow> 'c page_request \<Rightarrow> cursor_error + 'c query_cursor_claims" where
  "initial_claims codec r =
     (case (pr_execution_id r, pr_result_stream r, pr_direction r, pr_projection_digest r, pr_response_budget_ceiling_digest r, pr_frozen_snapshot_digest r, pr_frozen_status_digest r) of
        (Some execution, Some stream, Some direction, Some projection, Some budget, Some snapshot, Some status) \<Rightarrow>
          Inr \<lparr>qc_execution_id = execution, qc_scope_digest = (case pr_scope_digest r of Some s \<Rightarrow> s | None \<Rightarrow> snapshot), qc_result_stream = stream,
             qc_stable_position = [], qc_direction = direction, qc_projection_digest = projection,
             qc_ordering_digest = (case pr_ordering_digest r of Some s \<Rightarrow> s | None \<Rightarrow> projection), qc_response_budget_ceiling_digest = budget,
             qc_frozen_snapshot_digest = snapshot, qc_frozen_status_digest = status, qc_completeness = pr_completeness r,
             qc_expires_at = (case pr_expires_at r of Some t \<Rightarrow> t | None \<Rightarrow> cc_expiry codec (pr_now r) (cc_ttl codec))\<rparr>
      | _ \<Rightarrow> Inl CursorInvalid)"

text \<open>The loop over the items within the limit; the first item is kept whatever its size.\<close>

fun fill_page :: "'i page_source \<Rightarrow> int \<Rightarrow> 'i list \<Rightarrow> 'i list \<Rightarrow> int \<Rightarrow> int \<Rightarrow> cursor_error + 'i list" where
  "fill_page src max_characters [] items consumed source = Inr items"
| "fill_page src max_characters (raw # rest) items consumed source =
     (case ps_hydrate src raw source of
        Inl e \<Rightarrow> Inl e
      | Inr None \<Rightarrow> Inr items
      | Inr (Some hydrated) \<Rightarrow>
          if items \<noteq> [] \<and> consumed + ps_characters src hydrated > max_characters then Inr items
          else fill_page src max_characters rest (items @ [hydrated]) (consumed + ps_characters src hydrated) (source + ps_snippet_characters src hydrated))"

definition safePosition :: "'i page_source \<Rightarrow> 'i \<Rightarrow> cursor_error + string" where
  "safePosition src item = (case ps_position src item of Some p \<Rightarrow> if p = [] then Inl CursorInvalid else Inr p | None \<Rightarrow> Inl CursorInvalid)"

definition edge_position :: "'i page_source \<Rightarrow> ('i list \<Rightarrow> 'i) \<Rightarrow> 'i list \<Rightarrow> cursor_error + string option" where
  "edge_position src pick items = (if items = [] then Inr None else res_bind (safePosition src (pick items)) (\<lambda>p. Inr (Some p)))"

definition turned :: "cursor_direction \<Rightarrow> cursor_direction" where
  "turned d = (if d = ForwardCursor then BackwardCursor else ForwardCursor)"

definition finished_page :: "'c cursor_codec \<Rightarrow> 'i page_source \<Rightarrow> 'c page_request \<Rightarrow> 'c query_cursor_claims \<Rightarrow> 'i stream_result \<Rightarrow> 'i list \<Rightarrow> cursor_error + 'i read_page" where
  "finished_page codec src r claims result items =
     (let itemLimited = take (nat (pr_limit r)) (sr_items result);
          hasMore = (sr_has_more result \<or> int (length (sr_items result)) > pr_limit r \<or> length items < length itemLimited)
      in res_bind (edge_position src hd items) (\<lambda>firstPosition.
         res_bind (edge_position src last items) (\<lambda>lastPosition.
           let make = (\<lambda>direction position. encodeV3 codec (claims\<lparr>qc_direction := direction, qc_stable_position := position\<rparr>))
           in Inr \<lparr>pg_start_cursor = encodeV3 codec claims, pg_total = sr_total result, pg_items = items,
                pg_next_cursor = (if hasMore then map_option (make (qc_direction claims)) lastPosition else None),
                pg_previous_cursor = (if qc_stable_position claims \<noteq> [] then map_option (make (turned (qc_direction claims))) firstPosition else None),
                pg_has_next = hasMore, pg_has_previous = (qc_stable_position claims \<noteq> [])\<rparr>)))"

definition page_of :: "'c cursor_codec \<Rightarrow> 'i page_source \<Rightarrow> 'c page_request \<Rightarrow> 'c query_cursor_claims \<Rightarrow> cursor_error + 'i read_page" where
  "page_of codec src r claims =
     res_bind (ps_read src \<lparr>sr_execution_id = qc_execution_id claims, sr_result_stream = qc_result_stream claims, sr_direction = qc_direction claims,
            sr_position = (if qc_stable_position claims = [] then None else Some (qc_stable_position claims)), sr_limit = pr_limit r + 1\<rparr>) (\<lambda>result.
     res_bind (fill_page src (pr_max_characters r) (take (nat (pr_limit r)) (sr_items result)) [] 0 0) (\<lambda>items.
       finished_page codec src r claims result items))"

definition positive_safe :: "int \<Rightarrow> bool" where
  "positive_safe n \<longleftrightarrow> 1 \<le> n \<and> n \<le> 9007199254740991"

definition readPage :: "'c cursor_codec \<Rightarrow> 'i page_source \<Rightarrow> 'c page_request \<Rightarrow> cursor_error + 'i read_page" where
  "readPage codec src r =
     (if \<not> positive_safe (pr_limit r) \<or> \<not> positive_safe (pr_max_characters r) then Inl CursorBudgetInvalid
      else res_bind (case pr_cursor r of Some token \<Rightarrow> continued_claims codec r token | None \<Rightarrow> initial_claims codec r) (page_of codec src r))"

end
