(* ===== verification/Manifest_Store.thy ===== *)
theory Manifest_Store
  imports Cursor_Cache
begin

text \<open>
  The in-memory manifests of \<open>packages/engine/src/query-execution.ts\<close> that the cursors page through, and the hydration of
  their items by \<open>hydrate_item\<close> of \<open>canonical-query-data-port.ts\<close>.  The reader of the manifests is an interpretation
  of \<open>manifest_reader\<close>, the contract a page relies on.
\<close>

section \<open>Items and their hydration\<close>

text \<open>The request to attach source text to an item; \<open>sh_request\<close> is its scope, record and window.\<close>

record 'r source_hydration =
  sh_mode :: string
  sh_max_total_characters :: int
  sh_request :: 'r

text \<open>\<open>qi_value\<close> stands for the value of an item and the fields that nothing here reads.\<close>

record ('v, 'r) query_stream_item =
  qi_stable_sort_key :: string
  qi_value :: 'v
  qi_source_hydration :: "'r source_hydration option"

text \<open>\<open>snippet\<close> is \<open>sourceSnippet\<close>, which may find nothing or throw, and \<open>attach\<close> sets \<open>optional_source_snippets\<close> of a value.\<close>

definition hydrate_item :: "('r source_hydration \<Rightarrow> cursor_error + string option) \<Rightarrow> ('v \<Rightarrow> string \<Rightarrow> 'v)
    \<Rightarrow> ('v, 'r) query_stream_item \<Rightarrow> int \<Rightarrow> cursor_error + ('v, 'r) query_stream_item option" where
  "hydrate_item snippet attach entry usedCharacters =
     (case qi_source_hydration entry of
        None \<Rightarrow> Inr (Some entry)
      | Some h \<Rightarrow>
          let result = entry\<lparr>qi_source_hydration := None\<rparr>; remaining = sh_max_total_characters h - usedCharacters
          in if sh_mode h = ''none'' then Inr (Some result)
             else if remaining \<le> 0 then Inr None
             else res_bind (snippet h) (\<lambda>found.
               case found of
                 None \<Rightarrow> Inl (PortError ''core:source_unavailable'')
               | Some txt \<Rightarrow> if int (length txt) > remaining then Inr None else Inr (Some (result\<lparr>qi_value := attach (qi_value entry) txt\<rparr>))))"

section \<open>Manifests\<close>

record 'i memory_manifest =
  mm_segments :: "'i list list"
  mm_positions :: "(string, nat) jsmap"
  mm_entry_count :: nat

definition MANIFEST_SEGMENT_ROWS :: nat where "MANIFEST_SEGMENT_ROWS = 512"

lemma segment_rows [simp]: "0 < MANIFEST_SEGMENT_ROWS" "MANIFEST_SEGMENT_ROWS \<noteq> 0"
  by (simp_all add: MANIFEST_SEGMENT_ROWS_def)

fun sliced_from :: "nat \<Rightarrow> 'i list \<Rightarrow> 'i list list" where
  "sliced_from 0 items = []"
| "sliced_from (Suc n) items = (if items = [] then [] else take MANIFEST_SEGMENT_ROWS items # sliced_from n (drop MANIFEST_SEGMENT_ROWS items))"

definition note_position :: "string \<Rightarrow> nat \<Rightarrow> (string, nat) jsmap \<Rightarrow> (string, nat) jsmap" where
  "note_position key ordinal positions = (if jhas positions key then positions else jset key ordinal positions)"

text \<open>The loop over the slices starts at zero and has at most one turn for each item.\<close>

definition memoryManifest :: "('v, 'r) query_stream_item list \<Rightarrow> ('v, 'r) query_stream_item memory_manifest" where
  "memoryManifest items =
     (let segments = sliced_from (length items) items
      in \<lparr>mm_segments = (if segments = [] then [[]] else segments),
          mm_positions = fold (\<lambda>ordinal. note_position (qi_stable_sort_key (items ! ordinal)) ordinal) [0..<length items] [],
          mm_entry_count = length items\<rparr>)"

record 'i manifest_builder =
  mb_segments :: "'i list list"
  mb_positions :: "(string, nat) jsmap"
  mb_segment :: "'i list"
  mb_ordinal :: nat

definition add_item :: "('v, 'r) query_stream_item \<Rightarrow> ('v, 'r) query_stream_item manifest_builder \<Rightarrow> ('v, 'r) query_stream_item manifest_builder" where
  "add_item x b =
     (let b = b\<lparr>mb_positions := note_position (qi_stable_sort_key x) (mb_ordinal b) (mb_positions b), mb_segment := mb_segment b @ [x], mb_ordinal := mb_ordinal b + 1\<rparr>
      in if length (mb_segment b) \<ge> MANIFEST_SEGMENT_ROWS then b\<lparr>mb_segments := mb_segments b @ [mb_segment b], mb_segment := []\<rparr> else b)"

definition iterated_manifest :: "('v, 'r) query_stream_item list \<Rightarrow> ('v, 'r) query_stream_item memory_manifest" where
  "iterated_manifest items =
     (let b = fold add_item items \<lparr>mb_segments = [], mb_positions = [], mb_segment = [], mb_ordinal = 0\<rparr>
      in \<lparr>mm_segments = (if mb_segment b \<noteq> [] \<or> mb_segments b = [] then mb_segments b @ [mb_segment b] else mb_segments b),
          mm_positions = mb_positions b, mm_entry_count = mb_ordinal b\<rparr>)"

section \<open>The store\<close>

definition manifest_key :: "string \<Rightarrow> string \<Rightarrow> cursor_direction \<Rightarrow> string" where
  "manifest_key executionId resultStream direction =
     executionId @ [CHR 0x00] @ resultStream @ [CHR 0x00] @ (case direction of ForwardCursor \<Rightarrow> ''forward'' | BackwardCursor \<Rightarrow> ''backward'')"

type_synonym ('v, 'r) manifest_store = "(string, ('v, 'r) query_stream_item memory_manifest) jsmap"

definition append_manifest :: "string \<Rightarrow> string \<Rightarrow> cursor_direction \<Rightarrow> ('v, 'r) query_stream_item list \<Rightarrow> ('v, 'r) manifest_store \<Rightarrow> ('v, 'r) manifest_store" where
  "append_manifest executionId resultStream direction items st =
     (let key = manifest_key executionId resultStream direction in if jhas st key then st else jset key (memoryManifest items) st)"

definition appendIterable :: "string \<Rightarrow> string \<Rightarrow> cursor_direction \<Rightarrow> ('v, 'r) query_stream_item list \<Rightarrow> ('v, 'r) manifest_store \<Rightarrow> ('v, 'r) manifest_store" where
  "appendIterable executionId resultStream direction items st =
     (let key = manifest_key executionId resultStream direction in if jhas st key then st else jset key (iterated_manifest items) st)"

lemma read_progress: "(k :: nat) < e \<and> i < l \<Longrightarrow> \<not> (c :: int) \<le> 0 \<Longrightarrow> e - (k + nat c) < e - k"
  by auto

function read_loop :: "'i memory_manifest \<Rightarrow> int \<Rightarrow> nat \<Rightarrow> 'i list \<Rightarrow> 'i list \<times> nat" where
  "read_loop m limit nextOrdinal items =
     (if nextOrdinal < mm_entry_count m \<and> int (length items) < limit then
        let segmentIndex = nextOrdinal div MANIFEST_SEGMENT_ROWS; segmentOffset = nextOrdinal mod MANIFEST_SEGMENT_ROWS;
            segment = (if segmentIndex < length (mm_segments m) then mm_segments m ! segmentIndex else []);
            count = min (limit - int (length items)) (int (length segment) - int segmentOffset)
        in if count \<le> 0 then (items, nextOrdinal)
           else read_loop m limit (nextOrdinal + nat count) (items @ take (nat count) (drop segmentOffset segment))
      else (items, nextOrdinal))"
  by pat_completeness auto

termination
  by (relation "measure (\<lambda>(m, limit, nextOrdinal, items). mm_entry_count m - nextOrdinal)") (simp, simp only: in_measure case_prod_conv, erule (1) read_progress)

declare read_loop.simps [simp del]

definition memory_read :: "('v, 'r) manifest_store \<Rightarrow> stream_request \<Rightarrow> cursor_error + ('v, 'r) query_stream_item stream_result" where
  "memory_read st request =
     (case jget st (manifest_key (sr_execution_id request) (sr_result_stream request) (sr_direction request)) of
        None \<Rightarrow> Inr \<lparr>sr_total = None, sr_items = [], sr_has_more = False\<rparr>
      | Some manifest \<Rightarrow>
          if mm_entry_count manifest = 0 then Inr \<lparr>sr_total = None, sr_items = [], sr_has_more = False\<rparr>
          else
            let positionOrdinal = (case sr_position request of None \<Rightarrow> None | Some p \<Rightarrow> jget (mm_positions manifest) p);
                (items, nextOrdinal) = read_loop manifest (sr_limit request) (case positionOrdinal of None \<Rightarrow> 0 | Some ordinal \<Rightarrow> ordinal + 1) []
            in Inr \<lparr>sr_total = Some (int (mm_entry_count manifest)), sr_items = items, sr_has_more = (nextOrdinal < mm_entry_count manifest)\<rparr>)"

section \<open>The segments of a manifest\<close>

definition segmented :: "'i list list \<Rightarrow> 'i list \<Rightarrow> bool" where
  "segmented ss xs \<longleftrightarrow> concat ss = xs \<and> ss \<noteq> [] \<and> list_all (\<lambda>s. length s = MANIFEST_SEGMENT_ROWS) (butlast ss) \<and> length (last ss) \<le> MANIFEST_SEGMENT_ROWS"

lemma segment_slice:
  "segmented ss xs \<Longrightarrow> n < length xs \<Longrightarrow> n div MANIFEST_SEGMENT_ROWS < length ss
     \<and> drop (n mod MANIFEST_SEGMENT_ROWS) (ss ! (n div MANIFEST_SEGMENT_ROWS)) = take (MANIFEST_SEGMENT_ROWS - n mod MANIFEST_SEGMENT_ROWS) (drop n xs)"
proof (induction ss arbitrary: xs n)
  case (Cons s ss)
  let ?R = MANIFEST_SEGMENT_ROWS
  show ?case
  proof (cases "ss = []")
    case True
    then have "xs = s" "length s \<le> ?R" "n < ?R" using Cons.prems by (auto simp: segmented_def)
    moreover from this have "n div ?R = 0" "n mod ?R = n" "take (?R - n) (drop n s) = drop n s" by simp_all
    ultimately show ?thesis using True by simp
  next
    case False
    then have s: "length s = ?R" "segmented ss (concat ss)" "xs = s @ concat ss" using Cons.prems(1) by (auto simp: segmented_def)
    show ?thesis
    proof (cases "n < ?R")
      case True
      then have "n div ?R = 0" "n mod ?R = n" by simp_all
      then show ?thesis using s True by simp
    next
      case False
      then obtain k where k: "n = ?R + k" by (metis le_Suc_ex not_less)
      have "n div ?R = Suc (k div ?R)" "n mod ?R = k mod ?R" by (simp_all add: k div_add_self1)
      moreover have "k < length (concat ss)" using Cons.prems(2) s k by simp
      ultimately show ?thesis using Cons.IH [OF s(2), of k] s(1,3) k by simp
    qed
  qed
qed (simp add: segmented_def)

lemma read_loop_slice:
  "segmented (mm_segments m) xs \<Longrightarrow> mm_entry_count m = length xs \<Longrightarrow> k \<le> length xs \<Longrightarrow> read_loop m limit k items =
    (items @ take (nat (limit - int (length items))) (drop k xs), min (length xs) (k + nat (limit - int (length items))))"
proof (induction m limit k items rule: read_loop.induct)
  case (1 m limit k items)
  let ?R = MANIFEST_SEGMENT_ROWS
  show ?case
  proof (cases "k < length xs \<and> int (length items) < limit")
    case False
    then show ?thesis using 1(3,4) by (auto simp: read_loop.simps [of m limit k items] min_def)
  next
    case True
    define segment where "segment = mm_segments m ! (k div ?R)"
    define offset where "offset = k mod ?R"
    define c where "c = min (nat (limit - int (length items))) (length segment - offset)"
    have slice: "k div ?R < length (mm_segments m)" "drop offset segment = take (?R - offset) (drop k xs)"
      using segment_slice [OF 1(2), of k] True by (simp_all add: segment_def offset_def)
    have "offset < ?R" by (simp add: offset_def)
    then have len: "0 < length segment - offset" "length segment - offset \<le> length xs - k" "length segment - offset \<le> ?R - offset"
      using arg_cong [OF slice(2), of length] True by auto
    have count: "min (limit - int (length items)) (int (length segment) - int offset) = int c" using len(1) True by (auto simp: c_def min_def)
    have c: "0 < c" "c \<le> length xs - k" "c \<le> ?R - offset" "c \<le> nat (limit - int (length items))" using len True by (auto simp: c_def)
    have part: "take c (drop offset segment) = take c (drop k xs)" using c(3) by (simp add: slice(2) min_def)
    have step: "read_loop m limit k items = read_loop m limit (k + c) (items @ take c (drop k xs))"
      using True 1(3) slice(1) c(1) part count unfolding read_loop.simps [of m limit k items]
      by (simp add: Let_def segment_def [symmetric] offset_def [symmetric])
    define d where "d = nat (limit - int (length items)) - c"
    have d: "nat (limit - int (length (items @ take c (drop k xs)))) = d" "nat (limit - int (length items)) = c + d"
      using c(2,4) by (auto simp: d_def min_def)
    have IH: "read_loop m limit (k + c) (items @ take c (drop k xs)) =
      ((items @ take c (drop k xs)) @ take d (drop (k + c) xs), min (length xs) (k + c + d))"
      using 1(1) [OF _ refl refl refl refl, unfolded segment_def [symmetric] offset_def [symmetric]] True 1(2,3,4) slice(1) c(1,2) part count d(1)
      by (simp add: segment_def [symmetric] offset_def [symmetric])
    show ?thesis unfolding step IH d(2) take_add drop_drop by (simp add: add.commute add.left_commute)
  qed
qed

lemma sliced_nil [simp]: "sliced_from n [] = []"
  by (cases n) simp_all

lemma sliced_segmented: "length items \<le> n \<Longrightarrow> items \<noteq> [] \<Longrightarrow> segmented (sliced_from n items) items"
proof (induction n arbitrary: items)
  case (Suc n)
  let ?rest = "drop MANIFEST_SEGMENT_ROWS items"
  show ?case
  proof (cases "?rest = []")
    case True
    then show ?thesis using Suc.prems(2) by (simp add: segmented_def)
  next
    case False
    have "length ?rest \<le> n" using Suc.prems segment_rows(1) by (simp del: segment_rows) 
    then have IH: "segmented (sliced_from n ?rest) ?rest" using Suc.IH False by blast
    then show ?thesis using Suc.prems(2) False by (auto simp: segmented_def)
  qed
qed simp

lemma memory_segmented: "segmented (mm_segments (memoryManifest items)) items"
proof (cases "items = []")
  case False
  then have "segmented (sliced_from (length items) items) items" by (intro sliced_segmented) simp_all
  moreover from this have "sliced_from (length items) items \<noteq> []" by (simp add: segmented_def)
  ultimately show ?thesis by (simp add: memoryManifest_def)
qed (simp add: memoryManifest_def segmented_def)

text \<open>A position is noted with the first ordinal that has it.\<close>

definition positions_of :: "('v, 'r) query_stream_item list \<Rightarrow> (string, nat) jsmap" where
  "positions_of items = fold (\<lambda>ordinal. note_position (qi_stable_sort_key (items ! ordinal)) ordinal) [0..<length items] []"

lemma positions_snoc: "positions_of (items @ [x]) = note_position (qi_stable_sort_key x) (length items) (positions_of items)"
proof -
  have "fold (\<lambda>ordinal. note_position (qi_stable_sort_key ((items @ [x]) ! ordinal)) ordinal) [0..<length items] []
      = fold (\<lambda>ordinal. note_position (qi_stable_sort_key (items ! ordinal)) ordinal) [0..<length items] []"
    by (rule fold_cong) (simp_all add: nth_append)
  then show ?thesis by (simp add: positions_of_def)
qed

lemma positions_first:
  "jget (positions_of items) key = Some k \<longleftrightarrow> k < length items \<and> qi_stable_sort_key (items ! k) = key \<and> (\<forall>i < k. qi_stable_sort_key (items ! i) \<noteq> key)"
proof (induction items arbitrary: k rule: rev_induct)
  case (snoc x items)
  have known: "key \<in> set (jkeys (positions_of items)) \<longleftrightarrow> (\<exists>k. jget (positions_of items) key = Some k)" for key
    by (metis jget_Some_key map_of_eq_None_iff not_Some_eq list.set_map)
  show ?case
  proof (cases "\<exists>j. jget (positions_of items) key = Some j")
    case True
    then obtain j where j: "jget (positions_of items) key = Some j" by blast
    have "jget (positions_of (items @ [x])) key = Some j"
      using j known [of "qi_stable_sort_key x"] by (cases "qi_stable_sort_key x = key") (auto simp: positions_snoc note_position_def)
    moreover have first: "j < length items" "qi_stable_sort_key (items ! j) = key" "\<forall>i < j. qi_stable_sort_key (items ! i) \<noteq> key" using j snoc by blast+
    have "k = j" if "k < length (items @ [x])" "qi_stable_sort_key ((items @ [x]) ! k) = key" "\<forall>i < k. qi_stable_sort_key ((items @ [x]) ! i) \<noteq> key"
    proof (rule ccontr)
      assume "k \<noteq> j"
      then consider "k < j" | "j < k" by linarith
      then show False
      proof cases
        case 1
        then have "qi_stable_sort_key (items ! k) = key" using that(2) first(1) by (simp add: nth_append)
        then show False using first(3) 1 by blast
      next
        case 2
        then have "qi_stable_sort_key ((items @ [x]) ! j) \<noteq> key" using that(3) by blast
        then show False using first(1,2) by (simp add: nth_append)
      qed
    qed
    moreover have "j < length (items @ [x]) \<and> qi_stable_sort_key ((items @ [x]) ! j) = key \<and> (\<forall>i < j. qi_stable_sort_key ((items @ [x]) ! i) \<noteq> key)"
      using first by (auto simp: nth_append)
    ultimately show ?thesis by (metis option.inject)
  next
    case False
    then have none: "jget (positions_of items) key = None" by simp
    have new: "qi_stable_sort_key (items ! i) \<noteq> key" if "i < length items" for i
    proof
      assume "qi_stable_sort_key (items ! i) = key"
      define j where "j = (LEAST j. qi_stable_sort_key (items ! j) = key)"
      have "qi_stable_sort_key (items ! j) = key" "j \<le> i" "\<forall>l < j. qi_stable_sort_key (items ! l) \<noteq> key"
        using \<open>qi_stable_sort_key (items ! i) = key\<close> unfolding j_def by (auto intro: LeastI Least_le dest: not_less_Least)
      then show False using False snoc [of j] that by auto
    qed
    have "jget (positions_of (items @ [x])) key = (if qi_stable_sort_key x = key then Some (length items) else None)"
      using none known [of key] False by (auto simp: positions_snoc note_position_def)
    then show ?thesis using new by (auto simp: nth_append less_Suc_eq split: if_splits)
  qed
qed (simp add: positions_of_def)

text \<open>Building a manifest item by item gives segments of the same items and the same positions.\<close>

lemma builder_inv:
  defines "start \<equiv> \<lparr>mb_segments = [], mb_positions = [], mb_segment = [], mb_ordinal = 0\<rparr>"
  shows "concat (mb_segments (fold add_item items start)) @ mb_segment (fold add_item items start) = items
    \<and> list_all (\<lambda>s. length s = MANIFEST_SEGMENT_ROWS) (mb_segments (fold add_item items start)) \<and> length (mb_segment (fold add_item items start)) < MANIFEST_SEGMENT_ROWS
    \<and> mb_ordinal (fold add_item items start) = length items \<and> mb_positions (fold add_item items start) = positions_of items"
proof (induction items rule: rev_induct)
  case (snoc x items)
  then show ?case by (auto simp: add_item_def Let_def positions_snoc)
qed (simp add: start_def positions_of_def)

definition manifest_of :: "('v, 'r) query_stream_item list \<Rightarrow> ('v, 'r) query_stream_item memory_manifest \<Rightarrow> bool" where
  "manifest_of items m \<longleftrightarrow> segmented (mm_segments m) items \<and> mm_entry_count m = length items \<and> mm_positions m = positions_of items"

lemma manifests: "manifest_of items (memoryManifest items)" "manifest_of items (iterated_manifest items)"
proof -
  show "manifest_of items (memoryManifest items)" using memory_segmented [of items] by (simp add: manifest_of_def memoryManifest_def positions_of_def Let_def)
  show "manifest_of items (iterated_manifest items)"
    using builder_inv [of items] by (auto simp: manifest_of_def iterated_manifest_def Let_def segmented_def list_all_iff dest: in_set_butlastD last_in_set)
qed

section \<open>The contract of a reader\<close>

text \<open>What follows a position in a stream; an unknown position starts over.\<close>

definition rest_of :: "('i \<Rightarrow> string) \<Rightarrow> 'i list \<Rightarrow> string option \<Rightarrow> 'i list" where
  "rest_of position xs p =
     (case p of None \<Rightarrow> xs | Some k \<Rightarrow> if k \<in> position ` set xs then tl (dropWhile (\<lambda>x. position x \<noteq> k) xs) else xs)"

locale manifest_reader =
  fixes read :: "stream_request \<Rightarrow> cursor_error + 'i stream_result"
    and position :: "'i \<Rightarrow> string"
    and stream :: "string \<Rightarrow> string \<Rightarrow> cursor_direction \<Rightarrow> 'i list"
  assumes read_stream: "0 \<le> sr_limit q \<Longrightarrow> \<exists>r. read q = Inr r
    \<and> sr_items r = take (nat (sr_limit q)) (rest_of position (stream (sr_execution_id q) (sr_result_stream q) (sr_direction q)) (sr_position q))
    \<and> (sr_has_more r \<longleftrightarrow> nat (sr_limit q) < length (rest_of position (stream (sr_execution_id q) (sr_result_stream q) (sr_direction q)) (sr_position q)))"

lemma rest_after:
  assumes "k < length xs" and "position (xs ! k) = p" and "\<And>i. i < k \<Longrightarrow> position (xs ! i) \<noteq> p"
  shows "rest_of position xs (Some p) = drop (Suc k) xs"
proof -
  have "takeWhile (\<lambda>x. position x \<noteq> p) xs = take k xs" using assms by (intro takeWhile_eq_take_P_nth) simp_all
  then have "dropWhile (\<lambda>x. position x \<noteq> p) xs = drop k xs" using assms(1) by (simp add: dropWhile_eq_drop)
  moreover have "p \<in> position ` set xs" using assms(1,2) nth_mem by blast
  ultimately show ?thesis by (simp add: rest_of_def tl_drop drop_Suc)
qed

text \<open>A history of the store: the calls of the two operations that write it, one after the other and each to the end of its
  items, the first one of a key being the one that counts.\<close>

record ('v, 'r) append_call =
  ac_iterable :: bool
  ac_execution_id :: string
  ac_result_stream :: string
  ac_direction :: cursor_direction
  ac_items :: "('v, 'r) query_stream_item list"

definition appended :: "('v, 'r) append_call list \<Rightarrow> ('v, 'r) manifest_store" where
  "appended calls = fold (\<lambda>c. (if ac_iterable c then appendIterable else append_manifest) (ac_execution_id c) (ac_result_stream c) (ac_direction c) (ac_items c)) calls []"

definition stored_stream :: "('v, 'r) append_call list \<Rightarrow> string \<Rightarrow> string \<Rightarrow> cursor_direction \<Rightarrow> ('v, 'r) query_stream_item list" where
  "stored_stream calls executionId resultStream direction =
     (case find (\<lambda>c. manifest_key (ac_execution_id c) (ac_result_stream c) (ac_direction c) = manifest_key executionId resultStream direction) calls of
        None \<Rightarrow> [] | Some c \<Rightarrow> ac_items c)"

lemma appended_manifest:
  "case find (\<lambda>c. manifest_key (ac_execution_id c) (ac_result_stream c) (ac_direction c) = key) calls of
     None \<Rightarrow> jget (appended calls) key = None | Some c \<Rightarrow> \<exists>m. jget (appended calls) key = Some m \<and> manifest_of (ac_items c) m"
proof (induction calls rule: rev_induct)
  case (snoc c calls)
  let ?key = "manifest_key (ac_execution_id c) (ac_result_stream c) (ac_direction c)"
  obtain m where m: "manifest_of (ac_items c) m" "appended (calls @ [c]) = (if jhas (appended calls) ?key then appended calls else jset ?key m (appended calls))"
    using manifests [of "ac_items c"] by (cases "ac_iterable c") (auto simp: appended_def appendIterable_def append_manifest_def Let_def)
  have has: "jhas (appended calls) k \<longleftrightarrow> jget (appended calls) k \<noteq> None" for k by (simp add: map_of_eq_None_iff)
  show ?case using snoc m unfolding has by (auto simp: find_snoc split: option.splits if_splits)
qed (simp add: appended_def)

lemma memory_read_stream:
  fixes calls :: "('v, 'r) append_call list"
  assumes "0 \<le> sr_limit q"
  defines "rest \<equiv> rest_of qi_stable_sort_key (stored_stream calls (sr_execution_id q) (sr_result_stream q) (sr_direction q)) (sr_position q)"
  shows "\<exists>r. memory_read (appended calls) q = Inr r \<and> sr_items r = take (nat (sr_limit q)) rest \<and> (sr_has_more r \<longleftrightarrow> nat (sr_limit q) < length rest)"
proof -
  define xs where "xs = stored_stream calls (sr_execution_id q) (sr_result_stream q) (sr_direction q)"
  let ?key = "manifest_key (sr_execution_id q) (sr_result_stream q) (sr_direction q)"
  show ?thesis
  proof (cases "xs = []")
    case True
    then have "jget (appended calls) ?key = None \<or> (\<exists>m. jget (appended calls) ?key = Some m \<and> mm_entry_count m = 0)"
      using appended_manifest [where key = ?key and calls = calls] by (auto simp: xs_def stored_stream_def manifest_of_def split: option.splits)
    moreover have "rest = []" using True by (simp add: rest_def xs_def rest_of_def split: option.splits)
    ultimately show ?thesis by (auto simp: memory_read_def)
  next
    case False
    then obtain m where m: "jget (appended calls) ?key = Some m" "manifest_of xs m"
      using appended_manifest [where key = ?key and calls = calls] by (auto simp: xs_def stored_stream_def split: option.splits)
    define k where "k = (case (case sr_position q of None \<Rightarrow> None | Some p \<Rightarrow> jget (positions_of xs) p) of None \<Rightarrow> 0 | Some ordinal \<Rightarrow> ordinal + 1)"
    have k: "k \<le> length xs \<and> rest = drop k xs"
    proof (cases "sr_position q")
      case None
      then show ?thesis by (simp add: k_def rest_def rest_of_def xs_def)
    next
      case (Some p)
      show ?thesis
      proof (cases "jget (positions_of xs) p")
        case None
        have "p \<notin> qi_stable_sort_key ` set xs"
        proof
          assume "p \<in> qi_stable_sort_key ` set xs"
          then obtain i where "i < length xs" "qi_stable_sort_key (xs ! i) = p" by (metis imageE in_set_conv_nth)
          then have "\<exists>j \<le> i. qi_stable_sort_key (xs ! j) = p \<and> (\<forall>l < j. qi_stable_sort_key (xs ! l) \<noteq> p)" using ex_least_nat_le [of "\<lambda>j. qi_stable_sort_key (xs ! j) = p" i] by blast
          then show False using positions_first [of xs p] None \<open>i < length xs\<close> by (metis le_less_trans option.distinct(1))
        qed
        then show ?thesis using None Some by (simp add: k_def rest_def rest_of_def xs_def)
      next
        case (Some j)
        then have "j < length xs" "rest_of qi_stable_sort_key xs (Some p) = drop (Suc j) xs" unfolding positions_first by (auto intro: rest_after)
        then show ?thesis using Some \<open>sr_position q = Some p\<close> by (simp add: k_def rest_def xs_def)
      qed
    qed
    have "read_loop m (sr_limit q) k [] = (take (nat (sr_limit q)) rest, min (length xs) (k + nat (sr_limit q)))"
      using read_loop_slice [of m xs k "sr_limit q" "[]"] m(2) k by (simp add: manifest_of_def)
    moreover have pos: "mm_positions m = positions_of xs" "mm_entry_count m = length xs" using m(2) by (simp_all add: manifest_of_def)
    have "(case (case sr_position q of None \<Rightarrow> None | Some p \<Rightarrow> jget (mm_positions m) p) of None \<Rightarrow> 0 | Some ordinal \<Rightarrow> ordinal + 1) = k" unfolding pos k_def by (rule refl)
    ultimately have "memory_read (appended calls) q =
        Inr \<lparr>sr_total = Some (int (length xs)), sr_items = take (nat (sr_limit q)) rest, sr_has_more = (min (length xs) (k + nat (sr_limit q)) < length xs)\<rparr>"
      unfolding memory_read_def m(1) Let_def using False by (simp add: pos(2))
    then show ?thesis using k by auto
  qed
qed

interpretation memory: manifest_reader "memory_read (appended calls)" qi_stable_sort_key "stored_stream calls" for calls
  by unfold_locales (rule memory_read_stream)

end
