(* ===== verification/Cursor_Laws.thy ===== *)
theory Cursor_Laws
  imports Manifest_Store
begin

text \<open>
  Cursors are read back as they were written and only with the right signature, and following the next cursor of every
  page visits the whole stream once, in order.
\<close>

section \<open>Tokens\<close>

text \<open>What the encoding of some claims needs of the codec: the payload is read back, and both parts are hexadecimal.\<close>

definition codec_reads :: "'c cursor_codec \<Rightarrow> 'c query_cursor_claims \<Rightarrow> bool" where
  "codec_reads codec c \<longleftrightarrow>
     cc_unpack_v3 codec (cc_pack codec (compact_fields c)) = Some (compact_fields c) \<and> hex_part (cc_pack codec (compact_fields c))
   \<and> hex_part (cc_hmac codec (cc_secret codec) (''v3.'' @ cc_pack codec (compact_fields c)))"

lemma hex_part_dotless: "hex_part s \<Longrightarrow> CHR ''.'' \<notin> set s"
proof -
  have "CHR ''.'' \<notin> set hex_digits" by code_simp
  then show "hex_part s \<Longrightarrow> ?thesis" by (auto simp: hex_part_def list_all_iff)
qed

lemma claims_expanded: "claims_of (expanded_fields (compact_fields c)) = Inr c"
proof -
  obtain e s r p d q or b i f com x where c: "c = \<lparr>qc_execution_id = e, qc_scope_digest = s, qc_result_stream = r, qc_stable_position = p, qc_direction = d, qc_projection_digest = q,
    qc_ordering_digest = or, qc_response_budget_ceiling_digest = b, qc_frozen_snapshot_digest = i, qc_frozen_status_digest = f, qc_completeness = com, qc_expires_at = x\<rparr>"
    by (cases c) blast
  show ?thesis
    by (cases com; cases d) (simp_all add: c compact_fields_def expanded_fields_def claims_of_def text_claim_def renamed_field_def)
qed

lemma decode_encode:
  assumes "codec_reads codec c"
  shows "decode codec (encodeV3 codec c) = Inr c"
proof -
  define P where "P = cc_pack codec (compact_fields c)"
  define S where "S = cc_hmac codec (cc_secret codec) (''v3.'' @ P)"
  have hex: "hex_part P" "hex_part S" and read: "cc_unpack_v3 codec P = Some (compact_fields c)"
    using assms unfolding codec_reads_def P_def [symmetric] S_def [symmetric] by auto
  have token: "encodeV3 codec c = ''v3'' @ CHR ''.'' # P @ CHR ''.'' # S" by (simp add: encodeV3_def P_def S_def Let_def)
  have parts: "split_on CHR ''.'' (encodeV3 codec c) = [''v3'', P, S]"
    unfolding token using split_on_append [of "CHR ''.''" "''v3''" "P @ CHR ''.'' # S"] split_on_append [OF hex_part_dotless [OF hex(1)], of S] split_on_word [OF hex_part_dotless [OF hex(2)]] by simp
  have "P \<noteq> []" "S \<noteq> []" using hex by (auto simp: hex_part_def)
  then show ?thesis unfolding decode_def parts Let_def using hex read claims_expanded [of c] by (simp add: S_def)
qed

lemma decode_signed:
  assumes "decode codec token = Inr c"
  shows "\<exists>signed. token = signed @ ''.'' @ cc_hmac codec (cc_secret codec) signed"
proof -
  define parts where "parts = split_on CHR ''.'' token"
  have token: "token = join_on CHR ''.'' parts" by (simp add: parts_def)
  have sig: "cc_hmac codec (cc_secret codec) (if length parts = 2 then hd parts else hd parts @ ''.'' @ parts ! 1) = last parts" and len: "length parts = 2 \<or> length parts = 3"
    using assms unfolding decode_def Let_def parts_def [symmetric] by (auto split: if_splits)
  from len show ?thesis
  proof
    assume "length parts = 2"
    then obtain a b where "parts = [a, b]" by (auto simp: numeral_2_eq_2 length_Suc_conv)
    then show ?thesis using token sig by auto
  next
    assume "length parts = 3"
    then obtain a b d where "parts = [a, b, d]" by (auto simp: numeral_3_eq_3 length_Suc_conv)
    then have "token = (a @ ''.'' @ b) @ ''.'' @ cc_hmac codec (cc_secret codec) (a @ ''.'' @ b)" using token sig by simp
    then show ?thesis by blast
  qed
qed

text \<open>
  C34.  A cursor is decoded to the claims it was made from when the codec reads them back, and a token is accepted at
  all only when it ends in the keyed hash of everything before its last dot.
\<close>

theorem cursor_roundtrip:
  assumes "codec_reads codec c"
  shows "decode codec (encodeV3 codec c) = Inr c \<and> (\<forall>token c'. decode codec token = Inr c' \<longrightarrow> (\<exists>signed. token = signed @ ''.'' @ cc_hmac codec (cc_secret codec) signed))"
  using decode_encode [OF assms] decode_signed by blast

section \<open>Paging\<close>

text \<open>
  The client of the cursors: it reads the first page and then every page with the next cursor of the one before.  The
  fuel counts the pages.
\<close>

fun follow_pages :: "'c cursor_codec \<Rightarrow> 'i page_source \<Rightarrow> nat \<Rightarrow> 'c page_request \<Rightarrow> 'i list option" where
  "follow_pages codec src 0 r = None"
| "follow_pages codec src (Suc n) r =
     (case readPage codec src r of
        Inl _ \<Rightarrow> None
      | Inr page \<Rightarrow>
          (case pg_next_cursor page of
             None \<Rightarrow> Some (pg_items page)
           | Some token \<Rightarrow> map_option ((@) (pg_items page)) (follow_pages codec src n (r\<lparr>pr_cursor := Some token\<rparr>))))"

text \<open>A hydration that never throws, leaves out an item only behind others, and keeps positions; and what it makes of an item.\<close>

definition hydrates :: "('i \<Rightarrow> string) \<Rightarrow> ('i \<Rightarrow> int \<Rightarrow> cursor_error + 'i option) \<Rightarrow> 'i list \<Rightarrow> bool" where
  "hydrates position hydrate xs \<longleftrightarrow>
     (\<forall>x \<in> set xs. \<forall>n. \<exists>y. hydrate x n = Inr y \<and> (case y of None \<Rightarrow> n \<noteq> 0 | Some z \<Rightarrow> position z = position x))"

definition hydrated_as :: "('i \<Rightarrow> int \<Rightarrow> cursor_error + 'i option) \<Rightarrow> 'i \<Rightarrow> 'i \<Rightarrow> bool" where
  "hydrated_as hydrate x y \<longleftrightarrow> (\<exists>n. hydrate x n = Inr (Some y))"

lemma hydrated_position: "hydrates position hydrate xs \<Longrightarrow> x \<in> set xs \<Longrightarrow> hydrated_as hydrate x y \<Longrightarrow> position y = position x"
proof -
  assume h: "hydrates position hydrate xs" and x: "x \<in> set xs" and "hydrated_as hydrate x y"
  then obtain n where n: "hydrate x n = Inr (Some y)" unfolding hydrated_as_def by blast
  obtain z where "hydrate x n = Inr z" "case z of None \<Rightarrow> n \<noteq> 0 | Some z \<Rightarrow> position z = position x" using h x unfolding hydrates_def by blast
  then show ?thesis using n by (cases z) simp_all
qed

lemma fill_page_prefix:
  assumes "hydrates position (ps_hydrate src) raw"
  shows "\<exists>k ys. fill_page src m raw items c n = Inr (items @ ys) \<and> k \<le> length raw \<and> list_all2 (hydrated_as (ps_hydrate src)) (take k raw) ys
    \<and> (items = [] \<and> raw \<noteq> [] \<and> n = 0 \<longrightarrow> 0 < k)"
  using assms
proof (induction raw arbitrary: items c n)
  case (Cons x raw)
  obtain y where y: "ps_hydrate src x n = Inr y" "case y of None \<Rightarrow> n \<noteq> 0 | Some z \<Rightarrow> position z = position x"
    using Cons.prems unfolding hydrates_def by (meson list.set_intros(1))
  have raw: "hydrates position (ps_hydrate src) raw" using Cons.prems by (simp add: hydrates_def)
  show ?case
  proof (cases y)
    case None
    then show ?thesis using y by (intro exI [of _ 0] exI [of _ "[]"]) simp
  next
    case (Some z)
    show ?thesis
    proof (cases "items \<noteq> [] \<and> c + ps_characters src z > m")
      case True
      then show ?thesis using y Some by (intro exI [of _ 0] exI [of _ "[]"]) simp
    next
      case False
      obtain k ys where k: "fill_page src m raw (items @ [z]) (c + ps_characters src z) (n + ps_snippet_characters src z) = Inr ((items @ [z]) @ ys)" "k \<le> length raw"
        "list_all2 (hydrated_as (ps_hydrate src)) (take k raw) ys" using Cons.IH [OF raw, of "items @ [z]"] by blast
      have "hydrated_as (ps_hydrate src) x z" using y(1) Some by (auto simp: hydrated_as_def)
      then show ?thesis using False y(1) Some k by (intro exI [of _ "Suc k"] exI [of _ "z # ys"]) auto
    qed
  qed
qed (intro exI [of _ 0] exI [of _ "[]"], simp)

lemma page_of_cursor: "page_of codec src (r\<lparr>pr_cursor := t\<rparr>) c = page_of codec src r c"
  by (simp add: page_of_def finished_page_def)

lemma readPage_continued:
  assumes "positive_safe (pr_limit r)" "positive_safe (pr_max_characters r)" and "codec_reads codec c"
    and "str_cmp (qc_expires_at c) (pr_now r) > 0" and "find mismatch (cursor_checks r c) = None"
  shows "readPage codec src (r\<lparr>pr_cursor := Some (encodeV3 codec c)\<rparr>) = page_of codec src r c"
proof -
  have "cursor_checks (r\<lparr>pr_cursor := Some (encodeV3 codec c)\<rparr>) c = cursor_checks r c" by (simp add: cursor_checks_def)
  then have "continued_claims codec (r\<lparr>pr_cursor := Some (encodeV3 codec c)\<rparr>) (encodeV3 codec c) = Inr c"
    using assms(4,5) decode_encode [OF assms(3)] by (simp add: continued_claims_def)
  then show ?thesis using assms(1,2) by (simp add: readPage_def page_of_cursor)
qed

text \<open>A page that is finished from some items of the stream names its last position when there is more.\<close>

lemma finished_page_next:
  assumes "ps_position src = (\<lambda>x. Some (position x))" and "\<forall>y \<in> set ys. position y \<noteq> []" and "ys \<noteq> [] \<or> \<not> unread"
    and unread: "unread \<longleftrightarrow> sr_has_more result \<or> int (length (sr_items result)) > pr_limit r \<or> length ys < length (take (nat (pr_limit r)) (sr_items result))"
  shows "\<exists>page. finished_page codec src r c result ys = Inr page \<and> pg_items page = ys
    \<and> pg_next_cursor page = (if unread then Some (encodeV3 codec (c\<lparr>qc_stable_position := position (last ys)\<rparr>)) else None)"
proof (cases "ys = []")
  case True
  then show ?thesis using assms(3) unread by (simp add: finished_page_def edge_position_def Let_def)
next
  case False
  have edge: "edge_position src pick ys = Inr (Some (position (pick ys)))" if "pick ys \<in> set ys" for pick
    using assms(1,2) False that by (auto simp: edge_position_def safePosition_def)
  have "c\<lparr>qc_direction := qc_direction c, qc_stable_position := p\<rparr> = c\<lparr>qc_stable_position := p\<rparr>" for p by simp
  then show ?thesis using edge [of hd] edge [of last] False unfolding finished_page_def Let_def unread [symmetric] by simp
qed

context manifest_reader
begin

text \<open>One page: the items from where the position stands, hydrated, and the next cursor unless they reach the end.\<close>

lemma page_of_stream:
  assumes src: "ps_read src = read" "ps_position src = (\<lambda>x. Some (position x))"
    and xs: "xs = stream (qc_execution_id c) (qc_result_stream c) ForwardCursor" "\<forall>x \<in> set xs. position x \<noteq> []" "hydrates position (ps_hydrate src) xs"
    and limit: "positive_safe (pr_limit r)" and dir: "qc_direction c = ForwardCursor" and n: "n \<le> length xs"
    and rest: "rest_of position xs (if qc_stable_position c = [] then None else Some (qc_stable_position c)) = drop n xs"
  shows "\<exists>k page. page_of codec src r c = Inr page \<and> n + k \<le> length xs \<and> list_all2 (hydrated_as (ps_hydrate src)) (take k (drop n xs)) (pg_items page)
    \<and> (if n + k = length xs then pg_next_cursor page = None
       else 0 < k \<and> pg_next_cursor page = Some (encodeV3 codec (c\<lparr>qc_stable_position := position (xs ! (n + k - 1))\<rparr>)))"
proof -
  define q where "q = \<lparr>sr_execution_id = qc_execution_id c, sr_result_stream = qc_result_stream c, sr_direction = qc_direction c,
            sr_position = (if qc_stable_position c = [] then None else Some (qc_stable_position c)), sr_limit = pr_limit r + 1\<rparr>"
  define l where "l = nat (pr_limit r)"
  have l: "0 < l" "int l = pr_limit r" "nat (pr_limit r + 1) = Suc l" using limit by (auto simp: l_def positive_safe_def)
  have same: "rest_of position (stream (sr_execution_id q) (sr_result_stream q) (sr_direction q)) (sr_position q) = drop n xs" using rest xs(1) dir by (simp add: q_def)
  obtain result where result: "read q = Inr result" "sr_items result = take (Suc l) (drop n xs)" "sr_has_more result \<longleftrightarrow> Suc l < length xs - n"
    using read_stream [of q] limit l(3) unfolding same by (auto simp: q_def positive_safe_def)
  let ?raw = "take l (drop n xs)"
  have limited: "take l (sr_items result) = ?raw" by (simp add: result(2) min_def)
  have sub: "set ?raw \<subseteq> set xs" by (meson order_trans set_drop_subset set_take_subset)
  then have "hydrates position (ps_hydrate src) ?raw" using xs(3) by (auto simp: hydrates_def)
  from fill_page_prefix [OF this, of "pr_max_characters r" "[]" 0 0]
  obtain k ys where ys: "fill_page src (pr_max_characters r) ?raw [] 0 0 = Inr ys" "k \<le> length ?raw" "list_all2 (hydrated_as (ps_hydrate src)) (take k ?raw) ys"
    "?raw \<noteq> [] \<longrightarrow> 0 < k" unfolding append_Nil by blast
  have kl: "k \<le> l" "k \<le> length xs - n" using ys(2) by simp_all
  then have k: "k \<le> l" "n + k \<le> length xs" "take k ?raw = take k (drop n xs)" using n by (simp_all add: min_def)
  have len: "length ys = k" using list_all2_lengthD [OF ys(3)] ys(2) by simp
  define unread where "unread \<longleftrightarrow> n + k \<noteq> length xs"
  have unread: "unread \<longleftrightarrow> sr_has_more result \<or> int (length (sr_items result)) > pr_limit r \<or> length ys < length (take (nat (pr_limit r)) (sr_items result))"
    using k n l len unfolding unread_def l_def [symmetric] limited by (auto simp: result(2,3) min_def)
  have progress: "0 < k" if unread using that ys(4) k n l(1) unfolding unread_def by (cases k) auto
  have pos: "position (ys ! i) = position (xs ! (n + i))" if "i < k" for i
  proof -
    have "hydrated_as (ps_hydrate src) (take k (drop n xs) ! i) (ys ! i)" using list_all2_nthD2 [OF ys(3), of i] that len k(3) by simp
    moreover have "take k (drop n xs) ! i = xs ! (n + i)" "n + i < length xs" using that k(2) by simp_all
    ultimately show ?thesis using hydrated_position [OF xs(3), of "xs ! (n + i)"] by simp
  qed
  have "position y \<noteq> []" if y: "y \<in> set ys" for y
  proof -
    obtain i where i: "i < length ys" "ys ! i = y" using y unfolding in_set_conv_nth by blast
    then have "xs ! (n + i) \<in> set xs" using k(2) len by (intro nth_mem) simp
    then show ?thesis using pos [of i] xs(2) i len by simp
  qed
  then obtain page where page: "finished_page codec src r c result ys = Inr page" "pg_items page = ys"
    "pg_next_cursor page = (if unread then Some (encodeV3 codec (c\<lparr>qc_stable_position := position (last ys)\<rparr>)) else None)"
    using finished_page_next [OF src(2) _ _ unread, of codec c] progress len by auto
  have "page_of codec src r c = Inr page" using result(1) ys(1) page(1) unfolding page_of_def src(1) q_def [symmetric] by (simp add: limited [unfolded l_def] l_def)
  moreover have "position (last ys) = position (xs ! (n + k - 1))" if unread
  proof -
    have "ys \<noteq> []" using progress [OF that] len by auto
    then show ?thesis using pos [of "k - 1"] progress [OF that] len by (simp add: last_conv_nth)
  qed
  ultimately show ?thesis using page k(2,3) ys(3) progress unfolding unread_def by (intro exI [of _ k] exI [of _ page]) auto
qed

lemma follow_from:
  assumes src: "ps_read src = read" "ps_position src = (\<lambda>x. Some (position x))"
    and xs: "xs = stream (qc_execution_id c0) (qc_result_stream c0) ForwardCursor" "\<forall>x \<in> set xs. position x \<noteq> []" "hydrates position (ps_hydrate src) xs"
    and keys: "distinct (map position xs)" and limits: "positive_safe (pr_limit r)" "positive_safe (pr_max_characters r)"
    and codec: "\<forall>x \<in> set xs. codec_reads codec (c0\<lparr>qc_stable_position := position x\<rparr>)"
    and fresh: "str_cmp (qc_expires_at c0) (pr_now r) > 0" and checks: "find mismatch (cursor_checks r c0) = None" and dir: "qc_direction c0 = ForwardCursor"
  shows "readPage codec src (r\<lparr>pr_cursor := t\<rparr>) = page_of codec src r (c0\<lparr>qc_stable_position := p\<rparr>) \<Longrightarrow> n \<le> length xs
    \<Longrightarrow> rest_of position xs (if p = [] then None else Some p) = drop n xs \<Longrightarrow> length xs - n \<le> f
    \<Longrightarrow> \<exists>ys. follow_pages codec src (Suc f) (r\<lparr>pr_cursor := t\<rparr>) = Some ys \<and> list_all2 (hydrated_as (ps_hydrate src)) (drop n xs) ys"
proof (induction f arbitrary: t p n)
  case (0 t p n)
  have *: "xs = stream (qc_execution_id (c0\<lparr>qc_stable_position := p\<rparr>)) (qc_result_stream (c0\<lparr>qc_stable_position := p\<rparr>)) ForwardCursor" using xs(1) by simp
  obtain page k where "page_of codec src r (c0\<lparr>qc_stable_position := p\<rparr>) = Inr page" "n + k = length xs" "pg_next_cursor page = None"
    "list_all2 (hydrated_as (ps_hydrate src)) (take k (drop n xs)) (pg_items page)"
    using page_of_stream [OF src * xs(2,3) limits(1) _ 0(2), of codec] dir 0(3,4) by (auto split: if_splits)
  then show ?case using 0 by simp
next
  case (Suc f t p n)
  let ?c = "\<lambda>p. c0\<lparr>qc_stable_position := p\<rparr>"
  have *: "xs = stream (qc_execution_id (?c p)) (qc_result_stream (?c p)) ForwardCursor" using xs(1) by simp
  have rest: "rest_of position xs (if qc_stable_position (?c p) = [] then None else Some (qc_stable_position (?c p))) = drop n xs" using Suc.prems(3) by (simp split: if_splits)
  obtain k page where page: "page_of codec src r (?c p) = Inr page" "n + k \<le> length xs" "list_all2 (hydrated_as (ps_hydrate src)) (take k (drop n xs)) (pg_items page)"
    and nxt: "if n + k = length xs then pg_next_cursor page = None
       else 0 < k \<and> pg_next_cursor page = Some (encodeV3 codec ((?c p)\<lparr>qc_stable_position := position (xs ! (n + k - 1))\<rparr>))"
    using page_of_stream [OF src * xs(2,3) limits(1) _ Suc.prems(2) rest, of codec] dir by auto
  show ?case
  proof (cases "n + k = length xs")
    case True
    then show ?thesis using Suc.prems(1) page nxt by simp
  next
    case False
    define a where "a = position (xs ! (n + k - 1))"
    have a: "0 < k" "pg_next_cursor page = Some (encodeV3 codec (?c a))" using nxt False by (simp_all add: a_def)
    have i: "n + k - 1 < length xs" "Suc (n + k - 1) = n + k" using a(1) page(2) False by auto
    have mem: "xs ! (n + k - 1) \<in> set xs" using i(1) by (rule nth_mem)
    have ne: "a \<noteq> []" and read: "codec_reads codec (?c a)" using xs(2) codec mem by (auto simp: a_def)
    have chk: "cursor_checks r (?c a) = cursor_checks r c0" by (simp add: cursor_checks_def)
    have cont: "readPage codec src (r\<lparr>pr_cursor := Some (encodeV3 codec (?c a))\<rparr>) = page_of codec src r (?c a)"
      using readPage_continued [OF limits read, of src] fresh checks chk by simp
    have "position (xs ! j) \<noteq> a" if "j < n + k - 1" for j
      using keys i(1) that unfolding a_def by (metis (no_types, lifting) distinct_conv_nth length_map less_trans nth_map nat_neq_iff)
    then have after: "rest_of position xs (if a = [] then None else Some a) = drop (n + k) xs"
      using rest_after [of "n + k - 1" xs position a] i ne by (simp add: a_def)
    obtain ys where ys: "follow_pages codec src (Suc f) (r\<lparr>pr_cursor := Some (encodeV3 codec (?c a))\<rparr>) = Some ys" "list_all2 (hydrated_as (ps_hydrate src)) (drop (n + k) xs) ys"
    proof -
      have "length xs - (n + k) \<le> f" using Suc.prems(4) a(1) by simp
      from Suc.IH [OF cont page(2) after this] show ?thesis using that by blast
    qed
    have "take k (drop n xs) @ drop (n + k) xs = drop n xs" by (metis add.commute append_take_drop_id drop_drop)
    then have "list_all2 (hydrated_as (ps_hydrate src)) (drop n xs) (pg_items page @ ys)" using list_all2_appendI [OF page(3) ys(2)] by simp
    then show ?thesis using Suc.prems(1) page(1) a(2) ys(1) by (simp del: follow_pages.simps add: follow_pages.simps(2) [of codec src "Suc f"])
  qed
qed

end

text \<open>A page source over the in-memory manifests; the position of an item is its key, as for every caller that passes no \<open>position_of\<close>.\<close>

definition memory_source :: "('v, 'r) append_call list \<Rightarrow> (('v, 'r) query_stream_item \<Rightarrow> int \<Rightarrow> cursor_error + ('v, 'r) query_stream_item option)
    \<Rightarrow> (('v, 'r) query_stream_item \<Rightarrow> int) \<Rightarrow> (('v, 'r) query_stream_item \<Rightarrow> int) \<Rightarrow> ('v, 'r) query_stream_item page_source" where
  "memory_source calls hydrate characters snippet_characters =
     \<lparr>ps_read = memory_read (appended calls), ps_hydrate = hydrate, ps_characters = characters, ps_snippet_characters = snippet_characters,
      ps_position = (\<lambda>x. Some (qi_stable_sort_key x))\<rparr>"

text \<open>
  C33.  Reading a forward stream of the in-memory manifests page by page, each page with the next cursor of the one before, ends
  after at most one page more than there are items and returns every item exactly once and in order, each as some
  call of the hydration made it, whatever the page limit, the budget of characters and the sizes of the items.  It is
  required that the items have distinct, non-empty stable sort keys; that the hydration throws for none of them, keeps
  the key, and leaves out no item when no source characters are used yet (\<open>hydrate_item_hydrates\<close> says when the hydration of the
  engine does, \<open>empty_page_stops\<close> what happens otherwise); and that the cursors do not expire meanwhile, name what the
  request expects and are read back by the codec.
\<close>

theorem paging_complete:
  fixes calls :: "('v, 'r) append_call list"
  assumes stream: "xs = stored_stream calls (qc_execution_id c) (qc_result_stream c) ForwardCursor"
    and keys: "distinct (map qi_stable_sort_key xs)" "\<forall>x \<in> set xs. qi_stable_sort_key x \<noteq> []"
    and hydration: "\<forall>x \<in> set xs. \<forall>n. \<exists>y. hydrate x n = Inr y \<and> (case y of None \<Rightarrow> n \<noteq> 0 | Some z \<Rightarrow> qi_stable_sort_key z = qi_stable_sort_key x)"
    and limits: "positive_safe (pr_limit r)" "positive_safe (pr_max_characters r)" and first: "pr_cursor r = None" "initial_claims codec r = Inr c" "qc_direction c = ForwardCursor"
    and codec: "\<forall>x \<in> set xs. codec_reads codec (c\<lparr>qc_stable_position := qi_stable_sort_key x\<rparr>)"
    and fresh: "str_cmp (qc_expires_at c) (pr_now r) > 0" and expected: "find mismatch (cursor_checks r c) = None"
  shows "\<exists>ys. follow_pages codec (memory_source calls hydrate characters snippet_characters) (Suc (length xs)) r = Some ys
    \<and> list_all2 (\<lambda>x y. \<exists>n. hydrate x n = Inr (Some y)) xs ys"
proof -
  let ?src = "memory_source calls hydrate characters snippet_characters"
  have src: "ps_read ?src = memory_read (appended calls)" "ps_position ?src = (\<lambda>x. Some (qi_stable_sort_key x))" "ps_hydrate ?src = hydrate" by (simp_all add: memory_source_def)
  have hyd: "hydrates qi_stable_sort_key (ps_hydrate ?src) xs" using hydration by (simp add: hydrates_def src)
  have pos: "c\<lparr>qc_stable_position := []\<rparr> = c" using first(2) by (auto simp: initial_claims_def split: option.splits)
  have same: "r\<lparr>pr_cursor := None\<rparr> = r" using first(1) by (cases r) simp
  have "readPage codec ?src (r\<lparr>pr_cursor := None\<rparr>) = page_of codec ?src r (c\<lparr>qc_stable_position := []\<rparr>)"
    using limits first unfolding same pos by (simp add: readPage_def)
  from memory.follow_from [OF src(1,2) stream keys(2) hyd keys(1) limits codec fresh expected first(3) this, where n = 0 and f = "length xs"]
  show ?thesis unfolding same src(3) hydrated_as_def by (simp add: rest_of_def del: follow_pages.simps)
qed

text \<open>
  The hydration of the engine keeps to this when the source of every item is available and within the total it may use: only
  later items of a page can be left out.
\<close>

lemma hydrate_item_hydrates:
  assumes "\<And>x h. x \<in> set xs \<Longrightarrow> qi_source_hydration x = Some h \<Longrightarrow> sh_mode h \<noteq> ''none'' \<Longrightarrow>
    \<exists>txt. snippet h = Inr (Some txt) \<and> int (length txt) \<le> sh_max_total_characters h \<and> 0 < sh_max_total_characters h"
  shows "hydrates qi_stable_sort_key (hydrate_item snippet attach) xs"
  unfolding hydrates_def
proof (intro ballI allI)
  fix x n
  assume x: "x \<in> set xs"
  show "\<exists>y. hydrate_item snippet attach x n = Inr y \<and> (case y of None \<Rightarrow> n \<noteq> 0 | Some z \<Rightarrow> qi_stable_sort_key z = qi_stable_sort_key x)"
  proof (cases "qi_source_hydration x")
    case (Some h)
    then show ?thesis using assms [OF x Some] by (cases "sh_mode h = ''none''") (auto simp: hydrate_item_def Let_def)
  qed (simp add: hydrate_item_def)
qed

text \<open>When the first item of a page is left out, the page is empty and says that there is more, but has no cursor to get it.\<close>

lemma empty_page_stops:
  assumes "ps_read src \<lparr>sr_execution_id = qc_execution_id c, sr_result_stream = qc_result_stream c, sr_direction = qc_direction c,
      sr_position = (if qc_stable_position c = [] then None else Some (qc_stable_position c)), sr_limit = pr_limit r + 1\<rparr> = Inr result"
    and "sr_items result = x # rest" and "ps_hydrate src x 0 = Inr None" and "positive_safe (pr_limit r)"
  shows "\<exists>page. page_of codec src r c = Inr page \<and> pg_items page = [] \<and> pg_has_next page \<and> pg_next_cursor page = None"
proof -
  obtain l where "nat (pr_limit r) = Suc l" using assms(4) by (cases "nat (pr_limit r)") (auto simp: positive_safe_def)
  then show ?thesis using assms(1-3) by (simp add: page_of_def finished_page_def edge_position_def Let_def)
qed

section \<open>A concrete stream\<close>

definition stream_claims :: "unit query_cursor_claims" where
  "stream_claims = \<lparr>qc_execution_id = ''e1'', qc_scope_digest = ''s'', qc_result_stream = ''subjects'', qc_stable_position = [], qc_direction = ForwardCursor,
     qc_projection_digest = ''q'', qc_ordering_digest = ''q'', qc_response_budget_ceiling_digest = ''b'', qc_frozen_snapshot_digest = ''s'', qc_frozen_status_digest = ''t'',
     qc_completeness = None, qc_expires_at = ''2026-02''\<rparr>"

definition stream_codec :: "unit cursor_codec" where
  "stream_codec = \<lparr>cc_secret = ''k'', cc_ttl = 1000, cc_hmac = (\<lambda>_ _. ''00''), cc_pack = (\<lambda>es. CHR ''0'' # (case text_claim es ''p'' of Some p \<Rightarrow> p | None \<Rightarrow> [])),
     cc_unpack_v3 = (\<lambda>s. Some (compact_fields (stream_claims\<lparr>qc_stable_position := tl s\<rparr>))), cc_unpack_v2 = (\<lambda>_. None), cc_unpack_legacy = (\<lambda>_. None),
     cc_expiry = (\<lambda>_ _. ''2026-02'')\<rparr>"

definition stream_items :: "(string, unit) query_stream_item list" where
  "stream_items = [\<lparr>qi_stable_sort_key = ''a'', qi_value = ''1'', qi_source_hydration = None\<rparr>,
     \<lparr>qi_stable_sort_key = ''b'', qi_value = ''2'', qi_source_hydration = Some \<lparr>sh_mode = ''snippet'', sh_max_total_characters = 10, sh_request = ()\<rparr>\<rparr>,
     \<lparr>qi_stable_sort_key = ''c'', qi_value = ''3'', qi_source_hydration = None\<rparr>]"

definition stream_calls :: "(string, unit) append_call list" where
  "stream_calls = [\<lparr>ac_iterable = True, ac_execution_id = ''e1'', ac_result_stream = ''subjects'', ac_direction = ForwardCursor, ac_items = stream_items\<rparr>]"

definition stream_hydration :: "(string, unit) query_stream_item \<Rightarrow> int \<Rightarrow> cursor_error + (string, unit) query_stream_item option" where
  "stream_hydration = hydrate_item (\<lambda>_. Inr (Some ''xy'')) (@)"

definition stream_page_request :: "unit page_request" where
  "stream_page_request = \<lparr>pr_cursor = None, pr_execution_id = Some ''e1'', pr_result_stream = Some ''subjects'', pr_direction = Some ForwardCursor, pr_projection_digest = Some ''q'',
     pr_response_budget_ceiling_digest = Some ''b'', pr_frozen_snapshot_digest = Some ''s'', pr_frozen_status_digest = Some ''t'', pr_scope_digest = None, pr_ordering_digest = None,
     pr_expected_execution_id = Some ''e1'', pr_expected_result_stream = None, pr_expected_projection_digest = None, pr_expected_response_budget_ceiling_digest = None,
     pr_expected_frozen_snapshot_digest = None, pr_expected_frozen_status_digest = None, pr_expected_scope_digest = None, pr_expected_ordering_digest = None,
     pr_completeness = None, pr_expires_at = None, pr_now = ''2026-01'', pr_limit = 2, pr_max_characters = 100\<rparr>"

lemma stream_codec_reads: "p \<in> {''a'', ''b'', ''c''} \<Longrightarrow> codec_reads stream_codec (stream_claims\<lparr>qc_stable_position := p\<rparr>)"
proof -
  assume "p \<in> {''a'', ''b'', ''c''}"
  then have "length p = 1" "list_all (\<lambda>c. c \<in> set hex_digits) p" by (auto simp: hex_digits_def)
  then have "hex_part (CHR ''0'' # p)" "hex_part ''00''" by (simp_all add: hex_part_def hex_digits_def)
  moreover have "text_claim (compact_fields (stream_claims\<lparr>qc_stable_position := p\<rparr>)) ''p'' = Some p" by (simp add: text_claim_def compact_fields_def stream_claims_def)
  ultimately show ?thesis by (simp add: codec_reads_def stream_codec_def)
qed

theorem cursor_roundtrip_witness:
  "decode stream_codec (encodeV3 stream_codec (stream_claims\<lparr>qc_stable_position := ''b''\<rparr>)) = Inr (stream_claims\<lparr>qc_stable_position := ''b''\<rparr>)"
  using cursor_roundtrip [OF stream_codec_reads [of "''b''"]] by simp

lemma stream_hydrates: "hydrates qi_stable_sort_key stream_hydration stream_items"
  unfolding stream_hydration_def by (rule hydrate_item_hydrates) (auto simp: stream_items_def)

theorem paging_complete_witness:
  "\<exists>ys. follow_pages stream_codec (memory_source stream_calls stream_hydration (\<lambda>_. 3) (\<lambda>_. 2)) 4 stream_page_request = Some ys
    \<and> list_all2 (\<lambda>x y. \<exists>n. stream_hydration x n = Inr (Some y)) stream_items ys"
proof -
  have "\<exists>ys. follow_pages stream_codec (memory_source stream_calls stream_hydration (\<lambda>_. 3) (\<lambda>_. 2)) (Suc (length stream_items)) stream_page_request = Some ys
    \<and> list_all2 (\<lambda>x y. \<exists>n. stream_hydration x n = Inr (Some y)) stream_items ys"
  proof (rule paging_complete [where c = stream_claims])
    show "stream_items = stored_stream stream_calls (qc_execution_id stream_claims) (qc_result_stream stream_claims) ForwardCursor"
      by (simp add: stored_stream_def stream_calls_def stream_claims_def)
    show "distinct (map qi_stable_sort_key stream_items)" "\<forall>x \<in> set stream_items. qi_stable_sort_key x \<noteq> []" by (simp_all add: stream_items_def)
    show "\<forall>x \<in> set stream_items. \<forall>n. \<exists>y. stream_hydration x n = Inr y \<and> (case y of None \<Rightarrow> n \<noteq> 0 | Some z \<Rightarrow> qi_stable_sort_key z = qi_stable_sort_key x)"
      using stream_hydrates unfolding hydrates_def .
    show "initial_claims stream_codec stream_page_request = Inr stream_claims" by code_simp
    show "\<forall>x \<in> set stream_items. codec_reads stream_codec (stream_claims\<lparr>qc_stable_position := qi_stable_sort_key x\<rparr>)"
      using stream_codec_reads by (simp add: stream_items_def)
    show "str_cmp (qc_expires_at stream_claims) (pr_now stream_page_request) > 0" by code_simp
    show "find mismatch (cursor_checks stream_page_request stream_claims) = None" by code_simp
  qed (simp_all add: positive_safe_def stream_page_request_def stream_claims_def)
  then show ?thesis by (simp add: stream_items_def eval_nat_numeral del: follow_pages.simps)
qed

end
