(* ===== verification/Canonical_Scalars.thy ===== *)
theory Canonical_Scalars
  imports Logical_Encoding
begin

text \<open>
  The scalar normalisations of \<open>packages/canonical/src/scalars.ts\<close>: texts, bytes, digests, big
  integers, exact decimals and timestamps.  Values are those of the logical framing, texts are lists of
  UTF-16 code units; the calendar of the host's \<open>Date\<close> is that of its standard (days since 1970 in the
  proleptic Gregorian calendar).
\<close>

section \<open>Texts, bytes and digests\<close>

definition isLowSurrogate :: "nat \<Rightarrow> bool" where
  "isLowSurrogate u \<longleftrightarrow> 0xDC00 \<le> u \<and> u \<le> 0xDFFF"

text \<open>The loop visits every code unit; behind the last one \<open>charCodeAt\<close> is not a low surrogate.\<close>

fun text_units_ok :: "units \<Rightarrow> bool" where
  "text_units_ok [] \<longleftrightarrow> True"
| "text_units_ok (u # r) \<longleftrightarrow>
     \<not> (0xD800 \<le> u \<and> u \<le> 0xDBFF \<and> \<not> (r \<noteq> [] \<and> isLowSurrogate (hd r)) \<or> 0xDC00 \<le> u \<and> u \<le> 0xDFFF) \<and> text_units_ok r"

definition normalizeText :: "logical \<Rightarrow> uce_error + units" where
  "normalizeText value = (case value of LText s \<Rightarrow> if text_units_ok s then Inr s else Inl InvalidUnicodeScalar | _ \<Rightarrow> Inl SchemaValidationFailed)"

definition normalizeBytes :: "logical \<Rightarrow> uce_error + bytes" where
  "normalizeBytes value = (case value of LBytes b \<Rightarrow> Inr b | _ \<Rightarrow> Inl SchemaValidationFailed)"

definition units_of :: "string \<Rightarrow> units" where
  "units_of s = map of_char s"

definition digit_unit :: "nat \<Rightarrow> bool" where
  "digit_unit u \<longleftrightarrow> 48 \<le> u \<and> u \<le> 57"

definition hex_unit :: "nat \<Rightarrow> bool" where
  "hex_unit u \<longleftrightarrow> digit_unit u \<or> 97 \<le> u \<and> u \<le> 102"

definition digest_pattern :: "units \<Rightarrow> bool" where
  "digest_pattern s \<longleftrightarrow> take 7 s = units_of ''sha256:'' \<and> length s = 71 \<and> list_all hex_unit (drop 7 s)"

definition normalizeDigest :: "logical \<Rightarrow> uce_error + units" where
  "normalizeDigest value = (case value of LText s \<Rightarrow> if digest_pattern s then Inr s else Inl SchemaValidationFailed | _ \<Rightarrow> Inl SchemaValidationFailed)"

section \<open>Numbers in text\<close>

text \<open>\<open>0|[1-9][0-9]*\<close>, and the number a list of digits denotes.\<close>

definition plain_digits :: "units \<Rightarrow> bool" where
  "plain_digits s \<longleftrightarrow> s = [48] \<or> s \<noteq> [] \<and> list_all digit_unit s \<and> hd s \<noteq> 48"

definition digits_value :: "units \<Rightarrow> nat" where
  "digits_value s = foldl (\<lambda>n u. n * 10 + (u - 48)) 0 s"

fun nat_units :: "nat \<Rightarrow> units" where
  "nat_units n = (if n < 10 then [48 + n] else nat_units (n div 10) @ [48 + n mod 10])"

declare nat_units.simps [simp del]

definition strip_minus :: "units \<Rightarrow> units" where
  "strip_minus s = (if take 1 s = [45] then drop 1 s else s)"

definition normalizeBigInteger :: "logical \<Rightarrow> uce_error + int" where
  "normalizeBigInteger value =
     (case value of
        LBigInt n \<Rightarrow> Inr n
      | LText s \<Rightarrow>
          if take 7 s \<noteq> units_of ''bigint:'' \<or> \<not> plain_digits (strip_minus (drop 7 s)) then Inl NumericValueOutOfRange
          else let n = int (digits_value (strip_minus (drop 7 s))) in Inr (if take 1 (drop 7 s) = [45] then - n else n)
      | _ \<Rightarrow> Inl NumericValueOutOfRange)"

definition toBigIntegerText :: "int \<Rightarrow> units" where
  "toBigIntegerText n = units_of ''bigint:'' @ (if n < 0 then [45] else []) @ nat_units (nat \<bar>n\<bar>)"

datatype scale_policy = Significant | Insignificant

text \<open>The unsigned part: digits, and an optional point with at least one digit.\<close>

definition before_point :: "units \<Rightarrow> units" where "before_point s = takeWhile (\<lambda>u. u \<noteq> 46) s"
definition after_point :: "units \<Rightarrow> units" where "after_point s = drop 1 (dropWhile (\<lambda>u. u \<noteq> 46) s)"

definition decimal_syntax :: "units \<Rightarrow> bool" where
  "decimal_syntax s \<longleftrightarrow> plain_digits (before_point s)
     \<and> (dropWhile (\<lambda>u. u \<noteq> 46) s \<noteq> [] \<longrightarrow> after_point s \<noteq> [] \<and> list_all digit_unit (after_point s))"

definition strip_trailing_zeros :: "units \<Rightarrow> units" where
  "strip_trailing_zeros s = rev (dropWhile (\<lambda>u. u = 48) (rev s))"

text \<open>\<open>replace(/^0+(?=[0-9])/, "")\<close>\<close>

fun strip_leading_zeros :: "units \<Rightarrow> units" where
  "strip_leading_zeros (u # v # r) = (if u = 48 \<and> digit_unit v then strip_leading_zeros (v # r) else u # v # r)"
| "strip_leading_zeros s = s"

definition normalizeExactDecimal :: "logical \<Rightarrow> scale_policy \<Rightarrow> uce_error + units" where
  "normalizeExactDecimal value policy =
     (case value of
        LText s \<Rightarrow>
          if take 8 s \<noteq> units_of ''decimal:'' \<or> \<not> decimal_syntax (strip_minus (drop 8 s)) then Inl NumericValueOutOfRange
          else
            let unsigned = strip_minus (drop 8 s);
                sign = (if take 1 (drop 8 s) = [45] then [45] else []);
                integer = (if policy = Insignificant then strip_leading_zeros (before_point unsigned) else before_point unsigned);
                fraction = (if policy = Insignificant then strip_trailing_zeros (after_point unsigned) else after_point unsigned)
            in if policy = Insignificant \<and> integer = [48] \<and> fraction = [] then Inr (units_of ''decimal:0'')
               else Inr (units_of ''decimal:'' @ sign @ integer @ (if fraction \<noteq> [] then 46 # fraction else []))
      | _ \<Rightarrow> Inl NumericValueOutOfRange)"

section \<open>The calendar\<close>

definition leap_year :: "int \<Rightarrow> bool" where
  "leap_year y \<longleftrightarrow> y mod 4 = 0 \<and> (y mod 100 \<noteq> 0 \<or> y mod 400 = 0)"

definition day_from_year :: "int \<Rightarrow> int" where
  "day_from_year y = 365 * (y - 1970) + (y - 1969) div 4 - (y - 1901) div 100 + (y - 1601) div 400"

definition month_starts :: "bool \<Rightarrow> int list" where
  "month_starts leap = (let d = (if leap then 1 else 0) in
     [0, 31, 59 + d, 90 + d, 120 + d, 151 + d, 181 + d, 212 + d, 243 + d, 273 + d, 304 + d, 334 + d, 365 + d])"

text \<open>The day number of a year, a month counted from zero, and a day of the month.\<close>

definition make_day :: "int \<Rightarrow> nat \<Rightarrow> int \<Rightarrow> int" where
  "make_day y m d = day_from_year y + month_starts (leap_year y) ! m + d - 1"

definition year_of_day :: "int \<Rightarrow> int" where
  "year_of_day n =
     (let y = 1970 + n * 400 div 146097
      in if day_from_year y > n then y - 1 else if day_from_year (y + 1) \<le> n then y + 1 else y)"

definition month_of_day :: "int \<Rightarrow> nat" where
  "month_of_day n =
     (let y = year_of_day n; k = n - day_from_year y in length (takeWhile (\<lambda>s. s \<le> k) (month_starts (leap_year y))) - 1)"

definition date_of_day :: "int \<Rightarrow> int" where
  "date_of_day n = n - make_day (year_of_day n) (month_of_day n) 1 + 1"

text \<open>A date is its time value in milliseconds; \<open>dateFromFields\<close> sets the day, then the time of day.\<close>

definition dateFromFields :: "int \<Rightarrow> int \<Rightarrow> int \<Rightarrow> int \<Rightarrow> int \<Rightarrow> int \<Rightarrow> int" where
  "dateFromFields year month day hour minute second =
     make_day year (nat (month - 1)) day * 86400000 + hour * 3600000 + minute * 60000 + second * 1000"

definition utc_day :: "int \<Rightarrow> int" where "utc_day t = t div 86400000"
definition utc_hours :: "int \<Rightarrow> int" where "utc_hours t = t div 3600000 mod 24"
definition utc_minutes :: "int \<Rightarrow> int" where "utc_minutes t = t div 60000 mod 60"
definition utc_seconds :: "int \<Rightarrow> int" where "utc_seconds t = t div 1000 mod 60"
definition utc_milliseconds :: "int \<Rightarrow> int" where "utc_milliseconds t = t mod 1000"

section \<open>Timestamps\<close>

record timestamp_fields =
  ts_raw :: units
  ts_year :: int
  ts_month :: int
  ts_day :: int
  ts_hour :: int
  ts_minute :: int
  ts_second :: int

text \<open>
  A regular expression made of digit groups of fixed width and literal characters; the result is the
  list of the groups.  The layout is \<open>^(\d{4})-(\d{2})-(\d{2})T(\d{2}):(\d{2}):(\d{2})\.(\d{9})Z$\<close>.
\<close>

datatype layout_item = Digits nat | Literal nat

fun match_layout :: "layout_item list \<Rightarrow> units \<Rightarrow> units list option" where
  "match_layout [] s = (if s = [] then Some [] else None)"
| "match_layout (Literal c # items) s = (case s of u # r \<Rightarrow> if u = c then match_layout items r else None | [] \<Rightarrow> None)"
| "match_layout (Digits n # items) s =
     (if n \<le> length s \<and> list_all digit_unit (take n s) then map_option (Cons (take n s)) (match_layout items (drop n s)) else None)"

definition timestamp_layout :: "layout_item list" where
  "timestamp_layout = [Digits 4, Literal 45, Digits 2, Literal 45, Digits 2, Literal 84, Digits 2, Literal 58, Digits 2, Literal 58, Digits 2, Literal 46, Digits 9, Literal 90]"

definition group_value :: "units list \<Rightarrow> nat \<Rightarrow> int" where
  "group_value groups i = int (digits_value (groups ! i))"

definition timestampFields :: "logical \<Rightarrow> uce_error + timestamp_fields" where
  "timestampFields value =
     (case value of
        LText s \<Rightarrow>
          (case match_layout timestamp_layout s of
             Some m \<Rightarrow> Inr \<lparr>ts_raw = s, ts_year = group_value m 0, ts_month = group_value m 1, ts_day = group_value m 2,
                         ts_hour = group_value m 3, ts_minute = group_value m 4, ts_second = group_value m 5\<rparr>
           | None \<Rightarrow> Inl SchemaValidationFailed)
      | _ \<Rightarrow> Inl SchemaValidationFailed)"

definition fields_date :: "timestamp_fields \<Rightarrow> int" where
  "fields_date f = dateFromFields (ts_year f) (ts_month f) (ts_day f) (ts_hour f) (ts_minute f) (ts_second f)"

definition validateTimestampFields :: "timestamp_fields \<Rightarrow> uce_error + unit" where
  "validateTimestampFields f =
     (if ts_year f < 1 \<or> ts_year f > 9999 \<or> ts_month f < 1 \<or> ts_month f > 12 \<or> ts_hour f > 23 \<or> ts_minute f > 59 \<or> ts_second f > 59
      then Inl SchemaValidationFailed
      else
        let t = fields_date f
        in if year_of_day (utc_day t) \<noteq> ts_year f \<or> int (month_of_day (utc_day t)) \<noteq> ts_month f - 1 \<or> date_of_day (utc_day t) \<noteq> ts_day f
             \<or> utc_hours t \<noteq> ts_hour f \<or> utc_minutes t \<noteq> ts_minute f \<or> utc_seconds t \<noteq> ts_second f
           then Inl SchemaValidationFailed else Inr ())"

definition normalizeTimestamp :: "logical \<Rightarrow> uce_error + units" where
  "normalizeTimestamp value =
     res_bind (timestampFields value) (\<lambda>f. res_bind (validateTimestampFields f) (\<lambda>_. Inr (ts_raw f)))"

definition timestampNanoseconds :: "units \<Rightarrow> uce_error + int" where
  "timestampNanoseconds s =
     res_bind (normalizeTimestamp (LText s)) (\<lambda>_.
     res_bind (timestampFields (LText s)) (\<lambda>f.
       Inr (fields_date f * 1000000 + group_value (case match_layout timestamp_layout s of Some m \<Rightarrow> m | None \<Rightarrow> []) 6)))"

text \<open>\<open>String(n).padStart(k, "0")\<close>\<close>

definition padded :: "nat \<Rightarrow> int \<Rightarrow> units" where
  "padded k n = (let s = nat_units (nat n) in replicate (k - length s) 48 @ s)"

text \<open>Division of big integers truncates; the remainder takes the sign of the dividend.\<close>

definition truncated_div :: "int \<Rightarrow> int \<Rightarrow> int" where
  "truncated_div a b = sgn a * (\<bar>a\<bar> div b)"

definition timestampFromNanoseconds :: "int \<Rightarrow> uce_error + units" where
  "timestampFromNanoseconds nanoseconds =
     (let q = truncated_div nanoseconds 1000000; r = nanoseconds - q * 1000000;
          milliseconds = (if r < 0 then q - 1 else q); remainder = (if r < 0 then r + 1000000 else r);
          day = utc_day milliseconds; year = year_of_day day
      in if \<bar>milliseconds\<bar> > 8640000000000000 \<or> year < 1 \<or> year > 9999 then Inl SchemaValidationFailed
         else Inr (padded 4 year @ [45] @ padded 2 (int (month_of_day day) + 1) @ [45] @ padded 2 (date_of_day day) @ [84]
           @ padded 2 (utc_hours milliseconds) @ [58] @ padded 2 (utc_minutes milliseconds) @ [58] @ padded 2 (utc_seconds milliseconds) @ [46]
           @ padded 9 (utc_milliseconds milliseconds * 1000000 + remainder) @ [90]))"

end
