(* ===== verification/Canonical_Comparators.thy ===== *)
theory Canonical_Comparators
  imports Canonical_Scalars
begin

text \<open>
  The comparators of \<open>packages/canonical/src/comparators.ts\<close>: JSON pointers into a value, the nine
  comparison modes, the chain of sort keys of a comparator, and the two sorts built on them.
  Values behind \<open>LOther\<close> have no own fields.
\<close>

section \<open>Pointers\<close>

fun split_units :: "nat \<Rightarrow> units \<Rightarrow> units list" where
  "split_units sep [] = [[]]"
| "split_units sep (u # s) =
     (if u = sep then [] # split_units sep s
      else case split_units sep s of [] \<Rightarrow> [[u]] | w # ws \<Rightarrow> (u # w) # ws)"

text \<open>\<open>replaceAll("~1", "/")\<close> and \<open>replaceAll("~0", "~")\<close>: a tilde and the digit \<open>d\<close> become \<open>c\<close>.\<close>

fun replace_escape :: "nat \<Rightarrow> nat \<Rightarrow> units \<Rightarrow> units" where
  "replace_escape d c (u # v # s) = (if u = 126 \<and> v = d then c # replace_escape d c s else u # replace_escape d c (v # s))"
| "replace_escape d c s = s"

definition unescape_token :: "units \<Rightarrow> units" where
  "unescape_token encoded = replace_escape 48 126 (replace_escape 49 47 encoded)"

text \<open>The number of a byte: the bit pattern of the IEEE 754 double.\<close>

fun byte_exponent :: "nat \<Rightarrow> nat" where
  "byte_exponent b = (if b \<le> 1 then 0 else Suc (byte_exponent (b div 2)))"

declare byte_exponent.simps [simp del]

definition byte_number :: "nat \<Rightarrow> 64 word" where
  "byte_number b = (if b = 0 then 0 else word_of_nat ((1023 + byte_exponent b) * 2 ^ 52 + (b - 2 ^ byte_exponent b) * 2 ^ (52 - byte_exponent b)))"

text \<open>One step of the pointer; None is the symbol \<open>ABSENT\<close>.  A byte array owns its indices.\<close>

definition read_token :: "units \<Rightarrow> logical \<Rightarrow> logical option" where
  "read_token key current =
     (case current of
        LArray vs \<Rightarrow> if \<not> plain_digits key then None else if digits_value key \<ge> length vs then None else Some (vs ! digits_value key)
      | LObject fs \<Rightarrow> map_of fs key
      | LBytes bs \<Rightarrow> if plain_digits key \<and> digits_value key < length bs then Some (LNumber (byte_number (bs ! digits_value key))) else None
      | _ \<Rightarrow> None)"

fun read_tokens :: "units list \<Rightarrow> logical \<Rightarrow> logical option" where
  "read_tokens [] current = Some current"
| "read_tokens (t # ts) current = (case read_token (unescape_token t) current of Some v \<Rightarrow> read_tokens ts v | None \<Rightarrow> None)"

definition readPointer :: "logical \<Rightarrow> units \<Rightarrow> logical option" where
  "readPointer value pointer =
     (if pointer = [] then Some value else if take 1 pointer \<noteq> [47] then None else read_tokens (split_units 47 (drop 1 pointer)) value)"

definition readCanonicalPointer :: "logical \<Rightarrow> units \<Rightarrow> uce_error + logical" where
  "readCanonicalPointer value pointer = (case readPointer value pointer of None \<Rightarrow> Inl DigestBindingInvalid | Some v \<Rightarrow> Inr v)"

section \<open>Comparison modes\<close>

definition three_way :: "'a :: linorder \<Rightarrow> 'a \<Rightarrow> int" where
  "three_way l r = (if l < r then -1 else if l > r then 1 else 0)"

definition textBytes :: "logical \<Rightarrow> uce_error + bytes" where
  "textBytes value = (case value of LText s \<Rightarrow> res_bind (normalizeText value) (\<lambda>s. Inr (utf8_encode s)) | _ \<Rightarrow> Inl SchemaValidationFailed)"

definition byteValue :: "logical \<Rightarrow> uce_error + bytes" where
  "byteValue value = (case value of LBytes b \<Rightarrow> Inr b | _ \<Rightarrow> Inl SchemaValidationFailed)"

text \<open>The number a finite double denotes, up to a common positive factor in each binade: sign and magnitude.\<close>

definition float_rank :: "64 word \<Rightarrow> int" where
  "float_rank f = (if unat f \<ge> 2 ^ 63 then - int (unat f - 2 ^ 63) else int (unat f))"

definition compareNumbers :: "logical \<Rightarrow> logical \<Rightarrow> uce_error + int" where
  "compareNumbers left right =
     (case (left, right) of
        (LNumber l, LNumber r) \<Rightarrow> if \<not> float_finite l \<or> \<not> float_finite r then Inl SchemaValidationFailed else Inr (three_way (float_rank l) (float_rank r))
      | _ \<Rightarrow> Inl SchemaValidationFailed)"

definition compareBigInts :: "logical \<Rightarrow> logical \<Rightarrow> uce_error + int" where
  "compareBigInts left right =
     (case res_bind (normalizeBigInteger left) (\<lambda>l. res_bind (normalizeBigInteger right) (\<lambda>r. Inr (three_way l r))) of
        Inr c \<Rightarrow> Inr c
      | Inl _ \<Rightarrow> Inl SchemaValidationFailed)"

definition decimal_negative :: "units \<Rightarrow> bool" where
  "decimal_negative normalized \<longleftrightarrow> take 1 normalized = [45] \<and> normalized \<noteq> [48]"

text \<open>Lines 120 and 121: the digits without leading zeros, then the zeros that align the scales.\<close>

definition aligned_digits :: "units \<Rightarrow> units \<Rightarrow> units" where
  "aligned_digits own other =
     strip_leading_zeros (before_point own @ after_point own) @ replicate (length (after_point other) - length (after_point own)) 48"

definition digit_order :: "units \<Rightarrow> units \<Rightarrow> int" where
  "digit_order l r =
     (if length l = length r then lex_cmp int l r else if length l < length r then -1 else 1)"

definition compareDecimals :: "logical \<Rightarrow> logical \<Rightarrow> uce_error + int" where
  "compareDecimals left right =
     (case (left, right) of
        (LText _, LText _) \<Rightarrow>
          res_bind (normalizeExactDecimal left Insignificant) (\<lambda>nl.
          res_bind (normalizeExactDecimal right Insignificant) (\<lambda>nr.
            let l = drop 8 nl; r = drop 8 nr; ul = strip_minus l; ur = strip_minus r
            in if decimal_negative l \<noteq> decimal_negative r then Inr (if decimal_negative l then -1 else 1)
               else Inr ((if decimal_negative l then -1 else 1) * digit_order (aligned_digits ul ur) (aligned_digits ur ul))))
      | _ \<Rightarrow> Inl SchemaValidationFailed)"

definition compareTimestamps :: "logical \<Rightarrow> logical \<Rightarrow> uce_error + int" where
  "compareTimestamps left right =
     (case (left, right) of
        (LText _, LText _) \<Rightarrow>
          res_bind (res_bind (normalizeTimestamp left) timestampNanoseconds) (\<lambda>l.
          res_bind (res_bind (normalizeTimestamp right) timestampNanoseconds) (\<lambda>r. Inr (three_way l r)))
      | _ \<Rightarrow> Inl SchemaValidationFailed)"

definition hex_nibble :: "nat \<Rightarrow> nat" where
  "hex_nibble u = (if u \<ge> 97 then u - 87 else u - 48)"

fun hexToBytes :: "units \<Rightarrow> bytes" where
  "hexToBytes (h # l # s) = (hex_nibble h * 16 + hex_nibble l) # hexToBytes s"
| "hexToBytes s = []"

definition compareDigestBytes :: "logical \<Rightarrow> logical \<Rightarrow> uce_error + int" where
  "compareDigestBytes left right =
     (case (left, right) of
        (LText l, LText r) \<Rightarrow>
          if \<not> digest_pattern l \<or> \<not> digest_pattern r then Inl SchemaValidationFailed else Inr (compareBytes (hexToBytes (drop 7 l)) (hexToBytes (drop 7 r)))
      | _ \<Rightarrow> Inl SchemaValidationFailed)"

definition compare_encoded :: "(logical \<Rightarrow> uce_error + bytes) \<Rightarrow> logical \<Rightarrow> logical \<Rightarrow> uce_error + int" where
  "compare_encoded f left right = res_bind (f left) (\<lambda>l. res_bind (f right) (\<lambda>r. Inr (compareBytes l r)))"

definition compareByMode :: "logical \<Rightarrow> logical \<Rightarrow> string \<Rightarrow> uce_error + int" where
  "compareByMode left right mode =
     (if mode = ''uce_bytes'' then compare_encoded (encodeCanonical DEFAULT_LIMITS) left right
      else if mode = ''text_utf8'' then compare_encoded textBytes left right
      else if mode = ''bytes_lexicographic'' then compare_encoded byteValue left right
      else if mode = ''safe_integer_numeric'' then compareNumbers left right
      else if mode = ''big_integer_numeric'' then compareBigInts left right
      else if mode = ''float64_numeric'' then compareNumbers left right
      else if mode = ''exact_decimal_numeric'' then compareDecimals left right
      else if mode = ''timestamp_chronological'' then compareTimestamps left right
      else if mode = ''digest_bytes'' then compareDigestBytes left right
      else Inl SchemaValidationFailed)"

section \<open>Comparators\<close>

record sort_key_definition =
  value_path :: units
  comparison_mode :: string
  direction :: string
  absent_order :: string

fun compare_keys :: "logical \<Rightarrow> logical \<Rightarrow> sort_key_definition list \<Rightarrow> uce_error + int" where
  "compare_keys left right [] = compare_encoded (encodeCanonical DEFAULT_LIMITS) left right"
| "compare_keys left right (key # keys) =
     (case (readPointer left (value_path key), readPointer right (value_path key)) of
        (None, None) \<Rightarrow> compare_keys left right keys
      | (Some l, Some r) \<Rightarrow>
          res_bind (compareByMode l r (comparison_mode key)) (\<lambda>result.
            if result \<noteq> 0 then Inr (if direction key = ''ascending'' then result else - result) else compare_keys left right keys)
      | (l, r) \<Rightarrow>
          if absent_order key = ''forbidden'' then Inl SchemaValidationFailed
          else let absentResult = (if l = None then -1 else 1) in Inr (if absent_order key = ''first'' then absentResult else - absentResult))"

definition compareCanonicalValues :: "logical \<Rightarrow> logical \<Rightarrow> sort_key_definition list \<Rightarrow> uce_error + int" where
  "compareCanonicalValues left right sort_keys = compare_keys left right sort_keys"

text \<open>
  \<open>toSorted\<close> with a comparison that may throw: a stable insertion.  The standard leaves the order of the
  comparisons to the implementation, so of several errors the one thrown is not determined.
\<close>

fun res_insort :: "('a \<Rightarrow> 'a \<Rightarrow> 'e + int) \<Rightarrow> 'a \<Rightarrow> 'a list \<Rightarrow> 'e + 'a list" where
  "res_insort cmp x [] = Inr [x]"
| "res_insort cmp x (y # ys) =
     res_bind (cmp x y) (\<lambda>c. if c \<le> 0 then Inr (x # y # ys) else res_bind (res_insort cmp x ys) (\<lambda>zs. Inr (y # zs)))"

fun res_sort :: "('a \<Rightarrow> 'a \<Rightarrow> 'e + int) \<Rightarrow> 'a list \<Rightarrow> 'e + 'a list" where
  "res_sort cmp [] = Inr []"
| "res_sort cmp (x # xs) = res_bind (res_sort cmp xs) (res_insort cmp x)"

definition sortCanonicalValues :: "logical list \<Rightarrow> sort_key_definition list \<Rightarrow> uce_error + logical list" where
  "sortCanonicalValues values sort_keys = res_sort (\<lambda>l r. compareCanonicalValues l r sort_keys) values"

fun no_duplicates :: "logical list \<Rightarrow> uce_error + unit" where
  "no_duplicates (x # y # zs) =
     res_bind (compare_encoded (encodeCanonical DEFAULT_LIMITS) x y) (\<lambda>c. if c = 0 then Inl SchemaValidationFailed else no_duplicates (y # zs))"
| "no_duplicates zs = Inr ()"

definition canonicalSetValues :: "logical list \<Rightarrow> uce_error + logical list" where
  "canonicalSetValues values =
     res_bind (res_sort (compare_encoded (encodeCanonical DEFAULT_LIMITS)) values) (\<lambda>sorted.
     res_bind (no_duplicates sorted) (\<lambda>_. Inr sorted))"

end
