(* ===== verification/Canonical_Time.thy ===== *)
theory Canonical_Time
  imports Canonical_Scalars
begin

text \<open>
  The timestamp conversions are inverse to each other: the calendar of the model is a bijection
  between days and dates, and the printed fields have the fixed layout the parser accepts.
\<close>

section \<open>Years and days\<close>

lemma step_div:
  fixes a k :: int
  assumes "0 < k"
  shows "(a + 1) div k = a div k + (if (a + 1) mod k = 0 then 1 else 0)"
proof -
  let ?q = "a div k" and ?r = "a mod k"
  have a: "a = k * ?q + ?r" "0 \<le> ?r" "?r < k" using assms by simp_all
  show ?thesis
  proof (cases "?r + 1 = k")
    case True
    then have "a + 1 = k * (?q + 1) + 0" using a(1) by (simp add: distrib_left, linarith)
    then have "(a + 1) div k = ?q + 1" "(a + 1) mod k = 0" using assms int_div_pos_eq int_mod_pos_eq by blast+
    then show ?thesis by simp
  next
    case False
    then have r: "a + 1 = k * ?q + (?r + 1)" "0 \<le> ?r + 1" "?r + 1 < k" using a by simp_all
    have "(a + 1) div k = ?q" "(a + 1) mod k = ?r + 1" using int_div_pos_eq [OF r] int_mod_pos_eq [OF r] by blast+
    then show ?thesis using a(2) by simp
  qed
qed

lemma year_step:
  fixes y c c' k :: int
  assumes "0 < k" and "k dvd c" and c': "c' = c + 1"
  shows "(y - c) div k = (y - c') div k + (if y mod k = 0 then 1 else 0)"
proof -
  have "(y - c) mod k = y mod k" using assms(2) by (simp add: mod_eq_dvd_iff)
  moreover have "y - (c + 1) + 1 = y - c" by simp
  ultimately show ?thesis using step_div [OF assms(1), of "y - (c + 1)"] by (simp only: c')
qed

lemma multiple_mod: "y mod a = 0 \<Longrightarrow> b dvd a \<Longrightarrow> y mod b = (0 :: int)"
  by (meson dvd_trans mod_0_imp_dvd dvd_imp_mod_0)

lemma year_length: "day_from_year (y + 1) = day_from_year y + 365 + (if leap_year y then 1 else 0)"
proof -
  have d: "(y - 1968) div 4 = (y - 1969) div 4 + (if y mod 4 = 0 then 1 else 0)"
    "(y - 1900) div 100 = (y - 1901) div 100 + (if y mod 100 = 0 then 1 else 0)"
    "(y - 1600) div 400 = (y - 1601) div 400 + (if y mod 400 = 0 then 1 else 0)"
    by (rule year_step; simp)+
  have e: "y mod 100 = 0" if "y mod 400 = 0" using multiple_mod [OF that, of 100] by simp
  have f: "y mod 4 = 0" if "y mod 100 = 0" using multiple_mod [OF that, of 4] by simp
  have shift: "y + 1 - 1970 = y - 1970 + 1" "y + 1 - 1969 = y - 1968" "y + 1 - 1901 = y - 1900" "y + 1 - 1601 = y - 1600" by simp_all
  have leap: "(if leap_year y then 1 else 0) = (if y mod 4 = 0 then 1 else 0) - (if y mod 100 = 0 then 1 else 0) + (if y mod 400 = 0 then 1 else (0 :: int))"
    using e f by (cases "y mod 400 = 0"; cases "y mod 100 = 0"; cases "y mod 4 = 0") (simp_all only: leap_year_def if_True if_False simp_thms, simp_all)
  show ?thesis unfolding day_from_year_def shift d leap by (simp only: distrib_left mult_1_right)
qed

lemma year_start_mono: "y \<le> z \<Longrightarrow> day_from_year y \<le> day_from_year z"
proof (induction z rule: int_ge_induct)
  case (step z)
  then show ?case using year_length [of z] by auto
qed simp

lemma div_bounds:
  fixes a k :: int
  assumes "0 < k"
  shows "k * (a div k) \<le> a" "a < k * (a div k) + k"
  using assms mult_div_mod_eq [of k a] pos_mod_sign [of k a] pos_mod_bound [of k a] by linarith+

lemma day_from_year_bounds:
  "146097 * (y - 1970) - 1000 \<le> 400 * day_from_year y" "400 * day_from_year y \<le> 146097 * (y - 1970) + 1000"
proof -
  define a b c where "a = (y - 1969) div 4" and "b = (y - 1901) div 100" and "c = (y - 1601) div 400"
  have ab: "4 * a \<le> y - 1969" "y - 1969 < 4 * a + 4" "100 * b \<le> y - 1901" "y - 1901 < 100 * b + 100" "400 * c \<le> y - 1601" "y - 1601 < 400 * c + 400"
    unfolding a_def b_def c_def by (rule div_bounds; simp)+
  define k where "k = y - 1970"
  have day: "day_from_year y = 365 * k + a - b + c" by (simp add: day_from_year_def a_def b_def c_def k_def)
  show "146097 * (y - 1970) - 1000 \<le> 400 * day_from_year y" "400 * day_from_year y \<le> 146097 * (y - 1970) + 1000"
    unfolding k_def [symmetric] using ab day k_def by linarith+
qed

lemma year_of_day: "day_from_year (year_of_day n) \<le> n" "n < day_from_year (year_of_day n + 1)"
proof -
  define k where "k = n * 400 div 146097"
  have k: "146097 * k \<le> n * 400" "n * 400 < 146097 * k + 146097" unfolding k_def by (rule div_bounds; simp)+
  have low: "day_from_year (1970 + k - 1) \<le> n" using day_from_year_bounds(2) [of "1970 + k - 1"] k by simp
  have high: "n < day_from_year (1970 + k + 1 + 1)" using day_from_year_bounds(1) [of "1970 + k + 1 + 1"] k by simp
  have year: "year_of_day n = (if day_from_year (1970 + k) > n then 1970 + k - 1 else if day_from_year (1970 + k + 1) \<le> n then 1970 + k + 1 else 1970 + k)"
    by (simp add: year_of_day_def k_def Let_def)
  show "day_from_year (year_of_day n) \<le> n" "n < day_from_year (year_of_day n + 1)"
    using low high unfolding year by (auto simp add: add.commute)
qed

lemma year_of_day_unique: "day_from_year y \<le> n \<Longrightarrow> n < day_from_year (y + 1) \<Longrightarrow> year_of_day n = y"
  using year_of_day [of n] year_start_mono [of "y + 1" "year_of_day n"] year_start_mono [of "year_of_day n + 1" y] by linarith

section \<open>Months\<close>

lemma month_split:
  assumes "0 \<le> k" and "k < 365 + (if leap then 1 else 0)"
  defines "m \<equiv> length (takeWhile (\<lambda>s. s \<le> k) (month_starts leap)) - 1"
  shows "m < 12" "month_starts leap ! m \<le> k" "k < month_starts leap ! m + 31"
  using assms(1,2) by (cases leap; auto simp: m_def month_starts_def Let_def)+

lemma day_parts:
  shows "month_of_day n < 12" "1 \<le> date_of_day n" "date_of_day n \<le> 31"
    "make_day (year_of_day n) (month_of_day n) (date_of_day n) = n"
proof -
  let ?y = "year_of_day n"
  have k: "0 \<le> n - day_from_year ?y" "n - day_from_year ?y < 365 + (if leap_year ?y then 1 else 0)"
    using year_of_day [of n] year_length [of ?y] by simp_all
  note m = month_split [OF k, folded month_of_day_def [of n, unfolded Let_def]]
  show "month_of_day n < 12" by (rule m)
  show "1 \<le> date_of_day n" "date_of_day n \<le> 31" using m by (simp_all add: date_of_day_def make_day_def)
  show "make_day ?y (month_of_day n) (date_of_day n) = n" by (simp add: date_of_day_def make_day_def)
qed

section \<open>Digits\<close>

fun fixed :: "nat \<Rightarrow> nat \<Rightarrow> units" where
  "fixed 0 n = []"
| "fixed (Suc k) n = fixed k (n div 10) @ [48 + n mod 10]"

lemma fixed_zero: "fixed k 0 = replicate k 48"
  by (induction k) (simp_all add: replicate_append_same)

lemma length_fixed [simp]: "length (fixed k n) = k"
  by (induction k arbitrary: n) simp_all

lemma fixed_digits: "list_all digit_unit (fixed k n)"
proof (induction k arbitrary: n)
  case (Suc k)
  have "n mod 10 < 10" by simp
  then have "digit_unit (48 + n mod 10)" unfolding digit_unit_def by linarith
  then show ?case using Suc by simp
qed simp

lemma digits_value_snoc: "digits_value (s @ [u]) = digits_value s * 10 + (u - 48)"
  by (simp add: digits_value_def)

lemma fixed_value: "n < 10 ^ k \<Longrightarrow> digits_value (fixed k n) = n"
proof (induction k arbitrary: n)
  case 0
  then show ?case by (simp add: digits_value_def)
next
  case (Suc k)
  then have "n div 10 < 10 ^ k" by (simp add: less_mult_imp_div_less mult.commute)
  then show ?case using Suc.IH by (simp add: digits_value_snoc)
qed

lemma fixed_of_value: "list_all digit_unit s \<Longrightarrow> fixed (length s) (digits_value s) = s"
proof (induction s rule: rev_induct)
  case (snoc u s)
  obtain v where v: "u = 48 + v" "v < 10"
  proof
    show "u = 48 + (u - 48)" "u - 48 < 10" using snoc.prems by (auto simp: digit_unit_def)
  qed
  have "(digits_value s * 10 + v) div 10 = digits_value s" "(digits_value s * 10 + v) mod 10 = v" using v(2) by simp_all
  moreover have "fixed (length s) (digits_value s) = s" using snoc by simp
  ultimately show ?case using v(1) by (simp add: digits_value_snoc)
qed simp

lemma digits_value_less: "list_all digit_unit s \<Longrightarrow> digits_value s < 10 ^ length s"
proof (induction s rule: rev_induct)
  case (snoc u s)
  then have "u - 48 \<le> 9" "digits_value s + 1 \<le> 10 ^ length s" by (auto simp: digit_unit_def)
  then show ?case by (simp add: digits_value_snoc)
qed (simp add: digits_value_def)

lemma padded_fixed: "0 < k \<Longrightarrow> n < 10 ^ k \<Longrightarrow> padded k (int n) = fixed k n"
proof (induction k arbitrary: n)
  case (Suc k)
  show ?case
  proof (cases "n < 10")
    case True
    then show ?thesis by (simp add: padded_def nat_units.simps [of n] fixed_zero)
  next
    case False
    then have "0 < k" "n div 10 < 10 ^ k" using Suc.prems by (cases k; simp add: less_mult_imp_div_less mult.commute)+
    then have "padded k (int (n div 10)) = fixed k (n div 10)" by (rule Suc.IH)
    then show ?thesis using False by (simp add: padded_def nat_units.simps [of n] Let_def)
  qed
qed simp

section \<open>Layouts\<close>

fun render :: "layout_item list \<Rightarrow> units list \<Rightarrow> units" where
  "render [] gs = []"
| "render (Literal c # items) gs = c # render items gs"
| "render (Digits n # items) gs = hd gs @ render items (tl gs)"

fun fits :: "layout_item list \<Rightarrow> units list \<Rightarrow> bool" where
  "fits [] gs \<longleftrightarrow> gs = []"
| "fits (Literal c # items) gs \<longleftrightarrow> fits items gs"
| "fits (Digits n # items) gs \<longleftrightarrow> (case gs of g # gs' \<Rightarrow> length g = n \<and> list_all digit_unit g \<and> fits items gs' | [] \<Rightarrow> False)"

lemma match_render: "fits items gs \<Longrightarrow> match_layout items (render items gs) = Some gs"
  by (induction items gs rule: fits.induct) (auto split: list.splits)

lemma layout_sound: "match_layout items s = Some gs \<Longrightarrow> fits items gs \<and> s = render items gs"
proof (induction items s arbitrary: gs rule: match_layout.induct)
  case (3 n items s)
  then obtain gs' where "match_layout items (drop n s) = Some gs'" "gs = take n s # gs'" "n \<le> length s" "list_all digit_unit (take n s)"
    by (auto split: if_splits)
  moreover from this have "fits items gs'" "drop n s = render items gs'" using 3(1) by auto
  ultimately show ?case using append_take_drop_id [of n s] by simp
qed (auto split: if_splits list.splits)

section \<open>Texts and big integers\<close>

text \<open>
  The loop of \<open>normalizeText\<close> does not skip the second half of a surrogate pair, so it refuses every
  text with a character outside the basic plane, well formed or not.
\<close>

lemma normalizeText_basic_plane: "normalizeText (LText s) = Inr s \<longleftrightarrow> (\<forall>u \<in> set s. \<not> high_surrogate u \<and> \<not> low_surrogate u)"
proof -
  have "text_units_ok s \<longleftrightarrow> (\<forall>u \<in> set s. \<not> high_surrogate u \<and> \<not> low_surrogate u)"
  proof (induction s)
    case (Cons u s)
    then show ?case by (cases s) (auto simp: high_surrogate_def low_surrogate_def isLowSurrogate_def)
  qed simp
  then show ?thesis by (simp add: normalizeText_def)
qed

lemma nat_units_fixed: "nat_units n = fixed (length (nat_units n)) n \<and> n < 10 ^ length (nat_units n) \<and> plain_digits (nat_units n)"
proof (induction n rule: nat_units.induct)
  case (1 n)
  show ?case
  proof (cases "n < 10")
    case True
    then show ?thesis by (auto simp: nat_units.simps [of n] plain_digits_def digit_unit_def)
  next
    case False
    then have IH: "nat_units (n div 10) = fixed (length (nat_units (n div 10))) (n div 10)" "n div 10 < 10 ^ length (nat_units (n div 10))"
      "plain_digits (nat_units (n div 10))" using 1 by auto
    have "n mod 10 < 10" by simp
    moreover have "nat_units (n div 10) \<noteq> [48]" using IH(1,2) False fixed_value [of "n div 10" 1] by (auto simp: digits_value_def)
    ultimately have "plain_digits (nat_units n)" using IH(3) False by (auto simp: nat_units.simps [of n] plain_digits_def digit_unit_def)
    then show ?thesis using False IH by (simp add: nat_units.simps [of n] div_less_iff_less_mult mult.commute)
  qed
qed

lemma big_integer_text_roundtrip: "normalizeBigInteger (LText (toBigIntegerText n)) = Inr n"
proof -
  have d: "plain_digits (nat_units m)" "digits_value (nat_units m) = m" for m using nat_units_fixed [of m] fixed_value [of m "length (nat_units m)"] by auto
  moreover have "take (Suc 0) (nat_units m) \<noteq> [45]" for m using d(1) [of m] by (cases "nat_units m") (auto simp: plain_digits_def digit_unit_def)
  ultimately show ?thesis by (simp add: normalizeBigInteger_def toBigIntegerText_def units_of_def strip_minus_def)
qed

section \<open>The time of day\<close>

lemma seconds_in: "(1000 :: int) * 60 = 60000" "(60000 :: int) * 60 = 3600000" "(3600000 :: int) * 24 = 86400000" "0 \<le> (60 :: int)" "0 \<le> (24 :: int)"
  by simp_all

lemma clock_nested:
  "utc_day t = t div 1000 div 60 div 60 div 24" "utc_hours t = t div 1000 div 60 div 60 mod 24"
  "utc_minutes t = t div 1000 div 60 mod 60" "utc_seconds t = t div 1000 mod 60"
proof -
  have e: "t div 60000 = t div 1000 div 60" "t div 3600000 = t div 60000 div 60" "t div 86400000 = t div 3600000 div 24"
    using zdiv_zmult2_eq [of 60 t 1000] zdiv_zmult2_eq [of 60 t 60000] zdiv_zmult2_eq [of 24 t 3600000] by (simp_all only: seconds_in)
  show "utc_day t = t div 1000 div 60 div 60 div 24" "utc_hours t = t div 1000 div 60 div 60 mod 24"
    "utc_minutes t = t div 1000 div 60 mod 60" "utc_seconds t = t div 1000 mod 60"
    unfolding utc_day_def utc_hours_def utc_minutes_def utc_seconds_def e by (rule refl)+
qed

lemma same_second:
  assumes "t div 1000 = u div 1000"
  shows "utc_day t = utc_day u" "utc_hours t = utc_hours u" "utc_minutes t = utc_minutes u" "utc_seconds t = utc_seconds u"
  by (simp_all only: clock_nested assms)

lemma clock_bounds:
  "0 \<le> utc_hours t" "utc_hours t < 24" "0 \<le> utc_minutes t" "utc_minutes t < 60" "0 \<le> utc_seconds t" "utc_seconds t < 60"
  "0 \<le> utc_milliseconds t" "utc_milliseconds t < 1000"
  by (simp_all add: utc_hours_def utc_minutes_def utc_seconds_def utc_milliseconds_def)

lemma clock_sum: "utc_day t * 86400000 + utc_hours t * 3600000 + utc_minutes t * 60000 + utc_seconds t * 1000 = t - utc_milliseconds t"
proof -
  define a b c d where "a = t div 1000" and "b = a div 60" and "c = b div 60" and "d = c div 24"
  have "t = a * 1000 + utc_milliseconds t" "a = b * 60 + utc_seconds t" "b = c * 60 + utc_minutes t" "c = d * 24 + utc_hours t"
    by (simp_all only: clock_nested utc_milliseconds_def a_def b_def c_def d_def div_mult_mod_eq)
  moreover have "utc_day t = d" by (simp only: clock_nested a_def b_def c_def d_def)
  ultimately show ?thesis by linarith
qed

lemma date_of_clock:
  "dateFromFields (year_of_day (utc_day t)) (int (month_of_day (utc_day t)) + 1) (date_of_day (utc_day t))
     (utc_hours t) (utc_minutes t) (utc_seconds t) = t - utc_milliseconds t"
  using clock_sum [of t] by (simp add: dateFromFields_def day_parts(4))

section \<open>The conversions as one layout\<close>

definition time_groups :: "int \<Rightarrow> int \<Rightarrow> units list" where
  "time_groups t ns = [fixed 4 (nat (year_of_day (utc_day t))), fixed 2 (nat (int (month_of_day (utc_day t)) + 1)), fixed 2 (nat (date_of_day (utc_day t))),
     fixed 2 (nat (utc_hours t)), fixed 2 (nat (utc_minutes t)), fixed 2 (nat (utc_seconds t)), fixed 9 (nat ns)]"

definition time_in_range :: "int \<Rightarrow> bool" where
  "time_in_range t \<longleftrightarrow> 1 \<le> year_of_day (utc_day t) \<and> year_of_day (utc_day t) \<le> 9999"

lemma padded_int: "0 < k \<Longrightarrow> 0 \<le> n \<Longrightarrow> n < 10 ^ k \<Longrightarrow> padded k n = fixed k (nat n)"
  using padded_fixed [of k "nat n"] by (simp add: nat_less_iff)

lemma in_range_milliseconds: "time_in_range t \<Longrightarrow> \<bar>t\<bar> \<le> 8640000000000000"
proof -
  assume range: "time_in_range t"
  let ?y = "year_of_day (utc_day t)"
  have "day_from_year 1 \<le> utc_day t" "utc_day t < day_from_year 10000"
    using range year_of_day [of "utc_day t"] year_start_mono [of 1 ?y] year_start_mono [of "?y + 1" 10000] unfolding time_in_range_def by linarith+
  then have "- 719162 \<le> utc_day t" "utc_day t < 2932897" by (simp_all add: day_from_year_def)
  moreover have "86400000 * utc_day t \<le> t" "t < 86400000 * utc_day t + 86400000" unfolding utc_day_def by (rule div_bounds; simp)+
  ultimately show ?thesis by linarith
qed

lemma truncated_floor:
  fixes n :: int
  defines "q \<equiv> truncated_div n 1000000"
  defines "r \<equiv> n - q * 1000000"
  shows "(if r < 0 then q - 1 else q) = n div 1000000" "(if r < 0 then r + 1000000 else r) = n mod 1000000"
proof -
  define m where "m = (if r < 0 then q - 1 else q)"
  define e where "e = (if r < 0 then r + 1000000 else r)"
  define a where "a = \<bar>n\<bar> div 1000000"
  have a: "1000000 * a \<le> \<bar>n\<bar>" "\<bar>n\<bar> < 1000000 * a + 1000000" unfolding a_def by (rule div_bounds; simp)+
  have "q = a \<or> n < 0 \<and> q = - a" by (auto simp: q_def truncated_div_def a_def sgn_if)
  then have n: "n = 1000000 * m + e" "0 \<le> e" "e < 1000000"
    using a unfolding m_def e_def r_def by (auto simp: q_def truncated_div_def a_def sgn_if)
  show "(if r < 0 then q - 1 else q) = n div 1000000" "(if r < 0 then r + 1000000 else r) = n mod 1000000"
    using int_div_pos_eq [OF n] int_mod_pos_eq [OF n] by (simp_all only: m_def e_def)
qed

lemma from_nanoseconds:
  "timestampFromNanoseconds n =
     (let t = n div 1000000 in if time_in_range t then Inr (render timestamp_layout (time_groups t (utc_milliseconds t * 1000000 + n mod 1000000)))
      else Inl SchemaValidationFailed)"
proof -
  define t where "t = n div 1000000"
  define ns where "ns = utc_milliseconds t * 1000000 + n mod 1000000"
  have ns: "0 \<le> ns" "ns < 1000000000" using clock_bounds(7,8) [of t] pos_mod_sign [of 1000000 n] pos_mod_bound [of 1000000 n] unfolding ns_def by linarith+
  note bounds = clock_bounds [of t] day_parts [of "utc_day t"]
  have groups: "padded 2 (int (month_of_day (utc_day t)) + 1) = fixed 2 (nat (int (month_of_day (utc_day t)) + 1))"
    "padded 2 (date_of_day (utc_day t)) = fixed 2 (nat (date_of_day (utc_day t)))"
    "padded 2 (utc_hours t) = fixed 2 (nat (utc_hours t))" "padded 2 (utc_minutes t) = fixed 2 (nat (utc_minutes t))"
    "padded 2 (utc_seconds t) = fixed 2 (nat (utc_seconds t))" "padded 9 ns = fixed 9 (nat ns)"
    using bounds ns by (intro padded_int; simp)+
  have year: "padded 4 (year_of_day (utc_day t)) = fixed 4 (nat (year_of_day (utc_day t)))" if "time_in_range t"
    using that by (intro padded_int) (simp_all add: time_in_range_def)
  have "timestampFromNanoseconds n =
    (if \<bar>t\<bar> > 8640000000000000 \<or> \<not> time_in_range t then Inl SchemaValidationFailed
     else Inr (padded 4 (year_of_day (utc_day t)) @ [45] @ padded 2 (int (month_of_day (utc_day t)) + 1) @ [45] @ padded 2 (date_of_day (utc_day t)) @ [84]
           @ padded 2 (utc_hours t) @ [58] @ padded 2 (utc_minutes t) @ [58] @ padded 2 (utc_seconds t) @ [46] @ padded 9 ns @ [90]))"
    unfolding timestampFromNanoseconds_def Let_def truncated_floor t_def [symmetric] ns_def [symmetric]
    by (simp only: time_in_range_def not_le de_Morgan_conj not_less) 
  then show ?thesis using in_range_milliseconds [of t] groups year unfolding Let_def t_def [symmetric] ns_def [symmetric]
    by (auto simp: timestamp_layout_def time_groups_def)
qed


lemma fits_timestamp:
  "fits timestamp_layout gs \<longleftrightarrow>
     (\<exists>a b c d e f g. gs = [a, b, c, d, e, f, g] \<and> list_all (list_all digit_unit) gs \<and> map length gs = [4, 2, 2, 2, 2, 2, 9])"
  unfolding timestamp_layout_def by (auto split: list.splits)

lemma group_fixed: "gs ! i = fixed k (nat m) \<Longrightarrow> 0 \<le> m \<Longrightarrow> m < 10 ^ k \<Longrightarrow> group_value gs i = m"
  by (simp add: group_value_def fixed_value nat_less_iff)

lemma fixed_group: "list_all digit_unit g \<Longrightarrow> length g = k \<Longrightarrow> int (digits_value g) = m \<Longrightarrow> fixed k (nat m) = g"
  using fixed_of_value [of g] by auto

definition groups_fields :: "units \<Rightarrow> units list \<Rightarrow> timestamp_fields" where
  "groups_fields s m = \<lparr>ts_raw = s, ts_year = group_value m 0, ts_month = group_value m 1, ts_day = group_value m 2,
     ts_hour = group_value m 3, ts_minute = group_value m 4, ts_second = group_value m 5\<rparr>"

lemma nanoseconds_match:
  "timestampNanoseconds s = Inr n \<longleftrightarrow>
     (\<exists>gs. match_layout timestamp_layout s = Some gs \<and> validateTimestampFields (groups_fields s gs) = Inr ()
        \<and> n = fields_date (groups_fields s gs) * 1000000 + group_value gs 6)"
  by (cases "match_layout timestamp_layout s"; cases "validateTimestampFields (groups_fields s (the (match_layout timestamp_layout s)))")
    (auto simp: timestampNanoseconds_def normalizeTimestamp_def timestampFields_def groups_fields_def)

definition clock_fields :: "timestamp_fields \<Rightarrow> int \<Rightarrow> bool" where
  "clock_fields f t \<longleftrightarrow> ts_year f = year_of_day (utc_day t) \<and> ts_month f = int (month_of_day (utc_day t)) + 1 \<and> ts_day f = date_of_day (utc_day t)
     \<and> ts_hour f = utc_hours t \<and> ts_minute f = utc_minutes t \<and> ts_second f = utc_seconds t"

lemma validate_clock: "validateTimestampFields f = Inr () \<longleftrightarrow> clock_fields f (fields_date f) \<and> time_in_range (fields_date f)"
  using clock_bounds [of "fields_date f"] day_parts(1) [of "utc_day (fields_date f)"]
  by (auto simp: validateTimestampFields_def clock_fields_def time_in_range_def Let_def)

lemma clock_second: "t div 1000 = u div 1000 \<Longrightarrow> clock_fields f t = clock_fields f u \<and> time_in_range t = time_in_range u"
  by (simp add: clock_fields_def time_in_range_def same_second [of t u])

lemma to_nanoseconds_print:
  fixes n :: int
  defines "t \<equiv> n div 1000000"
  assumes range: "time_in_range t" and s: "s = render timestamp_layout (time_groups t (utc_milliseconds t * 1000000 + n mod 1000000))"
  shows "timestampNanoseconds s = Inr n"
proof -
  define ns where "ns = utc_milliseconds t * 1000000 + n mod 1000000"
  define gs where "gs = time_groups t ns"
  have ns: "0 \<le> ns" "ns < 1000000000"
    using clock_bounds(7,8) [of t] pos_mod_sign [of 1000000 n] pos_mod_bound [of 1000000 n] unfolding ns_def by linarith+
  have "fits timestamp_layout gs" by (simp add: fits_timestamp gs_def time_groups_def fixed_digits)
  then have match: "match_layout timestamp_layout s = Some gs" using match_render s by (simp add: gs_def ns_def)
  note bounds = clock_bounds [of t] day_parts [of "utc_day t"] range [unfolded time_in_range_def] ns
  have vals: "group_value gs 0 = year_of_day (utc_day t)" "group_value gs 6 = ns"
    using bounds group_fixed [of gs 0 4] group_fixed [of gs 6 9] by (simp_all add: gs_def time_groups_def)
  have vals1: "group_value gs 1 = int (month_of_day (utc_day t)) + 1"
    using bounds by (intro group_fixed [of _ _ 2]) (simp_all add: gs_def time_groups_def)
  have vals2: "group_value gs 2 = date_of_day (utc_day t)"
    "group_value gs 3 = utc_hours t" "group_value gs 4 = utc_minutes t" "group_value gs 5 = utc_seconds t"
    using bounds group_fixed [of gs 2 2] group_fixed [of gs 3 2] group_fixed [of gs 4 2] group_fixed [of gs 5 2]
    by (simp_all add: gs_def time_groups_def)
  define f where "f = groups_fields s gs"
  have f: "clock_fields f t" by (simp add: f_def clock_fields_def groups_fields_def vals vals1 [unfolded One_nat_def] vals2)
  then have date: "fields_date f = t - utc_milliseconds t" by (simp add: fields_date_def clock_fields_def date_of_clock)
  have "(t - utc_milliseconds t) div 1000 = t div 1000" by (simp add: utc_milliseconds_def minus_mod_eq_mult_div)
  then have "validateTimestampFields f = Inr ()" unfolding validate_clock date using f range clock_second by blast
  moreover have "n = fields_date f * 1000000 + group_value gs 6"
    using div_mult_mod_eq [of n 1000000] unfolding date vals ns_def t_def [symmetric] by (simp add: left_diff_distrib)
  ultimately show ?thesis unfolding nanoseconds_match using match f_def by blast
qed

lemma to_nanoseconds_parse:
  fixes n :: int
  defines "t \<equiv> n div 1000000"
  assumes "timestampNanoseconds s = Inr n"
  shows "time_in_range t" "s = render timestamp_layout (time_groups t (utc_milliseconds t * 1000000 + n mod 1000000))"
proof -
  obtain gs where gs: "match_layout timestamp_layout s = Some gs" "validateTimestampFields (groups_fields s gs) = Inr ()"
    "n = fields_date (groups_fields s gs) * 1000000 + group_value gs 6" using assms(2) unfolding nanoseconds_match by blast
  define f where "f = groups_fields s gs"
  obtain a b c d e g h where shape: "gs = [a, b, c, d, e, g, h]" and digits: "list_all (list_all digit_unit) gs" and len: "map length gs = [4, 2, 2, 2, 2, 2, 9]"
    using layout_sound [OF gs(1)] unfolding fits_timestamp by (elim conjE exE) (rule that)
  define ns where "ns = group_value gs 6"
  have ns: "0 \<le> ns" "ns < 1000000000" using digits_value_less [of h] digits len by (simp_all add: ns_def shape group_value_def)
  define w where "w = fields_date f div 1000"
  have w: "fields_date f = w * 1000" by (simp add: w_def f_def fields_date_def dateFromFields_def)
  define x where "x = ns div 1000000"
  have x: "0 \<le> x" "x < 1000" "ns = x * 1000000 + ns mod 1000000" using ns by (simp_all add: x_def div_less_iff_less_mult)
  have n: "n = 1000000 * (w * 1000 + x) + ns mod 1000000" using gs(3) w x(3) unfolding f_def [symmetric] ns_def [symmetric] distrib_left by linarith
  then have t: "t = 1000 * w + x" and r: "n mod 1000000 = ns mod 1000000" unfolding t_def using int_div_pos_eq [OF n] int_mod_pos_eq [OF n] by simp_all
  have "t div 1000 = w" and ms: "utc_milliseconds t = x" using int_div_pos_eq [OF t x(1,2)] int_mod_pos_eq [OF t x(1,2)] by (simp_all add: utc_milliseconds_def)
  then have "fields_date f div 1000 = t div 1000" by (simp add: w)
  then have clock: "clock_fields f t" and range: "time_in_range t" using gs(2) clock_second unfolding f_def [symmetric] validate_clock by blast+
  show "time_in_range t" by (rule range)
  have "utc_milliseconds t * 1000000 + n mod 1000000 = ns" using x(3) by (simp add: ms r)
  moreover have "time_groups t ns = gs"
    using clock digits len unfolding time_groups_def clock_fields_def f_def groups_fields_def ns_def
    by (auto simp add: shape group_value_def simp del: nat_int intro!: fixed_group)
  ultimately show "s = render timestamp_layout (time_groups t (utc_milliseconds t * 1000000 + n mod 1000000))" using layout_sound [OF gs(1)] by simp
qed

section \<open>The accepted texts and instants\<close>

text \<open>The days of a month and the texts of the calendar, stated without the conversions.\<close>

definition days_in_month :: "nat \<Rightarrow> nat \<Rightarrow> nat" where
  "days_in_month y m =
     (if m = 2 then (if y mod 4 = 0 \<and> y mod 100 \<noteq> 0 \<or> y mod 400 = 0 then 29 else 28) else if m \<in> {4, 6, 9, 11} then 30 else 31)"

definition calendar_text :: "units \<Rightarrow> bool" where
  "calendar_text s \<longleftrightarrow>
     (\<exists>y m d h mi sec ns. 1 \<le> y \<and> y \<le> 9999 \<and> 1 \<le> m \<and> m \<le> 12 \<and> 1 \<le> d \<and> d \<le> days_in_month y m \<and> h \<le> 23 \<and> mi \<le> 59 \<and> sec \<le> 59 \<and> ns < 10 ^ 9
       \<and> s = fixed 4 y @ [45] @ fixed 2 m @ [45] @ fixed 2 d @ [84] @ fixed 2 h @ [58] @ fixed 2 mi @ [58] @ fixed 2 sec @ [46] @ fixed 9 ns @ [90])"

definition month_days :: "bool \<Rightarrow> nat \<Rightarrow> int" where
  "month_days leap m = [31, if leap then 29 else 28, 31, 30, 31, 30, 31, 31, 30, 31, 30, 31] ! m"

lemma days_in_month_days: "1 \<le> m \<Longrightarrow> m \<le> 12 \<Longrightarrow> int (days_in_month y m) = month_days (leap_year (int y)) (m - 1)"
proof -
  assume "1 \<le> m" "m \<le> 12"
  then have "m = 1 \<or> m = 2 \<or> m = 3 \<or> m = 4 \<or> m = 5 \<or> m = 6 \<or> m = 7 \<or> m = 8 \<or> m = 9 \<or> m = 10 \<or> m = 11 \<or> m = 12" by arith
  moreover have "leap_year (int y) \<longleftrightarrow> y mod 4 = 0 \<and> y mod 100 \<noteq> 0 \<or> y mod 400 = 0"
  proof -
    have i: "int y mod 4 = int (y mod 4)" "int y mod 100 = int (y mod 100)" "int y mod 400 = int (y mod 400)" by (simp_all add: zmod_int)
    have "y mod 400 = 0 \<longrightarrow> y mod 4 = 0" using multiple_mod [of "int y" 400 4] unfolding i by simp
    then show ?thesis unfolding leap_year_def i of_nat_eq_0_iff by (cases "y mod 400 = 0"; cases "y mod 4 = 0") simp_all
  qed
  ultimately show ?thesis by (elim disjE) (simp_all add: days_in_month_def month_days_def)
qed

lemma month_end:
  assumes "0 \<le> k" and "k < 365 + (if leap then 1 else 0)"
  defines "m \<equiv> length (takeWhile (\<lambda>s. s \<le> k) (month_starts leap)) - 1"
  shows "k < month_starts leap ! m + month_days leap m"
  using assms(1,2) by (cases leap; auto simp: m_def month_starts_def month_days_def Let_def)

lemma date_bound: "date_of_day n \<le> month_days (leap_year (year_of_day n)) (month_of_day n)"
proof -
  let ?y = "year_of_day n"
  have k: "0 \<le> n - day_from_year ?y" "n - day_from_year ?y < 365 + (if leap_year ?y then 1 else 0)"
    using year_of_day [of n] year_length [of ?y] by simp_all
  show ?thesis using month_end [OF k, folded month_of_day_def [of n, unfolded Let_def]] by (simp add: date_of_day_def make_day_def)
qed

lemma starts_step: "m < 12 \<Longrightarrow> month_starts leap ! Suc m = month_starts leap ! m + month_days leap m"
proof -
  assume "m < 12"
  then have "m = 0 \<or> m = 1 \<or> m = 2 \<or> m = 3 \<or> m = 4 \<or> m = 5 \<or> m = 6 \<or> m = 7 \<or> m = 8 \<or> m = 9 \<or> m = 10 \<or> m = 11" by arith
  then show ?thesis by (elim disjE) (simp_all add: month_starts_def month_days_def Let_def)
qed

lemma starts_sorted: "sorted (month_starts leap)" "length (month_starts leap) = 13" "month_starts leap ! 0 = 0" "month_starts leap ! 12 = 365 + (if leap then 1 else 0)"
  by (simp_all add: month_starts_def Let_def)

lemma month_position:
  assumes "m < 12" and "1 \<le> d" and "d \<le> month_days leap m"
  defines "k \<equiv> month_starts leap ! m + d - 1"
  shows "length (takeWhile (\<lambda>s. s \<le> k) (month_starts leap)) - 1 = m" "0 \<le> k" "k < 365 + (if leap then 1 else 0)"
proof -
  have mono: "month_starts leap ! i \<le> month_starts leap ! j" if "i \<le> j" "j < 13" for i j
    using sorted_nth_mono [OF starts_sorted(1), of i j] that by (simp add: starts_sorted)
  have after: "k < month_starts leap ! Suc m" using starts_step [OF assms(1)] assms(3) by (simp add: k_def)
  have "takeWhile (\<lambda>s. s \<le> k) (month_starts leap) = take (Suc m) (month_starts leap)"
  proof (rule takeWhile_eq_take_P_nth)
    show "month_starts leap ! i \<le> k" if "i < Suc m" for i using mono [of i m] that assms(1,2) by (simp add: k_def)
  qed (use after in simp)
  then show "length (takeWhile (\<lambda>s. s \<le> k) (month_starts leap)) - 1 = m" using assms(1) by (simp add: starts_sorted)
  show "0 \<le> k" using mono [of 0 m] assms(1,2) by (simp add: k_def starts_sorted)
  have "month_starts leap ! Suc m \<le> month_starts leap ! 12" using assms(1) by (intro mono) simp_all
  then show "k < 365 + (if leap then 1 else 0)" unfolding starts_sorted(4) using after by linarith
qed

text \<open>The calendar reads back the date a day was made from.\<close>

lemma made_day:
  assumes "m < 12" and "1 \<le> d" and "d \<le> month_days (leap_year y) m"
  shows "year_of_day (make_day y m d) = y" "month_of_day (make_day y m d) = m" "date_of_day (make_day y m d) = d"
proof -
  note p = month_position [OF assms]
  have eq: "make_day y m d - day_from_year y = month_starts (leap_year y) ! m + d - 1" by (simp add: make_day_def)
  show y: "year_of_day (make_day y m d) = y"
    using p(2,3) year_length [of y] by (intro year_of_day_unique) (simp_all add: make_day_def)
  show m: "month_of_day (make_day y m d) = m" unfolding month_of_day_def Let_def y eq by (rule p(1))
  show "date_of_day (make_day y m d) = d" unfolding date_of_day_def y m by (simp add: make_day_def)
qed

lemma made_clock:
  fixes D h mi sec ms :: int
  defines "t \<equiv> D * 86400000 + h * 3600000 + mi * 60000 + sec * 1000 + ms"
  assumes "0 \<le> h" "h \<le> 23" "0 \<le> mi" "mi \<le> 59" "0 \<le> sec" "sec \<le> 59" "0 \<le> ms" "ms < 1000"
  shows "utc_day t = D" "utc_hours t = h" "utc_minutes t = mi" "utc_seconds t = sec" "utc_milliseconds t = ms"
proof -
  have a: "t = 1000 * (60 * (60 * (24 * D + h) + mi) + sec) + ms" by (simp add: t_def)
  have s1: "t div 1000 = 60 * (60 * (24 * D + h) + mi) + sec" and "t mod 1000 = ms"
    using int_div_pos_eq [OF a assms(8,9)] int_mod_pos_eq [OF a assms(8,9)] by simp_all
  then show "utc_milliseconds t = ms" by (simp add: utc_milliseconds_def)
  have s: "0 \<le> sec" "sec < 60" "0 \<le> mi" "mi < 60" "0 \<le> h" "h < 24" using assms by simp_all
  have s2: "t div 1000 div 60 = 60 * (24 * D + h) + mi" "t div 1000 mod 60 = sec"
    using int_div_pos_eq [OF s1 s(1,2)] int_mod_pos_eq [OF s1 s(1,2)] by simp_all
  have s3: "t div 1000 div 60 div 60 = 24 * D + h" "t div 1000 div 60 mod 60 = mi"
    using int_div_pos_eq [OF s2(1) s(3,4)] int_mod_pos_eq [OF s2(1) s(3,4)] by simp_all
  have s4: "t div 1000 div 60 div 60 div 24 = D" "t div 1000 div 60 div 60 mod 24 = h"
    using int_div_pos_eq [OF s3(1) s(5,6)] int_mod_pos_eq [OF s3(1) s(5,6)] by simp_all
  show "utc_day t = D" "utc_hours t = h" "utc_minutes t = mi" "utc_seconds t = sec" unfolding clock_nested by (fact s4(1), fact s4(2), fact s3(2), fact s2(2))
qed

lemma range_instants: "time_in_range (n div 1000000) \<longleftrightarrow> - 62135596800000000000 \<le> n \<and> n < 253402300800000000000"
proof -
  define t where "t = n div 1000000"
  define D where "D = utc_day t"
  have t: "1000000 * t \<le> n" "n < 1000000 * t + 1000000" unfolding t_def by (rule div_bounds; simp)+
  have D: "86400000 * D \<le> t" "t < 86400000 * D + 86400000" unfolding D_def utc_day_def by (rule div_bounds; simp)+
  have y: "day_from_year 1 = - 719162" "day_from_year 10000 = 2932897" by (simp_all add: day_from_year_def)
  have "time_in_range t \<longleftrightarrow> day_from_year 1 \<le> D \<and> D < day_from_year 10000"
  proof
    assume "time_in_range t"
    then have "1 \<le> year_of_day D" "year_of_day D + 1 \<le> 10000" by (simp_all add: time_in_range_def D_def)
    then show "day_from_year 1 \<le> D \<and> D < day_from_year 10000"
      using year_of_day [of D] year_start_mono [of 1 "year_of_day D"] year_start_mono [of "year_of_day D + 1" 10000] by linarith
  next
    assume b: "day_from_year 1 \<le> D \<and> D < day_from_year 10000"
    have "\<not> year_of_day D < 1" using year_of_day(2) [of D] year_start_mono [of "year_of_day D + 1" 1] b by linarith
    moreover have "\<not> 9999 < year_of_day D" using year_of_day(1) [of D] year_start_mono [of 10000 "year_of_day D"] b by linarith
    ultimately show "time_in_range t" by (simp add: time_in_range_def D_def)
  qed
  also have "\<dots> \<longleftrightarrow> - 62135596800000000000 \<le> n \<and> n < 253402300800000000000" unfolding y using t D by linarith
  finally show ?thesis by (simp add: t_def)
qed

lemma parsed_calendar:
  assumes "timestampNanoseconds s = Inr n"
  shows "calendar_text s"
proof -
  define t where "t = n div 1000000"
  define D where "D = utc_day t"
  note r = to_nanoseconds_parse [OF assms, folded t_def]
  define ns where "ns = utc_milliseconds t * 1000000 + n mod 1000000"
  have ns: "0 \<le> ns" "ns < 1000000000" using clock_bounds(7,8) [of t] pos_mod_sign [of 1000000 n] pos_mod_bound [of 1000000 n] unfolding ns_def by linarith+
  have y: "1 \<le> year_of_day D" "year_of_day D \<le> 9999" using r(1) by (simp_all add: time_in_range_def D_def)
  note d = day_parts [of D] date_bound [of D]
  have dim: "date_of_day D \<le> int (days_in_month (nat (year_of_day D)) (month_of_day D + 1))"
    using days_in_month_days [of "month_of_day D + 1" "nat (year_of_day D)"] d y by simp
  show ?thesis unfolding calendar_text_def
  proof (intro exI conjI)
    show "s = fixed 4 (nat (year_of_day D)) @ [45] @ fixed 2 (month_of_day D + 1) @ [45] @ fixed 2 (nat (date_of_day D)) @ [84] @ fixed 2 (nat (utc_hours t)) @ [58]
       @ fixed 2 (nat (utc_minutes t)) @ [58] @ fixed 2 (nat (utc_seconds t)) @ [46] @ fixed 9 (nat ns) @ [90]"
      using r(2) by (simp add: timestamp_layout_def time_groups_def ns_def D_def nat_add_distrib)
  qed (use y d dim clock_bounds [of t] ns in auto)
qed

lemma calendar_parsed:
  assumes "calendar_text s"
  shows "\<exists>n. timestampNanoseconds s = Inr n"
proof -
  obtain y m d h mi sec ns where b: "1 \<le> y" "y \<le> 9999" "1 \<le> m" "m \<le> 12" "1 \<le> d" "d \<le> days_in_month y m" "h \<le> 23" "mi \<le> 59" "sec \<le> 59" "ns < 10 ^ 9"
    and s: "s = fixed 4 y @ [45] @ fixed 2 m @ [45] @ fixed 2 d @ [84] @ fixed 2 h @ [58] @ fixed 2 mi @ [58] @ fixed 2 sec @ [46] @ fixed 9 ns @ [90]"
    using assms unfolding calendar_text_def by blast
  define D where "D = make_day (int y) (m - 1) (int d)"
  have dim: "m - 1 < 12" "1 \<le> int d" "int d \<le> month_days (leap_year (int y)) (m - 1)" using b days_in_month_days [of m y] by auto
  note date = made_day [OF dim, folded D_def]
  define t where "t = D * 86400000 + int h * 3600000 + int mi * 60000 + int sec * 1000 + int (ns div 1000000)"
  have "0 \<le> int (ns div 1000000)" "int (ns div 1000000) < 1000" using b(10) by (auto simp: less_mult_imp_div_less)
  then have clock: "utc_day t = D" "utc_hours t = int h" "utc_minutes t = int mi" "utc_seconds t = int sec" "utc_milliseconds t = int (ns div 1000000)"
    unfolding t_def using b by (intro made_clock; simp)+
  define n where "n = 1000000 * t + int (ns mod 1000000)"
  have n: "n div 1000000 = t" "n mod 1000000 = int (ns mod 1000000)"
    using int_div_pos_eq [OF n_def] int_mod_pos_eq [OF n_def] by simp_all
  have "utc_milliseconds t * 1000000 + n mod 1000000 = int ns" unfolding clock n by (metis div_mult_mod_eq of_nat_add of_nat_mult of_nat_numeral)
  moreover have "time_in_range t" using b by (simp add: time_in_range_def clock date)
  moreover have "s = render timestamp_layout (time_groups t (int ns))" using b unfolding s by (simp add: timestamp_layout_def time_groups_def clock date)
  ultimately have "timestampNanoseconds s = Inr n" using to_nanoseconds_print [of n s] by (simp add: n)
  then show ?thesis by blast
qed

text \<open>
  C26.  A text denotes a number of nanoseconds exactly when that number is printed as the text.  The instants that are
  printed are exactly those from the first nanosecond of year 1 to the last of year 9999, and the texts that
  are read are exactly the date-times of the calendar in those years, with the length of every month and nine digits of
  fraction; both conversions refuse everything else.
\<close>

theorem timestamp_roundtrip:
  "(timestampNanoseconds s = Inr n \<longleftrightarrow> timestampFromNanoseconds n = Inr s)
   \<and> ((\<exists>s'. timestampFromNanoseconds n = Inr s') \<longleftrightarrow> - 62135596800000000000 \<le> n \<and> n < 253402300800000000000)
   \<and> ((\<exists>n'. timestampNanoseconds s = Inr n') \<longleftrightarrow> calendar_text s)"
proof (intro conjI)
  show "timestampNanoseconds s = Inr n \<longleftrightarrow> timestampFromNanoseconds n = Inr s"
    unfolding from_nanoseconds Let_def using to_nanoseconds_print [of n s] to_nanoseconds_parse [of s n] by auto
  show "(\<exists>s'. timestampFromNanoseconds n = Inr s') \<longleftrightarrow> - 62135596800000000000 \<le> n \<and> n < 253402300800000000000"
    unfolding from_nanoseconds Let_def range_instants by auto
  show "(\<exists>n'. timestampNanoseconds s = Inr n') \<longleftrightarrow> calendar_text s" using parsed_calendar calendar_parsed by blast
qed

theorem timestamp_roundtrip_witness:
  "timestampFromNanoseconds (- 62135596800000000000) = Inr (units_of ''0001-01-01T00:00:00.000000000Z'')
   \<and> timestampNanoseconds (units_of ''0001-01-01T00:00:00.000000000Z'') = Inr (- 62135596800000000000)
   \<and> timestampNanoseconds (units_of ''2023-02-29T00:00:00.000000000Z'') = Inl SchemaValidationFailed
   \<and> (\<nexists>s. timestampFromNanoseconds 253402300800000000000 = Inr s)"
proof -
  have p: "timestampFromNanoseconds (- 62135596800000000000) = Inr (units_of ''0001-01-01T00:00:00.000000000Z'')" by code_simp
  have q: "timestampNanoseconds (units_of ''2023-02-29T00:00:00.000000000Z'') = Inl SchemaValidationFailed" by code_simp
  show ?thesis using p q timestamp_roundtrip [of "units_of ''0001-01-01T00:00:00.000000000Z''" "- 62135596800000000000"]
      timestamp_roundtrip [of "[]" 253402300800000000000] by simp
qed

end
