(* ===== verification/Comparator_Laws.thy ===== *)
theory Comparator_Laws
  imports Canonical_Comparators Canonical_Time Logical_Roundtrip Complex_Main
begin

text \<open>
  What the comparators order: the exact order of \<open>compareDecimals\<close>, every comparison mode as a
  three-way comparison of keys, and from these the laws of the comparator chain and of the two sorts.
\<close>

section \<open>Digit lists\<close>

lemma digits_value_append: "digits_value (s @ t) = digits_value s * 10 ^ length t + digits_value t"
proof (induction t rule: rev_induct)
  case (snoc u t)
  have "digits_value (s @ t @ [u]) = digits_value (s @ t) * 10 + (u - 48)" using digits_value_snoc [of "s @ t" u] by simp
  then show ?case by (simp add: digits_value_snoc snoc algebra_simps)
qed (simp add: digits_value_def)

lemma digits_value_Cons: "digits_value (u # s) = (u - 48) * 10 ^ length s + digits_value s"
  using digits_value_append [of "[u]" s] by (simp add: digits_value_def)

lemma digits_value_zeros [simp]: "digits_value (replicate k 48) = 0"
  by (induction k) (simp_all add: digits_value_Cons, simp add: digits_value_def)

lemma digits_value_pos: "list_all digit_unit s \<Longrightarrow> s \<noteq> [] \<Longrightarrow> hd s \<noteq> 48 \<Longrightarrow> 10 ^ (length s - 1) \<le> digits_value s"
proof (cases s)
  case (Cons u r)
  assume "list_all digit_unit s" "hd s \<noteq> 48"
  then have "1 \<le> u - 48" using Cons by (simp add: digit_unit_def, linarith)
  then have "10 ^ length r \<le> (u - 48) * 10 ^ length r" using mult_le_mono1 [of 1 "u - 48" "10 ^ length r"] by simp
  then have "10 ^ length r \<le> digits_value (u # r)" unfolding digits_value_Cons by linarith
  then show ?thesis using Cons by simp
qed simp

lemma equal_length_order:
  "list_all digit_unit s \<Longrightarrow> list_all digit_unit t \<Longrightarrow> length s = length t \<Longrightarrow> lex_cmp int s t = three_way (digits_value s) (digits_value t)"
proof (induction s t rule: list_induct2')
  case (4 u s v t)
  have less: "digits_value (a # p) < digits_value (b # q)" if "list_all digit_unit (a # p)" "list_all digit_unit (b # q)" "length p = length q" "a < b" for a b p q
  proof -
    have "digits_value p < 10 ^ length q" using digits_value_less [of p] that by simp
    moreover have "(a - 48 + 1) * 10 ^ length q \<le> (b - 48) * 10 ^ length q" using that by (intro mult_le_mono1) (auto simp: digit_unit_def)
    ultimately show ?thesis using that(3) by (simp add: digits_value_Cons)
  qed
  consider "u < v" | "v < u" | "u = v" by linarith
  then show ?case
  proof cases
    case 1
    then show ?thesis using less [of u s v t] 4 by (simp add: three_way_def)
  next
    case 2
    then show ?thesis using less [of v t u s] 4 by (simp add: three_way_def)
  next
    case 3
    then show ?thesis using 4 by (simp add: three_way_def digits_value_Cons)
  qed
qed (simp_all add: three_way_def)

text \<open>Digits without a leading zero are ordered by length, then by the digits.\<close>

lemma longer_greater:
  assumes "list_all digit_unit s" "list_all digit_unit t" "t \<noteq> []" "hd t \<noteq> 48" "length s < length t"
  shows "digits_value s < digits_value t"
proof -
  have "digits_value s < 10 ^ length s" using assms(1) by (rule digits_value_less)
  also have "\<dots> \<le> 10 ^ (length t - 1)" using assms(5) by (intro power_increasing) simp_all
  also have "\<dots> \<le> digits_value t" using assms by (intro digits_value_pos)
  finally show ?thesis .
qed

lemma digit_order_value:
  assumes "list_all digit_unit s" "list_all digit_unit t" "s \<noteq> []" "t \<noteq> []" "hd s \<noteq> 48" "hd t \<noteq> 48"
  shows "digit_order s t = three_way (digits_value s) (digits_value t)"
proof (rule linorder_cases [of "length s" "length t"])
  assume "length s < length t"
  then show ?thesis using longer_greater [of s t] assms by (simp add: digit_order_def three_way_def)
next
  assume "length s = length t"
  then show ?thesis using equal_length_order [of s t] assms by (simp add: digit_order_def)
next
  assume "length t < length s"
  then show ?thesis using longer_greater [of t s] assms by (simp add: digit_order_def three_way_def)
qed

lemma strip_leading_value: "list_all digit_unit s \<Longrightarrow> digits_value (strip_leading_zeros s) = digits_value s \<and> list_all digit_unit (strip_leading_zeros s)"
  by (induction s rule: strip_leading_zeros.induct) (auto simp: digits_value_Cons)

lemma strip_leading_shape: "list_all digit_unit s \<Longrightarrow> s \<noteq> [] \<Longrightarrow> strip_leading_zeros s = [48] \<or> (strip_leading_zeros s \<noteq> [] \<and> hd (strip_leading_zeros s) \<noteq> 48)"
  by (induction s rule: strip_leading_zeros.induct) auto

lemma strip_leading_length: "length (strip_leading_zeros s) \<le> length s"
  by (induction s rule: strip_leading_zeros.induct) auto

lemma strip_leading_id: "hd s \<noteq> 48 \<Longrightarrow> strip_leading_zeros s = s"
  by (cases s rule: strip_leading_zeros.cases) auto


section \<open>Normalised decimals\<close>

text \<open>The value of the text behind \<open>decimal:\<close>.\<close>

definition decimal_value :: "units \<Rightarrow> rat" where
  "decimal_value s = (let u = strip_minus s in
     (if take 1 s = [45] then -1 else 1) * of_nat (digits_value (before_point u @ after_point u)) / 10 ^ length (after_point u))"

definition decimal_text :: "units \<Rightarrow> bool" where
  "decimal_text s \<longleftrightarrow> take 8 s = units_of ''decimal:'' \<and> decimal_syntax (strip_minus (drop 8 s))"

text \<open>The parts of a normalised decimal: sign, integer digits and fraction digits without a trailing zero.\<close>

definition decimal_parts :: "bool \<Rightarrow> units \<Rightarrow> units \<Rightarrow> bool" where
  "decimal_parts neg i f \<longleftrightarrow> plain_digits i \<and> list_all digit_unit f \<and> (f \<noteq> [] \<longrightarrow> last f \<noteq> 48) \<and> (neg \<longrightarrow> i \<noteq> [48] \<or> f \<noteq> [])"

definition parts_text :: "bool \<Rightarrow> units \<Rightarrow> units \<Rightarrow> units" where
  "parts_text neg i f = (if neg then [45] else []) @ i @ (if f \<noteq> [] then 46 # f else [])"

definition parts_magnitude :: "units \<Rightarrow> units \<Rightarrow> rat" where
  "parts_magnitude i f = of_nat (digits_value (i @ f)) / 10 ^ length f"

lemma plain_digits_digits: "plain_digits i \<Longrightarrow> list_all digit_unit i \<and> i \<noteq> []"
  by (auto simp: plain_digits_def digit_unit_def)

lemma digits_no_marks: "list_all digit_unit i \<Longrightarrow> u \<in> set i \<Longrightarrow> u \<noteq> 46 \<and> u \<noteq> 45"
  by (auto simp: list_all_iff digit_unit_def)

lemma parts_points:
  assumes "list_all digit_unit i"
  shows "before_point (i @ (if f \<noteq> [] then 46 # f else [])) = i" "after_point (i @ (if f \<noteq> [] then 46 # f else [])) = f"
  using digits_no_marks [OF assms] by (auto simp: before_point_def after_point_def takeWhile_append2 dropWhile_append2 takeWhile_eq_all_conv)

lemma strip_minus_parts: "plain_digits i \<Longrightarrow> strip_minus (parts_text neg i f) = i @ (if f \<noteq> [] then 46 # f else [])"
  using digits_no_marks [of i "hd i"] plain_digits_digits [of i] by (cases i) (auto simp: strip_minus_def parts_text_def)

lemma parts_sign: "plain_digits i \<Longrightarrow> take 1 (parts_text neg i f) = [45] \<longleftrightarrow> neg"
  using digits_no_marks [of i "hd i"] plain_digits_digits [of i] by (cases i) (auto simp: parts_text_def)

lemma trailing_zeros_split: "\<exists>k. s = strip_trailing_zeros s @ replicate k 48"
proof -
  have "rev s = takeWhile (\<lambda>u. u = 48) (rev s) @ dropWhile (\<lambda>u. u = 48) (rev s)" by simp
  moreover have "takeWhile (\<lambda>u. u = 48) (rev s) = replicate (length (takeWhile (\<lambda>u. u = 48) (rev s))) 48"
    by (rule replicate_eqI) (auto dest: set_takeWhileD)
  ultimately have "rev s = replicate (length (takeWhile (\<lambda>u. u = 48) (rev s))) 48 @ dropWhile (\<lambda>u. u = 48) (rev s)" by simp
  then have "s = rev (dropWhile (\<lambda>u. u = 48) (rev s)) @ replicate (length (takeWhile (\<lambda>u. u = 48) (rev s))) 48"
    by (metis rev_append rev_replicate rev_rev_ident)
  then show ?thesis unfolding strip_trailing_zeros_def by blast
qed

lemma strip_trailing_last: "strip_trailing_zeros s \<noteq> [] \<Longrightarrow> last (strip_trailing_zeros s) \<noteq> 48"
  using hd_dropWhile [of "\<lambda>u. u = 48" "rev s"] by (simp add: strip_trailing_zeros_def last_rev)

lemma magnitude_scale: "parts_magnitude i (f @ replicate k 48) = parts_magnitude i f"
  using digits_value_append [of "i @ f" "replicate k 48"] by (simp add: parts_magnitude_def power_add)

lemma normal_decimal:
  assumes "decimal_text s"
  obtains neg i f where "decimal_parts neg i f" "normalizeExactDecimal (LText s) Insignificant = Inr (units_of ''decimal:'' @ parts_text neg i f)"
    "decimal_value (drop 8 s) = (if neg then -1 else 1) * parts_magnitude i f"
proof -
  define u where "u = strip_minus (drop 8 s)"
  define i f0 f where "i = before_point u" and "f0 = after_point u" and "f = strip_trailing_zeros f0"
  obtain k where k: "f0 = f @ replicate k 48" using trailing_zeros_split f_def by metis
  have i: "plain_digits i" using assms by (simp add: decimal_text_def decimal_syntax_def u_def i_def)
  have f0: "list_all digit_unit f0"
  proof (cases "dropWhile (\<lambda>v. v \<noteq> 46) u = []")
    case True
    then have "f0 = []" unfolding f0_def after_point_def by (simp only: drop_Nil)
    then show ?thesis by simp
  next
    case False
    moreover have "decimal_syntax u" using assms by (simp add: decimal_text_def u_def)
    ultimately show ?thesis unfolding f0_def decimal_syntax_def by blast
  qed
  have f: "list_all digit_unit f" using f0 unfolding k by simp
  have f_last: "f \<noteq> [] \<Longrightarrow> last f \<noteq> 48" unfolding f_def by (rule strip_trailing_last)
  have strip: "strip_leading_zeros i = i" using i strip_leading_id [of i] by (auto simp: plain_digits_def)
  define neg where "neg \<longleftrightarrow> take 1 (drop 8 s) = [45] \<and> \<not> (i = [48] \<and> f = [])"
  show ?thesis
  proof
    show "decimal_parts neg i f" using i f f_last by (simp add: decimal_parts_def neg_def)
    show "normalizeExactDecimal (LText s) Insignificant = Inr (units_of ''decimal:'' @ parts_text neg i f)"
      using assms strip by (auto simp: decimal_text_def normalizeExactDecimal_def Let_def parts_text_def neg_def i_def f_def f0_def u_def units_of_def)
    have "decimal_value (drop 8 s) = (if take 1 (drop 8 s) = [45] then -1 else 1) * parts_magnitude i f0"
      by (simp add: decimal_value_def parts_magnitude_def Let_def u_def i_def f0_def)
    then show "decimal_value (drop 8 s) = (if neg then -1 else 1) * parts_magnitude i f"
      unfolding k magnitude_scale by (auto simp: neg_def parts_magnitude_def digits_value_def)
  qed
qed


section \<open>The order of decimals\<close>

text \<open>
  The order \<open>compareDecimals\<close> computes: that of the values, but the value zero stands above every value
  strictly between zero and one.
\<close>

definition decimal_order :: "rat \<Rightarrow> rat \<Rightarrow> int" where
  "decimal_order a b =
     (if a = 0 \<and> 0 < b \<and> b < 1 then 1 else if b = 0 \<and> 0 < a \<and> a < 1 then -1 else three_way a b)"

lemma parts_zero: "plain_digits i \<Longrightarrow> list_all digit_unit f \<Longrightarrow> (f \<noteq> [] \<longrightarrow> last f \<noteq> 48) \<Longrightarrow> digits_value (i @ f) = 0 \<longleftrightarrow> i = [48] \<and> f = []"
proof (cases "hd i = 48")
  case True
  assume i: "plain_digits i" and f: "list_all digit_unit f" "f \<noteq> [] \<longrightarrow> last f \<noteq> 48"
  then have i48: "i = [48]" using True by (auto simp: plain_digits_def)
  show ?thesis
  proof (cases f rule: rev_cases)
    case (snoc g u)
    then have "u \<noteq> 48" "48 \<le> u" using f by (auto simp: digit_unit_def)
    then have "digits_value ((i @ g) @ [u]) \<noteq> 0" unfolding digits_value_snoc by simp
    then show ?thesis using snoc by simp
  qed (simp add: i48 digits_value_def)
next
  case False
  assume i: "plain_digits i" and f: "list_all digit_unit f"
  then have "10 ^ (length (i @ f) - 1) \<le> digits_value (i @ f)" using False plain_digits_digits [of i] by (intro digits_value_pos) auto
  then have "digits_value (i @ f) \<noteq> 0" by (metis le_zero_eq power_not_zero zero_neq_numeral)
  then show ?thesis using False by auto
qed

lemma parts_less_one: "plain_digits i \<Longrightarrow> list_all digit_unit f \<Longrightarrow> parts_magnitude i f < 1 \<longleftrightarrow> i = [48]"
proof -
  assume i: "plain_digits i" and f: "list_all digit_unit f"
  have lt: "digits_value f < 10 ^ length f" using f by (rule digits_value_less)
  have "parts_magnitude i f < 1 \<longleftrightarrow> digits_value (i @ f) < 10 ^ length f"
    unfolding parts_magnitude_def of_nat_less_iff [where 'a = rat, symmetric] by simp
  also have "\<dots> \<longleftrightarrow> digits_value i = 0"
  proof (cases "digits_value i = 0")
    case False
    then have "1 * 10 ^ length f \<le> digits_value i * 10 ^ length f" by (intro mult_le_mono1) simp
    then show ?thesis using False unfolding digits_value_append by linarith
  qed (simp add: lt digits_value_append)
  also have "\<dots> \<longleftrightarrow> i = [48]" using parts_zero [OF i, of "[]"] by simp
  finally show ?thesis .
qed

lemma aligned_value:
  assumes "list_all digit_unit i" "list_all digit_unit f"
    and k: "k = max (length f) m"
  shows "of_nat (digits_value (strip_leading_zeros (i @ f) @ replicate (m - length f) 48)) = parts_magnitude i f * 10 ^ k"
proof -
  have "digits_value (strip_leading_zeros (i @ f)) = digits_value (i @ f)" using strip_leading_value [of "i @ f"] assms by simp
  moreover have "(10 :: rat) ^ k = 10 ^ length f * 10 ^ (m - length f)" unfolding k power_add [symmetric] by (simp add: max_def)
  ultimately show ?thesis by (simp add: digits_value_append [of "strip_leading_zeros (i @ f)"] parts_magnitude_def)
qed

lemma three_way_rat:
  fixes a b :: rat
  assumes "of_nat m = a * 10 ^ k" "of_nat n = b * 10 ^ k"
  shows "three_way m n = three_way a b"
proof -
  have "m < n \<longleftrightarrow> a < b" "n < m \<longleftrightarrow> b < a" unfolding of_nat_less_iff [where 'a = rat, symmetric] assms by simp_all
  then show ?thesis by (simp add: three_way_def)
qed


lemma zero_aligned:
  assumes j: "plain_digits j" and g: "list_all digit_unit g" and nz: "digits_value (j @ g) \<noteq> 0"
  shows "digit_order (replicate (Suc (length g)) 48) (strip_leading_zeros (j @ g)) = (if j = [48] then 1 else -1)"
    "digit_order (strip_leading_zeros (j @ g)) (replicate (Suc (length g)) 48) = (if j = [48] then -1 else 1)"
proof -
  have jd: "list_all digit_unit j" "j \<noteq> []" using plain_digits_digits [OF j] by auto
  have short: "length (strip_leading_zeros (j @ g)) \<le> length g" if "j = [48]"
  proof -
    have "g \<noteq> []" using nz that by (auto simp: digits_value_def)
    then obtain v r where vr: "g = v # r" by (cases g) auto
    then have "strip_leading_zeros (j @ g) = strip_leading_zeros g" using g that by simp
    then show ?thesis using strip_leading_length by simp
  qed
  show "digit_order (replicate (Suc (length g)) 48) (strip_leading_zeros (j @ g)) = (if j = [48] then 1 else -1)"
    "digit_order (strip_leading_zeros (j @ g)) (replicate (Suc (length g)) 48) = (if j = [48] then -1 else 1)"
  proof (cases "j = [48]", goal_cases)
    case 1
    then show ?case using short by (simp add: digit_order_def)
  next
    case 2
    then obtain u r where u: "j = u # r" "48 < u" using j by (cases j) (auto simp: plain_digits_def digit_unit_def less_le)
    then show ?case using strip_leading_id [of "j @ g"] 2 by (simp add: digit_order_def)
  next
    case 3
    then show ?case
    proof (cases "j = [48]")
      case True
      then show ?thesis using short by (simp add: digit_order_def)
    next
      case False
      then obtain u r where u: "j = u # r" "48 < u" using j by (cases j) (auto simp: plain_digits_def digit_unit_def less_le)
      then show ?thesis using strip_leading_id [of "j @ g"] False by (simp add: digit_order_def)
    qed
  qed
qed

lemma aligned_order:
  assumes l: "decimal_parts p i f" and r: "decimal_parts q j g"
  shows "digit_order (strip_leading_zeros (i @ f) @ replicate (length g - length f) 48) (strip_leading_zeros (j @ g) @ replicate (length f - length g) 48)
    = decimal_order (parts_magnitude i f) (parts_magnitude j g)" (is "digit_order ?l ?r = _")
proof -
  let ?a = "parts_magnitude i f" and ?b = "parts_magnitude j g"
  have i: "plain_digits i" "list_all digit_unit f" and j: "plain_digits j" "list_all digit_unit g" using l r by (auto simp: decimal_parts_def)
  have id: "list_all digit_unit i" "i \<noteq> []" and jd: "list_all digit_unit j" "j \<noteq> []" using plain_digits_digits i j by auto
  have zero: "digits_value (i @ f) = 0 \<longleftrightarrow> i = [48] \<and> f = []" "digits_value (j @ g) = 0 \<longleftrightarrow> j = [48] \<and> g = []"
    using parts_zero [of i f] parts_zero [of j g] l r by (auto simp: decimal_parts_def)
  have mag: "?a = 0 \<longleftrightarrow> digits_value (i @ f) = 0" "?b = 0 \<longleftrightarrow> digits_value (j @ g) = 0" "0 \<le> ?a" "0 \<le> ?b" by (simp_all add: parts_magnitude_def)
  have one: "?a < 1 \<longleftrightarrow> i = [48]" "?b < 1 \<longleftrightarrow> j = [48]" using parts_less_one i j by blast+
  consider "digits_value (i @ f) = 0" "digits_value (j @ g) = 0" | "digits_value (i @ f) = 0" "digits_value (j @ g) \<noteq> 0"
    | "digits_value (i @ f) \<noteq> 0" "digits_value (j @ g) = 0" | "digits_value (i @ f) \<noteq> 0" "digits_value (j @ g) \<noteq> 0" by blast
  then show ?thesis
  proof cases
    case 1
    then show ?thesis using zero mag by (simp add: decimal_order_def three_way_def digit_order_def)
  next
    case 2
    then have "digit_order ?l ?r = (if j = [48] then 1 else -1)" using zero_aligned(1) [OF j] zero by (simp add: replicate_append_same flip: replicate_Suc)
    moreover have "?a = 0" "0 < ?b" using 2 mag by auto
    ultimately show ?thesis using one by (auto simp: decimal_order_def three_way_def)
  next
    case 3
    then have "digit_order ?l ?r = (if i = [48] then -1 else 1)" using zero_aligned(2) [OF i] zero by (simp add: replicate_append_same flip: replicate_Suc)
    moreover have "?b = 0" "0 < ?a" using 3 mag by auto
    ultimately show ?thesis using one by (auto simp: decimal_order_def three_way_def)
  next
    case 4
    have sl: "list_all digit_unit (strip_leading_zeros (i @ f))" "digits_value (strip_leading_zeros (i @ f)) \<noteq> 0"
      and sr: "list_all digit_unit (strip_leading_zeros (j @ g))" "digits_value (strip_leading_zeros (j @ g)) \<noteq> 0"
      using strip_leading_value [of "i @ f"] strip_leading_value [of "j @ g"] 4 id jd i j by auto
    then have shape: "strip_leading_zeros (i @ f) \<noteq> []" "hd (strip_leading_zeros (i @ f)) \<noteq> 48" "strip_leading_zeros (j @ g) \<noteq> []" "hd (strip_leading_zeros (j @ g)) \<noteq> 48"
      using strip_leading_shape [of "i @ f"] strip_leading_shape [of "j @ g"] id jd i j by (auto simp: digits_value_def)
    have z: "list_all digit_unit (replicate k 48)" for k by (simp add: list_all_iff digit_unit_def)
    have "digit_order ?l ?r = three_way (digits_value ?l) (digits_value ?r)" using sl sr shape z by (intro digit_order_value) simp_all
    also have "\<dots> = three_way ?a ?b"
      using aligned_value [OF id(1) i(2), of "max (length f) (length g)" "length g"] aligned_value [OF jd(1) j(2), of "max (length f) (length g)" "length f"]
      by (intro three_way_rat [where k = "max (length f) (length g)"]) (simp_all add: max.commute)
    finally show ?thesis using 4 mag by (simp add: decimal_order_def)
  qed
qed


lemma decimal_texts_ordered:
  assumes "decimal_text a" and "decimal_text b"
  shows "compareDecimals (LText a) (LText b) = Inr (decimal_order (decimal_value (drop 8 a)) (decimal_value (drop 8 b)))"
proof -
  obtain p i f where l: "decimal_parts p i f" "normalizeExactDecimal (LText a) Insignificant = Inr (units_of ''decimal:'' @ parts_text p i f)"
    "decimal_value (drop 8 a) = (if p then -1 else 1) * parts_magnitude i f" using assms(1) by (rule normal_decimal)
  obtain q j g where r: "decimal_parts q j g" "normalizeExactDecimal (LText b) Insignificant = Inr (units_of ''decimal:'' @ parts_text q j g)"
    "decimal_value (drop 8 b) = (if q then -1 else 1) * parts_magnitude j g" using assms(2) by (rule normal_decimal)
  have neg: "decimal_negative (parts_text s k h) = s" if "decimal_parts s k h" for s k h
    using that parts_sign [of k s h] by (auto simp: decimal_negative_def decimal_parts_def)
  have pts: "before_point (strip_minus (parts_text s k h)) = k" "after_point (strip_minus (parts_text s k h)) = h" if "decimal_parts s k h" for s k h
    using that strip_minus_parts [of k s h] parts_points [of k h] plain_digits_digits [of k] by (simp_all add: decimal_parts_def)
  have mag: "parts_magnitude k h \<ge> 0" for k h by (simp add: parts_magnitude_def)
  have pos: "parts_magnitude k h > 0" if "decimal_parts True k h" for k h
    using that parts_zero [of k h] by (auto simp: decimal_parts_def parts_magnitude_def)
  have len: "length (units_of ''decimal:'') = 8" by (simp add: units_of_def)
  define L R where "L = parts_text p i f" and "R = parts_text q j g"
  have parts: "decimal_negative L = p" "decimal_negative R = q" "before_point (strip_minus L) = i" "after_point (strip_minus L) = f"
    "before_point (strip_minus R) = j" "after_point (strip_minus R) = g"
    unfolding L_def R_def by (rule neg pts, rule l r)+
  have "compareDecimals (LText a) (LText b) =
    (if p \<noteq> q then Inr (if p then -1 else 1) else Inr ((if p then -1 else 1) * decimal_order (parts_magnitude i f) (parts_magnitude j g)))"
    unfolding compareDecimals_def prod.case logical.case l(2) r(2) L_def [symmetric] R_def [symmetric]
    by (simp add: Let_def len parts aligned_digits_def aligned_order [OF l(1) r(1)])
  also have "\<dots> = Inr (decimal_order (decimal_value (drop 8 a)) (decimal_value (drop 8 b)))"
    using mag [of i f] mag [of j g] pos [of i f] pos [of j g] l(1) r(1)
    by (cases p; cases q) (auto simp: l(3) r(3) decimal_order_def three_way_def)
  finally show ?thesis .
qed

text \<open>
  On two texts of the decimal syntax \<open>compareDecimals\<close> returns the order of the values they
  denote, except that zero is reported greater than every value strictly between zero and one.
\<close>

theorem compareDecimals_exact:
  assumes "decimal_text a" and "decimal_text b"
  shows "compareDecimals (LText a) (LText b) = Inr (decimal_order (decimal_value (drop 8 a)) (decimal_value (drop 8 b)))"
  using assms by (rule decimal_texts_ordered)

theorem compareDecimals_exact_witness:
  "compareDecimals (LText (units_of ''decimal:0'')) (LText (units_of ''decimal:0.5'')) = Inr 1
   \<and> compareDecimals (LText (units_of ''decimal:-10.5'')) (LText (units_of ''decimal:-2.25'')) = Inr (-1)"
proof
  have d: "decimal_text (units_of ''decimal:0'')" "decimal_text (units_of ''decimal:0.5'')" "decimal_text (units_of ''decimal:-10.5'')" "decimal_text (units_of ''decimal:-2.25'')"
    by code_simp+
  show "compareDecimals (LText (units_of ''decimal:0'')) (LText (units_of ''decimal:0.5'')) = Inr 1"
    unfolding compareDecimals_exact [OF d(1,2)] by code_simp
  show "compareDecimals (LText (units_of ''decimal:-10.5'')) (LText (units_of ''decimal:-2.25'')) = Inr (-1)"
    unfolding compareDecimals_exact [OF d(3,4)] by code_simp
qed


section \<open>Each mode compares keys\<close>

text \<open>The key a mode reads from a value, where it reads one: the result, or a default behind an error.\<close>

definition result_or :: "'a \<Rightarrow> 'e + 'a \<Rightarrow> 'a" where
  "result_or d r = (case r of Inr x \<Rightarrow> x | Inl _ \<Rightarrow> d)"

lemma result_or_Inr [simp]: "result_or d (Inr x) = x"
  by (simp add: result_or_def)

definition text_of :: "logical \<Rightarrow> units" where
  "text_of v = (case v of LText s \<Rightarrow> s | _ \<Rightarrow> [])"

definition number_of :: "logical \<Rightarrow> int" where
  "number_of v = (case v of LNumber f \<Rightarrow> float_rank f | _ \<Rightarrow> 0)"

definition instant_of :: "logical \<Rightarrow> int" where
  "instant_of v = result_or 0 (res_bind (normalizeTimestamp v) timestampNanoseconds)"

definition encoded :: "logical \<Rightarrow> bytes" where
  "encoded v = result_or [] (encodeCanonical DEFAULT_LIMITS v)"

definition mode_order :: "string \<Rightarrow> logical \<Rightarrow> logical \<Rightarrow> int" where
  "mode_order mode l r =
     (if mode = ''uce_bytes'' then compareBytes (encoded l) (encoded r)
      else if mode = ''text_utf8'' then compareBytes (result_or [] (textBytes l)) (result_or [] (textBytes r))
      else if mode = ''bytes_lexicographic'' then compareBytes (result_or [] (byteValue l)) (result_or [] (byteValue r))
      else if mode = ''safe_integer_numeric'' \<or> mode = ''float64_numeric'' then three_way (number_of l) (number_of r)
      else if mode = ''big_integer_numeric'' then three_way (result_or 0 (normalizeBigInteger l)) (result_or 0 (normalizeBigInteger r))
      else if mode = ''exact_decimal_numeric'' then decimal_order (decimal_value (drop 8 (text_of l))) (decimal_value (drop 8 (text_of r)))
      else if mode = ''timestamp_chronological'' then three_way (instant_of l) (instant_of r)
      else compareBytes (hexToBytes (drop 7 (text_of l))) (hexToBytes (drop 7 (text_of r))))"

text \<open>A value has a mode's type when it compares with itself.\<close>

definition mode_accepts :: "string \<Rightarrow> logical \<Rightarrow> bool" where
  "mode_accepts mode v \<longleftrightarrow> (case compareByMode v v mode of Inr _ \<Rightarrow> True | Inl _ \<Rightarrow> False)"

lemma decimal_text_iff: "(\<exists>n. normalizeExactDecimal (LText s) Insignificant = Inr n) \<longleftrightarrow> decimal_text s"
  by (auto simp: normalizeExactDecimal_def decimal_text_def Let_def)

lemma compare_encoded_iff: "compare_encoded f l r = Inr c \<longleftrightarrow> (\<exists>x y. f l = Inr x \<and> f r = Inr y \<and> c = compareBytes x y)"
  by (auto simp: compare_encoded_def res_bind_Inr_iff)

lemma decimal_accepts: "compareDecimals v v = Inr c \<Longrightarrow> \<exists>s. v = LText s \<and> decimal_text s"
  by (cases v) (auto simp: compareDecimals_def res_bind_Inr_iff decimal_text_iff [symmetric])

lemma encoded_pair: "compare_encoded f l l = Inr c \<Longrightarrow> compare_encoded f r r = Inr d \<Longrightarrow> compare_encoded f l r = Inr (compareBytes (result_or [] (f l)) (result_or [] (f r)))"
  unfolding compare_encoded_iff by force

lemma number_pair: "compareNumbers l l = Inr c \<Longrightarrow> compareNumbers r r = Inr d \<Longrightarrow> compareNumbers l r = Inr (three_way (number_of l) (number_of r))"
  by (cases l; cases r) (auto simp: compareNumbers_def number_of_def split: if_splits)

lemma bigint_pair: "compareBigInts l l = Inr c \<Longrightarrow> compareBigInts r r = Inr d \<Longrightarrow> compareBigInts l r = Inr (three_way (result_or 0 (normalizeBigInteger l)) (result_or 0 (normalizeBigInteger r)))"
  by (cases "normalizeBigInteger l"; cases "normalizeBigInteger r") (simp_all add: compareBigInts_def)

lemma timestamp_pair: "compareTimestamps l l = Inr c \<Longrightarrow> compareTimestamps r r = Inr d \<Longrightarrow> compareTimestamps l r = Inr (three_way (instant_of l) (instant_of r))"
  by (cases l; cases r) (auto simp: compareTimestamps_def instant_of_def res_bind_Inr_iff)

lemma digest_pair: "compareDigestBytes l l = Inr c \<Longrightarrow> compareDigestBytes r r = Inr d \<Longrightarrow> compareDigestBytes l r = Inr (compareBytes (hexToBytes (drop 7 (text_of l))) (hexToBytes (drop 7 (text_of r))))"
  by (cases l; cases r) (auto simp: compareDigestBytes_def text_of_def split: if_splits)

lemma decimal_pair: "compareDecimals l l = Inr c \<Longrightarrow> compareDecimals r r = Inr d \<Longrightarrow> compareDecimals l r = Inr (decimal_order (decimal_value (drop 8 (text_of l))) (decimal_value (drop 8 (text_of r))))"
  using decimal_accepts [of l c] decimal_accepts [of r d] decimal_texts_ordered by (auto simp: text_of_def)

lemmas mode_pairs = encoded_pair [of "encodeCanonical DEFAULT_LIMITS", folded encoded_def] encoded_pair number_pair bigint_pair timestamp_pair digest_pair decimal_pair

lemma compareByMode_order:
  assumes "mode_accepts mode l" and "mode_accepts mode r"
  shows "compareByMode l r mode = Inr (mode_order mode l r)"
proof -
  obtain c d where "compareByMode l l mode = Inr c" "compareByMode r r mode = Inr d"
    using assms by (auto simp: mode_accepts_def split: sum.splits)
  then show ?thesis unfolding compareByMode_def mode_order_def by (auto split: if_splits dest: mode_pairs)
qed

lemma comparator_three_way: "comparator (\<lambda>x y. three_way (f x) (f y))"
  by (rule comparator.intro) (auto simp: three_way_def split: if_splits)

text \<open>The order of decimals is that of the pairs: zero takes the place just below one.\<close>

lemma decimal_order_key:
  "decimal_order a b = then_by (\<lambda>a b. three_way (if a = 0 then 1 else a) (if b = 0 then 1 else b)) (\<lambda>a b. three_way (a \<noteq> 0) (b \<noteq> 0)) a b"
proof (cases "a = 0 \<longleftrightarrow> b = 0")
  case True
  then show ?thesis by (auto simp: decimal_order_def then_by_def three_way_def)
next
  case False
  consider "a < 0" | "0 < a" "a < 1" | "a = 1" | "1 < a" | "b < 0" | "0 < b" "b < 1" | "b = 1" | "1 < b" using False by linarith
  then show ?thesis using False by cases (simp_all add: decimal_order_def then_by_def three_way_def)
qed

lemma comparator_decimal: "comparator decimal_order"
proof -
  have e: "decimal_order = then_by (\<lambda>a b. three_way (if a = 0 then 1 else a) (if b = 0 then 1 else b)) (\<lambda>a b. three_way (a \<noteq> 0) (b \<noteq> 0))"
    by (intro ext) (rule decimal_order_key)
  show ?thesis unfolding e by (intro comparator_then_by comparator_three_way)
qed

lemma comparator_if: "comparator c \<Longrightarrow> comparator d \<Longrightarrow> comparator (\<lambda>x y. if P then c x y else d x y)"
  by (cases P) simp_all

lemma comparator_mode: "comparator (mode_order mode)"
  unfolding mode_order_def [abs_def]
  by (intro comparator_if comparator_pullback [OF byte_order.comparator_axioms] comparator_three_way comparator_pullback [OF comparator_decimal])


section \<open>The chain of sort keys\<close>

definition option_order :: "bool \<Rightarrow> ('a \<Rightarrow> 'a \<Rightarrow> int) \<Rightarrow> 'a option \<Rightarrow> 'a option \<Rightarrow> int" where
  "option_order first c x y =
     (case (x, y) of (None, None) \<Rightarrow> 0 | (Some l, Some r) \<Rightarrow> c l r | (None, Some _) \<Rightarrow> if first then -1 else 1 | (Some _, None) \<Rightarrow> if first then 1 else -1)"

lemma comparator_option: "comparator c \<Longrightarrow> comparator (option_order first c)"
proof -
  assume c: "comparator c"
  show ?thesis
  proof
    show "sgn (option_order first c y x) = - sgn (option_order first c x y)" for x y
      using comparator.cmp_swap [OF c, of "the y" "the x"] by (cases x; cases y) (simp_all add: option_order_def)
    show "option_order first c x z \<le> 0" if "option_order first c x y \<le> 0" "option_order first c y z \<le> 0" for x y z
      using that comparator.cmp_trans [OF c, of "the x" "the y" "the z"] by (cases x; cases y; cases z) (simp_all add: option_order_def split: if_splits)
  qed
qed

lemma comparator_negate: "comparator c \<Longrightarrow> comparator (\<lambda>x y. - c x y)"
proof -
  assume c: "comparator c"
  show ?thesis
  proof
    show "sgn (- c y x) = - sgn (- c x y)" for x y using comparator.cmp_swap [OF c, of y x] by simp
    show "- c x z \<le> 0" if "- c x y \<le> 0" "- c y z \<le> 0" for x y z
      using that comparator.cmp_trans [OF c, of z y x] comparator.cmp_le_iff [OF c] by (metis neg_le_0_iff_le)
  qed
qed

definition key_order_of :: "sort_key_definition \<Rightarrow> logical \<Rightarrow> logical \<Rightarrow> int" where
  "key_order_of key l r =
     option_order (absent_order key = ''first'')
       (\<lambda>x y. if direction key = ''ascending'' then mode_order (comparison_mode key) x y else - mode_order (comparison_mode key) x y)
       (readPointer l (value_path key)) (readPointer r (value_path key))"

definition values_order :: "sort_key_definition list \<Rightarrow> logical \<Rightarrow> logical \<Rightarrow> int" where
  "values_order keys = foldr (\<lambda>key. then_by (key_order_of key)) keys (\<lambda>l r. compareBytes (encoded l) (encoded r))"

text \<open>
  A value conforms to a comparator when it can be encoded, and every sort key finds a value of the
  type of its mode or may be absent.
\<close>

definition canonical_value :: "logical \<Rightarrow> bool" where
  "canonical_value v \<longleftrightarrow> (case encodeCanonical DEFAULT_LIMITS v of Inr _ \<Rightarrow> True | Inl _ \<Rightarrow> False)"

definition key_conforms :: "logical \<Rightarrow> sort_key_definition \<Rightarrow> bool" where
  "key_conforms v key \<longleftrightarrow>
     (case readPointer v (value_path key) of None \<Rightarrow> absent_order key \<noteq> ''forbidden'' | Some x \<Rightarrow> mode_accepts (comparison_mode key) x)"

definition conforms :: "sort_key_definition list \<Rightarrow> logical \<Rightarrow> bool" where
  "conforms keys v \<longleftrightarrow> canonical_value v \<and> list_all (key_conforms v) keys"

lemma compare_canonical: "canonical_value l \<Longrightarrow> canonical_value r \<Longrightarrow> compare_encoded (encodeCanonical DEFAULT_LIMITS) l r = Inr (compareBytes (encoded l) (encoded r))"
  by (auto simp: canonical_value_def encoded_def compare_encoded_def split: sum.splits)

lemma compare_keys_order:
  assumes "conforms keys l" and "conforms keys r"
  shows "compare_keys l r keys = Inr (values_order keys l r)"
  using assms
proof (induction keys)
  case Nil
  then show ?case by (simp add: conforms_def values_order_def compare_canonical)
next
  case (Cons key keys)
  then have tail: "compare_keys l r keys = Inr (values_order keys l r)" by (simp add: conforms_def)
  have conf: "key_conforms l key" "key_conforms r key" using Cons.prems by (simp_all add: conforms_def)
  have step: "values_order (key # keys) l r = (if key_order_of key l r \<noteq> 0 then key_order_of key l r else values_order keys l r)"
    by (simp add: values_order_def then_by_def)
  show ?case
  proof (cases "readPointer l (value_path key)"; cases "readPointer r (value_path key)")
    fix x y assume x: "readPointer l (value_path key) = Some x" and y: "readPointer r (value_path key) = Some y"
    have "compareByMode x y (comparison_mode key) = Inr (mode_order (comparison_mode key) x y)"
      using conf x y by (intro compareByMode_order) (simp_all add: key_conforms_def)
    then show ?thesis using tail step x y by (auto simp: key_order_of_def option_order_def)
  qed (use tail step conf in \<open>auto simp: key_order_of_def option_order_def key_conforms_def Let_def\<close>)
qed

lemma comparator_values: "comparator (values_order keys)"
proof (induction keys)
  case Nil
  then show ?case by (simp add: values_order_def comparator_pullback [OF byte_order.comparator_axioms])
next
  case (Cons key keys)
  have "comparator (key_order_of key)"
    unfolding key_order_of_def [abs_def]
    by (rule comparator_pullback) (intro comparator_option comparator_if comparator_negate comparator_mode)
  then have "comparator (then_by (key_order_of key) (values_order keys))" using Cons by (rule comparator_then_by)
  then show ?case by (simp add: values_order_def)
qed

interpretation canonical: comparator "values_order keys" for keys
  by (rule comparator_values)

lemma values_order_tie: "values_order keys l r = 0 \<Longrightarrow> encoded l = encoded r"
proof (induction keys)
  case Nil
  then show ?case by (simp add: values_order_def byte_order.cmp_eq)
next
  case (Cons key keys)
  then show ?case by (auto simp: values_order_def then_by_def split: if_splits)
qed

section \<open>The sorts\<close>

lemma res_sort_pure:
  assumes "\<And>x y. x \<in> S \<Longrightarrow> y \<in> S \<Longrightarrow> cmp x y = Inr (c x y)" and "set xs \<subseteq> S"
  shows "res_sort cmp xs = Inr (sort_by c xs)"
proof -
  have ins: "x \<in> S \<Longrightarrow> set ys \<subseteq> S \<Longrightarrow> res_insort cmp x ys = Inr (insort_by c x ys)" for x ys
    by (induction ys) (auto simp: assms(1))
  show ?thesis using assms(2)
  proof (induction xs)
    case (Cons x xs)
    then show ?case using ins [of x "sort_by c xs"] set_sort_by [of c xs] by (simp add: sort_by_def)
  qed (simp add: sort_by_def)
qed

lemma sort_conforming:
  assumes "list_all (conforms keys) xs"
  shows "sortCanonicalValues xs keys = Inr (sort_by (values_order keys) xs)"
  unfolding sortCanonicalValues_def compareCanonicalValues_def
  by (rule res_sort_pure [where S = "Collect (conforms keys)"]) (use assms in \<open>auto simp: compare_keys_order list_all_iff\<close>)

lemma sort_by_ties: "comparator c \<Longrightarrow> (\<And>x y. c x y = 0 \<Longrightarrow> g x = g y) \<Longrightarrow> mset xs = mset ys \<Longrightarrow> map g (sort_by c xs) = map g (sort_by c ys)"
proof -
  assume c: "comparator c" and g: "\<And>x y. c x y = 0 \<Longrightarrow> g x = g y" and xs: "mset xs = mset ys"
  have "map (\<lambda>x. {z. c x z = 0}) (sort_by c xs) = map (\<lambda>x. {z. c x z = 0}) (sort_by c ys)"
    by (rule comparator.sorted_classes [OF c comparator.sorted_sort_by [OF c] comparator.sorted_sort_by [OF c]]) (simp add: xs)
  moreover have "g x = g y" if "{z. c x z = 0} = {z. c y z = 0}" for x y
    using that comparator.cmp_refl [OF c, of y] g [of x y] by auto
  ultimately have "map g (sort_by c xs) ! i = map g (sort_by c ys) ! i" if "i < length (sort_by c xs)" for i
    using that mset_eq_length [OF xs] by (metis (no_types, lifting) length_sort_by nth_map)
  then show ?thesis using mset_eq_length [OF xs] by (intro nth_equalityI) simp_all
qed

text \<open>
  C28.  A comparator orders the values that conform to it: the sort succeeds, returns the same values
  with every earlier one compared not greater than every later one, and the encodings of the result do not
  depend on the order in which the values were given.
\<close>

theorem canonical_sort_deterministic:
  assumes "list_all (conforms keys) xs" and "mset xs = mset ys"
  shows "\<exists>ss ts. sortCanonicalValues xs keys = Inr ss \<and> sortCanonicalValues ys keys = Inr ts \<and> mset ss = mset xs
    \<and> sorted_wrt (\<lambda>l r. \<exists>c. compareCanonicalValues l r keys = Inr c \<and> c \<le> 0) ss
    \<and> map (encodeCanonical DEFAULT_LIMITS) ss = map (encodeCanonical DEFAULT_LIMITS) ts"
proof (intro exI conjI)
  let ?ss = "sort_by (values_order keys) xs" and ?ts = "sort_by (values_order keys) ys"
  have sets: "set xs = set ys" using assms(2) by (metis set_mset_mset)
  then have ys: "list_all (conforms keys) ys" using assms(1) by (simp add: list_all_iff)
  show "sortCanonicalValues xs keys = Inr ?ss" "sortCanonicalValues ys keys = Inr ?ts" using sort_conforming assms(1) ys by blast+
  show "mset ?ss = mset xs" by simp
  show "sorted_wrt (\<lambda>l r. \<exists>c. compareCanonicalValues l r keys = Inr c \<and> c \<le> 0) ?ss"
  proof (rule sorted_wrt_mono_rel [OF _ canonical.sorted_sort_by])
    show "\<exists>c. compareCanonicalValues l r keys = Inr c \<and> c \<le> 0" if "l \<in> set ?ss" "r \<in> set ?ss" "values_order keys l r \<le> 0" for l r
      using that assms(1) compare_keys_order [of keys l r] by (simp add: compareCanonicalValues_def list_all_iff)
  qed
  have "map encoded ?ss = map encoded ?ts" by (rule sort_by_ties [OF comparator_values values_order_tie assms(2)])
  moreover have "encodeCanonical DEFAULT_LIMITS v = Inr (encoded v)" if "v \<in> set xs" for v
    using that assms(1) by (cases "encodeCanonical DEFAULT_LIMITS v") (auto simp: list_all_iff conforms_def canonical_value_def encoded_def)
  then have "map (encodeCanonical DEFAULT_LIMITS) ?ss = map Inr (map encoded ?ss)" "map (encodeCanonical DEFAULT_LIMITS) ?ts = map Inr (map encoded ?ts)"
    by (simp_all add: sets)
  ultimately show "map (encodeCanonical DEFAULT_LIMITS) ?ss = map (encodeCanonical DEFAULT_LIMITS) ?ts" by simp
qed

definition by_size :: "sort_key_definition list" where
  "by_size = [\<lparr>value_path = units_of ''/n'', comparison_mode = ''exact_decimal_numeric'', direction = ''descending'', absent_order = ''last''\<rparr>]"

definition sized :: "string \<Rightarrow> logical" where
  "sized s = LObject [(units_of ''n'', LText (units_of s))]"

theorem canonical_sort_deterministic_witness:
  "\<exists>ss ts. sortCanonicalValues [sized ''decimal:2'', LNull, sized ''decimal:10''] by_size = Inr ss
    \<and> sortCanonicalValues [LNull, sized ''decimal:10'', sized ''decimal:2''] by_size = Inr ts
    \<and> map (encodeCanonical DEFAULT_LIMITS) ss = map (encodeCanonical DEFAULT_LIMITS) ts"
proof -
  have enc: "canonical_value LNull" "canonical_value (sized ''decimal:2'')" "canonical_value (sized ''decimal:10'')"
    by (simp_all add: canonical_value_def sized_def units_of_def encode_eval)
  have dec: "decimal_text (units_of ''decimal:2'')" "decimal_text (units_of ''decimal:10'')" by code_simp+
  have "mode_accepts ''exact_decimal_numeric'' (LText s)" if "decimal_text s" for s
    using that by (simp add: mode_accepts_def compareByMode_def decimal_texts_ordered)
  moreover have "readPointer LNull (units_of ''/n'') = None" "readPointer (sized s) (units_of ''/n'') = Some (LText (units_of s))" for s
    by (simp_all add: readPointer_def units_of_def sized_def unescape_token_def read_token_def)
  ultimately have "list_all (conforms by_size) [sized ''decimal:2'', LNull, sized ''decimal:10'']"
    using enc dec by (simp add: conforms_def key_conforms_def by_size_def)
  moreover have "mset [sized ''decimal:2'', LNull, sized ''decimal:10''] = mset [LNull, sized ''decimal:10'', sized ''decimal:2'']" by simp
  ultimately show ?thesis using canonical_sort_deterministic by blast
qed

section \<open>Canonical sets\<close>

lemma no_duplicates_iff:
  "list_all canonical_value xs \<Longrightarrow> sorted_wrt (\<lambda>l r. compareBytes (encoded l) (encoded r) \<le> 0) xs \<Longrightarrow>
   no_duplicates xs = (if distinct (map encoded xs) then Inr () else Inl SchemaValidationFailed)"
proof (induction xs rule: no_duplicates.induct)
  case (1 x y zs)
  show ?case
  proof (cases "encoded x = encoded y")
    case True
    then show ?thesis using 1 by (simp add: compare_canonical byte_order.cmp_refl)
  next
    case False
    have "encoded x \<noteq> encoded z" if "z \<in> set zs" for z
    proof
      assume "encoded x = encoded z"
      then have "compareBytes (encoded y) (encoded x) \<le> 0" using 1(3) that by simp
      moreover have "compareBytes (encoded x) (encoded y) \<le> 0" using 1(3) by simp
      ultimately have "compareBytes (encoded x) (encoded y) = 0" using byte_order.cmp_le_iff [of "encoded y" "encoded x"] by linarith
      then show False using False byte_order.cmp_eq by blast
    qed
    then have "distinct (map encoded (x # y # zs)) = distinct (map encoded (y # zs))" using False by auto
    moreover have "compareBytes (encoded x) (encoded y) \<noteq> 0" using False byte_order.cmp_eq by blast
    ultimately show ?thesis using 1 by (simp add: compare_canonical)
  qed
qed simp_all

text \<open>
  \<open>canonicalSetValues\<close> on values that can be encoded: it returns exactly the arrangement in strictly ascending byte
  order of the encodings, and fails exactly when two of the values have the same encoding.
\<close>

theorem canonicalSetValues_exact:
  assumes "list_all canonical_value xs"
  shows "case canonicalSetValues xs of
      Inr ss \<Rightarrow> mset ss = mset xs \<and> sorted_wrt (\<lambda>l r. compareBytes (encoded l) (encoded r) < 0) ss
    | Inl e \<Rightarrow> e = SchemaValidationFailed \<and> \<not> distinct (map encoded xs)"
proof -
  let ?c = "\<lambda>l r. compareBytes (encoded l) (encoded r)"
  have c: "comparator ?c" by (rule comparator_pullback [OF byte_order.comparator_axioms])
  let ?s = "sort_by ?c xs"
  have "res_sort (compare_encoded (encodeCanonical DEFAULT_LIMITS)) xs = Inr ?s"
    using assms by (intro res_sort_pure [where S = "Collect canonical_value"]) (auto simp: compare_canonical list_all_iff)
  moreover have "list_all canonical_value ?s" using assms by (simp add: list_all_iff)
  moreover have sorted: "sorted_wrt (\<lambda>l r. ?c l r \<le> 0) ?s" by (rule comparator.sorted_sort_by [OF c])
  moreover have dist: "distinct (map encoded ?s) = distinct (map encoded xs)" by (metis mset_eq_imp_distinct_iff mset_map mset_sort_by)
  ultimately have eval: "canonicalSetValues xs = (if distinct (map encoded xs) then Inr ?s else Inl SchemaValidationFailed)"
    using no_duplicates_iff [of ?s] by (simp add: canonicalSetValues_def)
  have strict: "?c l r < 0 \<longleftrightarrow> ?c l r \<le> 0 \<and> encoded l \<noteq> encoded r" for l r
    using byte_order.cmp_zero_iff [of "encoded l" "encoded r"] by linarith
  have "sorted_wrt (\<lambda>l r. ?c l r < 0) ys \<longleftrightarrow> sorted_wrt (\<lambda>l r. ?c l r \<le> 0) ys \<and> distinct (map encoded ys)" for ys
    by (induction ys) (auto simp: strict)
  then show ?thesis using eval sorted dist by simp
qed

theorem canonicalSetValues_exact_witness:
  "canonicalSetValues [LBool True, LNull, LBool True] = Inl SchemaValidationFailed \<and> canonicalSetValues [LBool True, LNull] = Inr [LNull, LBool True]"
proof -
  have e: "encodeCanonical DEFAULT_LIMITS LNull = Inr [0]" "encodeCanonical DEFAULT_LIMITS (LBool True) = Inr [2]" by (simp_all add: encode_eval)
  then have ok: "list_all canonical_value [LBool True, LNull, LBool True]" "list_all canonical_value [LBool True, LNull]"
    and b: "encoded LNull = [0]" "encoded (LBool True) = [2]" by (simp_all add: canonical_value_def encoded_def)
  have "canonicalSetValues [LBool True, LNull, LBool True] = Inl SchemaValidationFailed"
    using canonicalSetValues_exact [OF ok(1)] by (simp add: canonicalSetValues_def compare_encoded_def e)
  moreover have "canonicalSetValues [LBool True, LNull] = Inr [LNull, LBool True]"
    using canonicalSetValues_exact [OF ok(2)] by (simp add: canonicalSetValues_def compare_encoded_def e)
  ultimately show ?thesis by blast
qed

end
