(* ===== verification/Scheduler.thy ===== *)
theory Scheduler
  imports Urdira_Prelude
begin

text \<open>
  The job scheduler of the daemon (\<open>packages/daemon/src/scheduler.ts\<close>, class \<open>DaemonScheduler\<close>): pools
  with bounded concurrency under a global bound, client quotas, publications serialised per workspace,
  restart leases and the two ways to stop.  Entries, publications and leases are objects in tables and
  named by their position; a promise is the state of its object.  Every call of a client, every return of
  a job and every settlement of a promise is one event; a job calls the scheduler only through such events.
\<close>

section \<open>Options, requests and entries\<close>

datatype pool_kind = Source | Structural | Semantic | Query

definition WORK_POOL_KINDS :: "pool_kind list" where
  "WORK_POOL_KINDS = [Source, Structural, Semantic, Query]"

definition pool_of_name :: "string \<Rightarrow> pool_kind option" where
  "pool_of_name = map_of [(''source'', Source), (''structural'', Structural), (''semantic'', Semantic), (''query'', Query)]"

datatype scheduler_error =
    AdmissionExhausted | DaemonNotRunning | QuotaExceeded | OperationCancelled | DaemonRestartRequired | ExecutionFailed | JobFailed string

record scheduler_options =
  pool_concurrency :: "pool_kind \<Rightarrow> int"
  max_active :: int
  client_quotas :: "string \<Rightarrow> int option"
  default_client_quota :: "int option"
  restart_lease_ttl_ms :: "int option"
  query_reserved_slots :: "int option"

record progress_event =
  pe_completed :: int
  pe_total :: "int option"

record job_request =
  rq_client_id :: string
  rq_workspace_id :: "string option"
  rq_pool :: string
  rq_publish :: bool

datatype entry_state = Queued | Running | Settled

text \<open>Where the asynchronous function \<open>run\<close> of an entry stands, with the value it carries.\<close>

datatype program_point = NotStarted | InRun | AwaitPublication nat string | AwaitPublish string | Returned

record entry =
  en_request :: job_request
  en_pool :: pool_kind
  en_aborted :: bool
  en_progress :: "progress_event list"
  en_state :: entry_state
  en_point :: program_point
  en_outcome :: "(scheduler_error + string) option"

text \<open>A publication waits for its predecessor on the tail of the workspace, is called, and settles.\<close>

datatype publication_state = Waiting | Publishing | Published | PublishFailed scheduler_error

record publication =
  pb_workspace :: string
  pb_previous :: "nat option"
  pb_state :: publication_state

record restart_lease =
  ls_released :: bool
  ls_expires_at :: int

record scheduler =
  sc_table :: "entry list"
  sc_queues :: "pool_kind \<Rightarrow> nat list"
  sc_poolActive :: "pool_kind \<Rightarrow> int"
  sc_clientInFlight :: "string \<Rightarrow> int option"
  sc_entries :: "nat list"
  sc_publications :: "publication list"
  sc_publicationTails :: "string \<Rightarrow> nat option"
  sc_leases :: "restart_lease list"
  sc_restartLeases :: "nat list"
  sc_stopping :: bool
  sc_stopCalls :: nat
  sc_stopWaiters :: "nat list"

text \<open>The constructor: \<open>sequence\<close> is the number of leases handed out.\<close>

definition is_safe_integer :: "int \<Rightarrow> bool" where
  "is_safe_integer n \<longleftrightarrow> \<bar>n\<bar> \<le> 2 ^ 53 - 1"

definition reserved_slots :: "scheduler_options \<Rightarrow> int" where
  "reserved_slots opts = (case query_reserved_slots opts of Some n \<Rightarrow> n | None \<Rightarrow> 1)"

definition new_scheduler :: "scheduler_options \<Rightarrow> scheduler_error + scheduler" where
  "new_scheduler opts =
     (if \<not> is_safe_integer (max_active opts) \<or> max_active opts < 1 then Inl AdmissionExhausted
      else if \<not> list_all (\<lambda>p. is_safe_integer (pool_concurrency opts p) \<and> \<not> pool_concurrency opts p < 1) WORK_POOL_KINDS then Inl AdmissionExhausted
      else if \<not> is_safe_integer (reserved_slots opts) \<or> reserved_slots opts < 0 \<or> reserved_slots opts > max_active opts then Inl AdmissionExhausted
      else Inr \<lparr>sc_table = [], sc_queues = (\<lambda>_. []), sc_poolActive = (\<lambda>_. 0), sc_clientInFlight = (\<lambda>_. None), sc_entries = [],
        sc_publications = [], sc_publicationTails = (\<lambda>_. None), sc_leases = [], sc_restartLeases = [], sc_stopping = False, sc_stopCalls = 0, sc_stopWaiters = []\<rparr>)"

definition activeCount :: "scheduler \<Rightarrow> int" where
  "activeCount s = sc_poolActive s Source + sc_poolActive s Structural + sc_poolActive s Semantic + sc_poolActive s Query"

definition change_entry :: "nat \<Rightarrow> (entry \<Rightarrow> entry) \<Rightarrow> scheduler \<Rightarrow> scheduler" where
  "change_entry i f s = s\<lparr>sc_table := (sc_table s)[i := f (sc_table s ! i)]\<rparr>"

section \<open>Leases\<close>

definition release_lease :: "nat \<Rightarrow> scheduler \<Rightarrow> scheduler" where
  "release_lease l s = s\<lparr>sc_leases := (sc_leases s)[l := (sc_leases s ! l)\<lparr>ls_released := True\<rparr>], sc_restartLeases := removeAll l (sc_restartLeases s)\<rparr>"

definition expireLeases :: "int \<Rightarrow> scheduler \<Rightarrow> scheduler" where
  "expireLeases now s =
     fold (\<lambda>l s. if \<not> ls_released (sc_leases s ! l) \<and> ls_expires_at (sc_leases s ! l) \<le> now then release_lease l s else s) (sc_restartLeases s) s"

definition live_leases :: "scheduler \<Rightarrow> nat" where
  "live_leases s = length (filter (\<lambda>l. \<not> ls_released (sc_leases s ! l)) (sc_restartLeases s))"

text \<open>The getter \<open>restartLeaseCount\<close> removes what has expired and counts the rest.\<close>

definition restartLeaseCount :: "int \<Rightarrow> scheduler \<Rightarrow> nat \<times> scheduler" where
  "restartLeaseCount now s = (let s = expireLeases now s in (live_leases s, s))"

definition lease_ttl :: "scheduler_options \<Rightarrow> int" where
  "lease_ttl opts = (case restart_lease_ttl_ms opts of Some n \<Rightarrow> n | None \<Rightarrow> 60000)"

definition acquireRestartLease :: "scheduler_options \<Rightarrow> int \<Rightarrow> scheduler \<Rightarrow> scheduler_error + scheduler" where
  "acquireRestartLease opts now s =
     (if sc_stopping s then Inl DaemonNotRunning
      else Inr (s\<lparr>sc_leases := sc_leases s @ [\<lparr>ls_released = False, ls_expires_at = now + lease_ttl opts\<rparr>],
                  sc_restartLeases := sc_restartLeases s @ [length (sc_leases s)]\<rparr>))"

text \<open>\<open>renew\<close> throws after it has dropped an expired lease; the state it leaves behind is the second component.\<close>

definition renew_lease :: "scheduler_options \<Rightarrow> int \<Rightarrow> nat \<Rightarrow> scheduler \<Rightarrow> scheduler_error option \<times> scheduler" where
  "renew_lease opts now l s =
     (if ls_released (sc_leases s ! l) \<or> ls_expires_at (sc_leases s ! l) \<le> now then (Some DaemonRestartRequired, release_lease l s)
      else (None, s\<lparr>sc_leases := (sc_leases s)[l := (sc_leases s ! l)\<lparr>ls_expires_at := now + lease_ttl opts\<rparr>]\<rparr>))"

definition maybeStopResolved :: "int \<Rightarrow> scheduler \<Rightarrow> scheduler" where
  "maybeStopResolved now s =
     (if sc_stopping s \<and> sc_entries s = [] then
        let (n, s) = restartLeaseCount now s in if n = 0 then s\<lparr>sc_stopWaiters := []\<rparr> else s
      else s)"

definition release :: "int \<Rightarrow> nat \<Rightarrow> scheduler \<Rightarrow> scheduler" where
  "release now l s = (if ls_released (sc_leases s ! l) then s else maybeStopResolved now (release_lease l s))"

section \<open>Settling and starting entries\<close>

definition in_flight :: "scheduler \<Rightarrow> string \<Rightarrow> int" where
  "in_flight s c = (case sc_clientInFlight s c of Some n \<Rightarrow> n | None \<Rightarrow> 0)"

definition settle_entry :: "nat \<Rightarrow> scheduler_error + string \<Rightarrow> scheduler \<Rightarrow> scheduler" where
  "settle_entry i outcome s =
     (if en_state (sc_table s ! i) = Settled then s
      else
        let c = rq_client_id (en_request (sc_table s ! i));
            count = (case sc_clientInFlight s c of Some n \<Rightarrow> n | None \<Rightarrow> 1);
            s = change_entry i (\<lambda>e. e\<lparr>en_state := Settled, en_outcome := Some outcome\<rparr>) s
        in s\<lparr>sc_entries := removeAll i (sc_entries s),
             sc_clientInFlight := (sc_clientInFlight s)(c := if count \<le> 1 then None else Some (count - 1))\<rparr>)"

text \<open>The entry at the head of a queue starts running.\<close>

definition start_next :: "pool_kind \<Rightarrow> scheduler \<Rightarrow> scheduler" where
  "start_next p s =
     (let i = hd (sc_queues s p)
      in change_entry i (\<lambda>e. e\<lparr>en_state := Running, en_point := InRun\<rparr>)
           (s\<lparr>sc_queues := (sc_queues s)(p := tl (sc_queues s p)), sc_poolActive := (sc_poolActive s)(p := sc_poolActive s p + 1)\<rparr>))"

text \<open>One pool of the inner loop; the flag is \<open>started\<close>.\<close>

definition pump_pool :: "scheduler_options \<Rightarrow> pool_kind \<Rightarrow> scheduler \<times> bool \<Rightarrow> scheduler \<times> bool" where
  "pump_pool opts p = (\<lambda>(s, started).
     if activeCount s \<ge> max_active opts \<or> sc_poolActive s p \<ge> pool_concurrency opts p then (s, started)
     else if p \<noteq> Query \<and> sc_queues s Query \<noteq> [] \<and> activeCount s \<ge> max_active opts - reserved_slots opts then (s, started)
     else if sc_queues s p = [] then (s, started)
     else (start_next p s, True))"

definition pump_round :: "scheduler_options \<Rightarrow> scheduler \<Rightarrow> scheduler \<times> bool" where
  "pump_round opts s = fold (pump_pool opts) [Query, Source, Structural, Semantic] (s, False)"

definition queued_total :: "scheduler \<Rightarrow> nat" where
  "queued_total s = length (sc_queues s Source) + length (sc_queues s Structural) + length (sc_queues s Semantic) + length (sc_queues s Query)"

lemma start_next_total: "sc_queues s p \<noteq> [] \<Longrightarrow> queued_total (start_next p s) < queued_total s"
  by (cases p; cases "sc_queues s p") (simp_all add: start_next_def Let_def change_entry_def queued_total_def)

definition admits :: "scheduler_options \<Rightarrow> pool_kind \<Rightarrow> scheduler \<Rightarrow> bool" where
  "admits opts p s \<longleftrightarrow> activeCount s < max_active opts \<and> sc_poolActive s p < pool_concurrency opts p
     \<and> (p = Query \<or> sc_queues s Query = [] \<or> activeCount s < max_active opts - reserved_slots opts) \<and> sc_queues s p \<noteq> []"

lemma pump_pool_eq: "pump_pool opts p (s, b) = (if admits opts p s then (start_next p s, True) else (s, b))"
  by (auto simp: pump_pool_def admits_def)

lemma pump_pools_total:
  "queued_total (fst (fold (pump_pool opts) ps (s, b))) \<le> queued_total s
   \<and> (snd (fold (pump_pool opts) ps (s, b)) \<longrightarrow> b \<or> queued_total (fst (fold (pump_pool opts) ps (s, b))) < queued_total s)"
proof (induction ps arbitrary: s b)
  case (Cons p ps)
  show ?case
  proof (cases "admits opts p s")
    case True
    then have "queued_total (start_next p s) < queued_total s" by (simp add: admits_def start_next_total)
    then show ?thesis using Cons [of "start_next p s" True] True by (simp add: pump_pool_eq)
  next
    case False
    then show ?thesis using Cons [of s b] by (simp add: pump_pool_eq)
  qed
qed simp

lemma pump_round_total: "snd (pump_round opts s) \<Longrightarrow> queued_total (fst (pump_round opts s)) < queued_total s"
  using pump_pools_total [of opts "[Query, Source, Structural, Semantic]" s False] unfolding pump_round_def by blast

function (sequential) pump :: "scheduler_options \<Rightarrow> scheduler \<Rightarrow> scheduler" where
  "pump opts s =
     (if activeCount s < max_active opts then
        let r = pump_round opts s in if snd r then pump opts (fst r) else fst r
      else s)"
  by pat_completeness auto
termination by (relation "measure (\<lambda>(opts, s). queued_total s)") (auto simp: pump_round_total)

declare pump.simps [simp del]

section \<open>Operations\<close>

definition client_quota :: "scheduler_options \<Rightarrow> string \<Rightarrow> int" where
  "client_quota opts c = (case client_quotas opts c of Some q \<Rightarrow> q | None \<Rightarrow> (case default_client_quota opts of Some q \<Rightarrow> q | None \<Rightarrow> 64))"

definition new_entry :: "job_request \<Rightarrow> pool_kind \<Rightarrow> entry" where
  "new_entry request p = \<lparr>en_request = request, en_pool = p, en_aborted = False, en_progress = [], en_state = Queued, en_point = NotStarted, en_outcome = None\<rparr>"

definition submit :: "scheduler_options \<Rightarrow> job_request \<Rightarrow> scheduler \<Rightarrow> scheduler_error + scheduler" where
  "submit opts request s =
     (let c = rq_client_id request; inFlight = in_flight s c
      in if sc_stopping s then Inl DaemonNotRunning
         else if inFlight \<ge> client_quota opts c then Inl QuotaExceeded
         else case pool_of_name (rq_pool request) of
           None \<Rightarrow> Inl AdmissionExhausted
         | Some p \<Rightarrow>
             let i = length (sc_table s)
             in Inr (pump opts (s\<lparr>sc_table := sc_table s @ [new_entry request p], sc_entries := sc_entries s @ [i],
                  sc_queues := (sc_queues s)(p := sc_queues s p @ [i]), sc_clientInFlight := (sc_clientInFlight s)(c := Some (inFlight + 1))\<rparr>)))"

text \<open>The common part of \<open>cancel\<close>, \<open>stop\<close> and \<open>cancelPool\<close>: abort, and settle_entry what is still queued.\<close>

definition abort_entry :: "nat \<Rightarrow> scheduler \<Rightarrow> scheduler" where
  "abort_entry i s =
     (let p = en_pool (sc_table s ! i); s = change_entry i (\<lambda>e. e\<lparr>en_aborted := True\<rparr>) s
      in if en_state (sc_table s ! i) = Queued
         then settle_entry i (Inl OperationCancelled) (s\<lparr>sc_queues := (sc_queues s)(p := remove1 i (sc_queues s p))\<rparr>) else s)"

definition cancel :: "nat \<Rightarrow> scheduler \<Rightarrow> scheduler" where
  "cancel i s = (if en_state (sc_table s ! i) = Settled then s else abort_entry i s)"

definition stop :: "bool \<Rightarrow> int \<Rightarrow> scheduler \<Rightarrow> scheduler" where
  "stop force now s =
     (let s = s\<lparr>sc_stopping := True, sc_stopCalls := Suc (sc_stopCalls s)\<rparr>;
          s = (if force then let s = fold abort_entry (sc_entries s) s in fold release_lease (sc_restartLeases s) s else s);
          (n, s) = (if sc_entries s = [] then restartLeaseCount now s else (1, s))
      in if sc_entries s = [] \<and> n = 0 then s else s\<lparr>sc_stopWaiters := sc_stopWaiters s @ [sc_stopCalls s]\<rparr>)"

definition cancelPool :: "scheduler_options \<Rightarrow> pool_kind \<Rightarrow> scheduler \<Rightarrow> scheduler" where
  "cancelPool opts p s = pump opts (fold (\<lambda>i s. if en_pool (sc_table s ! i) \<noteq> p then s else abort_entry i s) (sc_entries s) s)"

definition hasQueryPressure :: "scheduler \<Rightarrow> bool" where
  "hasQueryPressure s \<longleftrightarrow> sc_queues s Query \<noteq> [] \<or> sc_poolActive s Query > 0"

definition queryPressureSnapshot :: "scheduler \<Rightarrow> nat \<times> int" where
  "queryPressureSnapshot s = (length (sc_queues s Query), sc_poolActive s Query)"

section \<open>The life of a running entry\<close>

definition report_progress :: "nat \<Rightarrow> progress_event \<Rightarrow> scheduler \<Rightarrow> scheduler_error + scheduler" where
  "report_progress i event s =
     (if pe_completed event < 0 \<or> (case pe_total event of Some t \<Rightarrow> pe_completed event > t | None \<Rightarrow> False) then Inl ExecutionFailed
      else Inr (change_entry i (\<lambda>e. e\<lparr>en_progress := en_progress e @ [event]\<rparr>) s))"

text \<open>Settling, and the block \<open>finally\<close>.\<close>

definition finish_run :: "scheduler_options \<Rightarrow> int \<Rightarrow> nat \<Rightarrow> scheduler_error + string \<Rightarrow> scheduler \<Rightarrow> scheduler" where
  "finish_run opts now i outcome s =
     (let p = en_pool (sc_table s ! i); s = change_entry i (\<lambda>e. e\<lparr>en_point := Returned\<rparr>) (settle_entry i outcome s)
      in maybeStopResolved now (pump opts (s\<lparr>sc_poolActive := (sc_poolActive s)(p := sc_poolActive s p - 1)\<rparr>)))"

definition publication_workspace :: "job_request \<Rightarrow> string option" where
  "publication_workspace request = (case rq_workspace_id request of Some w \<Rightarrow> if w = [] then None else Some w | None \<Rightarrow> None)"

text \<open>The promise of \<open>request.run\<close> is fulfilled with a value.\<close>

definition run_returned :: "scheduler_options \<Rightarrow> int \<Rightarrow> nat \<Rightarrow> string \<Rightarrow> scheduler \<Rightarrow> scheduler" where
  "run_returned opts now i v s =
     (let e = sc_table s ! i
      in if en_aborted e then finish_run opts now i (Inl OperationCancelled) s
         else if rq_publish (en_request e) then
           (case publication_workspace (en_request e) of
              Some w \<Rightarrow>
                let q = length (sc_publications s)
                in change_entry i (\<lambda>e. e\<lparr>en_point := AwaitPublication q v\<rparr>)
                     (s\<lparr>sc_publications := sc_publications s @ [\<lparr>pb_workspace = w, pb_previous = sc_publicationTails s w, pb_state = Waiting\<rparr>],
                        sc_publicationTails := (sc_publicationTails s)(w := Some q)\<rparr>)
            | None \<Rightarrow> change_entry i (\<lambda>e. e\<lparr>en_point := AwaitPublish v\<rparr>) s)
         else finish_run opts now i (Inr v) s)"

definition publication_settled :: "publication \<Rightarrow> bool" where
  "publication_settled b \<longleftrightarrow> (case pb_state b of Published \<Rightarrow> True | PublishFailed _ \<Rightarrow> True | _ \<Rightarrow> False)"

definition set_publication :: "nat \<Rightarrow> publication_state \<Rightarrow> scheduler \<Rightarrow> scheduler" where
  "set_publication q st s = s\<lparr>sc_publications := (sc_publications s)[q := (sc_publications s ! q)\<lparr>pb_state := st\<rparr>]\<rparr>"

text \<open>\<open>await publication\<close> continues: on success the tail is removed when it is still this publication.\<close>

definition publication_awaited :: "scheduler_options \<Rightarrow> int \<Rightarrow> nat \<Rightarrow> nat \<Rightarrow> string \<Rightarrow> scheduler \<Rightarrow> scheduler" where
  "publication_awaited opts now i q v s =
     (let b = sc_publications s ! q; w = pb_workspace b
      in case pb_state b of
           PublishFailed e \<Rightarrow> finish_run opts now i (Inl e) s
         | _ \<Rightarrow> finish_run opts now i (Inr v) (if sc_publicationTails s w = Some q then s\<lparr>sc_publicationTails := (sc_publicationTails s)(w := None)\<rparr> else s))"

section \<open>The scheduler as a transition system\<close>

datatype scheduler_event =
    Submit job_request | Cancel nat | AcquireLease int | RenewLease int nat | ReleaseLease int nat | Stop bool int | CancelPool pool_kind
  | CountLeases int | Report nat progress_event | RunReturns int nat string | RunRejects int nat string
  | PublishStarts nat | PublishSettles nat "scheduler_error option" | PublicationAwaited int nat | DirectPublishSettles int nat "scheduler_error option"

text \<open>When an event can happen: objects exist, and a promise settles only once.\<close>

fun event_enabled :: "scheduler_event \<Rightarrow> scheduler \<Rightarrow> bool" where
  "event_enabled (Cancel i) s \<longleftrightarrow> i < length (sc_table s)"
| "event_enabled (RenewLease now l) s \<longleftrightarrow> l < length (sc_leases s)"
| "event_enabled (ReleaseLease now l) s \<longleftrightarrow> l < length (sc_leases s)"
| "event_enabled (Report i e) s \<longleftrightarrow> i < length (sc_table s) \<and> en_point (sc_table s ! i) \<noteq> NotStarted"
| "event_enabled (RunReturns now i v) s \<longleftrightarrow> i < length (sc_table s) \<and> en_point (sc_table s ! i) = InRun"
| "event_enabled (RunRejects now i e) s \<longleftrightarrow> i < length (sc_table s) \<and> en_point (sc_table s ! i) = InRun"
| "event_enabled (PublishStarts q) s \<longleftrightarrow> q < length (sc_publications s) \<and> pb_state (sc_publications s ! q) = Waiting
     \<and> (case pb_previous (sc_publications s ! q) of None \<Rightarrow> True | Some r \<Rightarrow> publication_settled (sc_publications s ! r))"
| "event_enabled (PublishSettles q e) s \<longleftrightarrow> q < length (sc_publications s) \<and> pb_state (sc_publications s ! q) = Publishing"
| "event_enabled (PublicationAwaited now i) s \<longleftrightarrow> i < length (sc_table s)
     \<and> (case en_point (sc_table s ! i) of AwaitPublication q v \<Rightarrow> publication_settled (sc_publications s ! q) | _ \<Rightarrow> False)"
| "event_enabled (DirectPublishSettles now i e) s \<longleftrightarrow> i < length (sc_table s) \<and> (case en_point (sc_table s ! i) of AwaitPublish v \<Rightarrow> True | _ \<Rightarrow> False)"
| "event_enabled _ s \<longleftrightarrow> True"

text \<open>The state an event leaves behind; a call that throws before it has changed anything leaves it as it is.\<close>

fun scheduler_next :: "scheduler_options \<Rightarrow> scheduler_event \<Rightarrow> scheduler \<Rightarrow> scheduler" where
  "scheduler_next opts (Submit request) s = (case submit opts request s of Inr t \<Rightarrow> t | Inl _ \<Rightarrow> s)"
| "scheduler_next opts (Cancel i) s = cancel i s"
| "scheduler_next opts (AcquireLease now) s = (case acquireRestartLease opts now s of Inr t \<Rightarrow> t | Inl _ \<Rightarrow> s)"
| "scheduler_next opts (RenewLease now l) s = snd (renew_lease opts now l s)"
| "scheduler_next opts (ReleaseLease now l) s = release now l s"
| "scheduler_next opts (Stop force now) s = stop force now s"
| "scheduler_next opts (CancelPool p) s = cancelPool opts p s"
| "scheduler_next opts (CountLeases now) s = snd (restartLeaseCount now s)"
| "scheduler_next opts (Report i e) s = (case report_progress i e s of Inr t \<Rightarrow> t | Inl _ \<Rightarrow> s)"
| "scheduler_next opts (RunReturns now i v) s = run_returned opts now i v s"
| "scheduler_next opts (RunRejects now i e) s = finish_run opts now i (Inl (JobFailed e)) s"
| "scheduler_next opts (PublishStarts q) s = set_publication q Publishing s"
| "scheduler_next opts (PublishSettles q e) s = set_publication q (case e of None \<Rightarrow> Published | Some err \<Rightarrow> PublishFailed err) s"
| "scheduler_next opts (PublicationAwaited now i) s =
     (case en_point (sc_table s ! i) of AwaitPublication q v \<Rightarrow> publication_awaited opts now i q v s | _ \<Rightarrow> s)"
| "scheduler_next opts (DirectPublishSettles now i e) s =
     (case en_point (sc_table s ! i) of AwaitPublish v \<Rightarrow> finish_run opts now i (case e of None \<Rightarrow> Inr v | Some err \<Rightarrow> Inl err) s | _ \<Rightarrow> s)"

inductive scheduler_step :: "scheduler_options \<Rightarrow> scheduler \<Rightarrow> scheduler_event \<Rightarrow> scheduler \<Rightarrow> bool" for opts where
  scheduler_stepI: "event_enabled e s \<Longrightarrow> scheduler_step opts s e (scheduler_next opts e s)"

inductive_cases scheduler_stepE: "scheduler_step opts s e t"

abbreviation scheduler_reachable :: "scheduler_options \<Rightarrow> scheduler \<Rightarrow> bool" where
  "scheduler_reachable opts \<equiv> reach (\<lambda>s. new_scheduler opts = Inr s) (scheduler_step opts)"

end
