(* ===== verification/Scheduler_Safety.thy ===== *)
theory Scheduler_Safety
  imports Scheduler
begin

text \<open>
  Safety of the scheduler: the counters agree with the entries in every reachable state, so that the
  global bound, the bounds of the pools and the client quotas hold; no queue waits while nothing runs;
  and publications of one workspace never overlap.
\<close>

section \<open>Counting entries\<close>

definition number :: "('a \<Rightarrow> bool) \<Rightarrow> 'a list \<Rightarrow> int" where
  "number P xs = int (length (filter P xs))"

lemma number_simps [simp]: "number P [] = 0" "number P (x # xs) = (if P x then 1 else 0) + number P xs" "number P (xs @ [x]) = number P xs + (if P x then 1 else 0)" "0 \<le> number P xs"
  by (simp_all add: number_def)

lemma number_update: "i < length xs \<Longrightarrow> number P (xs[i := y]) = number P xs - (if P (xs ! i) then 1 else 0) + (if P y then 1 else 0)"
proof (induction xs arbitrary: i)
  case (Cons x xs)
  then show ?case by (cases i) simp_all
qed simp

lemma number_pos: "i < length xs \<Longrightarrow> P (xs ! i) \<Longrightarrow> 1 \<le> number P xs"
  unfolding number_def by (metis One_nat_def Suc_leI filter_empty_conv length_greater_0_conv nth_mem of_nat_1 of_nat_mono)

section \<open>Accounting\<close>

definition running_in :: "pool_kind \<Rightarrow> entry \<Rightarrow> bool" where
  "running_in p e \<longleftrightarrow> en_state e = Running \<and> en_pool e = p"

definition open_for :: "string \<Rightarrow> entry \<Rightarrow> bool" where
  "open_for c e \<longleftrightarrow> en_state e \<noteq> Settled \<and> rq_client_id (en_request e) = c"

definition open_entries_ok :: "scheduler \<Rightarrow> bool" where
  "open_entries_ok s \<longleftrightarrow> distinct (sc_entries s) \<and> (\<forall>i. i \<in> set (sc_entries s) \<longleftrightarrow> i < length (sc_table s) \<and> en_state (sc_table s ! i) \<noteq> Settled)"

definition queues_ok :: "scheduler \<Rightarrow> bool" where
  "queues_ok s \<longleftrightarrow> (\<forall>p. distinct (sc_queues s p)
     \<and> (\<forall>i. i \<in> set (sc_queues s p) \<longleftrightarrow> i < length (sc_table s) \<and> en_state (sc_table s ! i) = Queued \<and> en_pool (sc_table s ! i) = p))"

definition active_ok :: "scheduler \<Rightarrow> bool" where
  "active_ok s \<longleftrightarrow> (\<forall>p. sc_poolActive s p = number (running_in p) (sc_table s))"

definition clients_ok :: "scheduler \<Rightarrow> bool" where
  "clients_ok s \<longleftrightarrow> (\<forall>c. sc_clientInFlight s c = (let n = number (open_for c) (sc_table s) in if n = 0 then None else Some n))"

fun point_ok :: "entry_state \<Rightarrow> program_point \<Rightarrow> bool" where
  "point_ok Queued pt \<longleftrightarrow> pt = NotStarted"
| "point_ok Running pt \<longleftrightarrow> pt \<noteq> NotStarted \<and> pt \<noteq> Returned"
| "point_ok Settled pt \<longleftrightarrow> pt = NotStarted \<or> pt = Returned"

definition points_ok :: "scheduler \<Rightarrow> bool" where
  "points_ok s \<longleftrightarrow> (\<forall>e \<in> set (sc_table s). point_ok (en_state e) (en_point e))"

definition accounted :: "scheduler \<Rightarrow> bool" where
  "accounted s \<longleftrightarrow> open_entries_ok s \<and> queues_ok s \<and> active_ok s \<and> clients_ok s \<and> points_ok s"

lemmas accounted_defs = accounted_def open_entries_ok_def queues_ok_def active_ok_def clients_ok_def points_ok_def

text \<open>The accounting reads only five fields of the state.\<close>

definition same_core :: "scheduler \<Rightarrow> scheduler \<Rightarrow> bool" where
  "same_core s t \<longleftrightarrow> sc_table s = sc_table t \<and> sc_queues s = sc_queues t \<and> sc_poolActive s = sc_poolActive t
     \<and> sc_clientInFlight s = sc_clientInFlight t \<and> sc_entries s = sc_entries t"

lemma same_core_accounted: "same_core s t \<Longrightarrow> accounted s = accounted t"
  by (simp add: same_core_def accounted_defs)

lemma accountedD:
  assumes "accounted s"
  shows "distinct (sc_entries s)" "i \<in> set (sc_entries s) \<longleftrightarrow> i < length (sc_table s) \<and> en_state (sc_table s ! i) \<noteq> Settled"
    "distinct (sc_queues s p)" "i \<in> set (sc_queues s p) \<longleftrightarrow> i < length (sc_table s) \<and> en_state (sc_table s ! i) = Queued \<and> en_pool (sc_table s ! i) = p"
    "sc_poolActive s p = number (running_in p) (sc_table s)"
    "sc_clientInFlight s c = (let n = number (open_for c) (sc_table s) in if n = 0 then None else Some n)"
    "i < length (sc_table s) \<Longrightarrow> point_ok (en_state (sc_table s ! i)) (en_point (sc_table s ! i))"
  using assms by (simp_all add: accounted_defs)

lemma points_update: "points_ok s \<Longrightarrow> point_ok (en_state e) (en_point e) \<Longrightarrow> sc_table t = (sc_table s)[i := e] \<Longrightarrow> points_ok t"
  by (auto simp: points_ok_def dest: set_update_subset_insert [THEN subsetD])

text \<open>Changing an entry without touching state, pool and request.\<close>

lemma accounted_change:
  assumes ok: "accounted s" and i: "i < length (sc_table s)"
    and f: "en_state (f (sc_table s ! i)) = en_state (sc_table s ! i)" "en_pool (f (sc_table s ! i)) = en_pool (sc_table s ! i)"
      "en_request (f (sc_table s ! i)) = en_request (sc_table s ! i)" "point_ok (en_state (sc_table s ! i)) (en_point (f (sc_table s ! i)))"
  shows "accounted (change_entry i f s)"
proof -
  let ?t = "change_entry i f s"
  have nth: "en_state (sc_table ?t ! j) = en_state (sc_table s ! j)" "en_pool (sc_table ?t ! j) = en_pool (sc_table s ! j)" for j
    using f i by (cases "j = i"; simp add: change_entry_def)+
  have "number (running_in p) (sc_table ?t) = number (running_in p) (sc_table s)" "number (open_for c) (sc_table ?t) = number (open_for c) (sc_table s)" for p c
    using i f by (simp_all add: change_entry_def number_update running_in_def open_for_def)
  moreover have "points_ok ?t" using ok f by (intro points_update [of s "f (sc_table s ! i)" ?t i]) (simp_all add: accounted_def change_entry_def)
  moreover have "sc_entries ?t = sc_entries s" "sc_queues ?t = sc_queues s" "sc_poolActive ?t = sc_poolActive s"
    "sc_clientInFlight ?t = sc_clientInFlight s" "length (sc_table ?t) = length (sc_table s)" by (simp_all add: change_entry_def)
  ultimately show ?thesis using ok nth by (simp add: accounted_def open_entries_ok_def queues_ok_def active_ok_def clients_ok_def)
qed


section \<open>Elementary transitions\<close>

text \<open>An entry leaves a queue or the running state and is settled.\<close>

definition leave :: "nat \<Rightarrow> (entry \<Rightarrow> entry) \<Rightarrow> scheduler \<Rightarrow> scheduler \<Rightarrow> bool" where
  "leave i f s t \<longleftrightarrow>
     (let e = sc_table s ! i; p = en_pool e; c = rq_client_id (en_request e); n = in_flight s c
      in en_state (f e) = Settled \<and> (en_point (f e) = NotStarted \<or> en_point (f e) = Returned)
       \<and> sc_table t = (sc_table s)[i := f e] \<and> sc_entries t = removeAll i (sc_entries s)
       \<and> sc_clientInFlight t = (sc_clientInFlight s)(c := if n \<le> 1 then None else Some (n - 1))
       \<and> sc_queues t = (if en_state e = Queued then (sc_queues s)(p := remove1 i (sc_queues s p)) else sc_queues s)
       \<and> sc_poolActive t = (if en_state e = Running then (sc_poolActive s)(p := sc_poolActive s p - 1) else sc_poolActive s))"

lemma in_flight_number: "accounted s \<Longrightarrow> in_flight s c = number (open_for c) (sc_table s)"
  using accountedD(6) [of s c] by (simp add: in_flight_def Let_def)

lemma accounted_leave:
  assumes ok: "accounted s" and i: "i < length (sc_table s)" and st: "en_state (sc_table s ! i) \<noteq> Settled" and t: "leave i f s t"
  shows "accounted t"
proof -
  define e where "e = sc_table s ! i"
  define c where "c = rq_client_id (en_request e)"
  have n: "in_flight s c = number (open_for c) (sc_table s)" using in_flight_number [OF ok] .
  have pos: "1 \<le> number (open_for c) (sc_table s)" using i st by (intro number_pos [of i]) (simp_all add: open_for_def c_def e_def)
  have tab: "sc_table t = (sc_table s)[i := f e]" "en_state (f e) = Settled" using t by (simp_all add: leave_def Let_def e_def)
  have num: "number (running_in p) (sc_table t) = number (running_in p) (sc_table s) - (if running_in p e then 1 else 0)"
    "number (open_for d) (sc_table t) = number (open_for d) (sc_table s) - (if d = c then 1 else 0)" for p d
    using i st tab(2) by (auto simp: tab(1) number_update running_in_def open_for_def e_def c_def)
  have state: "en_state (sc_table t ! j) = (if j = i then Settled else en_state (sc_table s ! j))" for j using i by (simp add: tab)
  have pool: "en_pool (sc_table t ! j) = en_pool (sc_table s ! j)" if "j \<noteq> i" for j using that by (simp add: tab)
  have ent: "sc_entries t = removeAll i (sc_entries s)" using t by (simp add: leave_def Let_def)
  have "open_entries_ok t" unfolding open_entries_ok_def
  proof (intro conjI allI)
    show "distinct (sc_entries t)" using accountedD(1) [OF ok] by (simp add: ent distinct_removeAll)
    show "j \<in> set (sc_entries t) \<longleftrightarrow> j < length (sc_table t) \<and> en_state (sc_table t ! j) \<noteq> Settled" for j
      using accountedD(2) [OF ok, of j] state [of j] by (auto simp: ent tab(1))
  qed
  moreover have "queues_ok t" unfolding queues_ok_def
  proof (intro allI conjI)
    fix p
    have q: "sc_queues t p = (if en_state e = Queued \<and> p = en_pool e then remove1 i (sc_queues s p) else sc_queues s p)"
      using t by (auto simp: leave_def Let_def e_def)
    show "distinct (sc_queues t p)" using q accountedD(3) [OF ok, of p] by (auto simp: distinct_remove1)
    show "j \<in> set (sc_queues t p) \<longleftrightarrow> j < length (sc_table t) \<and> en_state (sc_table t ! j) = Queued \<and> en_pool (sc_table t ! j) = p" for j
      using q accountedD(3) [OF ok, of p] accountedD(4) [OF ok, of j p] state [of j] pool [of j] by (auto simp: tab(1) e_def)
  qed
  moreover have "sc_poolActive t p = sc_poolActive s p - (if running_in p e then 1 else 0)" for p using t by (auto simp: leave_def Let_def running_in_def e_def)
  then have "active_ok t" using accountedD(5) [OF ok] by (simp add: active_ok_def num)
  moreover have "sc_clientInFlight t d = (if d = c then if number (open_for c) (sc_table s) \<le> 1 then None else Some (number (open_for c) (sc_table s) - 1) else sc_clientInFlight s d)" for d
    using t by (simp add: leave_def Let_def e_def [symmetric] c_def [symmetric] n)
  then have "clients_ok t" using accountedD(6) [OF ok] pos by (simp add: clients_ok_def num Let_def)
  moreover have "points_ok t" using ok t by (intro points_update [of s "f e" t i]) (auto simp: accounted_def tab leave_def Let_def e_def)
  ultimately show ?thesis by (simp add: accounted_def)
qed

lemma leave_settled: "leave i f s t \<Longrightarrow> i < length (sc_table s) \<Longrightarrow> en_state (sc_table t ! i) = Settled"
  by (simp add: leave_def Let_def)

lemma accounted_start:
  assumes ok: "accounted s" and q: "sc_queues s p \<noteq> []"
  shows "accounted (start_next p s)"
proof -
  let ?t = "start_next p s"
  obtain i r where ir: "sc_queues s p = i # r" using q by (cases "sc_queues s p") auto
  have i: "i < length (sc_table s)" "en_state (sc_table s ! i) = Queued" "en_pool (sc_table s ! i) = p"
    using accountedD(4) [OF ok, of i p] by (simp_all add: ir)
  define e where "e = (sc_table s ! i)\<lparr>en_state := Running, en_point := InRun\<rparr>"
  have t: "sc_table ?t = (sc_table s)[i := e]" "sc_queues ?t = (sc_queues s)(p := r)" "sc_poolActive ?t = (sc_poolActive s)(p := sc_poolActive s p + 1)"
    "sc_clientInFlight ?t = sc_clientInFlight s" "sc_entries ?t = sc_entries s"
    by (simp_all add: start_next_def change_entry_def Let_def ir e_def)
  have state: "en_state (sc_table ?t ! j) = (if j = i then Running else en_state (sc_table s ! j))" "en_pool (sc_table ?t ! j) = en_pool (sc_table s ! j)" for j
    using i(1) by (simp_all add: t(1) e_def nth_list_update)
  have num: "number (running_in k) (sc_table ?t) = number (running_in k) (sc_table s) + (if k = p then 1 else 0)"
    "number (open_for c) (sc_table ?t) = number (open_for c) (sc_table s)" for k c
    using i by (auto simp: t(1) number_update running_in_def open_for_def e_def)
  have "open_entries_ok ?t" unfolding open_entries_ok_def
  proof (intro conjI allI)
    show "distinct (sc_entries ?t)" using accountedD(1) [OF ok] by (simp add: t)
    show "j \<in> set (sc_entries ?t) \<longleftrightarrow> j < length (sc_table ?t) \<and> en_state (sc_table ?t ! j) \<noteq> Settled" for j
      using accountedD(2) [OF ok, of j] state(1) [of j] i by (auto simp: t)
  qed
  moreover have "queues_ok ?t" unfolding queues_ok_def
  proof (intro conjI allI)
    fix k
    show "distinct (sc_queues ?t k)" using accountedD(3) [OF ok, of k] ir by (auto simp: t(2))
    show "j \<in> set (sc_queues ?t k) \<longleftrightarrow> j < length (sc_table ?t) \<and> en_state (sc_table ?t ! j) = Queued \<and> en_pool (sc_table ?t ! j) = k" for j
      using accountedD(3) [OF ok, of p] accountedD(4) [OF ok, of j k] state [of j] ir i by (cases "k = p") (auto simp: t(1,2))
  qed
  moreover have "active_ok ?t" using accountedD(5) [OF ok] by (simp add: active_ok_def num t(3))
  moreover have "clients_ok ?t" using accountedD(6) [OF ok] by (simp add: clients_ok_def num t(4))
  moreover have "points_ok ?t" using ok by (intro points_update [of s e ?t i]) (simp_all add: accounted_def t(1) e_def)
  ultimately show ?thesis by (simp add: accounted_def)
qed


section \<open>The pump\<close>

lemma pump_pools_preserve:
  assumes "\<And>s p. P s \<Longrightarrow> admits opts p s \<Longrightarrow> P (start_next p s)" and "P s"
  shows "P (fst (fold (pump_pool opts) ps (s, b)))"
  using assms(2)
proof (induction ps arbitrary: s b)
  case (Cons p ps)
  then show ?case using assms(1) [of s p] by (simp add: pump_pool_eq)
qed simp

lemma pump_preserves:
  assumes "\<And>s p. P s \<Longrightarrow> admits opts p s \<Longrightarrow> P (start_next p s)" and "P s"
  shows "P (pump opts s)"
proof -
  have "P s \<Longrightarrow> (\<And>s p. P s \<Longrightarrow> admits opts p s \<Longrightarrow> P (start_next p s)) \<Longrightarrow> P (pump opts s)"
  proof (induction opts s rule: pump.induct)
    case (1 opts s)
    have round: "P (fst (pump_round opts s))" unfolding pump_round_def by (rule pump_pools_preserve) (use 1(2,3) in auto)
    show ?case
    proof (cases "activeCount s < max_active opts \<and> snd (pump_round opts s)")
      case True
      then have "P (pump opts (fst (pump_round opts s)))" using 1(1) [OF _ refl _ round 1(3)] by blast
      then show ?thesis using True by (subst pump.simps) simp
    next
      case False
      then show ?thesis using round 1(2) by (subst pump.simps) (simp add: Let_def)
    qed
  qed
  then show ?thesis using assms by blast
qed

text \<open>What the pump leaves alone.\<close>

definition same_rest :: "scheduler \<Rightarrow> scheduler \<Rightarrow> bool" where
  "same_rest s t \<longleftrightarrow> sc_publications t = sc_publications s \<and> sc_publicationTails t = sc_publicationTails s \<and> sc_leases t = sc_leases s
     \<and> sc_restartLeases t = sc_restartLeases s \<and> sc_stopping t = sc_stopping s \<and> sc_stopCalls t = sc_stopCalls s \<and> sc_stopWaiters t = sc_stopWaiters s
     \<and> sc_entries t = sc_entries s \<and> sc_clientInFlight t = sc_clientInFlight s"

lemma pump_rest: "same_rest s (pump opts s)"
  by (rule pump_preserves) (simp_all add: same_rest_def start_next_def change_entry_def Let_def)

lemma accounted_pump: "accounted s \<Longrightarrow> accounted (pump opts s)"
  by (rule pump_preserves) (auto simp: admits_def intro: accounted_start)

section \<open>Bounds and progress\<close>

definition valid_options :: "scheduler_options \<Rightarrow> bool" where
  "valid_options opts \<longleftrightarrow> 1 \<le> max_active opts \<and> (\<forall>p. 1 \<le> pool_concurrency opts p)"

lemma new_scheduler_valid: "new_scheduler opts = Inr s \<Longrightarrow> valid_options opts"
proof -
  assume "new_scheduler opts = Inr s"
  then have "1 \<le> max_active opts" "list_all (\<lambda>p. 1 \<le> pool_concurrency opts p) WORK_POOL_KINDS"
    by (auto simp: new_scheduler_def list_all_iff split: if_splits)
  moreover have "p \<in> set WORK_POOL_KINDS" for p by (cases p) (simp_all add: WORK_POOL_KINDS_def)
  ultimately show ?thesis by (simp add: valid_options_def list_all_iff)
qed

definition within_bounds :: "scheduler_options \<Rightarrow> scheduler \<Rightarrow> bool" where
  "within_bounds opts s \<longleftrightarrow> activeCount s \<le> max_active opts \<and> (\<forall>p. sc_poolActive s p \<le> pool_concurrency opts p)
     \<and> (\<forall>c. in_flight s c \<le> max 0 (client_quota opts c))"

definition not_idle :: "scheduler \<Rightarrow> bool" where
  "not_idle s \<longleftrightarrow> (activeCount s = 0 \<longrightarrow> (\<forall>p. sc_queues s p = []))"

lemma activeCount_start: "activeCount (start_next p s) = activeCount s + 1"
  by (cases p) (simp_all add: activeCount_def start_next_def change_entry_def Let_def)

lemma bounds_pump: "within_bounds opts s \<Longrightarrow> within_bounds opts (pump opts s)"
proof (rule pump_preserves)
  show "within_bounds opts (start_next p s)" if "within_bounds opts s" "admits opts p s" for s p
    using that activeCount_start [of p s] unfolding within_bounds_def admits_def
    by (auto simp: start_next_def change_entry_def Let_def in_flight_def)
qed

lemma pump_pools_started: "snd (fold (pump_pool opts) ps (s, True))"
proof (induction ps arbitrary: s)
  case (Cons p ps)
  then show ?case by (simp add: pump_pool_eq)
qed simp

lemma pump_pools_stuck: "\<not> snd (fold (pump_pool opts) ps (s, b)) \<Longrightarrow> fst (fold (pump_pool opts) ps (s, b)) = s \<and> (\<forall>p \<in> set ps. \<not> admits opts p s)"
proof (induction ps arbitrary: s b)
  case (Cons p ps)
  then show ?case using pump_pools_started [of opts ps] by (auto simp: pump_pool_eq split: if_splits)
qed simp

lemma pump_stops: "activeCount (pump opts s) \<ge> max_active opts \<or> (\<forall>p. \<not> admits opts p (pump opts s))"
proof (induction opts s rule: pump.induct)
  case (1 opts s)
  show ?case
  proof (cases "activeCount s < max_active opts")
    case True
    show ?thesis
    proof (cases "snd (pump_round opts s)")
      case started: True
      then have "pump opts s = pump opts (fst (pump_round opts s))" using True by (subst pump.simps) simp
      then show ?thesis using 1 [OF True refl started] by simp
    next
      case False
      then have "fst (pump_round opts s) = s" "\<forall>p \<in> set [Query, Source, Structural, Semantic]. \<not> admits opts p s"
        using pump_pools_stuck [of opts "[Query, Source, Structural, Semantic]" s False] unfolding pump_round_def by blast+
      moreover have "pump opts s = fst (pump_round opts s)" using True False by (subst pump.simps) simp
      moreover have "p \<in> set [Query, Source, Structural, Semantic]" for p by (cases p) simp_all
      ultimately show ?thesis by metis
    qed
  next
    case False
    then show ?thesis by (subst (1) pump.simps) simp
  qed
qed

lemma active_nonneg: "accounted s \<Longrightarrow> 0 \<le> sc_poolActive s p"
  using accountedD(5) [of s p] by simp

lemma active_zero: "accounted s \<Longrightarrow> activeCount s = 0 \<Longrightarrow> sc_poolActive s p = 0"
  using active_nonneg [of s Source] active_nonneg [of s Structural] active_nonneg [of s Semantic] active_nonneg [of s Query]
  by (cases p) (simp_all add: activeCount_def)

lemma pump_not_idle: "valid_options opts \<Longrightarrow> accounted s \<Longrightarrow> not_idle (pump opts s)"
proof -
  assume v: "valid_options opts" and "accounted s"
  let ?t = "pump opts s"
  have ok: "accounted ?t" using \<open>accounted s\<close> by (rule accounted_pump)
  show ?thesis unfolding not_idle_def
  proof (intro impI)
    assume zero: "activeCount ?t = 0"
    then have none: "\<not> admits opts p ?t" for p using pump_stops [of opts s] v by (auto simp: valid_options_def)
    have room: "activeCount ?t < max_active opts" "sc_poolActive ?t p < pool_concurrency opts p" for p
      using v zero active_zero [OF ok zero, of p] by (auto simp: valid_options_def dest: spec [of _ p])
    have query: "sc_queues ?t Query = []" using none [of Query] room by (auto simp: admits_def)
    show "\<forall>p. sc_queues ?t p = []"
    proof
      show "sc_queues ?t p = []" for p using none [of p] room query by (auto simp: admits_def)
    qed
  qed
qed


section \<open>The invariant of the operations\<close>

definition scheduler_inv :: "scheduler_options \<Rightarrow> scheduler \<Rightarrow> bool" where
  "scheduler_inv opts s \<longleftrightarrow> accounted s \<and> within_bounds opts s \<and> not_idle s"

lemma same_core_inv: "same_core s t \<Longrightarrow> scheduler_inv opts s = scheduler_inv opts t"
  using same_core_accounted [of s t]
  by (simp add: scheduler_inv_def within_bounds_def not_idle_def activeCount_def in_flight_def same_core_def)

lemma same_core_refl [simp]: "same_core s s"
  by (simp add: same_core_def)

lemma same_core_trans: "same_core s t \<Longrightarrow> same_core t u \<Longrightarrow> same_core s u"
  by (simp add: same_core_def)

lemma same_core_fold: "(\<And>x s. same_core s (f x s)) \<Longrightarrow> same_core s (fold f xs s)"
  by (induction xs arbitrary: s) (auto intro: same_core_trans)

lemma lease_core:
  "same_core s (release_lease l s)" "same_core s (expireLeases now s)" "same_core s (snd (restartLeaseCount now s))" "same_core s (maybeStopResolved now s)"
  "same_core s (release now l s)" "same_core s (snd (renew_lease opts now l s))"
proof -
  show rel: "same_core s (release_lease l s)" for s l by (simp add: same_core_def release_lease_def)
  show exp: "same_core s (expireLeases now s)" for s
    unfolding expireLeases_def by (rule same_core_fold) (use rel in \<open>simp\<close>)
  show cnt: "same_core s (snd (restartLeaseCount now s))" for s using exp [of s] by (simp add: restartLeaseCount_def Let_def)
  show stp: "same_core s (maybeStopResolved now s)" for s
    using cnt [of s] by (auto simp: maybeStopResolved_def same_core_def split: prod.splits)
  show "same_core s (release now l s)" using same_core_trans [OF rel stp] by (simp add: release_def)
  show "same_core s (snd (renew_lease opts now l s))" using rel [of s l] by (auto simp: renew_lease_def same_core_def)
qed

lemma leave_bounds:
  assumes ok: "accounted s" and i: "i < length (sc_table s)" "en_state (sc_table s ! i) \<noteq> Settled" and t: "leave i f s t" and b: "within_bounds opts s"
  shows "within_bounds opts t"
proof -
  have act: "sc_poolActive t p \<le> sc_poolActive s p" for p using t by (auto simp: leave_def Let_def)
  then have "activeCount t \<le> activeCount s" unfolding activeCount_def by (simp add: add_mono)
  moreover have "in_flight t c \<le> in_flight s c" for c
  proof (cases "c = rq_client_id (en_request (sc_table s ! i))")
    case True
    have "1 \<le> in_flight s c" unfolding in_flight_number [OF ok] using i True by (intro number_pos [of i]) (simp_all add: open_for_def)
    then show ?thesis using t True by (auto simp: leave_def Let_def in_flight_def [of t])
  next
    case False
    then show ?thesis using t by (simp add: leave_def Let_def in_flight_def)
  qed
  ultimately show ?thesis using b act unfolding within_bounds_def by (meson order_trans)
qed

lemma settle_leave:
  assumes ok: "accounted s" and i: "i < length (sc_table s)" "en_state (sc_table s ! i) \<noteq> Settled"
  shows "sc_table (settle_entry i o' s) = (sc_table s)[i := (sc_table s ! i)\<lparr>en_state := Settled, en_outcome := Some o'\<rparr>]"
    "sc_entries (settle_entry i o' s) = removeAll i (sc_entries s)"
    "sc_clientInFlight (settle_entry i o' s) = (let c = rq_client_id (en_request (sc_table s ! i)); n = in_flight s c in (sc_clientInFlight s)(c := if n \<le> 1 then None else Some (n - 1)))"
    "sc_queues (settle_entry i o' s) = sc_queues s" "sc_poolActive (settle_entry i o' s) = sc_poolActive s"
  using i by (auto simp: settle_entry_def Let_def change_entry_def in_flight_def split: option.splits)

lemma abort_cases:
  assumes ok: "accounted s" and i: "i < length (sc_table s)"
  obtains (queued) f where "en_state (sc_table s ! i) = Queued" "leave i f s (abort_entry i s)"
  | (other) "abort_entry i s = change_entry i (\<lambda>e. e\<lparr>en_aborted := True\<rparr>) s"
proof (cases "en_state (sc_table s ! i) = Queued")
  case True
  have "en_point (sc_table s ! i) = NotStarted" using accountedD(7) [OF ok i] True by simp
  then have "leave i (\<lambda>e. e\<lparr>en_aborted := True, en_state := Settled, en_outcome := Some (Inl OperationCancelled)\<rparr>) s (abort_entry i s)"
    using True i by (auto simp: leave_def Let_def abort_entry_def settle_entry_def change_entry_def in_flight_def split: option.splits)
  then show ?thesis using True queued by blast
next
  case False
  then show ?thesis using i by (intro other) (simp add: abort_entry_def Let_def change_entry_def)
qed

lemma abort_inv:
  assumes inv: "scheduler_inv opts s" and i: "i < length (sc_table s)"
  shows "scheduler_inv opts (abort_entry i s)" "length (sc_table (abort_entry i s)) = length (sc_table s)"
proof -
  have ok: "accounted s" "within_bounds opts s" "not_idle s" using inv by (simp_all add: scheduler_inv_def)
  show "scheduler_inv opts (abort_entry i s)" using ok(1) i
  proof (cases rule: abort_cases)
    case (queued f)
    have "activeCount (abort_entry i s) = activeCount s" using queued by (simp add: leave_def Let_def activeCount_def)
    moreover have "sc_queues s p = [] \<Longrightarrow> sc_queues (abort_entry i s) p = []" for p using queued by (auto simp: leave_def Let_def)
    ultimately have "not_idle (abort_entry i s)" using ok(3) by (auto simp: not_idle_def)
    then show ?thesis using ok i queued accounted_leave [OF ok(1) i _ queued(2)] leave_bounds [OF ok(1) i _ queued(2) ok(2)] by (simp add: scheduler_inv_def)
  next
    case other
    have "accounted (abort_entry i s)" unfolding other using ok(1) i accountedD(7) [OF ok(1) i] by (intro accounted_change) simp_all
    then show ?thesis using ok by (simp add: scheduler_inv_def other change_entry_def within_bounds_def not_idle_def activeCount_def in_flight_def)
  qed
  show "length (sc_table (abort_entry i s)) = length (sc_table s)"
    by (simp add: abort_entry_def Let_def change_entry_def settle_entry_def)
qed

lemma abort_fold_inv:
  assumes "scheduler_inv opts s" and "\<forall>i \<in> set is. i < length (sc_table s)"
  shows "scheduler_inv opts (fold (\<lambda>i s. if P i s then abort_entry i s else s) is s)"
  using assms
proof (induction "is" arbitrary: s)
  case (Cons i "is")
  show ?case
  proof (cases "P i s")
    case True
    then show ?thesis using Cons.IH [of "abort_entry i s"] Cons.prems abort_inv [of opts s i] by simp
  next
    case False
    then show ?thesis using Cons by simp
  qed
qed simp


lemma pump_inv: "valid_options opts \<Longrightarrow> accounted s \<Longrightarrow> within_bounds opts s \<Longrightarrow> scheduler_inv opts (pump opts s)"
  by (simp add: scheduler_inv_def accounted_pump bounds_pump pump_not_idle)

lemma finish_inv:
  assumes v: "valid_options opts" and inv: "scheduler_inv opts s" and i: "i < length (sc_table s)" "en_state (sc_table s ! i) = Running"
  shows "scheduler_inv opts (finish_run opts now i outcome s)"
proof -
  have ok: "accounted s" "within_bounds opts s" using inv by (simp_all add: scheduler_inv_def)
  define t where "t = change_entry i (\<lambda>e. e\<lparr>en_point := Returned\<rparr>) (settle_entry i outcome s)"
  define u where "u = t\<lparr>sc_poolActive := (sc_poolActive t)(en_pool (sc_table s ! i) := sc_poolActive t (en_pool (sc_table s ! i)) - 1)\<rparr>"
  have fields: "sc_table t = (sc_table s)[i := (sc_table s ! i)\<lparr>en_state := Settled, en_outcome := Some outcome, en_point := Returned\<rparr>]"
    "sc_queues t = sc_queues s" "sc_poolActive t = sc_poolActive s" "sc_entries t = removeAll i (sc_entries s)"
    using i by (simp_all add: t_def change_entry_def settle_entry_def Let_def)
  have client: "sc_clientInFlight t = (let c = rq_client_id (en_request (sc_table s ! i)); n = in_flight s c in (sc_clientInFlight s)(c := if n \<le> 1 then None else Some (n - 1)))"
    using i by (simp add: t_def change_entry_def settle_entry_def Let_def in_flight_def split: option.splits)
  have "leave i (\<lambda>e. e\<lparr>en_state := Settled, en_outcome := Some outcome, en_point := Returned\<rparr>) s u"
    using i fields client by (simp add: leave_def Let_def u_def)
  then have "accounted u" "within_bounds opts u" using accounted_leave leave_bounds ok i by simp_all
  then have "scheduler_inv opts (pump opts u)" by (rule pump_inv [OF v])
  moreover have "finish_run opts now i outcome s = maybeStopResolved now (pump opts u)" by (simp add: finish_run_def Let_def t_def u_def)
  ultimately show ?thesis using same_core_inv [OF lease_core(4)] by simp
qed

lemma submit_inv:
  assumes v: "valid_options opts" and inv: "scheduler_inv opts s" and t: "submit opts request s = Inr t"
  shows "scheduler_inv opts t"
proof -
  have ok: "accounted s" "within_bounds opts s" using inv by (simp_all add: scheduler_inv_def)
  define c where "c = rq_client_id request"
  obtain p where p: "pool_of_name (rq_pool request) = Some p" and room: "in_flight s c < client_quota opts c"
    using t by (auto simp: submit_def Let_def c_def split: if_splits option.splits)
  define i where "i = length (sc_table s)"
  define u where "u = s\<lparr>sc_table := sc_table s @ [new_entry request p], sc_entries := sc_entries s @ [i],
    sc_queues := (sc_queues s)(p := sc_queues s p @ [i]), sc_clientInFlight := (sc_clientInFlight s)(c := Some (in_flight s c + 1))\<rparr>"
  have tu: "t = pump opts u" using t p by (auto simp: submit_def Let_def c_def u_def i_def split: if_splits)
  have e: "en_state (new_entry request p) = Queued" "en_pool (new_entry request p) = p" "en_point (new_entry request p) = NotStarted" "rq_client_id (en_request (new_entry request p)) = c"
    by (simp_all add: new_entry_def c_def)
  have num: "number (running_in k) (sc_table u) = number (running_in k) (sc_table s)"
    "number (open_for d) (sc_table u) = number (open_for d) (sc_table s) + (if d = c then 1 else 0)" for k d
    by (auto simp: u_def running_in_def open_for_def e)
  have state: "en_state (sc_table u ! j) = (if j = i then Queued else en_state (sc_table s ! j))" "en_pool (sc_table u ! j) = (if j = i then p else en_pool (sc_table s ! j))" if "j < length (sc_table u)" for j
    using that by (auto simp: u_def i_def nth_append e)
  have "open_entries_ok u" unfolding open_entries_ok_def
  proof (intro conjI allI)
    show "distinct (sc_entries u)" using accountedD(1) [OF ok(1)] accountedD(2) [OF ok(1), of i] by (simp add: u_def i_def)
    show "j \<in> set (sc_entries u) \<longleftrightarrow> j < length (sc_table u) \<and> en_state (sc_table u ! j) \<noteq> Settled" for j
      using accountedD(2) [OF ok(1), of j] by (auto simp: u_def i_def nth_append e less_Suc_eq)
  qed
  moreover have "queues_ok u" unfolding queues_ok_def
  proof (intro conjI allI)
    fix k
    show "distinct (sc_queues u k)" using accountedD(3) [OF ok(1), of k] accountedD(4) [OF ok(1), of i k] by (auto simp: u_def i_def)
    show "j \<in> set (sc_queues u k) \<longleftrightarrow> j < length (sc_table u) \<and> en_state (sc_table u ! j) = Queued \<and> en_pool (sc_table u ! j) = k" for j
      using accountedD(4) [OF ok(1), of j k] by (auto simp: u_def i_def nth_append e less_Suc_eq)
  qed
  moreover have "active_ok u" using accountedD(5) [OF ok(1)] by (simp add: active_ok_def num) (simp add: u_def)
  moreover have "number (open_for c) (sc_table s) + 1 \<noteq> 0" using number_simps(4) [of "open_for c" "sc_table s"] by linarith
  then have "clients_ok u"
    using accountedD(6) [OF ok(1)] in_flight_number [OF ok(1), of c] by (auto simp: clients_ok_def num Let_def) (simp_all add: u_def)
  moreover have "points_ok u" using ok(1) by (simp add: points_ok_def u_def e accounted_def)
  ultimately have "accounted u" by (simp add: accounted_def)
  moreover have "within_bounds opts u" using ok(2) room by (auto simp: within_bounds_def u_def activeCount_def in_flight_def)
  ultimately show ?thesis unfolding tu by (rule pump_inv [OF v])
qed

lemma change_inv:
  assumes inv: "scheduler_inv opts s" and i: "i < length (sc_table s)"
    and f: "\<And>e. en_state (f e) = en_state e" "\<And>e. en_pool (f e) = en_pool e" "\<And>e. en_request (f e) = en_request e"
      "point_ok (en_state (sc_table s ! i)) (en_point (f (sc_table s ! i)))"
  shows "scheduler_inv opts (change_entry i f s)"
proof -
  have "accounted (change_entry i f s)" using inv i f by (intro accounted_change) (simp_all add: scheduler_inv_def)
  then show ?thesis using inv by (simp add: scheduler_inv_def change_entry_def within_bounds_def not_idle_def activeCount_def in_flight_def)
qed


lemma running_point: "accounted s \<Longrightarrow> i < length (sc_table s) \<Longrightarrow> en_point (sc_table s ! i) \<noteq> NotStarted \<Longrightarrow> en_point (sc_table s ! i) \<noteq> Returned \<Longrightarrow> en_state (sc_table s ! i) = Running"
  using accountedD(7) [of s i] by (cases "en_state (sc_table s ! i)") auto

lemma run_returned_inv:
  assumes v: "valid_options opts" and inv: "scheduler_inv opts s" and i: "i < length (sc_table s)" "en_state (sc_table s ! i) = Running"
  shows "scheduler_inv opts (run_returned opts now i v s)"
proof -
  let ?e = "sc_table s ! i"
  have fin: "scheduler_inv opts (finish_run opts now i r s)" for r using assms by (intro finish_inv)
  show ?thesis
  proof (cases "en_aborted ?e \<or> \<not> rq_publish (en_request ?e)")
    case True
    then show ?thesis using fin by (auto simp: run_returned_def Let_def)
  next
    case False
    show ?thesis
    proof (cases "publication_workspace (en_request ?e)")
      case None
      have "scheduler_inv opts (change_entry i (\<lambda>e. e\<lparr>en_point := AwaitPublish v\<rparr>) s)" using inv i by (intro change_inv) simp_all
      then show ?thesis using False None by (simp add: run_returned_def Let_def)
    next
      case (Some w)
      let ?q = "length (sc_publications s)"
      let ?s = "s\<lparr>sc_publications := sc_publications s @ [\<lparr>pb_workspace = w, pb_previous = sc_publicationTails s w, pb_state = Waiting\<rparr>],
        sc_publicationTails := (sc_publicationTails s)(w := Some ?q)\<rparr>"
      have "scheduler_inv opts ?s" using inv same_core_inv [of s ?s] by (simp add: same_core_def)
      then have "scheduler_inv opts (change_entry i (\<lambda>e. e\<lparr>en_point := AwaitPublication ?q v\<rparr>) ?s)" using i by (intro change_inv) simp_all
      then show ?thesis using False Some by (simp add: run_returned_def Let_def)
    qed
  qed
qed

lemma stop_inv: "scheduler_inv opts s \<Longrightarrow> scheduler_inv opts (stop force now s)"
proof -
  assume inv: "scheduler_inv opts s"
  define a where "a = s\<lparr>sc_stopping := True, sc_stopCalls := Suc (sc_stopCalls s)\<rparr>"
  have a: "scheduler_inv opts a" using inv same_core_inv [of s a] by (simp add: same_core_def a_def)
  define b where "b = (if force then let s = fold abort_entry (sc_entries a) a in fold release_lease (sc_restartLeases s) s else a)"
  have "scheduler_inv opts (fold (\<lambda>i s. if True then abort_entry i s else s) (sc_entries a) a)"
    using a accountedD(2) [of a] by (intro abort_fold_inv) (simp_all add: scheduler_inv_def)
  then have "scheduler_inv opts (fold abort_entry (sc_entries a) a)" by simp
  moreover have "same_core u (fold release_lease ls u)" for u ls by (rule same_core_fold) (rule lease_core)
  ultimately have b: "scheduler_inv opts b" using a same_core_inv unfolding b_def Let_def by (cases force) (simp, blast, simp)
  define n c where "n = (if sc_entries b = [] then fst (restartLeaseCount now b) else 1)" and "c = (if sc_entries b = [] then snd (restartLeaseCount now b) else b)"
  have c: "scheduler_inv opts c" using b same_core_inv [OF lease_core(3)] by (auto simp: c_def)
  have "stop force now s = (if sc_entries c = [] \<and> n = 0 then c else c\<lparr>sc_stopWaiters := sc_stopWaiters c @ [sc_stopCalls c]\<rparr>)"
    unfolding stop_def a_def [symmetric] by (simp add: b_def [symmetric] n_def c_def split_beta)
  moreover have "same_core c (c\<lparr>sc_stopWaiters := x\<rparr>)" for x by (simp add: same_core_def)
  then have "scheduler_inv opts (c\<lparr>sc_stopWaiters := x\<rparr>)" for x using c same_core_inv by blast
  ultimately show ?thesis using c by simp
qed

lemma step_inv:
  assumes v: "valid_options opts" and inv: "scheduler_inv opts s" and enabled: "event_enabled e s"
  shows "scheduler_inv opts (scheduler_next opts e s)"
proof -
  have acc: "accounted s" using inv by (simp add: scheduler_inv_def)
  show ?thesis
  proof (cases e)
    case (Submit request)
    then show ?thesis using inv submit_inv [OF v inv] by (simp split: sum.splits)
  next
    case (Cancel i)
    then show ?thesis using inv enabled abort_inv [OF inv] by (simp add: cancel_def)
  next
    case (AcquireLease now)
    have "same_core s t" if "acquireRestartLease opts now s = Inr t" for t using that by (auto simp: acquireRestartLease_def same_core_def split: if_splits)
    then show ?thesis using inv same_core_inv AcquireLease by (auto split: sum.splits)
  next
    case (RenewLease now l)
    then show ?thesis using inv same_core_inv [OF lease_core(6)] by simp
  next
    case (ReleaseLease now l)
    then show ?thesis using inv same_core_inv [OF lease_core(5)] by simp
  next
    case (Stop force now)
    then show ?thesis using inv stop_inv by simp
  next
    case (CancelPool p)
    have "scheduler_inv opts (fold (\<lambda>i s. if en_pool (sc_table s ! i) = p then abort_entry i s else s) (sc_entries s) s)"
      using inv accountedD(2) [of s] by (intro abort_fold_inv) (simp_all add: scheduler_inv_def)
    moreover have "(\<lambda>i s. if en_pool (sc_table s ! i) \<noteq> p then s else abort_entry i s) = (\<lambda>i s. if en_pool (sc_table s ! i) = p then abort_entry i s else s)"
      by (intro ext) simp
    ultimately have "scheduler_inv opts (fold (\<lambda>i s. if en_pool (sc_table s ! i) \<noteq> p then s else abort_entry i s) (sc_entries s) s)" by simp
    then show ?thesis using CancelPool pump_inv [OF v] by (simp add: cancelPool_def scheduler_inv_def)
  next
    case (CountLeases now)
    then show ?thesis using inv same_core_inv [OF lease_core(3)] by simp
  next
    case (Report i ev)
    have "scheduler_inv opts (change_entry i (\<lambda>e. e\<lparr>en_progress := en_progress e @ [ev]\<rparr>) s)"
      using inv enabled Report accountedD(7) [of s i] by (intro change_inv) (simp_all add: scheduler_inv_def)
    then show ?thesis using inv Report by (simp add: report_progress_def split: option.splits)
  next
    case (RunReturns now i w)
    then show ?thesis using enabled running_point [OF acc, of i] run_returned_inv [OF v inv] by simp
  next
    case (RunRejects now i w)
    then show ?thesis using enabled running_point [OF acc, of i] finish_inv [OF v inv] by simp
  next
    case (PublishStarts q)
    then show ?thesis using inv same_core_inv [of s "set_publication q Publishing s"] by (simp add: same_core_def set_publication_def)
  next
    case (PublishSettles q r)
    have "same_core s (set_publication q st s)" for st by (simp add: same_core_def set_publication_def)
    then have "scheduler_inv opts (set_publication q st s)" for st using inv same_core_inv by blast
    then show ?thesis using PublishSettles by simp
  next
    case (PublicationAwaited now i)
    then obtain q w where q: "en_point (sc_table s ! i) = AwaitPublication q w" and i: "i < length (sc_table s)"
      using enabled by (auto split: program_point.splits)
    have fin: "scheduler_inv opts (finish_run opts now i r t)" if "same_core s t" for r t
      using that inv v q i running_point [of t i] same_core_inv [OF that] by (intro finish_inv) (auto simp: scheduler_inv_def same_core_def)
    have "scheduler_inv opts (finish_run opts now i r (s\<lparr>sc_publicationTails := f\<rparr>))" "scheduler_inv opts (finish_run opts now i r s)" for r f
      by (rule fin, simp add: same_core_def)+
    then show ?thesis using PublicationAwaited q by (simp add: publication_awaited_def Let_def split: publication_state.splits)
  next
    case (DirectPublishSettles now i r)
    then show ?thesis using enabled running_point [OF acc, of i] finish_inv [OF v inv] by (simp split: program_point.splits)
  qed
qed


section \<open>Reachable states\<close>

lemma new_scheduler_inv: "new_scheduler opts = Inr s \<Longrightarrow> valid_options opts \<and> scheduler_inv opts s"
proof
  assume s: "new_scheduler opts = Inr s"
  show v: "valid_options opts" using s by (rule new_scheduler_valid)
  have "sc_table s = []" "sc_entries s = []" "\<forall>p. sc_queues s p = []" "\<forall>p. sc_poolActive s p = 0" "\<forall>c. sc_clientInFlight s c = None"
    using s by (auto simp: new_scheduler_def split: if_splits)
  then show "scheduler_inv opts s"
    using v by (simp add: scheduler_inv_def accounted_defs within_bounds_def not_idle_def activeCount_def in_flight_def valid_options_def) (meson order_trans zero_le_one)
qed

interpretation sched: transition_system "\<lambda>s. new_scheduler opts = Inr s" "scheduler_step opts" "\<lambda>s. valid_options opts \<and> scheduler_inv opts s" for opts
proof
  show "valid_options opts \<and> scheduler_inv opts s" if "new_scheduler opts = Inr s" for s using that by (rule new_scheduler_inv)
  show "valid_options opts \<and> scheduler_inv opts t" if "valid_options opts \<and> scheduler_inv opts s" "scheduler_step opts s e t" for s e t
    using that(2) that(1) step_inv by (elim scheduler_stepE) blast
qed

lemma scheduler_reachable_inv: "scheduler_reachable opts s \<Longrightarrow> scheduler_inv opts s"
  using sched.reachable_inv by blast

text \<open>
  C8.  In every reachable state the counters are the numbers of entries they stand for, no more jobs run
  than the global bound and than the bound of each pool admit, and no client has more open jobs than its quota.
\<close>

theorem scheduler_bounds:
  assumes "scheduler_reachable opts s"
  shows "activeCount s \<le> max_active opts
    \<and> (\<forall>p. sc_poolActive s p = number (running_in p) (sc_table s) \<and> sc_poolActive s p \<le> pool_concurrency opts p)
    \<and> (\<forall>c. in_flight s c = number (open_for c) (sc_table s) \<and> in_flight s c \<le> max 0 (client_quota opts c))"
proof -
  have "accounted s" "within_bounds opts s" using scheduler_reachable_inv [OF assms] by (simp_all add: scheduler_inv_def)
  then show ?thesis using accountedD(5) [of s] in_flight_number [of s] by (simp add: within_bounds_def)
qed

text \<open>
  C10.  Queued work is never stranded: whenever a queue is not empty, some job is running, and the return of
  that job pumps the queues again.
\<close>

theorem scheduler_progress:
  assumes "scheduler_reachable opts s" and "sc_queues s p \<noteq> []"
  shows "\<exists>i < length (sc_table s). en_state (sc_table s ! i) = Running"
proof -
  have ok: "accounted s" "not_idle s" using scheduler_reachable_inv [OF assms(1)] by (simp_all add: scheduler_inv_def)
  then have "activeCount s \<noteq> 0" using assms(2) by (auto simp: not_idle_def)
  then have "\<exists>k. sc_poolActive s k \<noteq> 0" unfolding activeCount_def by (metis add.left_neutral)
  then obtain k where "sc_poolActive s k \<noteq> 0" by blast
  then have "filter (running_in k) (sc_table s) \<noteq> []" using accountedD(5) [OF ok(1), of k] by (auto simp: number_def)
  then obtain e where "e \<in> set (sc_table s)" "running_in k e" by (auto simp: filter_empty_conv)
  then show ?thesis by (auto simp: in_set_conv_nth running_in_def)
qed

definition small_options :: scheduler_options where
  "small_options = \<lparr>pool_concurrency = (\<lambda>p. if p = Query then 1 else 2), max_active = 2, client_quotas = (\<lambda>_. None), default_client_quota = None,
     restart_lease_ttl_ms = None, query_reserved_slots = Some 1\<rparr>"

definition job :: "string \<Rightarrow> job_request" where
  "job p = \<lparr>rq_client_id = ''c'', rq_workspace_id = None, rq_pool = p, rq_publish = False\<rparr>"

definition first_state :: scheduler where
  "first_state = (case new_scheduler small_options of Inr s \<Rightarrow> s | Inl _ \<Rightarrow> undefined)"

definition run_events :: "scheduler_event list \<Rightarrow> scheduler" where
  "run_events es = fold (scheduler_next small_options) es first_state"

fun events_enabled :: "scheduler_event list \<Rightarrow> scheduler \<Rightarrow> bool" where
  "events_enabled [] s \<longleftrightarrow> True"
| "events_enabled (e # es) s \<longleftrightarrow> event_enabled e s \<and> events_enabled es (scheduler_next small_options e s)"

lemma first_reachable: "new_scheduler small_options = Inr first_state"
proof -
  have "\<exists>s. new_scheduler small_options = Inr s" by (simp add: new_scheduler_def small_options_def is_safe_integer_def reserved_slots_def WORK_POOL_KINDS_def)
  then show ?thesis by (auto simp: first_state_def)
qed

lemma run_reachable: "events_enabled es first_state \<Longrightarrow> scheduler_reachable small_options (run_events es)"
proof -
  have "scheduler_reachable small_options s \<Longrightarrow> events_enabled es s \<Longrightarrow> scheduler_reachable small_options (fold (scheduler_next small_options) es s)" for s
  proof (induction es arbitrary: s)
    case (Cons e es)
    then show ?case using reach_step [OF Cons.prems(1) scheduler_stepI [of e s]] by simp
  qed simp
  moreover have "scheduler_reachable small_options first_state" by (rule reach_init) (rule first_reachable)
  ultimately show "events_enabled es first_state \<Longrightarrow> ?thesis" by (simp add: run_events_def)
qed


definition three_jobs :: "scheduler_event list" where
  "three_jobs = [Submit (job ''semantic''), Submit (job ''semantic''), Submit (job ''query'')]"

lemmas run_eval = run_events_def first_state_def new_scheduler_def small_options_def is_safe_integer_def reserved_slots_def WORK_POOL_KINDS_def
  submit_def Let_def job_def in_flight_def client_quota_def pool_of_name_def new_entry_def pump.simps pump_round_def pump_pool_def activeCount_def
  start_next_def change_entry_def

lemma three_jobs_run:
  "sc_queues (run_events three_jobs) Query = [2]" "sc_poolActive (run_events three_jobs) Semantic = 2" "sc_poolActive (run_events three_jobs) Query = 0"
  "events_enabled three_jobs first_state"
  by (simp_all add: three_jobs_def run_eval)


theorem scheduler_bounds_witness:
  "activeCount (run_events three_jobs) \<le> max_active small_options \<and> sc_poolActive (run_events three_jobs) Semantic = 2"
  using scheduler_bounds [OF run_reachable [OF three_jobs_run(4)]] three_jobs_run(2) by blast

theorem scheduler_progress_witness:
  "sc_queues (run_events three_jobs) Query = [2]
   \<and> (\<exists>i < length (sc_table (run_events three_jobs)). en_state (sc_table (run_events three_jobs) ! i) = Running)"
  using scheduler_progress [OF run_reachable [OF three_jobs_run(4)], of Query] three_jobs_run(1) by simp

text \<open>
  The reserved slot is kept only while a query is queued: with one slot reserved, two background jobs
  take both slots of an idle scheduler and the query that comes next has to wait.
\<close>

lemma reserved_slot_taken:
  "reserved_slots small_options = 1 \<and> max_active small_options = 2
   \<and> sc_poolActive (run_events three_jobs) Semantic = 2 \<and> sc_queues (run_events three_jobs) Query = [2]"
  using three_jobs_run by (simp add: small_options_def reserved_slots_def)


text \<open>
  Cancelling a queued job does not pump: once the queued query is gone, the background job that waited for the
  reserved slot is admissible and stays queued.
\<close>

lemma cancel_leaves_admissible:
  "admits small_options Semantic (run_events [Submit (job ''query''), Submit (job ''query''), Submit (job ''semantic''), Cancel 1])"
  by (simp add: run_eval admits_def cancel_def abort_entry_def settle_entry_def)

end
