(* ===== verification/Scheduler_Publication.thy ===== *)
theory Scheduler_Publication
  imports Scheduler_Safety
begin

text \<open>
  Publications of one workspace follow each other in the order in which the jobs returned, and a
  caller of \<open>stop\<close> who is still waiting once everything has drained waits for ever.
\<close>

section \<open>The chain of publications\<close>

definition tail_ok :: "(string \<Rightarrow> nat option) \<Rightarrow> publication list \<Rightarrow> bool" where
  "tail_ok tails bs \<longleftrightarrow> (\<forall>w. case tails w of
       None \<Rightarrow> \<forall>q < length bs. pb_workspace (bs ! q) = w \<longrightarrow> publication_settled (bs ! q)
     | Some q \<Rightarrow> q < length bs \<and> pb_workspace (bs ! q) = w \<and> (\<forall>r < length bs. q < r \<longrightarrow> pb_workspace (bs ! r) \<noteq> w))"

definition chain_at :: "publication list \<Rightarrow> nat \<Rightarrow> bool" where
  "chain_at bs q \<longleftrightarrow> (case pb_previous (bs ! q) of
       None \<Rightarrow> \<forall>r < q. pb_workspace (bs ! r) = pb_workspace (bs ! q) \<longrightarrow> publication_settled (bs ! r)
     | Some r \<Rightarrow> r < q \<and> pb_workspace (bs ! r) = pb_workspace (bs ! q) \<and> (\<forall>k. r < k \<and> k < q \<longrightarrow> pb_workspace (bs ! k) \<noteq> pb_workspace (bs ! q)))"

definition started_at :: "publication list \<Rightarrow> nat \<Rightarrow> bool" where
  "started_at bs q \<longleftrightarrow> (pb_state (bs ! q) \<noteq> Waiting \<longrightarrow> (case pb_previous (bs ! q) of None \<Rightarrow> True | Some r \<Rightarrow> publication_settled (bs ! r)))"

definition chain_ok :: "publication list \<Rightarrow> bool" where
  "chain_ok bs \<longleftrightarrow> (\<forall>q < length bs. chain_at bs q \<and> started_at bs q)"

definition publications_ok :: "scheduler \<Rightarrow> bool" where
  "publications_ok s \<longleftrightarrow> tail_ok (sc_publicationTails s) (sc_publications s) \<and> chain_ok (sc_publications s)"

lemma settled_not_waiting: "publication_settled b \<Longrightarrow> pb_state b \<noteq> Waiting"
  by (auto simp: publication_settled_def)

lemma started_order:
  assumes ok: "chain_ok bs"
  shows "q < length bs \<Longrightarrow> pb_state (bs ! q) \<noteq> Waiting \<Longrightarrow> r < q \<Longrightarrow> pb_workspace (bs ! r) = pb_workspace (bs ! q) \<Longrightarrow> publication_settled (bs ! r)"
proof (induction q rule: less_induct)
  case (less q)
  have chain: "chain_at bs q" "started_at bs q" using ok less.prems by (simp_all add: chain_ok_def)
  show ?case
  proof (cases "pb_previous (bs ! q)")
    case None
    then show ?thesis using chain(1) less.prems unfolding chain_at_def by simp
  next
    case (Some p)
    have p: "p < q" "pb_workspace (bs ! p) = pb_workspace (bs ! q)" "\<forall>k. p < k \<and> k < q \<longrightarrow> pb_workspace (bs ! k) \<noteq> pb_workspace (bs ! q)"
      using chain(1) Some unfolding chain_at_def by simp_all
    have settled: "publication_settled (bs ! p)" using chain(2) less.prems Some unfolding started_at_def by simp
    consider "r < p" | "r = p" | "p < r" by linarith
    then show ?thesis
    proof cases
      case 1
      then show ?thesis using less.IH [OF p(1)] less.prems p settled_not_waiting [OF settled] by simp
    next
      case 2
      then show ?thesis using settled by simp
    next
      case 3
      then show ?thesis using p(3) less.prems by blast
    qed
  qed
qed

text \<open>Two states with the same publications and tails.\<close>

definition same_publications :: "scheduler \<Rightarrow> scheduler \<Rightarrow> bool" where
  "same_publications s t \<longleftrightarrow> sc_publications t = sc_publications s \<and> sc_publicationTails t = sc_publicationTails s"

lemma same_publications_ok: "same_publications s t \<Longrightarrow> publications_ok s \<Longrightarrow> publications_ok t"
  by (simp add: same_publications_def publications_ok_def)

lemma same_publications_trans: "same_publications s t \<Longrightarrow> same_publications t u \<Longrightarrow> same_publications s u"
  by (simp add: same_publications_def)

lemma same_publications_fold: "(\<And>x s. same_publications s (f x s)) \<Longrightarrow> same_publications s (fold f xs s)"
  by (induction xs arbitrary: s) (auto intro: same_publications_trans simp: same_publications_def [of s s for s])

lemma pump_publications: "same_publications s (pump opts s)"
  using pump_rest [of s opts] by (simp add: same_rest_def same_publications_def)

lemma quiet_operations:
  "same_publications s (release_lease l s)" "same_publications s (expireLeases now s)" "same_publications s (snd (restartLeaseCount now s))"
  "same_publications s (maybeStopResolved now s)" "same_publications s (release now l s)" "same_publications s (snd (renew_lease opts now l s))"
  "same_publications s (abort_entry i s)" "same_publications s (finish_run opts now i r s)"
proof -
  show rel: "same_publications s (release_lease l s)" for s l by (simp add: same_publications_def release_lease_def)
  have refl: "same_publications s s" for s by (simp add: same_publications_def)
  show exp: "same_publications s (expireLeases now s)" for s
    unfolding expireLeases_def by (rule same_publications_fold) (use rel refl in simp)
  show cnt: "same_publications s (snd (restartLeaseCount now s))" for s using exp [of s] by (simp add: restartLeaseCount_def Let_def)
  show stp: "same_publications s (maybeStopResolved now s)" for s
    using cnt [of s] by (auto simp: maybeStopResolved_def same_publications_def split: prod.splits)
  show "same_publications s (release now l s)" using same_publications_trans [OF rel stp] refl by (simp add: release_def)
  show "same_publications s (snd (renew_lease opts now l s))" using rel [of s l] by (simp add: renew_lease_def same_publications_def)
  have "same_publications s (settle_entry i r s)" for s r by (simp add: settle_entry_def Let_def change_entry_def same_publications_def)
  then show "same_publications s (abort_entry i s)" by (simp add: abort_entry_def Let_def change_entry_def same_publications_def)
  have "same_publications s (change_entry i f (settle_entry i r s)\<lparr>sc_poolActive := a\<rparr>)" for f a
    by (simp add: settle_entry_def Let_def change_entry_def same_publications_def)
  then show "same_publications s (finish_run opts now i r s)"
    unfolding finish_run_def Let_def by (intro same_publications_trans [OF same_publications_trans [OF _ pump_publications] stp])
qed


section \<open>The steps of a publication\<close>

lemma append_publication:
  assumes ok: "tail_ok tails bs" "chain_ok bs" and b: "pb_workspace b = w" "pb_previous b = tails w" "pb_state b = Waiting"
  shows "tail_ok (tails(w := Some (length bs))) (bs @ [b])" "chain_ok (bs @ [b])"
proof -
  let ?bs = "bs @ [b]"
  show "tail_ok (tails(w := Some (length bs))) ?bs" unfolding tail_ok_def
  proof
    fix v
    show "case (tails(w := Some (length bs))) v of
       None \<Rightarrow> \<forall>q < length ?bs. pb_workspace (?bs ! q) = v \<longrightarrow> publication_settled (?bs ! q)
     | Some q \<Rightarrow> q < length ?bs \<and> pb_workspace (?bs ! q) = v \<and> (\<forall>r < length ?bs. q < r \<longrightarrow> pb_workspace (?bs ! r) \<noteq> v)"
      using ok(1) b unfolding tail_ok_def by (cases "v = w"; cases "tails v") (auto simp: nth_append less_Suc_eq dest!: spec [of _ v])
  qed
  have old: "chain_at ?bs q = chain_at bs q" "started_at ?bs q = started_at bs q" if "q < length bs" "chain_at bs q" for q
    using that by (auto simp: chain_at_def started_at_def nth_append split: option.splits)
  have "chain_at ?bs (length bs)"
    using ok(1) b unfolding tail_ok_def chain_at_def by (cases "tails w") (auto simp: nth_append dest!: spec [of _ w])
  moreover have "started_at ?bs (length bs)" using b by (simp add: started_at_def)
  ultimately show "chain_ok ?bs" using ok(2) old by (auto simp: chain_ok_def less_Suc_eq)
qed

lemma update_publication:
  assumes ok: "tail_ok tails bs" "chain_ok bs" and q: "q < length bs" "\<not> publication_settled (bs ! q)"
    and start: "case pb_previous (bs ! q) of None \<Rightarrow> True | Some r \<Rightarrow> publication_settled (bs ! r)"
  shows "tail_ok tails (bs[q := (bs ! q)\<lparr>pb_state := st\<rparr>])" "chain_ok (bs[q := (bs ! q)\<lparr>pb_state := st\<rparr>])"
proof -
  let ?bs = "bs[q := (bs ! q)\<lparr>pb_state := st\<rparr>]"
  have same: "pb_workspace (?bs ! r) = pb_workspace (bs ! r)" "pb_previous (?bs ! r) = pb_previous (bs ! r)" for r
    using q by (cases "r = q"; simp)+
  have keep: "publication_settled (bs ! r) \<Longrightarrow> publication_settled (?bs ! r)" for r using q by (cases "r = q") simp_all
  have none: "publication_settled (bs ! r)" if "tails w = None" "r < length bs" "pb_workspace (bs ! r) = w" for r w
    using ok(1) that unfolding tail_ok_def by (auto dest!: spec [of _ w])
  have some: "p < length bs \<and> pb_workspace (bs ! p) = w \<and> (\<forall>r < length bs. p < r \<longrightarrow> pb_workspace (bs ! r) \<noteq> w)" if "tails w = Some p" for p w
    using ok(1) that unfolding tail_ok_def by (auto dest!: spec [of _ w])
  show "tail_ok tails ?bs" unfolding tail_ok_def using none some keep by (auto simp: same split: option.splits)
  have "chain_at ?bs r" if "r < length bs" for r
  proof (cases "pb_previous (bs ! r)")
    case None
    then have "\<forall>k < r. pb_workspace (bs ! k) = pb_workspace (bs ! r) \<longrightarrow> publication_settled (bs ! k)"
      using ok(2) that by (auto simp: chain_ok_def chain_at_def)
    then show ?thesis using None keep by (simp add: chain_at_def same)
  next
    case (Some p)
    then show ?thesis using ok(2) that by (auto simp: chain_ok_def chain_at_def same)
  qed
  moreover have "started_at ?bs r" if "r < length bs" for r
  proof (cases "r = q")
    case True
    then show ?thesis using start keep by (simp add: started_at_def same split: option.splits)
  next
    case False
    have "started_at bs r" using ok(2) that by (simp add: chain_ok_def)
    then show ?thesis using False keep by (auto simp: started_at_def same split: option.splits)
  qed
  ultimately show "chain_ok ?bs" by (simp add: chain_ok_def)
qed

lemma remove_tail:
  assumes ok: "tail_ok tails bs" "chain_ok bs" and q: "tails w = Some q" "publication_settled (bs ! q)"
  shows "tail_ok (tails(w := None)) bs"
proof -
  have t: "q < length bs" "pb_workspace (bs ! q) = w" "\<forall>r < length bs. q < r \<longrightarrow> pb_workspace (bs ! r) \<noteq> w"
    using ok(1) q unfolding tail_ok_def by (auto dest!: spec [of _ w])
  have "publication_settled (bs ! r)" if "r < length bs" "pb_workspace (bs ! r) = w" for r
  proof -
    consider "r < q" | "r = q" | "q < r" by linarith
    then show ?thesis
    proof cases
      case 1
      then show ?thesis using started_order [OF ok(2) t(1) settled_not_waiting [OF q(2)]] that t(2) by simp
    qed (use q t that in auto)
  qed
  then show ?thesis using ok(1) by (simp add: tail_ok_def)
qed


lemma run_returned_publications: "publications_ok s \<Longrightarrow> publications_ok (run_returned opts now i v s)"
proof -
  assume ok: "publications_ok s"
  let ?e = "sc_table s ! i"
  have fin: "publications_ok (finish_run opts now i r s)" for r using same_publications_ok [OF quiet_operations(8) ok] .
  show ?thesis
  proof (cases "en_aborted ?e \<or> \<not> rq_publish (en_request ?e)")
    case True
    then show ?thesis using fin by (auto simp: run_returned_def Let_def)
  next
    case False
    then show ?thesis using ok append_publication [of "sc_publicationTails s" "sc_publications s" "\<lparr>pb_workspace = w, pb_previous = sc_publicationTails s w, pb_state = Waiting\<rparr>" w for w]
      by (cases "publication_workspace (en_request ?e)") (simp_all add: run_returned_def Let_def change_entry_def publications_ok_def)
  qed
qed

lemma stop_publications: "same_publications s (stop force now s)"
proof -
  have "same_publications u (fold abort_entry is u)" "same_publications u (fold release_lease ls u)" for u "is" ls
    by (rule same_publications_fold, rule quiet_operations)+
  moreover have "same_publications u (snd (restartLeaseCount now u))" for u by (rule quiet_operations)
  ultimately show ?thesis by (auto simp: stop_def Let_def same_publications_def split_beta)
qed

lemma cancelPool_publications: "same_publications s (cancelPool opts p s)"
proof -
  have "same_publications s (fold (\<lambda>i s. if en_pool (sc_table s ! i) \<noteq> p then s else abort_entry i s) is s)" for "is"
  proof (rule same_publications_fold)
    show "same_publications t (if en_pool (sc_table t ! i) \<noteq> p then t else abort_entry i t)" for i t
      using quiet_operations(7) [of t i] by (simp add: same_publications_def)
  qed
  then show ?thesis unfolding cancelPool_def by (rule same_publications_trans [OF _ pump_publications])
qed

lemma pump_publication_fields: "sc_publications (pump opts s) = sc_publications s" "sc_publicationTails (pump opts s) = sc_publicationTails s"
  using pump_publications [of s opts] by (simp_all add: same_publications_def)

lemma submit_publications: "submit opts request s = Inr t \<Longrightarrow> same_publications s t"
  by (auto simp: submit_def Let_def same_publications_def pump_publication_fields split: if_splits option.splits)

lemma publications_step:
  assumes ok: "publications_ok s" and enabled: "event_enabled e s"
  shows "publications_ok (scheduler_next opts e s)"
proof -
  note keep = same_publications_ok [OF _ ok]
  have parts: "tail_ok (sc_publicationTails s) (sc_publications s)" "chain_ok (sc_publications s)" using ok by (simp_all add: publications_ok_def)
  show ?thesis
  proof (cases e)
    case (Submit request)
    then show ?thesis using ok keep [OF submit_publications] by (simp split: sum.splits)
  next
    case (Cancel i)
    then show ?thesis using ok keep [OF quiet_operations(7)] by (simp add: cancel_def)
  next
    case (AcquireLease now)
    then show ?thesis using ok by (simp add: acquireRestartLease_def publications_ok_def)
  next
    case (RenewLease now l)
    then show ?thesis using keep [OF quiet_operations(6)] by simp
  next
    case (ReleaseLease now l)
    then show ?thesis using keep [OF quiet_operations(5)] by simp
  next
    case (Stop force now)
    then show ?thesis using keep [OF stop_publications] by simp
  next
    case (CancelPool p)
    then show ?thesis using keep [OF cancelPool_publications] by simp
  next
    case (CountLeases now)
    then show ?thesis using keep [OF quiet_operations(3)] by simp
  next
    case (Report i ev)
    then show ?thesis using ok by (simp add: report_progress_def change_entry_def publications_ok_def split: option.splits)
  next
    case (RunReturns now i w)
    then show ?thesis using run_returned_publications [OF ok] by simp
  next
    case (RunRejects now i w)
    then show ?thesis using keep [OF quiet_operations(8)] by simp
  next
    case (PublishStarts q)
    then show ?thesis using update_publication [OF parts, of q] enabled by (simp add: set_publication_def publications_ok_def publication_settled_def)
  next
    case (PublishSettles q r)
    then have q: "q < length (sc_publications s)" "pb_state (sc_publications s ! q) = Publishing" using enabled by simp_all
    then have "started_at (sc_publications s) q" using parts(2) by (simp add: chain_ok_def)
    then show ?thesis using PublishSettles q update_publication [OF parts, of q]
      by (simp add: set_publication_def publications_ok_def publication_settled_def started_at_def)
  next
    case (PublicationAwaited now i)
    then obtain q w where q: "en_point (sc_table s ! i) = AwaitPublication q w" "publication_settled (sc_publications s ! q)"
      using enabled by (auto split: program_point.splits)
    let ?w = "pb_workspace (sc_publications s ! q)"
    define t where "t = (if sc_publicationTails s ?w = Some q then s\<lparr>sc_publicationTails := (sc_publicationTails s)(?w := None)\<rparr> else s)"
    have "publications_ok t" using ok remove_tail [OF parts _ q(2), of ?w] by (simp add: t_def publications_ok_def)
    then have "publications_ok (finish_run opts now i r t)" "publications_ok (finish_run opts now i r s)" for r
      using same_publications_ok [OF quiet_operations(8)] ok by blast+
    moreover have "scheduler_next opts e s = (case pb_state (sc_publications s ! q) of PublishFailed x \<Rightarrow> finish_run opts now i (Inl x) s | _ \<Rightarrow> finish_run opts now i (Inr w) t)"
      unfolding PublicationAwaited scheduler_next.simps q(1) program_point.case publication_awaited_def Let_def t_def by (rule refl)
    ultimately show ?thesis by (simp split: publication_state.splits)
  next
    case (DirectPublishSettles now i r)
    then show ?thesis using ok keep [OF quiet_operations(8)] by (simp split: program_point.splits)
  qed
qed

interpretation publishing: transition_system "\<lambda>s. new_scheduler opts = Inr s" "scheduler_step opts" publications_ok for opts
proof
  show "publications_ok s" if "new_scheduler opts = Inr s" for s
    using that by (auto simp: new_scheduler_def publications_ok_def tail_ok_def chain_ok_def split: if_splits)
  show "publications_ok t" if "publications_ok s" "scheduler_step opts s e t" for s e t
    using that(2) that(1) publications_step by (elim scheduler_stepE) blast
qed

text \<open>
  C9.  The publications of a workspace are serialised in the order in which the jobs handed them in: once the
  publication of a job has been called, those handed in before it for the same workspace have all settled, so no two are ever in progress together.
\<close>

theorem publications_serialised:
  assumes "scheduler_reachable opts s" and "j < length (sc_publications s)" and "i < j"
    and "pb_workspace (sc_publications s ! i) = pb_workspace (sc_publications s ! j)" and "pb_state (sc_publications s ! j) \<noteq> Waiting"
  shows "publication_settled (sc_publications s ! i)"
  using started_order [of "sc_publications s" j i] publishing.reachable_inv [OF assms(1)] assms(2-) by (simp add: publications_ok_def)


definition publish_twice :: "scheduler_event list" where
  "publish_twice =
     (let j = (job ''source'')\<lparr>rq_workspace_id := Some ''w'', rq_publish := True\<rparr>
      in [Submit j, Submit j, RunReturns 0 0 ''a'', RunReturns 0 1 ''b'', PublishStarts 0, PublishSettles 0 None, PublishStarts 1])"

lemmas publish_eval = run_eval run_returned_def publication_workspace_def set_publication_def publication_settled_def publish_twice_def

lemma publish_twice_run:
  "events_enabled publish_twice first_state" "sc_publications (run_events publish_twice) =
     [\<lparr>pb_workspace = ''w'', pb_previous = None, pb_state = Published\<rparr>, \<lparr>pb_workspace = ''w'', pb_previous = Some 0, pb_state = Publishing\<rparr>]"
  by (simp_all add: publish_eval)

theorem publications_serialised_witness:
  "pb_state (sc_publications (run_events publish_twice) ! 1) = Publishing \<and> publication_settled (sc_publications (run_events publish_twice) ! 0)"
  using publications_serialised [OF run_reachable [OF publish_twice_run(1)], of 1 0] publish_twice_run(2) by simp

section \<open>Waiting for the scheduler to stop\<close>

text \<open>Everything has drained: the scheduler is stopping, no entry is open and every lease is released.\<close>

definition drained :: "scheduler \<Rightarrow> bool" where
  "drained s \<longleftrightarrow> sc_stopping s \<and> sc_entries s = [] \<and> list_all ls_released (sc_leases s) \<and> live_leases s = 0"

lemma live_released: "live_leases s = 0 \<longleftrightarrow> (\<forall>l \<in> set (sc_restartLeases s). ls_released (sc_leases s ! l))"
  by (simp add: live_leases_def filter_empty_conv)

lemma expire_drained: "live_leases s = 0 \<Longrightarrow> expireLeases now s = s"
proof -
  assume "live_leases s = 0"
  then have "\<forall>l \<in> set (sc_restartLeases s). ls_released (sc_leases s ! l)" by (simp add: live_released)
  then have "fold (\<lambda>l s. if \<not> ls_released (sc_leases s ! l) \<and> ls_expires_at (sc_leases s ! l) \<le> now then release_lease l s else s) ls s = s"
    if "set ls \<subseteq> set (sc_restartLeases s)" for ls using that by (induction ls) auto
  then show ?thesis unfolding expireLeases_def by blast
qed

lemma release_drained: "drained s \<Longrightarrow> drained (release_lease l s) \<and> sc_stopWaiters (release_lease l s) = sc_stopWaiters s"
proof -
  assume d: "drained s"
  have "(sc_leases s)[l := (sc_leases s ! l)\<lparr>ls_released := True\<rparr>] = sc_leases s"
  proof (cases "l < length (sc_leases s)")
    case True
    then have "ls_released (sc_leases s ! l)" using d by (simp add: drained_def list_all_length)
    then have "(sc_leases s ! l)\<lparr>ls_released := True\<rparr> = sc_leases s ! l" by (cases "sc_leases s ! l") simp
    then show ?thesis by simp
  qed (simp add: list_update_beyond)
  then show ?thesis using d by (auto simp: drained_def live_released release_lease_def)
qed

lemma fold_release_drained: "drained s \<Longrightarrow> drained (fold release_lease ls s) \<and> sc_stopWaiters (fold release_lease ls s) = sc_stopWaiters s"
proof (induction ls arbitrary: s)
  case (Cons l ls)
  then show ?case using release_drained [of s l] by simp
qed simp

lemma pump_drained: "(\<And>p. sc_queues s p = []) \<Longrightarrow> pump opts s = s"
  by (rule pump_preserves [where P = "\<lambda>t. t = s"]) (auto simp: admits_def)

lemma stop_drained: "drained s \<Longrightarrow> drained (stop force now s) \<and> sc_stopWaiters (stop force now s) = sc_stopWaiters s"
proof -
  assume "drained s"
  then have a: "drained (s\<lparr>sc_stopping := True, sc_stopCalls := Suc (sc_stopCalls s)\<rparr>)" by (simp add: drained_def live_leases_def)
  define b where "b = (let s = s\<lparr>sc_stopping := True, sc_stopCalls := Suc (sc_stopCalls s)\<rparr>
    in if force then let s = fold abort_entry (sc_entries s) s in fold release_lease (sc_restartLeases s) s else s)"
  have b: "drained b" "sc_stopWaiters b = sc_stopWaiters s"
    using a fold_release_drained [OF a] \<open>drained s\<close> by (auto simp: b_def Let_def drained_def)
  then have "restartLeaseCount now b = (0, b)" by (simp add: restartLeaseCount_def Let_def expire_drained drained_def)
  then have "stop force now s = b" using b unfolding stop_def by (simp add: b_def Let_def drained_def split: if_splits)
  then show ?thesis using b by simp
qed

lemma drained_entries: "accounted s \<Longrightarrow> drained s \<Longrightarrow> sc_queues s p = [] \<and> (i < length (sc_table s) \<longrightarrow> en_state (sc_table s ! i) = Settled)"
  using accountedD(2,4) [of s] by (auto simp: drained_def) (metis (no_types, lifting) empty_iff empty_set entry_state.distinct(3) hd_in_set)

lemma drained_step:
  assumes ok: "accounted s" and d: "drained s" and enabled: "event_enabled e s"
  shows "drained (scheduler_next opts e s) \<and> sc_stopWaiters (scheduler_next opts e s) = sc_stopWaiters s"
proof -
  have settled: "en_state (sc_table s ! i) = Settled" if "i < length (sc_table s)" for i using drained_entries [OF ok d] that by blast
  have idle: "en_point (sc_table s ! i) = NotStarted \<or> en_point (sc_table s ! i) = Returned" if "i < length (sc_table s)" for i
    using accountedD(7) [OF ok that] settled [OF that] by simp
  have same: "drained t \<and> sc_stopWaiters t = sc_stopWaiters s"
    if "sc_stopping t = sc_stopping s" "sc_entries t = sc_entries s" "sc_leases t = sc_leases s" "sc_restartLeases t = sc_restartLeases s" "sc_stopWaiters t = sc_stopWaiters s" for t
    using d that by (simp add: drained_def live_leases_def)
  show ?thesis
  proof (cases e)
    case (Submit request)
    then show ?thesis using d by (simp add: submit_def Let_def drained_def)
  next
    case (Cancel i)
    then show ?thesis using d enabled settled by (simp add: cancel_def)
  next
    case (AcquireLease now)
    then show ?thesis using d by (simp add: acquireRestartLease_def drained_def)
  next
    case (RenewLease now l)
    then show ?thesis using d enabled release_drained [OF d, of l] by (simp add: renew_lease_def drained_def list_all_length)
  next
    case (ReleaseLease now l)
    then show ?thesis using d enabled by (simp add: release_def drained_def list_all_length)
  next
    case (Stop force now)
    then show ?thesis using stop_drained [OF d] by simp
  next
    case (CancelPool p)
    have "cancelPool opts p s = s" using d drained_entries [OF ok d] by (simp add: cancelPool_def drained_def pump_drained)
    then show ?thesis using CancelPool d by simp
  next
    case (CountLeases now)
    then show ?thesis using d by (simp add: restartLeaseCount_def Let_def expire_drained drained_def)
  next
    case (Report i ev)
    then show ?thesis using d same by (simp add: report_progress_def change_entry_def split: option.splits)
  next
    case (PublishStarts q)
    then show ?thesis using same by (simp add: set_publication_def)
  next
    case (PublishSettles q r)
    then show ?thesis using same by (simp add: set_publication_def)
  next
    case (RunReturns now i w)
    then show ?thesis using enabled idle [of i] by auto
  next
    case (RunRejects now i w)
    then show ?thesis using enabled idle [of i] by auto
  next
    case (PublicationAwaited now i)
    then show ?thesis using enabled idle [of i] by auto
  next
    case (DirectPublishSettles now i r)
    then show ?thesis using enabled idle [of i] by auto
  qed
qed

text \<open>
  A caller of \<open>stop\<close> who is still waiting when the scheduler has drained is never released: no event
  that can happen afterwards, not even another \<open>stop\<close>, resolves the promise.
\<close>

theorem stop_waiter_abandoned:
  assumes "scheduler_reachable opts s" and "drained s" and "w \<in> set (sc_stopWaiters s)"
    and "reach (\<lambda>x. x = s) (scheduler_step opts) t"
  shows "w \<in> set (sc_stopWaiters t)"
proof -
  have "valid_options opts \<and> scheduler_inv opts t \<and> drained t \<and> w \<in> set (sc_stopWaiters t)" using assms(4)
  proof (induction rule: reach.induct)
    case (reach_init s')
    then show ?case using assms(1-3) sched.reachable_inv by blast
  next
    case (reach_step s' e t)
    then show ?case using drained_step [of s' e opts] step_inv [of opts s' e] by (auto elim!: scheduler_stepE simp: scheduler_inv_def)
  qed
  then show ?thesis by blast
qed

text \<open>A graceful stop waits for a lease; the lease expires, its owner's renewal fails and the lease is dropped.\<close>

definition expired_lease :: "scheduler_event list" where
  "expired_lease = [AcquireLease 0, Stop False 0, RenewLease 60000 0, ReleaseLease 60000 0]"

lemma expired_lease_run: "events_enabled expired_lease first_state" "drained (run_events expired_lease)" "sc_stopWaiters (run_events expired_lease) = [1]"
  by (simp_all add: run_eval expired_lease_def acquireRestartLease_def lease_ttl_def stop_def restartLeaseCount_def expireLeases_def live_leases_def
    renew_lease_def release_lease_def release_def drained_def)

theorem stop_waiter_abandoned_witness:
  "sc_stopWaiters (run_events expired_lease) = [1] \<and> 1 \<in> set (sc_stopWaiters (scheduler_next small_options (Stop True 70000) (run_events expired_lease)))"
proof -
  have "reach (\<lambda>x. x = run_events expired_lease) (scheduler_step small_options) (run_events expired_lease)" by (rule reach_init) (rule refl)
  moreover have "scheduler_step small_options (run_events expired_lease) (Stop True 70000) (scheduler_next small_options (Stop True 70000) (run_events expired_lease))"
    by (rule scheduler_stepI) simp
  ultimately have "reach (\<lambda>x. x = run_events expired_lease) (scheduler_step small_options) (scheduler_next small_options (Stop True 70000) (run_events expired_lease))"
    by (rule reach_step)
  then show ?thesis using stop_waiter_abandoned [OF run_reachable [OF expired_lease_run(1)] expired_lease_run(2), of 1] expired_lease_run(3) by simp
qed

end
