(* ===== verification/Snippet_Redaction.thy ===== *)
theory Snippet_Redaction
  imports Logical_Encoding
begin

text \<open>
  Redaction of source snippets (\<open>packages/security/src/snippets.ts\<close>) and the source-window helpers
  (\<open>packages/engine/src/source-snippet-utils.ts\<close>).  A text is its list of UTF-16 code units; detections carry
  byte offsets into its UTF-8 form.
\<close>

section \<open>Byte offsets and characters\<close>

text \<open>\<open>for (const character of text)\<close>: the code points of a string, each as its one or two code units.\<close>

fun text_characters :: "units \<Rightarrow> units list" where
  "text_characters [] = []"
| "text_characters [u] = [[u]]"
| "text_characters (u # v # r) = (if high_surrogate u \<and> low_surrogate v then [u, v] # text_characters r else [u] # text_characters (v # r))"

definition byteLength :: "units \<Rightarrow> nat" where
  "byteLength s = length (utf8_encode s)"

text \<open>The loop over the characters with the running byte offset and index.\<close>

fun character_scan :: "units list \<Rightarrow> nat \<Rightarrow> bool \<Rightarrow> nat \<Rightarrow> nat \<Rightarrow> nat" where
  "character_scan [] clamped roundUp bytes index = index"
| "character_scan (c # cs) clamped roundUp bytes index =
     (if clamped = bytes then index
      else if clamped < bytes + byteLength c then (if roundUp then index + length c else index)
      else character_scan cs clamped roundUp (bytes + byteLength c) (index + length c))"

definition byteToCharacterIndex :: "units \<Rightarrow> int \<Rightarrow> bool \<Rightarrow> nat" where
  "byteToCharacterIndex text byteOffset roundUp =
     character_scan (text_characters text) (nat (max 0 (min (int (byteLength text)) byteOffset))) roundUp 0 0"

section \<open>Redaction\<close>

record secret_detection =
  rule_code :: string
  start_byte :: int
  end_byte :: int

record snippet_redaction =
  span_start :: int
  span_end :: int
  output_start_character :: nat
  output_end_character :: nat
  reason_code :: string

record redacted_snippet =
  snippet_text :: units
  snippet_truncated :: bool
  snippet_redacted :: bool
  snippet_redactions :: "snippet_redaction list"

definition redaction_mark :: units where
  "redaction_mark = map of_char ''[REDACTED]''"

record redaction_state =
  cursorByte :: int
  rd_output :: units
  rd_redactions :: "snippet_redaction list"

definition slice_units :: "units \<Rightarrow> nat \<Rightarrow> nat \<Rightarrow> units" where
  "slice_units s a b = drop a (take b s)"

definition redact_detection :: "units \<Rightarrow> secret_detection \<Rightarrow> redaction_state \<Rightarrow> redaction_state" where
  "redact_detection text d st =
     (let startByte = max (cursorByte st) (start_byte d);
          endByte = min (int (byteLength text)) (end_byte d);
          start = byteToCharacterIndex text startByte False;
          finis = min (length text) (byteToCharacterIndex text endByte True)
      in if finis \<le> start then st
         else
           let before = rd_output st @ slice_units text (byteToCharacterIndex text (cursorByte st) False) start
           in \<lparr>cursorByte = endByte, rd_output = before @ redaction_mark,
               rd_redactions = rd_redactions st @ [\<lparr>span_start = startByte, span_end = endByte, output_start_character = length before,
                 output_end_character = length before + length redaction_mark, reason_code = rule_code d\<rparr>]\<rparr>)"

definition ordered_detections :: "units \<Rightarrow> secret_detection list \<Rightarrow> secret_detection list" where
  "ordered_detections text ds =
     sort_by (\<lambda>l r. start_byte l - start_byte r) (filter (\<lambda>d. start_byte d < int (byteLength text) \<and> end_byte d > start_byte d) ds)"

definition redacted_output :: "units \<Rightarrow> secret_detection list \<Rightarrow> redaction_state" where
  "redacted_output text ds = fold (redact_detection text) (ordered_detections text ds) \<lparr>cursorByte = 0, rd_output = [], rd_redactions = []\<rparr>"

definition redactSnippet :: "units \<Rightarrow> secret_detection list \<Rightarrow> int \<Rightarrow> redacted_snippet" where
  "redactSnippet text ds max_characters =
     (let st = redacted_output text ds;
          output = rd_output st @ drop (byteToCharacterIndex text (cursorByte st) False) text;
          truncated = int (length output) > max_characters
      in \<lparr>snippet_text = (if truncated then take (nat (max 0 max_characters)) output else output), snippet_truncated = truncated,
          snippet_redacted = (rd_redactions st \<noteq> []), snippet_redactions = rd_redactions st\<rparr>)"

section \<open>Source windows\<close>

text \<open>\<open>lastIndexOf\<close> searches at and before a position that is clamped to the string, \<open>indexOf\<close> at and after it.\<close>

definition lineStart :: "units \<Rightarrow> int \<Rightarrow> int" where
  "lineStart text index = (let p = nat (max 0 (index - 1)); hits = filter (\<lambda>i. text ! i = 10) [0..<min (length text) (Suc p)] in if hits = [] then 0 else int (last hits) + 1)"

definition lineEnd :: "units \<Rightarrow> int \<Rightarrow> int" where
  "lineEnd text index = (let p = nat (max 0 index); hits = filter (\<lambda>i. text ! i = 10) [p..<length text] in if hits = [] then int (length text) else int (hd hits) + 1)"

definition truncateWithoutSplittingSurrogatePair :: "units \<Rightarrow> int \<Rightarrow> units" where
  "truncateWithoutSplittingSurrogatePair text limit =
     (if limit \<ge> int (length text) then text
      else if limit \<le> 0 then []
      else let trailing = text ! (nat limit - 1) in take (if 0xD800 \<le> trailing \<and> trailing \<le> 0xDBFF then nat limit - 1 else nat limit) text)"

definition lineNumberAt :: "units \<Rightarrow> nat \<Rightarrow> nat" where
  "lineNumberAt text index = 1 + length (filter (\<lambda>i. i < length text \<and> text ! i = 10) [0..<index])"

definition extend_line :: "units \<Rightarrow> int \<times> int \<Rightarrow> int \<times> int" where
  "extend_line text = (\<lambda>(s, e). (if s > 0 then lineStart text (s - 1) else s, if e < int (length text) then lineEnd text e else e))"

definition extendSpanForContext :: "units \<Rightarrow> int \<Rightarrow> int \<Rightarrow> int \<Rightarrow> int \<times> int" where
  "extendSpanForContext text start finis contextLines =
     (if contextLines \<le> 0 then (start, finis)
      else (extend_line text ^^ nat contextLines) (lineStart text start, lineEnd text (max (finis - 1) start)))"

end
