(* ===== verification/Redaction_Laws.thy ===== *)
theory Redaction_Laws
  imports Snippet_Redaction "HOL-Library.Sublist"
begin

text \<open>
  What a redacted snippet shows: outside the marks exactly the characters no detection covers, in order,
  provided the detections begin and end between characters.
\<close>

section \<open>Characters and byte offsets\<close>

lemma concat_characters [simp]: "concat (text_characters s) = s"
  by (induction s rule: text_characters.induct) auto

lemma points_of_character:
  "utf16_points (u # v # r) = (if high_surrogate u \<and> low_surrogate v then utf16_points [u, v] @ utf16_points r else utf16_points [u] @ utf16_points (v # r))"
  by simp

lemma utf8_encode_characters: "utf8_encode s = concat (map utf8_encode (text_characters s))"
  unfolding utf8_encode_def by (induction s rule: text_characters.induct) auto

definition bytes_before :: "units list \<Rightarrow> nat" where
  "bytes_before cs = sum_list (map byteLength cs)"

lemma byteLength_characters: "byteLength s = bytes_before (text_characters s)"
  unfolding byteLength_def bytes_before_def by (subst utf8_encode_characters) (simp add: length_concat o_def byteLength_def [abs_def])

lemma byteLength_pos: "c \<noteq> [] \<Longrightarrow> 0 < byteLength c"
proof -
  assume "c \<noteq> []"
  then have "utf16_points c \<noteq> []" by (cases c rule: utf16_points.cases) auto
  then obtain p ps where "utf16_points c = p # ps" by (cases "utf16_points c") auto
  then show ?thesis by (simp add: byteLength_def utf8_encode_def utf8_point_def)
qed

lemma character_sizes: "c \<in> set (text_characters s) \<Longrightarrow> 0 < length c \<and> 0 < byteLength c"
proof -
  have "c \<in> set (text_characters s) \<Longrightarrow> c \<noteq> []" by (induction s rule: text_characters.induct) (auto split: if_splits)
  then show "c \<in> set (text_characters s) \<Longrightarrow> ?thesis" using byteLength_pos by blast
qed

text \<open>At a boundary between characters the scan returns the number of code units before it, whichever way it rounds.\<close>

lemma character_scan_boundary:
  assumes "\<forall>c \<in> set cs. 0 < byteLength c" and "k \<le> length cs"
  shows "character_scan cs (b + bytes_before (take k cs)) up b i = i + length (concat (take k cs))"
  using assms
proof (induction cs arbitrary: b i k)
  case (Cons c cs)
  show ?case
  proof (cases k)
    case 0
    then show ?thesis by (simp add: bytes_before_def)
  next
    case (Suc m)
    then show ?thesis using Cons.IH [of m "b + byteLength c" "i + length c"] Cons.prems by (simp add: bytes_before_def add.assoc)
  qed
qed (simp add: bytes_before_def)

definition boundary :: "units \<Rightarrow> int \<Rightarrow> nat \<Rightarrow> bool" where
  "boundary s b i \<longleftrightarrow> (\<exists>k \<le> length (text_characters s). b = int (bytes_before (take k (text_characters s))) \<and> i = length (concat (take k (text_characters s))))"

lemma bytes_before_take_le: "bytes_before (take k cs) \<le> bytes_before cs"
proof -
  have "bytes_before cs = bytes_before (take k cs) + bytes_before (drop k cs)"
    unfolding bytes_before_def by (metis append_take_drop_id map_append sum_list_append)
  then show ?thesis by simp
qed

lemma boundary_index: "boundary s b i \<Longrightarrow> byteToCharacterIndex s b up = i"
proof -
  assume "boundary s b i"
  then obtain k where k: "k \<le> length (text_characters s)" "b = int (bytes_before (take k (text_characters s)))" "i = length (concat (take k (text_characters s)))"
    unfolding boundary_def by blast
  have "bytes_before (take k (text_characters s)) \<le> byteLength s" unfolding byteLength_characters by (rule bytes_before_take_le)
  then have "nat (max 0 (min (int (byteLength s)) b)) = bytes_before (take k (text_characters s))" using k(2) by simp
  then show ?thesis using character_scan_boundary [of "text_characters s" k 0 up 0] character_sizes k by (simp add: byteToCharacterIndex_def)
qed

lemma boundary_bounds: "boundary s b i \<Longrightarrow> 0 \<le> b \<and> b \<le> int (byteLength s) \<and> i \<le> length s"
proof -
  assume "boundary s b i"
  then obtain k where k: "b = int (bytes_before (take k (text_characters s)))" "i = length (concat (take k (text_characters s)))" unfolding boundary_def by blast
  have "concat (take k (text_characters s)) @ concat (drop k (text_characters s)) = s" using concat_append [of "take k (text_characters s)" "drop k (text_characters s)"] by simp
  then have "i \<le> length s" unfolding k(2) by (metis le_add1 length_append)
  then show ?thesis using k(1) bytes_before_take_le [of k "text_characters s"] by (simp add: byteLength_characters)
qed

lemma boundary_less:
  assumes a: "boundary s a i" and b: "boundary s b j" and less: "a < b"
  shows "i < j"
proof -
  let ?cs = "text_characters s"
  obtain k m where k: "k \<le> length ?cs" "a = int (bytes_before (take k ?cs))" "i = length (concat (take k ?cs))"
    and m: "m \<le> length ?cs" "b = int (bytes_before (take m ?cs))" "j = length (concat (take m ?cs))"
    using a b unfolding boundary_def by blast
  have "k < m"
  proof (rule ccontr)
    assume "\<not> k < m"
    then have "take m ?cs = take m (take k ?cs)" by (simp add: min_absorb1)
    then have "bytes_before (take m ?cs) \<le> bytes_before (take k ?cs)" using bytes_before_take_le [of m "take k ?cs"] by simp
    then show False using less k m by simp
  qed
  then have "take m ?cs = take k ?cs @ drop k (take m ?cs)" by (metis append_take_drop_id less_imp_le min.absorb1 take_take)
  moreover have "drop k (take m ?cs) \<noteq> []" using \<open>k < m\<close> m(1) by simp
  then obtain c r where c: "drop k (take m ?cs) = c # r" by (cases "drop k (take m ?cs)") auto
  moreover have "c \<in> set ?cs" using c by (metis in_set_dropD in_set_takeD list.set_intros(1))
  ultimately show ?thesis using k m character_sizes [of c s] by simp
qed

lemma boundary_zero: "boundary s 0 0"
  unfolding boundary_def by (intro exI [of _ 0]) (simp add: bytes_before_def)


section \<open>What the loop keeps\<close>

text \<open>A detection begins and ends between characters; its end may lie behind the text.\<close>

definition aligned_detection :: "units \<Rightarrow> secret_detection \<Rightarrow> bool" where
  "aligned_detection text d \<longleftrightarrow> (\<exists>i. boundary text (start_byte d) i) \<and> (\<exists>j. boundary text (min (int (byteLength text)) (end_byte d)) j)"

text \<open>The code units a detection covers, and the positions of the output outside every mark.\<close>

definition covered_by :: "units \<Rightarrow> secret_detection \<Rightarrow> nat \<Rightarrow> bool" where
  "covered_by text d i \<longleftrightarrow> start_byte d < int (byteLength text) \<and> end_byte d > start_byte d
     \<and> byteToCharacterIndex text (start_byte d) False \<le> i \<and> i < byteToCharacterIndex text (min (int (byteLength text)) (end_byte d)) True"

definition uncovered :: "units \<Rightarrow> secret_detection list \<Rightarrow> nat set" where
  "uncovered text ds = {i. \<forall>d \<in> set ds. \<not> covered_by text d i}"

definition unmarked :: "snippet_redaction list \<Rightarrow> nat set" where
  "unmarked rs = {i. \<forall>r \<in> set rs. \<not> (output_start_character r \<le> i \<and> i < output_end_character r)}"

lemma nths_agree: "(\<And>i. i < length xs \<Longrightarrow> i \<in> A \<longleftrightarrow> i \<in> B) \<Longrightarrow> nths xs A = nths xs B"
  unfolding nths_def by (intro arg_cong [of _ _ "map fst"] filter_cong) (auto simp: in_set_zip)

lemma nths_every: "(\<And>i. i < length xs \<Longrightarrow> i \<in> A) \<Longrightarrow> nths xs A = xs"
  using nths_agree [of xs A UNIV] by (simp add: nths_def)

lemma nths_no: "(\<And>i. i < length xs \<Longrightarrow> i \<notin> A) \<Longrightarrow> nths xs A = []"
  using nths_agree [of xs A "{}"] by simp

definition loop_ok :: "units \<Rightarrow> secret_detection list \<Rightarrow> secret_detection list \<Rightarrow> redaction_state \<Rightarrow> bool" where
  "loop_ok text ds rest st \<longleftrightarrow> (\<exists>c. boundary text (cursorByte st) c
     \<and> (\<forall>r \<in> set (rd_redactions st). output_end_character r \<le> length (rd_output st))
     \<and> nths (rd_output st) (unmarked (rd_redactions st)) = nths (take c text) (uncovered text ds)
     \<and> (\<forall>d \<in> set rest. \<forall>i < c. byteToCharacterIndex text (start_byte d) False \<le> i \<longrightarrow> i \<notin> uncovered text ds)
     \<and> (\<forall>i. c \<le> i \<longrightarrow> i \<notin> uncovered text ds \<longrightarrow> (\<exists>d \<in> set rest. covered_by text d i)))"


lemma take_slices: "c \<le> s \<Longrightarrow> s \<le> j \<Longrightarrow> take j xs = take c xs @ slice_units xs c s @ slice_units xs s j"
proof -
  assume "c \<le> s" "s \<le> j"
  have "take j xs = take s (take j xs) @ drop s (take j xs)" "take s xs = take c (take s xs) @ drop c (take s xs)"
    by (simp_all only: append_take_drop_id)
  then have "take j xs = take s xs @ drop s (take j xs)" "take s xs = take c xs @ drop c (take s xs)"
    using \<open>c \<le> s\<close> \<open>s \<le> j\<close> by (simp_all only: take_take min_absorb1)
  then show ?thesis unfolding slice_units_def by (metis append.assoc)
qed

lemma redact_step:
  assumes ok: "loop_ok text ds (d # rest) st" and d: "d \<in> set ds" "start_byte d < int (byteLength text)" "start_byte d < end_byte d" "aligned_detection text d"
    and rest: "\<forall>x \<in> set rest. start_byte d \<le> start_byte x \<and> aligned_detection text x"
  shows "loop_ok text ds rest (redact_detection text d st)"
proof -
  let ?e = "min (int (byteLength text)) (end_byte d)"
  obtain c where c: "boundary text (cursorByte st) c" "\<forall>r \<in> set (rd_redactions st). output_end_character r \<le> length (rd_output st)"
    "nths (rd_output st) (unmarked (rd_redactions st)) = nths (take c text) (uncovered text ds)"
    "\<And>x i. x \<in> set (d # rest) \<Longrightarrow> i < c \<Longrightarrow> byteToCharacterIndex text (start_byte x) False \<le> i \<Longrightarrow> i \<notin> uncovered text ds"
    "\<And>i. c \<le> i \<Longrightarrow> i \<notin> uncovered text ds \<Longrightarrow> \<exists>x \<in> set (d # rest). covered_by text x i"
    using ok unfolding loop_ok_def by blast
  obtain i0 j where i0: "boundary text (start_byte d) i0" and j: "boundary text ?e j" using d(4) unfolding aligned_detection_def by blast
  have cov: "covered_by text d i \<longleftrightarrow> i0 \<le> i \<and> i < j" for i using d(2,3) boundary_index [OF i0, of False] boundary_index [OF j, of True] by (simp add: covered_by_def)
  have later: "i0 \<le> byteToCharacterIndex text (start_byte x) False" if "x \<in> set (d # rest)" for x
  proof -
    have "start_byte d \<le> start_byte x" "aligned_detection text x" using that rest d(4) by auto
    then obtain i where i: "boundary text (start_byte x) i" unfolding aligned_detection_def by blast
    show ?thesis unfolding boundary_index [OF i] using boundary_less [OF i i0] boundary_less [OF i0 i] boundary_index [OF i, of False] boundary_index [OF i0, of False] \<open>start_byte d \<le> start_byte x\<close>
      by (cases "start_byte d = start_byte x") auto
  qed
  define s where "s = (if cursorByte st \<le> start_byte d then i0 else c)"
  have bs: "boundary text (max (cursorByte st) (start_byte d)) s" using c(1) i0 by (simp add: s_def max_def)
  have cs: "c \<le> s" "i0 \<le> s"
    using boundary_less [OF c(1) i0] boundary_less [OF i0 c(1)] boundary_index [OF c(1), of False] boundary_index [OF i0, of False]
    by (cases "cursorByte st = start_byte d"; cases "cursorByte st \<le> start_byte d"; simp add: s_def)+
  have jl: "j \<le> length text" using boundary_bounds [OF j] by simp
  have idx: "byteToCharacterIndex text (max (cursorByte st) (start_byte d)) False = s" "min (length text) (byteToCharacterIndex text ?e True) = j"
    "byteToCharacterIndex text (cursorByte st) False = c"
    using boundary_index [OF bs] boundary_index [OF j] boundary_index [OF c(1)] jl by simp_all
  show ?thesis
  proof (cases "j \<le> s")
    case True
    have "i0 < j" using boundary_less [OF i0 j] d by simp
    then have "s = c" using True by (auto simp: s_def split: if_splits)
    then have "\<exists>x \<in> set rest. covered_by text x i" if "c \<le> i" "i \<notin> uncovered text ds" for i using c(5) [OF that] cov [of i] True that by auto
    moreover have "redact_detection text d st = st" using True by (simp add: redact_detection_def Let_def idx)
    ultimately show ?thesis unfolding loop_ok_def using c by (intro exI [of _ c]) auto
  next
    case False
    define before where "before = rd_output st @ slice_units text c s"
    have st': "redact_detection text d st = \<lparr>cursorByte = ?e, rd_output = before @ redaction_mark, rd_redactions = rd_redactions st @
      [\<lparr>span_start = max (cursorByte st) (start_byte d), span_end = ?e, output_start_character = length before, output_end_character = length before + length redaction_mark, reason_code = rule_code d\<rparr>]\<rparr>"
      (is "_ = ?st") using False by (simp add: redact_detection_def Let_def idx before_def)
    have keep: "nths (rd_output ?st) (unmarked (rd_redactions ?st)) = nths (rd_output st) (unmarked (rd_redactions st)) @ slice_units text c s"
    proof -
      let ?n = "length (rd_output st)" and ?m = "length (slice_units text c s)"
      define A where "A = unmarked (rd_redactions ?st)"
      have mem: "i \<in> A \<longleftrightarrow> i \<in> unmarked (rd_redactions st) \<and> \<not> (?n + ?m \<le> i \<and> i < ?n + ?m + length redaction_mark)" for i by (auto simp: A_def unmarked_def before_def)
      have high: "?n \<le> i \<Longrightarrow> i \<in> unmarked (rd_redactions st)" for i using c(2) by (auto simp: unmarked_def)
      have "nths (slice_units text c s) {i. i + ?n \<in> A} = slice_units text c s" by (rule nths_every) (simp add: mem high)
      moreover have "nths redaction_mark {i. i + (?m + ?n) \<in> A} = []" by (rule nths_no) (simp add: mem)
      moreover have "nths (rd_output st) A = nths (rd_output st) (unmarked (rd_redactions st))" by (rule nths_agree) (simp add: mem)
      ultimately show ?thesis unfolding A_def [symmetric] by (simp add: before_def nths_append add.assoc)
    qed
    have between: "i \<in> uncovered text ds" if "c \<le> i" "i < s" for i
    proof (rule ccontr)
      assume "i \<notin> uncovered text ds"
      with c(5) [OF that(1)] obtain x where "x \<in> set (d # rest)" "covered_by text x i" by blast
      then have "i0 \<le> i" using later by (force simp: covered_by_def)
      then show False using that by (auto simp: s_def split: if_splits)
    qed
    have inside: "i \<notin> uncovered text ds" if "s \<le> i" "i < j" for i using d(1) cov [of i] cs that by (auto simp: uncovered_def)
    have len: "length (take c text) = c" "length (slice_units text c s) = s - c" "length (slice_units text s j) = j - s" using cs jl False by (simp_all add: slice_units_def)
    have "nths (take j text) (uncovered text ds) = nths (take c text) (uncovered text ds) @ slice_units text c s"
    proof -
      have "nths (slice_units text c s) {i. i + c \<in> uncovered text ds} = slice_units text c s" by (rule nths_every) (use between len in auto)
      moreover have "nths (slice_units text s j) {i. i + s \<in> uncovered text ds} = []" by (rule nths_no) (use inside len in auto)
      moreover have "take j text = take c text @ slice_units text c s @ slice_units text s j" using take_slices cs False by simp
      ultimately show ?thesis using len cs by (simp add: nths_append)
    qed
    then have "nths (rd_output ?st) (unmarked (rd_redactions ?st)) = nths (take j text) (uncovered text ds)" using keep c(3) by simp
    moreover have "\<forall>r \<in> set (rd_redactions ?st). output_end_character r \<le> length (rd_output ?st)" using c(2) by (auto simp: before_def)
    moreover have "i \<notin> uncovered text ds" if "x \<in> set rest" "i < j" "byteToCharacterIndex text (start_byte x) False \<le> i" for x i
    proof (cases "s \<le> i")
      case False
      have "i0 \<le> i" using later [of x] that by simp
      then have "i < c" using False by (auto simp: s_def split: if_splits)
      then show ?thesis using c(4) [of d i] \<open>i0 \<le> i\<close> boundary_index [OF i0, of False] by simp
    qed (use inside that in blast)
    moreover have "\<exists>x \<in> set rest. covered_by text x i" if "j \<le> i" "i \<notin> uncovered text ds" for i
      using c(5) [of i] cov [of i] that False cs by auto
    ultimately show ?thesis unfolding st' loop_ok_def using j by (intro exI [of _ j]) simp
  qed
qed


lemma redact_loop:
  assumes "loop_ok text ds rest st" and "sorted_wrt (\<lambda>x y. start_byte x \<le> start_byte y) rest"
    and "\<forall>x \<in> set rest. x \<in> set ds \<and> start_byte x < int (byteLength text) \<and> start_byte x < end_byte x \<and> aligned_detection text x"
  shows "loop_ok text ds [] (fold (redact_detection text) rest st)"
  using assms
proof (induction rest arbitrary: st)
  case (Cons d rest)
  have "loop_ok text ds rest (redact_detection text d st)" by (rule redact_step [OF Cons.prems(1)]) (use Cons.prems(2,3) in auto)
  then show ?case using Cons by simp
qed simp

lemma start_order: "comparator (\<lambda>l r. start_byte l - start_byte r)"
  by (rule comparator_diff)

lemma redacted_loop:
  assumes "\<forall>d \<in> set ds. aligned_detection text d"
  shows "loop_ok text ds [] (redacted_output text ds)"
  unfolding redacted_output_def
proof (rule redact_loop)
  let ?st = "\<lparr>cursorByte = 0, rd_output = [], rd_redactions = []\<rparr>"
  have set: "set (ordered_detections text ds) = {d \<in> set ds. start_byte d < int (byteLength text) \<and> end_byte d > start_byte d}" by (simp add: ordered_detections_def)
  show "\<forall>x \<in> set (ordered_detections text ds). x \<in> set ds \<and> start_byte x < int (byteLength text) \<and> start_byte x < end_byte x \<and> aligned_detection text x"
    using assms by (simp add: set)
  show "sorted_wrt (\<lambda>x y. start_byte x \<le> start_byte y) (ordered_detections text ds)"
    using comparator.sorted_sort_by [OF start_order] by (simp add: ordered_detections_def)
  have "\<exists>d \<in> set (ordered_detections text ds). covered_by text d i" if "i \<notin> uncovered text ds" for i using that by (auto simp: uncovered_def covered_by_def set)
  then show "loop_ok text ds (ordered_detections text ds) ?st" unfolding loop_ok_def using boundary_zero [of "text"] by (intro exI [of _ 0]) (simp add: unmarked_def)
qed

text \<open>
  C22.  For detections that begin and end between characters the snippet shows, outside the redaction marks
  it reports, exactly the characters that no detection covers, in their order; a truncated snippet shows the first of them.
\<close>

theorem redaction_exact:
  assumes "\<forall>d \<in> set ds. aligned_detection text d"
  shows "let r = redactSnippet text ds limit; shown = nths (snippet_text r) (unmarked (snippet_redactions r))
    in prefix shown (nths text (uncovered text ds)) \<and> (\<not> snippet_truncated r \<longrightarrow> shown = nths text (uncovered text ds))"
proof -
  define st where "st = redacted_output text ds"
  obtain c where c: "boundary text (cursorByte st) c" "\<forall>r \<in> set (rd_redactions st). output_end_character r \<le> length (rd_output st)"
    "nths (rd_output st) (unmarked (rd_redactions st)) = nths (take c text) (uncovered text ds)" "\<And>i. c \<le> i \<Longrightarrow> i \<in> uncovered text ds"
    using redacted_loop [OF assms] unfolding st_def [symmetric] loop_ok_def by auto
  define out where "out = rd_output st @ drop c text"
  have cl: "c \<le> length text" using boundary_bounds [OF c(1)] by simp
  have "nths (drop c text) {i. i + length (rd_output st) \<in> unmarked (rd_redactions st)} = drop c text" by (rule nths_every) (use c(2) in \<open>auto simp: unmarked_def\<close>)
  moreover have "nths (drop c text) {i. i + c \<in> uncovered text ds} = drop c text" by (rule nths_every) (simp add: c(4))
  moreover have "nths text (uncovered text ds) = nths (take c text) (uncovered text ds) @ nths (drop c text) {i. i + c \<in> uncovered text ds}"
    using nths_append [of "take c text" "drop c text" "uncovered text ds"] cl by (simp add: min_absorb2)
  ultimately have full: "nths out (unmarked (rd_redactions st)) = nths text (uncovered text ds)" using c(3) by (simp add: out_def nths_append)
  have front: "prefix (nths (take n out) A) (nths out A)" for n A
    using nths_append [of "take n out" "drop n out" A] by (simp add: prefix_def)
  have "redactSnippet text ds limit = \<lparr>snippet_text = (if int (length out) > limit then take (nat (max 0 limit)) out else out),
    snippet_truncated = (int (length out) > limit), snippet_redacted = (rd_redactions st \<noteq> []), snippet_redactions = rd_redactions st\<rparr>"
    unfolding redactSnippet_def Let_def st_def [symmetric] boundary_index [OF c(1)] out_def [symmetric] by (rule refl)
  then show ?thesis using full front [of "nat (max 0 limit)" "unmarked (rd_redactions st)"] by (simp add: Let_def)
qed


definition sample_text :: units where
  "sample_text = [107, 61, 0xE9, 49, 32, 122]"

definition sample_detection :: secret_detection where
  "sample_detection = \<lparr>rule_code = ''secret:token_assignment'', start_byte = 2, end_byte = 5\<rparr>"

lemma sample_characters: "text_characters sample_text = [[107], [61], [0xE9], [49], [32], [122]]"
  by (simp add: sample_text_def high_surrogate_def low_surrogate_def)

lemma sample_bytes_before: "byteLength [u] = (if u < 128 then 1 else if u < 2048 then 2 else 3)" if "u < 0xD800"
  using that by (simp add: byteLength_def utf8_encode_def utf8_point_def high_surrogate_def low_surrogate_def)

lemma sample_aligned: "aligned_detection sample_text sample_detection"
proof -
  have take: "take 2 (text_characters sample_text) = [[107], [61]]" "take 4 (text_characters sample_text) = [[107], [61], [0xE9], [49]]" "length (text_characters sample_text) = 6"
    unfolding sample_characters by (simp_all add: eval_nat_numeral)
  have low: "boundary sample_text 2 2" unfolding boundary_def by (intro exI [of _ 2]) (simp add: take bytes_before_def sample_bytes_before)
  have high: "boundary sample_text 5 4" unfolding boundary_def by (intro exI [of _ 4]) (simp add: take bytes_before_def sample_bytes_before)
  have "byteLength sample_text = 7" using byteLength_characters [of sample_text] by (simp add: sample_characters bytes_before_def sample_bytes_before)
  then have "start_byte sample_detection = 2" "min (int (byteLength sample_text)) (end_byte sample_detection) = 5" by (simp_all add: sample_detection_def)
  then show ?thesis unfolding aligned_detection_def using low high by (intro conjI exI) simp_all
qed

theorem redaction_exact_witness:
  "let r = redactSnippet sample_text [sample_detection] 200; shown = nths (snippet_text r) (unmarked (snippet_redactions r))
   in prefix shown (nths sample_text (uncovered sample_text [sample_detection]))"
  using redaction_exact [of "[sample_detection]" sample_text 200] sample_aligned by (simp add: Let_def)

text \<open>
  A detection that ends inside a character redacts the whole character and then shows it: the rest of the
  text is cut at the character boundary before the end of the detection.
\<close>

lemma length_mark: "length redaction_mark = 10"
  by (simp add: redaction_mark_def)

lemma split_character_shown:
  "snippet_text (redactSnippet [0xE9] [\<lparr>rule_code = ''r'', start_byte = 0, end_byte = 1\<rparr>] 200) = redaction_mark @ [0xE9]"
  by (simp add: redactSnippet_def redacted_output_def ordered_detections_def sort_by_def redact_detection_def byteToCharacterIndex_def sample_bytes_before slice_units_def Let_def length_mark)

section \<open>Source windows\<close>

text \<open>The window around a span contains the span, unless it starts at a line break at the very beginning of the text.\<close>

lemma lineStart_before: "0 \<le> i \<Longrightarrow> i \<noteq> 0 \<or> text = [] \<or> hd text \<noteq> 10 \<Longrightarrow> 0 \<le> lineStart text i \<and> lineStart text i \<le> i"
proof -
  assume i: "0 \<le> i" "i \<noteq> 0 \<or> text = [] \<or> hd text \<noteq> 10"
  define hits where "hits = filter (\<lambda>k. text ! k = 10) [0..<min (length text) (Suc (nat (max 0 (i - 1))))]"
  have "lineStart text i = (if hits = [] then 0 else int (last hits) + 1)" by (simp add: lineStart_def hits_def Let_def)
  moreover have "int (last hits) + 1 \<le> i" if "hits \<noteq> []"
  proof -
    have last: "last hits < length text" "text ! last hits = 10" "last hits < Suc (nat (max 0 (i - 1)))" using last_in_set [OF that] by (auto simp: hits_def)
    show ?thesis
    proof (cases "i = 0")
      case True
      then show ?thesis using last i by (cases "text") auto
    next
      case False
      then show ?thesis using last i(1) by simp
    qed
  qed
  ultimately show ?thesis using i by auto
qed

lemma leading_line_break: "lineStart [10, 97] 0 = 1"
  by (simp add: lineStart_def)

end
