(* ===== verification/Path_Inclusion.thy ===== *)
theory Path_Inclusion
  imports Urdira_Prelude
begin

text \<open>
  The inclusion decision of \<open>packages/security/src/inclusion.ts\<close>: the glob patterns of rules and
  gitignore files, and the order in which \<open>evaluateInclusion\<close> consults boundaries, mandatory exclusions,
  defaults, explicit rules and ignored patterns.
\<close>

section \<open>Globs\<close>

text \<open>The pieces of the regular expression a pattern is translated to: \<open>(?:.*/)?\<close>, \<open>.*\<close>, \<open>[^/]*\<close>, \<open>[^/]\<close> and an escaped character.\<close>

datatype glob_token = AnyDirectories | AnyText | AnySegment | OneCharacter | Exactly char

definition slashes :: "string \<Rightarrow> string" where
  "slashes s = map (\<lambda>c. if c = CHR 0x5C then CHR ''/'' else c) s"

text \<open>The leading \<open>.!/\<close> is removed, as the source's regular expression has it.\<close>

definition glob_normalized :: "string \<Rightarrow> string" where
  "glob_normalized pattern = (let s = slashes pattern in if take 3 s = ''.!/'' then drop 3 s else s)"

fun glob_tokens :: "string \<Rightarrow> glob_token list" where
  "glob_tokens [] = []"
| "glob_tokens (c # s) =
     (if c = CHR ''*'' \<and> take 1 s = ''*'' then
        (if take 1 (drop 1 s) = ''/'' then AnyDirectories # glob_tokens (drop 2 s) else AnyText # glob_tokens (drop 1 s))
      else if c = CHR ''*'' then AnySegment # glob_tokens s
      else if c = CHR ''?'' then OneCharacter # glob_tokens s
      else Exactly c # glob_tokens s)"

text \<open>The dot of a regular expression does not match a line terminator.\<close>

definition line_terminator :: "char \<Rightarrow> bool" where
  "line_terminator c \<longleftrightarrow> c = CHR 0x0A \<or> c = CHR 0x0D"

text \<open>Matching; the flag of the first argument says that \<open>.*/\<close> of a leading \<open>(?:.*/)?\<close> has begun.\<close>

fun glob_match :: "bool \<Rightarrow> glob_token list \<Rightarrow> string \<Rightarrow> bool" where
  "glob_match True ts s \<longleftrightarrow> (case s of [] \<Rightarrow> False | c # r \<Rightarrow> c = CHR ''/'' \<and> glob_match False ts r \<or> \<not> line_terminator c \<and> glob_match True ts r)"
| "glob_match False [] s \<longleftrightarrow> s = []"
| "glob_match False (Exactly x # ts) s \<longleftrightarrow> (case s of [] \<Rightarrow> False | c # r \<Rightarrow> c = x \<and> glob_match False ts r)"
| "glob_match False (OneCharacter # ts) s \<longleftrightarrow> (case s of [] \<Rightarrow> False | c # r \<Rightarrow> c \<noteq> CHR ''/'' \<and> glob_match False ts r)"
| "glob_match False (AnySegment # ts) s \<longleftrightarrow>
     glob_match False ts s \<or> (case s of [] \<Rightarrow> False | c # r \<Rightarrow> c \<noteq> CHR ''/'' \<and> glob_match False (AnySegment # ts) r)"
| "glob_match False (AnyText # ts) s \<longleftrightarrow>
     glob_match False ts s \<or> (case s of [] \<Rightarrow> False | c # r \<Rightarrow> \<not> line_terminator c \<and> glob_match False (AnyText # ts) r)"
| "glob_match False (AnyDirectories # ts) s \<longleftrightarrow> glob_match False ts s \<or> glob_match True ts s"

definition basename :: "string \<Rightarrow> string" where
  "basename value = last (split_on CHR ''/'' value)"

definition glob :: "string \<Rightarrow> string \<Rightarrow> bool" where
  "glob pattern value =
     (let normalized = glob_normalized pattern
      in glob_match False (glob_tokens normalized) (if CHR ''/'' \<in> set normalized then value else basename value))"

section \<open>Rules\<close>

text \<open>\<open>[...patterns].reverse().find(...)\<close>\<close>

definition matches :: "string list \<Rightarrow> string \<Rightarrow> string option" where
  "matches patterns path = find (\<lambda>p. glob p path) (rev patterns)"

definition gitignore_step :: "string \<Rightarrow> string \<Rightarrow> (bool \<times> string) option \<Rightarrow> (bool \<times> string) option" where
  "gitignore_step path pattern decision =
     (if pattern = [] \<or> take 1 pattern = ''#'' then decision
      else
        let negated = (take 1 pattern = ''!''); candidate = (if negated then drop 1 pattern else pattern)
        in if glob candidate path then Some (\<not> negated, pattern) else decision)"

definition gitIgnoreMatch :: "string list \<Rightarrow> string \<Rightarrow> (bool \<times> string) option" where
  "gitIgnoreMatch patterns path = fold (gitignore_step path) patterns None"

datatype rule_kind = Include | Exclude

record inclusion_observation =
  normalized_path :: string
  is_symlink :: bool
  is_directory :: bool
  byte_length :: int
  media_type :: string
  outside_allowed_root :: bool
  symlink_cycle :: bool
  is_special :: bool

record inclusion_rules =
  include_patterns :: "string list"
  exclude_patterns :: "string list"
  allow_external_root :: bool
  follow_symlinks :: bool
  allowed_external_roots :: "string list"
  ordered_rules :: "(rule_kind \<times> string) list option"

record gitignore_rules =
  gi_enabled :: bool
  gi_patterns :: "string list"

record inclusion_result =
  included :: bool
  inclusion_reason :: string
  matched_rule :: "string option"

definition refuse :: "string \<Rightarrow> inclusion_result" where
  "refuse code = \<lparr>included = False, inclusion_reason = code, matched_rule = None\<rparr>"

definition drive_prefix :: "string \<Rightarrow> bool" where
  "drive_prefix path \<longleftrightarrow> (case path of
      c # d # e # _ \<Rightarrow> (let n = (of_char c :: nat) in 65 \<le> n \<and> n \<le> 90 \<or> 97 \<le> n \<and> n \<le> 122) \<and> d = CHR '':'' \<and> e = CHR ''/''
    | _ \<Rightarrow> False)"

definition outside_workspace :: "string \<Rightarrow> bool" where
  "outside_workspace path \<longleftrightarrow> take 1 path = ''/'' \<or> ''..'' \<in> set (split_on CHR ''/'' path) \<or> drive_prefix path"

definition mandatory_exclusion :: "string \<Rightarrow> bool" where
  "mandatory_exclusion path \<longleftrightarrow> path = ''.git'' \<or> take 5 path = ''.git/'' \<or> path = ''.urdira'' \<or> take 8 path = ''.urdira/''"

text \<open>\<open>/(?:^|\/)(?:node_modules|dist|coverage|test-results|\.git)\//\<close>: a directory segment of the path.\<close>

definition generated_path :: "string \<Rightarrow> bool" where
  "generated_path path \<longleftrightarrow>
     list_ex (\<lambda>w. w \<in> set [''node_modules'', ''dist'', ''coverage'', ''test-results'', ''.git'']) (butlast (split_on CHR ''/'' path))"

definition explicit_rules :: "inclusion_rules \<Rightarrow> (rule_kind \<times> string) list" where
  "explicit_rules rules =
     (case ordered_rules rules of Some rs \<Rightarrow> rs
      | None \<Rightarrow> map (\<lambda>p. (Exclude, p)) (exclude_patterns rules) @ map (\<lambda>p. (Include, p)) (include_patterns rules))"

definition explicit_decision :: "inclusion_rules \<Rightarrow> string \<Rightarrow> (rule_kind \<times> string) option" where
  "explicit_decision rules path = fold (\<lambda>rule decision. if glob (snd rule) path then Some rule else decision) (explicit_rules rules) None"

definition octet_stream :: "string \<Rightarrow> bool" where
  "octet_stream m \<longleftrightarrow> take 24 m = ''application/octet-stream''"

text \<open>An empty pattern is falsy, so it never counts as the explicit include of a generated file.\<close>

definition explicitly_included :: "inclusion_rules \<Rightarrow> string \<Rightarrow> bool" where
  "explicitly_included rules path \<longleftrightarrow> (case matches (include_patterns rules) path of Some p \<Rightarrow> p \<noteq> [] | None \<Rightarrow> False)"

definition evaluateInclusion :: "inclusion_observation \<Rightarrow> inclusion_rules \<Rightarrow> gitignore_rules \<Rightarrow> inclusion_result" where
  "evaluateInclusion ob rules gitignore =
     (if outside_allowed_root ob then refuse ''security:external_root_forbidden''
      else if symlink_cycle ob then refuse ''security:symlink_cycle''
      else if is_special ob then refuse ''security:path_invalid''
      else if is_symlink ob \<and> \<not> follow_symlinks rules then refuse ''security:symlink_forbidden''
      else
        let path = slashes (normalized_path ob)
        in if outside_workspace path then refuse ''security:path_outside_workspace''
           else if mandatory_exclusion path then refuse ''security:mandatory_exclusion''
           else if is_directory ob then refuse ''security:directory_not_artifact''
           else if byte_length ob > 10 * 1024 * 1024 then refuse ''security:size_exclusion''
           else if (octet_stream (media_type ob) \<or> generated_path path) \<and> \<not> explicitly_included rules path then refuse ''security:generated_or_binary_default''
           else
             (case explicit_decision rules path of
                Some (Exclude, p) \<Rightarrow> \<lparr>included = False, inclusion_reason = ''security:workspace_exclusion'', matched_rule = Some p\<rparr>
              | Some (Include, p) \<Rightarrow> \<lparr>included = True, inclusion_reason = ''security:explicit_include'', matched_rule = Some p\<rparr>
              | None \<Rightarrow>
                  (case (if gi_enabled gitignore then gitIgnoreMatch (gi_patterns gitignore) path else None) of
                     Some (True, rule) \<Rightarrow> \<lparr>included = False, inclusion_reason = ''security:gitignore'', matched_rule = Some rule\<rparr>
                   | _ \<Rightarrow> \<lparr>included = True, inclusion_reason = ''security:eligible_default'', matched_rule = None\<rparr>)))"

section \<open>The language of a glob\<close>

text \<open>What the pieces of the regular expression denote, and their concatenation.\<close>

fun token_language :: "glob_token \<Rightarrow> string set" where
  "token_language AnyDirectories = insert [] {a @ ''/'' |a. list_all (\<lambda>c. \<not> line_terminator c) a}"
| "token_language AnyText = {a. list_all (\<lambda>c. \<not> line_terminator c) a}"
| "token_language AnySegment = {a. list_all (\<lambda>c. c \<noteq> CHR ''/'') a}"
| "token_language OneCharacter = {[c] |c. c \<noteq> CHR ''/''}"
| "token_language (Exactly x) = {[x]}"

fun glob_language :: "glob_token list \<Rightarrow> string set" where
  "glob_language [] = {[]}"
| "glob_language (t # ts) = {a @ b |a b. a \<in> token_language t \<and> b \<in> glob_language ts}"

lemma star_language:
  assumes "\<And>s. s \<in> L \<longleftrightarrow> s \<in> M \<or> (case s of [] \<Rightarrow> False | c # r \<Rightarrow> P c \<and> r \<in> L)"
  shows "s \<in> L \<longleftrightarrow> (\<exists>a b. s = a @ b \<and> list_all P a \<and> b \<in> M)"
proof (induction s)
  case Nil
  then show ?case using assms [of "[]"] by simp
next
  case (Cons c r)
  show ?case
  proof
    assume "c # r \<in> L"
    then have "c # r \<in> M \<or> P c \<and> (\<exists>a b. r = a @ b \<and> list_all P a \<and> b \<in> M)" using assms [of "c # r"] Cons by simp
    then show "\<exists>a b. c # r = a @ b \<and> list_all P a \<and> b \<in> M" by (metis append_Cons append_Nil list.pred_inject)
  next
    assume "\<exists>a b. c # r = a @ b \<and> list_all P a \<and> b \<in> M"
    then obtain a b where ab: "c # r = a @ b" "list_all P a" "b \<in> M" by blast
    then show "c # r \<in> L" using assms [of "c # r"] Cons by (cases a) auto
  qed
qed

lemma directories_match: "glob_match True ts s \<longleftrightarrow> (\<exists>a b. s = a @ CHR ''/'' # b \<and> list_all (\<lambda>c. \<not> line_terminator c) a \<and> glob_match False ts b)"
proof (induction s)
  case Nil
  then show ?case by simp
next
  case (Cons c r)
  show ?case
  proof
    assume "glob_match True ts (c # r)"
    then consider "c = CHR ''/''" "glob_match False ts r" | a b where "\<not> line_terminator c" "r = a @ CHR ''/'' # b" "list_all (\<lambda>c. \<not> line_terminator c) a" "glob_match False ts b"
      using Cons by auto
    then show "\<exists>a b. c # r = a @ CHR ''/'' # b \<and> list_all (\<lambda>c. \<not> line_terminator c) a \<and> glob_match False ts b"
    proof cases
      case 1
      then have "c # r = [] @ CHR ''/'' # r" "list_all (\<lambda>c. \<not> line_terminator c) []" by simp_all
      then show ?thesis using 1 by blast
    next
      case (2 a b)
      then have "c # r = (c # a) @ CHR ''/'' # b" "list_all (\<lambda>c. \<not> line_terminator c) (c # a)" by simp_all
      then show ?thesis using 2 by blast
    qed
  next
    assume "\<exists>a b. c # r = a @ CHR ''/'' # b \<and> list_all (\<lambda>c. \<not> line_terminator c) a \<and> glob_match False ts b"
    then obtain a b where "c # r = a @ CHR ''/'' # b" "list_all (\<lambda>c. \<not> line_terminator c) a" "glob_match False ts b" by blast
    then show "glob_match True ts (c # r)" using Cons by (cases a) auto
  qed
qed

lemma glob_match_language: "glob_match False ts s \<longleftrightarrow> s \<in> glob_language ts"
proof (induction ts arbitrary: s)
  case Nil
  then show ?case by simp
next
  case (Cons t ts)
  show ?case
  proof (cases t)
    case AnyDirectories
    have "s \<in> glob_language (t # ts) \<longleftrightarrow> s \<in> glob_language ts \<or> (\<exists>a b. s = a @ CHR ''/'' # b \<and> list_all (\<lambda>c. \<not> line_terminator c) a \<and> b \<in> glob_language ts)"
    proof
      assume "s \<in> glob_language (t # ts)"
      then obtain a b where ab: "s = a @ b" "a = [] \<or> (\<exists>x. a = x @ ''/'' \<and> list_all (\<lambda>c. \<not> line_terminator c) x)" "b \<in> glob_language ts" using AnyDirectories by auto
      then show "s \<in> glob_language ts \<or> (\<exists>a b. s = a @ CHR ''/'' # b \<and> list_all (\<lambda>c. \<not> line_terminator c) a \<and> b \<in> glob_language ts)" by auto
    next
      assume "s \<in> glob_language ts \<or> (\<exists>a b. s = a @ CHR ''/'' # b \<and> list_all (\<lambda>c. \<not> line_terminator c) a \<and> b \<in> glob_language ts)"
      then consider "s = [] @ s" "s \<in> glob_language ts" | a b where "s = (a @ ''/'') @ b" "list_all (\<lambda>c. \<not> line_terminator c) a" "b \<in> glob_language ts" by auto
      then show "s \<in> glob_language (t # ts)"
      proof cases
        case 1
        then show ?thesis unfolding AnyDirectories glob_language.simps token_language.simps by blast
      next
        case (2 a b)
        then show ?thesis unfolding AnyDirectories glob_language.simps token_language.simps by blast
      qed
    qed
    then show ?thesis using directories_match [of ts s] Cons unfolding AnyDirectories by (subst glob_match.simps) blast
  next
    case AnyText
    have step: "glob_match False (AnyText # ts) r \<longleftrightarrow> r \<in> glob_language ts \<or> (case r of [] \<Rightarrow> False | c # q \<Rightarrow> \<not> line_terminator c \<and> glob_match False (AnyText # ts) q)" for r
      by (subst glob_match.simps) (simp only: Cons)
    have "s \<in> {s. glob_match False (AnyText # ts) s} \<longleftrightarrow> (\<exists>a b. s = a @ b \<and> list_all (\<lambda>c. \<not> line_terminator c) a \<and> b \<in> glob_language ts)"
      by (rule star_language) (simp only: mem_Collect_eq, rule step)
    then show ?thesis unfolding AnyText glob_language.simps token_language.simps mem_Collect_eq by blast
  next
    case AnySegment
    have step: "glob_match False (AnySegment # ts) r \<longleftrightarrow> r \<in> glob_language ts \<or> (case r of [] \<Rightarrow> False | c # q \<Rightarrow> c \<noteq> CHR ''/'' \<and> glob_match False (AnySegment # ts) q)" for r
      by (subst glob_match.simps) (simp only: Cons)
    have "s \<in> {s. glob_match False (AnySegment # ts) s} \<longleftrightarrow> (\<exists>a b. s = a @ b \<and> list_all (\<lambda>c. c \<noteq> CHR ''/'') a \<and> b \<in> glob_language ts)"
      by (rule star_language) (simp only: mem_Collect_eq, rule step)
    then show ?thesis unfolding AnySegment glob_language.simps token_language.simps mem_Collect_eq by blast
  next
    case OneCharacter
    have "s \<in> glob_language (t # ts) \<longleftrightarrow> (\<exists>c r. s = c # r \<and> c \<noteq> CHR ''/'' \<and> r \<in> glob_language ts)" unfolding OneCharacter glob_language.simps token_language.simps
    proof
      assume "s \<in> {a @ b |a b. a \<in> {[c] |c. c \<noteq> CHR ''/''} \<and> b \<in> glob_language ts}"
      then show "\<exists>c r. s = c # r \<and> c \<noteq> CHR ''/'' \<and> r \<in> glob_language ts" by auto
    next
      assume "\<exists>c r. s = c # r \<and> c \<noteq> CHR ''/'' \<and> r \<in> glob_language ts"
      then obtain c r where "s = [c] @ r" "c \<noteq> CHR ''/''" "r \<in> glob_language ts" by auto
      then show "s \<in> {a @ b |a b. a \<in> {[c] |c. c \<noteq> CHR ''/''} \<and> b \<in> glob_language ts}" by blast
    qed
    then show ?thesis unfolding OneCharacter by (subst glob_match.simps) (auto simp: Cons split: list.splits)
  next
    case (Exactly x)
    have "s \<in> glob_language (t # ts) \<longleftrightarrow> (\<exists>r. s = x # r \<and> r \<in> glob_language ts)" unfolding Exactly glob_language.simps token_language.simps by auto
    then show ?thesis unfolding Exactly by (subst glob_match.simps) (auto simp: Cons split: list.splits)
  qed
qed


text \<open>
  A glob matches a path exactly when the path, or its last segment for a pattern without a slash, belongs
  to the language of the regular expression the pattern is translated to.
\<close>

theorem glob_exact:
  "glob pattern value \<longleftrightarrow>
     (if CHR ''/'' \<in> set (glob_normalized pattern) then value else basename value) \<in> glob_language (glob_tokens (glob_normalized pattern))"
  by (simp add: glob_def Let_def glob_match_language)

section \<open>What a pattern means\<close>

text \<open>The patterns read from the left, without the translation to a regular expression.\<close>

inductive text_matches :: "string \<Rightarrow> string \<Rightarrow> bool" where
  matches_end: "text_matches [] []"
| matches_no_directory: "text_matches p s \<Longrightarrow> text_matches (''**/'' @ p) s"
| matches_directories: "text_matches p s \<Longrightarrow> list_all (\<lambda>c. \<not> line_terminator c) a \<Longrightarrow> text_matches (''**/'' @ p) (a @ ''/'' @ s)"
| matches_text: "text_matches p s \<Longrightarrow> take 1 p \<noteq> ''/'' \<Longrightarrow> list_all (\<lambda>c. \<not> line_terminator c) a \<Longrightarrow> text_matches (''**'' @ p) (a @ s)"
| matches_segment: "text_matches p s \<Longrightarrow> take 1 p \<noteq> ''*'' \<Longrightarrow> CHR ''/'' \<notin> set a \<Longrightarrow> text_matches (''*'' @ p) (a @ s)"
| matches_one: "text_matches p s \<Longrightarrow> c \<noteq> CHR ''/'' \<Longrightarrow> text_matches (''?'' @ p) (c # s)"
| matches_char: "text_matches p s \<Longrightarrow> c \<noteq> CHR ''*'' \<Longrightarrow> c \<noteq> CHR ''?'' \<Longrightarrow> text_matches (c # p) (c # s)"

definition pattern_names :: "string \<Rightarrow> string \<Rightarrow> bool" where
  "pattern_names pattern path \<longleftrightarrow>
     (\<exists>p. (slashes pattern = ''.!/'' @ p \<or> slashes pattern = p \<and> \<not> prefix ''.!/'' p)
        \<and> text_matches p (if CHR ''/'' \<in> set p then path else last (split_on CHR ''/'' path)))"

lemma star_head: "take 1 s = [c] \<longleftrightarrow> (\<exists>r. s = c # r)"
  by (cases s) auto

lemma language_append: "a \<in> token_language t \<Longrightarrow> b \<in> glob_language ts \<Longrightarrow> a @ b \<in> glob_language (t # ts)"
  by auto

lemma text_matches_tokens: "text_matches p s \<Longrightarrow> s \<in> glob_language (glob_tokens p)"
proof (induction rule: text_matches.induct)
  case (matches_no_directory p s)
  have "[] @ s \<in> glob_language (AnyDirectories # glob_tokens p)" using matches_no_directory.IH by (intro language_append) simp_all
  then show ?case by (simp del: glob_language.simps)
next
  case (matches_directories p s a)
  have "(a @ ''/'') @ s \<in> glob_language (AnyDirectories # glob_tokens p)" using matches_directories by (intro language_append) simp_all
  then show ?case by (simp del: glob_language.simps)
next
  case (matches_text p s a)
  have "a @ s \<in> glob_language (AnyText # glob_tokens p)" using matches_text by (intro language_append) simp_all
  then show ?case using matches_text.hyps(2) by (simp del: glob_language.simps)
next
  case (matches_segment p s a)
  have "a @ s \<in> glob_language (AnySegment # glob_tokens p)" using matches_segment by (intro language_append) (auto simp: list_all_iff)
  then show ?case using matches_segment.hyps(2) by (simp del: glob_language.simps)
next
  case (matches_one p s c)
  have "[c] @ s \<in> glob_language (OneCharacter # glob_tokens p)" using matches_one by (intro language_append) simp_all
  then show ?case by (simp del: glob_language.simps)
next
  case (matches_char p s c)
  have "[c] @ s \<in> glob_language (Exactly c # glob_tokens p)" using matches_char by (intro language_append) simp_all
  then show ?case using matches_char.hyps(2,3) by (simp del: glob_language.simps)
qed simp

lemma tokens_text_matches: "s \<in> glob_language (glob_tokens p) \<Longrightarrow> text_matches p s"
proof (induction p arbitrary: s rule: glob_tokens.induct)
  case (2 c p)
  consider (dirs) r where "c # p = ''**/'' @ r" | (wild) r where "c # p = ''**'' @ r" "take 1 r \<noteq> ''/''" | (segment) "c = CHR ''*''" "take 1 p \<noteq> ''*''"
    | (one) "c = CHR ''?''" | (char) "c \<noteq> CHR ''*''" "c \<noteq> CHR ''?''"
    by (cases p; cases "tl p") auto
  then show ?case
  proof cases
    case (dirs r)
    then obtain a b where ab: "s = a @ b" "a = [] \<or> (\<exists>x. a = x @ ''/'' \<and> list_all (\<lambda>c. \<not> line_terminator c) x)" "text_matches r b" using 2 by auto
    then show ?thesis unfolding dirs using matches_no_directory [OF ab(3)] matches_directories [OF ab(3)] by auto
  next
    case (wild r)
    then obtain a b where ab: "s = a @ b" "list_all (\<lambda>c. \<not> line_terminator c) a" "text_matches r b" using 2 by auto
    then show ?thesis unfolding wild(1) ab(1) using matches_text [OF ab(3) wild(2) ab(2)] by simp
  next
    case segment
    then obtain a b where ab: "s = a @ b" "CHR ''/'' \<notin> set a" "text_matches p b" using 2 by (auto simp: list_all_iff)
    then show ?thesis using matches_segment [OF ab(3) segment(2) ab(2)] segment(1) by simp
  next
    case one
    then obtain x b where ab: "s = x # b" "x \<noteq> CHR ''/''" "text_matches p b" using 2 by auto
    then show ?thesis using matches_one [OF ab(3,2)] one by simp
  next
    case char
    then obtain b where ab: "s = c # b" "text_matches p b" using 2 by auto
    then show ?thesis using matches_char [OF ab(2) char] by simp
  qed
qed (auto intro: matches_end)

lemma glob_names: "glob pattern path = pattern_names pattern path"
proof -
  have take3: "take 3 s = ''.!/'' \<longleftrightarrow> (\<exists>p. s = ''.!/'' @ p)" "prefix ''.!/'' s \<longleftrightarrow> (\<exists>p. s = ''.!/'' @ p)" for s
    by (metis append_take_drop_id append_eq_conv_conj length_Cons list.size(3) numeral_3_eq_3) (simp add: prefix_def)
  have "glob pattern path \<longleftrightarrow> text_matches (glob_normalized pattern) (if CHR ''/'' \<in> set (glob_normalized pattern) then path else last (split_on CHR ''/'' path))"
    using text_matches_tokens tokens_text_matches by (auto simp: glob_def Let_def glob_match_language basename_def)
  also have "\<dots> = pattern_names pattern path"
  proof (cases "\<exists>p. slashes pattern = ''.!/'' @ p")
    case True
    then obtain p where p: "slashes pattern = ''.!/'' @ p" by blast
    then have "glob_normalized pattern = p" by (simp add: glob_normalized_def)
    then show ?thesis unfolding pattern_names_def take3 p append_same_eq same_append_eq by blast
  next
    case False
    then have "glob_normalized pattern = slashes pattern" unfolding glob_normalized_def Let_def take3 by simp
    then show ?thesis using False unfolding pattern_names_def take3 by simp
  qed
  finally show ?thesis .
qed

section \<open>The decision\<close>

text \<open>The last entry of a list that satisfies a predicate decides.\<close>

lemma fold_last: "fold (\<lambda>x d. if P x then Some x else d) xs d = (case find P (rev xs) of Some x \<Rightarrow> Some x | None \<Rightarrow> d)"
  by (induction xs arbitrary: d) (auto simp: find_snoc split: option.splits)

definition never_included :: "inclusion_observation \<Rightarrow> inclusion_rules \<Rightarrow> bool" where
  "never_included ob rules \<longleftrightarrow>
     (let path = slashes (normalized_path ob)
      in outside_allowed_root ob \<or> symlink_cycle ob \<or> is_special ob \<or> is_symlink ob \<and> \<not> follow_symlinks rules \<or> is_directory ob
       \<or> byte_length ob > 10 * 1024 * 1024 \<or> outside_workspace path \<or> mandatory_exclusion path)"

text \<open>The last entry of a list that satisfies a predicate.\<close>

definition last_of :: "('a \<Rightarrow> bool) \<Rightarrow> 'a list \<Rightarrow> 'a \<Rightarrow> bool" where
  "last_of P xs x \<longleftrightarrow> (\<exists>ys zs. xs = ys @ x # zs \<and> P x \<and> list_all (\<lambda>z. \<not> P z) zs)"

lemma find_rev_last: "find P (rev xs) = Some x \<longleftrightarrow> last_of P xs x"
proof (induction xs rule: rev_induct)
  case (snoc y xs)
  show ?case
  proof (cases "P y")
    case True
    have "last_of P (xs @ [y]) x \<longleftrightarrow> x = y"
    proof
      assume "last_of P (xs @ [y]) x"
      then obtain ys zs where "xs @ [y] = ys @ x # zs" "list_all (\<lambda>z. \<not> P z) zs" unfolding last_of_def by blast
      then show "x = y" using True by (cases zs rule: rev_cases) auto
    next
      assume "x = y"
      then show "last_of P (xs @ [y]) x" using True unfolding last_of_def by (intro exI [of _ xs] exI [of _ "[]"]) simp
    qed
    then show ?thesis using True by auto
  next
    case False
    have "last_of P (xs @ [y]) x \<longleftrightarrow> last_of P xs x"
    proof
      assume "last_of P (xs @ [y]) x"
      then obtain ys zs where z: "xs @ [y] = ys @ x # zs" "P x" "list_all (\<lambda>z. \<not> P z) zs" unfolding last_of_def by blast
      then obtain w where "zs = w @ [y]" using False by (cases zs rule: rev_cases) auto
      then show "last_of P xs x" using z unfolding last_of_def by auto
    next
      assume "last_of P xs x"
      then obtain ys zs where "xs = ys @ x # zs" "P x" "list_all (\<lambda>z. \<not> P z) zs" unfolding last_of_def by blast
      then have "xs @ [y] = ys @ x # (zs @ [y])" "P x" "list_all (\<lambda>z. \<not> P z) (zs @ [y])" using False by simp_all
      then show "last_of P (xs @ [y]) x" unfolding last_of_def by blast
    qed
    then show ?thesis using False snoc by simp
  qed
qed (simp add: last_of_def)

definition ignore_names :: "string \<Rightarrow> string \<Rightarrow> bool" where
  "ignore_names path p \<longleftrightarrow> p \<noteq> [] \<and> take 1 p \<noteq> ''#'' \<and> pattern_names (if take 1 p = ''!'' then tl p else p) path"

lemma gitignore_last: "gitIgnoreMatch patterns path = map_option (\<lambda>p. (take 1 p \<noteq> ''!'', p)) (find (ignore_names path) (rev patterns))"
proof -
  have step: "gitignore_step path p d = (if ignore_names path p then Some (take 1 p \<noteq> ''!'', p) else d)" for p d
    by (cases p) (auto simp: gitignore_step_def ignore_names_def glob_names Let_def)
  have "fold (gitignore_step path) ps d = (case find (ignore_names path) (rev ps) of Some p \<Rightarrow> Some (take 1 p \<noteq> ''!'', p) | None \<Rightarrow> d)" for ps d
    by (induction ps arbitrary: d) (auto simp: find_snoc step split: option.splits)
  then show ?thesis by (simp add: gitIgnoreMatch_def split: option.splits)
qed

lemma first_segment: "CHR ''/'' \<notin> set w \<Longrightarrow> hd (split_on CHR ''/'' path) = w \<longleftrightarrow> path = w \<or> take (Suc (length w)) path = w @ ''/''"
proof -
  assume w: "CHR ''/'' \<notin> set w"
  show ?thesis
  proof (cases "CHR ''/'' \<in> set path")
    case True
    then obtain a b where ab: "path = a @ CHR ''/'' # b" "CHR ''/'' \<notin> set a" by (meson split_list_first)
    then have "hd (split_on CHR ''/'' path) = a" by (simp add: split_on_append)
    moreover have "path \<noteq> w" using ab(1) w by auto
    moreover have "take (Suc (length w)) path = w @ ''/'' \<longleftrightarrow> a = w"
    proof
      assume t: "take (Suc (length w)) path = w @ ''/''"
      then obtain r where "path = (w @ ''/'') @ r" by (metis append_take_drop_id)
      then have "w @ CHR ''/'' # r = a @ CHR ''/'' # b" using ab(1) by simp
      then show "a = w" using w ab(2) by (auto simp: append_eq_append_conv2 append_eq_Cons_conv Cons_eq_append_conv)
    qed (simp add: ab(1))
    ultimately show ?thesis by simp
  next
    case False
    then have "take (Suc (length w)) path \<noteq> w @ ''/''" by (metis in_set_takeD in_set_conv_decomp append_Cons append_Nil)
    then show ?thesis using False by (simp add: split_on_word)
  qed
qed

lemma mandatory_first: "mandatory_exclusion path \<longleftrightarrow> hd (split_on CHR ''/'' path) \<in> {''.git'', ''.urdira''}"
proof -
  have "hd (split_on CHR ''/'' path) = ''.git'' \<longleftrightarrow> path = ''.git'' \<or> take 5 path = ''.git/''" "hd (split_on CHR ''/'' path) = ''.urdira'' \<longleftrightarrow> path = ''.urdira'' \<or> take 8 path = ''.urdira/''"
    using first_segment [of "''.git''" path] first_segment [of "''.urdira''" path] by (simp_all add: numeral_eq_Suc del: take_Suc_Cons)
  then show ?thesis unfolding mandatory_exclusion_def insert_iff empty_iff by blast
qed

lemma boundary_exact:
  "outside_workspace path \<longleftrightarrow> prefix ''/'' path \<or> ''..'' \<in> set (split_on CHR ''/'' path)
     \<or> (\<exists>c r. path = c # '':/'' @ r \<and> (of_char c \<in> {65..90 :: nat} \<or> of_char c \<in> {97..122 :: nat}))"
proof -
  have "take 1 path = ''/'' \<longleftrightarrow> prefix ''/'' path" by (cases path) (auto simp: prefix_def)
  moreover have "drive_prefix path \<longleftrightarrow> (\<exists>c r. path = c # '':/'' @ r \<and> (of_char c \<in> {65..90 :: nat} \<or> of_char c \<in> {97..122 :: nat}))"
    by (auto simp: drive_prefix_def Let_def split: list.splits)
  ultimately show ?thesis by (simp add: outside_workspace_def)
qed

lemma media_exact: "octet_stream m \<longleftrightarrow> prefix ''application/octet-stream'' m"
proof
  assume "octet_stream m"
  then show "prefix ''application/octet-stream'' m" unfolding octet_stream_def prefix_def by (metis append_take_drop_id)
qed (auto simp: octet_stream_def prefix_def)

lemma generated_exact:
  "generated_path path \<longleftrightarrow> (\<exists>w \<in> set (butlast (split_on CHR ''/'' path)). w \<in> {''node_modules'', ''dist'', ''coverage'', ''test-results'', ''.git''})"
  by (auto simp: generated_path_def list_ex_iff)

text \<open>
  C18.  A path is included exactly when it is not outside the allowed roots, no cycle, special file or directory, no link
  unless links are followed, not above ten mebibytes, relative, without a parent segment, and not below \<open>.git\<close> or
  \<open>.urdira\<close>; when, if it is binary or below a generated directory, the last include pattern that names it is not empty; and
  when the last explicit rule that names it is an include, or no rule names it and the last gitignore pattern that names it, if
  any, is negated.  Whether a pattern names a path is the relation \<open>text_matches\<close> on the texts.  So no rule overrides a boundary or a mandatory exclusion.
  This is what the code does; docs/decisions/09 promises more for ordered includes of generated files
  (lemma \<open>ordered_include_generated\<close>) and for gitignore patterns of directories (lemma \<open>directory_pattern\<close>).
\<close>

theorem inclusion_decision:
  "included (evaluateInclusion ob rules gitignore) \<longleftrightarrow>
     (let path = slashes (normalized_path ob); words = split_on CHR ''/'' path;
          explicit = (case ordered_rules rules of Some rs \<Rightarrow> rs | None \<Rightarrow> map (Pair Exclude) (exclude_patterns rules) @ map (Pair Include) (include_patterns rules))
      in \<not> outside_allowed_root ob \<and> \<not> symlink_cycle ob \<and> \<not> is_special ob \<and> (is_symlink ob \<longrightarrow> follow_symlinks rules) \<and> \<not> is_directory ob \<and> byte_length ob \<le> 10485760
       \<and> \<not> prefix ''/'' path \<and> ''..'' \<notin> set words \<and> \<not> (\<exists>c r. path = c # '':/'' @ r \<and> (of_char c \<in> {65..90 :: nat} \<or> of_char c \<in> {97..122 :: nat}))
       \<and> hd words \<notin> {''.git'', ''.urdira''}
       \<and> (prefix ''application/octet-stream'' (media_type ob) \<or> (\<exists>w \<in> set (butlast words). w \<in> {''node_modules'', ''dist'', ''coverage'', ''test-results'', ''.git''})
          \<longrightarrow> (\<exists>p. last_of (\<lambda>p. pattern_names p path) (include_patterns rules) p \<and> p \<noteq> []))
       \<and> ((\<exists>p. last_of (\<lambda>r. pattern_names (snd r) path) explicit (Include, p))
          \<or> (\<forall>r \<in> set explicit. \<not> pattern_names (snd r) path)
            \<and> (gi_enabled gitignore \<longrightarrow> \<not> (\<exists>p. last_of (ignore_names path) (gi_patterns gitignore) p \<and> \<not> prefix ''!'' p))))"
proof -
  define path where "path = slashes (normalized_path ob)"
  define explicit where "explicit = (case ordered_rules rules of Some rs \<Rightarrow> rs | None \<Rightarrow> map (Pair Exclude) (exclude_patterns rules) @ map (Pair Include) (include_patterns rules))"
  let ?rule = "\<lambda>r :: rule_kind \<times> string. pattern_names (snd r) path"
  have rules: "explicit_rules rules = explicit" by (simp add: explicit_rules_def explicit_def split: option.splits)
  have decision: "explicit_decision rules path = find ?rule (rev explicit)"
    unfolding explicit_decision_def fold_last rules glob_names by (simp split: option.splits)
  have named: "explicitly_included rules path \<longleftrightarrow> (\<exists>p. last_of (\<lambda>p. pattern_names p path) (include_patterns rules) p \<and> p \<noteq> [])"
    unfolding explicitly_included_def matches_def glob_names find_rev_last [symmetric] by (simp split: option.splits)
  have negated: "take 1 p = ''!'' \<longleftrightarrow> prefix ''!'' p" for p by (cases p) (auto simp: prefix_def)
  have ignored: "(\<exists>p. gitIgnoreMatch (gi_patterns gitignore) path = Some (True, p)) \<longleftrightarrow> (\<exists>p. last_of (ignore_names path) (gi_patterns gitignore) p \<and> \<not> prefix ''!'' p)"
    unfolding gitignore_last find_rev_last [symmetric] negated by auto
  define L where "L = (case explicit_decision rules path of
      Some (Exclude, p) \<Rightarrow> \<lparr>included = False, inclusion_reason = ''security:workspace_exclusion'', matched_rule = Some p\<rparr>
    | Some (Include, p) \<Rightarrow> \<lparr>included = True, inclusion_reason = ''security:explicit_include'', matched_rule = Some p\<rparr>
    | None \<Rightarrow> (case (if gi_enabled gitignore then gitIgnoreMatch (gi_patterns gitignore) path else None) of
         Some (True, rule) \<Rightarrow> \<lparr>included = False, inclusion_reason = ''security:gitignore'', matched_rule = Some rule\<rparr>
       | _ \<Rightarrow> \<lparr>included = True, inclusion_reason = ''security:eligible_default'', matched_rule = None\<rparr>))"
  have "included L \<longleftrightarrow> (\<exists>p. explicit_decision rules path = Some (Include, p))
      \<or> explicit_decision rules path = None \<and> (gi_enabled gitignore \<longrightarrow> \<not> (\<exists>p. gitIgnoreMatch (gi_patterns gitignore) path = Some (True, p)))"
    unfolding L_def by (auto split: option.splits rule_kind.splits if_splits bool.splits)
  then have late: "included L \<longleftrightarrow> (\<exists>p. last_of ?rule explicit (Include, p)) \<or> (\<forall>r \<in> set explicit. \<not> ?rule r)
      \<and> (gi_enabled gitignore \<longrightarrow> \<not> (\<exists>p. last_of (ignore_names path) (gi_patterns gitignore) p \<and> \<not> prefix ''!'' p))"
    unfolding decision ignored find_rev_last find_None_iff set_rev by blast
  have "included (evaluateInclusion ob rules gitignore) \<longleftrightarrow>
    \<not> never_included ob rules \<and> (octet_stream (media_type ob) \<or> generated_path path \<longrightarrow> explicitly_included rules path) \<and> included L"
    unfolding evaluateInclusion_def Let_def path_def [symmetric] never_included_def L_def [symmetric] by (simp add: refuse_def) blast
  moreover
  define drive where "drive = (\<exists>c r. path = c # '':/'' @ r \<and> (of_char c \<in> {65..90 :: nat} \<or> of_char c \<in> {97..122 :: nat}))"
  have "\<not> never_included ob rules \<longleftrightarrow> \<not> outside_allowed_root ob \<and> \<not> symlink_cycle ob \<and> \<not> is_special ob \<and> (is_symlink ob \<longrightarrow> follow_symlinks rules) \<and> \<not> is_directory ob
      \<and> byte_length ob \<le> 10485760 \<and> \<not> prefix ''/'' path \<and> ''..'' \<notin> set (split_on CHR ''/'' path) \<and> \<not> drive \<and> hd (split_on CHR ''/'' path) \<notin> {''.git'', ''.urdira''}"
    unfolding never_included_def Let_def path_def [symmetric] boundary_exact mandatory_first drive_def [symmetric] by auto
  ultimately show ?thesis
    unfolding late named media_exact generated_exact Let_def path_def [symmetric] explicit_def [symmetric] drive_def by (simp only: conj_assoc)
qed

definition plain_file :: "string \<Rightarrow> inclusion_observation" where
  "plain_file p = \<lparr>normalized_path = p, is_symlink = False, is_directory = False, byte_length = 10, media_type = ''text/plain'',
     outside_allowed_root = False, symlink_cycle = False, is_special = False\<rparr>"

definition include_all :: inclusion_rules where
  "include_all = \<lparr>include_patterns = [''**''], exclude_patterns = [], allow_external_root = False, follow_symlinks = False, allowed_external_roots = [], ordered_rules = None\<rparr>"

theorem inclusion_decision_witness:
  "\<not> included (evaluateInclusion (plain_file ''.git/config'') include_all \<lparr>gi_enabled = False, gi_patterns = []\<rparr>)"
proof -
  have "hd (split_on CHR ''/'' (slashes (normalized_path (plain_file ''.git/config'')))) = ''.git''" by code_simp
  then show ?thesis unfolding inclusion_decision Let_def by simp
qed

text \<open>
  The prefix \<open>./\<close> of a pattern is not removed (the expression removes \<open>.!/\<close>), and a pattern with a trailing slash,
  the gitignore form for a directory, matches no file below the directory.
\<close>

lemma dot_slash_pattern: "\<not> glob ''./src/a.ts'' ''src/a.ts''" "glob ''.!/src/a.ts'' ''src/a.ts''"
  by code_simp+

lemma directory_pattern: "gitIgnoreMatch [''dist/''] ''dist/a.js'' = None" "gitIgnoreMatch [''build''] ''build/a.o'' = None"
  by code_simp+

text \<open>An include among the ordered rules does not lift the default exclusion of a generated file; one in the include list does.\<close>

lemma ordered_include_generated:
  "included (evaluateInclusion (plain_file ''dist/a.ts'') (include_all\<lparr>include_patterns := [], ordered_rules := Some [(Include, ''**'')]\<rparr>) \<lparr>gi_enabled = False, gi_patterns = []\<rparr>) = False"
  "included (evaluateInclusion (plain_file ''dist/a.ts'') include_all \<lparr>gi_enabled = False, gi_patterns = []\<rparr>) = True"
  by code_simp+

end
