(* ===== verification/Path_Safety.thy ===== *)
theory Path_Safety
  imports Watcher_Events Path_Inclusion Logical_Encoding
begin

text \<open>
  \<open>packages/security/src/paths.ts\<close> and the file-system half of \<open>inclusion.ts\<close>: workspace-relative paths,
  containment in a root, and the decision on a path after its symbolic links are followed.  The functions of
  \<open>node:path\<close> are modelled as on a POSIX platform, over text in which NFC is the identity; the file system and
  the working directory are a parameter.
\<close>

section \<open>Paths of the platform\<close>

text \<open>\<open>path.resolve\<close> walks the segments from the left; \<open>..\<close> at the root stays there.\<close>

fun walk_segments :: "string list \<Rightarrow> string list \<Rightarrow> string list" where
  "walk_segments at [] = at"
| "walk_segments at (w # ws) =
     (if w = [] \<or> w = ''.'' then walk_segments at ws
      else if w = ''..'' then walk_segments (butlast at) ws
      else walk_segments (at @ [w]) ws)"

definition is_absolute :: "string \<Rightarrow> bool" where
  "is_absolute p \<longleftrightarrow> take 1 p = ''/''"

definition segments :: "string \<Rightarrow> string list" where
  "segments p = walk_segments [] (split_on CHR ''/'' p)"

definition absolute_text :: "string list \<Rightarrow> string" where
  "absolute_text ws = CHR ''/'' # join_on CHR ''/'' ws"

definition path_resolve :: "string \<Rightarrow> string \<Rightarrow> string" where
  "path_resolve base p = absolute_text (walk_segments (if is_absolute p then [] else segments base) (split_on CHR ''/'' p))"

fun common_length :: "string list \<Rightarrow> string list \<Rightarrow> nat" where
  "common_length (v # vs) (w # ws) = (if v = w then Suc (common_length vs ws) else 0)"
| "common_length _ _ = 0"

definition path_relative :: "string \<Rightarrow> string \<Rightarrow> string" where
  "path_relative from to =
     (let f = segments from; t = segments to; k = common_length f t
      in join_on CHR ''/'' (replicate (length f - k) ''..'' @ drop k t))"

definition dirname :: "string \<Rightarrow> string" where
  "dirname p = (let d = rev (tl (dropWhile (\<lambda>c. c \<noteq> CHR ''/'') (rev p))) in if d = [] then ''/'' else d)"

definition extname :: "string \<Rightarrow> string" where
  "extname p =
     (let b = basename (strip_trailing p); dots = filter (\<lambda>i. b ! i = CHR ''.'') [0..<length b]
      in if dots = [] \<or> last dots = 0 \<or> b = ''..'' then [] else drop (last dots) b)"

section \<open>Workspace-relative paths\<close>

datatype path_error = Security string | FileSystem string

definition portable :: "string \<Rightarrow> string" where
  "portable value = collapse_slashes (slashes value)"

definition normalizeWorkspacePath :: "string \<Rightarrow> string \<Rightarrow> string \<Rightarrow> path_error + string" where
  "normalizeWorkspacePath cwd workspaceRoot candidate =
     (if CHR 0x00 \<in> set candidate then Inl (Security ''security:path_invalid'')
      else
        let raw = portable candidate
        in if take 1 raw = ''/'' \<or> drive_prefix raw then Inl (Security ''security:path_outside_workspace'')
           else
             let root = path_resolve cwd workspaceRoot; resolved = path_resolve root raw; rel = portable (path_relative root resolved)
             in if rel = ''..'' \<or> take 3 rel = ''../'' \<or> is_absolute rel \<or> sublist '':/'' rel
                then Inl (Security ''security:path_outside_workspace'')
                else Inr (if rel = ''.'' then [] else rel))"

definition isWithinRoot :: "string \<Rightarrow> string \<Rightarrow> string \<Rightarrow> bool" where
  "isWithinRoot cwd root candidate \<longleftrightarrow>
     (let rel = path_relative (path_resolve cwd root) (path_resolve cwd candidate)
      in rel = [] \<or> take 3 rel \<noteq> ''../'' \<and> rel \<noteq> ''..'' \<and> \<not> is_absolute rel)"

section \<open>The file system\<close>

text \<open>The calls the module makes; a failed call has the \<open>code\<close> of its error.\<close>

datatype file_kind = RegularFile | DirectoryFile | SymbolicLink | BlockDevice | CharacterDevice | FifoFile | SocketFile

record file_stat =
  st_kind :: file_kind
  st_size :: int

record file_system =
  fs_cwd :: string
  fs_lstat :: "string \<Rightarrow> string + file_stat"
  fs_stat :: "string \<Rightarrow> string + file_stat"
  fs_realpath :: "string \<Rightarrow> string + string"
  fs_read :: "string \<Rightarrow> string + bytes"

definition canonicalizePath :: "file_system \<Rightarrow> string \<Rightarrow> string" where
  "canonicalizePath fs value =
     (let absolute = path_resolve (fs_cwd fs) (portable value)
      in portable (case fs_realpath fs absolute of Inr canonical \<Rightarrow> canonical | Inl _ \<Rightarrow> absolute))"

definition traversalError :: "string \<Rightarrow> path_error" where
  "traversalError code = Security (if code = ''ELOOP'' then ''security:symlink_cycle'' else ''security:path_invalid'')"

definition safeLstat :: "file_system \<Rightarrow> string \<Rightarrow> path_error + file_stat option" where
  "safeLstat fs p =
     (case fs_lstat fs p of
        Inr st \<Rightarrow> Inr (Some st)
      | Inl code \<Rightarrow> if code = ''ENOENT'' then Inr None else Inl (traversalError code))"

definition isSpecialFile :: "file_stat \<Rightarrow> bool" where
  "isSpecialFile st \<longleftrightarrow> st_kind st \<in> set [BlockDevice, CharacterDevice, FifoFile, SocketFile]"

definition within_any :: "file_system \<Rightarrow> string list \<Rightarrow> string \<Rightarrow> bool" where
  "within_any fs allowed p \<longleftrightarrow> list_ex (\<lambda>base. isWithinRoot (fs_cwd fs) base p) allowed"

text \<open>The loop to the deepest ancestor that exists or lies outside the allowed roots.\<close>

function existing_ancestor :: "file_system \<Rightarrow> string list \<Rightarrow> string \<Rightarrow> path_error + string \<times> file_stat option" where
  "existing_ancestor fs allowed p =
     (case safeLstat fs p of
        Inl e \<Rightarrow> Inl e
      | Inr (Some st) \<Rightarrow> Inr (p, Some st)
      | Inr None \<Rightarrow>
          if within_any fs allowed p \<and> dirname p \<noteq> p then existing_ancestor fs allowed (dirname p) else Inr (p, None))"
  by pat_completeness auto

lemma dirname_shorter:
  "dirname p \<noteq> p \<Longrightarrow> (if is_absolute (dirname p) then length (dirname p) else length (dirname p) + 2) < (if is_absolute p then length p else length p + 2)"
proof -
  define d where "d = rev (tl (dropWhile (\<lambda>c. c \<noteq> CHR ''/'') (rev p)))"
  define x y where x_def: "x = rev (dropWhile (\<lambda>c. c \<noteq> CHR ''/'') (rev p))" and y_def: "y = rev (takeWhile (\<lambda>c. c \<noteq> CHR ''/'') (rev p))"
  have "x @ y = rev (takeWhile (\<lambda>c. c \<noteq> CHR ''/'') (rev p) @ dropWhile (\<lambda>c. c \<noteq> CHR ''/'') (rev p))" by (simp only: x_def y_def rev_append)
  then have xy: "p = x @ y" by (simp only: takeWhile_dropWhile_id rev_rev_ident)
  have x: "x = [] \<or> x = d @ ''/''"
  proof (cases "dropWhile (\<lambda>c. c \<noteq> CHR ''/'') (rev p)")
    case (Cons c r)
    then have "c = CHR ''/''" using hd_dropWhile [of "\<lambda>c. c \<noteq> CHR ''/''" "rev p"] by simp
    then show ?thesis using Cons by (simp add: d_def x_def)
  qed (simp add: x_def)
  have dir: "dirname p = (if d = [] then ''/'' else d)" by (simp add: dirname_def d_def Let_def)
  assume ne: "dirname p \<noteq> p"
  show ?thesis
  proof (cases "x = []")
    case True
    then have "dropWhile (\<lambda>c. c \<noteq> CHR ''/'') (rev p) = []" unfolding x_def by (simp only: rev_is_Nil_conv)
    then have "d = []" by (simp only: d_def list.sel rev.simps)
    moreover have "\<not> is_absolute p"
    proof
      assume "is_absolute p"
      then have "CHR ''/'' \<in> set (rev p)" by (cases p) (auto simp: is_absolute_def)
      then show False using True by (auto simp: x_def)
    qed
    ultimately show ?thesis by (simp add: dir is_absolute_def)
  next
    case False
    then have p: "p = d @ CHR ''/'' # y" using x xy by simp
    show ?thesis
    proof (cases d)
      case Nil
      then show ?thesis using p ne dir by (cases y) (simp_all add: is_absolute_def)
    next
      case (Cons c r)
      then have "dirname p = c # r" using dir by simp
      moreover have "length p = Suc (Suc (length r + length y))" "is_absolute p \<longleftrightarrow> is_absolute (c # r)" using p Cons by (simp_all add: is_absolute_def)
      ultimately show ?thesis by simp
    qed
  qed
qed

termination existing_ancestor
  by (relation "measure (\<lambda>(fs, allowed, p). if is_absolute p then length p else length p + 2)") (auto dest: dirname_shorter)

declare existing_ancestor.simps [simp del]

definition resolveSafePath :: "file_system \<Rightarrow> string \<Rightarrow> string \<Rightarrow> string list \<Rightarrow> path_error + string" where
  "resolveSafePath fs root candidate allowedExternalRoots =
     (let candidateAbsolute = path_resolve (path_resolve (fs_cwd fs) root) (portable candidate);
          allowed = map (path_resolve (fs_cwd fs)) (root # allowedExternalRoots)
      in if \<not> within_any fs allowed candidateAbsolute then Inl (Security ''security:path_outside_workspace'')
         else res_bind (existing_ancestor fs allowed candidateAbsolute) (\<lambda>(existingPath, existing).
           case existing of
             None \<Rightarrow> Inr candidateAbsolute
           | Some st \<Rightarrow>
               (case fs_realpath fs existingPath of
                  Inl code \<Rightarrow> Inl (traversalError code)
                | Inr target \<Rightarrow>
                    if \<not> within_any fs allowed target then Inl (Security ''security:path_outside_workspace'')
                    else if isSpecialFile st then Inl (Security ''security:path_invalid'')
                    else Inr candidateAbsolute)))"

section \<open>Inclusion of a file\<close>

definition binaryExtensions :: "string list" where
  "binaryExtensions = [''.7z'', ''.avi'', ''.bin'', ''.bmp'', ''.class'', ''.dll'', ''.dylib'', ''.eot'', ''.exe'', ''.gif'', ''.gz'', ''.ico'', ''.jar'', ''.jpeg'', ''.jpg'', ''.mov'', ''.mp3'', ''.mp4'', ''.o'', ''.pdf'', ''.png'', ''.so'', ''.tar'', ''.wasm'', ''.webp'', ''.woff'', ''.woff2'', ''.zip'']"

definition lower_case :: "string \<Rightarrow> string" where
  "lower_case s = map (\<lambda>c. let n = (of_char c :: nat) in if 65 \<le> n \<and> n \<le> 90 \<or> 192 \<le> n \<and> n \<le> 222 \<and> n \<noteq> 215 then char_of (n + 32) else c) s"

definition regularFileMediaType :: "file_system \<Rightarrow> string \<Rightarrow> int \<Rightarrow> string" where
  "regularFileMediaType fs p byteLength =
     (if lower_case (extname p) \<in> set binaryExtensions \<or> byteLength > 10 * 1024 * 1024 then ''application/octet-stream''
      else case fs_read fs p of
             Inl _ \<Rightarrow> ''application/octet-stream''
           | Inr bs \<Rightarrow> if 0 \<in> set bs \<or> utf8_decode bs = None then ''application/octet-stream'' else ''text/plain'')"

definition observe :: "file_system \<Rightarrow> string \<Rightarrow> bool \<Rightarrow> file_stat \<Rightarrow> string \<Rightarrow> inclusion_observation" where
  "observe fs normalizedPath symlink st content =
     \<lparr>normalized_path = normalizedPath, is_symlink = symlink, is_directory = (st_kind st = DirectoryFile), byte_length = st_size st,
      media_type = (if st_kind st = DirectoryFile then ''application/octet-stream'' else regularFileMediaType fs content (st_size st)),
      outside_allowed_root = False, symlink_cycle = False, is_special = False\<rparr>"

definition cycle_observation :: "string \<Rightarrow> inclusion_observation" where
  "cycle_observation normalizedPath =
     \<lparr>normalized_path = normalizedPath, is_symlink = True, is_directory = False, byte_length = 0, media_type = ''application/octet-stream'',
      outside_allowed_root = False, symlink_cycle = True, is_special = False\<rparr>"

definition lift_fs :: "string + 'a \<Rightarrow> path_error + 'a" where
  "lift_fs r = (case r of Inl code \<Rightarrow> Inl (FileSystem code) | Inr x \<Rightarrow> Inr x)"

definition target_allowed :: "file_system \<Rightarrow> string \<Rightarrow> inclusion_rules \<Rightarrow> string \<Rightarrow> bool" where
  "target_allowed fs root rules target =
     (let canonicalTarget = canonicalizePath fs target;
          outsideWorkspace = (\<not> isWithinRoot (fs_cwd fs) (canonicalizePath fs root) canonicalTarget);
          registeredExternal = list_ex (\<lambda>allowedRoot. isWithinRoot (fs_cwd fs) allowedRoot canonicalTarget) (map (canonicalizePath fs) (allowed_external_roots rules))
      in \<not> (outsideWorkspace \<and> (\<not> allow_external_root rules \<or> \<not> registeredExternal)))"

definition inspect_symlink :: "file_system \<Rightarrow> string \<Rightarrow> string \<Rightarrow> string \<Rightarrow> inclusion_rules \<Rightarrow> gitignore_rules \<Rightarrow> path_error + inclusion_result" where
  "inspect_symlink fs root absolute normalizedPath rules gitignore =
     (if \<not> follow_symlinks rules then Inr (refuse ''security:symlink_forbidden'')
      else case fs_realpath fs absolute of
             Inl _ \<Rightarrow> Inr (evaluateInclusion (cycle_observation normalizedPath) rules gitignore)
           | Inr target \<Rightarrow>
               if \<not> target_allowed fs root rules target then Inr (refuse ''security:external_root_forbidden'')
               else res_bind (lift_fs (fs_stat fs absolute)) (\<lambda>targetStat.
                 if isSpecialFile targetStat then Inr (refuse ''security:path_invalid'')
                 else Inr (evaluateInclusion (observe fs normalizedPath True targetStat target) rules gitignore)))"

definition inspectInclusionPath :: "file_system \<Rightarrow> string \<Rightarrow> string \<Rightarrow> inclusion_rules \<Rightarrow> gitignore_rules \<Rightarrow> path_error + inclusion_result" where
  "inspectInclusionPath fs root candidate rules gitignore =
     res_bind (normalizeWorkspacePath (fs_cwd fs) root candidate) (\<lambda>normalizedPath.
       let absolute = path_resolve (path_resolve (fs_cwd fs) root) candidate
       in res_bind (lift_fs (fs_lstat fs absolute)) (\<lambda>link.
            if st_kind link = SymbolicLink then inspect_symlink fs root absolute normalizedPath rules gitignore
            else if isSpecialFile link then Inr (refuse ''security:path_invalid'')
            else Inr (evaluateInclusion (observe fs normalizedPath False link absolute) rules gitignore)))"

definition assertAllowedExternalRoot :: "file_system \<Rightarrow> string \<Rightarrow> string list \<Rightarrow> path_error + unit" where
  "assertAllowedExternalRoot fs root installationRoots =
     (let observed = canonicalizePath fs root
      in if list_ex (\<lambda>registered. canonicalizePath fs registered = observed) installationRoots then Inr ()
         else Inl (Security ''security:external_root_forbidden''))"

end
