(* ===== verification/Path_Containment.thy ===== *)
theory Path_Containment
  imports Path_Safety
begin

text \<open>
  What the path functions guarantee: containment is the prefix order on segments, a normalised
  workspace path stays below the workspace, and an included or resolved path leads to an allowed root.
\<close>

section \<open>Segments\<close>

definition plain_segments :: "string list \<Rightarrow> bool" where
  "plain_segments ws \<longleftrightarrow> (\<forall>w \<in> set ws. w \<noteq> [] \<and> w \<noteq> ''.'' \<and> w \<noteq> ''..'' \<and> CHR ''/'' \<notin> set w)"

lemma split_on_words: "w \<in> set (split_on sep s) \<Longrightarrow> sep \<notin> set w"
  by (induction s arbitrary: w) (auto split: if_splits list.splits)

lemma split_on_chars: "w \<in> set (split_on sep s) \<Longrightarrow> set w \<subseteq> set s"
proof (induction s arbitrary: w)
  case (Cons c s)
  obtain v vs where "split_on sep s = v # vs" by (cases "split_on sep s") auto
  then show ?case using Cons.prems Cons.IH [of v] Cons.IH [of w] by (auto split: if_splits)
qed simp

lemma walk_plain: "plain_segments at \<Longrightarrow> \<forall>w \<in> set ws. CHR ''/'' \<notin> set w \<Longrightarrow> plain_segments (walk_segments at ws)"
proof (induction ws arbitrary: at)
  case (Cons w ws)
  have "plain_segments (butlast at)" using Cons.prems(1) in_set_butlastD unfolding plain_segments_def by fast
  moreover have "plain_segments (at @ [w])" if "w \<noteq> []" "w \<noteq> ''.''" "w \<noteq> ''..''" using Cons.prems that by (simp add: plain_segments_def)
  ultimately show ?case using Cons by simp
qed simp

lemma walk_append: "plain_segments ws \<Longrightarrow> walk_segments at ws = at @ ws"
  by (induction at ws rule: walk_segments.induct) (auto simp: plain_segments_def)

lemma segments_plain: "plain_segments (segments p)"
  unfolding segments_def by (rule walk_plain) (auto simp: plain_segments_def dest: split_on_words)

lemma segments_text: "plain_segments ws \<Longrightarrow> segments (absolute_text ws) = ws"
proof (cases "ws = []")
  case False
  assume "plain_segments ws"
  then show ?thesis using False walk_append [of ws "[]"] by (simp add: segments_def absolute_text_def split_on_join plain_segments_def)
qed (simp add: segments_def absolute_text_def)

lemma walk_split_plain: "plain_segments at \<Longrightarrow> plain_segments (walk_segments at (split_on CHR ''/'' p))"
  by (rule walk_plain) (auto dest: split_on_words)

lemma segments_resolve: "segments (path_resolve base p) = walk_segments (if is_absolute p then [] else segments base) (split_on CHR ''/'' p)"
  unfolding path_resolve_def by (rule segments_text [OF walk_split_plain]) (simp add: segments_plain plain_segments_def [of "[]"])

text \<open>A walk keeps a part of where it started and adds segments of its own.\<close>

lemma walk_form: "\<exists>j us. j \<le> length at \<and> walk_segments at ws = take j at @ us \<and> set us \<subseteq> set ws"
proof (induction at ws rule: walk_segments.induct)
  case (1 at)
  show ?case by (rule exI [of _ "length at"], rule exI [of _ "[]"]) simp
next
  case (2 at w ws)
  consider "w = [] \<or> w = ''.''" | "w = ''..''" | "w \<noteq> []" "w \<noteq> ''.''" "w \<noteq> ''..''" by blast
  then show ?case
  proof cases
    case 1
    then obtain j us where "j \<le> length at" "walk_segments at ws = take j at @ us" "set us \<subseteq> set ws" using 2(1) by blast
    then show ?thesis using 1 by (intro exI [of _ j] exI [of _ us]) auto
  next
    case 2
    then obtain j us where j: "j \<le> length (butlast at)" "walk_segments (butlast at) ws = take j (butlast at) @ us" "set us \<subseteq> set ws" using "2.IH"(2) by auto
    then have "j \<le> length at - 1" by simp
    then have "take j (butlast at) = take j at" by (simp add: butlast_conv_take min_absorb1)
    then show ?thesis using 2 j by (intro exI [of _ j] exI [of _ us]) auto
  next
    case 3
    then obtain j us where j: "j \<le> length (at @ [w])" "walk_segments (at @ [w]) ws = take j (at @ [w]) @ us" "set us \<subseteq> set ws" using "2.IH"(3) by auto
    show ?thesis
    proof (cases "j \<le> length at")
      case True
      then show ?thesis using 3 j by (intro exI [of _ j] exI [of _ us]) auto
    next
      case False
      then have "take j (at @ [w]) = at @ [w]" using j(1) by simp
      then show ?thesis using 3 j by (intro exI [of _ "length at"] exI [of _ "w # us"]) auto
    qed
  qed
qed

section \<open>Relative paths\<close>

lemma common_length_take: "take (common_length f t) f = take (common_length f t) t \<and> common_length f t \<le> length f \<and> common_length f t \<le> length t"
  by (induction f t rule: common_length.induct) auto

lemma common_length_prefix: "prefix f t \<longleftrightarrow> common_length f t = length f"
  by (induction f t rule: common_length.induct) auto

lemma common_length_least: "take j f = take j t \<Longrightarrow> j \<le> length f \<Longrightarrow> j \<le> length t \<Longrightarrow> j \<le> common_length f t"
proof (induction f t arbitrary: j rule: common_length.induct)
  case (1 v vs w ws)
  then show ?case by (cases j) auto
qed auto

lemma climbs_text:
  assumes "\<forall>w \<in> set vs. CHR ''/'' \<notin> set w" and "vs \<noteq> []"
  shows "join_on CHR ''/'' vs = ''..'' \<or> take 3 (join_on CHR ''/'' vs) = ''../'' \<longleftrightarrow> hd vs = ''..''"
proof
  have split: "split_on CHR ''/'' (join_on CHR ''/'' vs) = vs" using assms by (intro split_on_join) auto
  assume "join_on CHR ''/'' vs = ''..'' \<or> take 3 (join_on CHR ''/'' vs) = ''../''"
  then show "hd vs = ''..''"
  proof
    assume "join_on CHR ''/'' vs = ''..''"
    then show ?thesis using split split_on_word [of "CHR ''/''" "''..''"] by auto
  next
    assume a: "take 3 (join_on CHR ''/'' vs) = ''../''"
    define r where "r = drop 3 (join_on CHR ''/'' vs)"
    have "join_on CHR ''/'' vs = ''..'' @ CHR ''/'' # r" using append_take_drop_id [of 3 "join_on CHR ''/'' vs"] a by (simp add: r_def)
    then have "vs = ''..'' # split_on CHR ''/'' r" using split split_on_append [of "CHR ''/''" "''..''" r] by simp
    then show ?thesis by simp
  qed
next
  assume "hd vs = ''..''"
  then show "join_on CHR ''/'' vs = ''..'' \<or> take 3 (join_on CHR ''/'' vs) = ''../''"
    using assms(2) by (cases vs; cases "tl vs") auto
qed

lemma join_absolute: "\<forall>w \<in> set vs. w \<noteq> [] \<and> CHR ''/'' \<notin> set w \<Longrightarrow> \<not> is_absolute (join_on CHR ''/'' vs)"
proof (cases vs)
  case (Cons w r)
  assume "\<forall>w \<in> set vs. w \<noteq> [] \<and> CHR ''/'' \<notin> set w"
  then obtain c u where "w = c # u" "c \<noteq> CHR ''/''" using Cons by (cases w) auto
  then show ?thesis using Cons by (cases r) (auto simp: is_absolute_def)
qed (simp add: is_absolute_def)

lemma join_Nil: "\<forall>w \<in> set vs. w \<noteq> [] \<Longrightarrow> join_on sep vs = [] \<longleftrightarrow> vs = []"
  by (cases vs; cases "tl vs") auto

definition relative_segments :: "string list \<Rightarrow> string list \<Rightarrow> string list" where
  "relative_segments f t = replicate (length f - common_length f t) ''..'' @ drop (common_length f t) t"

lemma path_relative_segments: "path_relative a b = join_on CHR ''/'' (relative_segments (segments a) (segments b))"
  by (simp add: path_relative_def relative_segments_def Let_def)

lemma relative_words: "plain_segments t \<Longrightarrow> \<forall>w \<in> set (relative_segments f t). w \<noteq> [] \<and> CHR ''/'' \<notin> set w"
proof
  fix w
  assume t: "plain_segments t" and "w \<in> set (relative_segments f t)"
  then have "w = ''..'' \<or> w \<in> set (drop (common_length f t) t)" by (auto simp: relative_segments_def)
  then have "w = ''..'' \<or> w \<in> set t" using in_set_dropD by fast
  then show "w \<noteq> [] \<and> CHR ''/'' \<notin> set w"
  proof
    assume "w \<in> set t"
    then show ?thesis using t unfolding plain_segments_def by blast
  qed simp
qed

lemma relative_climbs:
  assumes "plain_segments t"
  shows "join_on CHR ''/'' (relative_segments f t) = ''..'' \<or> take 3 (join_on CHR ''/'' (relative_segments f t)) = ''../'' \<longleftrightarrow> \<not> prefix f t"
proof (cases "relative_segments f t = []")
  case True
  then have "prefix f t" using common_length_take [of f t] by (simp add: relative_segments_def common_length_prefix)
  then show ?thesis using True by simp
next
  case False
  have "join_on CHR ''/'' (relative_segments f t) = ''..'' \<or> take 3 (join_on CHR ''/'' (relative_segments f t)) = ''../'' \<longleftrightarrow> hd (relative_segments f t) = ''..''"
    using relative_words [OF assms] False by (intro climbs_text) auto
  also have "\<dots> \<longleftrightarrow> common_length f t \<noteq> length f"
  proof (cases "common_length f t = length f")
    case True
    then have "relative_segments f t = drop (length f) t" by (simp add: relative_segments_def)
    then have "hd (relative_segments f t) \<in> set t" using hd_in_set [OF False] in_set_dropD by metis
    then show ?thesis using True assms by (auto simp: plain_segments_def)
  next
    case neq: False
    then obtain m where "length f - common_length f t = Suc m" using common_length_take [of f t] by (metis Suc_diff_Suc le_neq_implies_less)
    then show ?thesis using neq by (simp add: relative_segments_def)
  qed
  finally show ?thesis by (simp add: common_length_prefix)
qed

lemma within_segments: "isWithinRoot cwd root candidate \<longleftrightarrow> prefix (segments (path_resolve cwd root)) (segments (path_resolve cwd candidate))"
proof -
  let ?f = "segments (path_resolve cwd root)" and ?t = "segments (path_resolve cwd candidate)"
  have rel: "path_relative (path_resolve cwd root) (path_resolve cwd candidate) = join_on CHR ''/'' (relative_segments ?f ?t)" by (rule path_relative_segments)
  have "\<not> is_absolute (join_on CHR ''/'' (relative_segments ?f ?t))" using relative_words [OF segments_plain] by (intro join_absolute) blast
  then show ?thesis unfolding isWithinRoot_def Let_def rel using relative_climbs [OF segments_plain, of ?f "path_resolve cwd candidate"] by auto
qed

section \<open>Workspace paths\<close>

lemma join_words_clean: "\<forall>w \<in> set vs. w \<noteq> [] \<and> CHR ''/'' \<notin> set w \<Longrightarrow> no_double_slash (join_on CHR ''/'' vs)"
proof (induction "CHR ''/''" vs rule: join_on.induct)
  case (2 w)
  then show ?case by (simp add: successively_conv_nth) (metis nth_mem Suc_lessD)
next
  case (3 w v vs)
  have w: "no_double_slash w" "w \<noteq> []" "last w \<noteq> CHR ''/''" using 3(2) by (simp_all add: successively_conv_nth) (metis nth_mem Suc_lessD, metis last_in_set)
  have "hd (join_on CHR ''/'' (v # vs)) \<noteq> CHR ''/''" using join_absolute [of "v # vs"] join_Nil [of "v # vs" "CHR ''/''"] 3(2)
    by (cases "join_on CHR ''/'' (v # vs)") (auto simp: is_absolute_def)
  then show ?case using 3 w by (simp add: successively_append_iff successively_Cons)
qed simp

lemma join_chars: "set (join_on sep vs) \<subseteq> insert sep (\<Union>w \<in> set vs. set w)"
  by (induction sep vs rule: join_on.induct) auto

lemma portable_id: "CHR 92 \<notin> set s \<Longrightarrow> no_double_slash s \<Longrightarrow> portable s = s"
proof -
  assume "CHR 92 \<notin> set s" "no_double_slash s"
  moreover from this(1) have "slashes s = s" unfolding slashes_def by (intro map_idI) auto
  ultimately show ?thesis by (simp add: portable_def collapse_slashes_id)
qed

lemma portable_chars: "CHR 92 \<notin> set (portable s)" "set (portable s) \<subseteq> insert CHR ''/'' (set s)"
  by (auto simp: portable_def set_collapse_slashes slashes_def)

text \<open>The relative path of a walk that starts at the root consists of segments the walk has read.\<close>

lemma relative_walk:
  fixes at ws
  defines "t \<equiv> walk_segments at ws"
  shows "set (drop (common_length at t) t) \<subseteq> set ws"
proof -
  obtain j us where j: "j \<le> length at" "t = take j at @ us" "set us \<subseteq> set ws" using walk_form unfolding t_def by blast
  then have "j \<le> common_length at t" by (intro common_length_least) (simp_all add: min_absorb1)
  then have "drop (common_length at t) t = drop (common_length at t - j) us" using j by simp
  then show ?thesis using j(3) set_drop_subset by fastforce
qed

definition walked_target :: "string \<Rightarrow> string \<Rightarrow> string \<Rightarrow> string list" where
  "walked_target cwd root candidate = walk_segments (segments (path_resolve cwd root)) (split_on CHR ''/'' (portable candidate))"

lemma portable_relative:
  assumes "\<not> is_absolute (portable c)"
  shows "portable (path_relative r (path_resolve r (portable c))) = join_on CHR ''/'' (relative_segments (segments r) (walk_segments (segments r) (split_on CHR ''/'' (portable c))))"
    (is "_ = join_on _ (relative_segments ?f ?t)")
proof -
  have t: "segments (path_resolve r (portable c)) = ?t" "plain_segments ?t" using assms by (simp_all add: segments_resolve walk_split_plain segments_plain)
  have words: "CHR 92 \<notin> set w" if "w \<in> set (relative_segments ?f ?t)" for w
  proof -
    have "w = ''..'' \<or> w \<in> set (split_on CHR ''/'' (portable c))"
      using that relative_walk [of ?f "split_on CHR ''/'' (portable c)"] by (auto simp: relative_segments_def split: if_splits)
    then show ?thesis using split_on_chars portable_chars(1) [of c] by auto
  qed
  then have "CHR 92 \<notin> set (join_on CHR ''/'' (relative_segments ?f ?t))" using join_chars [of "CHR ''/''" "relative_segments ?f ?t"] by auto
  moreover have "no_double_slash (join_on CHR ''/'' (relative_segments ?f ?t))" using relative_words [OF t(2)] by (intro join_words_clean) blast
  ultimately show ?thesis unfolding path_relative_segments t(1) by (rule portable_id)
qed

lemma normalizeWorkspacePath_segments:
  "normalizeWorkspacePath cwd root candidate =
     (if CHR 0x00 \<in> set candidate then Inl (Security ''security:path_invalid'')
      else if is_absolute (portable candidate) \<or> drive_prefix (portable candidate) then Inl (Security ''security:path_outside_workspace'')
      else
        let at = segments (path_resolve cwd root); to = walked_target cwd root candidate; rel = join_on CHR ''/'' (drop (length at) to)
        in if prefix at to \<and> \<not> sublist '':/'' rel then Inr rel else Inl (Security ''security:path_outside_workspace''))"
proof (cases "CHR 0x00 \<in> set candidate \<or> is_absolute (portable candidate) \<or> drive_prefix (portable candidate)")
  case True
  then show ?thesis by (auto simp: normalizeWorkspacePath_def is_absolute_def Let_def)
next
  case False
  define at to where "at = segments (path_resolve cwd root)" and "to = walked_target cwd root candidate"
  define rel where "rel = join_on CHR ''/'' (relative_segments at to)"
  have to: "plain_segments to" unfolding to_def walked_target_def by (rule walk_split_plain [OF segments_plain])
  have rel: "portable (path_relative (path_resolve cwd root) (path_resolve (path_resolve cwd root) (portable candidate))) = rel"
    using portable_relative [of candidate "path_resolve cwd root"] False by (simp add: rel_def at_def to_def walked_target_def)
  have words: "\<forall>w \<in> set (relative_segments at to). w \<noteq> [] \<and> CHR ''/'' \<notin> set w" by (rule relative_words [OF to])
  have abs: "\<not> is_absolute rel" unfolding rel_def by (rule join_absolute [OF words])
  have climb: "rel = ''..'' \<or> take 3 rel = ''../'' \<longleftrightarrow> \<not> prefix at to" unfolding rel_def by (rule relative_climbs [OF to])
  have "normalizeWorkspacePath cwd root candidate = (if \<not> prefix at to \<or> sublist '':/'' rel then Inl (Security ''security:path_outside_workspace'') else Inr (if rel = ''.'' then [] else rel))"
    using False abs climb unfolding normalizeWorkspacePath_def Let_def rel by (auto simp: is_absolute_def)
  moreover have "rel = join_on CHR ''/'' (drop (length at) to) \<and> rel \<noteq> ''.''" if "prefix at to"
  proof
    have eq: "relative_segments at to = drop (length at) to" using that by (simp add: relative_segments_def common_length_prefix)
    show "rel = join_on CHR ''/'' (drop (length at) to)" by (simp add: rel_def eq)
    show "rel \<noteq> ''.''"
    proof
      assume dot: "rel = ''.''"
      then have "relative_segments at to \<noteq> []" unfolding rel_def by auto
      then have "split_on CHR ''/'' rel = drop (length at) to" unfolding rel_def eq [symmetric] using words by (intro split_on_join) auto
      then have "drop (length at) to = [''.'']" using dot split_on_word [of "CHR ''/''" "''.''"] by simp
      then have "''.'' \<in> set (drop (length at) to)" by simp
      then show False using to in_set_dropD unfolding plain_segments_def by fast
    qed
  qed
  ultimately show ?thesis using False by (auto simp: Let_def at_def to_def)
qed

lemma drive_has_colon: "drive_prefix s \<Longrightarrow> sublist '':/'' s"
proof -
  assume "drive_prefix s"
  then obtain c r where "s = [c] @ '':/'' @ r" by (auto simp: drive_prefix_def split: list.splits)
  then show ?thesis unfolding sublist_def by blast
qed



section \<open>Resolved paths\<close>

lemma existing_ancestor_found:
  "existing_ancestor fs allowed p = Inr (e, x) \<Longrightarrow>
   \<exists>n. e = (dirname ^^ n) p \<and> (\<forall>i < n. fs_lstat fs ((dirname ^^ i) p) = Inl ''ENOENT'' \<and> within_any fs allowed ((dirname ^^ i) p))
     \<and> (case x of Some st \<Rightarrow> fs_lstat fs e = Inr st | None \<Rightarrow> fs_lstat fs e = Inl ''ENOENT'' \<and> (\<not> within_any fs allowed e \<or> dirname e = e))"
proof (induction fs allowed p rule: existing_ancestor.induct)
  case (1 fs allowed p)
  show ?case
  proof (cases "\<exists>st. fs_lstat fs p = Inr st \<or> \<not> (within_any fs allowed p \<and> dirname p \<noteq> p)")
    case True
    then have "e = p" "case x of Some st \<Rightarrow> fs_lstat fs e = Inr st | None \<Rightarrow> fs_lstat fs e = Inl ''ENOENT'' \<and> (\<not> within_any fs allowed e \<or> dirname e = e)"
      using 1(2) by (auto simp: existing_ancestor.simps [of fs allowed p] safeLstat_def split: sum.splits option.splits if_splits)
    then show ?thesis by (intro exI [of _ 0]) simp
  next
    case False
    then have lost: "fs_lstat fs p = Inl ''ENOENT''" "within_any fs allowed p" "dirname p \<noteq> p"
      using 1(2) by (auto simp: existing_ancestor.simps [of fs allowed p] safeLstat_def split: sum.splits option.splits if_splits)
    then have miss: "safeLstat fs p = Inr None" by (simp add: safeLstat_def)
    have "existing_ancestor fs allowed (dirname p) = Inr (e, x)" using 1(2) lost miss by (simp add: existing_ancestor.simps [of fs allowed p])
    from 1(1) [OF miss refl conjI [OF lost(2,3)] this]
    obtain n where n: "e = (dirname ^^ n) (dirname p)" "\<forall>i < n. fs_lstat fs ((dirname ^^ i) (dirname p)) = Inl ''ENOENT'' \<and> within_any fs allowed ((dirname ^^ i) (dirname p))"
      "case x of Some st \<Rightarrow> fs_lstat fs e = Inr st | None \<Rightarrow> fs_lstat fs e = Inl ''ENOENT'' \<and> (\<not> within_any fs allowed e \<or> dirname e = e)" by blast
    have "fs_lstat fs ((dirname ^^ i) p) = Inl ''ENOENT'' \<and> within_any fs allowed ((dirname ^^ i) p)" if "i < Suc n" for i
      using that n(2) lost by (cases i) (simp_all add: funpow_swap1 del: funpow.simps(2), simp_all add: funpow_Suc_right del: funpow.simps(2))
    then show ?thesis using n by (intro exI [of _ "Suc n"]) (simp add: funpow_Suc_right del: funpow.simps(2))
  qed
qed

text \<open>
  C16.  A path that \<open>resolveSafePath\<close> returns is the absolute candidate and lies in an allowed root, and going up from it
  over missing entries one reaches either an existing entry that is no special file and whose real path lies in an
  allowed root, or the border of the allowed roots.
\<close>

theorem safe_path_contained:
  assumes "resolveSafePath fs root candidate external = Inr p"
  defines "allowed \<equiv> map (path_resolve (fs_cwd fs)) (root # external)"
  shows "p = path_resolve (path_resolve (fs_cwd fs) root) (portable candidate) \<and> within_any fs allowed p
    \<and> (\<exists>n. (\<forall>i < n. fs_lstat fs ((dirname ^^ i) p) = Inl ''ENOENT'')
        \<and> ((\<exists>st target. fs_lstat fs ((dirname ^^ n) p) = Inr st \<and> \<not> isSpecialFile st
               \<and> fs_realpath fs ((dirname ^^ n) p) = Inr target \<and> within_any fs allowed target)
           \<or> fs_lstat fs ((dirname ^^ n) p) = Inl ''ENOENT'' \<and> (\<not> within_any fs allowed ((dirname ^^ n) p) \<or> dirname ((dirname ^^ n) p) = (dirname ^^ n) p)))"
proof -
  define abs where "abs = path_resolve (path_resolve (fs_cwd fs) root) (portable candidate)"
  obtain e x where run: "within_any fs allowed abs" "existing_ancestor fs allowed abs = Inr (e, x)"
    and rest: "(case x of None \<Rightarrow> Inr abs | Some st \<Rightarrow>
      (case fs_realpath fs e of Inl code \<Rightarrow> Inl (traversalError code)
       | Inr target \<Rightarrow> if \<not> within_any fs allowed target then Inl (Security ''security:path_outside_workspace'')
           else if isSpecialFile st then Inl (Security ''security:path_invalid'') else Inr abs)) = Inr p"
    using assms(1) unfolding resolveSafePath_def Let_def allowed_def [symmetric] abs_def [symmetric]
    by (auto simp: res_bind_Inr_iff split: if_splits)
  have final: "case x of None \<Rightarrow> p = abs | Some st \<Rightarrow> p = abs \<and> \<not> isSpecialFile st \<and> (\<exists>target. fs_realpath fs e = Inr target \<and> within_any fs allowed target)"
    using rest by (cases x; cases "fs_realpath fs e") (simp_all split: if_splits)
  obtain n where n: "e = (dirname ^^ n) abs" "\<forall>i < n. fs_lstat fs ((dirname ^^ i) abs) = Inl ''ENOENT''"
    "case x of Some st \<Rightarrow> fs_lstat fs e = Inr st | None \<Rightarrow> fs_lstat fs e = Inl ''ENOENT'' \<and> (\<not> within_any fs allowed e \<or> dirname e = e)"
    using existing_ancestor_found [OF run(2)] by blast
  have p: "p = abs" using final by (auto split: option.splits)
  show ?thesis
  proof (intro conjI exI [of _ n])
    show "p = path_resolve (path_resolve (fs_cwd fs) root) (portable candidate)" using p by (simp add: abs_def)
    show "within_any fs allowed p" using p run(1) by simp
    show "\<forall>i < n. fs_lstat fs ((dirname ^^ i) p) = Inl ''ENOENT''" using p n(2) by simp
    show "(\<exists>st target. fs_lstat fs ((dirname ^^ n) p) = Inr st \<and> \<not> isSpecialFile st \<and> fs_realpath fs ((dirname ^^ n) p) = Inr target \<and> within_any fs allowed target)
      \<or> fs_lstat fs ((dirname ^^ n) p) = Inl ''ENOENT'' \<and> (\<not> within_any fs allowed ((dirname ^^ n) p) \<or> dirname ((dirname ^^ n) p) = (dirname ^^ n) p)"
      using n(1,3) final p by (cases x) auto
  qed
qed

text \<open>
  A file system in which \<open>/ws\<close> is a directory, \<open>/ws/out\<close> a link to \<open>/etc\<close> with a file below it, \<open>/ws/dev\<close> a link to the
  device \<open>/ws/null\<close>, \<open>/ws/b.ts\<close> a link to \<open>/ws/a.ts\<close> and \<open>/tmp/ws\<close> a workspace below the linked \<open>/tmp\<close>.
\<close>

definition sample_fs :: file_system where
  "sample_fs = \<lparr>fs_cwd = ''/'',
     fs_lstat = (\<lambda>p. if p \<in> set [''/ws'', ''/tmp/ws'', ''/tmp/ws/a''] then Inr \<lparr>st_kind = DirectoryFile, st_size = 0\<rparr>
       else if p \<in> set [''/ws/out'', ''/ws/dev'', ''/ws/b.ts''] then Inr \<lparr>st_kind = SymbolicLink, st_size = 4\<rparr>
       else if p \<in> set [''/ws/a.ts'', ''/ws/out/passwd''] then Inr \<lparr>st_kind = RegularFile, st_size = 0\<rparr> else Inl ''ENOENT''),
     fs_stat = (\<lambda>p. Inr \<lparr>st_kind = (if p = ''/ws/dev'' then CharacterDevice else if p = ''/ws/b.ts'' then RegularFile else DirectoryFile), st_size = 0\<rparr>),
     fs_realpath = (\<lambda>p. Inr (if take 7 p = ''/ws/out'' then ''/etc'' @ drop 7 p else if p = ''/ws/dev'' then ''/ws/null'' else if p = ''/ws/b.ts'' then ''/ws/a.ts'' else if take 4 p = ''/tmp'' then ''/private'' @ p else p)),
     fs_read = (\<lambda>p. Inr [])\<rparr>"

theorem safe_path_contained_witness:
  "resolveSafePath sample_fs ''/ws'' ''new/x'' [] = Inr ''/ws/new/x''
   \<and> within_any sample_fs [''/ws''] ''/ws/new/x''
   \<and> resolveSafePath sample_fs ''/ws'' ''out/x'' [] = Inl (Security ''security:path_outside_workspace'')"
proof -
  have run: "resolveSafePath sample_fs ''/ws'' ''new/x'' [] = Inr ''/ws/new/x''" by code_simp
  moreover have "resolveSafePath sample_fs ''/ws'' ''out/x'' [] = Inl (Security ''security:path_outside_workspace'')" by code_simp
  moreover have "map (path_resolve (fs_cwd sample_fs)) [''/ws''] = [''/ws'']" by code_simp
  moreover have "within_any sample_fs (map (path_resolve (fs_cwd sample_fs)) [''/ws'']) ''/ws/new/x''"
    using safe_path_contained [OF run] by blast
  ultimately show ?thesis by simp
qed

text \<open>
  The roots are compared as written while the target is resolved: below a root that is reached through a symbolic
  link every existing path is refused.
\<close>

lemma linked_root_refused: "resolveSafePath sample_fs ''/tmp/ws'' ''a'' [] = Inl (Security ''security:path_outside_workspace'')"
  by code_simp

section \<open>Inspected paths\<close>

lemma included_not_never: "included (evaluateInclusion ob rules gitignore) \<Longrightarrow> \<not> never_included ob rules"
  by (auto simp: evaluateInclusion_def never_included_def Let_def refuse_def split: if_splits)

text \<open>
  C14.  An inspected path that is included was normalised and does not start with a mandatorily excluded segment.  Its entry is
  neither a directory nor a special file and is not above ten mebibytes; when it is a symbolic link, this holds of the file
  the link leads to, links are followed only when the rules allow it, and the real target lies, after canonicalisation, in the
  workspace or, when external roots are allowed, in a registered one.  Only the last segment of the path is examined for being
  a link: docs/decisions/09 asks for the fully resolved target, but a file below a linked directory is
  included wherever it is (lemma \<open>linked_directory_unchecked\<close>).
\<close>

theorem inspected_path_contained:
  assumes "inspectInclusionPath fs root candidate rules gitignore = Inr r" and "included r"
  shows "\<exists>np link. normalizeWorkspacePath (fs_cwd fs) root candidate = Inr np \<and> hd (split_on CHR ''/'' (slashes np)) \<notin> {''.git'', ''.urdira''}
    \<and> fs_lstat fs (path_resolve (path_resolve (fs_cwd fs) root) candidate) = Inr link
    \<and> (if st_kind link = SymbolicLink
       then follow_symlinks rules \<and> (\<exists>target st. fs_realpath fs (path_resolve (path_resolve (fs_cwd fs) root) candidate) = Inr target
         \<and> (isWithinRoot (fs_cwd fs) (canonicalizePath fs root) (canonicalizePath fs target)
            \<or> allow_external_root rules \<and> (\<exists>e. e \<in> set (allowed_external_roots rules) \<and> isWithinRoot (fs_cwd fs) (canonicalizePath fs e) (canonicalizePath fs target)))
         \<and> fs_stat fs (path_resolve (path_resolve (fs_cwd fs) root) candidate) = Inr st
         \<and> st_kind st \<notin> {DirectoryFile, BlockDevice, CharacterDevice, FifoFile, SocketFile} \<and> st_size st \<le> 10485760)
       else st_kind link \<notin> {DirectoryFile, BlockDevice, CharacterDevice, FifoFile, SocketFile} \<and> st_size link \<le> 10485760)"
proof -
  let ?abs = "path_resolve (path_resolve (fs_cwd fs) root) candidate"
  obtain np link where np: "normalizeWorkspacePath (fs_cwd fs) root candidate = Inr np" "fs_lstat fs ?abs = Inr link"
    and res: "(if st_kind link = SymbolicLink then inspect_symlink fs root ?abs np rules gitignore
      else if isSpecialFile link then Inr (refuse ''security:path_invalid'') else Inr (evaluateInclusion (observe fs np False link ?abs) rules gitignore)) = Inr r"
    using assms(1) by (auto simp: inspectInclusionPath_def Let_def lift_fs_def res_bind_Inr_iff split: sum.splits)
  show ?thesis
  proof (cases "st_kind link = SymbolicLink")
    case False
    then have inc: "\<not> isSpecialFile link" "included (evaluateInclusion (observe fs np False link ?abs) rules gitignore)"
      using res assms(2) by (auto simp: refuse_def split: if_splits)
    then show ?thesis using np False included_not_never [OF inc(2)] by (auto simp: never_included_def observe_def Let_def isSpecialFile_def mandatory_first)
  next
    case True
    then have sym: "inspect_symlink fs root ?abs np rules gitignore = Inr r" using res by simp
    then have follow: "follow_symlinks rules" using assms(2) by (auto simp: inspect_symlink_def refuse_def split: if_splits)
    obtain target where target: "fs_realpath fs ?abs = Inr target"
    proof (cases "fs_realpath fs ?abs")
      case (Inl code)
      then have "included (evaluateInclusion (cycle_observation np) rules gitignore)" using sym follow assms(2) by (simp add: inspect_symlink_def)
      then show ?thesis using included_not_never by (fastforce simp: never_included_def cycle_observation_def Let_def)
    qed blast
    have allowed: "target_allowed fs root rules target"
      using sym follow target assms(2) by (auto simp: inspect_symlink_def refuse_def split: if_splits)
    then obtain st where stat: "fs_stat fs ?abs = Inr st"
      and r: "(if isSpecialFile st then refuse ''security:path_invalid'' else evaluateInclusion (observe fs np True st target) rules gitignore) = r"
      using sym follow target by (cases "fs_stat fs ?abs") (auto simp: inspect_symlink_def lift_fs_def split: if_splits)
    have "\<not> isSpecialFile st" using r assms(2) by (auto simp: refuse_def)
    then have st: "fs_stat fs ?abs = Inr st" "\<not> isSpecialFile st" "included (evaluateInclusion (observe fs np True st target) rules gitignore)"
      using stat r assms(2) by simp_all
    have place: "isWithinRoot (fs_cwd fs) (canonicalizePath fs root) (canonicalizePath fs target)
        \<or> allow_external_root rules \<and> (\<exists>e. e \<in> set (allowed_external_roots rules) \<and> isWithinRoot (fs_cwd fs) (canonicalizePath fs e) (canonicalizePath fs target))"
      using allowed by (auto simp: target_allowed_def Let_def list_ex_iff)
    have "hd (split_on CHR ''/'' (slashes np)) \<notin> {''.git'', ''.urdira''}" "st_kind st \<noteq> DirectoryFile" "st_size st \<le> 10485760"
      using included_not_never [OF st(3)] by (auto simp: never_included_def observe_def Let_def mandatory_first)
    then show ?thesis using np True follow target place st(1,2) by (auto simp: isSpecialFile_def)
  qed
qed

definition follow_all :: inclusion_rules where
  "follow_all = \<lparr>include_patterns = [''**''], exclude_patterns = [], allow_external_root = False, follow_symlinks = True, allowed_external_roots = [], ordered_rules = None\<rparr>"

theorem inspected_path_contained_witness:
  "inspectInclusionPath sample_fs ''/ws'' ''b.ts'' follow_all \<lparr>gi_enabled = False, gi_patterns = []\<rparr>
     = Inr \<lparr>included = True, inclusion_reason = ''security:explicit_include'', matched_rule = Some ''**''\<rparr>
   \<and> (\<exists>link. fs_lstat sample_fs ''/ws/b.ts'' = Inr link \<and> st_kind link = SymbolicLink
        \<and> (\<exists>st. fs_stat sample_fs ''/ws/b.ts'' = Inr st \<and> st_kind st \<notin> {DirectoryFile, BlockDevice, CharacterDevice, FifoFile, SocketFile}))
   \<and> inspectInclusionPath sample_fs ''/ws'' ''dev'' follow_all \<lparr>gi_enabled = False, gi_patterns = []\<rparr> = Inr (refuse ''security:path_invalid'')
   \<and> inspectInclusionPath sample_fs ''/ws'' ''out'' follow_all \<lparr>gi_enabled = False, gi_patterns = []\<rparr> = Inr (refuse ''security:external_root_forbidden'')"
proof -
  have run: "inspectInclusionPath sample_fs ''/ws'' ''b.ts'' follow_all \<lparr>gi_enabled = False, gi_patterns = []\<rparr>
     = Inr \<lparr>included = True, inclusion_reason = ''security:explicit_include'', matched_rule = Some ''**''\<rparr>" by code_simp
  have dev: "inspectInclusionPath sample_fs ''/ws'' ''dev'' follow_all \<lparr>gi_enabled = False, gi_patterns = []\<rparr> = Inr (refuse ''security:path_invalid'')" by code_simp
  have out: "inspectInclusionPath sample_fs ''/ws'' ''out'' follow_all \<lparr>gi_enabled = False, gi_patterns = []\<rparr> = Inr (refuse ''security:external_root_forbidden'')" by code_simp
  have inc: "included \<lparr>included = True, inclusion_reason = ''security:explicit_include'', matched_rule = Some ''**''\<rparr>" by simp
  have eq: "path_resolve (path_resolve (fs_cwd sample_fs) ''/ws'') ''b.ts'' = ''/ws/b.ts''" by code_simp
  have link: "fs_lstat sample_fs ''/ws/b.ts'' = Inr \<lparr>st_kind = SymbolicLink, st_size = 4\<rparr>" by code_simp
  obtain st where "fs_stat sample_fs ''/ws/b.ts'' = Inr st" "st_kind st \<notin> {DirectoryFile, BlockDevice, CharacterDevice, FifoFile, SocketFile}"
    using inspected_path_contained [OF run inc] unfolding eq link by auto
  then show ?thesis using run dev out link by auto
qed

text \<open>The link \<open>/ws/out\<close> is refused, but the file below it is included, even when links are not followed.\<close>

lemma linked_directory_unchecked:
  "inspectInclusionPath sample_fs ''/ws'' ''out/passwd'' (follow_all\<lparr>follow_symlinks := False\<rparr>) \<lparr>gi_enabled = False, gi_patterns = []\<rparr>
     = Inr \<lparr>included = True, inclusion_reason = ''security:explicit_include'', matched_rule = Some ''**''\<rparr>"
  "fs_realpath sample_fs ''/ws/out/passwd'' = Inr ''/etc/passwd''"
  by code_simp+

end
