(* ===== verification/Security_Configuration.thy ===== *)
theory Security_Configuration
  imports Path_Containment
begin

text \<open>
  \<open>packages/security/src/configuration.ts\<close>: the validation of a configuration layer and the merge of the layers,
  which may only narrow the authority of the installation policy.  A layer is a JavaScript object whose values have
  not been checked; numbers are integers or some other number.  The digest of a normalised layer
  (\<open>digestBytes(canonicalBytes(layer))\<close>) is a parameter.
\<close>

section \<open>Layers\<close>

datatype setting = Undefined | BoolSetting bool | IntSetting int | OtherNumber | TextSetting string | ArraySetting "setting list" | OtherSetting

type_synonym configuration_layer = "(string, setting) jsmap"

datatype sandbox = Required | Standard

record security_configuration =
  allow_network :: bool
  max_response_items :: int
  external_roots :: "string list"
  expose_secret_snippets :: bool
  sandbox_strength :: sandbox
  retention_hours :: int
  max_file_bytes :: int

datatype configuration_error = ConfigurationUnknownField string | ConfigurationInvalid string

definition minimumRecoveryRetentionHours :: int where
  "minimumRecoveryRetentionHours = 24"

definition configuration_defaults :: configuration_layer where
  "configuration_defaults = [(''allow_network'', BoolSetting False), (''max_response_items'', IntSetting 100), (''allowed_external_roots'', ArraySetting []),
     (''expose_secret_snippets'', BoolSetting False), (''sandbox_strength'', TextSetting ''required''), (''retention_hours'', IntSetting 24),
     (''max_file_bytes'', IntSetting (10 * 1024 * 1024))]"

definition knownKeys :: "string list" where
  "knownKeys = [''allow_network'', ''max_response_items'', ''allowed_external_roots'', ''expose_secret_snippets'', ''sandbox_strength'', ''retention_hours'', ''max_file_bytes'']"

abbreviation setting_of :: "configuration_layer \<Rightarrow> string \<Rightarrow> setting" where
  "setting_of layer key \<equiv> jget_or Undefined layer key"

definition boolean_setting :: "setting \<Rightarrow> bool" where
  "boolean_setting s \<longleftrightarrow> (case s of Undefined \<Rightarrow> True | BoolSetting _ \<Rightarrow> True | _ \<Rightarrow> False)"

definition count_setting :: "int \<Rightarrow> setting \<Rightarrow> bool" where
  "count_setting least s \<longleftrightarrow> (case s of Undefined \<Rightarrow> True | IntSetting n \<Rightarrow> 0 \<le> n \<and> n \<le> 9007199254740991 \<and> least \<le> n | _ \<Rightarrow> False)"

definition text_setting :: "setting \<Rightarrow> bool" where
  "text_setting s \<longleftrightarrow> (case s of TextSetting _ \<Rightarrow> True | _ \<Rightarrow> False)"

definition roots_setting :: "setting \<Rightarrow> bool" where
  "roots_setting s \<longleftrightarrow> (case s of Undefined \<Rightarrow> True | ArraySetting vs \<Rightarrow> list_all text_setting vs | _ \<Rightarrow> False)"

definition sandbox_setting :: "setting \<Rightarrow> bool" where
  "sandbox_setting s \<longleftrightarrow> s = Undefined \<or> s = TextSetting ''required'' \<or> s = TextSetting ''standard''"

definition validateLayer :: "configuration_layer \<Rightarrow> configuration_error + unit" where
  "validateLayer layer =
     (case find (\<lambda>key. key \<notin> set knownKeys) (jkeys layer) of
        Some key \<Rightarrow> Inl (ConfigurationUnknownField key)
      | None \<Rightarrow>
          if \<not> boolean_setting (setting_of layer ''allow_network'') then Inl (ConfigurationInvalid ''allow_network'')
          else if \<not> boolean_setting (setting_of layer ''expose_secret_snippets'') then Inl (ConfigurationInvalid ''expose_secret_snippets'')
          else if \<not> count_setting 0 (setting_of layer ''max_response_items'') then Inl (ConfigurationInvalid ''max_response_items'')
          else if \<not> count_setting minimumRecoveryRetentionHours (setting_of layer ''retention_hours'') then Inl (ConfigurationInvalid ''retention_hours'')
          else if \<not> count_setting 0 (setting_of layer ''max_file_bytes'') then Inl (ConfigurationInvalid ''max_file_bytes'')
          else if \<not> roots_setting (setting_of layer ''allowed_external_roots'') then Inl (ConfigurationInvalid ''allowed_external_roots'')
          else if \<not> sandbox_setting (setting_of layer ''sandbox_strength'') then Inl (ConfigurationInvalid ''sandbox_strength'')
          else Inr ())"

text \<open>\<open>posix.normalize\<close> and \<open>win32.normalize\<close> of an absolute path keep a trailing separator.\<close>

definition normalize_absolute :: "string \<Rightarrow> string \<Rightarrow> string" where
  "normalize_absolute device tail =
     (let ws = walk_segments [] (split_on CHR ''/'' tail)
      in device @ CHR ''/'' # join_on CHR ''/'' ws @ (if ws \<noteq> [] \<and> last (split_on CHR ''/'' tail) = [] then ''/'' else []))"

definition normalizeConfiguredRoot :: "string \<Rightarrow> configuration_error + string" where
  "normalizeConfiguredRoot value =
     (if value = [] \<or> CHR 0x00 \<in> set value then Inl (ConfigurationInvalid ''allowed_external_roots'')
      else
        let p = portable value; windowsAbsolute = drive_prefix p
        in if take 1 p \<noteq> ''/'' \<and> \<not> windowsAbsolute then Inl (ConfigurationInvalid ''allowed_external_roots'')
           else
             let normalized = (if windowsAbsolute then normalize_absolute (take 2 p) (drop 3 p) else normalize_absolute [] (drop 1 p));
                 stable = (if windowsAbsolute then lower_case normalized else normalized)
             in Inr (if length stable > 1 \<and> last stable = CHR ''/'' then butlast stable else stable))"

definition normalize_root_setting :: "setting \<Rightarrow> configuration_error + setting" where
  "normalize_root_setting s =
     (case s of TextSetting t \<Rightarrow> res_bind (normalizeConfiguredRoot t) (\<lambda>r. Inr (TextSetting r)) | _ \<Rightarrow> Inl (ConfigurationInvalid ''allowed_external_roots''))"

definition normalizeLayer :: "configuration_layer \<Rightarrow> configuration_error + configuration_layer" where
  "normalizeLayer layer =
     res_bind (validateLayer layer) (\<lambda>_.
       case setting_of layer ''allowed_external_roots'' of
         ArraySetting vs \<Rightarrow> res_bind (res_map normalize_root_setting vs) (\<lambda>ws. Inr (jset ''allowed_external_roots'' (ArraySetting ws) layer))
       | _ \<Rightarrow> Inr layer)"

section \<open>Narrowing\<close>

definition roots_of :: "setting \<Rightarrow> string list" where
  "roots_of s = (case s of ArraySetting vs \<Rightarrow> map (\<lambda>v. case v of TextSetting t \<Rightarrow> t | _ \<Rightarrow> []) vs | _ \<Rightarrow> [])"

definition narrow_flag :: "string \<Rightarrow> setting \<Rightarrow> bool \<Rightarrow> bool \<times> string list" where
  "narrow_flag message s current =
     (if s = BoolSetting True \<and> \<not> current then (current, [message])
      else case s of BoolSetting b \<Rightarrow> (b, []) | _ \<Rightarrow> (current, []))"

definition narrow_count :: "setting \<Rightarrow> int \<Rightarrow> int" where
  "narrow_count s current = (case s of IntSetting n \<Rightarrow> min current n | _ \<Rightarrow> current)"

definition narrow_roots :: "setting \<Rightarrow> string list \<Rightarrow> string list \<times> string list" where
  "narrow_roots s current =
     (case s of
        ArraySetting _ \<Rightarrow>
          let narrowed = filter (\<lambda>root. root \<in> set current) (roots_of s)
          in (narrowed, if length narrowed \<noteq> length (roots_of s) then [''external_root''] else [])
      | _ \<Rightarrow> (current, []))"

definition narrow_sandbox :: "setting \<Rightarrow> sandbox \<Rightarrow> sandbox \<times> string list" where
  "narrow_sandbox s current =
     (if s = TextSetting ''standard'' \<and> current = Required then (current, [''sandbox''])
      else if s = TextSetting ''standard'' then (Standard, [])
      else if s = TextSetting ''required'' then (Required, [])
      else (current, []))"

text \<open>The issues are the layer's name with the kind of authority it asked for.\<close>

definition narrow :: "security_configuration \<Rightarrow> configuration_layer \<Rightarrow> string \<Rightarrow> configuration_error + security_configuration \<times> (string \<times> string) list" where
  "narrow current layer layerName =
     res_bind (normalizeLayer layer) (\<lambda>l.
       let (network, i1) = narrow_flag ''network'' (setting_of l ''allow_network'') (allow_network current);
           (roots, i2) = narrow_roots (setting_of l ''allowed_external_roots'') (external_roots current);
           (expose, i3) = narrow_flag ''secret_snippets'' (setting_of l ''expose_secret_snippets'') (expose_secret_snippets current);
           (sandbox, i4) = narrow_sandbox (setting_of l ''sandbox_strength'') (sandbox_strength current)
       in Inr (\<lparr>allow_network = network,
                max_response_items = narrow_count (setting_of l ''max_response_items'') (max_response_items current),
                external_roots = roots,
                expose_secret_snippets = expose,
                sandbox_strength = sandbox,
                retention_hours = narrow_count (setting_of l ''retention_hours'') (retention_hours current),
                max_file_bytes = narrow_count (setting_of l ''max_file_bytes'') (max_file_bytes current)\<rparr>,
               map (\<lambda>i. (layerName, i)) (i1 @ i2 @ i3 @ i4)))"

record configuration_result =
  effective :: security_configuration
  configuration_issues :: "(string \<times> string) list"
  layer_digests :: "(string, string) jsmap"

record configuration_layers =
  layer_installation :: "configuration_layer option"
  layer_user :: "configuration_layer option"
  layer_workspace :: "configuration_layer option"
  layer_persisted :: "configuration_layer option"
  layer_administrative :: "configuration_layer option"
  layer_request :: "configuration_layer option"

text \<open>\<open>{ ...defaults, ...installationPolicy }\<close>, and the configuration read from the normalised result.\<close>

definition with_defaults :: "configuration_layer \<Rightarrow> configuration_layer" where
  "with_defaults layer = fold (\<lambda>(k, v). jset k v) layer configuration_defaults"

definition configuration_of :: "configuration_layer \<Rightarrow> security_configuration" where
  "configuration_of l =
     \<lparr>allow_network = (setting_of l ''allow_network'' = BoolSetting True),
      max_response_items = (case setting_of l ''max_response_items'' of IntSetting n \<Rightarrow> n | _ \<Rightarrow> 0),
      external_roots = roots_of (setting_of l ''allowed_external_roots''),
      expose_secret_snippets = (setting_of l ''expose_secret_snippets'' = BoolSetting True),
      sandbox_strength = (if setting_of l ''sandbox_strength'' = TextSetting ''standard'' then Standard else Required),
      retention_hours = (case setting_of l ''retention_hours'' of IntSetting n \<Rightarrow> n | _ \<Rightarrow> 0),
      max_file_bytes = (case setting_of l ''max_file_bytes'' of IntSetting n \<Rightarrow> n | _ \<Rightarrow> 0)\<rparr>"

definition named_layers :: "configuration_layers \<Rightarrow> configuration_layer option \<Rightarrow> (string \<times> configuration_layer) list" where
  "named_layers layers requestOptions =
     List.map_filter (\<lambda>(name, layer). map_option (Pair name) layer)
       [(''installation'', layer_installation layers), (''user'', layer_user layers), (''workspace'', layer_workspace layers),
        (''persisted_workspace_override'', case layer_persisted layers of Some l \<Rightarrow> Some l | None \<Rightarrow> layer_administrative layers),
        (''request'', case requestOptions of Some l \<Rightarrow> Some l | None \<Rightarrow> layer_request layers)]"

definition merge_layer :: "(configuration_layer \<Rightarrow> string) \<Rightarrow> string \<times> configuration_layer \<Rightarrow> configuration_result \<Rightarrow> configuration_error + configuration_result" where
  "merge_layer dg entry r =
     (let (name, layer) = entry
      in res_bind (normalizeLayer layer) (\<lambda>normalizedLayer.
         res_bind (narrow (effective r) normalizedLayer name) (\<lambda>(next, issues).
           Inr \<lparr>effective = next, configuration_issues = configuration_issues r @ issues, layer_digests = jset name (dg normalizedLayer) (layer_digests r)\<rparr>)))"

definition mergeConfiguration :: "(configuration_layer \<Rightarrow> string) \<Rightarrow> configuration_layers \<Rightarrow> configuration_layer \<Rightarrow> configuration_layer option
    \<Rightarrow> configuration_error + configuration_result" where
  "mergeConfiguration dg layers installationPolicy requestOptions =
     res_bind (normalizeLayer (with_defaults installationPolicy)) (\<lambda>installation.
       res_fold (merge_layer dg) (named_layers layers requestOptions)
         \<lparr>effective = configuration_of installation, configuration_issues = [], layer_digests = [(''installation_policy'', dg installation)]\<rparr>)"

section \<open>The merge is the greatest common narrowing\<close>

text \<open>The roots a layer asks for, after the two normalisations the merge performs.\<close>

definition requested_roots :: "configuration_layer \<Rightarrow> string list" where
  "requested_roots l = (case res_bind (normalizeLayer l) normalizeLayer of Inr n \<Rightarrow> roots_of (setting_of n ''allowed_external_roots'') | Inl _ \<Rightarrow> [])"

definition flag_narrowed :: "string \<Rightarrow> bool \<Rightarrow> configuration_layer list \<Rightarrow> bool \<Rightarrow> bool" where
  "flag_narrowed key c ls e \<longleftrightarrow> (e \<longleftrightarrow> c \<and> (\<forall>l \<in> set ls. setting_of l key \<noteq> BoolSetting False))"

definition count_narrowed :: "string \<Rightarrow> int \<Rightarrow> configuration_layer list \<Rightarrow> int \<Rightarrow> bool" where
  "count_narrowed key c ls e \<longleftrightarrow> (\<forall>n. n \<le> e \<longleftrightarrow> n \<le> c \<and> (\<forall>l \<in> set ls. \<forall>m. setting_of l key = IntSetting m \<longrightarrow> n \<le> m))"

definition roots_narrowed :: "string list \<Rightarrow> configuration_layer list \<Rightarrow> string list \<Rightarrow> bool" where
  "roots_narrowed c ls e \<longleftrightarrow> (\<forall>x. x \<in> set e \<longleftrightarrow> x \<in> set c \<and> (\<forall>l \<in> set ls. setting_of l ''allowed_external_roots'' = Undefined \<or> x \<in> set (requested_roots l)))"

definition sandbox_narrowed :: "sandbox \<Rightarrow> configuration_layer list \<Rightarrow> sandbox \<Rightarrow> bool" where
  "sandbox_narrowed c ls e \<longleftrightarrow> (e = Standard \<longleftrightarrow> c = Standard \<and> (\<forall>l \<in> set ls. setting_of l ''sandbox_strength'' \<noteq> TextSetting ''required''))"

definition greatest_narrowing :: "security_configuration \<Rightarrow> configuration_layer list \<Rightarrow> security_configuration \<Rightarrow> bool" where
  "greatest_narrowing c ls e \<longleftrightarrow>
     flag_narrowed ''allow_network'' (allow_network c) ls (allow_network e)
   \<and> flag_narrowed ''expose_secret_snippets'' (expose_secret_snippets c) ls (expose_secret_snippets e)
   \<and> count_narrowed ''max_response_items'' (max_response_items c) ls (max_response_items e)
   \<and> count_narrowed ''retention_hours'' (retention_hours c) ls (retention_hours e)
   \<and> count_narrowed ''max_file_bytes'' (max_file_bytes c) ls (max_file_bytes e)
   \<and> roots_narrowed (external_roots c) ls (external_roots e)
   \<and> sandbox_narrowed (sandbox_strength c) ls (sandbox_strength e)"

lemmas narrowed_defs = flag_narrowed_def count_narrowed_def roots_narrowed_def sandbox_narrowed_def

lemma greatest_narrowing_Nil: "greatest_narrowing c [] c"
  by (simp add: greatest_narrowing_def narrowed_defs)

lemma greatest_narrowing_Cons: "greatest_narrowing a [l] b \<Longrightarrow> greatest_narrowing b ls c \<Longrightarrow> greatest_narrowing a (l # ls) c"
  unfolding greatest_narrowing_def narrowed_defs by (elim conjE) (intro conjI; simp; blast)

lemma normalizeLayer_settings:
  assumes "normalizeLayer l = Inr n"
  shows "key \<noteq> ''allowed_external_roots'' \<Longrightarrow> setting_of n key = setting_of l key" and "validateLayer l = Inr ()"
    and "setting_of n ''allowed_external_roots'' = Undefined \<longleftrightarrow> setting_of l ''allowed_external_roots'' = Undefined"
  using assms by (auto simp: normalizeLayer_def res_bind_Inr_iff jget_or_def split: setting.splits)

lemma validateLayer_settings:
  assumes "validateLayer l = Inr ()"
  shows "boolean_setting (setting_of l ''allow_network'')" "boolean_setting (setting_of l ''expose_secret_snippets'')"
    "count_setting 0 (setting_of l ''max_response_items'')" "count_setting 24 (setting_of l ''retention_hours'')" "count_setting 0 (setting_of l ''max_file_bytes'')"
    "roots_setting (setting_of l ''allowed_external_roots'')" "sandbox_setting (setting_of l ''sandbox_strength'')"
  using assms by (auto simp: validateLayer_def minimumRecoveryRetentionHours_def split: option.splits if_splits)

lemma narrow_flag_narrowed: "boolean_setting (setting_of l key) \<Longrightarrow> flag_narrowed key c [l] (fst (narrow_flag m (setting_of l key) c))"
  by (auto simp: flag_narrowed_def narrow_flag_def boolean_setting_def split: setting.splits)

lemma narrow_count_narrowed: "count_narrowed key c [l] (narrow_count (setting_of l key) c)"
  by (auto simp: count_narrowed_def narrow_count_def split: setting.splits)

lemma narrow_sandbox_narrowed: "sandbox_narrowed c [l] (fst (narrow_sandbox (setting_of l ''sandbox_strength'') c))"
  by (cases c) (auto simp: sandbox_narrowed_def narrow_sandbox_def)

lemma narrow_roots_narrowed:
  assumes "normalizeLayer l = Inr k" and "normalizeLayer k = Inr n"
  shows "roots_narrowed c [l] (fst (narrow_roots (setting_of n ''allowed_external_roots'') c))"
proof -
  have roots: "requested_roots l = roots_of (setting_of n ''allowed_external_roots'')" using assms by (simp add: requested_roots_def)
  have und: "setting_of n ''allowed_external_roots'' = Undefined \<longleftrightarrow> setting_of l ''allowed_external_roots'' = Undefined"
    using normalizeLayer_settings(3) [OF assms(1)] normalizeLayer_settings(3) [OF assms(2)] by simp
  have "roots_setting (setting_of k ''allowed_external_roots'')" using validateLayer_settings(6) normalizeLayer_settings(2) [OF assms(2)] by blast
  then have "setting_of n ''allowed_external_roots'' = Undefined \<or> (\<exists>vs. setting_of n ''allowed_external_roots'' = ArraySetting vs)"
    using assms(2) by (auto simp: normalizeLayer_def res_bind_Inr_iff jget_or_def roots_setting_def split: setting.splits)
  then show ?thesis using und by (auto simp: roots_narrowed_def narrow_roots_def roots Let_def)
qed

lemma merge_layer_narrows:
  assumes "merge_layer dg (name, l) r = Inr r'"
  shows "greatest_narrowing (effective r) [l] (effective r')"
proof -
  obtain k n where k: "normalizeLayer l = Inr k" and n: "normalizeLayer k = Inr n"
    and e: "effective r' = \<lparr>allow_network = fst (narrow_flag ''network'' (setting_of n ''allow_network'') (allow_network (effective r))),
                max_response_items = narrow_count (setting_of n ''max_response_items'') (max_response_items (effective r)),
                external_roots = fst (narrow_roots (setting_of n ''allowed_external_roots'') (external_roots (effective r))),
                expose_secret_snippets = fst (narrow_flag ''secret_snippets'' (setting_of n ''expose_secret_snippets'') (expose_secret_snippets (effective r))),
                sandbox_strength = fst (narrow_sandbox (setting_of n ''sandbox_strength'') (sandbox_strength (effective r))),
                retention_hours = narrow_count (setting_of n ''retention_hours'') (retention_hours (effective r)),
                max_file_bytes = narrow_count (setting_of n ''max_file_bytes'') (max_file_bytes (effective r))\<rparr>"
    using assms by (auto simp: merge_layer_def narrow_def res_bind_Inr_iff case_prod_unfold Let_def)
  have same: "setting_of n key = setting_of l key" if "key \<noteq> ''allowed_external_roots''" for key
    using normalizeLayer_settings(1) [OF k that] normalizeLayer_settings(1) [OF n that] by simp
  note valid = validateLayer_settings [OF normalizeLayer_settings(2) [OF k]]
  show ?thesis unfolding greatest_narrowing_def e security_configuration.select_convs
    by (intro conjI narrow_roots_narrowed [OF k n])
      (simp_all only: same char.inject list.inject HOL.simp_thms valid narrow_flag_narrowed narrow_count_narrowed narrow_sandbox_narrowed)
qed

lemma merge_fold_narrows:
  "res_fold (merge_layer dg) entries r = Inr r' \<Longrightarrow> greatest_narrowing (effective r) (map snd entries) (effective r')"
proof (induction entries arbitrary: r)
  case Nil
  then show ?case by (simp add: greatest_narrowing_Nil)
next
  case (Cons x entries)
  obtain name l where x: "x = (name, l)" by fastforce
  obtain s where s: "merge_layer dg (name, l) r = Inr s" "res_fold (merge_layer dg) entries s = Inr r'"
    using Cons.prems by (auto simp: x res_bind_Inr_iff)
  then show ?case using greatest_narrowing_Cons [OF merge_layer_narrows [OF s(1)] Cons.IH [OF s(2)]] by (simp add: x)
qed

section \<open>The properties of the merged configuration\<close>

lemma merge_runs:
  assumes "mergeConfiguration dg layers policy req = Inr r"
  obtains inst where "normalizeLayer (with_defaults policy) = Inr inst"
    "greatest_narrowing (configuration_of inst) (map snd (named_layers layers req)) (effective r)"
  using assms merge_fold_narrows by (fastforce simp: mergeConfiguration_def res_bind_Inr_iff)

text \<open>
  C15.  The merged configuration is the greatest one below the installation policy and every given layer: a flag is
  on exactly when the policy has it on and no layer turns it off, a limit is the least of the limits given, a root is
  allowed exactly when the policy and every layer that lists roots allow it, and the sandbox is weakened only when
  the policy weakens it and no layer requires it.  No layer widens the policy.
\<close>

theorem configuration_narrowed:
  assumes "mergeConfiguration dg layers policy req = Inr r"
  shows "\<exists>inst. normalizeLayer (with_defaults policy) = Inr inst
    \<and> greatest_narrowing (configuration_of inst) (map snd (named_layers layers req)) (effective r)"
  using merge_runs [OF assms] by blast

definition sample_layers :: configuration_layers where
  "sample_layers = \<lparr>layer_installation = None, layer_user = Some [(''max_response_items'', IntSetting 50)],
     layer_workspace = Some [(''allow_network'', BoolSetting True), (''max_response_items'', IntSetting 200), (''allowed_external_roots'', ArraySetting [TextSetting ''/outside''])],
     layer_persisted = None, layer_administrative = None, layer_request = Some [(''max_response_items'', IntSetting 10)]\<rparr>"

definition sample_effective :: security_configuration where
  "sample_effective = \<lparr>allow_network = False, max_response_items = 10, external_roots = [], expose_secret_snippets = False, sandbox_strength = Required,
     retention_hours = 24, max_file_bytes = 10485760\<rparr>"

lemma sample_merge:
  "map_sum id effective (mergeConfiguration (\<lambda>_. ''d'') sample_layers [(''max_response_items'', IntSetting 100)] None) = Inr sample_effective"
  by code_simp

theorem configuration_narrowed_witness:
  "\<exists>inst. normalizeLayer (with_defaults [(''max_response_items'', IntSetting 100)]) = Inr inst
    \<and> greatest_narrowing (configuration_of inst) (map snd (named_layers sample_layers None)) sample_effective"
proof -
  obtain r where r: "mergeConfiguration (\<lambda>_. ''d'') sample_layers [(''max_response_items'', IntSetting 100)] None = Inr r" "effective r = sample_effective"
    using sample_merge by (auto simp: map_sum_def split: sum.splits)
  show ?thesis using configuration_narrowed [OF r(1)] unfolding r(2) .
qed

lemma with_defaults_defined:
  assumes "\<forall>e \<in> set policy. snd e \<noteq> Undefined" and "key \<in> set knownKeys"
  shows "setting_of (with_defaults policy) key \<noteq> Undefined"
proof -
  have "\<forall>e \<in> set p. snd e \<noteq> Undefined \<Longrightarrow> setting_of m key \<noteq> Undefined \<Longrightarrow> setting_of (fold (\<lambda>(k, v). jset k v) p m) key \<noteq> Undefined"
    for p :: configuration_layer and m
    by (induction p arbitrary: m) (auto simp: jget_or_def)
  moreover have "setting_of configuration_defaults key \<noteq> Undefined" using assms(2) by (auto simp: knownKeys_def configuration_defaults_def jget_or_def)
  ultimately show ?thesis using assms(1) unfolding with_defaults_def by blast
qed

lemma merge_fold_valid: "res_fold (merge_layer dg) entries r = Inr r' \<Longrightarrow> l \<in> set (map snd entries) \<Longrightarrow> validateLayer l = Inr ()"
proof (induction entries arbitrary: r)
  case (Cons x entries)
  obtain name k where x: "x = (name, k)" by fastforce
  obtain s where s: "merge_layer dg (name, k) r = Inr s" "res_fold (merge_layer dg) entries s = Inr r'"
    using Cons.prems by (auto simp: x res_bind_Inr_iff)
  have "validateLayer k = Inr ()" using s(1) normalizeLayer_settings(2) by (auto simp: merge_layer_def res_bind_Inr_iff)
  then show ?case using Cons.IH [OF s(2)] Cons.prems(2) by (auto simp: x)
qed simp

lemma res_map_member: "res_map f xs = Inr ys \<Longrightarrow> y \<in> set ys \<Longrightarrow> \<exists>x \<in> set xs. f x = Inr y"
  by (induction xs arbitrary: ys) (auto simp: res_bind_Inr_iff)

lemma normalized_roots:
  assumes "normalizeLayer l = Inr n" and "x \<in> set (roots_of (setting_of n ''allowed_external_roots''))"
  shows "\<exists>v. normalizeConfiguredRoot v = Inr x"
proof -
  have "roots_setting (setting_of l ''allowed_external_roots'')" using validateLayer_settings(6) normalizeLayer_settings(2) [OF assms(1)] by blast
  then obtain vs ws where ws: "res_map normalize_root_setting vs = Inr ws" "setting_of n ''allowed_external_roots'' = ArraySetting ws"
    using assms by (auto simp: normalizeLayer_def res_bind_Inr_iff roots_setting_def roots_of_def jget_or_def split: setting.splits)
  then obtain w where w: "w \<in> set ws" "x = (case w of TextSetting t \<Rightarrow> t | _ \<Rightarrow> [])" using assms(2) by (auto simp: roots_of_def)
  then obtain v where "normalize_root_setting v = Inr w" using res_map_member [OF ws(1)] by blast
  then show ?thesis using w(2) by (auto simp: normalize_root_setting_def res_bind_Inr_iff split: setting.splits)
qed

lemma limit_bounds:
  assumes "count_narrowed key c ls e" and "least \<le> c" and "\<forall>l \<in> set ls. count_setting least (setting_of l key)"
  shows "least \<le> e \<and> e \<le> c"
  using assms unfolding count_narrowed_def by (auto simp: count_setting_def split: setting.splits)

lemma policy_limit:
  assumes "count_setting least s" and "s \<noteq> Undefined"
  shows "least \<le> (case s of IntSetting n \<Rightarrow> n | _ \<Rightarrow> 0) \<and> (case s of IntSetting n \<Rightarrow> n | _ \<Rightarrow> 0) \<le> 9007199254740991"
  using assms by (auto simp: count_setting_def split: setting.splits)

text \<open>
  C20.  The merged configuration is well formed when the policy has no undefined field: the response and
  file limits lie between 0 and the largest safe integer, the retention is at least 24 hours, and every external root
  is a result of the root normalisation.
\<close>

theorem configuration_well_formed:
  assumes "mergeConfiguration dg layers policy req = Inr r" and "\<forall>e \<in> set policy. snd e \<noteq> Undefined"
  shows "0 \<le> max_response_items (effective r) \<and> max_response_items (effective r) \<le> 9007199254740991
    \<and> 24 \<le> retention_hours (effective r) \<and> 0 \<le> max_file_bytes (effective r) \<and> max_file_bytes (effective r) \<le> 9007199254740991
    \<and> list_all (\<lambda>root. \<exists>v. normalizeConfiguredRoot v = Inr root) (external_roots (effective r))"
proof -
  obtain inst where inst: "normalizeLayer (with_defaults policy) = Inr inst"
    and run: "res_fold (merge_layer dg) (named_layers layers req)
         \<lparr>effective = configuration_of inst, configuration_issues = [], layer_digests = [(''installation_policy'', dg inst)]\<rparr> = Inr r"
    using assms(1) by (auto simp: mergeConfiguration_def res_bind_Inr_iff)
  let ?ls = "map snd (named_layers layers req)" and ?c = "configuration_of inst"
  have g: "greatest_narrowing ?c ?ls (effective r)" using merge_fold_narrows [OF run] by simp
  have valid: "validateLayer l = Inr ()" if "l \<in> set ?ls" for l by (rule merge_fold_valid [OF run that])
  note policy = validateLayer_settings [OF normalizeLayer_settings(2) [OF inst]]
  have defined: "setting_of inst key = setting_of (with_defaults policy) key \<and> setting_of (with_defaults policy) key \<noteq> Undefined"
    if "key \<in> set knownKeys" "key \<noteq> ''allowed_external_roots''" for key
    using normalizeLayer_settings(1) [OF inst that(2)] with_defaults_defined [OF assms(2) that(1)] by simp
  have keys: "''max_response_items'' \<in> set knownKeys" "''retention_hours'' \<in> set knownKeys" "''max_file_bytes'' \<in> set knownKeys" by (simp_all add: knownKeys_def)
  have items: "0 \<le> max_response_items ?c \<and> max_response_items ?c \<le> 9007199254740991"
    using policy_limit [OF policy(3)] defined [OF keys(1)] by (simp add: configuration_of_def)
  have hours: "24 \<le> retention_hours ?c" using policy_limit [OF policy(4)] defined [OF keys(2)] by (simp add: configuration_of_def)
  have bytes: "0 \<le> max_file_bytes ?c \<and> max_file_bytes ?c \<le> 9007199254740991"
    using policy_limit [OF policy(5)] defined [OF keys(3)] by (simp add: configuration_of_def)
  have "0 \<le> max_response_items (effective r) \<and> max_response_items (effective r) \<le> max_response_items ?c"
    by (rule limit_bounds) (use g items valid validateLayer_settings(3) in \<open>auto simp: greatest_narrowing_def\<close>)
  moreover have "24 \<le> retention_hours (effective r) \<and> retention_hours (effective r) \<le> retention_hours ?c"
    by (rule limit_bounds) (use g hours valid validateLayer_settings(4) in \<open>auto simp: greatest_narrowing_def\<close>)
  moreover have "0 \<le> max_file_bytes (effective r) \<and> max_file_bytes (effective r) \<le> max_file_bytes ?c"
    by (rule limit_bounds) (use g bytes valid validateLayer_settings(5) in \<open>auto simp: greatest_narrowing_def\<close>)
  moreover have "list_all (\<lambda>root. \<exists>v. normalizeConfiguredRoot v = Inr root) (external_roots (effective r))"
    using g normalized_roots [OF inst] by (auto simp: greatest_narrowing_def roots_narrowed_def list_all_iff configuration_of_def)
  ultimately show ?thesis using items bytes by simp
qed

theorem configuration_well_formed_witness:
  "24 \<le> retention_hours sample_effective \<and> list_all (\<lambda>root. \<exists>v. normalizeConfiguredRoot v = Inr root) (external_roots sample_effective)"
proof -
  obtain r where r: "mergeConfiguration (\<lambda>_. ''d'') sample_layers [(''max_response_items'', IntSetting 100)] None = Inr r" "effective r = sample_effective"
    using sample_merge by (auto simp: map_sum_def split: sum.splits)
  show ?thesis using configuration_well_formed [OF r(1)] unfolding r(2) by simp
qed

text \<open>
  A layer is normalised twice, and the root of a Windows drive does not survive the second time: \<open>C:/\<close> becomes
  \<open>c:\<close>, which is not absolute.
\<close>

lemma drive_root_rejected:
  "normalizeConfiguredRoot ''C:/'' = Inr ''c:''"
  "mergeConfiguration (\<lambda>_. ''d'') (sample_layers\<lparr>layer_user := Some [(''allowed_external_roots'', ArraySetting [TextSetting ''C:/''])]\<rparr>)
     [(''allowed_external_roots'', ArraySetting [TextSetting ''C:/''])] None = Inl (ConfigurationInvalid ''allowed_external_roots'')"
  by code_simp+

end
