(* ===== verification/Plugin_Packages.thy ===== *)
theory Plugin_Packages
  imports Path_Containment
begin

text \<open>
  \<open>packages/security/src/packages.ts\<close>: the inspection of a plugin package and the manager of installed packages.
  The two digests, of a file (\<open>digestBytes\<close>) and of a manifest (\<open>digestBytes(canonicalBytes(\<dots>))\<close>, which may fail), are
  parameters, and so is the outcome of staging and publishing the files.  An installation or repair is two steps, up
  to the first \<open>await\<close> and after the publication, so that operations may interleave between them; a recovery is one step.
  Writing the state to the store is taken to succeed, and only this manager writes it.
\<close>

section \<open>Inspection\<close>

record package_entry =
  entry_path :: string
  content_digest :: string
  entry_byte_length :: int
  executable :: bool

text \<open>An entry that is no object, has other keys or a field of another type is malformed.\<close>

datatype raw_entry = MalformedEntry | Entry package_entry

record plugin_manifest =
  manifest_keys :: "string list"
  package_format_id :: string
  package_format_version :: int
  manifest_plugin_id :: string
  manifest_plugin_version :: string
  package_files :: "raw_entry list option"

record inspection_limits =
  limit_file_bytes :: "int option"
  limit_total_bytes :: "int option"

record package_digests =
  file_digest :: "bytes \<Rightarrow> string"
  manifest_digest :: "plugin_manifest \<Rightarrow> string option"

type_synonym package_contents = "(string, bytes) jsmap"

definition ascii_letter :: "char \<Rightarrow> bool" where
  "ascii_letter c \<longleftrightarrow> (let n = (of_char c :: nat) in 65 \<le> n \<and> n \<le> 90 \<or> 97 \<le> n \<and> n \<le> 122)"

definition ascii_digit :: "char \<Rightarrow> bool" where
  "ascii_digit c \<longleftrightarrow> (let n = (of_char c :: nat) in 48 \<le> n \<and> n \<le> 57)"

definition lower_letter :: "char \<Rightarrow> bool" where
  "lower_letter c \<longleftrightarrow> (let n = (of_char c :: nat) in 97 \<le> n \<and> n \<le> 122)"

definition validRelativePath :: "string \<Rightarrow> bool" where
  "validRelativePath path \<longleftrightarrow>
     \<not> (path = [] \<or> CHR 0x00 \<in> set path \<or> CHR 92 \<in> set path \<or> take 1 path = ''/''
        \<or> (case path of c # d # _ \<Rightarrow> ascii_letter c \<and> d = CHR '':'' | _ \<Rightarrow> False))
     \<and> (let parts = split_on CHR ''/'' path in ''..'' \<notin> set parts \<and> [] \<notin> set parts \<and> list_all (\<lambda>part. part \<noteq> ''.'') parts)"

text \<open>\<open>[a-z][a-z0-9]*(?:[._-][a-z0-9]+)*\<close>: words of letters and digits between single separators.\<close>

definition identifier_part :: "string \<Rightarrow> bool" where
  "identifier_part s \<longleftrightarrow>
     (case s of [] \<Rightarrow> False | c # _ \<Rightarrow> lower_letter c)
     \<and> list_all (\<lambda>w. w \<noteq> [] \<and> list_all (\<lambda>c. lower_letter c \<or> ascii_digit c) w)
         (split_on CHR ''.'' (map (\<lambda>c. if c = CHR ''_'' \<or> c = CHR ''-'' then CHR ''.'' else c) s))"

definition validNamespacedIdentifier :: "string \<Rightarrow> bool" where
  "validNamespacedIdentifier value \<longleftrightarrow> (case split_on CHR '':'' value of [a, b] \<Rightarrow> identifier_part a \<and> identifier_part b | _ \<Rightarrow> False)"

definition version_number :: "string \<Rightarrow> bool" where
  "version_number s \<longleftrightarrow> s = ''0'' \<or> (case s of [] \<Rightarrow> False | c # r \<Rightarrow> c \<noteq> CHR ''0'' \<and> list_all ascii_digit (c # r))"

definition version_label :: "char \<Rightarrow> string \<Rightarrow> bool" where
  "version_label mark s \<longleftrightarrow> (case s of [] \<Rightarrow> True | c # r \<Rightarrow> c = mark \<and> r \<noteq> [] \<and> list_all (\<lambda>c. ascii_digit c \<or> ascii_letter c \<or> c = CHR ''.'' \<or> c = CHR ''-'') r)"

text \<open>The build label starts at the first plus sign and the prerelease label at the first minus sign before it.\<close>

definition validSemVer :: "string \<Rightarrow> bool" where
  "validSemVer value \<longleftrightarrow>
     (let main = takeWhile (\<lambda>c. c \<noteq> CHR ''+'') value; build = dropWhile (\<lambda>c. c \<noteq> CHR ''+'') value;
          core = takeWhile (\<lambda>c. c \<noteq> CHR ''-'') main; prerelease = dropWhile (\<lambda>c. c \<noteq> CHR ''-'') main
      in length (split_on CHR ''.'' core) = 3 \<and> list_all version_number (split_on CHR ''.'' core)
         \<and> version_label CHR ''-'' prerelease \<and> version_label CHR ''+'' build)"

definition manifestKeys :: "string list" where
  "manifestKeys = [''package_format_id'', ''package_format_version'', ''plugin_id'', ''plugin_version'', ''package_files'']"

definition closed_manifest :: "plugin_manifest \<Rightarrow> bool" where
  "closed_manifest m \<longleftrightarrow> list_all (\<lambda>key. key \<in> set manifestKeys) (manifest_keys m)"

definition complete_entry :: "raw_entry \<Rightarrow> bool" where
  "complete_entry e \<longleftrightarrow> (case e of MalformedEntry \<Rightarrow> False | Entry f \<Rightarrow> 0 \<le> entry_byte_length f \<and> entry_byte_length f \<le> 9007199254740991)"

record inspection_state =
  found_issues :: "string list"
  seen_paths :: "string list"
  total_bytes :: int

definition issue_when :: "bool \<Rightarrow> string \<Rightarrow> string list" where
  "issue_when b code = (if b then [code] else [])"

definition above_limit :: "int \<Rightarrow> int option \<Rightarrow> bool" where
  "above_limit n limit \<longleftrightarrow> (case limit of None \<Rightarrow> False | Some m \<Rightarrow> n > m)"

definition inspect_entry :: "package_digests \<Rightarrow> package_contents \<Rightarrow> inspection_limits \<Rightarrow> raw_entry \<Rightarrow> inspection_state \<Rightarrow> inspection_state" where
  "inspect_entry dg files limits e st =
     (case e of
        MalformedEntry \<Rightarrow> st\<lparr>found_issues := found_issues st @ [''security:package_manifest_invalid'']\<rparr>
      | Entry f \<Rightarrow>
          if \<not> complete_entry e then st\<lparr>found_issues := found_issues st @ [''security:package_manifest_invalid'']\<rparr>
          else
            let st = st\<lparr>found_issues := found_issues st @ issue_when (\<not> validRelativePath (entry_path f)) ''security:package_path_invalid''
                          @ issue_when (entry_path f \<in> set (seen_paths st)) ''security:package_duplicate_path'',
                        seen_paths := entry_path f # seen_paths st\<rparr>
            in (case jget files (entry_path f) of
                  None \<Rightarrow> st\<lparr>found_issues := found_issues st @ [''security:package_digest_mismatch'']\<rparr>
                | Some bytes \<Rightarrow>
                    st\<lparr>total_bytes := total_bytes st + int (length bytes),
                       found_issues := found_issues st @ issue_when (above_limit (int (length bytes)) (limit_file_bytes limits)) ''security:package_length_mismatch''
                         @ issue_when (int (length bytes) \<noteq> entry_byte_length f) ''security:package_length_mismatch''
                         @ issue_when (file_digest dg bytes \<noteq> content_digest f) ''security:package_digest_mismatch''\<rparr>))"

record package_inspection =
  inspection_valid :: bool
  inspection_issues :: "string list"
  inspection_digest :: "string option"

definition header_issues :: "plugin_manifest \<Rightarrow> raw_entry list \<Rightarrow> string list" where
  "header_issues m entries =
     issue_when (\<not> closed_manifest m) ''security:package_manifest_invalid''
     @ issue_when (package_format_id m \<noteq> ''core:plugin'' \<or> package_format_version m \<noteq> 1) ''security:package_manifest_invalid''
     @ issue_when (\<not> validNamespacedIdentifier (manifest_plugin_id m)) ''security:package_plugin_id_invalid''
     @ issue_when (\<not> validSemVer (manifest_plugin_version m)) ''security:package_version_invalid''
     @ issue_when (entries = []) ''security:package_manifest_invalid''"

definition inspectPluginPackage :: "package_digests \<Rightarrow> plugin_manifest option \<Rightarrow> package_contents \<Rightarrow> inspection_limits \<Rightarrow> package_inspection" where
  "inspectPluginPackage dg manifest files limits =
     (case manifest of
        None \<Rightarrow> \<lparr>inspection_valid = False, inspection_issues = [''security:package_manifest_invalid''], inspection_digest = None\<rparr>
      | Some m \<Rightarrow>
          (case package_files m of
             None \<Rightarrow> \<lparr>inspection_valid = False, inspection_issues = issue_when (\<not> closed_manifest m) ''security:package_manifest_invalid'', inspection_digest = None\<rparr>
           | Some entries \<Rightarrow>
               let st = fold (inspect_entry dg files limits) entries \<lparr>found_issues = header_issues m entries, seen_paths = [], total_bytes = 0\<rparr>;
                   extra = map (\<lambda>_. ''security:package_extra_file'') (filter (\<lambda>path. path \<notin> set (seen_paths st)) (jkeys files));
                   packageDigest = manifest_digest dg m;
                   issues = found_issues st @ extra @ issue_when (above_limit (total_bytes st) (limit_total_bytes limits)) ''security:package_length_mismatch''
                     @ issue_when (packageDigest = None) ''security:package_path_invalid''
               in \<lparr>inspection_valid = (issues = []), inspection_issues = issues,
                   inspection_digest = (case packageDigest of Some d \<Rightarrow> if d = [] then None else Some d | None \<Rightarrow> None)\<rparr>))"

section \<open>The manager\<close>

datatype package_state = Installed | Active | Removed

record package_record =
  record_plugin_id :: string
  record_plugin_version :: string
  record_digest :: string
  record_state :: package_state

datatype staged_kind = Installing package_record | Repairing

record staged_operation =
  staged_occurrence :: int
  staged_key :: string
  staged_manifest :: plugin_manifest
  staged_files :: package_contents
  staged_kind :: staged_kind

record lifecycle_state =
  persisted_occurrence :: int
  persisted_records :: "package_record list"

record lifecycle =
  lc_records :: "(string, package_record) jsmap"
  lc_manifests :: "(string, plugin_manifest) jsmap"
  lc_files :: "(string, package_contents) jsmap"
  lc_occurrence :: int
  lc_staged :: "staged_operation list"
  lc_persisted :: "lifecycle_state option"

definition coordinate :: "string \<Rightarrow> string \<Rightarrow> string" where
  "coordinate plugin version = plugin @ ''@'' @ version"

definition persistState :: "lifecycle \<Rightarrow> lifecycle" where
  "persistState lc = lc\<lparr>lc_persisted := Some \<lparr>persisted_occurrence = lc_occurrence lc, persisted_records = map snd (lc_records lc)\<rparr>\<rparr>"

definition restoreState :: "lifecycle_state option \<Rightarrow> lifecycle \<Rightarrow> lifecycle" where
  "restoreState value lc =
     (case value of
        None \<Rightarrow> lc
      | Some state \<Rightarrow>
          if persisted_occurrence state < 0 \<or> persisted_occurrence state > 9007199254740991 then lc
          else lc\<lparr>lc_occurrence := persisted_occurrence state,
                  lc_records := fold (\<lambda>r. jset (coordinate (record_plugin_id r) (record_plugin_version r)) r) (persisted_records state) []\<rparr>)"

definition new_lifecycle :: "lifecycle_state option \<Rightarrow> lifecycle" where
  "new_lifecycle stored =
     restoreState stored \<lparr>lc_records = [], lc_manifests = [], lc_files = [], lc_occurrence = 0, lc_staged = [], lc_persisted = stored\<rparr>"

definition inspection_failure :: "package_inspection \<Rightarrow> string" where
  "inspection_failure i = (case inspection_issues i of code # _ \<Rightarrow> code | [] \<Rightarrow> ''security:package_digest_mismatch'')"

definition stage :: "string \<Rightarrow> plugin_manifest \<Rightarrow> package_contents \<Rightarrow> staged_kind \<Rightarrow> lifecycle \<Rightarrow> lifecycle" where
  "stage key m files kind lc =
     lc\<lparr>lc_occurrence := lc_occurrence lc + 1,
        lc_staged := lc_staged lc @ [\<lparr>staged_occurrence = lc_occurrence lc + 1, staged_key = key, staged_manifest = m, staged_files = files, staged_kind = kind\<rparr>]\<rparr>"

text \<open>\<open>install\<close> up to the staging of the files: an error, the record that is already there, or a staged operation.\<close>

definition install :: "package_digests \<Rightarrow> plugin_manifest \<Rightarrow> package_contents \<Rightarrow> inspection_limits \<Rightarrow> lifecycle \<Rightarrow> string + package_record option \<times> lifecycle" where
  "install dg m files limits lc =
     (let inspection = inspectPluginPackage dg (Some m) files limits; key = coordinate (manifest_plugin_id m) (manifest_plugin_version m)
      in case inspection_digest inspection of
           None \<Rightarrow> Inl (inspection_failure inspection)
         | Some d \<Rightarrow>
             if \<not> inspection_valid inspection then Inl (inspection_failure inspection)
             else
               let fresh = stage key m files (Installing \<lparr>record_plugin_id = manifest_plugin_id m, record_plugin_version = manifest_plugin_version m, record_digest = d, record_state = Installed\<rparr>) lc
               in (case jget (lc_records lc) key of
                     Some existing \<Rightarrow>
                       if record_digest existing \<noteq> d then Inl ''security:package_coordinate_collision''
                       else if record_state existing \<noteq> Removed then Inr (Some existing, lc)
                       else Inr (None, fresh)
                   | None \<Rightarrow> Inr (None, fresh)))"

definition repair :: "package_digests \<Rightarrow> string \<Rightarrow> string \<Rightarrow> plugin_manifest \<Rightarrow> package_contents \<Rightarrow> inspection_limits \<Rightarrow> lifecycle \<Rightarrow> string + lifecycle" where
  "repair dg plugin version m files limits lc =
     (let key = coordinate plugin version; inspection = inspectPluginPackage dg (Some m) files limits
      in case (jget (lc_records lc) key, inspection_digest inspection) of
           (Some existing, Some d) \<Rightarrow>
             if \<not> inspection_valid inspection then Inl (inspection_failure inspection)
             else if record_digest existing \<noteq> d then Inl ''security:package_coordinate_collision''
             else Inr (stage key m files Repairing lc)
         | _ \<Rightarrow> Inl (inspection_failure inspection))"

text \<open>The rest of an operation once staging and publishing have succeeded or failed.\<close>

definition staged_done :: "staged_operation \<Rightarrow> bool \<Rightarrow> lifecycle \<Rightarrow> lifecycle" where
  "staged_done op ok lc =
     (let lc = lc\<lparr>lc_staged := removeAll op (lc_staged lc)\<rparr>
      in if \<not> ok then lc
         else persistState
           (lc\<lparr>lc_records := (case staged_kind op of Installing r \<Rightarrow> jset (staged_key op) r (lc_records lc) | Repairing \<Rightarrow> lc_records lc),
               lc_manifests := jset (staged_key op) (staged_manifest op) (lc_manifests lc),
               lc_files := jset (staged_key op) (staged_files op) (lc_files lc)\<rparr>))"

definition activate :: "string \<Rightarrow> string \<Rightarrow> string \<Rightarrow> lifecycle \<Rightarrow> string + lifecycle" where
  "activate plugin version packageDigest lc =
     (let key = coordinate plugin version
      in case jget (lc_records lc) key of
           None \<Rightarrow> Inl ''security:package_activation_invalid''
         | Some existing \<Rightarrow>
             if record_state existing = Removed \<or> record_digest existing \<noteq> packageDigest then Inl ''security:package_activation_invalid''
             else Inr (persistState (lc\<lparr>lc_records := jset key (existing\<lparr>record_state := Active\<rparr>) (lc_records lc)\<rparr>)))"

definition remove_package :: "string \<Rightarrow> string \<Rightarrow> lifecycle \<Rightarrow> string + lifecycle" where
  "remove_package plugin version lc =
     (let key = coordinate plugin version
      in case jget (lc_records lc) key of
           None \<Rightarrow> Inl ''security:package_digest_mismatch''
         | Some existing \<Rightarrow> Inr (persistState (lc\<lparr>lc_records := jset key (existing\<lparr>record_state := Removed\<rparr>) (lc_records lc)\<rparr>)))"

text \<open>\<open>recover\<close> with the stored state and the installation publications of the store.\<close>

definition recover :: "lifecycle_state option \<Rightarrow> (string \<times> package_record) list \<Rightarrow> lifecycle \<Rightarrow> lifecycle" where
  "recover stored publications lc =
     persistState (fold (\<lambda>(key, r) lc. if jhas (lc_records lc) key then lc else lc\<lparr>lc_records := jset key r (lc_records lc)\<rparr>) publications (restoreState stored lc))"

section \<open>Steps\<close>

datatype lifecycle_event =
    Install plugin_manifest package_contents inspection_limits
  | Repair string string plugin_manifest package_contents inspection_limits
  | Settle staged_operation bool
  | Activate string string string
  | Remove string string
  | Recover bool "(string \<times> package_record) list"

text \<open>
  A call that throws leaves the manager as it was.  A recovery reads the state that was written last, unless the store cannot
  read it, and the installation publications of the store.
\<close>

definition lifecycle_next :: "package_digests \<Rightarrow> lifecycle_event \<Rightarrow> lifecycle \<Rightarrow> lifecycle" where
  "lifecycle_next dg e lc =
     (case e of
        Install m files limits \<Rightarrow> (case install dg m files limits lc of Inl _ \<Rightarrow> lc | Inr (_, lc') \<Rightarrow> lc')
      | Repair plugin version m files limits \<Rightarrow> (case repair dg plugin version m files limits lc of Inl _ \<Rightarrow> lc | Inr lc' \<Rightarrow> lc')
      | Settle op ok \<Rightarrow> if op \<in> set (lc_staged lc) then staged_done op ok lc else lc
      | Activate plugin version d \<Rightarrow> (case activate plugin version d lc of Inl _ \<Rightarrow> lc | Inr lc' \<Rightarrow> lc')
      | Remove plugin version \<Rightarrow> (case remove_package plugin version lc of Inl _ \<Rightarrow> lc | Inr lc' \<Rightarrow> lc')
      | Recover readable publications \<Rightarrow> recover (if readable then lc_persisted lc else None) publications lc)"

end
