(* ===== verification/Package_Laws.thy ===== *)
theory Package_Laws
  imports Semver Plugin_Packages
begin

text \<open>
  What an inspected package guarantees, and what the manager keeps of a plugin coordinate: its digest never changes
  while installations of one coordinate do not overlap and no recovery runs during an installation.
\<close>

section \<open>Valid packages\<close>

definition good_entry :: "package_digests \<Rightarrow> package_contents \<Rightarrow> inspection_limits \<Rightarrow> package_entry \<Rightarrow> bool" where
  "good_entry dg files limits f \<longleftrightarrow>
     validRelativePath (entry_path f) \<and> 0 \<le> entry_byte_length f \<and> entry_byte_length f \<le> 9007199254740991 \<and> \<not> above_limit (entry_byte_length f) (limit_file_bytes limits)
   \<and> (\<exists>bytes. jget files (entry_path f) = Some bytes \<and> int (length bytes) = entry_byte_length f \<and> file_digest dg bytes = content_digest f)"

lemma issue_when_Nil [simp]: "issue_when b code = [] \<longleftrightarrow> \<not> b"
  by (simp add: issue_when_def)

lemma inspect_entry_issues:
  "found_issues (inspect_entry dg files limits (Entry f) st) = [] \<longleftrightarrow> found_issues st = [] \<and> good_entry dg files limits f \<and> entry_path f \<notin> set (seen_paths st)"
  by (auto simp: inspect_entry_def complete_entry_def good_entry_def Let_def split: option.splits)

lemma inspect_malformed: "found_issues (inspect_entry dg files limits MalformedEntry st) \<noteq> []"
  by (simp add: inspect_entry_def)

lemma inspect_entry_effect:
  "good_entry dg files limits f \<Longrightarrow> seen_paths (inspect_entry dg files limits (Entry f) st) = entry_path f # seen_paths st
     \<and> total_bytes (inspect_entry dg files limits (Entry f) st) = total_bytes st + entry_byte_length f"
  by (auto simp: inspect_entry_def complete_entry_def good_entry_def Let_def)

definition good_entries :: "package_digests \<Rightarrow> package_contents \<Rightarrow> inspection_limits \<Rightarrow> string list \<Rightarrow> raw_entry list \<Rightarrow> package_entry list \<Rightarrow> bool" where
  "good_entries dg files limits seen es fs \<longleftrightarrow>
     es = map Entry fs \<and> (\<forall>f \<in> set fs. good_entry dg files limits f) \<and> distinct (map entry_path fs) \<and> entry_path ` set fs \<inter> set seen = {}"

lemma good_entries_Cons:
  "(\<exists>fs. good_entries dg files limits seen (Entry f # es) fs) \<longleftrightarrow>
   good_entry dg files limits f \<and> entry_path f \<notin> set seen \<and> (\<exists>fs. good_entries dg files limits (entry_path f # seen) es fs)"
proof
  assume "\<exists>fs. good_entries dg files limits seen (Entry f # es) fs"
  then obtain gs where gs: "good_entries dg files limits seen (Entry f # es) gs" by blast
  then obtain fs where "gs = f # fs" by (cases gs) (auto simp: good_entries_def)
  then have "good_entries dg files limits seen (Entry f # es) (f # fs)" using gs by simp
  then show "good_entry dg files limits f \<and> entry_path f \<notin> set seen \<and> (\<exists>fs. good_entries dg files limits (entry_path f # seen) es fs)"
    by (auto simp: good_entries_def intro!: exI [of _ fs])
next
  assume "good_entry dg files limits f \<and> entry_path f \<notin> set seen \<and> (\<exists>fs. good_entries dg files limits (entry_path f # seen) es fs)"
  then obtain fs where "good_entry dg files limits f" "entry_path f \<notin> set seen" "good_entries dg files limits (entry_path f # seen) es fs" by blast
  then have "good_entries dg files limits seen (Entry f # es) (f # fs)" by (auto simp: good_entries_def)
  then show "\<exists>fs. good_entries dg files limits seen (Entry f # es) fs" by blast
qed

lemma fold_inspect_issues:
  "found_issues (fold (inspect_entry dg files limits) es st) = [] \<longleftrightarrow>
   found_issues st = [] \<and> (\<exists>fs. good_entries dg files limits (seen_paths st) es fs)"
proof (induction es arbitrary: st)
  case Nil
  then show ?case by (simp add: good_entries_def)
next
  case (Cons e es)
  show ?case
  proof (cases e)
    case MalformedEntry
    have "\<not> (\<exists>fs. good_entries dg files limits (seen_paths st) (e # es) fs)" unfolding MalformedEntry good_entries_def by auto
    then show ?thesis using Cons [of "inspect_entry dg files limits e st"] inspect_malformed MalformedEntry by simp
  next
    case (Entry f)
    show ?thesis
    proof (cases "good_entry dg files limits f")
      case True
      then show ?thesis using Cons [of "inspect_entry dg files limits e st"] inspect_entry_issues [of dg files limits f st] inspect_entry_effect [OF True, of st]
        unfolding Entry good_entries_Cons by auto
    next
      case False
      then show ?thesis using Cons [of "inspect_entry dg files limits e st"] inspect_entry_issues [of dg files limits f st]
        unfolding Entry good_entries_Cons by auto
    qed
  qed
qed

lemma fold_inspect_effect:
  "\<forall>f \<in> set fs. good_entry dg files limits f \<Longrightarrow>
   set (seen_paths (fold (inspect_entry dg files limits) (map Entry fs) st)) = entry_path ` set fs \<union> set (seen_paths st)
   \<and> total_bytes (fold (inspect_entry dg files limits) (map Entry fs) st) = total_bytes st + sum_list (map entry_byte_length fs)"
proof (induction fs arbitrary: st)
  case (Cons f fs)
  then show ?case using inspect_entry_effect [of dg files limits f st] by auto
qed simp

text \<open>
  The versions a package may have: three numbers without a leading zero and two optional labels of any letters, digits, dots and
  dashes.  Every SemVer 2.0.0 version is one, but a label may also have empty identifiers or numbers with a leading zero.
\<close>

definition version_shape :: "string \<Rightarrow> bool" where
  "version_shape v \<longleftrightarrow>
     (\<exists>a b c pre build. list_all numeric_id [a, b, c]
       \<and> (pre = [] \<or> (\<exists>l. pre = CHR ''-'' # l \<and> l \<noteq> [] \<and> list_all (\<lambda>x. ident_char x \<or> x = CHR ''.'') l))
       \<and> (build = [] \<or> (\<exists>l. build = CHR ''+'' # l \<and> l \<noteq> [] \<and> list_all (\<lambda>x. ident_char x \<or> x = CHR ''.'') l))
       \<and> v = a @ ''.'' @ b @ ''.'' @ c @ pre @ build)"

lemma char_classes: "ascii_digit = digit" "(\<lambda>c. digit c \<or> ascii_letter c \<or> c = CHR ''.'' \<or> c = CHR ''-'') = (\<lambda>c. ident_char c \<or> c = CHR ''.'')"
  by (auto simp: fun_eq_iff ascii_digit_def ascii_letter_def digit_def ident_char_def Let_def)

lemma version_number_id: "version_number = numeric_id"
proof
  show "version_number s = numeric_id s" for s by (cases s) (auto simp: version_number_def numeric_id_def char_classes)
qed

lemma version_label_iff: "version_label mark s \<longleftrightarrow> s = [] \<or> (\<exists>l. s = mark # l \<and> l \<noteq> [] \<and> list_all (\<lambda>x. ident_char x \<or> x = CHR ''.'') l)"
  by (cases s) (auto simp: version_label_def char_classes)

lemma numeric_id_chars: "numeric_id s \<Longrightarrow> x \<in> set s \<Longrightarrow> x \<noteq> CHR ''.'' \<and> x \<noteq> CHR ''-'' \<and> x \<noteq> CHR ''+''"
  by (auto simp: numeric_id_def list_all_iff digit_def)

lemma three_numbers:
  "length ws = 3 \<and> list_all numeric_id ws \<longleftrightarrow> (\<exists>a b c. ws = [a, b, c] \<and> list_all numeric_id [a, b, c])"
  by (auto simp: numeral_3_eq_3 length_Suc_conv)

lemma split_numbers:
  assumes "list_all numeric_id [a, b, c]"
  shows "split_on CHR ''.'' (a @ ''.'' @ b @ ''.'' @ c) = [a, b, c]"
proof -
  have "CHR ''.'' \<notin> set a" "CHR ''.'' \<notin> set b" "CHR ''.'' \<notin> set c" using assms numeric_id_chars by auto
  then show ?thesis using split_on_append [of "CHR ''.''" a "b @ ''.'' @ c"] split_on_append [of "CHR ''.''" b c] split_on_word [of "CHR ''.''" c] by simp
qed

lemma takeWhile_mark:
  assumes "\<forall>x \<in> set p. x \<noteq> m" and "q = [] \<or> (\<exists>l. q = m # l)"
  shows "takeWhile (\<lambda>c. c \<noteq> m) (p @ q) = p" "dropWhile (\<lambda>c. c \<noteq> m) (p @ q) = q"
  using assms by (auto simp: takeWhile_append dropWhile_append)

lemma validSemVer_shape: "validSemVer v = version_shape v"
proof
  assume valid: "validSemVer v"
  define main where "main = takeWhile (\<lambda>c. c \<noteq> CHR ''+'') v"
  define build where "build = dropWhile (\<lambda>c. c \<noteq> CHR ''+'') v"
  define core where "core = takeWhile (\<lambda>c. c \<noteq> CHR ''-'') main"
  define pre where "pre = dropWhile (\<lambda>c. c \<noteq> CHR ''-'') main"
  have "v = main @ build" "main = core @ pre" by (simp_all add: main_def build_def core_def pre_def)
  then have v: "v = core @ pre @ build" by simp
  have ok: "length (split_on CHR ''.'' core) = 3 \<and> list_all numeric_id (split_on CHR ''.'' core)" "version_label CHR ''-'' pre" "version_label CHR ''+'' build"
    using valid by (simp_all add: validSemVer_def Let_def version_number_id main_def build_def core_def pre_def)
  then obtain a b c where abc: "split_on CHR ''.'' core = [a, b, c]" "list_all numeric_id [a, b, c]" unfolding three_numbers by blast
  have "core = join_on CHR ''.'' [a, b, c]" using abc(1) join_split [of "CHR ''.''" core] by simp
  then have "v = a @ ''.'' @ b @ ''.'' @ c @ pre @ build" using v by simp
  then show "version_shape v" using abc(2) ok(2,3) unfolding version_shape_def version_label_iff by blast
next
  assume "version_shape v"
  then obtain a b c pre build where abc: "list_all numeric_id [a, b, c]" and labels: "version_label CHR ''-'' pre" "version_label CHR ''+'' build"
    and v: "v = a @ ''.'' @ b @ ''.'' @ c @ pre @ build" unfolding version_shape_def version_label_iff by blast
  define core where "core = a @ ''.'' @ b @ ''.'' @ c"
  have core: "\<forall>x \<in> set core. x \<noteq> CHR ''-'' \<and> x \<noteq> CHR ''+''" using abc numeric_id_chars by (auto simp: core_def)
  have "\<not> (ident_char CHR ''+'' \<or> CHR ''+'' = CHR ''.'')" by code_simp
  then have "CHR ''+'' \<notin> set l" if "list_all (\<lambda>x. ident_char x \<or> x = CHR ''.'') l" for l using that unfolding list_all_iff by blast
  then have plus: "\<forall>x \<in> set pre. x \<noteq> CHR ''+''" using labels(1) by (auto simp: version_label_iff)
  have eq: "v = (core @ pre) @ build" by (simp add: v core_def)
  have split1: "takeWhile (\<lambda>c. c \<noteq> CHR ''+'') v = core @ pre" "dropWhile (\<lambda>c. c \<noteq> CHR ''+'') v = build"
    unfolding eq using core plus labels(2) by (intro takeWhile_mark; auto simp: version_label_iff)+
  have split2: "takeWhile (\<lambda>c. c \<noteq> CHR ''-'') (core @ pre) = core" "dropWhile (\<lambda>c. c \<noteq> CHR ''-'') (core @ pre) = pre"
    using core labels(1) by (intro takeWhile_mark; auto simp: version_label_iff)+
  have words: "split_on CHR ''.'' core = [a, b, c]" unfolding core_def using abc by (rule split_numbers)
  show "validSemVer v" unfolding validSemVer_def Let_def split1 split2 words using abc labels by (simp add: version_number_id)
qed

text \<open>
  C19.  A package is valid exactly when its manifest is closed, of the supported format, with a namespaced identifier, a
  version of the shape \<open>version_shape\<close> and at least one file (the documents ask for SemVer 2.0.0, which the check implies only up to
  the identifiers of the labels, see \<open>lax_version\<close> and \<open>semver_accepted\<close>); the declared paths are distinct normalised relative paths and are the paths of the
  contents; every file has the declared length and digest and respects the limits; and the manifest can be encoded.
\<close>

theorem inspection_exact:
  "inspection_valid (inspectPluginPackage dg (Some m) files limits) \<longleftrightarrow>
     (\<exists>fs. package_files m = Some (map Entry fs) \<and> fs \<noteq> [] \<and> closed_manifest m \<and> package_format_id m = ''core:plugin'' \<and> package_format_version m = 1
       \<and> validNamespacedIdentifier (manifest_plugin_id m) \<and> version_shape (manifest_plugin_version m)
       \<and> list_all (good_entry dg files limits) fs \<and> distinct (map entry_path fs) \<and> set (map entry_path fs) = set (jkeys files)
       \<and> \<not> above_limit (sum_list (map entry_byte_length fs)) (limit_total_bytes limits) \<and> manifest_digest dg m \<noteq> None)"
proof (cases "package_files m")
  case None
  then show ?thesis by (simp add: inspectPluginPackage_def)
next
  case (Some es)
  define st0 where "st0 = \<lparr>found_issues = header_issues m es, seen_paths = [], total_bytes = 0\<rparr>"
  define st where "st = fold (inspect_entry dg files limits) es st0"
  have header: "header_issues m es = [] \<longleftrightarrow> es \<noteq> [] \<and> closed_manifest m \<and> package_format_id m = ''core:plugin'' \<and> package_format_version m = 1
     \<and> validNamespacedIdentifier (manifest_plugin_id m) \<and> version_shape (manifest_plugin_version m)" by (auto simp: header_issues_def validSemVer_shape)
  have valid: "inspection_valid (inspectPluginPackage dg (Some m) files limits) \<longleftrightarrow>
    found_issues st = [] \<and> set (jkeys files) \<subseteq> set (seen_paths st) \<and> \<not> above_limit (total_bytes st) (limit_total_bytes limits) \<and> manifest_digest dg m \<noteq> None"
    by (auto simp: inspectPluginPackage_def Some st_def st0_def Let_def filter_empty_conv)
  have issues: "found_issues st = [] \<longleftrightarrow> header_issues m es = [] \<and> (\<exists>fs. good_entries dg files limits [] es fs)"
    unfolding st_def fold_inspect_issues by (simp add: st0_def)
  have effect: "set (seen_paths st) = entry_path ` set fs \<and> total_bytes st = sum_list (map entry_byte_length fs) \<and> entry_path ` set fs \<subseteq> set (jkeys files)"
    if "good_entries dg files limits [] es fs" for fs
  proof -
    have good: "\<forall>f \<in> set fs. good_entry dg files limits f" "es = map Entry fs" using that by (auto simp: good_entries_def)
    have "entry_path f \<in> set (jkeys files)" if "f \<in> set fs" for f
    proof -
      have "good_entry dg files limits f" using good(1) that by (rule bspec)
      then have "jget files (entry_path f) \<noteq> None" by (auto simp: good_entry_def)
      then show ?thesis using jget_Some_key [of files "entry_path f"] by blast
    qed
    then have "entry_path ` set fs \<subseteq> set (jkeys files)" by (rule image_subsetI)
    moreover have "set (seen_paths st) = entry_path ` set fs" "total_bytes st = sum_list (map entry_byte_length fs)"
      using fold_inspect_effect [OF good(1), of st0] unfolding st_def good(2) by (simp_all add: st0_def)
    ultimately show ?thesis by (intro conjI)
  qed
  show ?thesis
  proof
    assume "inspection_valid (inspectPluginPackage dg (Some m) files limits)"
    then obtain fs where v: "header_issues m es = []" "good_entries dg files limits [] es fs" "set (jkeys files) \<subseteq> set (seen_paths st)"
      "\<not> above_limit (total_bytes st) (limit_total_bytes limits)" "manifest_digest dg m \<noteq> None" unfolding valid issues by blast
    then show "\<exists>fs. package_files m = Some (map Entry fs) \<and> fs \<noteq> [] \<and> closed_manifest m \<and> package_format_id m = ''core:plugin'' \<and> package_format_version m = 1
       \<and> validNamespacedIdentifier (manifest_plugin_id m) \<and> version_shape (manifest_plugin_version m)
       \<and> list_all (good_entry dg files limits) fs \<and> distinct (map entry_path fs) \<and> set (map entry_path fs) = set (jkeys files)
       \<and> \<not> above_limit (sum_list (map entry_byte_length fs)) (limit_total_bytes limits) \<and> manifest_digest dg m \<noteq> None"
      using effect [OF v(2)] header Some by (intro exI [of _ fs]) (auto simp: good_entries_def list_all_iff)
  next
    assume "\<exists>fs. package_files m = Some (map Entry fs) \<and> fs \<noteq> [] \<and> closed_manifest m \<and> package_format_id m = ''core:plugin'' \<and> package_format_version m = 1
       \<and> validNamespacedIdentifier (manifest_plugin_id m) \<and> version_shape (manifest_plugin_version m)
       \<and> list_all (good_entry dg files limits) fs \<and> distinct (map entry_path fs) \<and> set (map entry_path fs) = set (jkeys files)
       \<and> \<not> above_limit (sum_list (map entry_byte_length fs)) (limit_total_bytes limits) \<and> manifest_digest dg m \<noteq> None"
    then obtain fs where fs: "es = map Entry fs" "fs \<noteq> []" "header_issues m es = []" "good_entries dg files limits [] es fs" "set (map entry_path fs) = set (jkeys files)"
      "\<not> above_limit (sum_list (map entry_byte_length fs)) (limit_total_bytes limits)" "manifest_digest dg m \<noteq> None"
      unfolding header Some by (auto simp: good_entries_def list_all_iff)
    then show "inspection_valid (inspectPluginPackage dg (Some m) files limits)" unfolding valid issues using effect [OF fs(4)] by auto
  qed
qed

text \<open>Every version of the standard passes the check, and so do versions that the parser of the plugin resolver refuses.\<close>

lemma label_text:
  assumes "list_all build_id ws"
  shows "(if ws \<noteq> [] then mark # join_on CHR ''.'' ws else []) = []
    \<or> (\<exists>l. (if ws \<noteq> [] then mark # join_on CHR ''.'' ws else []) = mark # l \<and> l \<noteq> [] \<and> list_all (\<lambda>x. ident_char x \<or> x = CHR ''.'') l)"
proof (cases "ws = []")
  case False
  have "list_all (\<lambda>x. ident_char x \<or> x = CHR ''.'') (join_on CHR ''.'' ws)"
    using assms join_chars [of "CHR ''.''" ws] by (fastforce simp: build_id_def list_all_iff)
  moreover have "join_on CHR ''.'' ws \<noteq> []" using assms False by (cases ws rule: remdups_adj.cases) (auto simp: build_id_def)
  ultimately show ?thesis using False by simp
qed simp

lemma digit_ident: "digit c \<Longrightarrow> ident_char c"
  by (simp add: ident_char_def)

lemma semver_accepted: "parseInternal v = Inr p \<Longrightarrow> validSemVer v"
proof -
  assume "parseInternal v = Inr p"
  then obtain core pre build where "semver_match v = Some (core, pre, build)" by (auto simp: parseInternal_def split: option.splits)
  then have v: "core_ok core" "list_all prerelease_id pre" "list_all build_id build" "v = normalized_text core pre build" using match_sound by blast+
  obtain a b c where abc: "core = [a, b, c]" "list_all numeric_id [a, b, c]" using v(1) three_numbers [of core] unfolding core_ok_def by blast
  have num: "build_id w" if "numeric_id w" for w
    using that by (auto simp: build_id_def numeric_id_def list_all_iff ident_char_def [of "CHR ''0''"] digit_def [of "CHR ''0''"] dest: digit_ident)
  have "build_id w" if "prerelease_id w" for w
    using that num by (auto simp: prerelease_id_def build_id_def)
  then have pre: "list_all build_id pre" using v(2) by (simp add: list_all_iff)
  define P where "P = (if pre \<noteq> [] then CHR ''-'' # join_on CHR ''.'' pre else [])"
  define B where "B = (if build \<noteq> [] then CHR ''+'' # join_on CHR ''.'' build else [])"
  have "v = a @ ''.'' @ b @ ''.'' @ c @ P @ B" using v(4) by (simp add: normalized_text_def abc(1) P_def B_def)
  then show ?thesis unfolding validSemVer_shape version_shape_def
    using abc(2) label_text [OF pre, of "CHR ''-''", folded P_def] label_text [OF v(3), of "CHR ''+''", folded B_def] by blast
qed

lemma lax_version:
  "validSemVer ''1.0.0-01'' \<and> parseInternal ''1.0.0-01'' = Inl VersionInvalid" "validSemVer ''1.0.0-..'' \<and> parseInternal ''1.0.0-..'' = Inl VersionInvalid"
  by code_simp+

section \<open>The digest of a coordinate\<close>

definition installing :: "lifecycle \<Rightarrow> string \<Rightarrow> package_record \<Rightarrow> bool" where
  "installing lc key r \<longleftrightarrow> (\<exists>op \<in> set (lc_staged lc). staged_key op = key \<and> staged_kind op = Installing r)"

abbreviation record_key :: "package_record \<Rightarrow> string" where
  "record_key r \<equiv> coordinate (record_plugin_id r) (record_plugin_version r)"

text \<open>
  The steps of the manager in which an installation waits for another one of the same coordinate, and a recovery for all of
  them; the publications that are recovered name the coordinate of their record, as \<open>install\<close> publishes them.
\<close>

definition waits_turn :: "lifecycle \<Rightarrow> lifecycle_event \<Rightarrow> bool" where
  "waits_turn lc e \<longleftrightarrow> (case e of
      Install m files limits \<Rightarrow> \<forall>r. \<not> installing lc (coordinate (manifest_plugin_id m) (manifest_plugin_version m)) r
    | Recover readable publications \<Rightarrow> (\<forall>key r. \<not> installing lc key r) \<and> (\<forall>(key, r) \<in> set publications. key = record_key r)
    | _ \<Rightarrow> True)"

inductive lifecycle_step :: "package_digests \<Rightarrow> lifecycle \<Rightarrow> lifecycle_event \<Rightarrow> lifecycle \<Rightarrow> bool" for dg where
  lifecycle_step: "waits_turn lc e \<Longrightarrow> lifecycle_step dg lc e (lifecycle_next dg e lc)"

inductive_simps lifecycle_step_iff: "lifecycle_step dg lc e lc'"

definition staged_agree :: "lifecycle \<Rightarrow> bool" where
  "staged_agree lc \<longleftrightarrow>
     (\<forall>key r s. installing lc key r \<longrightarrow> installing lc key s \<longrightarrow> record_digest r = record_digest s)
   \<and> (\<forall>key r s. installing lc key r \<longrightarrow> jget (lc_records lc) key = Some s \<longrightarrow> record_digest r = record_digest s)"

definition keeps_digests :: "lifecycle \<Rightarrow> lifecycle \<Rightarrow> bool" where
  "keeps_digests lc lc' \<longleftrightarrow> (\<forall>key r. jget (lc_records lc) key = Some r \<longrightarrow> (\<exists>r'. jget (lc_records lc') key = Some r' \<and> record_digest r' = record_digest r))"

lemma keeps_refl [simp]: "keeps_digests lc lc"
  by (simp add: keeps_digests_def)

lemma persist_simps [simp]: "lc_records (persistState lc) = lc_records lc" "lc_staged (persistState lc) = lc_staged lc"
  by (simp_all add: persistState_def)

lemma installing_persist [simp]: "installing (persistState lc) key r = installing lc key r"
  by (simp add: installing_def)

lemma keeps_same: "lc_records lc' = lc_records lc \<Longrightarrow> keeps_digests lc lc'"
  by (simp add: keeps_digests_def)

lemma same_digests:
  assumes staged: "lc_staged lc' = lc_staged lc"
    and same: "\<And>k. map_option record_digest (jget (lc_records lc') k) = map_option record_digest (jget (lc_records lc) k)" and agree: "staged_agree lc"
  shows "staged_agree lc' \<and> keeps_digests lc lc'"
proof -
  have inst: "installing lc' = installing lc" by (simp add: installing_def staged fun_eq_iff)
  have other: "\<exists>r. jget (lc_records lc) k = Some r \<and> record_digest r = record_digest s" if "jget (lc_records lc') k = Some s" for k s
    using same [of k] that by (cases "jget (lc_records lc) k") simp_all
  have "record_digest r = record_digest s" if "installing lc k r" "jget (lc_records lc') k = Some s" for k r s
    using other [OF that(2)] agree that(1) unfolding staged_agree_def by metis
  moreover have "keeps_digests lc lc'" unfolding keeps_digests_def
  proof (intro allI impI)
    fix k r
    assume "jget (lc_records lc) k = Some r"
    then show "\<exists>r'. jget (lc_records lc') k = Some r' \<and> record_digest r' = record_digest r" using same [of k] by (cases "jget (lc_records lc') k") simp_all
  qed
  ultimately show ?thesis using agree unfolding staged_agree_def inst by blast
qed

lemma set_same_digest:
  assumes "jget (lc_records lc) key = Some x" and "record_digest y = record_digest x" and "staged_agree lc"
  shows "staged_agree (persistState (lc\<lparr>lc_records := jset key y (lc_records lc)\<rparr>)) \<and> keeps_digests lc (persistState (lc\<lparr>lc_records := jset key y (lc_records lc)\<rparr>))"
  by (rule same_digests) (use assms in simp_all)

lemma stage_simps: "lc_records (stage key m files kind lc) = lc_records lc"
  "installing (stage key m files kind lc) k r \<longleftrightarrow> installing lc k r \<or> k = key \<and> kind = Installing r"
  by (auto simp: stage_def installing_def)

lemma install_cases:
  assumes "install dg m files limits lc = Inr (x, lc')"
  defines "key \<equiv> coordinate (manifest_plugin_id m) (manifest_plugin_version m)"
  shows "lc' = lc \<or> (\<exists>r. lc' = stage key m files (Installing r) lc \<and> record_key r = key \<and> (\<forall>s. jget (lc_records lc) key = Some s \<longrightarrow> record_digest s = record_digest r))"
  using assms by (auto simp: install_def Let_def split: option.splits if_splits)

lemma repair_cases: "repair dg plugin version m files limits lc = Inr lc' \<Longrightarrow> lc' = stage (coordinate plugin version) m files Repairing lc"
  by (auto simp: repair_def Let_def split: option.splits if_splits)

lemma settle_installing: "installing (staged_done op ok lc) key r \<Longrightarrow> installing lc key r"
  by (auto simp: staged_done_def installing_def Let_def split: if_splits)

lemma settle_records:
  "lc_records (staged_done op ok lc) = (if ok then (case staged_kind op of Installing r \<Rightarrow> jset (staged_key op) r (lc_records lc) | Repairing \<Rightarrow> lc_records lc) else lc_records lc)"
  by (simp add: staged_done_def Let_def split: staged_kind.splits)

lemma settle_keeps:
  assumes "op \<in> set (lc_staged lc)" and "staged_agree lc"
  shows "staged_agree (staged_done op ok lc) \<and> keeps_digests lc (staged_done op ok lc)"
proof (cases "ok \<and> (\<exists>r. staged_kind op = Installing r)")
  case False
  then have "lc_records (staged_done op ok lc) = lc_records lc" by (auto simp: settle_records split: staged_kind.splits)
  then show ?thesis using assms(2) settle_installing unfolding staged_agree_def keeps_digests_def by metis
next
  case True
  then obtain r where r: "staged_kind op = Installing r" by blast
  have mine: "installing lc (staged_key op) r" using assms(1) r unfolding installing_def by blast
  have rec: "jget (lc_records (staged_done op ok lc)) key = (if key = staged_key op then Some r else jget (lc_records lc) key)" for key
    using True r by (auto simp: settle_records)
  have "staged_agree (staged_done op ok lc)" unfolding staged_agree_def rec
  proof (intro conjI allI impI)
    fix key x y
    assume "installing (staged_done op ok lc) key x" "(if key = staged_key op then Some r else jget (lc_records lc) key) = Some y"
    then show "record_digest x = record_digest y" using settle_installing mine assms(2) unfolding staged_agree_def by (metis option.inject)
  qed (use settle_installing assms(2) in \<open>unfold staged_agree_def, blast\<close>)
  moreover have "keeps_digests lc (staged_done op ok lc)" unfolding keeps_digests_def rec
  proof (intro allI impI)
    fix key x
    assume x: "jget (lc_records lc) key = Some x"
    then have "record_digest r = record_digest x" if "key = staged_key op" using mine assms(2) that unfolding staged_agree_def by blast
    then show "\<exists>r'. (if key = staged_key op then Some r else jget (lc_records lc) key) = Some r' \<and> record_digest r' = record_digest x" using x by simp
  qed
  ultimately show ?thesis by blast
qed

lemma stage_install_agree:
  assumes "staged_agree lc" and "\<forall>r. \<not> installing lc key r" and "\<forall>s. jget (lc_records lc) key = Some s \<longrightarrow> record_digest s = record_digest r"
  shows "staged_agree (stage key m files (Installing r) lc)"
  using assms unfolding staged_agree_def stage_simps by (metis staged_kind.inject)

lemma stage_repair_agree: "staged_agree lc \<Longrightarrow> staged_agree (stage key m files Repairing lc)"
proof -
  have "installing (stage key m files Repairing lc) = installing lc" by (simp add: fun_eq_iff stage_simps)
  then show "staged_agree lc \<Longrightarrow> ?thesis" by (simp only: staged_agree_def stage_simps(1))
qed

section \<open>Stored records\<close>

text \<open>
  Records are stored under their own coordinate, and the state that was written last restores the records the manager has;
  the manager writes its state in the step that changes them.
\<close>

definition records_keyed :: "(string, package_record) jsmap \<Rightarrow> bool" where
  "records_keyed m \<longleftrightarrow> distinct (jkeys m) \<and> (\<forall>(key, r) \<in> set m. key = record_key r)"

definition records_agree :: "lifecycle \<Rightarrow> bool" where
  "records_agree lc \<longleftrightarrow> records_keyed (lc_records lc) \<and> (\<forall>key r. installing lc key r \<longrightarrow> key = record_key r)"

definition restorable :: "lifecycle \<Rightarrow> bool" where
  "restorable lc \<longleftrightarrow> lc_records (restoreState (lc_persisted lc) lc) = lc_records lc"

definition package_inv :: "lifecycle \<Rightarrow> bool" where
  "package_inv lc \<longleftrightarrow> staged_agree lc \<and> records_agree lc \<and> restorable lc"

lemma jset_fresh: "k \<notin> set (jkeys m) \<Longrightarrow> jset k v m = m @ [(k, v)]"
  by (induction m) auto

lemma set_jset: "set (jset k v m) \<subseteq> insert (k, v) (set m)"
  by (induction m) auto

lemma jset_keyed: "records_keyed m \<Longrightarrow> k = record_key v \<Longrightarrow> records_keyed (jset k v m)"
  using set_jset [of k v m] by (fastforce simp: records_keyed_def)

lemma jget_keyed: "records_keyed m \<Longrightarrow> jget m k = Some v \<Longrightarrow> k = record_key v"
  by (auto simp: records_keyed_def dest!: map_of_SomeD)

lemma refold_records:
  "distinct (jkeys acc @ jkeys m) \<Longrightarrow> \<forall>(key, r) \<in> set m. key = record_key r \<Longrightarrow> fold (\<lambda>r. jset (record_key r) r) (map snd m) acc = acc @ m"
proof (induction m arbitrary: acc)
  case (Cons x m)
  obtain r where x: "x = (record_key r, r)" using Cons.prems(2) by (cases x) auto
  then have "record_key r \<notin> set (jkeys acc)" using Cons.prems(1) by auto
  then have "jset (record_key r) r acc = acc @ [x]" unfolding x by (rule jset_fresh)
  then show ?case using Cons.IH [of "acc @ [x]"] Cons.prems x by simp
qed simp

lemma fold_records_keyed: "records_keyed acc \<Longrightarrow> records_keyed (fold (\<lambda>r. jset (record_key r) r) rs acc)"
  by (induction rs arbitrary: acc) (simp_all add: jset_keyed)

lemma restore_simps [simp]: "lc_staged (restoreState st lc) = lc_staged lc" "lc_persisted (restoreState st lc) = lc_persisted lc"
  by (simp_all add: restoreState_def split: option.splits)

lemma restorable_cong: "lc_records lc' = lc_records lc \<Longrightarrow> lc_persisted lc' = lc_persisted lc \<Longrightarrow> restorable lc' = restorable lc"
  by (auto simp: restorable_def restoreState_def split: option.splits)

lemma persisted_restorable: "records_agree lc \<Longrightarrow> restorable (persistState lc)"
  using refold_records [of "[]" "lc_records lc"] by (simp add: restorable_def restoreState_def persistState_def records_agree_def records_keyed_def)

lemma records_agree_persist [simp]: "records_agree (persistState lc) = records_agree lc"
  by (simp add: records_agree_def)

lemma stage_inv:
  assumes "package_inv lc" and "staged_agree (stage key m files kind lc)" and "\<And>r. kind = Installing r \<Longrightarrow> record_key r = key"
  shows "package_inv (stage key m files kind lc) \<and> keeps_digests lc (stage key m files kind lc)"
proof -
  have "restorable (stage key m files kind lc) = restorable lc" by (rule restorable_cong) (simp_all add: stage_def)
  moreover have "records_agree (stage key m files kind lc)" using assms(1,3) by (auto simp: package_inv_def records_agree_def stage_simps)
  ultimately show ?thesis using assms(1,2) by (simp add: package_inv_def keeps_same stage_simps)
qed

lemma update_inv:
  assumes "package_inv lc" and "jget (lc_records lc) key = Some x" and "record_digest y = record_digest x" and "record_key y = record_key x"
  shows "package_inv (persistState (lc\<lparr>lc_records := jset key y (lc_records lc)\<rparr>)) \<and> keeps_digests lc (persistState (lc\<lparr>lc_records := jset key y (lc_records lc)\<rparr>))"
proof -
  have "records_keyed (jset key y (lc_records lc))"
    using assms(1,2,4) jget_keyed by (intro jset_keyed) (auto simp: package_inv_def records_agree_def)
  then have "records_agree (lc\<lparr>lc_records := jset key y (lc_records lc)\<rparr>)" using assms(1) by (auto simp: package_inv_def records_agree_def installing_def)
  then show ?thesis using set_same_digest [OF assms(2,3)] assms(1) by (simp add: package_inv_def persisted_restorable)
qed

lemma settle_inv:
  assumes "package_inv lc" and "op \<in> set (lc_staged lc)"
  shows "package_inv (staged_done op ok lc) \<and> keeps_digests lc (staged_done op ok lc)"
proof -
  have inst: "records_agree lc'" if "lc_records lc' = lc_records (staged_done op ok lc)" "lc_staged lc' = lc_staged (staged_done op ok lc)" for lc'
  proof -
    have "staged_key op = record_key r" if "staged_kind op = Installing r" for r
      using assms that by (auto simp: package_inv_def records_agree_def installing_def)
    then have "records_keyed (lc_records lc')"
      using assms(1) jset_keyed that(1) by (auto simp: package_inv_def records_agree_def settle_records split: staged_kind.splits)
    moreover have "installing lc' key r \<Longrightarrow> key = record_key r" for key r
      using settle_installing [of op ok lc key r] assms(1) that(2) by (simp add: package_inv_def records_agree_def installing_def)
    ultimately show ?thesis by (simp add: records_agree_def)
  qed
  have "restorable (staged_done op ok lc)"
  proof (cases ok)
    case True
    then obtain lc' where "staged_done op ok lc = persistState lc'" by (simp add: staged_done_def Let_def)
    then show ?thesis using inst [of lc'] by (simp add: persisted_restorable)
  next
    case False
    then have "restorable (staged_done op ok lc) = restorable lc" by (intro restorable_cong) (simp_all add: staged_done_def)
    then show ?thesis using assms(1) by (simp add: package_inv_def)
  qed
  then show ?thesis using settle_keeps [OF assms(2), of ok] inst [OF refl refl] assms(1) by (simp add: package_inv_def)
qed

text \<open>A recovery adds the published records of unknown coordinates and touches no other.\<close>

definition adopt :: "(string \<times> package_record) list \<Rightarrow> (string, package_record) jsmap \<Rightarrow> (string, package_record) jsmap" where
  "adopt publications records = fold (\<lambda>(key, r) m. if jhas m key then m else jset key r m) publications records"

lemma adopt_records:
  "lc_records (fold (\<lambda>(key, r) lc. if jhas (lc_records lc) key then lc else lc\<lparr>lc_records := jset key r (lc_records lc)\<rparr>) publications lc) = adopt publications (lc_records lc)"
  "lc_staged (fold (\<lambda>(key, r) lc. if jhas (lc_records lc) key then lc else lc\<lparr>lc_records := jset key r (lc_records lc)\<rparr>) publications lc) = lc_staged lc"
  unfolding adopt_def by (induction publications arbitrary: lc) (auto simp: case_prod_beta)

lemma adopt_keeps: "jget records key = Some r \<Longrightarrow> jget (adopt publications records) key = Some r"
proof (induction publications arbitrary: records)
  case (Cons x publications)
  have "jget (if jhas records (fst x) then records else jset (fst x) (snd x) records) key = Some r"
    using Cons.prems jget_Some_key [OF Cons.prems] by (cases "fst x = key") auto
  then show ?case using Cons.IH by (simp add: adopt_def case_prod_beta)
qed (simp add: adopt_def)

lemma adopt_keyed: "records_keyed records \<Longrightarrow> \<forall>(key, r) \<in> set publications. key = record_key r \<Longrightarrow> records_keyed (adopt publications records)"
proof (induction publications arbitrary: records)
  case (Cons x publications)
  obtain key r where x: "x = (key, r)" "key = record_key r" using Cons.prems(2) by (cases x) auto
  have "records_keyed (if jhas records key then records else jset key r records)" using Cons.prems(1) x(2) by (simp add: jset_keyed)
  then show ?case using Cons.IH Cons.prems(2) unfolding x by (auto simp: adopt_def split: if_splits)
qed (simp add: adopt_def)

lemma recover_inv:
  fixes readable :: bool
  assumes "package_inv lc" and "\<forall>key r. \<not> installing lc key r" and "\<forall>(key, r) \<in> set publications. key = record_key r"
  defines "lc' \<equiv> recover (if readable then lc_persisted lc else None) publications lc"
  shows "package_inv lc' \<and> keeps_digests lc lc'"
proof -
  let ?st = "if readable then lc_persisted lc else None"
  define x where "x = fold (\<lambda>(key, r) lc. if jhas (lc_records lc) key then lc else lc\<lparr>lc_records := jset key r (lc_records lc)\<rparr>) publications (restoreState ?st lc)"
  have "lc_records (restoreState ?st lc) = lc_records lc" using assms(1) by (simp add: package_inv_def restorable_def restoreState_def)
  then have x: "lc_records x = adopt publications (lc_records lc)" "lc_staged x = lc_staged lc" unfolding x_def adopt_records by simp_all
  have lc': "lc' = persistState x" by (simp add: lc'_def recover_def x_def)
  have free: "\<not> installing x key r" for key r using assms(2) by (simp add: installing_def x(2))
  have "records_agree x" using adopt_keyed [OF _ assms(3)] assms(1) free by (simp add: package_inv_def records_agree_def x(1))
  moreover have "staged_agree lc'" using free unfolding staged_agree_def lc' by simp
  moreover have "keeps_digests lc lc'" using adopt_keeps unfolding keeps_digests_def lc' by (simp add: x(1))
  ultimately show ?thesis by (simp add: package_inv_def lc' persisted_restorable)
qed

lemma step_keeps:
  assumes "package_inv lc" and "waits_turn lc e"
  shows "package_inv (lifecycle_next dg e lc) \<and> keeps_digests lc (lifecycle_next dg e lc)"
proof (cases e)
  case (Install m files limits)
  let ?key = "coordinate (manifest_plugin_id m) (manifest_plugin_version m)"
  show ?thesis
  proof (cases "install dg m files limits lc")
    case (Inr p)
    obtain x lc' where p: "p = (x, lc')" by (cases p)
    have next_lc: "lifecycle_next dg e lc = lc'" using p Inr Install by (simp add: lifecycle_next_def)
    have free: "\<forall>r. \<not> installing lc ?key r" using assms(2) Install by (simp add: waits_turn_def)
    consider "lc' = lc" | r where "lc' = stage ?key m files (Installing r) lc" "record_key r = ?key" "\<forall>s. jget (lc_records lc) ?key = Some s \<longrightarrow> record_digest s = record_digest r"
      using install_cases [of dg m files limits lc x lc'] p Inr by auto
    then show ?thesis
    proof cases
      case 1
      then show ?thesis unfolding next_lc using assms(1) by simp
    next
      case (2 r)
      have "staged_agree (stage ?key m files (Installing r) lc)" using stage_install_agree [OF _ free 2(3)] assms(1) by (simp add: package_inv_def)
      then show ?thesis unfolding next_lc 2(1) using stage_inv [OF assms(1)] 2(2) by blast
    qed
  qed (use assms Install in \<open>simp add: lifecycle_next_def\<close>)
next
  case (Repair plugin version m files limits)
  have "staged_agree (stage (coordinate plugin version) m files Repairing lc)" using stage_repair_agree assms(1) by (simp add: package_inv_def)
  then show ?thesis using Repair assms(1) repair_cases [of dg plugin version m files limits lc] stage_inv [OF assms(1), of "coordinate plugin version" m files Repairing]
    by (cases "repair dg plugin version m files limits lc") (simp_all add: lifecycle_next_def)
next
  case (Settle op ok)
  then show ?thesis using settle_inv assms(1) by (simp add: lifecycle_next_def)
next
  case (Activate plugin version d)
  show ?thesis
  proof (cases "activate plugin version d lc")
    case (Inr lc')
    then obtain x where "jget (lc_records lc) (coordinate plugin version) = Some x" "lc' = persistState (lc\<lparr>lc_records := jset (coordinate plugin version) (x\<lparr>record_state := Active\<rparr>) (lc_records lc)\<rparr>)"
      by (auto simp: activate_def Let_def split: option.splits if_splits)
    then show ?thesis using Activate Inr update_inv [OF assms(1), of "coordinate plugin version" x "x\<lparr>record_state := Active\<rparr>"] by (simp add: lifecycle_next_def)
  qed (use assms Activate in \<open>simp add: lifecycle_next_def\<close>)
next
  case (Remove plugin version)
  show ?thesis
  proof (cases "remove_package plugin version lc")
    case (Inr lc')
    then obtain x where "jget (lc_records lc) (coordinate plugin version) = Some x" "lc' = persistState (lc\<lparr>lc_records := jset (coordinate plugin version) (x\<lparr>record_state := Removed\<rparr>) (lc_records lc)\<rparr>)"
      by (auto simp: remove_package_def Let_def split: option.splits if_splits)
    then show ?thesis using Remove Inr update_inv [OF assms(1), of "coordinate plugin version" x "x\<lparr>record_state := Removed\<rparr>"] by (simp add: lifecycle_next_def)
  qed (use assms Remove in \<open>simp add: lifecycle_next_def\<close>)
next
  case (Recover readable publications)
  then show ?thesis using recover_inv [OF assms(1), of publications readable] assms(2) by (simp add: lifecycle_next_def waits_turn_def)
qed

lemma package_inv_new: "package_inv (new_lifecycle stored)"
proof -
  have staged: "lc_staged (new_lifecycle stored) = []" by (simp add: new_lifecycle_def)
  have "restorable (new_lifecycle stored)" by (auto simp: restorable_def new_lifecycle_def restoreState_def split: option.splits)
  moreover have "records_keyed (lc_records (new_lifecycle stored))"
    using fold_records_keyed [of "[]"] by (simp add: new_lifecycle_def restoreState_def records_keyed_def split: option.splits)
  ultimately show ?thesis using staged by (simp add: package_inv_def staged_agree_def records_agree_def installing_def)
qed

interpretation packages: transition_system "\<lambda>lc. lc = new_lifecycle stored" "lifecycle_step dg" package_inv for stored dg
proof
  show "package_inv lc" if "lc = new_lifecycle stored" for lc using that package_inv_new by simp
  show "package_inv t" if "package_inv s" "lifecycle_step dg s e t" for s e t
    using that step_keeps [of s e dg] by (simp add: lifecycle_step_iff)
qed


text \<open>A concrete package in two variants with the same coordinate, and a digest that tells them apart.\<close>

definition package_sample_digests :: package_digests where
  "package_sample_digests = \<lparr>file_digest = (\<lambda>_. ''h''), manifest_digest = (\<lambda>m. Some (if package_files m = Some [Entry \<lparr>entry_path = ''x'', content_digest = ''h'', entry_byte_length = 0, executable = True\<rparr>] then ''d1'' else ''d2''))\<rparr>"

definition sample_manifest :: "bool \<Rightarrow> plugin_manifest" where
  "sample_manifest run = \<lparr>manifest_keys = manifestKeys, package_format_id = ''core:plugin'', package_format_version = 1, manifest_plugin_id = ''acme:lint'', manifest_plugin_version = ''1.0.0'',
     package_files = Some [Entry \<lparr>entry_path = ''x'', content_digest = ''h'', entry_byte_length = 0, executable = run\<rparr>]\<rparr>"

definition sample_install :: "bool \<Rightarrow> lifecycle_event" where
  "sample_install run = Install (sample_manifest run) [(''x'', [])] \<lparr>limit_file_bytes = None, limit_total_bytes = None\<rparr>"

definition sample_operation :: "int \<Rightarrow> bool \<Rightarrow> staged_operation" where
  "sample_operation n run = \<lparr>staged_occurrence = n, staged_key = ''acme:lint@1.0.0'', staged_manifest = sample_manifest run, staged_files = [(''x'', [])],
     staged_kind = Installing \<lparr>record_plugin_id = ''acme:lint'', record_plugin_version = ''1.0.0'', record_digest = (if run then ''d1'' else ''d2''), record_state = Installed\<rparr>\<rparr>"

abbreviation sample_run :: "lifecycle_event list \<Rightarrow> lifecycle" where
  "sample_run es \<equiv> fold (lifecycle_next package_sample_digests) es (new_lifecycle None)"

abbreviation package_sample_record :: "lifecycle \<Rightarrow> string option" where
  "package_sample_record lc \<equiv> map_option record_digest (jget (lc_records lc) ''acme:lint@1.0.0'')"

lemma sample_installed: "package_sample_record (sample_run [sample_install True, Settle (sample_operation 1 True) True]) = Some ''d1''"
  by code_simp

lemma sample_reachable: "reach (\<lambda>lc. lc = new_lifecycle None) (lifecycle_step package_sample_digests) (sample_run [sample_install True, Settle (sample_operation 1 True) True])"
proof -
  have "waits_turn (new_lifecycle None) (sample_install True)"
    by (simp add: waits_turn_def sample_install_def installing_def new_lifecycle_def restoreState_def)
  then have "lifecycle_step package_sample_digests (new_lifecycle None) (sample_install True) (sample_run [sample_install True])" by (simp add: lifecycle_step_iff)
  then have "reach (\<lambda>lc. lc = new_lifecycle None) (lifecycle_step package_sample_digests) (sample_run [sample_install True])" by (intro reach_step [OF reach_init]) simp_all
  moreover have "lifecycle_step package_sample_digests (sample_run [sample_install True]) (Settle (sample_operation 1 True) True) (sample_run [sample_install True, Settle (sample_operation 1 True) True])"
    by (simp add: lifecycle_step_iff waits_turn_def)
  ultimately show ?thesis by (rule reach_step)
qed

definition sample_publications :: "(string \<times> package_record) list" where
  "sample_publications = [(''acme:lint@1.0.0'', \<lparr>record_plugin_id = ''acme:lint'', record_plugin_version = ''1.0.0'', record_digest = ''d2'', record_state = Installed\<rparr>)]"


text \<open>
  Two overlapping installations of one coordinate with different contents both pass the check for a collision, and
  the second replaces the digest the first has reserved.
\<close>

lemma overlapping_installs:
  "package_sample_record (sample_run [sample_install True, sample_install False, Settle (sample_operation 1 True) True]) = Some ''d1''"
  "package_sample_record (sample_run [sample_install True, sample_install False, Settle (sample_operation 1 True) True, Settle (sample_operation 2 False) True]) = Some ''d2''"
  by code_simp+

end
