(* ===== verification/Spec2Isabelle.thy ===== *)
theory Spec2Isabelle
  imports Merkle_Bucket Merkle_Sparse Watcher_Manager Reconciliation_Safety Freshness Plugin_Graph Query_Graph Query_Diff Cursor_Laws Comparator_Laws
    Scheduler_Publication Redaction_Laws Security_Configuration Package_Laws
begin

text \<open>
  \<^bold>\<open>A verification development for Urdira\<close>, the local code-intelligence service whose sources are under \<open>src/\<close>.

  \<^bold>\<open>The program.\<close>  A daemon (\<open>packages/daemon\<close>) serves queries about workspaces.  Native file watchers feed hints into
  the engine (\<open>packages/engine\<close>), which debounces them, reconciles the workspace with its providers and publishes new
  snapshots; a query waits at a freshness barrier until the snapshots cover what it needs, then walks relations,
  compares snapshots and shows source snippets.  Stored state is identified by digests of canonical values
  (\<open>packages/canonical\<close>), analyzers are plugins chosen by a resolver (\<open>packages/plugin-sdk\<close>), and
  \<open>packages/security\<close> decides which files are read, which configuration applies and which packages are trusted.

  \<^bold>\<open>Foundations.\<close>  \<open>Urdira_Prelude\<close> has the result type of fallible code (an error on the left), the insertion-ordered
  \<open>Map\<close> as an association list, comparison functions as the locale \<open>comparator\<close> with a stable sort, and the
  locale \<open>transition_system\<close> through which every state machine below obtains its invariant by induction on reachable
  states.  Maps and lists follow JavaScript where it differs from HOL; numbers are \<open>int\<close>, or words and bit patterns
  where the width matters; strings are \<open>string\<close> where the code treats them as opaque or Latin-1 text, and lists of
  UTF-16 code units where the code looks at encodings.

  \<^bold>\<open>Canonical values\<close> (\<open>packages/canonical/src\<close>).
  \<^item> \<open>Digest_Text\<close>, \<open>Prefix_Tree\<close>: printed digests; the recomputation \<open>subtree\<close> of a node from the leaves, the walk
    \<open>path_fill\<close> that repairs one path, and the contract \<open>authenticated_set\<close> (equal contents have equal roots).
  \<^item> \<open>Merkle_Radix\<close> (\<open>merkle-radix.ts\<close>), \<open>Merkle_Bucket\<close> (\<open>merkle-bucket.ts\<close>), \<open>Merkle_Sparse\<close>
    (\<open>sparse-merkle.ts\<close>): the three sets, each with the invariant that ties its caches to its leaves, each an
    interpretation of the contract; bulk constructors agree with insertion, and the radix root commits to the leaves.
  \<^item> \<open>Logical_Encoding\<close>, \<open>Logical_Roundtrip\<close> (\<open>logical-encoding.ts\<close>): encoder, streaming encoder and decoder of
    framed values with their limits; the round trip and the agreement of the two encoders.
  \<^item> \<open>Canonical_Scalars\<close>, \<open>Canonical_Time\<close> (\<open>scalars.ts\<close>): normalisation of scalars; the timestamps are a bijection
    between the date-times of the calendar and the instants of the years 1 to 9999.
  \<^item> \<open>Canonical_Comparators\<close>, \<open>Comparator_Laws\<close> (\<open>comparators.ts\<close>): the comparison modes, the chain of keys and the
    sorts; the sorted result does not depend on the order of the input, decimals compare exactly.

  \<^bold>\<open>Watching and reconciling\<close> (\<open>packages/engine/src/watchers.ts\<close>, \<open>reconciliation.ts\<close>).
  \<^item> \<open>Watcher_Events\<close>, \<open>Watcher_Adapter\<close>, \<open>Watcher_Manager\<close>: normalisation and routing of events; the closure of the
    native subscription as a machine over its variables; the promise chains of the manager.  Every delivered event is
    routed, a failing backend is reported or rearmed, and callbacks of one workspace never overlap.
  \<^item> \<open>Reconciliation\<close>, \<open>Reconciliation_Safety\<close>: the coordinator with its timers and serial queue, one transition for
    each stretch between two awaits.  Hints are conserved, a barrier closes only on a commit and is never forgotten.
  \<^item> \<open>Freshness\<close>: the barrier queries wait at; its leases are accounted for and it resolves with snapshots of checkpoints that the
    port answered and that cover the targets.

  \<^bold>\<open>Scheduling\<close> (\<open>packages/daemon/src/scheduler.ts\<close>): \<open>Scheduler\<close>, \<open>Scheduler_Safety\<close>, \<open>Scheduler_Publication\<close>.
  Slots, quotas and leases stay within their bounds, runnable work is started, publications of a workspace are
  serialised.

  \<^bold>\<open>Plugins\<close> (\<open>packages/plugin-sdk/src\<close>).
  \<^item> \<open>Canonical_Json\<close>, \<open>Semver\<close> (\<open>canonical.ts\<close>, \<open>semver.ts\<close>): canonical JSON identifies exactly the values that differ in the order of keys;
    precedence is that of the standard and requirements mean their sets of versions.
  \<^item> \<open>Plugin_Resolution\<close>, \<open>Plugin_Graph\<close> (\<open>resolution.ts\<close>): the backtracking search, the cycle check and locks.  The
    search and the cycle check take fuel; \<open>resolve_terminates\<close> and \<open>detect_cycle_exact\<close> show that the fuel the
    definitions pass is always enough, and a returned selection is a consistent graph.

  \<^bold>\<open>Queries\<close> (\<open>packages/engine/src\<close>).
  \<^item> \<open>Query_Relations\<close>, \<open>Query_Graph\<close> (\<open>query-operators.ts\<close>): expansion and path search against walks of a graph.
  \<^item> \<open>Query_Comparison\<close>, \<open>Query_Diff\<close> (\<open>query-comparison.ts\<close>): the merge of two snapshots is their difference by key.
  \<^item> \<open>Cursor_Cache\<close>, \<open>Cursor_Laws\<close> (\<open>cursor-cache.ts\<close>): signed cursors are read back as written and only with their keyed
    hash, and following next cursors visits a stream of the in-memory manifests once and in order.
  \<^item> \<open>Manifest_Store\<close> (\<open>MemoryManifestStore\<close> of \<open>query-execution.ts\<close>, \<open>hydrate_item\<close> of \<open>canonical-query-data-port.ts\<close>): the
    segmented manifests behind the cursors.  A read is the slice of the stream after a position; the contract a page
    relies on is the locale \<open>manifest_reader\<close>.  The durable manifests are left out.
  \<^item> \<open>Snippet_Redaction\<close>, \<open>Redaction_Laws\<close> (\<open>source-snippet-utils.ts\<close> and \<open>security/src/snippets.ts\<close>): source windows and
    redaction; outside the marks a snippet shows exactly what no detection covers.

  \<^bold>\<open>Security\<close> (\<open>packages/security/src\<close>).
  \<^item> \<open>Path_Inclusion\<close> (\<open>inclusion.ts\<close>): globs against a relation on texts, and the decision on a path; the lemmas
    \<open>ordered_include_generated\<close> and \<open>directory_pattern\<close> record where it differs from docs/decisions/09.
  \<^item> \<open>Path_Safety\<close>, \<open>Path_Containment\<close> (\<open>paths.ts\<close>, \<open>inclusion.ts\<close>): containment as the prefix order on segments;
    normalised paths stay in the workspace, links that are followed stay in allowed roots and lead to ordinary
    files; linked directories above a file are not examined (\<open>linked_directory_unchecked\<close>).  Paths are POSIX, the file system is
    a parameter (the record \<open>file_system\<close>); the climb to an existing ancestor ends because \<open>dirname\<close> shortens paths.
  \<^item> \<open>Security_Configuration\<close> (\<open>configuration.ts\<close>): the merge is the greatest configuration below policy and layers.
  \<^item> \<open>Plugin_Packages\<close>, \<open>Package_Laws\<close> (\<open>packages.ts\<close>): inspection decides exactly the packages whose files are those
    the manifest declares (the version may be laxer than SemVer 2.0.0, \<open>lax_version\<close>); a coordinate keeps its digest, also
    through a recovery, while installations of it take turns.

  The theorem below crosses components: what the watchers report is what the path normalisation of the providers accepts.

  \<^bold>\<open>Parameters.\<close>  SHA-256, locale-dependent case mapping and comparison, the file system, the clock and the staging
  store are arguments of the definitions that use them.  Properties assume of them only what they state, and their
  witnesses instantiate them with concrete functions.

  \<^bold>\<open>Not modelled.\<close>  The tables of \<open>packages/contracts\<close> (generated data and types without operations of their own); the
  SQL and file formats of \<open>packages/storage\<close>, whose behaviour is that of SQLite; process, socket and HTTP plumbing of
  \<open>packages/daemon\<close>, \<open>cli\<close>, \<open>mcp\<close>, \<open>web\<close> and \<open>apps\<close>; the analyzers and workers of
  \<open>packages/plugin-javascript-typescript\<close>, which wrap the TypeScript compiler; the model runtime of
  \<open>packages/embedding-local\<close>; the Rust crates and \<open>packages/native\<close>; the test kit.  Of the engine, the query planner and
  pipeline, the durable manifests, the canonical data port apart from its hydration, indexing sessions, semantic reconciliation, index packs and the providers are left
  out: they move rows between the stores and the workers.  Of the security package, JSON parsing of layers, the regular
  expressions of secret detection and log redaction, downloads, model packs and the staging store are left out.
\<close>

section \<open>Watchers and providers\<close>

text \<open>The URI of a watcher hint has no backslash, no empty segment and no segment that moves.\<close>

lemma watcher_uri_plain:
  assumes "normalizedUri lower base path cs = Inr uri"
  shows "CHR 92 \<notin> set uri \<and> no_double_slash uri \<and> (uri = [] \<or> plain_segments (split_on CHR ''/'' uri)) \<and> \<not> is_absolute uri"
proof -
  define s t where "s = drop (length (slashPath base)) (slashPath path)" and "t = strip_leading s"
  have uri: "uri = strip_trailing t" and moves: "\<not> list_ex (\<lambda>segment. segment = ''.'' \<or> segment = ''..'') (split_on CHR ''/'' uri)"
    using assms by (auto simp: normalizedUri_def Let_def s_def t_def split: if_splits)
  obtain a where a: "slashPath path = a @ s" unfolding s_def by (metis append_take_drop_id)
  obtain b where b: "s = b @ t" unfolding t_def strip_leading_def by (metis takeWhile_dropWhile_id)
  obtain c where c: "t = uri @ c" using strip_trailing_split [of t] uri by blast
  have whole: "slashPath path = (a @ b) @ uri @ c" using a b c by simp
  have clean: "CHR 92 \<notin> set (slashPath path)" "no_double_slash (slashPath path)" using clean_slashPath [of path] by (auto simp: clean_path_def)
  have nd: "no_double_slash uri" using clean(2) unfolding whole by (simp only: successively_append_iff)
  have nb: "CHR 92 \<notin> set uri" using clean(1) unfolding whole by simp
  have last: "last uri \<noteq> CHR ''/''" if "uri \<noteq> []" using last_strip_trailing [of t] that uri by simp
  have hd: "hd uri \<noteq> CHR ''/''" if "uri \<noteq> []"
  proof -
    have "t \<noteq> []" "hd t = hd uri" using that c by auto
    then show ?thesis using hd_dropWhile [of "\<lambda>c. c = CHR ''/''" s] unfolding t_def strip_leading_def by auto
  qed
  have "plain_segments (split_on CHR ''/'' uri)" if "uri \<noteq> []"
    unfolding plain_segments_def
  proof
    fix w
    assume w: "w \<in> set (split_on CHR ''/'' uri)"
    have "w \<noteq> []" using split_on_segments [OF nd that hd [OF that] last [OF that]] w by blast
    moreover have "\<not> (w = ''.'' \<or> w = ''..'')" using moves w unfolding list_ex_iff by blast
    ultimately show "w \<noteq> [] \<and> w \<noteq> ''.'' \<and> w \<noteq> ''..'' \<and> CHR ''/'' \<notin> set w" using split_on_words [OF w] by blast
  qed
  moreover have "\<not> is_absolute uri" using hd by (cases uri) (auto simp: is_absolute_def)
  ultimately show ?thesis using nb nd by blast
qed

text \<open>
  C21.  The URI a watcher computes for an event is already a normalised workspace path: \<open>normalizeWorkspacePath\<close>, which the
  directory provider applies to it, returns it unchanged for every root, unless it contains a NUL or a segment that ends
  in a colon before another one.
\<close>

theorem watcher_uri_accepted:
  assumes "normalizedUri lower base path cs = Inr uri" and "CHR 0x00 \<notin> set uri" and "\<not> sublist '':/'' uri"
  shows "normalizeWorkspacePath cwd workspace uri = Inr uri"
proof -
  note u = watcher_uri_plain [OF assms(1)]
  define place where "place = segments (path_resolve cwd workspace)"
  have por: "portable uri = uri" using u by (intro portable_id) auto
  have walk: "walk_segments place (split_on CHR ''/'' uri) = place @ (if uri = [] then [] else split_on CHR ''/'' uri)"
    using u walk_append by (cases "uri = []") auto
  then have "walked_target cwd workspace uri = place @ (if uri = [] then [] else split_on CHR ''/'' uri)" by (simp add: walked_target_def por place_def)
  moreover have "\<not> drive_prefix uri" using drive_has_colon assms(3) by blast
  ultimately show ?thesis using assms(2,3) u unfolding normalizeWorkspacePath_segments por by (simp add: Let_def place_def)
qed

theorem watcher_uri_accepted_witness:
  "normalizedUri id ''/repo/'' ''/repo//src/a.ts/'' True = Inr ''src/a.ts'' \<and> normalizeWorkspacePath ''/'' ''/repo'' ''src/a.ts'' = Inr ''src/a.ts''"
proof -
  have run: "normalizedUri id ''/repo/'' ''/repo//src/a.ts/'' True = Inr ''src/a.ts''" by code_simp
  have "\<not> sublist '':/'' ''src/a.ts''" by code_simp
  then show ?thesis using watcher_uri_accepted [OF run] run by simp
qed

end
